(* ===== verification/Prelude.thy ===== *)
theory Prelude
  imports Main "HOL-Library.Word" "HOL-Library.Signed_Division"
begin

text \<open>
  The types, combinators and lemmas every component theory shares.

  A function of the source that can fail is a HOL function into the sum type \<open>'a res\<close>:
  \<open>Inr\<close> is a normal return, \<open>Inl\<close> says how the call ended otherwise. \<open>StatusErr c\<close> is a
  \<open>Status\<close> with code \<open>c\<close> returned to the caller (\<open>ORT_RETURN_IF_NOT\<close>,
  \<open>ORT_MAKE_STATUS\<close>), \<open>EnforceFailed\<close> the exception of a failed \<open>ORT_ENFORCE\<close>,
  \<open>Thrown\<close> an exception thrown by \<open>ORT_THROW\<close> or by \<open>SafeInt\<close>, \<open>OutOfRange\<close> the
  exception of \<open>std::vector::at\<close>, and \<open>Undefined\<close> an access or an operation that C++
  leaves undefined (an index past the end, a division by zero). A loop over a counter is
  \<open>foldE\<close> over the list of counter values.
\<close>

section \<open>Status codes and results\<close>

text \<open>\<open>StatusCode\<close> of include/onnxruntime/core/common/status.h, with its numbering.\<close>

datatype status_code =
    OK | FAIL | INVALID_ARGUMENT | NO_SUCHFILE | NO_MODEL | ENGINE_ERROR
  | RUNTIME_EXCEPTION | INVALID_PROTOBUF | MODEL_LOADED | NOT_IMPLEMENTED
  | INVALID_GRAPH | EP_FAIL

datatype ort_error =
    StatusErr status_code | EnforceFailed | Thrown | OutOfRange | Undefined

type_synonym 'a res = "ort_error + 'a"

named_theorems res_simps "equations that evaluate the result combinators"

definition bindE :: "'e + 'a \<Rightarrow> ('a \<Rightarrow> 'e + 'b) \<Rightarrow> 'e + 'b" where
  "bindE m f = (case m of Inl e \<Rightarrow> Inl e | Inr x \<Rightarrow> f x)"

definition enforce :: "bool \<Rightarrow> unit res" where
  "enforce c = (if c then Inr () else Inl EnforceFailed)"

definition return_if_not :: "bool \<Rightarrow> unit res" where
  "return_if_not c = (if c then Inr () else Inl (StatusErr FAIL))"

fun foldE :: "('a \<Rightarrow> 's \<Rightarrow> 'e + 's) \<Rightarrow> 'a list \<Rightarrow> 's \<Rightarrow> 'e + 's" where
  "foldE f [] s = Inr s"
| "foldE f (x # xs) s = bindE (f x s) (foldE f xs)"

lemma bindE_simps [simp, res_simps]:
  "bindE (Inl e) f = Inl e"
  "bindE (Inr x) f = f x"
  by (simp_all add: bindE_def)

lemma enforce_simps [simp, res_simps]:
  "enforce True = Inr ()"
  "enforce False = Inl EnforceFailed"
  by (simp_all add: enforce_def)

lemma return_if_not_simps [simp, res_simps]:
  "return_if_not True = Inr ()"
  "return_if_not False = Inl (StatusErr FAIL)"
  by (simp_all add: return_if_not_def)

lemma bindE_Inr_iff: "bindE m f = Inr y \<longleftrightarrow> (\<exists>x. m = Inr x \<and> f x = Inr y)"
  by (cases m) auto

lemma bindE_Inl_iff:
  "bindE m f = Inl e \<longleftrightarrow> m = Inl e \<or> (\<exists>x. m = Inr x \<and> f x = Inl e)"
  by (cases m) auto

lemma bindE_InrE [elim]:
  assumes "bindE m f = Inr y"
  obtains x where "m = Inr x" "f x = Inr y"
  using assms by (auto simp: bindE_Inr_iff)

lemma bindE_assoc: "bindE (bindE m f) g = bindE m (\<lambda>x. bindE (f x) g)"
  by (cases m) auto

lemma enforce_Inr_iff [simp]: "enforce c = Inr u \<longleftrightarrow> c"
  by (simp add: enforce_def)

lemma enforce_Inl_iff [simp]: "enforce c = Inl e \<longleftrightarrow> \<not> c \<and> e = EnforceFailed"
  by (auto simp: enforce_def)

lemma return_if_not_Inr_iff [simp]: "return_if_not c = Inr u \<longleftrightarrow> c"
  by (simp add: return_if_not_def)

lemma return_if_not_Inl_iff [simp]:
  "return_if_not c = Inl e \<longleftrightarrow> \<not> c \<and> e = StatusErr FAIL"
  by (auto simp: return_if_not_def)

lemma bindE_cong [fundef_cong]:
  "m = m' \<Longrightarrow> (\<And>x. m' = Inr x \<Longrightarrow> f x = g x) \<Longrightarrow> bindE m f = bindE m' g"
  by (cases m') auto

lemma foldE_append: "foldE f (xs @ ys) s = bindE (foldE f xs s) (foldE f ys)"
proof (induction xs arbitrary: s)
  case Nil
  show ?case by simp
next
  case (Cons x xs)
  then have "foldE f (xs @ ys) = (\<lambda>t. bindE (foldE f xs t) (foldE f ys))" by auto
  then show ?case by (simp add: bindE_assoc)
qed

lemma foldE_map: "foldE f (map g xs) s = foldE (\<lambda>x. f (g x)) xs s"
proof (induction xs arbitrary: s)
  case (Cons x xs)
  then have "foldE f (map g xs) = foldE (\<lambda>x. f (g x)) xs" by (rule ext)
  then show ?case by simp
qed simp

lemma rev_upt_Suc: "rev [1..<Suc n] = map (\<lambda>j. n - j) [0..<n]"
  by (rule nth_equalityI) (auto simp: rev_nth nth_append)

text \<open>A loop that counts down from \<open>n\<close> to 1 is a loop over \<open>n - j\<close>.\<close>

lemma foldE_down: "foldE f (rev [1..<Suc n]) s = foldE (\<lambda>j. f (n - j)) [0..<n] s"
  by (simp only: rev_upt_Suc foldE_map)

lemma foldE_cong [fundef_cong]:
  "xs = ys \<Longrightarrow> s = t \<Longrightarrow> (\<And>x u. x \<in> set ys \<Longrightarrow> f x u = g x u) \<Longrightarrow> foldE f xs s = foldE g ys t"
proof (induction xs arbitrary: ys s t)
  case Nil
  then show ?case by auto
next
  case (Cons x xs)
  have "foldE f xs u = foldE g xs u" for u
    by (rule Cons.IH) (use Cons.prems in auto)
  then show ?case using Cons.prems by (auto simp: bindE_def split: sum.splits)
qed

text \<open>
  The rule for counted loops: an invariant that the body keeps and that makes the body
  return normally gives a normal return of the whole loop.
\<close>

lemma foldE_upt_total:
  assumes init: "P 0 s"
    and step: "\<And>i t. i < n \<Longrightarrow> P i t \<Longrightarrow> \<exists>t'. f i t = Inr t' \<and> P (Suc i) t'"
  shows "\<exists>s'. foldE f [0..<n] s = Inr s' \<and> P n s'"
  using step
proof (induction n)
  case 0
  with init show ?case by simp
next
  case (Suc n)
  have "\<exists>t. foldE f [0..<n] s = Inr t \<and> P n t"
  proof (rule Suc.IH)
    fix i t assume "i < n" "P i t"
    then show "\<exists>t'. f i t = Inr t' \<and> P (Suc i) t'" using Suc.prems [of i t] by simp
  qed
  then obtain t where t: "foldE f [0..<n] s = Inr t" "P n t" by blast
  from Suc.prems [of n t] t(2) obtain t' where "f n t = Inr t'" "P (Suc n) t'" by auto
  with t(1) show ?case by (simp add: foldE_append)
qed

text \<open>The same for partial correctness: what a loop that returned has established.\<close>

lemma foldE_upt_partial:
  assumes ret: "foldE f [0..<n] s = Inr s'" and init: "P 0 s"
    and step: "\<And>i t t'. i < n \<Longrightarrow> P i t \<Longrightarrow> f i t = Inr t' \<Longrightarrow> P (Suc i) t'"
  shows "P n s'"
  using ret step
proof (induction n arbitrary: s')
  case 0
  with init show ?case by simp
next
  case (Suc n)
  from Suc.prems(1) obtain t where t: "foldE f [0..<n] s = Inr t" "f n t = Inr s'"
    by (auto simp: foldE_append bindE_Inr_iff)
  have "P n t"
  proof (rule Suc.IH [OF t(1)])
    fix i u u' assume "i < n" "P i u" "f i u = Inr u'"
    then show "P (Suc i) u'" using Suc.prems(2) [of i u u'] by simp
  qed
  with t(2) show ?case using Suc.prems(2) [of n t s'] by simp
qed

text \<open>A counted loop that keeps an invariant can only fail in its body.\<close>

lemma foldE_upt_Inl:
  assumes err: "foldE f [0..<n] s = Inl e" and init: "P 0 s"
    and step: "\<And>i t t'. i < n \<Longrightarrow> P i t \<Longrightarrow> f i t = Inr t' \<Longrightarrow> P (Suc i) t'"
  shows "\<exists>i t. i < n \<and> P i t \<and> f i t = Inl e"
  using err step
proof (induction n)
  case 0
  then show ?case by simp
next
  case (Suc n)
  show ?case
  proof (cases "foldE f [0..<n] s")
    case (Inl e')
    with Suc.prems(1) have "foldE f [0..<n] s = Inl e" by (simp add: foldE_append)
    then have "\<exists>i t. i < n \<and> P i t \<and> f i t = Inl e"
    proof (rule Suc.IH)
      fix i u u' assume "i < n" "P i u" "f i u = Inr u'"
      then show "P (Suc i) u'" using Suc.prems(2) [of i u u'] by simp
    qed
    then show ?thesis by (auto intro: less_SucI)
  next
    case (Inr t)
    with Suc.prems(1) have "f n t = Inl e" by (cases "f n t") (simp_all add: foldE_append)
    moreover have "P n t"
    proof (rule foldE_upt_partial [where P = P and s = s and f = f, OF Inr init])
      fix i u u' assume "i < n" "P i u" "f i u = Inr u'"
      then show "P (Suc i) u'" using Suc.prems(2) [of i u u'] by simp
    qed
    ultimately show ?thesis by blast
  qed
qed

section \<open>Vectors with checked indices\<close>

text \<open>
  \<open>operator[]\<close> of a vector or a C array: past the end it is undefined. \<open>vget_back xs k\<close> is
  the element at index \<open>xs.size() - k\<close>, whose index wraps around when \<open>k\<close> exceeds the size.
\<close>

definition vget :: "'a list \<Rightarrow> nat \<Rightarrow> 'a res" where
  "vget xs i = (if i < length xs then Inr (xs ! i) else Inl Undefined)"

definition vget_back :: "'a list \<Rightarrow> nat \<Rightarrow> 'a res" where
  "vget_back xs k =
     (if 1 \<le> k \<and> k \<le> length xs then Inr (xs ! (length xs - k)) else Inl Undefined)"

definition vset :: "'a list \<Rightarrow> nat \<Rightarrow> 'a \<Rightarrow> 'a list res" where
  "vset xs i x = (if i < length xs then Inr (xs[i := x]) else Inl Undefined)"

definition vat :: "'a list \<Rightarrow> nat \<Rightarrow> 'a res" where
  "vat xs i = (if i < length xs then Inr (xs ! i) else Inl OutOfRange)"

lemma vget_Inr [simp]: "i < length xs \<Longrightarrow> vget xs i = Inr (xs ! i)"
  by (simp add: vget_def)

lemma vat_Inr [simp]: "i < length xs \<Longrightarrow> vat xs i = Inr (xs ! i)"
  by (simp add: vat_def)

lemma vset_Inr [simp]: "i < length xs \<Longrightarrow> vset xs i x = Inr (xs[i := x])"
  by (simp add: vset_def)

lemma vget_back_Inr [simp]:
  "1 \<le> k \<Longrightarrow> k \<le> length xs \<Longrightarrow> vget_back xs k = Inr (xs ! (length xs - k))"
  by (simp add: vget_back_def)

lemma vget_Inr_iff: "vget xs i = Inr y \<longleftrightarrow> i < length xs \<and> y = xs ! i"
  by (auto simp: vget_def)

lemma vat_Inr_iff: "vat xs i = Inr y \<longleftrightarrow> i < length xs \<and> y = xs ! i"
  by (auto simp: vat_def)

lemma vset_Inr_iff: "vset xs i x = Inr ys \<longleftrightarrow> i < length xs \<and> ys = xs[i := x]"
  by (auto simp: vset_def)

lemma vget_back_Inr_iff:
  "vget_back xs k = Inr y \<longleftrightarrow> 1 \<le> k \<and> k \<le> length xs \<and> y = xs ! (length xs - k)"
  by (auto simp: vget_back_def)

lemmas access_iff = vget_Inr_iff vat_Inr_iff vset_Inr_iff vget_back_Inr_iff

section \<open>Locales shared by several components\<close>

text \<open>
  A pair of conversions between two representations of which one direction loses nothing:
  the numeric codes of the Java bindings and the 16-bit float formats provide it.
\<close>

locale lossless =
  fixes encode :: "'a \<Rightarrow> 'b" and decode :: "'b \<Rightarrow> 'a"
  assumes decode_encode: "decode (encode x) = x"
begin

lemma encode_inj: "encode x = encode y \<Longrightarrow> x = y"
  by (metis decode_encode)

lemma decode_surj: "\<exists>y. decode y = x"
  using decode_encode by blast

lemma map_roundtrip: "map decode (map encode xs) = xs"
  by (simp add: decode_encode comp_def)

lemma encode_decode_idem: "encode (decode (encode x)) = encode x"
  by (simp add: decode_encode)

lemma encode_decode_image: "y \<in> range encode \<Longrightarrow> encode (decode y) = y"
  by (auto simp: decode_encode)

end

end
