(* ===== verification/Radix.thy ===== *)
theory Radix
  imports Prelude
begin

text \<open>
  Index arithmetic shared by the tensor components: filling a buffer position by
  position, row-major strides of a list of dimensions (outermost first, as a
  \<open>TensorShape\<close> has them), and the index that a multi-dimensional position has under
  given strides. \<open>rm_index ds ss n\<close> splits the linear position \<open>n\<close> into its coordinates
  in the box \<open>ds\<close> and adds up coordinate times stride.
\<close>

section \<open>Filling a buffer in order\<close>

definition filled :: "(nat \<Rightarrow> 'a) \<Rightarrow> 'a list \<Rightarrow> nat \<Rightarrow> 'a list \<Rightarrow> bool" where
  "filled g d0 n d \<longleftrightarrow>
     length d = length d0 \<and> (\<forall>p < length d0. d ! p = (if p < n then g p else d0 ! p))"

lemma filled_0 [simp]: "filled g d0 0 d0"
  by (simp add: filled_def)

lemma filled_length: "filled g d0 n d \<Longrightarrow> length d = length d0"
  by (simp add: filled_def)

lemma filled_step:
  "filled g d0 n d \<Longrightarrow> n < length d0 \<Longrightarrow> filled g d0 (Suc n) (d[n := g n])"
  by (auto simp: filled_def nth_list_update less_Suc_eq)

lemma filled_nth: "filled g d0 n d \<Longrightarrow> p < n \<Longrightarrow> p < length d0 \<Longrightarrow> d ! p = g p"
  by (simp add: filled_def)

lemma filled_nth_ge: "filled g d0 n d \<Longrightarrow> n \<le> p \<Longrightarrow> p < length d0 \<Longrightarrow> d ! p = d0 ! p"
  by (simp add: filled_def)

lemma filled_all: "filled g d0 (length d0) d \<Longrightarrow> d = map g [0..<length d0]"
  by (auto simp: filled_def intro!: nth_equalityI)

section \<open>Division facts for nested counters\<close>

lemma div_mult_add [simp]: "(k::nat) < b \<Longrightarrow> (q * b + k) div b = q"
  by simp

lemma mod_mult_add [simp]: "(k::nat) < b \<Longrightarrow> (q * b + k) mod b = k"
  by simp

lemma mult_add_less: "(q::nat) < a \<Longrightarrow> k < b \<Longrightarrow> q * b + k < a * b"
proof -
  assume "q < a" "k < b"
  then have "q * b + k < Suc q * b" by simp
  also have "\<dots> \<le> a * b" using \<open>q < a\<close> by (intro mult_le_mono1) simp
  finally show ?thesis .
qed

lemma prod_list_pos_iff: "0 < prod_list (ds :: nat list) \<longleftrightarrow> 0 \<notin> set ds"
  by (induction ds) auto

section \<open>Row-major strides and indices\<close>

fun suffix_strides :: "nat list \<Rightarrow> nat list" where
  "suffix_strides [] = []"
| "suffix_strides (d # ds) = prod_list ds # suffix_strides ds"

fun rm_index :: "nat list \<Rightarrow> nat list \<Rightarrow> nat \<Rightarrow> nat" where
  "rm_index (d # ds) (s # ss) n = (n div prod_list ds) * s + rm_index ds ss (n mod prod_list ds)"
| "rm_index _ _ n = 0"

lemma length_suffix_strides [simp]: "length (suffix_strides ds) = length ds"
  by (induction ds) auto

lemma suffix_strides_nth: "i < length ds \<Longrightarrow> suffix_strides ds ! i = prod_list (drop (Suc i) ds)"
proof (induction ds arbitrary: i)
  case (Cons d ds)
  then show ?case by (cases i) auto
qed simp

lemma rm_index_suffix: "n < prod_list ds \<Longrightarrow> rm_index ds (suffix_strides ds) n = n"
proof (induction ds arbitrary: n)
  case Nil
  then show ?case by simp
next
  case (Cons d ds)
  then have "0 < prod_list ds" by (cases "prod_list ds") auto
  then have "n mod prod_list ds < prod_list ds" by simp
  with Cons.IH show ?case by simp
qed

text \<open>
  Broadcasting: an operand whose dimension is 1 repeats along that axis, so its stride
  there is 0.
\<close>

definition bstrides :: "nat list \<Rightarrow> nat list" where
  "bstrides ds = map2 (\<lambda>d s. if d = 1 then 0 else s) ds (suffix_strides ds)"

definition broadcast_to :: "nat list \<Rightarrow> nat list \<Rightarrow> bool" where
  "broadcast_to ds os \<longleftrightarrow> list_all2 (\<lambda>d q. d = q \<or> d = 1) ds os"

lemma length_bstrides [simp]: "length (bstrides ds) = length ds"
  by (simp add: bstrides_def)

lemma bstrides_Cons [simp]:
  "bstrides (d # ds) = (if d = 1 then 0 else prod_list ds) # bstrides ds"
  by (simp add: bstrides_def)

lemma broadcast_to_Nil [simp]: "broadcast_to [] os \<longleftrightarrow> os = []"
  by (auto simp: broadcast_to_def)

lemma broadcast_to_Cons:
  "broadcast_to (d # ds) os \<longleftrightarrow>
     (\<exists>q qs. os = q # qs \<and> (d = q \<or> d = 1) \<and> broadcast_to ds qs)"
  by (cases os) (auto simp: broadcast_to_def)

lemma broadcast_to_refl [simp]: "broadcast_to ds ds"
  by (simp add: broadcast_to_def list_all2_refl)

lemma rm_index_bcast_less:
  "broadcast_to ds os \<Longrightarrow> n < prod_list os \<Longrightarrow> rm_index os (bstrides ds) n < prod_list ds"
proof (induction ds arbitrary: os n)
  case Nil
  then show ?case by simp
next
  case (Cons d ds)
  from Cons.prems(1) obtain q qs where os: "os = q # qs" "d = q \<or> d = 1"
    and b: "broadcast_to ds qs" by (auto simp: broadcast_to_Cons)
  from Cons.prems(2) os have pos: "0 < prod_list qs" by (cases "prod_list qs") auto
  then have rest: "rm_index qs (bstrides ds) (n mod prod_list qs) < prod_list ds"
    by (intro Cons.IH b) simp
  have nq: "n div prod_list qs < q"
    using Cons.prems(2) os pos by (simp add: less_mult_imp_div_less)
  show ?case
  proof (cases "d = 1")
    case True
    with os rest show ?thesis by simp
  next
    case False
    with os nq have "n div prod_list qs < d" by auto
    with mult_add_less [OF this rest] os False show ?thesis by simp
  qed
qed

lemma rm_index_same: "n < prod_list ds \<Longrightarrow> rm_index ds (bstrides ds) n = n"
proof (induction ds arbitrary: n)
  case Nil
  then show ?case by simp
next
  case (Cons d ds)
  then have pos: "0 < prod_list ds" by (cases "prod_list ds") auto
  then have "rm_index ds (bstrides ds) (n mod prod_list ds) = n mod prod_list ds"
    by (intro Cons.IH) simp
  moreover have "d = 1 \<Longrightarrow> n < prod_list ds" using Cons.prems pos by simp
  ultimately show ?case by auto
qed

end
