(* ===== verification/PimGemm.thy ===== *)
theory PimGemm
  imports Radix
begin

text \<open>
  The PIM weight layout of onnxruntime/core/providers/pim/math/gemm.h and the device
  geometry of pim/helper/pim_interface.h. \<open>wgt_align_chunk\<close> copies a row-major weight
  matrix into the layout the PIM banks read: the columns are cut into chunks of
  \<open>CHUNK\<close> elements, and chunk after chunk all rows are stored, the last chunk padded with
  zeros. A \<open>Bfloat16\<close> is a 16-bit word (execution_provider.h). The two arrays are lists,
  an index past the end of one is \<open>Undefined\<close>. The \<open>int\<close> arguments are mathematical
  integers: a product that leaves the range of \<open>int\<close> is undefined in C++ and outside the
  model.
\<close>

section \<open>Device geometry (pim_interface.h)\<close>

definition BURST_SIZE :: nat where "BURST_SIZE = 32"
definition TYPE_SIZE :: nat where "TYPE_SIZE = 2"
definition REG_SIZE :: nat where "REG_SIZE = BURST_SIZE div TYPE_SIZE"
definition NUM_BANKS :: nat where "NUM_BANKS = 16"
definition PIM_WIDTH :: nat where "PIM_WIDTH = REG_SIZE * NUM_BANKS * TYPE_SIZE"
definition CHUNK :: nat where "CHUNK = 256"

lemmas geometry_defs = BURST_SIZE_def TYPE_SIZE_def REG_SIZE_def NUM_BANKS_def
  PIM_WIDTH_def CHUNK_def

type_synonym bf16 = "16 word"

section \<open>The kernel's attributes\<close>

text \<open>
  The \<open>Gemm\<close> constructor reads four attributes; each \<open>GetAttr\<close> either has a value or
  fails, and a failed one ends the construction. The float type is a parameter.
\<close>

record 'f gemm_attrs =
  is_trans_A :: bool
  is_trans_B :: bool
  gemm_alpha :: 'f
  gemm_beta :: 'f

definition enforce_ok :: "'a option \<Rightarrow> 'a res" where
  "enforce_ok r = (case r of None \<Rightarrow> Inl EnforceFailed | Some x \<Rightarrow> Inr x)"

definition Gemm_init ::
  "(string \<Rightarrow> int option) \<Rightarrow> (string \<Rightarrow> 'f option) \<Rightarrow> 'f gemm_attrs res" where
  "Gemm_init GetAttr_int GetAttr_float =
     bindE (enforce_ok (GetAttr_int ''transA'')) (\<lambda>tA.
     let trans_A = (if tA = 0 then False else True) in
     bindE (enforce_ok (GetAttr_int ''transB'')) (\<lambda>tB.
     let trans_B = (if tB = 0 then False else True) in
     bindE (enforce_ok (GetAttr_float ''alpha'')) (\<lambda>al.
     bindE (enforce_ok (GetAttr_float ''beta'')) (\<lambda>be.
     Inr \<lparr>is_trans_A = trans_A, is_trans_B = trans_B, gemm_alpha = al, gemm_beta = be\<rparr>))))"

section \<open>Weight alignment\<close>

text \<open>One element: \<open>dst[dest_idx] = v; dest_idx++\<close>.\<close>

definition put :: "bf16 \<Rightarrow> bf16 list \<times> nat \<Rightarrow> (bf16 list \<times> nat) res" where
  "put v st = (case st of (dst, dest_idx) \<Rightarrow>
     bindE (vset dst dest_idx v) (\<lambda>dst'. Inr (dst', dest_idx + 1)))"

text \<open>The loops over \<open>k\<close>: a full chunk, and the last chunk with its zero padding.\<close>

definition copy_chunk ::
  "bf16 list \<Rightarrow> nat \<Rightarrow> nat \<Rightarrow> nat \<Rightarrow> bf16 list \<times> nat \<Rightarrow> (bf16 list \<times> nat) res" where
  "copy_chunk src col_dim i j st =
     foldE (\<lambda>k st. bindE (vget src (i * CHUNK + j * col_dim + k)) (\<lambda>v. put v st))
       [0..<CHUNK] st"

definition copy_last_chunk ::
  "bf16 list \<Rightarrow> nat \<Rightarrow> nat \<Rightarrow> nat \<Rightarrow> bf16 list \<times> nat \<Rightarrow> (bf16 list \<times> nat) res" where
  "copy_last_chunk src col_dim i j st =
     foldE (\<lambda>k st. if i * CHUNK + k < col_dim
                   then bindE (vget src (i * CHUNK + j * col_dim + k)) (\<lambda>v. put v st)
                   else put 0 st)
       [0..<CHUNK] st"

definition col_chunk_num :: "int \<Rightarrow> int" where
  "col_chunk_num col_dim =
     (if col_dim smod int CHUNK \<noteq> 0
      then (int CHUNK * (col_dim sdiv int CHUNK + 1)) sdiv int CHUNK
      else col_dim sdiv int CHUNK)"

text \<open>
  The result is the destination array and whether the message "NOT SUPPORTED, NEED
  ALIGNMENT" was printed.
\<close>

definition wgt_align_chunk ::
  "bf16 list \<Rightarrow> bf16 list \<Rightarrow> int \<Rightarrow> int \<Rightarrow> (bf16 list \<times> bool) res" where
  "wgt_align_chunk src dst row_dim col_dim =
     (let chunks = col_chunk_num col_dim in
      if col_dim > int CHUNK then
        bindE (foldE (\<lambda>i. foldE (\<lambda>j.
                 if int i < chunks - 1 then copy_chunk src (nat col_dim) i j
                 else copy_last_chunk src (nat col_dim) i j)
               [0..<nat row_dim]) [0..<nat chunks] (dst, 0))
          (\<lambda>(dst', _). Inr (dst', False))
      else if col_dim = int CHUNK then
        bindE (foldE (\<lambda>i dst. bindE (vget src i) (vset dst i)) [0..<nat (row_dim * col_dim)] dst)
          (\<lambda>dst'. Inr (dst', False))
      else Inr (dst, True))"

section \<open>The layout as a function of the position\<close>

definition num_chunks :: "nat \<Rightarrow> nat" where
  "num_chunks c = (c + 255) div 256"

definition aligned :: "bf16 list \<Rightarrow> nat \<Rightarrow> nat \<Rightarrow> nat \<Rightarrow> bf16" where
  "aligned src r c p =
     (let k = p mod 256; j = (p div 256) mod r; i = (p div 256) div r
      in if i * 256 + k < c then src ! (i * 256 + j * c + k) else 0)"

definition align_pos :: "nat \<Rightarrow> nat \<Rightarrow> nat \<Rightarrow> nat" where
  "align_pos r c q =
     (let j = q div c; x = q mod c in (x div 256 * r + j) * 256 + x mod 256)"

lemma CHUNK_eq [simp]: "CHUNK = 256"
  by (simp add: CHUNK_def)

lemma num_chunks_split:
  assumes "m < 256"
  shows "num_chunks (q * 256 + m) = (if m = 0 then q else q + 1)"
proof (cases "m = 0")
  case True
  then show ?thesis using div_mult_add [of 255 256 q] by (simp only: num_chunks_def) simp
next
  case False
  then have "q * 256 + m + 255 = (q + 1) * 256 + (m - 1)" by simp
  moreover have "m - 1 < 256" using assms by simp
  ultimately have "(q * 256 + m + 255) div 256 = q + 1" by (metis div_mult_add)
  with False show ?thesis by (simp only: num_chunks_def if_False)
qed

lemma num_chunks_cases:
  "num_chunks c = (if c mod 256 = 0 then c div 256 else c div 256 + 1)"
proof -
  have "c mod 256 < 256" by simp
  from num_chunks_split [OF this, of "c div 256"] show ?thesis by (simp only: div_mult_mod_eq)
qed

lemma col_chunk_num_eq: "col_chunk_num (int c) = int (num_chunks c)"
proof -
  have dv: "int c sdiv 256 = int (c div 256)"
    by (cases "c = 0") (simp_all add: signed_divide_int_def zdiv_int)
  have md: "int c smod 256 = int (c mod 256)"
    by (cases "c = 0") (simp_all add: signed_modulo_int_def zmod_int)
  have up: "(256 * (int (c div 256) + 1)) sdiv 256 = int (c div 256) + 1"
    by (simp add: signed_divide_int_def sgn_if)
  show ?thesis
  proof (cases "c mod 256 = 0")
    case True
    then have n: "num_chunks c = c div 256"
      by (simp only: num_chunks_cases if_True simp_thms)
    have "int c smod int CHUNK = 0" using True by (simp only: CHUNK_eq of_nat_numeral md)
    then show ?thesis
      by (simp only: col_chunk_num_def n CHUNK_eq of_nat_numeral dv if_False simp_thms)
  next
    case False
    then have n: "num_chunks c = c div 256 + 1" by (simp only: num_chunks_cases if_True if_False)
    have "int c smod int CHUNK \<noteq> 0" using False by (simp only: CHUNK_eq of_nat_numeral md)
    then show ?thesis
      by (simp only: col_chunk_num_def n CHUNK_eq of_nat_numeral dv up if_True
          of_nat_add of_nat_1 not_False_eq_True)
  qed
qed

lemma align_loop_pos:
  assumes "j < r" "k < 256"
  shows "aligned src r c ((i * r + j) * 256 + k)
       = (if i * 256 + k < c then src ! (i * 256 + j * c + k) else 0)"
proof -
  have "((i * r + j) * 256 + k) mod 256 = k" "((i * r + j) * 256 + k) div 256 = i * r + j"
    using assms(2) by (rule mod_mult_add, rule div_mult_add)
  then show ?thesis using assms unfolding aligned_def Let_def by simp
qed

text \<open>The state of the loops: positions below \<open>dest_idx\<close> hold the aligned matrix.\<close>

definition align_inv :: "bf16 list \<Rightarrow> nat \<Rightarrow> nat \<Rightarrow> bf16 list \<Rightarrow> nat \<Rightarrow> bf16 list \<times> nat \<Rightarrow> bool" where
  "align_inv src r c d0 n st \<longleftrightarrow> snd st = n \<and> filled (aligned src r c) d0 n (fst st)"

lemma put_align:
  assumes "align_inv src r c d0 n st" "n < length d0" "v = aligned src r c n"
  shows "\<exists>st'. put v st = Inr st' \<and> align_inv src r c d0 (Suc n) st'"
  using assms by (cases st) (auto simp: put_def align_inv_def filled_length intro!: filled_step)

lemma copy_chunk_inv:
  assumes inv: "align_inv src r c d0 ((i * r + j) * 256) st"
    and j: "j < r" and i: "(i + 1) * 256 \<le> c"
    and src: "r * c \<le> length src" and dst: "(i * r + j + 1) * 256 \<le> length d0"
  shows "\<exists>st'. copy_chunk src c i j st = Inr st' \<and>
           align_inv src r c d0 ((i * r + j + 1) * 256) st'"
proof -
  let ?P = "\<lambda>k. align_inv src r c d0 ((i * r + j) * 256 + k)"
  have "\<exists>st'. copy_chunk src c i j st = Inr st' \<and> ?P 256 st'"
    unfolding copy_chunk_def CHUNK_eq
  proof (rule foldE_upt_total [where P = ?P])
    show "?P 0 st" using inv by simp
    fix k t assume k: "k < 256" and t: "?P k t"
    have "j * c + c \<le> r * c" using mult_le_mono1 [of "Suc j" r c] j by simp
    then have s: "i * 256 + j * c + k < length src" using i k src by simp
    have d: "(i * r + j) * 256 + k < length d0" using dst k by simp
    have v: "src ! (i * 256 + j * c + k) = aligned src r c ((i * r + j) * 256 + k)"
      using align_loop_pos [OF j k, of src c i] i k by simp
    show "\<exists>t'. bindE (vget src (i * 256 + j * c + k)) (\<lambda>v. put v t) = Inr t' \<and> ?P (Suc k) t'"
      using put_align [OF t d v] s by simp
  qed
  then show ?thesis by (simp add: algebra_simps)
qed

lemma copy_last_chunk_inv:
  assumes inv: "align_inv src r c d0 ((i * r + j) * 256) st" and j: "j < r"
    and src: "r * c \<le> length src" and dst: "(i * r + j + 1) * 256 \<le> length d0"
  shows "\<exists>st'. copy_last_chunk src c i j st = Inr st' \<and>
           align_inv src r c d0 ((i * r + j + 1) * 256) st'"
proof -
  let ?P = "\<lambda>k. align_inv src r c d0 ((i * r + j) * 256 + k)"
  have "\<exists>st'. copy_last_chunk src c i j st = Inr st' \<and> ?P 256 st'"
    unfolding copy_last_chunk_def CHUNK_eq
  proof (rule foldE_upt_total [where P = ?P])
    show "?P 0 st" using inv by simp
    fix k t assume k: "k < 256" and t: "?P k t"
    have "j * c + c \<le> r * c" using mult_le_mono1 [of "Suc j" r c] j by simp
    then have s: "i * 256 + k < c \<Longrightarrow> i * 256 + j * c + k < length src" using src by simp
    have d: "(i * r + j) * 256 + k < length d0" using dst k by simp
    note v = align_loop_pos [OF j k, of src c i]
    show "\<exists>t'. (if i * 256 + k < c
        then bindE (vget src (i * 256 + j * c + k)) (\<lambda>v. put v t) else put 0 t) = Inr t' \<and>
        ?P (Suc k) t'"
      using put_align [OF t d refl] s v by (cases "i * 256 + k < c") auto
  qed
  then show ?thesis by (simp add: algebra_simps)
qed


lemma chunk_row_bound:
  assumes "i < n" "j < r" "n * r * 256 \<le> (L::nat)"
  shows "(i * r + j + 1) * 256 \<le> L"
proof -
  have "Suc (i * r + j) \<le> n * r" using mult_add_less [OF assms(1,2)] by simp
  then have "Suc (i * r + j) * 256 \<le> n * r * 256" by (rule mult_le_mono1)
  with assms(3) show ?thesis by simp
qed

lemma full_chunk_bound:
  assumes "i + 1 < num_chunks c"
  shows "(i + 1) * 256 \<le> c"
proof -
  have "i + 1 \<le> c div 256" using assms by (simp add: num_chunks_cases split: if_splits)
  then have "(i + 1) * 256 \<le> c div 256 * 256" by (rule mult_le_mono1)
  also have "\<dots> \<le> c" by simp
  finally show ?thesis .
qed

lemma align_rows_inv:
  assumes inv: "align_inv src r c d0 (i * r * 256) st" and i: "i < num_chunks c"
    and src: "r * c \<le> length src" and dst: "num_chunks c * r * 256 \<le> length d0"
  shows "\<exists>st'. foldE (\<lambda>j. if int i < int (num_chunks c) - 1 then copy_chunk src c i j
                           else copy_last_chunk src c i j) [0..<r] st = Inr st' \<and>
           align_inv src r c d0 (Suc i * r * 256) st'"
proof -
  let ?P = "\<lambda>j. align_inv src r c d0 ((i * r + j) * 256)"
  have "\<exists>st'. foldE (\<lambda>j. if int i < int (num_chunks c) - 1 then copy_chunk src c i j
                        else copy_last_chunk src c i j) [0..<r] st = Inr st' \<and> ?P r st'"
  proof (rule foldE_upt_total [where P = ?P])
    show "?P 0 st" using inv by (simp only: add_0_right)
    fix j t assume j: "j < r" and t: "?P j t"
    note b = chunk_row_bound [OF i j dst]
    show "\<exists>t'. (if int i < int (num_chunks c) - 1 then copy_chunk src c i j
                else copy_last_chunk src c i j) t = Inr t' \<and> ?P (Suc j) t'"
    proof (cases "int i < int (num_chunks c) - 1")
      case True
      then have "(i + 1) * 256 \<le> c" by (intro full_chunk_bound) linarith
      from copy_chunk_inv [OF t j this src b] True show ?thesis by simp
    next
      case False
      with copy_last_chunk_inv [OF t j src b] show ?thesis by simp
    qed
  qed
  then show ?thesis by (simp add: add.commute)
qed

lemma wgt_align_wide:
  assumes c: "256 < c" and src: "r * c \<le> length src"
    and dst: "num_chunks c * r * 256 \<le> length dst"
  shows "\<exists>dst'. wgt_align_chunk src dst (int r) (int c) = Inr (dst', False) \<and>
           filled (aligned src r c) dst (num_chunks c * r * 256) dst'"
proof -
  let ?P = "\<lambda>i. align_inv src r c dst (i * r * 256)"
  let ?body = "\<lambda>i. foldE (\<lambda>j. if int i < int (num_chunks c) - 1 then copy_chunk src c i j
                             else copy_last_chunk src c i j) [0..<r]"
  have "\<exists>st'. foldE ?body [0..<num_chunks c] (dst, 0) = Inr st' \<and> ?P (num_chunks c) st'"
  proof (rule foldE_upt_total [where P = ?P])
    show "?P 0 (dst, 0)" by (simp add: align_inv_def)
    fix i t assume "i < num_chunks c" "?P i t"
    then show "\<exists>t'. ?body i t = Inr t' \<and> ?P (Suc i) t'"
      by (intro align_rows_inv src dst)
  qed
  then obtain st' where st': "foldE ?body [0..<num_chunks c] (dst, 0) = Inr st'"
    "?P (num_chunks c) st'" by blast
  then show ?thesis using c
    by (cases st') (simp add: wgt_align_chunk_def col_chunk_num_eq Let_def align_inv_def
        cong: if_cong)
qed

lemma aligned_256:
  assumes "p < r * 256"
  shows "aligned src r 256 p = src ! p"
proof -
  have p: "p = p div 256 * 256 + p mod 256" by simp
  have "p div 256 < r" using assms by (simp add: less_mult_imp_div_less)
  then have "aligned src r 256 p = src ! (p div 256 * 256 + p mod 256)"
    by (simp add: aligned_def Let_def)
  with p show ?thesis by metis
qed

lemma wgt_align_narrow:
  assumes src: "r * 256 \<le> length src" and dst: "r * 256 \<le> length dst"
  shows "\<exists>dst'. wgt_align_chunk src dst (int r) 256 = Inr (dst', False) \<and>
           filled (aligned src r 256) dst (r * 256) dst'"
proof -
  let ?P = "filled (aligned src r 256) dst"
  have "\<exists>d. foldE (\<lambda>i dst. bindE (vget src i) (vset dst i)) [0..<r * 256] dst = Inr d \<and>
          ?P (r * 256) d"
  proof (rule foldE_upt_total [where P = ?P])
    show "?P 0 dst" by simp
    fix i t assume i: "i < r * 256" and t: "?P i t"
    from filled_step [OF t] i dst aligned_256 [OF i, of src]
    show "\<exists>t'. bindE (vget src i) (vset t i) = Inr t' \<and> ?P (Suc i) t'"
      using src filled_length [OF t] by simp
  qed
  moreover have "nat (int r * 256) = r * 256" by (simp add: nat_mult_distrib)
  ultimately show ?thesis by (auto simp: wgt_align_chunk_def)
qed

lemma wgt_align_supported:
  assumes "256 \<le> c" and "r * c \<le> length src" and "num_chunks c * r * 256 \<le> length dst"
  shows "\<exists>dst'. wgt_align_chunk src dst (int r) (int c) = Inr (dst', False) \<and>
           filled (aligned src r c) dst (num_chunks c * r * 256) dst'"
proof (cases "c = 256")
  case True
  then have "num_chunks c = 1" by (simp add: num_chunks_def)
  with True assms wgt_align_narrow [of r src dst] show ?thesis by simp
next
  case False
  with assms show ?thesis by (intro wgt_align_wide) auto
qed

lemma align_pos_aligned:
  assumes q: "q < r * c"
  shows "aligned src r c (align_pos r c q) = src ! q"
    and "align_pos r c q < num_chunks c * r * 256"
proof -
  let ?j = "q div c" and ?x = "q mod c"
  from q have c: "0 < c" by (cases c) auto
  have j: "?j < r" using q by (simp add: less_mult_imp_div_less)
  have x: "?x < c" using c by simp
  have k: "?x mod 256 < 256" by simp
  have xs: "?x div 256 * 256 + ?x mod 256 = ?x" by simp
  have "aligned src r c (align_pos r c q)
      = (if ?x div 256 * 256 + ?x mod 256 < c
         then src ! (?x div 256 * 256 + ?j * c + ?x mod 256) else 0)"
    unfolding align_pos_def Let_def by (rule align_loop_pos [OF j k])
  also have "\<dots> = src ! (?j * c + ?x)" using x xs by (simp add: add.assoc add.commute)
  finally show "aligned src r c (align_pos r c q) = src ! q" by simp
  have "?x div 256 < num_chunks c"
    unfolding num_chunks_def using x div_le_mono [of ?x "c - 1" 256]
    by (simp add: less_Suc_eq_le [symmetric])
  from mult_add_less [OF this j] have "?x div 256 * r + ?j < num_chunks c * r" .
  from mult_add_less [OF this k] show "align_pos r c q < num_chunks c * r * 256"
    by (simp add: align_pos_def Let_def)
qed

lemma align_pos_inj:
  assumes "q < r * c" "q' < r * c" "align_pos r c q = align_pos r c q'"
  shows "q = q'"
proof -
  let ?s = "\<lambda>q. q div c" and ?x = "\<lambda>q. q mod c"
  have r: "0 < r" using assms(1) by (cases r) auto
  have j: "?s q < r" "?s q' < r" using assms by (simp_all add: less_mult_imp_div_less)
  let ?h = "\<lambda>q. ?x q div 256 * r + ?s q"
  have m: "?x q mod 256 < 256" "?x q' mod 256 < 256" by simp_all
  have eq: "?h q * 256 + ?x q mod 256 = ?h q' * 256 + ?x q' mod 256"
    using assms(3) by (simp add: align_pos_def Let_def)
  from arg_cong [OF eq, of "\<lambda>n. n div 256"] have h: "?h q = ?h q'"
    by (simp only: div_mult_add m)
  from arg_cong [OF eq, of "\<lambda>n. n mod 256"] have lo: "?x q mod 256 = ?x q' mod 256"
    by (simp only: mod_mult_add m)
  from arg_cong [OF h, of "\<lambda>n. n div r"] have hi: "?x q div 256 = ?x q' div 256"
    by (simp only: div_mult_add j)
  from arg_cong [OF h, of "\<lambda>n. n mod r"] have "?s q = ?s q'"
    by (simp only: mod_mult_add j)
  moreover have "?x q = ?x q'" using hi lo by (metis div_mult_mod_eq)
  ultimately show ?thesis by (metis div_mult_mod_eq)
qed

text \<open>How many elements the loops write, for the bound on the destination.\<close>

lemma put_partial: "put v (d, n) = Inr st' \<Longrightarrow> n < length d \<and> length (fst st') = length d \<and> snd st' = Suc n"
  by (auto simp: put_def bindE_Inr_iff vset_Inr_iff)

definition wrote :: "nat \<Rightarrow> nat \<Rightarrow> bf16 list \<times> nat \<Rightarrow> bool" where
  "wrote L n st \<longleftrightarrow> length (fst st) = L \<and> snd st = n \<and> n \<le> L"

lemma put_wrote: "put v st = Inr st' \<Longrightarrow> wrote L n st \<Longrightarrow> wrote L (Suc n) st'"
  by (cases st) (auto simp: wrote_def dest!: put_partial)

lemma copy_chunk_wrote:
  assumes "copy_chunk src c i j st = Inr st'" "wrote L n st"
  shows "wrote L (n + 256) st'"
proof (rule foldE_upt_partial [where P = "\<lambda>k. wrote L (n + k)"])
  show "foldE (\<lambda>k st. bindE (vget src (i * 256 + j * c + k)) (\<lambda>v. put v st)) [0..<256] st = Inr st'"
    using assms(1) by (simp only: copy_chunk_def CHUNK_eq)
qed (use assms(2) in \<open>auto dest: put_wrote\<close>)

lemma copy_last_chunk_wrote:
  assumes "copy_last_chunk src c i j st = Inr st'" "wrote L n st"
  shows "wrote L (n + 256) st'"
proof (rule foldE_upt_partial [where P = "\<lambda>k. wrote L (n + k)"])
  show "foldE (\<lambda>k st. if i * 256 + k < c
          then bindE (vget src (i * 256 + j * c + k)) (\<lambda>v. put v st) else put 0 st)
          [0..<256] st = Inr st'"
    using assms(1) by (simp only: copy_last_chunk_def CHUNK_eq)
qed (use assms(2) in \<open>auto dest: put_wrote split: if_splits\<close>)

lemma wgt_align_wide_needs_room:
  assumes c: "256 < c" and ret: "wgt_align_chunk src dst (int r) (int c) = Inr res"
  shows "num_chunks c * r * 256 \<le> length dst"
proof -
  let ?b = "\<lambda>i j. if int i < int (num_chunks c) - 1 then copy_chunk src c i j
                 else copy_last_chunk src c i j"
  let ?L = "length dst"
  from c ret obtain st where st: "foldE (\<lambda>i. foldE (?b i) [0..<r]) [0..<num_chunks c] (dst, 0) = Inr st"
    by (auto simp: wgt_align_chunk_def col_chunk_num_eq bindE_Inr_iff cong: if_cong)
  have "wrote ?L (num_chunks c * (r * 256)) st"
  proof (rule foldE_upt_partial [OF st, where P = "\<lambda>i. wrote ?L (i * (r * 256))"])
    show "wrote ?L (0 * (r * 256)) (dst, 0)" by (simp add: wrote_def)
    fix i t t'
    assume t: "wrote ?L (i * (r * 256)) t" and row: "foldE (?b i) [0..<r] t = Inr t'"
    have "wrote ?L (i * (r * 256) + r * 256) t'"
    proof (rule foldE_upt_partial [OF row, where P = "\<lambda>j. wrote ?L (i * (r * 256) + j * 256)"])
      show "wrote ?L (i * (r * 256) + 0 * 256) t" using t by simp
      fix j u u'
      assume u: "wrote ?L (i * (r * 256) + j * 256) u" and b: "?b i j u = Inr u'"
      then have "wrote ?L (i * (r * 256) + j * 256 + 256) u'"
        by (auto split: if_splits dest: copy_chunk_wrote copy_last_chunk_wrote)
      then show "wrote ?L (i * (r * 256) + Suc j * 256) u'" by (simp add: algebra_simps)
    qed
    then show "wrote ?L (Suc i * (r * 256)) t'" by (simp add: algebra_simps)
  qed
  then show ?thesis by (simp add: wrote_def algebra_simps)
qed

section \<open>Properties\<close>



text \<open>
  No weight is lost and none is duplicated: after the alignment every matrix element
  \<open>q\<close> stands at its own position \<open>align_pos r c q\<close> inside the layout, two elements never
  share a position, and the original matrix can be read back.
\<close>

theorem wgt_align_lossless:
  assumes "256 \<le> c" and "length src = r * c" and "num_chunks c * r * 256 \<le> length dst"
  shows "\<exists>dst'. wgt_align_chunk src dst (int r) (int c) = Inr (dst', False) \<and>
           map (\<lambda>q. dst' ! align_pos r c q) [0..<r * c] = src \<and>
           inj_on (align_pos r c) {..<r * c} \<and>
           align_pos r c ` {..<r * c} \<subseteq> {..<num_chunks c * r * 256}"
proof -
  have "r * c \<le> length src" using assms(2) by simp
  from wgt_align_supported [OF assms(1) this assms(3)] obtain dst'
    where d: "wgt_align_chunk src dst (int r) (int c) = Inr (dst', False)"
    and f: "filled (aligned src r c) dst (num_chunks c * r * 256) dst'" by blast
  have "dst' ! align_pos r c q = src ! q" if q: "q < r * c" for q
    using align_pos_aligned(1) [OF q, of src] align_pos_aligned(2) [OF q] filled_nth [OF f, of "align_pos r c q"] assms(3) by simp
  then have "map (\<lambda>q. dst' ! align_pos r c q) [0..<r * c] = src"
    using assms(2) by (intro nth_equalityI) auto
  moreover have "inj_on (align_pos r c) {..<r * c}"
    by (auto intro!: inj_onI dest: align_pos_inj)
  ultimately show ?thesis using d align_pos_aligned(2) by (auto simp: image_subset_iff)
qed

theorem wgt_align_lossless_witness:
  "\<exists>dst'. wgt_align_chunk (replicate 600 7) (replicate 1024 1) 2 300 = Inr (dst', False) \<and>
     map (\<lambda>q. dst' ! align_pos 2 300 q) [0..<600] = replicate 600 7"
proof -
  have "num_chunks 300 = 2" by (simp add: num_chunks_def)
  then show ?thesis
    using wgt_align_lossless [of 300 "replicate 600 7" 2 "replicate 1024 1"] by auto
qed

text \<open>
  The room the destination needs: with more than one chunk of columns the routine
  writes \<open>num_chunks c * r\<close> chunks of 256 elements, so a smaller destination is always
  overrun (no call returns normally). With a large enough destination and source it is not.
\<close>

theorem wgt_align_room:
  assumes "256 < c" and "r * c \<le> length src"
  shows "(\<exists>res. wgt_align_chunk src dst (int r) (int c) = Inr res) \<longleftrightarrow>
         num_chunks c * r * 256 \<le> length dst"
  using assms wgt_align_wide_needs_room [of c src dst r] wgt_align_wide [of c r src dst] by blast

theorem wgt_align_room_witness:
  "\<not> (\<exists>res. wgt_align_chunk (replicate 300 7) (replicate 511 0) 1 300 = Inr res)"
  using wgt_align_room [where c = 300 and r = 1 and src = "replicate 300 7" and dst = "replicate 511 0"]
  by (simp add: num_chunks_def)

text \<open>Below one chunk of columns nothing is copied: the destination keeps its old contents.\<close>

lemma wgt_align_small: "col_dim < 256 \<Longrightarrow> wgt_align_chunk src dst row_dim col_dim = Inr (dst, True)"
  by (simp add: wgt_align_chunk_def)

lemma chunk_is_pim_width: "CHUNK * TYPE_SIZE = PIM_WIDTH"
  by (simp add: geometry_defs)

end
