(* ===== verification/MatMul.thy ===== *)
theory MatMul
  imports Radix
begin

text \<open>
  \<open>MatMulComputeHelper\<close> of onnxruntime/core/providers/cpu/math/matmul_helper.h: shape
  inference for matrix multiplication with broadcasting over leading dimensions, and the
  element offsets of the matrices of each batch entry. The record holds the private
  members. The dimensions are those of run-time tensors, which are not negative, so a
  dimension is a \<open>nat\<close>; the products (\<open>int64_t\<close> and \<open>size_t\<close>) are taken without
  wrap-around, which covers tensors with fewer than \<open>2^63\<close> elements.
  \<open>TensorShape::SizeToDimension\<close> is only declared in the sources
  (tensor_shape.h), so it is the parameter \<open>size_to_dim\<close>; the law it is documented with
  is \<open>doc_size_to_dim\<close>.
\<close>

section \<open>State\<close>

record matmul_helper =
  left_mat_size :: nat
  right_mat_size :: nat
  output_mat_size :: nat
  num_broadcasted_dims :: nat
  left_padded_dims :: "nat list"
  right_padded_dims :: "nat list"
  output_broadcast_dims :: "nat list"
  left_padded_strides :: "nat list"
  right_padded_strides :: "nat list"
  output_broadcast_strides :: "nat list"
  output_shape :: "nat list"
  mm_M :: nat
  mm_N :: nat
  mm_K :: nat
  left_offsets :: "nat list"
  right_offsets :: "nat list"
  output_offsets :: "nat list"

text \<open>\<open>TensorShape::CopyDims\<close> into the vector \<open>v\<close> from position \<open>p\<close> on.\<close>

definition CopyDims :: "nat list \<Rightarrow> nat \<Rightarrow> nat list \<Rightarrow> nat \<Rightarrow> nat list res" where
  "CopyDims shape p v num_dims =
     (let k = min num_dims (length shape) in
      if p + k \<le> length v then Inr (take p v @ take k shape @ drop (p + k) v)
      else Inl Undefined)"

definition vresize :: "nat \<Rightarrow> 'a \<Rightarrow> 'a list \<Rightarrow> 'a list" where
  "vresize n x v = take n v @ replicate (n - length v) x"

section \<open>Broadcast offsets\<close>

text \<open>
  \<open>RecursiveFill\<close>; its first argument is the number of dimensions still to go,
  \<open>num_broadcasted_dims - idx_dim\<close>.
\<close>

fun RecursiveFill :: "nat \<Rightarrow> nat \<Rightarrow> nat \<Rightarrow> nat \<Rightarrow> matmul_helper \<Rightarrow> matmul_helper res" where
  "RecursiveFill 0 idx_left idx_right idx_out h =
     bindE (vset (left_offsets h) idx_out (idx_left * left_mat_size h)) (\<lambda>lo.
     bindE (vset (right_offsets h) idx_out (idx_right * right_mat_size h)) (\<lambda>ro.
     bindE (vset (output_offsets h) idx_out (idx_out * output_mat_size h)) (\<lambda>oo.
     Inr (h\<lparr>left_offsets := lo, right_offsets := ro, output_offsets := oo\<rparr>))))"
| "RecursiveFill (Suc todo) idx_left idx_right idx_out h =
     (let idx_dim = num_broadcasted_dims h - Suc todo in
      bindE (vget (left_padded_dims h) idx_dim) (\<lambda>left_dim.
      bindE (vget (right_padded_dims h) idx_dim) (\<lambda>right_dim.
      bindE (vget (output_broadcast_dims h) idx_dim) (\<lambda>output_dim.
      bindE (vget (left_padded_strides h) idx_dim) (\<lambda>left_stride.
      bindE (vget (right_padded_strides h) idx_dim) (\<lambda>right_stride.
      bindE (vget (output_broadcast_strides h) idx_dim) (\<lambda>output_stride.
      foldE (\<lambda>i. RecursiveFill todo
                (idx_left + i * (if left_dim = 1 then 0 else left_stride))
                (idx_right + i * (if right_dim = 1 then 0 else right_stride))
                (idx_out + i * output_stride))
        [0..<output_dim] h)))))))"

text \<open>One step of the loop over the strides, at \<open>idx = i - 1\<close>.\<close>

definition next_stride :: "bool \<Rightarrow> nat list \<Rightarrow> nat list \<Rightarrow> nat \<Rightarrow> nat res" where
  "next_stride last_dim strides dims idx =
     (if last_dim then Inr 1
      else bindE (vget strides (idx + 1)) (\<lambda>s. bindE (vget dims (idx + 1)) (\<lambda>d. Inr (s * d))))"

definition stride_step :: "nat \<Rightarrow> matmul_helper \<Rightarrow> matmul_helper res" where
  "stride_step i h =
     (let idx = i - 1; last_dim = (i = num_broadcasted_dims h) in
      bindE (vget (left_padded_dims h) idx) (\<lambda>ld.
      bindE (vget (right_padded_dims h) idx) (\<lambda>rd.
      bindE (vset (output_broadcast_dims h) idx (max ld rd)) (\<lambda>obd.
      bindE (next_stride last_dim (output_broadcast_strides h) obd idx) (\<lambda>so.
      bindE (vset (output_broadcast_strides h) idx so) (\<lambda>obs.
      bindE (next_stride last_dim (left_padded_strides h) (left_padded_dims h) idx) (\<lambda>sl.
      bindE (vset (left_padded_strides h) idx sl) (\<lambda>ls.
      bindE (next_stride last_dim (right_padded_strides h) (right_padded_dims h) idx) (\<lambda>sr.
      bindE (vset (right_padded_strides h) idx sr) (\<lambda>rs.
      Inr (h\<lparr>output_broadcast_dims := obd, output_broadcast_strides := obs,
             left_padded_strides := ls, right_padded_strides := rs\<rparr>)))))))))))"

definition ComputeBroadcastOffsets :: "matmul_helper \<Rightarrow> matmul_helper res" where
  "ComputeBroadcastOffsets h0 =
     (let n = length (left_padded_dims h0) - 2;
          h1 = h0\<lparr>num_broadcasted_dims := n\<rparr>
      in if n = 0 then Inr (h1\<lparr>left_offsets := [0], right_offsets := [0], output_offsets := [0]\<rparr>)
      else
        let h2 = h1\<lparr>left_mat_size := mm_M h1 * mm_K h1, right_mat_size := mm_K h1 * mm_N h1,
                    output_mat_size := mm_M h1 * mm_N h1,
                    left_padded_strides := vresize n 0 (left_padded_strides h1),
                    right_padded_strides := vresize n 0 (right_padded_strides h1),
                    output_broadcast_strides := vresize n 0 (output_broadcast_strides h1),
                    output_broadcast_dims := vresize n 0 (output_broadcast_dims h1)\<rparr>
        in bindE (foldE stride_step (rev [1..<Suc n]) h2) (\<lambda>h3.
           bindE (vget (output_broadcast_dims h3) 0) (\<lambda>d0.
           bindE (vget (output_broadcast_strides h3) 0) (\<lambda>s0.
           let num_offsets = d0 * s0 in
           RecursiveFill n 0 0 0
             (h3\<lparr>left_offsets := vresize num_offsets 0 (left_offsets h3),
                 right_offsets := vresize num_offsets 0 (right_offsets h3),
                 output_offsets := vresize num_offsets 0 (output_offsets h3)\<rparr>)))))"

section \<open>Compute\<close>

text \<open>The special case that flattens the left operand to two dimensions.\<close>

definition compute_flat ::
  "(nat list \<Rightarrow> nat \<Rightarrow> nat) \<Rightarrow> nat list \<Rightarrow> nat list \<Rightarrow> bool \<Rightarrow> matmul_helper \<Rightarrow> matmul_helper res" where
  "compute_flat size_to_dim left right transb h =
     bindE (vget_back left 1) (\<lambda>K.
     bindE (vget_back right 2) (\<lambda>r2.
     bindE (vget_back right 1) (\<lambda>r1.
     let N = (if transb then r2 else r1);
         h' = h\<lparr>mm_M := size_to_dim left (length left - 1), mm_K := K, mm_N := N,
                output_shape := left[length left - 1 := N],
                output_offsets := [0], left_offsets := [0], right_offsets := [0]\<rparr>
     in bindE (return_if_not (K = r2 \<or> transb \<and> K = r1)) (\<lambda>_. Inr h'))))"

text \<open>Padding both shapes to the common number of dimensions.\<close>

definition pad_dims ::
  "nat list \<Rightarrow> nat list \<Rightarrow> bool \<Rightarrow> (nat list \<times> nat list) res" where
  "pad_dims left right transa =
     (let ln = length left; rn = length right;
          num_input_dims = max ln rn;
          ndp = num_input_dims + (if rn = 1 then 1 else 0);
          lp0 = replicate ndp 1; rp0 = replicate ndp 1
      in if rn = 1 then
           bindE (vget right 0) (\<lambda>r0.
           bindE (vset rp0 (ndp - 2) r0) (\<lambda>rp.
           if num_input_dims \<ge> 2 then
             bindE (CopyDims left 0 lp0 (ln - 2)) (\<lambda>lp1.
             bindE (vget_back left (if transa then 1 else 2)) (\<lambda>m.
             bindE (vset lp1 (ndp - 3) m) (\<lambda>lp2.
             bindE (vget_back left (if transa then 2 else 1)) (\<lambda>k.
             bindE (vset lp2 (ndp - 1) k) (\<lambda>lp. Inr (lp, rp))))))
           else bindE (CopyDims left (ndp - ln) lp0 ln) (\<lambda>lp. Inr (lp, rp))))
         else
           bindE (CopyDims left (ndp - ln) lp0 ln) (\<lambda>lp.
           bindE (CopyDims right (ndp - rn) rp0 rn) (\<lambda>rp. Inr (lp, rp))))"

text \<open>One dimension of the broadcast check.\<close>

definition broadcast_step :: "nat list \<Rightarrow> nat list \<Rightarrow> nat \<Rightarrow> nat list \<Rightarrow> nat list res" where
  "broadcast_step lp rp idx_dim output_dims =
     bindE (vget lp idx_dim) (\<lambda>l.
     bindE (vget rp idx_dim) (\<lambda>r.
     let d = max l r in
     bindE (vset output_dims idx_dim d) (\<lambda>od.
     bindE (if l \<noteq> d then return_if_not (l = 1) else Inr ()) (\<lambda>_.
     bindE (if r \<noteq> d then return_if_not (r = 1) else Inr ()) (\<lambda>_. Inr od)))))"

text \<open>The matrix dimensions \<open>M\<close>, \<open>K\<close>, \<open>N\<close>.\<close>

definition matrix_dims :: "nat list \<Rightarrow> nat list \<Rightarrow> bool \<Rightarrow> bool \<Rightarrow> (nat \<times> nat \<times> nat) res" where
  "matrix_dims left right transa transb =
     (let has_1D_input = (length left = 1 \<or> length right = 1) in
      bindE (if has_1D_input then Inr 1 else vget_back left (if transa then 1 else 2)) (\<lambda>M.
      bindE (vget_back left (if transa then 2 else 1)) (\<lambda>K.
      bindE (if length right = 1 then Inr 1 else vget_back right (if transb then 2 else 1)) (\<lambda>N.
      Inr (M, K, N)))))"

text \<open>The last checks and the last output dimensions.\<close>

definition output_matrix_dims ::
  "nat list \<Rightarrow> nat list \<Rightarrow> bool \<Rightarrow> nat \<Rightarrow> nat \<Rightarrow> nat \<Rightarrow> nat \<Rightarrow> nat list \<Rightarrow> nat list res" where
  "output_matrix_dims left right transb ndp M K N output_dims =
     (let ln = length left; rn = length right; nod = length output_dims in
      if \<not> (ln = 1 \<or> rn = 1) then
        bindE (vget_back right (if transb then 1 else 2)) (\<lambda>rk.
        bindE (return_if_not (K = rk)) (\<lambda>_.
        bindE (return_if_not (ndp = nod)) (\<lambda>_.
        bindE (vset output_dims (nod - 2) M) (\<lambda>od. vset od (nod - 1) N))))
      else if nod = 0 then
        bindE (return_if_not (M = 1 \<and> N = 1)) (\<lambda>_. Inr output_dims)
      else if ln = 1 then
        bindE (return_if_not (ndp - 1 = nod)) (\<lambda>_.
        bindE (vget_back right (if transb then 1 else 2)) (\<lambda>rk.
        bindE (return_if_not (K = rk)) (\<lambda>_. vset output_dims (nod - 1) N)))
      else
        bindE (return_if_not (ndp - 2 = nod)) (\<lambda>_.
        bindE (vget right 0) (\<lambda>r0.
        bindE (return_if_not (K = r0)) (\<lambda>_. Inr output_dims))))"

text \<open>The documented result of \<open>SizeToDimension\<close>: the number of elements of a prefix.\<close>

definition doc_size_to_dim :: "(nat list \<Rightarrow> nat \<Rightarrow> nat) \<Rightarrow> bool" where
  "doc_size_to_dim f \<longleftrightarrow> (\<forall>ds k. k \<le> length ds \<longrightarrow> f ds k = prod_list (take k ds))"

definition MatMul_Compute ::
  "(nat list \<Rightarrow> nat \<Rightarrow> nat) \<Rightarrow> nat list \<Rightarrow> nat list \<Rightarrow> bool \<Rightarrow> bool \<Rightarrow> matmul_helper \<Rightarrow>
   matmul_helper res" where
  "MatMul_Compute size_to_dim left right transa transb h =
     (let ln = length left; rn = length right in
      bindE (return_if_not (ln \<ge> 1 \<and> rn \<ge> 1)) (\<lambda>_.
      if \<not> transa \<and> ln \<ge> 2 \<and> rn \<ge> 2 \<and> ln \<ge> rn \<and>
         size_to_dim right (rn - 1) = right ! (rn - 2)
      then compute_flat size_to_dim left right transb h
      else
        let has_1D_input = (ln = 1 \<or> rn = 1);
            num_input_dims = max ln rn;
            ndp = num_input_dims + (if rn = 1 then 1 else 0);
            nod = num_input_dims - (if has_1D_input then 1 else 0)
        in bindE (pad_dims left right transa) (\<lambda>(lp, rp).
           bindE (foldE (broadcast_step lp rp) [0..<ndp - 2] (replicate nod 0)) (\<lambda>od.
           bindE (matrix_dims left right transa transb) (\<lambda>(M, K, N).
           bindE (output_matrix_dims left right transb ndp M K N od) (\<lambda>od'.
           ComputeBroadcastOffsets
             (h\<lparr>left_padded_dims := lp, right_padded_dims := rp, mm_M := M, mm_K := K,
                mm_N := N, output_shape := od'\<rparr>)))))))"

definition matmul_fresh :: matmul_helper where
  "matmul_fresh = \<lparr>left_mat_size = 0, right_mat_size = 0, output_mat_size = 0,
     num_broadcasted_dims = 0, left_padded_dims = [], right_padded_dims = [],
     output_broadcast_dims = [], left_padded_strides = [], right_padded_strides = [],
     output_broadcast_strides = [], output_shape = [], mm_M = 0, mm_N = 0, mm_K = 0,
     left_offsets = [], right_offsets = [], output_offsets = []\<rparr>"

text \<open>
  \<open>OffsetToArrays\<close>: the addresses \<open>p + offset\<close>; the lengths have to agree.
\<close>

definition OffsetToArrays :: "nat \<Rightarrow> nat list \<Rightarrow> nat list \<Rightarrow> nat list res" where
  "OffsetToArrays p offsets arrays =
     bindE (enforce (length arrays = length offsets)) (\<lambda>_.
     foldE (\<lambda>i arr. bindE (vget offsets i) (\<lambda>q. vset arr i (p + q))) [0..<length offsets] arrays)"

section \<open>The offsets that are filled in\<close>

lemma length_vresize [simp]: "length (vresize n x v) = n"
  by (simp add: vresize_def)

definition fill_state ::
  "(nat \<Rightarrow> nat) \<Rightarrow> (nat \<Rightarrow> nat) \<Rightarrow> matmul_helper \<Rightarrow> nat \<Rightarrow> matmul_helper \<Rightarrow> bool" where
  "fill_state gl gr h0 n h \<longleftrightarrow>
     (\<exists>lo ro oo. h = h0\<lparr>left_offsets := lo, right_offsets := ro, output_offsets := oo\<rparr> \<and>
        filled (\<lambda>i. gl i * left_mat_size h0) (left_offsets h0) n lo \<and>
        filled (\<lambda>i. gr i * right_mat_size h0) (right_offsets h0) n ro \<and>
        filled (\<lambda>i. i * output_mat_size h0) (output_offsets h0) n oo)"

lemma fill_state_0: "fill_state gl gr h 0 h"
proof -
  have "h = h\<lparr>left_offsets := left_offsets h, right_offsets := right_offsets h,
              output_offsets := output_offsets h\<rparr>" by simp
  then show ?thesis unfolding fill_state_def by (metis filled_0)
qed

text \<open>What \<open>RecursiveFill\<close> reads: the first \<open>n\<close> dimensions and their row-major strides.\<close>

definition fill_ready :: "nat list \<Rightarrow> nat list \<Rightarrow> nat list \<Rightarrow> nat \<Rightarrow> matmul_helper \<Rightarrow> bool" where
  "fill_ready L R Q N h \<longleftrightarrow>
     num_broadcasted_dims h = length Q \<and> length L = length Q \<and> length R = length Q \<and>
     length Q \<le> length (left_padded_dims h) \<and> take (length Q) (left_padded_dims h) = L \<and>
     length Q \<le> length (right_padded_dims h) \<and> take (length Q) (right_padded_dims h) = R \<and>
     output_broadcast_dims h = Q \<and>
     left_padded_strides h = suffix_strides L \<and> right_padded_strides h = suffix_strides R \<and>
     output_broadcast_strides h = suffix_strides Q \<and>
     length (left_offsets h) = N \<and> length (right_offsets h) = N \<and> length (output_offsets h) = N"

lemma fill_ready_state:
  "fill_ready L R Q N h0 \<Longrightarrow> fill_state gl gr h0 n h \<Longrightarrow> fill_ready L R Q N h"
  by (auto simp: fill_ready_def fill_state_def filled_length)

lemma fill_leaf:
  assumes "fill_ready L R Q N h0" "fill_state gl gr h0 n h" "n < N" "gl n = l" "gr n = r"
  shows "\<exists>h'. RecursiveFill 0 l r n h = Inr h' \<and> fill_state gl gr h0 (Suc n) h'"
proof -
  from assms(2) obtain lo ro oo where
    h: "h = h0\<lparr>left_offsets := lo, right_offsets := ro, output_offsets := oo\<rparr>"
    and f: "filled (\<lambda>i. gl i * left_mat_size h0) (left_offsets h0) n lo"
      "filled (\<lambda>i. gr i * right_mat_size h0) (right_offsets h0) n ro"
      "filled (\<lambda>i. i * output_mat_size h0) (output_offsets h0) n oo"
    by (auto simp: fill_state_def)
  have N: "n < length (left_offsets h0)" "n < length (right_offsets h0)"
    "n < length (output_offsets h0)" using assms(1,3) by (auto simp: fill_ready_def)
  note st = filled_step [OF f(1) N(1)] filled_step [OF f(2) N(2)] filled_step [OF f(3) N(3)]
  have "RecursiveFill 0 l r n h = Inr (h0\<lparr>left_offsets := lo[n := l * left_mat_size h0],
     right_offsets := ro[n := r * right_mat_size h0],
     output_offsets := oo[n := n * output_mat_size h0]\<rparr>)"
    using N filled_length [OF f(1)] filled_length [OF f(2)] filled_length [OF f(3)]
    by (simp add: h)
  with st assms(4,5) show ?thesis unfolding fill_state_def by auto
qed

lemma drop_rm_index:
  assumes k: "k < length ds" and l: "length ss = length ds" and m: "m < prod_list (drop (Suc k) ds)"
  shows "rm_index (drop k ds) (drop k ss) (i * prod_list (drop (Suc k) ds) + m)
       = i * ss ! k + rm_index (drop (Suc k) ds) (drop (Suc k) ss) m"
  using k l m by (simp add: Cons_nth_drop_Suc [symmetric])

lemma bstrides_nth: "k < length ds \<Longrightarrow> bstrides ds ! k = (if ds ! k = 1 then 0 else suffix_strides ds ! k)"
  by (simp add: bstrides_def)

lemma RecursiveFill_fill:
  assumes ready: "fill_ready L R Q N h0" and todo: "todo \<le> length Q"
    and gl: "\<And>m. m < prod_list (drop (length Q - todo) Q) \<Longrightarrow>
        gl (n + m) = l + rm_index (drop (length Q - todo) Q) (drop (length Q - todo) (bstrides L)) m"
    and gr: "\<And>m. m < prod_list (drop (length Q - todo) Q) \<Longrightarrow>
        gr (n + m) = r + rm_index (drop (length Q - todo) Q) (drop (length Q - todo) (bstrides R)) m"
    and room: "n + prod_list (drop (length Q - todo) Q) \<le> N"
    and h: "fill_state gl gr h0 n h"
  shows "\<exists>h'. RecursiveFill todo l r n h = Inr h' \<and>
           fill_state gl gr h0 (n + prod_list (drop (length Q - todo) Q)) h'"
  using todo gl gr room h
proof (induction todo arbitrary: l r n h)
  case 0
  then show ?case using fill_leaf [OF ready, of gl gr n h l r] by simp
next
  case (Suc todo)
  let ?k = "length Q - Suc todo"
  let ?P = "prod_list (drop (Suc ?k) Q)"
  have k: "?k < length Q" and Sk: "length Q - todo = Suc ?k" using Suc.prems(1) by simp_all
  have lens: "length L = length Q" "length R = length Q" using ready by (auto simp: fill_ready_def)
  have prod: "prod_list (drop ?k Q) = Q ! ?k * ?P"
    using k by (simp add: Cons_nth_drop_Suc [symmetric])
  have rdy: "fill_ready L R Q N h" by (rule fill_ready_state [OF ready Suc.prems(5)])
  then have L: "left_padded_dims h ! ?k = L ! ?k" "right_padded_dims h ! ?k = R ! ?k"
    and lt: "?k < length (left_padded_dims h)" "?k < length (right_padded_dims h)"
    using k by (auto simp: fill_ready_def)
  note os = suffix_strides_nth [OF k]
  let ?sl = "bstrides L ! ?k" and ?sr = "bstrides R ! ?k"
  let ?I = "\<lambda>i. fill_state gl gr h0 (n + i * ?P)"
  have "\<exists>h'. foldE (\<lambda>i. RecursiveFill todo (l + i * ?sl) (r + i * ?sr) (n + i * ?P))
          [0..<Q ! ?k] h = Inr h' \<and> ?I (Q ! ?k) h'"
  proof (rule foldE_upt_total [where P = ?I])
    show "?I 0 h" using Suc.prems(5) by simp
    fix i t assume i: "i < Q ! ?k" and t: "?I i t"
    have im: "i * ?P + m < prod_list (drop ?k Q)" if "m < ?P" for m
      unfolding prod by (rule mult_add_less [OF i that])
    have "Suc i * ?P \<le> Q ! ?k * ?P" using i by (intro mult_le_mono1) simp
    then have room': "n + i * ?P + prod_list (drop (length Q - todo) Q) \<le> N"
      using Suc.prems(4) unfolding Sk prod by simp
    have "\<exists>t'. RecursiveFill todo (l + i * ?sl) (r + i * ?sr) (n + i * ?P) t = Inr t' \<and>
        fill_state gl gr h0 (n + i * ?P + prod_list (drop (length Q - todo) Q)) t'"
    proof (rule Suc.IH [OF _ _ _ room' t])
      show "todo \<le> length Q" using Suc.prems(1) by simp
      fix m assume "m < prod_list (drop (length Q - todo) Q)"
      then have m: "m < ?P" by (simp only: Sk)
      show "gl (n + i * ?P + m) = l + i * ?sl +
          rm_index (drop (length Q - todo) Q) (drop (length Q - todo) (bstrides L)) m"
        using Suc.prems(2) [OF im [OF m]] drop_rm_index [OF k _ m, of "bstrides L" i] lens
        by (simp only: Sk add.assoc length_bstrides)
      show "gr (n + i * ?P + m) = r + i * ?sr +
          rm_index (drop (length Q - todo) Q) (drop (length Q - todo) (bstrides R)) m"
        using Suc.prems(3) [OF im [OF m]] drop_rm_index [OF k _ m, of "bstrides R" i] lens
        by (simp only: Sk add.assoc length_bstrides)
    qed
    then show "\<exists>t'. RecursiveFill todo (l + i * ?sl) (r + i * ?sr) (n + i * ?P) t = Inr t' \<and>
        ?I (Suc i) t'"
      by (simp only: Sk mult_Suc add.assoc add.left_commute add.commute)
  qed
  moreover have "RecursiveFill (Suc todo) l r n h =
      foldE (\<lambda>i. RecursiveFill todo (l + i * ?sl) (r + i * ?sr) (n + i * ?P)) [0..<Q ! ?k] h"
    using rdy k lt lens by (simp add: fill_ready_def Let_def L os bstrides_nth)
  ultimately show ?case unfolding prod by simp
qed

section \<open>Strides and the whole offset computation\<close>

text \<open>After \<open>j\<close> rounds of the stride loop the last \<open>j\<close> of \<open>n\<close> positions are final.\<close>

definition tail_ok :: "nat \<Rightarrow> nat \<Rightarrow> nat list \<Rightarrow> nat list \<Rightarrow> bool" where
  "tail_ok n j v w \<longleftrightarrow> length v = n \<and> (\<forall>i. n - j \<le> i \<and> i < n \<longrightarrow> v ! i = w ! i)"

lemma tail_ok_0: "length v = n \<Longrightarrow> tail_ok n 0 v w"
  by (simp add: tail_ok_def)

lemma tail_ok_all: "tail_ok n n v w \<Longrightarrow> length w = n \<Longrightarrow> v = w"
  by (auto simp: tail_ok_def intro: nth_equalityI)

lemma tail_ok_step:
  assumes "tail_ok n j v w" "j < n" "x = w ! (n - Suc j)"
  shows "tail_ok n (Suc j) (v[n - Suc j := x]) w"
  using assms by (auto simp: tail_ok_def nth_list_update)

text \<open>The recurrence of the loop computes the row-major strides.\<close>

lemma suffix_strides_rec:
  assumes "Suc i < length ds"
  shows "suffix_strides ds ! i = suffix_strides ds ! Suc i * ds ! Suc i"
  using assms by (simp add: suffix_strides_nth Cons_nth_drop_Suc [symmetric, of "Suc i"])

lemma suffix_strides_last: "Suc i = length ds \<Longrightarrow> suffix_strides ds ! i = 1"
  by (simp add: suffix_strides_nth)

definition strides_inv ::
  "nat list \<Rightarrow> nat list \<Rightarrow> nat list \<Rightarrow> matmul_helper \<Rightarrow> nat \<Rightarrow> matmul_helper \<Rightarrow> bool" where
  "strides_inv L R Q h0 j h \<longleftrightarrow>
     (\<exists>obd obs ls rs. h = h0\<lparr>output_broadcast_dims := obd, output_broadcast_strides := obs,
          left_padded_strides := ls, right_padded_strides := rs\<rparr> \<and>
        tail_ok (length Q) j obd Q \<and> tail_ok (length Q) j obs (suffix_strides Q) \<and>
        tail_ok (length Q) j ls (suffix_strides L) \<and> tail_ok (length Q) j rs (suffix_strides R))"

lemma next_stride_ok:
  assumes "j < n" "tail_ok n j st (suffix_strides ds)" "length ds = n" "n \<le> length full"
    "\<And>i. i < n \<Longrightarrow> n - j \<le> i \<Longrightarrow> full ! i = ds ! i"
  shows "next_stride (n - j = n) st full (n - Suc j) = Inr (suffix_strides ds ! (n - Suc j))"
proof (cases j)
  case 0
  then show ?thesis using assms(1,3) by (simp add: suffix_strides_last next_stride_def)
next
  case (Suc i)
  have nj: "n - Suc j + 1 = n - j" "Suc (n - Suc j) = n - j" "n - j < n" "n - j \<noteq> n"
    using assms(1) Suc by simp_all
  have "st ! (n - j) = suffix_strides ds ! (n - j)" "length st = n" "full ! (n - j) = ds ! (n - j)"
    using assms(2,5) nj by (auto simp: tail_ok_def)
  moreover have "suffix_strides ds ! (n - Suc j) = suffix_strides ds ! (n - j) * ds ! (n - j)"
    using suffix_strides_rec [of "n - Suc j" ds] nj assms(3) by simp
  ultimately show ?thesis using nj assms(4) by (simp add: next_stride_def)
qed

lemma stride_step_inv:
  assumes inv: "strides_inv L R Q h0 j h" and j: "j < length Q"
    and n: "num_broadcasted_dims h0 = length Q"
    and L: "length L = length Q" "length Q \<le> length (left_padded_dims h0)"
      "take (length Q) (left_padded_dims h0) = L"
    and R: "length R = length Q" "length Q \<le> length (right_padded_dims h0)"
      "take (length Q) (right_padded_dims h0) = R"
    and Q: "Q = map2 max L R"
  shows "\<exists>h'. stride_step (length Q - j) h = Inr h' \<and> strides_inv L R Q h0 (Suc j) h'"
proof -
  let ?n = "length Q" let ?i = "?n - Suc j"
  from inv obtain obd obs ls rs where
    h: "h = h0\<lparr>output_broadcast_dims := obd, output_broadcast_strides := obs,
          left_padded_strides := ls, right_padded_strides := rs\<rparr>"
    and t: "tail_ok ?n j obd Q" "tail_ok ?n j obs (suffix_strides Q)"
      "tail_ok ?n j ls (suffix_strides L)" "tail_ok ?n j rs (suffix_strides R)"
    by (auto simp: strides_inv_def)
  have i: "?n - j - 1 = ?i" "?i < ?n" using j by simp_all
  have len: "length obd = ?n" "length obs = ?n" "length ls = ?n" "length rs = ?n"
    using t by (auto simp: tail_ok_def)
  have el: "left_padded_dims h0 ! m = L ! m" "right_padded_dims h0 ! m = R ! m" if "m < ?n" for m
    using that by (auto simp flip: L(3) R(3))
  have "map2 max L R ! ?i = max (L ! ?i) (R ! ?i)" using L(1) R(1) i(2) by simp
  with arg_cong [OF Q, of "\<lambda>q. q ! ?i"] have mx: "Q ! ?i = max (L ! ?i) (R ! ?i)" by (rule trans)
  note t' = tail_ok_step [OF t(1) j refl] tail_ok_step [OF t(2) j refl]
    tail_ok_step [OF t(3) j refl] tail_ok_step [OF t(4) j refl]
  define last_dim where "last_dim = (?n - j = ?n)"
  have ll: "(?n - j = num_broadcasted_dims h) = last_dim" using n by (simp add: h last_dim_def)
  have s1: "next_stride last_dim obs (obd[?i := Q ! ?i]) ?i = Inr (suffix_strides Q ! ?i)"
    unfolding last_dim_def by (rule next_stride_ok [OF j t(2)]) (use len t(1) j in \<open>auto simp: tail_ok_def nth_list_update\<close>)
  have s2: "next_stride last_dim ls (left_padded_dims h0) ?i = Inr (suffix_strides L ! ?i)"
    unfolding last_dim_def by (rule next_stride_ok [OF j t(3)]) (use L el in auto)
  have s3: "next_stride last_dim rs (right_padded_dims h0) ?i = Inr (suffix_strides R ! ?i)"
    unfolding last_dim_def by (rule next_stride_ok [OF j t(4)]) (use R el in auto)
  have lt: "?i < length (left_padded_dims h0)" "?i < length (right_padded_dims h0)"
    using i(2) L(2) R(2) by linarith+
  have "stride_step (?n - j) h = Inr (h0\<lparr>output_broadcast_dims := obd[?i := Q ! ?i],
      output_broadcast_strides := obs[?i := suffix_strides Q ! ?i],
      left_padded_strides := ls[?i := suffix_strides L ! ?i],
      right_padded_strides := rs[?i := suffix_strides R ! ?i]\<rparr>)"
    unfolding stride_step_def Let_def i(1) ll
    using i(2) len lt by (simp add: h el mx [symmetric] s1 s2 s3)
  with t' show ?thesis unfolding strides_inv_def by auto
qed

text \<open>What a finished computation of the offsets has stored.\<close>

definition offsets_ok :: "nat list \<Rightarrow> nat list \<Rightarrow> matmul_helper \<Rightarrow> bool" where
  "offsets_ok L R h \<longleftrightarrow>
     (let Q = map2 max L R; num = prod_list Q in
      left_offsets h = map (\<lambda>i. rm_index Q (bstrides L) i * (mm_M h * mm_K h)) [0..<num] \<and>
      right_offsets h = map (\<lambda>i. rm_index Q (bstrides R) i * (mm_K h * mm_N h)) [0..<num] \<and>
      output_offsets h = map (\<lambda>i. i * (mm_M h * mm_N h)) [0..<num])"

definition same_shape :: "matmul_helper \<Rightarrow> matmul_helper \<Rightarrow> bool" where
  "same_shape h h' \<longleftrightarrow> output_shape h' = output_shape h \<and> mm_M h' = mm_M h \<and>
     mm_K h' = mm_K h \<and> mm_N h' = mm_N h"

lemma ComputeBroadcastOffsets_pos:
  assumes lp: "length (left_padded_dims h) = n + 2" and rp: "length (right_padded_dims h) = n + 2"
    and n: "0 < n" and L: "L = take n (left_padded_dims h)" and R: "R = take n (right_padded_dims h)"
  shows "\<exists>h'. ComputeBroadcastOffsets h = Inr h' \<and> same_shape h h' \<and> offsets_ok L R h'"
proof -
  define Q where "Q = map2 max L R"
  have Qn: "length Q = n" "length L = n" "length R = n" using lp rp by (simp_all add: Q_def L R)
  define h2 where "h2 = h\<lparr>num_broadcasted_dims := n, left_mat_size := mm_M h * mm_K h,
      right_mat_size := mm_K h * mm_N h, output_mat_size := mm_M h * mm_N h,
      left_padded_strides := vresize n 0 (left_padded_strides h),
      right_padded_strides := vresize n 0 (right_padded_strides h),
      output_broadcast_strides := vresize n 0 (output_broadcast_strides h),
      output_broadcast_dims := vresize n 0 (output_broadcast_dims h)\<rparr>"
  have "\<exists>h3. foldE (\<lambda>j. stride_step (n - j)) [0..<n] h2 = Inr h3 \<and> strides_inv L R Q h2 n h3"
  proof (rule foldE_upt_total [where P = "strides_inv L R Q h2"])
    have "h2 = h2\<lparr>output_broadcast_dims := output_broadcast_dims h2,
       output_broadcast_strides := output_broadcast_strides h2,
       left_padded_strides := left_padded_strides h2,
       right_padded_strides := right_padded_strides h2\<rparr>" by simp
    then show "strides_inv L R Q h2 0 h2" unfolding strides_inv_def
      by (intro exI conjI tail_ok_0) (assumption, simp_all add: h2_def Qn)
    fix j t assume "j < n" "strides_inv L R Q h2 j t"
    then show "\<exists>t'. stride_step (n - j) t = Inr t' \<and> strides_inv L R Q h2 (Suc j) t'"
      using stride_step_inv [of L R Q h2 j t] Qn lp rp by (simp add: h2_def L R Q_def)
  qed
  then obtain h3 where h3: "foldE stride_step (rev [1..<Suc n]) h2 = Inr h3"
    and inv: "strides_inv L R Q h2 n h3" by (auto simp only: foldE_down)
  from inv obtain obd obs ls rs where h3': "h3 = h2\<lparr>output_broadcast_dims := obd,
      output_broadcast_strides := obs, left_padded_strides := ls, right_padded_strides := rs\<rparr>"
    and t: "tail_ok n n obd Q" "tail_ok n n obs (suffix_strides Q)"
      "tail_ok n n ls (suffix_strides L)" "tail_ok n n rs (suffix_strides R)"
    by (auto simp: strides_inv_def Qn)
  note eq = tail_ok_all [OF t(1)] tail_ok_all [OF t(2)] tail_ok_all [OF t(3)] tail_ok_all [OF t(4)]
  have st: "obd = Q" "obs = suffix_strides Q" "ls = suffix_strides L" "rs = suffix_strides R"
    using eq Qn by simp_all
  let ?N = "prod_list Q"
  have hd: "Q ! 0 * suffix_strides Q ! 0 = ?N" using Qn n by (cases Q) auto
  define h4 where "h4 = h3\<lparr>left_offsets := vresize ?N 0 (left_offsets h3),
     right_offsets := vresize ?N 0 (right_offsets h3),
     output_offsets := vresize ?N 0 (output_offsets h3)\<rparr>"
  have ready: "fill_ready L R Q ?N h4"
    using Qn lp rp by (simp add: fill_ready_def h4_def h3' h2_def st L R)
  let ?gl = "rm_index Q (bstrides L)" and ?gr = "rm_index Q (bstrides R)"
  have "\<exists>h'. RecursiveFill n 0 0 0 h4 = Inr h' \<and>
      fill_state ?gl ?gr h4 (0 + prod_list (drop (length Q - n) Q)) h'"
    by (rule RecursiveFill_fill [OF ready]) (simp_all add: Qn fill_state_0)
  then obtain h' where run: "RecursiveFill n 0 0 0 h4 = Inr h'"
    and fin: "fill_state ?gl ?gr h4 ?N h'" by (auto simp: Qn)
  have "ComputeBroadcastOffsets h = RecursiveFill n 0 0 0 h4"
    using n Qn hd lp h3 by (simp add: ComputeBroadcastOffsets_def h2_def [symmetric] Let_def h4_def)
       (simp add: h3' st)
  moreover from fin have "same_shape h h'" by (auto simp: fill_state_def same_shape_def h4_def h3' h2_def)
  moreover from fin have "offsets_ok L R h'"
    by (auto simp: fill_state_def offsets_ok_def Let_def Q_def [symmetric] h4_def h3' h2_def
        dest!: filled_all [where ?d0.0 = "vresize _ _ _", unfolded length_vresize])
  ultimately show ?thesis using run by auto
qed

section \<open>The shape rule\<close>

definition swap_last2 :: "bool \<Rightarrow> nat list \<Rightarrow> nat list" where
  "swap_last2 t ds =
     (if t \<and> 2 \<le> length ds
      then take (length ds - 2) ds @ [ds ! (length ds - 1), ds ! (length ds - 2)] else ds)"

definition pad_ones :: "nat \<Rightarrow> nat list \<Rightarrow> nat list" where
  "pad_ones n ds = replicate (n - length ds) 1 @ ds"

definition dims_match :: "nat list \<Rightarrow> nat list \<Rightarrow> bool" where
  "dims_match = list_all2 (\<lambda>a b. a = b \<or> a = 1 \<and> 1 \<le> b \<or> b = 1 \<and> 1 \<le> a)"

definition numpy_broadcast :: "nat list \<Rightarrow> nat list \<Rightarrow> nat list option" where
  "numpy_broadcast as bs =
     (let n = max (length as) (length bs); ps = pad_ones n as; qs = pad_ones n bs in
      if dims_match ps qs then Some (map2 max ps qs) else None)"

definition numpy_matmul_shape :: "nat list \<Rightarrow> nat list \<Rightarrow> nat list option" where
  "numpy_matmul_shape left right =
     (let ln = length left; rn = length right in
      if ln = 0 \<or> rn = 0 then None
      else if rn = 1 then (if left ! (ln - 1) = right ! 0 then Some (butlast left) else None)
      else if left ! (ln - 1) \<noteq> right ! (rn - 2) then None
      else if ln = 1 then Some (take (rn - 2) right @ [right ! (rn - 1)])
      else map_option (\<lambda>b. b @ [left ! (ln - 2), right ! (rn - 1)])
             (numpy_broadcast (take (ln - 2) left) (take (rn - 2) right)))"

text \<open>The padded batch dimensions of both operands.\<close>

definition batch_left :: "nat list \<Rightarrow> nat list \<Rightarrow> bool \<Rightarrow> nat list" where
  "batch_left left right transa =
     (let ln = length left; rn = length right in
      if rn = 1 then (if ln = 1 then []
        else take (ln - 2) left @ [left ! (if transa then ln - 1 else ln - 2)])
      else pad_ones (max ln rn - 2) (take (ln - 2) left))"

definition batch_right :: "nat list \<Rightarrow> nat list \<Rightarrow> nat list" where
  "batch_right left right =
     (let ln = length left; rn = length right in
      if rn = 1 then replicate (ln - 1) 1 else pad_ones (max ln rn - 2) (take (rn - 2) right))"

lemma two_last: "2 \<le> length ds \<Longrightarrow> \<exists>xs a b. ds = xs @ [a, b]"
proof -
  assume "2 \<le> length ds"
  then obtain ys b where "ds = ys @ [b]" "1 \<le> length ys" by (cases ds rule: rev_cases) auto
  then show ?thesis by (cases ys rule: rev_cases) auto
qed

lemma CopyDims_tail:
  "length ds \<le> n \<Longrightarrow>
    CopyDims ds (n - length ds) (replicate n x) (length ds) = Inr (replicate (n - length ds) x @ ds)"
  by (simp add: CopyDims_def)

lemma pad_ones_app: "pad_ones n (xs @ ys) = pad_ones (n - length ys) xs @ ys"
  by (simp add: pad_ones_def)

lemma pad_ones_Suc: "n = Suc (length xs) \<Longrightarrow> pad_ones n xs = 1 # xs"
  by (simp add: pad_ones_def)

lemma length_pad_ones [simp]: "length ds \<le> n \<Longrightarrow> length (pad_ones n ds) = n"
  by (simp add: pad_ones_def)

lemma replicate_3: "replicate (n + 3) x = replicate n x @ [x, x, x]"
  unfolding replicate_add by (simp add: numeral_3_eq_3)

lemma pad_dims_vec:
  assumes "ds = xs @ [a, b]"
  shows "pad_dims ds [r] t =
    Inr (xs @ [if t then b else a, 1, if t then a else b], replicate (length xs) 1 @ [1, r, 1])"
proof -
  let ?n = "length xs"
  have rep: "replicate (?n + 3) (1::nat) = replicate ?n 1 @ [1, 1, 1]"
    by (rule replicate_3)
  have len: "length [r] = 1" "max (length ds) 1 + 1 = ?n + 3"
    "(2 \<le> max (length ds) 1) = True" "length ds - 2 = ?n"
    "?n + 3 - 1 = ?n + 2" "?n + 3 - 2 = ?n + 1" "?n + 3 - 3 = ?n"
    using assms by simp_all
  have cp: "CopyDims ds 0 (replicate ?n 1 @ [1, 1, 1]) ?n = Inr (xs @ [1, 1, 1])"
    using assms by (simp add: CopyDims_def)
  have vs: "vset (ys @ zs) (length ys + k) v = Inr (ys @ zs[k := v])" if "k < length zs"
    for ys zs :: "nat list" and k v
    using that by (simp add: list_update_append)
  have g: "vget_back ds 2 = Inr a" "vget_back ds 1 = Inr b" "vget [r] 0 = Inr r"
    using assms by (simp_all add: nth_append)
  have v: "vset (replicate ?n 1 @ [1, 1, 1]) (?n + 1) r = Inr (replicate ?n 1 @ [1, r, 1])"
    "vset (xs @ [1, 1, 1]) ?n m = Inr (xs @ [m, 1, 1])"
    "vset (xs @ [m, 1, 1]) (?n + 2) k = Inr (xs @ [m, 1, k])" for m k
    using vs [of 1 "[1, 1, 1]" "replicate ?n 1" r] vs [of 0 "[1, 1, 1]" xs m]
      vs [of 2 "[m, 1, 1]" xs k] by simp_all
  show ?thesis
    by (cases t) (simp_all only: pad_dims_def Let_def len rep cp g v bindE_simps if_True if_False simp_thms)
qed

lemma pad_dims_mat:
  assumes "length right \<noteq> 1"
  shows "pad_dims left right t =
    Inr (pad_ones (max (length left) (length right)) left,
         pad_ones (max (length left) (length right)) right)"
  using assms by (simp add: pad_dims_def Let_def CopyDims_tail pad_ones_def)

lemma pad_dims_dot: "pad_dims [l] [r] t = Inr ([1, l], [r, 1])"
  by (simp add: pad_dims_def CopyDims_def numeral_2_eq_2)

lemma pad_dims_batch:
  assumes "1 \<le> length left" "1 \<le> length right"
  shows "\<exists>x y z w. pad_dims left right t =
    Inr (batch_left left right t @ [x, y], batch_right left right @ [z, w])"
proof (cases "length right = 1")
  case True
  then obtain r where r: "right = [r]" by (cases right) auto
  show ?thesis
  proof (cases "length left = 1")
    case True
    then obtain l where "left = [l]" by (cases left) auto
    then show ?thesis using r by (simp add: pad_dims_dot batch_left_def batch_right_def)
  next
    case False
    then obtain xs a b where l: "left = xs @ [a, b]" using assms two_last [of left] by auto
    then show ?thesis using r
      by (simp add: pad_dims_vec batch_left_def batch_right_def nth_append replicate_append_same)
  qed
next
  case False
  then obtain ys c d where rr: "right = ys @ [c, d]" using assms two_last [of right] by auto
  show ?thesis
  proof (cases "length left = 1")
    case True
    then obtain l where "left = [l]" by (cases left) auto
    then show ?thesis using rr
      by (simp add: pad_dims_mat batch_left_def batch_right_def pad_ones_def)
        (simp only: replicate_append_same [symmetric] append_same_eq list.inject, blast)
  next
    case False
    then obtain xs a b where l: "left = xs @ [a, b]" using assms two_last [of left] by auto
    then show ?thesis using rr
      by (simp add: pad_dims_mat batch_left_def batch_right_def pad_ones_def)
  qed
qed

lemma broadcast_loop:
  assumes "length lp = n" "length rp = n" "n \<le> nod"
  shows "foldE (broadcast_step (lp @ xs) (rp @ ys)) [0..<n] (replicate nod 0) =
    (if dims_match lp rp then Inr (map2 max lp rp @ replicate (nod - n) 0)
     else Inl (StatusErr FAIL))"
  using assms
proof (induction n arbitrary: lp rp xs ys)
  case 0
  then show ?case by (simp add: dims_match_def)
next
  case (Suc n)
  from Suc.prems(1) obtain lp' l where l: "lp = lp' @ [l]" "length lp' = n" by (cases lp rule: rev_cases) auto
  from Suc.prems(2) obtain rp' r where r: "rp = rp' @ [r]" "length rp' = n" by (cases rp rule: rev_cases) auto
  have IH: "foldE (broadcast_step (lp @ xs) (rp @ ys)) [0..<n] (replicate nod 0) =
    (if dims_match lp' rp' then Inr (map2 max lp' rp' @ replicate (nod - n) 0)
     else Inl (StatusErr FAIL))"
    using Suc.IH [of lp' rp' "[l] @ xs" "[r] @ ys"] l r Suc.prems by simp
  have k: "nod - n = Suc (nod - Suc n)" using Suc.prems by simp
  have dm: "dims_match lp rp \<longleftrightarrow> dims_match lp' rp' \<and> (l = r \<or> l = 1 \<and> 1 \<le> r \<or> r = 1 \<and> 1 \<le> l)"
    using l r by (simp add: dims_match_def list_all2_append)
  have st: "broadcast_step (lp @ xs) (rp @ ys) n (map2 max lp' rp' @ replicate (nod - n) 0) =
     (if l = r \<or> l = 1 \<and> 1 \<le> r \<or> r = 1 \<and> 1 \<le> l
      then Inr (map2 max lp rp @ replicate (nod - Suc n) 0) else Inl (StatusErr FAIL))"
    using l r by (auto simp: broadcast_step_def nth_append k list_update_append vset_def max_def
        return_if_not_def)
  show ?case by (simp add: foldE_append IH dm st)
qed


text \<open>The matrix dimensions that \<open>Compute\<close> reads and the inner dimension of \<open>right\<close>.\<close>

definition inner_right :: "nat list \<Rightarrow> bool \<Rightarrow> nat" where
  "inner_right right transb =
     (let rn = length right in
      if rn = 1 then right ! 0 else right ! (if transb then rn - 1 else rn - 2))"

definition dim_M :: "nat list \<Rightarrow> nat list \<Rightarrow> bool \<Rightarrow> nat" where
  "dim_M left right transa =
     (let ln = length left in
      if ln = 1 \<or> length right = 1 then 1 else left ! (if transa then ln - 1 else ln - 2))"

definition dim_K :: "nat list \<Rightarrow> bool \<Rightarrow> nat" where
  "dim_K left transa = (let ln = length left in left ! (if transa then ln - 2 else ln - 1))"

definition dim_N :: "nat list \<Rightarrow> bool \<Rightarrow> nat" where
  "dim_N right transb =
     (let rn = length right in
      if rn = 1 then 1 else right ! (if transb then rn - 2 else rn - 1))"

definition matrix_part :: "nat list \<Rightarrow> nat list \<Rightarrow> nat \<Rightarrow> nat \<Rightarrow> nat list" where
  "matrix_part left right M N =
     (if length right = 1 then [] else if length left = 1 then [N] else [M, N])"

lemma length_batch:
  assumes "1 \<le> length left" "1 \<le> length right"
  shows "length (batch_left left right t) =
      max (length left) (length right) + (if length right = 1 then 1 else 0) - 2"
    "length (batch_right left right) =
      max (length left) (length right) + (if length right = 1 then 1 else 0) - 2"
  using assms by (auto simp: batch_left_def batch_right_def Let_def)

lemma matrix_dims_ok:
  assumes "1 \<le> length left" "1 \<le> length right" "ta \<Longrightarrow> 2 \<le> length left"
  shows "matrix_dims left right ta tb = Inr (dim_M left right ta, dim_K left ta, dim_N right tb)"
  using assms by (auto simp: matrix_dims_def dim_M_def dim_K_def dim_N_def vget_back_def Let_def
      numeral_2_eq_2)

lemma output_matrix_dims_ok:
  assumes ln: "1 \<le> length left" and rn: "1 \<le> length right"
    and ndp: "ndp = max (length left) (length right) + (if length right = 1 then 1 else 0)"
    and bs: "length bs = ndp - 2"
    and nod: "nod = max (length left) (length right) - (if length left = 1 \<or> length right = 1 then 1 else 0)"
    and M: "M = dim_M left right ta" and N: "N = dim_N right tb"
  shows "output_matrix_dims left right tb ndp M K N (bs @ replicate (nod - (ndp - 2)) 0) =
    (if length left = 1 \<and> length right = 1 \<or> K = inner_right right tb
     then Inr (bs @ matrix_part left right M N) else Inl (StatusErr FAIL))"
proof (cases "length right = 1")
  case True
  then obtain r where r: "right = [r]" by (cases right) auto
  show ?thesis
  proof (cases "length left = 1")
    case True
    then show ?thesis using r bs ndp nod M N
      by (simp add: output_matrix_dims_def inner_right_def matrix_part_def dim_M_def dim_N_def return_if_not_def)
  next
    case False
    then show ?thesis using r bs ndp nod M N ln
      by (simp add: output_matrix_dims_def inner_right_def matrix_part_def return_if_not_def)
  qed
next
  case False
  then obtain ys c d where rr: "right = ys @ [c, d]" using rn two_last [of right] by auto
  show ?thesis
  proof (cases "length left = 1")
    case True
    then have "nod - (ndp - 2) = Suc 0" using rr nod ndp by simp
    then show ?thesis using rr bs ndp nod True
      by (simp add: output_matrix_dims_def inner_right_def matrix_part_def return_if_not_def nth_append vset_def list_update_append)
  next
    case False
    then obtain xs a b where l: "left = xs @ [a, b]" using ln two_last [of left] by auto
    then have e: "ndp = Suc (Suc (length bs))" "nod = Suc (Suc (length bs))"
      using rr nod ndp bs by simp_all
    show ?thesis unfolding e using rr l
      by (simp add: output_matrix_dims_def inner_right_def matrix_part_def return_if_not_def nth_append vset_def list_update_append numeral_2_eq_2)
  qed
qed


definition flat_case :: "nat list \<Rightarrow> nat list \<Rightarrow> bool \<Rightarrow> bool" where
  "flat_case left right transa \<longleftrightarrow>
     \<not> transa \<and> 2 \<le> length left \<and> 2 \<le> length right \<and> length right \<le> length left \<and>
     prod_list (take (length right - 1) right) = right ! (length right - 2)"

definition matmul_ok :: "nat list \<Rightarrow> nat list \<Rightarrow> bool \<Rightarrow> bool \<Rightarrow> bool" where
  "matmul_ok left right ta tb \<longleftrightarrow>
     dims_match (batch_left left right ta) (batch_right left right) \<and>
     (length left = 1 \<and> length right = 1 \<or> dim_K left ta = inner_right right tb)"

definition matmul_out :: "nat list \<Rightarrow> nat list \<Rightarrow> bool \<Rightarrow> bool \<Rightarrow> nat list" where
  "matmul_out left right ta tb =
     map2 max (batch_left left right ta) (batch_right left right) @
     matrix_part left right (dim_M left right ta) (dim_N right tb)"

lemma ComputeBroadcastOffsets_ok:
  assumes "left_padded_dims h = L @ [x, y]" "right_padded_dims h = R @ [z, w]"
    "length L = length R"
  shows "\<exists>h'. ComputeBroadcastOffsets h = Inr h' \<and> same_shape h h' \<and> offsets_ok L R h'"
proof (cases "length L")
  case 0
  then show ?thesis using assms
    by (simp add: ComputeBroadcastOffsets_def offsets_ok_def same_shape_def)
next
  case (Suc n)
  then show ?thesis using assms by (intro ComputeBroadcastOffsets_pos [of h "length L"]) auto
qed

lemma Compute_general:
  assumes doc: "doc_size_to_dim sd" and ln: "1 \<le> length left" and rn: "1 \<le> length right"
    and ta: "ta \<Longrightarrow> 2 \<le> length left" and nf: "\<not> flat_case left right ta"
  shows "if matmul_ok left right ta tb
    then \<exists>h'. MatMul_Compute sd left right ta tb h = Inr h' \<and>
      output_shape h' = matmul_out left right ta tb \<and>
      mm_M h' = dim_M left right ta \<and> mm_K h' = dim_K left ta \<and> mm_N h' = dim_N right tb \<and>
      offsets_ok (batch_left left right ta) (batch_right left right) h'
    else MatMul_Compute sd left right ta tb h = Inl (StatusErr FAIL)"
proof -
  let ?L = "batch_left left right ta" and ?R = "batch_right left right"
  let ?M = "dim_M left right ta" and ?K = "dim_K left ta" and ?N = "dim_N right tb"
  define ndp where "ndp = max (length left) (length right) + (if length right = 1 then 1 else 0)"
  define nod where "nod = max (length left) (length right) -
    (if length left = 1 \<or> length right = 1 then 1 else 0)"
  obtain x y z w where pd: "pad_dims left right ta = Inr (?L @ [x, y], ?R @ [z, w])"
    using pad_dims_batch [OF ln rn, of ta] by blast
  have len: "length ?L = ndp - 2" "length ?R = ndp - 2"
    using length_batch [OF ln rn] by (simp_all add: ndp_def)
  have le: "ndp - 2 \<le> nod" using ln rn by (auto simp: ndp_def nod_def)
  note loop = broadcast_loop [OF len le, of "[x, y]" "[z, w]"]
  have md: "matrix_dims left right ta tb = Inr (?M, ?K, ?N)" by (rule matrix_dims_ok [OF ln rn ta])
  have lb: "length (map2 max ?L ?R) = ndp - 2" using len by simp
  note om = output_matrix_dims_ok [OF ln rn ndp_def lb nod_def refl refl, where K = ?K and ta = ta]
  have sd: "sd right (length right - 1) = prod_list (take (length right - 1) right)"
    using doc by (simp add: doc_size_to_dim_def)
  have cond: "(\<not> ta \<and> 2 \<le> length left \<and> 2 \<le> length right \<and> length right \<le> length left \<and>
      prod_list (take (length right - 1) right) = right ! (length right - 2)) = False"
    using nf by (simp add: flat_case_def)
  let ?h = "h\<lparr>left_padded_dims := ?L @ [x, y], right_padded_dims := ?R @ [z, w], mm_M := ?M,
     mm_K := ?K, mm_N := ?N, output_shape := matmul_out left right ta tb\<rparr>"
  have run: "MatMul_Compute sd left right ta tb h =
    (if matmul_ok left right ta tb then ComputeBroadcastOffsets ?h else Inl (StatusErr FAIL))"
    using ln rn unfolding MatMul_Compute_def Let_def ndp_def [symmetric] nod_def [symmetric] sd cond
    by (simp add: pd loop md om matmul_ok_def matmul_out_def)
  obtain h' where "ComputeBroadcastOffsets ?h = Inr h'" "same_shape ?h h'" "offsets_ok ?L ?R h'"
    using ComputeBroadcastOffsets_ok [of ?h ?L x y ?R z w] len by auto
  then show ?thesis by (simp add: run same_shape_def)
qed

lemma Compute_flat:
  assumes doc: "doc_size_to_dim sd" and nf: "flat_case left right ta"
  defines "K \<equiv> left ! (length left - 1)" and "r2 \<equiv> right ! (length right - 2)"
    and "r1 \<equiv> right ! (length right - 1)"
  shows "if K = r2 \<or> tb \<and> K = r1
    then \<exists>h'. MatMul_Compute sd left right ta tb h = Inr h' \<and>
      output_shape h' = left[length left - 1 := if tb then r2 else r1] \<and>
      mm_M h' = prod_list (butlast left) \<and> mm_K h' = K \<and> mm_N h' = (if tb then r2 else r1) \<and>
      left_offsets h' = [0] \<and> right_offsets h' = [0] \<and> output_offsets h' = [0]
    else MatMul_Compute sd left right ta tb h = Inl (StatusErr FAIL)"
proof -
  have ln: "2 \<le> length left" "2 \<le> length right" using nf by (auto simp: flat_case_def)
  have sd: "sd ds (length ds - 1) = prod_list (take (length ds - 1) ds)" for ds
    using doc by (simp add: doc_size_to_dim_def)
  have "MatMul_Compute sd left right ta tb h = compute_flat sd left right tb h"
    using nf ln unfolding MatMul_Compute_def Let_def sd
    by (simp add: flat_case_def)
  moreover have g: "vget_back left 1 = Inr K" "vget_back right 2 = Inr r2" "vget_back right 1 = Inr r1"
    using ln by (simp_all add: K_def r2_def r1_def del: One_nat_def)
  ultimately show ?thesis
    unfolding compute_flat_def sd g
    by (simp add: return_if_not_def butlast_conv_take)
qed


lemma ones_match:
  assumes "0 \<notin> set ds"
  shows "dims_match (replicate (length ds) 1) ds" "dims_match ds (replicate (length ds) 1)"
    "map2 max (replicate (length ds) 1) ds = ds" "map2 max ds (replicate (length ds) 1) = ds"
  using assms by (induction ds) (auto simp: dims_match_def)

lemma dims_match_max:
  assumes "dims_match ls rs"
  shows "broadcast_to ls (map2 max ls rs)" "broadcast_to rs (map2 max ls rs)" "length rs = length ls"
  using assms by (auto simp: dims_match_def broadcast_to_def list_all2_conv_all_nth max_def)

lemma spec_general:
  assumes ln: "1 \<le> length left" and rn: "1 \<le> length right" and ta: "ta \<Longrightarrow> 2 \<le> length left"
    and pos: "0 \<notin> set left" "0 \<notin> set right" and nd: "length left \<noteq> 1 \<or> length right \<noteq> 1"
  shows "numpy_matmul_shape (swap_last2 ta left) (swap_last2 tb right) =
    (if matmul_ok left right ta tb then Some (matmul_out left right ta tb) else None)"
proof (cases "length right = 1")
  case True
  then obtain r where r: "right = [r]" by (cases right) auto
  with nd ln have "2 \<le> length left" by simp
  then obtain xs a b where l: "left = xs @ [a, b]" using two_last by blast
  define m where "m = (if ta then b else a)"
  have bl: "batch_left left right ta = xs @ [m]"
    "batch_right left right = replicate (length (xs @ [m])) 1"
    using l r by (auto simp: batch_left_def batch_right_def nth_append m_def)
  have xm: "0 \<notin> set (xs @ [m])" using pos l by (auto simp: m_def)
  show ?thesis unfolding matmul_ok_def matmul_out_def bl eqTrueI [OF ones_match(2) [OF xm]] ones_match(4) [OF xm] using r l
    by (simp add: numpy_matmul_shape_def swap_last2_def dim_K_def inner_right_def matrix_part_def nth_append
        butlast_append m_def del: replicate_Suc)
next
  case False
  then obtain ys c d where rr: "right = ys @ [c, d]" using rn two_last [of right] by auto
  show ?thesis
  proof (cases "length left = 1")
    case True
    then obtain l where l: "left = [l]" by (cases left) auto
    have bl: "batch_left left right ta = replicate (length ys) 1" "batch_right left right = ys"
      using l rr by (auto simp: batch_left_def batch_right_def pad_ones_def)
    have ys: "0 \<notin> set ys" using pos rr by simp
    show ?thesis unfolding matmul_ok_def matmul_out_def bl eqTrueI [OF ones_match(1) [OF ys]] ones_match(3) [OF ys] using l rr ta
      by (simp add: numpy_matmul_shape_def swap_last2_def dim_K_def inner_right_def matrix_part_def nth_append
        dim_N_def)
  next
    case False
    then obtain xs a b where l: "left = xs @ [a, b]" using ln two_last [of left] by auto
    have bl: "batch_left left right ta = pad_ones (max (length xs) (length ys)) xs"
      "batch_right left right = pad_ones (max (length xs) (length ys)) ys"
      using l rr by (simp_all add: batch_left_def batch_right_def)
    show ?thesis unfolding matmul_ok_def matmul_out_def bl using l rr
      by (simp add: numpy_matmul_shape_def numpy_broadcast_def Let_def swap_last2_def dim_K_def dim_M_def
        inner_right_def matrix_part_def nth_append dim_N_def)
  qed
qed

lemma prod_ones: "0 \<notin> set ds \<Longrightarrow> prod_list ds = 1 \<Longrightarrow> ds = replicate (length ds) (1::nat)"
  by (induction ds) auto

lemma flat_case_ones:
  assumes "flat_case left right ta" "0 \<notin> set right"
  shows "\<exists>c d. right = replicate (length right - 2) 1 @ [c, d]"
proof -
  from assms obtain ys c d where rr: "right = ys @ [c, d]" using two_last [of right]
    by (auto simp: flat_case_def)
  with assms have "prod_list ys * c = c" "0 < c" by (auto simp: flat_case_def nth_append)
  then have "ys = replicate (length ys) 1" using assms(2) rr by (intro prod_ones) auto
  then show ?thesis using rr by auto
qed

lemma spec_flat:
  assumes fl: "flat_case left right ta" and pos: "0 \<notin> set left" "0 \<notin> set right"
  shows "numpy_matmul_shape left right =
    (if left ! (length left - 1) = right ! (length right - 2)
     then Some (left[length left - 1 := right ! (length right - 1)]) else None)"
proof -
  obtain c d where rr: "right = replicate (length right - 2) 1 @ [c, d]"
    using flat_case_ones [OF fl pos(2)] by blast
  define n where "n = length right - 2"
  have r: "right = replicate n 1 @ [c, d]" using rr n_def by simp
  obtain xs a b where l: "left = xs @ [a, b]" using fl two_last [of left] by (auto simp: flat_case_def)
  have n: "n \<le> length xs" using fl l r by (simp add: flat_case_def)
  have xs: "0 \<notin> set xs" using pos l by simp
  have pad: "pad_ones (length xs) xs = xs" "pad_ones (length xs) (replicate n 1) = replicate (length xs) 1"
    using n by (simp_all add: pad_ones_def flip: replicate_add)
  have "numpy_broadcast xs (replicate n 1) = Some xs"
    using n pad ones_match [OF xs]
    by (simp add: numpy_broadcast_def max_absorb1)
  then show ?thesis using l r
    by (simp add: numpy_matmul_shape_def nth_append list_update_append)
qed


lemma numpy_Nil: "numpy_matmul_shape [] bs = None" "numpy_matmul_shape as [] = None"
  by (simp_all add: numpy_matmul_shape_def Let_def)


lemma prod_batch:
  assumes "1 \<le> length left" "1 \<le> length right" "ta \<Longrightarrow> 2 \<le> length left"
  shows "prod_list (batch_left left right ta) * (dim_M left right ta * dim_K left ta) = prod_list left"
    "prod_list (batch_right left right) * (inner_right right tb * dim_N right tb) = prod_list right"
proof -
  have one: "prod_list (replicate n (1::nat)) = 1" for n by (induction n) auto
  have vm: "(\<exists>x. ds = [x]) \<or> (\<exists>xs a b. ds = xs @ [a, b])" if "1 \<le> length ds" for ds :: "nat list"
  proof (cases "2 \<le> length ds")
    case True
    with two_last show ?thesis by blast
  next
    case False
    with that have "length ds = Suc 0" by linarith
    then show ?thesis by (auto simp: length_Suc_conv)
  qed
  have l: "length left = 1 \<Longrightarrow> \<exists>l. left = [l]" "length left \<noteq> 1 \<Longrightarrow> \<exists>xs a b. left = xs @ [a, b]"
    using vm [OF assms(1)] by auto
  have r: "length right = 1 \<Longrightarrow> \<exists>l. right = [l]" "length right \<noteq> 1 \<Longrightarrow> \<exists>xs a b. right = xs @ [a, b]"
    using vm [OF assms(2)] by auto
  show "prod_list (batch_left left right ta) * (dim_M left right ta * dim_K left ta) = prod_list left"
  proof (cases "length left = 1")
    case True
    with l(1) obtain x where "left = [x]" by blast
    with assms(3) show ?thesis
      by (cases "length right = 1") (auto simp: batch_left_def dim_M_def dim_K_def pad_ones_def one)
  next
    case False
    with l(2) obtain xs a b where "left = xs @ [a, b]" by blast
    then show ?thesis
      by (cases "length right = 1"; cases ta)
        (simp_all add: batch_left_def dim_M_def dim_K_def pad_ones_def one nth_append)
  qed
  show "prod_list (batch_right left right) * (inner_right right tb * dim_N right tb) = prod_list right"
  proof (cases "length right = 1")
    case True
    with r(1) obtain x where "right = [x]" by blast
    then show ?thesis by (simp add: batch_right_def dim_N_def inner_right_def one)
  next
    case False
    with r(2) obtain xs a b where "right = xs @ [a, b]" by blast
    then show ?thesis
      by (cases tb) (simp_all add: batch_right_def dim_N_def inner_right_def pad_ones_def one nth_append)
  qed
qed


text \<open>Every matrix that the offsets name lies inside its buffer.\<close>

definition mats_inside :: "nat list \<Rightarrow> nat \<Rightarrow> nat \<Rightarrow> bool" where
  "mats_inside offs sz room \<longleftrightarrow> (\<forall>q \<in> set offs. q + sz \<le> room)"

lemma mats_inside_offsets:
  assumes "broadcast_to ds os" "prod_list ds * sz = room"
  shows "mats_inside (map (\<lambda>i. rm_index os (bstrides ds) i * sz) [0..<prod_list os]) sz room"
proof -
  have "rm_index os (bstrides ds) i * sz + sz \<le> room" if "i < prod_list os" for i
  proof -
    have "Suc (rm_index os (bstrides ds) i) * sz \<le> prod_list ds * sz"
      using rm_index_bcast_less [OF assms(1) that] by (intro mult_le_mono1) simp
    then show ?thesis using assms(2) by simp
  qed
  then show ?thesis by (auto simp: mats_inside_def)
qed

definition out_tiles :: "nat list \<Rightarrow> nat \<Rightarrow> nat \<Rightarrow> bool" where
  "out_tiles offs sz room \<longleftrightarrow>
     offs = map (\<lambda>i. i * sz) [0..<length offs] \<and> length offs * sz = room"



lemma doc_size_to_dim_take: "doc_size_to_dim (\<lambda>ds k. prod_list (take k ds))"
  by (simp add: doc_size_to_dim_def)


text \<open>
  Two inputs on which the checks are not enough: with a transposed right operand the
  flattened case accepts an inner dimension that does not match, and the product of two
  vectors never compares their lengths. \<open>Compute\<close> succeeds, and the matrix that the
  offsets describe reaches outside the right operand.
\<close>

theorem matmul_mismatch_accepted:
  assumes "doc_size_to_dim sd" "l < k"
  shows "(\<exists>h'. MatMul_Compute sd [2, 3] [3, 2] False True h = Inr h' \<and>
      \<not> mats_inside (right_offsets h') (mm_K h' * mm_N h') (prod_list [3, 2])) \<and>
    (\<exists>h'. MatMul_Compute sd [k] [l] False False h = Inr h' \<and> output_shape h' = [] \<and>
      \<not> mats_inside (right_offsets h') (mm_K h' * mm_N h') (prod_list [l]))"
  using Compute_flat [OF assms(1), of "[2, 3]" "[3, 2]" False True h]
    Compute_general [OF assms(1), of "[k]" "[l]" False False h] assms(2)
  by (auto simp: flat_case_def matmul_ok_def batch_left_def batch_right_def dims_match_def
      matmul_out_def matrix_part_def dim_K_def dim_N_def offsets_ok_def mats_inside_def)

theorem matmul_mismatch_accepted_witness:
  "\<exists>h'. MatMul_Compute (\<lambda>ds k. prod_list (take k ds)) [5] [2] False False matmul_fresh = Inr h' \<and>
     \<not> mats_inside (right_offsets h') (mm_K h' * mm_N h') 2"
  using matmul_mismatch_accepted [OF doc_size_to_dim_take, of 2 5 matmul_fresh] by auto

lemma zero_dim_rejected:
  assumes "doc_size_to_dim sd"
  shows "MatMul_Compute sd [1, 2, 3] [0, 3, 4] False False h = Inl (StatusErr FAIL)"
  using Compute_general [OF assms, of "[1, 2, 3]" "[0, 3, 4]" False False h]
  by (simp add: flat_case_def matmul_ok_def batch_left_def batch_right_def dims_match_def
      pad_ones_def)

lemma OffsetToArrays_spec:
  "OffsetToArrays p offsets arrays =
    (if length arrays = length offsets then Inr (map (\<lambda>q. p + q) offsets) else Inl EnforceFailed)"
proof (cases "length arrays = length offsets")
  case True
  let ?f = "\<lambda>i arr. bindE (vget offsets i) (\<lambda>q. vset arr i (p + q))"
  have "\<exists>d. foldE ?f [0..<length offsets] arrays = Inr d \<and>
      filled (\<lambda>i. p + offsets ! i) arrays (length offsets) d"
  proof (rule foldE_upt_total)
    show "filled (\<lambda>i. p + offsets ! i) arrays 0 arrays" by simp
    fix i t assume i: "i < length offsets" "filled (\<lambda>i. p + offsets ! i) arrays i t"
    then show "\<exists>t'. ?f i t = Inr t' \<and> filled (\<lambda>i. p + offsets ! i) arrays (Suc i) t'"
      using True filled_length [OF i(2)] filled_step [OF i(2)] by simp
  qed
  then obtain d where d: "foldE ?f [0..<length offsets] arrays = Inr d"
    "filled (\<lambda>i. p + offsets ! i) arrays (length arrays) d" by (auto simp: True)
  have "d = map (\<lambda>q. p + q) offsets"
    using filled_all [OF d(2)] True by (auto intro: nth_equalityI)
  with d(1) True show ?thesis by (simp add: OffsetToArrays_def)
qed (simp add: OffsetToArrays_def)


end
