(* ===== verification/Broadcast.thy ===== *)
theory Broadcast
  imports Radix "HOL-Library.Multiset"
begin

text \<open>
  Broadcasting of two operands (onnxruntime/core/providers/cpu/math/element_wise_ops.h): the
  iterators that walk an operand in the order of the output (\<open>BroadcastIterator\<close>), their
  construction from two shapes (\<open>Broadcaster\<close>), and the loop that fills the output span by
  span, or in segments of one span on a thread pool (\<open>InputBroadcaster\<close>, \<open>OutputBroadcaster\<close>,
  \<open>BroadcastHelper\<close>, \<open>BroadcastLooper\<close>). Dimensions and counts are \<open>nat\<close>, the deltas and
  the index \<open>int\<close>; 64-bit wrap-around of sizes is left out. What the operators plug in is a parameter: three
  functions from what is read for a span to what is written for it. So are the segments into
  which \<open>ThreadPool::TryParallelFor\<close> splits a range.
\<close>

section \<open>The iterators\<close>

record broadcast_iterator =
  bi_counters :: "nat list"
  bi_deltas :: "int list"
  bi_counts :: "nat list"
  bi_count :: nat
  bi_index :: int

definition BroadcastIterator :: broadcast_iterator where
  "BroadcastIterator = \<lparr>bi_counters = [], bi_deltas = [], bi_counts = [], bi_count = 1, bi_index = 0\<rparr>"

definition Current :: "broadcast_iterator \<Rightarrow> int" where
  "Current it = bi_index it"

text \<open>The loops of \<open>AdvanceBy\<close> over the counters behind the first, with the index so far.\<close>

fun carry_one :: "nat list \<Rightarrow> int list \<Rightarrow> nat list \<Rightarrow> int \<Rightarrow> nat list \<times> int" where
  "carry_one (c # cs) (d # ds) (n # ns) index =
     (let index = index + d in
      if c + 1 \<noteq> n then ((c + 1) # cs, index)
      else let (cs', index') = carry_one cs ds ns index in (0 # cs', index'))"
| "carry_one cs ds ns index = (cs, index)"

fun carry_many :: "nat \<Rightarrow> nat list \<Rightarrow> int list \<Rightarrow> nat list \<Rightarrow> int \<Rightarrow> (nat list \<times> int) res" where
  "carry_many delta (c # cs) (d # ds) (n # ns) index =
     (let index = index + int delta * d; c = c + delta in
      if c < n then Inr (c # cs, index)
      else if n = 0 then Inl Undefined
      else bindE (carry_many (c div n) cs ds ns index) (\<lambda>(cs', index'). Inr (c mod n # cs', index')))"
| "carry_many delta cs ds ns index = Inr (cs, index)"

definition AdvanceBy :: "broadcast_iterator \<Rightarrow> nat \<Rightarrow> broadcast_iterator res" where
  "AdvanceBy it delta =
     (case (bi_counters it, bi_deltas it, bi_counts it) of
        (c # cs, d # ds, n # ns) \<Rightarrow>
          let index = bi_index it + d * int delta; c = c + delta in
          if c = n then
            let (cs', index') = carry_one cs ds ns index in Inr (it\<lparr>bi_counters := 0 # cs', bi_index := index'\<rparr>)
          else if n < c then
            if n = 0 then Inl Undefined
            else bindE (carry_many (c div n) cs ds ns index) (\<lambda>(cs', index').
              Inr (it\<lparr>bi_counters := c mod n # cs', bi_index := index'\<rparr>))
          else Inr (it\<lparr>bi_counters := c # cs, bi_index := index\<rparr>)
      | _ \<Rightarrow> Inl Undefined)"

definition Init :: "broadcast_iterator \<Rightarrow> nat \<Rightarrow> nat \<Rightarrow> broadcast_iterator res" where
  "Init it axis largest = bindE (enforce (axis = 1 \<or> axis = largest)) (\<lambda>_.
     Inr (it\<lparr>bi_deltas := bi_deltas it @ [if axis > 1 then 1 else 0],
       bi_counts := bi_counts it @ [largest], bi_count := bi_count it * axis\<rparr>))"

definition StopBroadcasting :: "broadcast_iterator \<Rightarrow> broadcast_iterator" where
  "StopBroadcasting it = it\<lparr>bi_deltas := bi_deltas it @ [int (bi_count it)], bi_counts := bi_counts it @ [1]\<rparr>"

definition StartBroadcasting :: "broadcast_iterator \<Rightarrow> broadcast_iterator" where
  "StartBroadcasting it = it\<lparr>bi_deltas := bi_deltas it @ [- int (bi_count it)], bi_counts := bi_counts it @ [1]\<rparr>"

definition Append :: "broadcast_iterator \<Rightarrow> nat \<Rightarrow> nat \<Rightarrow> broadcast_iterator res" where
  "Append it axis largest = bindE (enforce (axis = 1 \<or> axis = largest)) (\<lambda>_.
     if bi_deltas it = [] then Inl Undefined
     else
       let it = (if axis > 1 then (if last (bi_deltas it) \<le> 0 then StopBroadcasting it else it)
                 else (if last (bi_deltas it) > 0 then StartBroadcasting it else it)) in
       Inr (it\<lparr>bi_counts := butlast (bi_counts it) @ [last (bi_counts it) * largest],
         bi_count := bi_count it * axis\<rparr>))"

section \<open>The shapes\<close>

record broadcaster =
  br_iterator1 :: broadcast_iterator
  br_iterator2 :: broadcast_iterator
  br_output_shape :: "nat list"

text \<open>
  The constructor goes through the dimensions from the last to the first: the state of its
  loops is the two iterators and the part of the output shape that is done. \<open>both\<close> does one
  operation on each iterator.
\<close>

type_synonym bc_state = "broadcast_iterator \<times> broadcast_iterator \<times> nat list"

definition both :: "(broadcast_iterator \<Rightarrow> nat \<Rightarrow> nat \<Rightarrow> broadcast_iterator res) \<Rightarrow>
    nat \<Rightarrow> nat \<Rightarrow> nat \<Rightarrow> bc_state \<Rightarrow> bc_state res" where
  "both f axis1 axis2 dim st = (case st of (it1, it2, out) \<Rightarrow>
     bindE (f it1 axis1 dim) (\<lambda>it1. bindE (f it2 axis2 dim) (\<lambda>it2. Inr (it1, it2, dim # out))))"

definition dim_to_use :: "nat \<Rightarrow> nat \<Rightarrow> nat res" where
  "dim_to_use axis1 axis2 =
     (let largest = max axis1 axis2; smallest = min axis1 axis2 in
      if smallest = 0 then bindE (enforce (largest \<le> 1)) (\<lambda>_. Inr smallest) else Inr largest)"

text \<open>The first loop, up to the dimensions that initialise the iterators; it returns the rest.\<close>

fun init_loop :: "(nat \<times> nat) list \<Rightarrow> bc_state \<Rightarrow> ((nat \<times> nat) list \<times> bc_state) res" where
  "init_loop [] st = Inr ([], st)"
| "init_loop ((axis1, axis2) # ps) (it1, it2, out) =
     bindE (dim_to_use axis1 axis2) (\<lambda>dim.
     if dim \<le> 1 \<and> ps \<noteq> [] then init_loop ps (it1, it2, dim # out)
     else bindE (both Init axis1 axis2 dim (it1, it2, out)) (\<lambda>st. Inr (ps, st)))"

fun append_loop :: "(nat \<times> nat) list \<Rightarrow> bc_state \<Rightarrow> bc_state res" where
  "append_loop [] st = Inr st"
| "append_loop ((axis1, axis2) # ps) (it1, it2, out) =
     bindE (dim_to_use axis1 axis2) (\<lambda>dim.
     if max axis1 axis2 = 1 then append_loop ps (it1, it2, dim # out)
     else bindE (both Append axis1 axis2 dim (it1, it2, out)) (append_loop ps))"

text \<open>The last loop, over the dimensions only the longer shape has.\<close>

fun rest_loop :: "bool \<Rightarrow> nat list \<Rightarrow> bc_state \<Rightarrow> bc_state res" where
  "rest_loop longer2 [] st = Inr st"
| "rest_loop longer2 (axis # axes) st =
     bindE (if longer2 then both Append 1 axis axis st else both Append axis 1 axis st) (rest_loop longer2 axes)"

text \<open>
  What the constructor does first: it gives the pairs of dimensions that are left, the
  dimensions that only the longer shape has and are left, and the state.
\<close>

definition start_dims :: "nat list \<Rightarrow> nat list \<Rightarrow> ((nat \<times> nat) list \<times> nat list \<times> bc_state) res" where
  "start_dims shape1 shape2 =
     (let r1 = rev shape1; r2 = rev shape2;
          new = (BroadcastIterator, BroadcastIterator, []);
          longer = (if max (length shape1) (length shape2) = length shape2 then r2 else r1);
          done = min (length shape1) (length shape2) in
      if done = 0 then
        (case (r1, r2) of
           ([], []) \<Rightarrow> bindE (both Init 1 1 1 new) (\<lambda>(it1, it2, _). Inr ([], [], (it1, it2, [])))
         | ([], axis # axes) \<Rightarrow> bindE (both Init 1 axis axis new) (\<lambda>st. Inr ([], axes, st))
         | (axis # axes, _) \<Rightarrow> bindE (both Init axis 1 axis new) (\<lambda>st. Inr ([], axes, st)))
      else bindE (init_loop (zip r1 r2) new) (\<lambda>(ps, st). Inr (ps, drop done longer, st)))"

definition Broadcaster :: "nat list \<Rightarrow> nat list \<Rightarrow> broadcaster res" where
  "Broadcaster shape1 shape2 =
     bindE (start_dims shape1 shape2) (\<lambda>(ps, axes, st).
     bindE (append_loop ps st) (\<lambda>st.
     bindE (rest_loop (max (length shape1) (length shape2) = length shape2) axes st) (\<lambda>(it1, it2, out).
     Inr \<lparr>br_iterator1 = it1\<lparr>bi_counters := replicate (length (bi_counts it1)) 0\<rparr>,
          br_iterator2 = it2\<lparr>bi_counters := replicate (length (bi_counts it2)) 0\<rparr>,
          br_output_shape = out\<rparr>)))"

definition GetSpanSize :: "broadcaster \<Rightarrow> nat" where
  "GetSpanSize b = min (hd (bi_counts (br_iterator1 b))) (hd (bi_counts (br_iterator2 b)))"

section \<open>Inputs and output\<close>

record ('a, 'b) input_broadcaster =
  ib_data0 :: "'a list"
  ib_data1 :: "'b list option"
  ib_broadcaster :: broadcaster
  ib_span_size :: nat

definition InputBroadcaster :: "'a list \<times> nat list \<Rightarrow> 'b list option \<times> nat list \<Rightarrow> ('a, 'b) input_broadcaster res" where
  "InputBroadcaster input0 input1 =
     bindE (Broadcaster (snd input0) (snd input1)) (\<lambda>b.
     Inr \<lparr>ib_data0 = fst input0, ib_data1 = fst input1, ib_broadcaster = b, ib_span_size = GetSpanSize b\<rparr>)"

definition ib_AdvanceBy :: "('a, 'b) input_broadcaster \<Rightarrow> nat \<Rightarrow> ('a, 'b) input_broadcaster res" where
  "ib_AdvanceBy ib offset =
     (if ib_span_size ib = 0 then Inl Undefined
      else bindE (enforce (offset mod ib_span_size ib = 0)) (\<lambda>_.
        let b = ib_broadcaster ib in
        bindE (AdvanceBy (br_iterator1 b) offset) (\<lambda>it1.
        bindE (AdvanceBy (br_iterator2 b) offset) (\<lambda>it2.
        Inr (ib\<lparr>ib_broadcaster := b\<lparr>br_iterator1 := it1, br_iterator2 := it2\<rparr>\<rparr>)))))"

definition ib_Next :: "('a, 'b) input_broadcaster \<Rightarrow> ('a, 'b) input_broadcaster res" where
  "ib_Next ib = ib_AdvanceBy ib (ib_span_size ib)"

definition IsInput0Scalar :: "('a, 'b) input_broadcaster \<Rightarrow> bool" where
  "IsInput0Scalar ib \<longleftrightarrow> hd (bi_deltas (br_iterator1 (ib_broadcaster ib))) = 0"

definition IsInput1Scalar :: "('a, 'b) input_broadcaster \<Rightarrow> bool" where
  "IsInput1Scalar ib \<longleftrightarrow> hd (bi_deltas (br_iterator2 (ib_broadcaster ib))) = 0"

text \<open>Reading \<open>n\<close> elements from an index on; outside the tensor it is undefined.\<close>

definition read_span :: "'a list \<Rightarrow> int \<Rightarrow> nat \<Rightarrow> 'a list res" where
  "read_span xs i n = (if 0 \<le> i \<and> nat i + n \<le> length xs then Inr (take n (drop (nat i) xs)) else Inl Undefined)"

definition read_scalar :: "'a list \<Rightarrow> int \<Rightarrow> 'a res" where
  "read_scalar xs i = (if 0 \<le> i then vget xs (nat i) else Inl Undefined)"

definition Scalar0 :: "('a, 'b) input_broadcaster \<Rightarrow> 'a res" where
  "Scalar0 ib = read_scalar (ib_data0 ib) (Current (br_iterator1 (ib_broadcaster ib)))"

definition Scalar1 :: "('a, 'b) input_broadcaster \<Rightarrow> 'b res" where
  "Scalar1 ib = (case ib_data1 ib of None \<Rightarrow> Inl Undefined
     | Some data \<Rightarrow> read_scalar data (Current (br_iterator2 (ib_broadcaster ib))))"

definition Span0 :: "('a, 'b) input_broadcaster \<Rightarrow> nat \<Rightarrow> nat \<Rightarrow> 'a list res" where
  "Span0 ib offset n = read_span (ib_data0 ib) (Current (br_iterator1 (ib_broadcaster ib)) + int offset) n"

definition Span1 :: "('a, 'b) input_broadcaster \<Rightarrow> nat \<Rightarrow> nat \<Rightarrow> 'b list res" where
  "Span1 ib offset n = (case ib_data1 ib of None \<Rightarrow> Inl Undefined
     | Some data \<Rightarrow> read_span data (Current (br_iterator2 (ib_broadcaster ib)) + int offset) n)"

text \<open>\<open>ob_pos\<close> and \<open>ob_end\<close> are \<open>output_bytes_\<close> and \<open>output_end_\<close> as indices of elements.\<close>

record 'c output_broadcaster =
  ob_span_size :: nat
  ob_elements :: nat
  ob_pos :: nat
  ob_end :: nat
  ob_data :: "'c list"

definition OutputBroadcaster :: "nat \<Rightarrow> 'c list \<Rightarrow> int \<Rightarrow> int \<Rightarrow> 'c output_broadcaster res" where
  "OutputBroadcaster span_size data start_offset end_offset =
     (let len = int (length data); real_end = (if end_offset \<le> 0 then len else end_offset) in
      bindE (if start_offset \<noteq> 0 \<or> end_offset \<noteq> 0 then
               bindE (enforce (0 \<le> start_offset \<and> 0 \<le> real_end \<and> start_offset \<le> real_end \<and> real_end \<le> len)) (\<lambda>_.
               if span_size = 0 then Inl Undefined
               else enforce (start_offset mod int span_size = 0 \<and> real_end mod int span_size = 0))
             else Inr ()) (\<lambda>_.
      Inr \<lparr>ob_span_size = span_size, ob_elements = nat (real_end - start_offset),
           ob_pos = nat start_offset, ob_end = nat real_end, ob_data = data\<rparr>))"

definition ob_Next :: "'c output_broadcaster \<Rightarrow> 'c output_broadcaster" where
  "ob_Next ob = ob\<lparr>ob_pos := ob_pos ob + ob_span_size ob\<rparr>"

section \<open>The helper and the loop\<close>

record ('a, 'b, 'c) broadcast_helper =
  bh_input :: "('a, 'b) input_broadcaster"
  bh_output :: "'c output_broadcaster"
  bh_input0_offset :: nat
  bh_input0_num :: nat
  bh_input1_offset :: nat
  bh_input1_num :: nat
  bh_output_offset :: nat
  bh_output_num :: nat

definition BroadcastHelper ::
    "('a, 'b) input_broadcaster \<Rightarrow> 'c output_broadcaster \<Rightarrow> ('a, 'b, 'c) broadcast_helper" where
  "BroadcastHelper ib ob =
     (let n = ib_span_size ib in
      \<lparr>bh_input = ib, bh_output = ob, bh_input0_offset = 0, bh_input0_num = n, bh_input1_offset = 0,
       bh_input1_num = n, bh_output_offset = 0, bh_output_num = n\<rparr>)"

text \<open>The helper for a part of one span.\<close>

definition BroadcastHelper_segment ::
    "('a, 'b, 'c) broadcast_helper \<Rightarrow> nat \<Rightarrow> nat \<Rightarrow> ('a, 'b, 'c) broadcast_helper" where
  "BroadcastHelper_segment rhs offset n =
     (let scalar0 = IsInput0Scalar (bh_input rhs); scalar1 = IsInput1Scalar (bh_input rhs) in
      \<lparr>bh_input = bh_input rhs, bh_output = bh_output rhs,
       bh_input0_offset = (if scalar0 then 0 else offset), bh_input0_num = (if scalar0 then 1 else n),
       bh_input1_offset = (if scalar1 then 0 else offset), bh_input1_num = (if scalar1 then 1 else n),
       bh_output_offset = offset, bh_output_num = n\<rparr>)"

definition SpanInput0 :: "('a, 'b, 'c) broadcast_helper \<Rightarrow> 'a list res" where
  "SpanInput0 h = Span0 (bh_input h) (bh_input0_offset h) (bh_input0_num h)"

definition SpanInput1 :: "('a, 'b, 'c) broadcast_helper \<Rightarrow> 'b list res" where
  "SpanInput1 h = Span1 (bh_input h) (bh_input1_offset h) (bh_input1_num h)"

text \<open>Writing what a function gives into the output span.\<close>

definition write_output :: "('a, 'b, 'c) broadcast_helper \<Rightarrow> 'c list \<Rightarrow> ('a, 'b, 'c) broadcast_helper res" where
  "write_output h zs =
     (let ob = bh_output h; p = ob_pos ob + bh_output_offset h; data = ob_data ob in
      if length zs = bh_output_num h \<and> p + length zs \<le> length data then
        Inr (h\<lparr>bh_output := ob\<lparr>ob_data := take p data @ zs @ drop (p + length zs) data\<rparr>\<rparr>)
      else Inl Undefined)"

definition helper_Next :: "('a, 'b, 'c) broadcast_helper \<Rightarrow> ('a, 'b, 'c) broadcast_helper res" where
  "helper_Next h = bindE (ib_Next (bh_input h)) (\<lambda>ib.
     Inr (h\<lparr>bh_input := ib, bh_output := ob_Next (bh_output h)\<rparr>))"

definition NeedMoreOutput :: "('a, 'b, 'c) broadcast_helper \<Rightarrow> bool" where
  "NeedMoreOutput h \<longleftrightarrow> ob_pos (bh_output h) \<noteq> ob_end (bh_output h)"

record ('a, 'b, 'c) process_funcs =
  input0scalar :: "'a \<Rightarrow> 'b list \<Rightarrow> 'c list"
  input1scalar :: "'a list \<Rightarrow> 'b \<Rightarrow> 'c list"
  general :: "'a list \<Rightarrow> 'b list \<Rightarrow> 'c list"

text \<open>The function for the kind of span at hand, applied to what it reads.\<close>

definition process :: "('a, 'b, 'c) process_funcs \<Rightarrow> ('a, 'b, 'c) broadcast_helper \<Rightarrow> ('a, 'b, 'c) broadcast_helper res" where
  "process F h =
     (if IsInput0Scalar (bh_input h) then
        bindE (Scalar0 (bh_input h)) (\<lambda>x. bindE (SpanInput1 h) (\<lambda>ys. write_output h (input0scalar F x ys)))
      else if IsInput1Scalar (bh_input h) then
        bindE (SpanInput0 h) (\<lambda>xs. bindE (Scalar1 (bh_input h)) (\<lambda>y. write_output h (input1scalar F xs y)))
      else bindE (SpanInput0 h) (\<lambda>xs. bindE (SpanInput1 h) (\<lambda>ys. write_output h (general F xs ys))))"

text \<open>The loop, with fuel: None when the fuel does not suffice.\<close>

fun span_loop :: "nat \<Rightarrow> ('a, 'b, 'c) process_funcs \<Rightarrow> ('a, 'b, 'c) broadcast_helper \<Rightarrow>
    ('a, 'b, 'c) broadcast_helper res option" where
  "span_loop 0 F h = (if NeedMoreOutput h then None else Some (Inr h))"
| "span_loop (Suc fuel) F h =
     (if NeedMoreOutput h then
        (case bindE (process F h) helper_Next of Inl e \<Rightarrow> Some (Inl e) | Inr h' \<Rightarrow> span_loop fuel F h')
      else Some (Inr h))"

text \<open>The segments \<open>[first, last)\<close> a thread pool makes of the single span, one after the other.\<close>

definition ParallelizeSingleSpan :: "(nat \<times> nat) list \<Rightarrow> ('a, 'b, 'c) process_funcs \<Rightarrow>
    ('a, 'b, 'c) broadcast_helper \<Rightarrow> ('a, 'b, 'c) broadcast_helper res" where
  "ParallelizeSingleSpan segments F h =
     foldE (\<lambda>(first, last) h.
       bindE (process F (BroadcastHelper_segment h first (last - first))) (\<lambda>h'.
       Inr (h\<lparr>bh_output := bh_output h'\<rparr>))) segments h"

definition BroadcastLooper :: "bool \<Rightarrow> (nat \<times> nat) list \<Rightarrow> nat \<Rightarrow> ('a, 'b, 'c) process_funcs \<Rightarrow>
    ('a, 'b, 'c) broadcast_helper \<Rightarrow> ('a, 'b, 'c) broadcast_helper res option" where
  "BroadcastLooper par_available segments fuel F h =
     (if ib_data1 (bh_input h) = None then Some (Inl EnforceFailed)
      else if par_available \<and> ib_span_size (bh_input h) = ob_elements (bh_output h)
      then Some (ParallelizeSingleSpan segments F h)
      else span_loop fuel F h)"


section \<open>Walking\<close>

text \<open>The index after \<open>t\<close> steps in all, and the counters: every delta counts the carries into its place.\<close>

fun walk_index :: "int list \<Rightarrow> nat list \<Rightarrow> nat \<Rightarrow> int" where
  "walk_index (d # ds) (n # ns) t = d * int t + walk_index ds ns (t div n)"
| "walk_index _ _ t = 0"

fun walk_counters :: "nat list \<Rightarrow> nat \<Rightarrow> nat list" where
  "walk_counters [] t = []"
| "walk_counters (n # ns) t = t mod n # walk_counters ns (t div n)"

definition walked :: "broadcast_iterator \<Rightarrow> nat \<Rightarrow> bool" where
  "walked it t \<longleftrightarrow> bi_deltas it \<noteq> [] \<and> length (bi_deltas it) = length (bi_counts it) \<and> 0 \<notin> set (bi_counts it)
     \<and> bi_counters it = walk_counters (bi_counts it) t \<and> bi_index it = walk_index (bi_deltas it) (bi_counts it) t"

text \<open>Adding \<open>k\<close> to a number with last digit \<open>t mod n\<close>.\<close>

lemma add_digit:
  assumes "0 < (n :: nat)"
  shows "t mod n + k < n \<Longrightarrow> (t + k) mod n = t mod n + k \<and> (t + k) div n = t div n"
    and "(t + k) mod n = (t mod n + k) mod n"
    and "(t + k) div n = t div n + (t mod n + k) div n"
proof -
  show 3: "(t + k) div n = t div n + (t mod n + k) div n"
  proof -
    have "t + k = (t mod n + k) + t div n * n" using div_mult_mod_eq [of t n] by linarith
    then have "(t + k) div n = ((t mod n + k) + t div n * n) div n" by (rule arg_cong)
    also have "\<dots> = t div n + (t mod n + k) div n" using assms by (simp only: div_mult_self1)
    finally show ?thesis .
  qed
  show 2: "(t + k) mod n = (t mod n + k) mod n" by (simp add: mod_simps)
  show "t mod n + k < n \<Longrightarrow> (t + k) mod n = t mod n + k \<and> (t + k) div n = t div n"
    using 2 3 by simp
qed

lemma carry_many_walk:
  "0 \<notin> set ns \<Longrightarrow> length ds = length ns \<Longrightarrow>
   carry_many k (walk_counters ns t) ds ns index =
     Inr (walk_counters ns (t + k), index + walk_index ds ns (t + k) - walk_index ds ns t)"
proof (induction ns arbitrary: ds t k index)
  case (Cons n ns)
  then obtain d ds' where ds: "ds = d # ds'" by (cases ds) auto
  have n: "0 < n" using Cons.prems by simp
  show ?case
  proof (cases "t mod n + k < n")
    case True
    then show ?thesis using add_digit(1) [OF n True] by (simp add: ds Let_def algebra_simps)
  next
    case False
    then show ?thesis
      using Cons.IH [of ds' "(t mod n + k) div n" "t div n"] Cons.prems n add_digit(2,3) [OF n, of t k]
      by (simp add: ds Let_def algebra_simps)
  qed
qed simp

lemma carry_one_walk:
  "0 \<notin> set ns \<Longrightarrow> length ds = length ns \<Longrightarrow>
   carry_one (walk_counters ns t) ds ns index =
     (walk_counters ns (t + 1), index + walk_index ds ns (t + 1) - walk_index ds ns t)"
proof (induction ns arbitrary: ds t index)
  case (Cons n ns)
  then obtain d ds' where ds: "ds = d # ds'" by (cases ds) auto
  have n: "0 < n" using Cons.prems by simp
  show ?case
  proof (cases "t mod n + 1 = n")
    case False
    then have "t mod n + 1 < n" using n mod_less_divisor [of n t] by linarith
    from add_digit(1) [OF n this] False show ?thesis
      by (simp add: ds Let_def algebra_simps)
  next
    case True
    then have "(t + 1) mod n = 0" "(t + 1) div n = t div n + 1"
      using add_digit(2,3) [OF n, of t 1] n by simp_all
    then show ?thesis
      using Cons.IH [of ds' "t div n"] Cons.prems True by (simp add: ds Let_def algebra_simps)
  qed
qed simp

lemma AdvanceBy_walked:
  assumes "walked it t"
  shows "\<exists>it'. AdvanceBy it k = Inr it' \<and> walked it' (t + k) \<and> bi_deltas it' = bi_deltas it \<and> bi_counts it' = bi_counts it"
proof -
  obtain d ds n ns where it: "bi_deltas it = d # ds" "bi_counts it = n # ns"
    using assms by (cases "bi_deltas it"; cases "bi_counts it") (auto simp: walked_def)
  have w: "bi_counters it = t mod n # walk_counters ns (t div n)"
    "bi_index it = d * int t + walk_index ds ns (t div n)" "0 \<notin> set ns" "length ds = length ns" and n: "0 < n"
    using assms by (simp_all add: walked_def it)
  note one = carry_one_walk [OF w(3,4)] and many = carry_many_walk [OF w(3,4)]
  consider "t mod n + k < n" | "t mod n + k = n" | "n < t mod n + k" by linarith
  then show ?thesis
  proof cases
    case 1
    then show ?thesis using add_digit(1) [OF n 1] w n
      by (simp add: AdvanceBy_def it walked_def Let_def algebra_simps)
  next
    case 2
    then have "(t + k) mod n = 0" "(t + k) div n = t div n + 1"
      using add_digit(2,3) [OF n, of t k] n by simp_all
    with 2 show ?thesis using w n one by (simp add: AdvanceBy_def it walked_def Let_def algebra_simps)
  next
    case 3
    then show ?thesis using w n many add_digit(2,3) [OF n, of t k]
      by (simp add: AdvanceBy_def it walked_def Let_def algebra_simps)
  qed
qed

text \<open>Within a span the index moves by the first delta alone.\<close>

lemma walk_index_span:
  assumes "ds \<noteq> []" "ns \<noteq> []" "S dvd hd ns" "S dvd p" "r < S"
  shows "walk_index ds ns (p + r) = walk_index ds ns p + hd ds * int r"
proof -
  obtain d ds' n ns' where l: "ds = d # ds'" "ns = n # ns'" using assms by (cases ds; cases ns) auto
  from assms l obtain m j where m: "n = S * m" "p = S * j" by (auto elim!: dvdE)
  have "(S * j + r) div (S * m) = (S * j) div (S * m)"
    using assms(5) by (simp add: div_mult2_eq)
  then show ?thesis using m by (simp add: l algebra_simps)
qed


section \<open>The index in an operand\<close>

text \<open>
  \<open>source_index D t\<close>: the index of position \<open>t\<close> of the output in an operand; \<open>D\<close> has the dimensions
  of the operand and of the output, the last one first. It is the index the strides of the
  operand give, with stride 0 where it repeats.
\<close>

fun source_index :: "(nat \<times> nat) list \<Rightarrow> nat \<Rightarrow> nat" where
  "source_index [] t = 0"
| "source_index ((a, n) # D) t = (if a = 1 then 0 else t mod n) + a * source_index D (t div n)"

definition size_in :: "(nat \<times> nat) list \<Rightarrow> nat" where
  "size_in D = prod_list (map fst D)"

definition size_out :: "(nat \<times> nat) list \<Rightarrow> nat" where
  "size_out D = prod_list (map snd D)"

lemma size_simps [simp]:
  "size_in [] = 1" "size_in ((a, n) # D) = a * size_in D" "size_in (D @ E) = size_in D * size_in E"
  "size_out [] = 1" "size_out ((a, n) # D) = n * size_out D" "size_out (D @ E) = size_out D * size_out E"
  by (simp_all add: size_in_def size_out_def)

definition dims_fit :: "(nat \<times> nat) list \<Rightarrow> bool" where
  "dims_fit D \<longleftrightarrow> (\<forall>(a, n) \<in> set D. (a = 1 \<or> a = n) \<and> 0 < n)"

lemma dims_fit_simps [simp]:
  "dims_fit []" "dims_fit ((a, n) # D) \<longleftrightarrow> (a = 1 \<or> a = n) \<and> 0 < n \<and> dims_fit D"
  "dims_fit (D @ E) \<longleftrightarrow> dims_fit D \<and> dims_fit E"
  by (simp_all add: dims_fit_def ball_Un)

lemma dims_fit_pos: "dims_fit D \<Longrightarrow> 0 < size_in D \<and> 0 < size_out D"
  by (induction D) auto

lemma source_index_snoc:
  "source_index (D @ [(a, n)]) t =
     source_index D t + size_in D * (if a = 1 then 0 else (t div size_out D) mod n)"
  by (induction D t rule: source_index.induct) (auto simp: div_mult2_eq algebra_simps)

lemma source_index_mod: "source_index D (t mod size_out D) = source_index D t"
proof (induction D t rule: source_index.induct)
  case (2 a n D t)
  have "t mod (n * size_out D) mod n = t mod n" by (rule mod_mod_cancel) simp
  moreover have "t mod (n * size_out D) div n = (t div n) mod size_out D"
    by (cases "n = 0") (simp_all add: mod_mult2_eq)
  ultimately show ?case using 2 by simp
qed simp

lemma source_index_less: "dims_fit D \<Longrightarrow> source_index D t < size_in D"
proof (induction D t rule: source_index.induct)
  case (2 a n D t)
  then have less: "source_index D (t div n) < size_in D" by simp
  show ?case
  proof (cases "a = 1")
    case False
    then have "a = n" "0 < n" using 2 by auto
    then have "t mod n + n * source_index D (t div n) < n * Suc (source_index D (t div n))" by simp
    also have "\<dots> \<le> n * size_in D" using less by (intro mult_le_mono2) simp
    finally show ?thesis using \<open>a = n\<close> False by simp
  qed (use less in simp)
qed simp

lemma source_index_rm_index:
  "broadcast_to ds os \<Longrightarrow> t < prod_list os \<Longrightarrow> rm_index os (bstrides ds) t = source_index (rev (zip ds os)) t"
proof (induction ds arbitrary: os t)
  case (Cons d ds)
  from Cons.prems(1) obtain q qs where os: "os = q # qs" "broadcast_to ds qs"
    by (auto simp: broadcast_to_Cons)
  have len: "length ds = length qs" using os(2) by (auto simp: broadcast_to_def dest: list_all2_lengthD)
  have out: "size_out (rev (zip ds qs)) = prod_list qs" "size_in (rev (zip ds qs)) = prod_list ds"
    using len by (simp_all add: size_out_def size_in_def rev_map [symmetric])
  have pos: "0 < prod_list qs" using Cons.prems(2) os by (cases "prod_list qs") auto
  have "rm_index qs (bstrides ds) (t mod prod_list qs) = source_index (rev (zip ds qs)) (t mod prod_list qs)"
    using Cons.IH [OF os(2)] pos by simp
  also have "\<dots> = source_index (rev (zip ds qs)) t" using source_index_mod [of "rev (zip ds qs)" t] out by simp
  finally have ih: "rm_index qs (bstrides ds) (t mod prod_list qs) = source_index (rev (zip ds qs)) t" .
  have "t div prod_list qs < q" using Cons.prems(2) os pos by (simp add: less_mult_imp_div_less)
  then show ?case using ih out by (simp add: os source_index_snoc)
qed simp

section \<open>Construction of an iterator\<close>

text \<open>The iterator that has been built for the dimensions \<open>D\<close>.\<close>

definition built :: "(nat \<times> nat) list \<Rightarrow> broadcast_iterator \<Rightarrow> bool" where
  "built D it \<longleftrightarrow> length (bi_deltas it) = length (bi_counts it) \<and> 0 \<notin> set (bi_counts it)
     \<and> prod_list (bi_counts it) = size_out D \<and> bi_count it = size_in D \<and> dims_fit D \<and> hd (bi_deltas it) \<in> {0, 1}
     \<and> (\<exists>m \<le> length D. hd (bi_counts it) = size_out (take m D))
     \<and> (length (bi_counts it) = 1 \<longrightarrow> hd (bi_counts it) = size_out D)
     \<and> (\<forall>t. walk_index (bi_deltas it) (bi_counts it) t = int (source_index D t) +
          (if last (bi_deltas it) > 0 then int (size_in D) * int (t div size_out D) else 0))"

definition building :: "(nat \<times> nat) list \<Rightarrow> broadcast_iterator \<Rightarrow> bool" where
  "building D it \<longleftrightarrow> bi_deltas it \<noteq> [] \<and> bi_index it = 0 \<and> (dims_fit D \<longrightarrow> built D it)"

lemma walk_index_snoc:
  "length ds = length ns \<Longrightarrow>
   walk_index (ds @ [d]) (ns @ [n]) t = walk_index ds ns t + d * int (t div prod_list ns)"
  by (induction ds ns t rule: walk_index.induct) (auto simp: div_mult2_eq)

lemma walk_index_last:
  "length ds = Suc (length ns) \<Longrightarrow> walk_index ds (ns @ [m]) t = walk_index ds (ns @ [n]) t"
proof (induction ns arbitrary: ds t)
  case Nil
  then show ?case by (cases ds) auto
next
  case (Cons k ns)
  then show ?case by (cases ds) auto
qed

lemma source_index_ones: "set D \<subseteq> {(1, 1)} \<Longrightarrow> source_index D t = 0 \<and> size_in D = 1 \<and> size_out D = 1 \<and> dims_fit D"
  by (induction D arbitrary: t) auto

lemma Init_building:
  assumes "a = 1 \<or> a = n" and ones: "dims_fit D \<longrightarrow> set D \<subseteq> {(1, 1)}"
  shows "\<exists>it. Init BroadcastIterator a n = Inr it \<and> building (D @ [(a, n)]) it"
proof -
  let ?it = "BroadcastIterator\<lparr>bi_deltas := [if a > 1 then 1 else 0], bi_counts := [n], bi_count := a\<rparr>"
  have "built (D @ [(a, n)]) ?it" if fit: "dims_fit (D @ [(a, n)])"
  proof -
    have D: "source_index D t = 0" "size_in D = 1" "size_out D = 1" for t
      using ones fit source_index_ones by auto
    have "\<exists>m \<le> Suc (length D). n = size_out (take m (D @ [(a, n)]))"
      by (rule exI [where x = "Suc (length D)"]) (simp add: D)
    moreover have "int (source_index (D @ [(a, n)]) t) + int a * int (t div n) = int t" if "a > 1" for t
      using that assms(1) div_mult_mod_eq [of t n]
      by (simp add: source_index_snoc D flip: of_nat_mult of_nat_add)
    moreover have "int (source_index (D @ [(a, n)]) t) = 0" if "\<not> a > 1" for t
      using that assms(1) fit by (cases "a = 1") (auto simp: source_index_snoc D)
    ultimately show ?thesis using fit by (simp add: built_def D)
  qed
  then show ?thesis using assms(1) by (simp add: Init_def building_def BroadcastIterator_def)
qed


text \<open>Before a dimension is added to the last place, a new place is opened when the kind changes.\<close>

definition turn :: "nat \<Rightarrow> broadcast_iterator \<Rightarrow> broadcast_iterator" where
  "turn a it = (if a > 1 then (if last (bi_deltas it) \<le> 0 then StopBroadcasting it else it)
                else (if last (bi_deltas it) > 0 then StartBroadcasting it else it))"

lemma turn_cases:
  obtains "turn a it = it" "last (bi_deltas it) > 0 \<longleftrightarrow> a > 1"
  | d where "turn a it = it\<lparr>bi_deltas := bi_deltas it @ [d], bi_counts := bi_counts it @ [1]\<rparr>"
      "d = (if a > 1 then int (bi_count it) else - int (bi_count it))"
      "last (bi_deltas it) > 0 \<longleftrightarrow> \<not> a > 1"
proof (cases "last (bi_deltas it) > 0 \<longleftrightarrow> a > 1")
  case True
  then have "turn a it = it" by (auto simp: turn_def)
  then show thesis using True by (rule that(1))
next
  case False
  show thesis
  proof (rule that(2) [OF _ refl])
    show "turn a it = it\<lparr>bi_deltas := bi_deltas it @ [if a > 1 then int (bi_count it) else - int (bi_count it)],
        bi_counts := bi_counts it @ [1]\<rparr>"
      using False by (auto simp: turn_def StopBroadcasting_def StartBroadcasting_def)
  qed (use False in blast)
qed

lemma turn_built:
  assumes bt: "built D it" and ne: "bi_deltas it \<noteq> []"
  shows "length (bi_deltas (turn a it)) = length (bi_counts (turn a it))" "0 \<notin> set (bi_counts (turn a it))"
    "bi_deltas (turn a it) \<noteq> []" "prod_list (bi_counts (turn a it)) = size_out D" "bi_count (turn a it) = size_in D"
    "hd (bi_deltas (turn a it)) = hd (bi_deltas it)" "hd (bi_counts (turn a it)) = hd (bi_counts it)"
    "length (bi_counts (turn a it)) = 1 \<longrightarrow> hd (bi_counts it) = size_out D"
    "last (bi_deltas (turn a it)) > 0 \<longleftrightarrow> a > 1"
    "walk_index (bi_deltas (turn a it)) (bi_counts (turn a it)) t =
       int (source_index D t) + (if a > 1 then int (size_in D) * int (t div size_out D) else 0)"
proof -
  have cne: "bi_counts it \<noteq> []" using bt ne by (auto simp: built_def)
  have pos: "0 < size_in D" using bt dims_fit_pos by (auto simp: built_def)
  have all: "length (bi_deltas (turn a it)) = length (bi_counts (turn a it)) \<and> 0 \<notin> set (bi_counts (turn a it))
    \<and> bi_deltas (turn a it) \<noteq> [] \<and> prod_list (bi_counts (turn a it)) = size_out D \<and> bi_count (turn a it) = size_in D
    \<and> hd (bi_deltas (turn a it)) = hd (bi_deltas it) \<and> hd (bi_counts (turn a it)) = hd (bi_counts it)
    \<and> (length (bi_counts (turn a it)) = 1 \<longrightarrow> hd (bi_counts it) = size_out D)
    \<and> (last (bi_deltas (turn a it)) > 0 \<longleftrightarrow> a > 1)
    \<and> walk_index (bi_deltas (turn a it)) (bi_counts (turn a it)) t =
       int (source_index D t) + (if a > 1 then int (size_in D) * int (t div size_out D) else 0)"
  proof (cases rule: turn_cases [of a it])
    case 1
    then show ?thesis using bt ne by (simp add: built_def)
  next
    case (2 d)
    have "walk_index (bi_deltas it @ [d]) (bi_counts it @ [1]) t =
        walk_index (bi_deltas it) (bi_counts it) t + d * int (t div size_out D)"
      using bt by (subst walk_index_snoc) (simp_all add: built_def)
    then show ?thesis using 2 bt ne cne pos by (simp add: built_def)
  qed
  then show "length (bi_deltas (turn a it)) = length (bi_counts (turn a it))" "0 \<notin> set (bi_counts (turn a it))"
    "bi_deltas (turn a it) \<noteq> []" "prod_list (bi_counts (turn a it)) = size_out D" "bi_count (turn a it) = size_in D"
    "hd (bi_deltas (turn a it)) = hd (bi_deltas it)" "hd (bi_counts (turn a it)) = hd (bi_counts it)"
    "length (bi_counts (turn a it)) = 1 \<longrightarrow> hd (bi_counts it) = size_out D"
    "last (bi_deltas (turn a it)) > 0 \<longleftrightarrow> a > 1"
    "walk_index (bi_deltas (turn a it)) (bi_counts (turn a it)) t =
       int (source_index D t) + (if a > 1 then int (size_in D) * int (t div size_out D) else 0)"
    by blast+
qed

lemma last_place:
  "ns \<noteq> [] \<Longrightarrow> prod_list (butlast ns @ [last ns * n]) = prod_list ns * (n :: nat)"
  "ns \<noteq> [] \<Longrightarrow> length ds = length ns \<Longrightarrow> walk_index ds (butlast ns @ [last ns * n]) t = walk_index ds ns t"
proof -
  assume ne: "ns \<noteq> []"
  then have "prod_list ns = prod_list (butlast ns @ [last ns])" by simp
  then show "prod_list (butlast ns @ [last ns * n]) = prod_list ns * n" by (simp add: mult.assoc)
next
  assume ne: "ns \<noteq> []" and len: "length ds = length ns"
  have "walk_index ds (butlast ns @ [last ns * n]) t = walk_index ds (butlast ns @ [last ns]) t"
    by (rule walk_index_last) (use ne len in simp)
  then show "walk_index ds (butlast ns @ [last ns * n]) t = walk_index ds ns t" using ne by simp
qed

lemma Append_building:
  assumes a: "a = 1 \<or> a = n" and b: "building D it"
  shows "\<exists>it'. Append it a n = Inr it' \<and> building (D @ [(a, n)]) it'"
proof -
  let ?up = "turn a it"
  let ?it' = "?up\<lparr>bi_counts := butlast (bi_counts ?up) @ [last (bi_counts ?up) * n],
         bi_count := bi_count ?up * a\<rparr>"
  have ne: "bi_deltas it \<noteq> []" and idx: "bi_index it = 0" using b by (simp_all add: building_def)
  have run: "Append it a n = Inr ?it'"
    using a ne by (simp add: Append_def turn_def Let_def)
  have "built (D @ [(a, n)]) ?it'" if fit': "dims_fit (D @ [(a, n)])"
  proof -
    have fit: "dims_fit D" and n: "0 < n" using fit' by simp_all
    from b fit have bt: "built D it" by (simp add: building_def)
    note u = turn_built [OF bt ne, of a]
    have cne: "bi_counts ?up \<noteq> []" using u(1,3) by auto
    have walk: "walk_index (bi_deltas ?up) (butlast (bi_counts ?up) @ [last (bi_counts ?up) * n]) t =
        int (source_index (D @ [(a, n)]) t) +
          (if a > 1 then int (size_in (D @ [(a, n)])) * int (t div size_out (D @ [(a, n)])) else 0)" for t
    proof (cases "a > 1")
      case True
      then have "a = n" using a by auto
      have "t div size_out D = n * (t div (size_out D * n)) + t div size_out D mod n"
        by (simp add: div_mult2_eq)
      then have "size_in D * (t div size_out D) =
          size_in D * (t div size_out D mod n) + size_in D * n * (t div (size_out D * n))"
        by (metis add.commute distrib_left mult.assoc)
      then have "int (size_in D) * int (t div size_out D) =
          int (size_in D * (t div size_out D mod n)) + int (size_in D * n) * int (t div (size_out D * n))"
        by (metis of_nat_add of_nat_mult)
      then show ?thesis using True \<open>a = n\<close> u(10) [of t] last_place(2) [OF cne u(1)]
        by (simp add: source_index_snoc)
    next
      case False
      then have "a = 1" using a n by auto
      then show ?thesis using u(10) [of t] last_place(2) [OF cne u(1)] by (simp add: source_index_snoc)
    qed
    have hd': "\<exists>m \<le> length (D @ [(a, n)]). hd (butlast (bi_counts ?up) @ [last (bi_counts ?up) * n]) =
        size_out (take m (D @ [(a, n)]))"
      and one: "length (butlast (bi_counts ?up) @ [last (bi_counts ?up) * n]) = 1 \<longrightarrow>
        hd (butlast (bi_counts ?up) @ [last (bi_counts ?up) * n]) = size_out (D @ [(a, n)])"
    proof -
      show one: "length (butlast (bi_counts ?up) @ [last (bi_counts ?up) * n]) = 1 \<longrightarrow>
        hd (butlast (bi_counts ?up) @ [last (bi_counts ?up) * n]) = size_out (D @ [(a, n)])"
        using u(4,7,8) cne by (cases "bi_counts ?up") auto
      show "\<exists>m \<le> length (D @ [(a, n)]). hd (butlast (bi_counts ?up) @ [last (bi_counts ?up) * n]) =
        size_out (take m (D @ [(a, n)]))"
      proof (cases "butlast (bi_counts ?up) = []")
        case True
        then show ?thesis using one by (intro exI [where x = "Suc (length D)"]) simp
      next
        case False
        then have "hd (butlast (bi_counts ?up) @ [last (bi_counts ?up) * n]) = hd (bi_counts it)"
          using u(7) cne by (cases "bi_counts ?up") auto
        moreover from bt obtain m where "m \<le> length D" "hd (bi_counts it) = size_out (take m D)"
          by (auto simp: built_def)
        ultimately show ?thesis by (intro exI [where x = m]) simp
      qed
    qed
    have "last (bi_counts ?up) \<noteq> 0" using u(2) cne by (metis last_in_set)
    then have "0 \<notin> set (butlast (bi_counts ?up) @ [last (bi_counts ?up) * n])"
      using u(2) n by (auto dest: in_set_butlastD)
    then show ?thesis
      unfolding built_def using u fit' hd' one walk last_place(1) [OF cne, of n] bt
      by (simp add: built_def cne)
  qed
  with run show ?thesis using ne idx turn_cases [of a it]
    by (auto simp: building_def turn_def StopBroadcasting_def StartBroadcasting_def)
qed

lemma skip_building: "building D it \<Longrightarrow> building (D @ [(1, 1)]) it"
proof -
  assume b: "building D it"
  have "built (D @ [(1, 1)]) it" if bt: "built D it"
  proof -
    from bt obtain m where "m \<le> length D" "hd (bi_counts it) = size_out (take m D)" by (auto simp: built_def)
    then have "\<exists>m \<le> Suc (length D). hd (bi_counts it) = size_out (take m (D @ [(1, 1)]))"
      by (intro exI [where x = m]) simp
    then show ?thesis using bt by (simp add: built_def source_index_snoc)
  qed
  with b show ?thesis by (simp add: building_def)
qed


section \<open>Construction from two shapes\<close>

text \<open>The rule for one pair of dimensions, and for two shapes, the last dimension first.\<close>

definition fits :: "nat \<times> nat \<Rightarrow> bool" where
  "fits p \<longleftrightarrow> fst p = snd p \<or> fst p = 1 \<or> snd p = 1"

definition joint :: "nat \<times> nat \<Rightarrow> nat" where
  "joint p = (if fst p = 1 then snd p else fst p)"

lemma joint_one: "joint (1, a) = a" "joint (a, 1) = a"
  by (simp_all add: joint_def)

lemma dim_to_use_fits: "fits (a, b) \<Longrightarrow> dim_to_use a b = Inr (joint (a, b))"
  by (auto simp: dim_to_use_def fits_def joint_def Let_def max_def min_def)

definition dims1 :: "(nat \<times> nat) list \<Rightarrow> (nat \<times> nat) list" where
  "dims1 ps = map (\<lambda>p. (fst p, joint p)) ps"

definition dims2 :: "(nat \<times> nat) list \<Rightarrow> (nat \<times> nat) list" where
  "dims2 ps = map (\<lambda>p. (snd p, joint p)) ps"

lemma dims_simps [simp]:
  "dims1 [] = []" "dims1 (p # ps) = (fst p, joint p) # dims1 ps" "dims1 (ps @ qs) = dims1 ps @ dims1 qs"
  "dims2 [] = []" "dims2 (p # ps) = (snd p, joint p) # dims2 ps" "dims2 (ps @ qs) = dims2 ps @ dims2 qs"
  by (simp_all add: dims1_def dims2_def)

text \<open>The state after the dimensions \<open>ps\<close>.\<close>

definition done_dims :: "(nat \<times> nat) list \<Rightarrow> bc_state \<Rightarrow> bool" where
  "done_dims ps st \<longleftrightarrow> (case st of (it1, it2, out) \<Rightarrow>
     building (dims1 ps) it1 \<and> building (dims2 ps) it2 \<and> out = rev (map joint ps))"

lemma both_Append:
  assumes "done_dims ps st" "fits (a, b)"
  shows "\<exists>st'. both Append a b (joint (a, b)) st = Inr st' \<and> done_dims (ps @ [(a, b)]) st'"
proof -
  obtain it1 it2 out where st: "st = (it1, it2, out)" by (cases st) auto
  have ab: "a = 1 \<or> a = joint (a, b)" "b = 1 \<or> b = joint (a, b)"
    using assms(2) by (auto simp: fits_def joint_def)
  obtain it1' where 1: "Append it1 a (joint (a, b)) = Inr it1'" "building (dims1 ps @ [(a, joint (a, b))]) it1'"
    using Append_building [OF ab(1)] assms(1) by (auto simp: st done_dims_def)
  obtain it2' where 2: "Append it2 b (joint (a, b)) = Inr it2'" "building (dims2 ps @ [(b, joint (a, b))]) it2'"
    using Append_building [OF ab(2)] assms(1) by (auto simp: st done_dims_def)
  show ?thesis using 1 2 assms(1) by (simp add: st both_def done_dims_def)
qed

lemma both_Init:
  assumes small: "\<forall>p \<in> set ps. fits p \<and> joint p \<le> 1" and f: "fits (a, b)"
  shows "\<exists>st'. both Init a b (joint (a, b)) (BroadcastIterator, BroadcastIterator, rev (map joint ps)) = Inr st'
    \<and> done_dims (ps @ [(a, b)]) st'"
proof -
  have ab: "a = 1 \<or> a = joint (a, b)" "b = 1 \<or> b = joint (a, b)"
    using f by (auto simp: fits_def joint_def)
  have ones: "set ps \<subseteq> {(1, 1)}" if "0 \<notin> joint ` set ps"
  proof
    fix p assume p: "p \<in> set ps"
    then have "joint p = 1" using that small by (metis image_eqI le_Suc_eq le_zero_eq One_nat_def)
    then show "p \<in> {(1, 1)}" using small p
      by (cases p) (auto simp: fits_def joint_def split: if_splits)
  qed
  have pos: "0 \<notin> joint ` set ps" if "dims_fit (dims1 ps) \<or> dims_fit (dims2 ps)"
    using that by (auto simp: dims_fit_def dims1_def dims2_def)
  have fit1: "dims_fit (dims1 ps) \<longrightarrow> set (dims1 ps) \<subseteq> {(1, 1)}"
    and fit2: "dims_fit (dims2 ps) \<longrightarrow> set (dims2 ps) \<subseteq> {(1, 1)}"
    using pos ones by (auto simp: dims1_def dims2_def joint_def)
  obtain it1 where 1: "Init BroadcastIterator a (joint (a, b)) = Inr it1"
      "building (dims1 ps @ [(a, joint (a, b))]) it1"
    using Init_building [OF ab(1) fit1] by auto
  obtain it2 where 2: "Init BroadcastIterator b (joint (a, b)) = Inr it2"
      "building (dims2 ps @ [(b, joint (a, b))]) it2"
    using Init_building [OF ab(2) fit2] by auto
  show ?thesis using 1 2 by (simp add: both_def done_dims_def)
qed

lemma init_loop_done:
  assumes "\<forall>p \<in> set ps. fits p \<and> joint p \<le> 1" "\<forall>p \<in> set qs. fits p" "qs \<noteq> []"
  shows "\<exists>rest st' pre. init_loop qs (BroadcastIterator, BroadcastIterator, rev (map joint ps)) = Inr (rest, st')
    \<and> qs = pre @ rest \<and> done_dims (ps @ pre) st'"
  using assms
proof (induction qs arbitrary: ps)
  case (Cons q qs)
  obtain a b where q: "q = (a, b)" by (cases q)
  have f: "fits (a, b)" using Cons.prems q by simp
  show ?case
  proof (cases "joint (a, b) \<le> 1 \<and> qs \<noteq> []")
    case True
    have "\<forall>p \<in> set (ps @ [q]). fits p \<and> joint p \<le> 1" using Cons.prems True q by simp
    moreover have "\<forall>p \<in> set qs. fits p" "qs \<noteq> []" using Cons.prems True by simp_all
    ultimately obtain rest st' pre where
      "init_loop qs (BroadcastIterator, BroadcastIterator, rev (map joint (ps @ [q]))) = Inr (rest, st')"
      "qs = pre @ rest" "done_dims ((ps @ [q]) @ pre) st'" using Cons.IH [of "ps @ [q]"] by blast
    then show ?thesis using True q by (intro exI [where x = rest] exI [where x = st'] exI [where x = "q # pre"])
        (simp add: dim_to_use_fits [OF f])
  next
    case False
    obtain st' where "both Init a b (joint (a, b)) (BroadcastIterator, BroadcastIterator, rev (map joint ps)) = Inr st'"
      "done_dims (ps @ [(a, b)]) st'"
      using both_Init [OF Cons.prems(1) f] by blast
    then show ?thesis using False q
      by (intro exI [where x = qs] exI [where x = st'] exI [where x = "[q]"])
        (auto simp: dim_to_use_fits [OF f])
  qed
qed simp

lemma max_one_dims: "fits (a, b) \<Longrightarrow> max a b = 1 \<Longrightarrow> (joint (a, b) = 1 \<and> a = 1 \<and> b = 1) \<or> joint (a, b) = 0"
  by (auto simp: fits_def joint_def max_def split: if_splits)

lemma building_zero: "building D it \<Longrightarrow> building (D @ [(a, 0)]) it"
  by (simp add: building_def)

lemma append_loop_done:
  "done_dims ps st \<Longrightarrow> \<forall>q \<in> set qs. fits q \<Longrightarrow> \<exists>st'. append_loop qs st = Inr st' \<and> done_dims (ps @ qs) st'"
proof (induction qs arbitrary: ps st)
  case (Cons q qs)
  obtain a b where q: "q = (a, b)" by (cases q)
  obtain it1 it2 out where st: "st = (it1, it2, out)" by (cases st) auto
  have f: "fits (a, b)" using Cons.prems q by simp
  show ?case
  proof (cases "max a b = 1")
    case True
    have "done_dims (ps @ [q]) (it1, it2, joint q # out)"
      using max_one_dims [OF f True] Cons.prems(1) skip_building building_zero
      by (auto simp: done_dims_def st q)
    from Cons.IH [OF this] Cons.prems(2) True show ?thesis
      by (simp add: st q dim_to_use_fits [OF f])
  next
    case False
    obtain st' where s: "both Append a b (joint (a, b)) st = Inr st'" "done_dims (ps @ [(a, b)]) st'"
      using both_Append [OF Cons.prems(1) f] by blast
    from Cons.IH [OF s(2)] Cons.prems(2) False s(1) show ?thesis
      by (simp add: st q dim_to_use_fits [OF f])
  qed
qed simp

lemma rest_loop_done:
  "done_dims ps st \<Longrightarrow> \<exists>st'. rest_loop longer2 axes st = Inr st' \<and>
     done_dims (ps @ map (\<lambda>a. if longer2 then (1, a) else (a, 1)) axes) st'"
proof (induction axes arbitrary: ps st)
  case (Cons a axes)
  have j: "joint (1, a) = a" "joint (a, 1) = a" "fits (1, a)" "fits (a, 1)" by (simp_all add: joint_def fits_def)
  obtain st' where "(if longer2 then both Append 1 a a st else both Append a 1 a st) = Inr st'"
    "done_dims (ps @ [if longer2 then (1, a) else (a, 1)]) st'"
    using both_Append [OF Cons.prems j(3)] both_Append [OF Cons.prems j(4)] unfolding j(1,2)
    by (cases longer2) auto
  with Cons.IH [OF this(2)] show ?case by simp
qed simp


text \<open>What the loops reject.\<close>

lemma dim_to_use_Inr:
  assumes "dim_to_use a b = Inr d" "d \<le> 1 \<or> max a b = 1 \<or> (a = 1 \<or> a = d) \<and> (b = 1 \<or> b = d)"
  shows "fits (a, b)"
  using assms by (auto simp: dim_to_use_def fits_def Let_def max_def min_def elim!: bindE_InrE split: if_splits)

lemma both_Inr:
  "both Init a b d st = Inr st' \<Longrightarrow> (a = 1 \<or> a = d) \<and> (b = 1 \<or> b = d)"
  "both Append a b d st = Inr st' \<Longrightarrow> (a = 1 \<or> a = d) \<and> (b = 1 \<or> b = d)"
  by (auto simp: both_def Init_def Append_def elim!: bindE_InrE split: prod.splits)

lemma init_loop_fits:
  "init_loop qs st = Inr (rest, st') \<Longrightarrow> \<exists>pre. qs = pre @ rest \<and> (\<forall>q \<in> set pre. fits q)"
proof (induction qs st rule: init_loop.induct)
  case (2 a b ps it1 it2 out)
  then obtain d where d: "dim_to_use a b = Inr d"
    and r: "(if d \<le> 1 \<and> ps \<noteq> [] then init_loop ps (it1, it2, d # out)
      else bindE (both Init a b d (it1, it2, out)) (\<lambda>st. Inr (ps, st))) = Inr (rest, st')"
    by auto
  show ?case
  proof (cases "d \<le> 1 \<and> ps \<noteq> []")
    case True
    then obtain pre where "ps = pre @ rest" "\<forall>q \<in> set pre. fits q" using 2 d r by auto
    then show ?thesis using dim_to_use_Inr [OF d] True by (intro exI [where x = "(a, b) # pre"]) simp
  next
    case False
    then have "rest = ps" "fits (a, b)" using r dim_to_use_Inr [OF d] both_Inr(1) by (auto elim!: bindE_InrE)
    then show ?thesis by (intro exI [where x = "[(a, b)]"]) simp
  qed
qed simp

lemma append_loop_fits: "append_loop qs st = Inr st' \<Longrightarrow> \<forall>q \<in> set qs. fits q"
proof (induction qs st rule: append_loop.induct)
  case (2 a b ps it1 it2 out)
  then obtain d where d: "dim_to_use a b = Inr d"
    and r: "(if max a b = 1 then append_loop ps (it1, it2, d # out)
      else bindE (both Append a b d (it1, it2, out)) (append_loop ps)) = Inr st'"
    by auto
  show ?case
  proof (cases "max a b = 1")
    case True
    then show ?thesis using 2 d r dim_to_use_Inr [OF d] by simp
  next
    case False
    then obtain st1 where s: "both Append a b d (it1, it2, out) = Inr st1" "append_loop ps st1 = Inr st'"
      using r by auto
    then show ?thesis using "2.IH"(2) [OF d False] dim_to_use_Inr [OF d] both_Inr(2) [OF s(1)] by simp
  qed
qed simp

section \<open>The reference\<close>

text \<open>
  The rule of numpy: both shapes are filled with 1 in front to the longer length; then the
  dimensions of a place agree or one is 1, and the output has the other.
\<close>

definition padded :: "nat \<Rightarrow> nat list \<Rightarrow> nat list" where
  "padded n ds = replicate (n - length ds) 1 @ ds"

definition numpy_shape :: "nat list \<Rightarrow> nat list \<Rightarrow> nat list option" where
  "numpy_shape s1 s2 =
     (let n = max (length s1) (length s2); ps = zip (padded n s1) (padded n s2) in
      if \<forall>p \<in> set ps. fits p then Some (map joint ps) else None)"

text \<open>The pairs of dimensions, the last first, in the order of the loops.\<close>

definition pairs :: "nat list \<Rightarrow> nat list \<Rightarrow> (nat \<times> nat) list" where
  "pairs s1 s2 = rev (zip (padded (max (length s1) (length s2)) s1) (padded (max (length s1) (length s2)) s2))"

lemma numpy_shape_pairs:
  "numpy_shape s1 s2 = (if \<forall>p \<in> set (pairs s1 s2). fits p then Some (rev (map joint (pairs s1 s2))) else None)"
  by (simp add: numpy_shape_def pairs_def Let_def rev_map)

lemma zip_pad_right:
  "length xs \<le> length ys \<Longrightarrow>
   zip (xs @ replicate (length ys - length xs) a) ys = zip xs ys @ map (\<lambda>y. (a, y)) (drop (length xs) ys)"
  "length ys \<le> length xs \<Longrightarrow>
   zip xs (ys @ replicate (length xs - length ys) b) = zip xs ys @ map (\<lambda>x. (x, b)) (drop (length ys) xs)"
proof -
  show "length xs \<le> length ys \<Longrightarrow>
     zip (xs @ replicate (length ys - length xs) a) ys = zip xs ys @ map (\<lambda>y. (a, y)) (drop (length xs) ys)"
    by (rule nth_equalityI) (auto simp: nth_append)
  show "length ys \<le> length xs \<Longrightarrow>
     zip xs (ys @ replicate (length xs - length ys) b) = zip xs ys @ map (\<lambda>x. (x, b)) (drop (length ys) xs)"
    by (rule nth_equalityI) (auto simp: nth_append)
qed

lemma pairs_split:
  "pairs s1 s2 = zip (rev s1) (rev s2) @
     (if length s1 \<le> length s2 then map (\<lambda>y. (1, y)) (drop (length s1) (rev s2))
      else map (\<lambda>x. (x, 1)) (drop (length s2) (rev s1)))"
proof (cases "length s1 \<le> length s2")
  case True
  then show ?thesis using zip_pad_right(1) [of "rev s1" "rev s2" 1]
    by (simp add: pairs_def padded_def zip_rev [symmetric])
next
  case False
  then show ?thesis using zip_pad_right(2) [of "rev s2" "rev s1" 1]
    by (simp add: pairs_def padded_def zip_rev [symmetric])
qed


section \<open>The constructor\<close>

lemma building_counters [simp]: "building D (it\<lparr>bi_counters := cs\<rparr>) \<longleftrightarrow> building D it"
  by (simp add: building_def built_def)

lemma Broadcaster_fits:
  assumes "Broadcaster s1 s2 = Inr b"
  shows "\<forall>p \<in> set (pairs s1 s2). fits p"
proof -
  have "\<forall>p \<in> set (zip (rev s1) (rev s2)). fits p"
  proof (cases "s1 = [] \<or> s2 = []")
    case False
    then have "min (length s1) (length s2) \<noteq> 0" by simp
    with assms obtain ps st st' where "init_loop (zip (rev s1) (rev s2)) (BroadcastIterator, BroadcastIterator, []) = Inr (ps, st)"
      "append_loop ps st = Inr st'"
      by (auto simp: Broadcaster_def start_dims_def Let_def elim!: bindE_InrE)
    note run = this
    obtain pre where "zip (rev s1) (rev s2) = pre @ ps" "\<forall>q \<in> set pre. fits q"
      using init_loop_fits [OF run(1)] by blast
    then show ?thesis using append_loop_fits [OF run(2)] by auto
  qed auto
  moreover have "\<forall>p \<in> set (if length s1 \<le> length s2 then map (\<lambda>y. (1, y)) (drop (length s1) (rev s2))
      else map (\<lambda>x. (x, 1)) (drop (length s2) (rev s1))). fits p"
    by (simp add: fits_def)
  ultimately show ?thesis unfolding pairs_split set_append ball_Un by blast
qed

lemma start_dims_done:
  assumes fit: "\<forall>p \<in> set (pairs s1 s2). fits p" and ne: "\<not> (s1 = [] \<and> s2 = [])"
  shows "\<exists>rest axes st pre. start_dims s1 s2 = Inr (rest, axes, st) \<and> done_dims pre st \<and>
    pairs s1 s2 = pre @ rest @ map (\<lambda>a. if max (length s1) (length s2) = length s2 then (1, a) else (a, 1)) axes"
proof -
  let ?longer2 = "max (length s1) (length s2) = length s2"
  let ?axes = "drop (min (length s1) (length s2)) (if ?longer2 then rev s2 else rev s1)"
  have ps: "pairs s1 s2 = zip (rev s1) (rev s2) @ map (\<lambda>a. if ?longer2 then (1, a) else (a, 1)) ?axes"
    unfolding pairs_split by auto
  consider a as where "rev s1 = []" "rev s2 = a # as" | a as where "rev s1 = a # as" "rev s2 = []"
    | "s1 \<noteq> []" "s2 \<noteq> []"
    using ne by (cases "rev s1"; cases "rev s2") auto
  then show ?thesis
  proof cases
    case (1 a as)
    obtain st where "both Init 1 a a (BroadcastIterator, BroadcastIterator, []) = Inr st" "done_dims [(1, a)] st"
      using both_Init [of "[]" 1 a] by (auto simp: joint_def fits_def)
    moreover from this have "start_dims s1 s2 = Inr ([], as, st)" using 1 by (auto simp: start_dims_def)
    moreover have "pairs s1 s2 = [(1, a)] @ [] @ map (\<lambda>a. if ?longer2 then (1, a) else (a, 1)) as"
      using 1 by (auto simp: pairs_split)
    ultimately show ?thesis by blast
  next
    case (2 a as)
    obtain st where "both Init a 1 a (BroadcastIterator, BroadcastIterator, []) = Inr st" "done_dims [(a, 1)] st"
      using both_Init [of "[]" a 1] joint_one by (auto simp: fits_def)
    moreover from this have "start_dims s1 s2 = Inr ([], as, st)" using 2 by (auto simp: start_dims_def)
    moreover have "pairs s1 s2 = [(a, 1)] @ [] @ map (\<lambda>a. if ?longer2 then (1, a) else (a, 1)) as"
      using 2 by (auto simp: pairs_split)
    ultimately show ?thesis by blast
  next
    case 3
    then have "zip (rev s1) (rev s2) \<noteq> []" by (cases s1 rule: rev_cases; cases s2 rule: rev_cases) auto
    moreover have "\<forall>p \<in> set (zip (rev s1) (rev s2)). fits p" using fit by (simp add: ps)
    ultimately obtain rest st pre where
      "init_loop (zip (rev s1) (rev s2)) (BroadcastIterator, BroadcastIterator, []) = Inr (rest, st)"
      "zip (rev s1) (rev s2) = pre @ rest" "done_dims pre st"
      using init_loop_done [of "[]" "zip (rev s1) (rev s2)"] by auto
    moreover from this have "start_dims s1 s2 = Inr (rest, ?axes, st)" using 3 by (simp add: start_dims_def Let_def)
    moreover have "pairs s1 s2 = pre @ rest @ map (\<lambda>a. if ?longer2 then (1, a) else (a, 1)) ?axes"
      unfolding ps calculation by simp
    ultimately show ?thesis by blast
  qed
qed

text \<open>The iterators of a new broadcaster are built for the pairs of dimensions, or for a pair of 1.\<close>

lemma Broadcaster_done:
  assumes fit: "\<forall>p \<in> set (pairs s1 s2). fits p"
  shows "\<exists>b ps. Broadcaster s1 s2 = Inr b \<and> br_output_shape b = rev (map joint (pairs s1 s2))
    \<and> (ps = pairs s1 s2 \<or> pairs s1 s2 = [] \<and> ps = [(1, 1)])
    \<and> building (dims1 ps) (br_iterator1 b) \<and> building (dims2 ps) (br_iterator2 b)
    \<and> bi_counters (br_iterator1 b) = replicate (length (bi_counts (br_iterator1 b))) 0
    \<and> bi_counters (br_iterator2 b) = replicate (length (bi_counts (br_iterator2 b))) 0"
proof (cases "s1 = [] \<and> s2 = []")
  case True
  obtain it1 it2 out where st: "both Init 1 1 1 (BroadcastIterator, BroadcastIterator, []) = Inr (it1, it2, out)"
    "done_dims [(1, 1)] (it1, it2, out)"
    using both_Init [of "[]" 1 1] by (auto simp: joint_def fits_def)
  let ?b = "\<lparr>br_iterator1 = it1\<lparr>bi_counters := replicate (length (bi_counts it1)) 0\<rparr>,
         br_iterator2 = it2\<lparr>bi_counters := replicate (length (bi_counts it2)) 0\<rparr>, br_output_shape = []\<rparr>"
  have "Broadcaster s1 s2 = Inr ?b" using True st(1) by (simp add: Broadcaster_def start_dims_def)
  then show ?thesis using st(2) True
    by (intro exI [where x = ?b] exI [where x = "[(1, 1)]"]) (simp add: done_dims_def pairs_split)
next
  case False
  let ?longer2 = "max (length s1) (length s2) = length s2"
  obtain rest axes st pre where start: "start_dims s1 s2 = Inr (rest, axes, st)" and pre: "done_dims pre st"
    and split: "pairs s1 s2 = pre @ rest @ map (\<lambda>a. if ?longer2 then (1, a) else (a, 1)) axes"
    using start_dims_done [OF fit False] by blast
  have "\<forall>q \<in> set rest. fits q" using fit split by simp
  then obtain st1 where st1: "append_loop rest st = Inr st1" "done_dims (pre @ rest) st1"
    using append_loop_done [OF pre] by blast
  obtain st2 where st2: "rest_loop ?longer2 axes st1 = Inr st2" "done_dims (pairs s1 s2) st2"
    using rest_loop_done [OF st1(2), of ?longer2 axes] split by auto
  obtain it1 it2 out where o: "st2 = (it1, it2, out)" by (cases st2) auto
  let ?b = "\<lparr>br_iterator1 = it1\<lparr>bi_counters := replicate (length (bi_counts it1)) 0\<rparr>,
         br_iterator2 = it2\<lparr>bi_counters := replicate (length (bi_counts it2)) 0\<rparr>, br_output_shape = out\<rparr>"
  have "Broadcaster s1 s2 = Inr ?b"
    unfolding Broadcaster_def start by (simp only: bindE_simps prod.case st1(1) st2(1) o)
  then show ?thesis using st2(2) o by (intro exI [where x = ?b] exI [where x = "pairs s1 s2"]) (simp add: done_dims_def)
qed


section \<open>Reading operands\<close>

text \<open>The iterator of an operand with the dimensions \<open>D\<close> at position \<open>t\<close> of the output.\<close>

definition positioned :: "(nat \<times> nat) list \<Rightarrow> broadcast_iterator \<Rightarrow> nat \<Rightarrow> bool" where
  "positioned D it t \<longleftrightarrow> walked it t \<and> dims_fit D \<and> hd (bi_deltas it) \<in> {0, 1}
     \<and> (\<exists>m. hd (bi_counts it) = size_out (take m D))
     \<and> (\<forall>u < size_out D. walk_index (bi_deltas it) (bi_counts it) u = int (source_index D u))"

lemma walk_start: "walk_index ds ns 0 = 0" "walk_counters ns 0 = replicate (length ns) 0"
proof -
  have "walk_index ds ns t = 0" if "t = 0" for t
    using that by (induction ds ns t rule: walk_index.induct) auto
  then show "walk_index ds ns 0 = 0" by simp
  show "walk_counters ns 0 = replicate (length ns) 0" by (induction ns) auto
qed

lemma positioned_start:
  assumes "building D it" "dims_fit D" "bi_counters it = replicate (length (bi_counts it)) 0"
  shows "positioned D it 0"
proof -
  have b: "built D it" "bi_deltas it \<noteq> []" "bi_index it = 0" using assms by (simp_all add: building_def)
  have "walk_index (bi_deltas it) (bi_counts it) u = int (source_index D u)" if "u < size_out D" for u
    using b(1) that by (simp add: built_def)
  then show ?thesis using b assms(2,3) by (auto simp: positioned_def walked_def built_def walk_start)
qed

lemma positioned_advance:
  assumes "positioned D it t"
  shows "\<exists>it'. AdvanceBy it k = Inr it' \<and> positioned D it' (t + k) \<and> bi_deltas it' = bi_deltas it \<and> bi_counts it' = bi_counts it"
  using AdvanceBy_walked [of it t k] assms by (auto simp: positioned_def)

text \<open>A span starts at \<open>p\<close> and has \<open>S\<close> positions; \<open>S\<close> divides the first count.\<close>

lemma source_in_span:
  assumes pos: "positioned D it p" and S: "S dvd hd (bi_counts it)" "S dvd p" "p + S \<le> size_out D" and r: "r < S"
  shows "int (source_index D (p + r)) = Current it + hd (bi_deltas it) * int r"
proof -
  have w: "bi_deltas it \<noteq> []" "bi_counts it \<noteq> []" "Current it = walk_index (bi_deltas it) (bi_counts it) p"
    using pos by (auto simp: positioned_def walked_def Current_def)
  have "int (source_index D (p + r)) = walk_index (bi_deltas it) (bi_counts it) (p + r)"
    using pos S(3) r by (simp add: positioned_def)
  with w show ?thesis using walk_index_span [OF w(1,2) S(1,2) r] by simp
qed

lemma read_contiguous:
  assumes pos: "positioned D it p" and S: "S dvd hd (bi_counts it)" "S dvd p" "p + S \<le> size_out D"
    and one: "hd (bi_deltas it) \<noteq> 0" and n: "0 < n" "o' + n \<le> S" and len: "length data = size_in D"
  shows "read_span data (Current it + int o') n = Inr (map (\<lambda>t. data ! source_index D t) [p + o'..<p + o' + n])"
proof -
  have d1: "hd (bi_deltas it) = 1" using pos one by (auto simp: positioned_def)
  have src: "int (source_index D (p + r)) = Current it + int r" if "r < S" for r
    using source_in_span [OF pos S that] by (simp add: d1)
  define i where "i = source_index D p"
  have cur: "Current it = int i" using src [of 0] n by (simp add: i_def)
  have srcn: "source_index D (p + r) = i + r" if "r < S" for r using src [OF that] cur by simp
  have "source_index D (p + (o' + n - 1)) < size_in D"
    using pos source_index_less by (simp add: positioned_def)
  moreover have "source_index D (p + (o' + n - 1)) = i + (o' + n - 1)" by (rule srcn) (use n in simp)
  ultimately have room: "i + o' + n \<le> length data" using n len by simp
  moreover have "take n (drop (i + o') data) = map (\<lambda>t. data ! source_index D t) [p + o'..<p + o' + n]"
    using room srcn n by (intro nth_equalityI) (simp_all add: add.assoc)
  ultimately show ?thesis unfolding read_span_def cur by (simp add: nat_int_add)
qed

lemma read_repeated:
  assumes pos: "positioned D it p" and S: "S dvd hd (bi_counts it)" "S dvd p" "p + S \<le> size_out D" "0 < S"
    and zero: "hd (bi_deltas it) = 0" and len: "length data = size_in D"
  shows "read_scalar data (Current it) = Inr (data ! source_index D p)"
    and "r < S \<Longrightarrow> source_index D (p + r) = source_index D p"
proof -
  have src: "int (source_index D (p + r)) = Current it" if "r < S" for r
    using source_in_span [OF pos S(1-3) that] by (simp add: zero)
  have cur: "Current it = int (source_index D p)" using src [OF S(4)] by simp
  show "r < S \<Longrightarrow> source_index D (p + r) = source_index D p" using src cur by simp
  have "source_index D p < length data" using pos len source_index_less by (simp add: positioned_def)
  then show "read_scalar data (Current it) = Inr (data ! source_index D p)"
    unfolding read_scalar_def cur by simp
qed

text \<open>The span divides the first count of both iterators, and the output.\<close>

lemma take_prefix_dvd: "m \<le> k \<Longrightarrow> prod_list (take m xs) dvd (prod_list (take k xs) :: nat)"
proof -
  assume "m \<le> k"
  then have "take k xs = take m xs @ take (k - m) (drop m xs)" by (metis le_add_diff_inverse take_add)
  then show ?thesis by simp
qed

lemma size_out_take: "size_out (take m D) = prod_list (take m (map snd D))"
  by (simp add: size_out_def take_map)

lemma span_divides:
  assumes "positioned D1 it1 t" "positioned D2 it2 u" "map snd D1 = map snd D2"
  defines "S \<equiv> min (hd (bi_counts it1)) (hd (bi_counts it2))"
  shows "S dvd hd (bi_counts it1)" "S dvd hd (bi_counts it2)" "S dvd size_out D1" "0 < S"
proof -
  from assms(1,2) obtain m k where m: "hd (bi_counts it1) = size_out (take m D1)" "hd (bi_counts it2) = size_out (take k D2)"
    by (auto simp: positioned_def)
  have pos: "0 < hd (bi_counts it1)" "0 < hd (bi_counts it2)"
    using assms(1,2) by (auto simp: positioned_def walked_def) (metis gr0I hd_in_set length_0_conv)+
  have eq: "size_out (take k D2) = prod_list (take k (map snd D1))" "size_out (take m D1) = prod_list (take m (map snd D1))"
    using size_out_take by (simp_all only: assms(3))
  have dvd: "hd (bi_counts it1) dvd hd (bi_counts it2) \<or> hd (bi_counts it2) dvd hd (bi_counts it1)"
    unfolding m eq using take_prefix_dvd by (metis nat_le_linear)
  then show S1: "S dvd hd (bi_counts it1)" and "S dvd hd (bi_counts it2)"
    using pos dvd_imp_le [of "hd (bi_counts it1)" "hd (bi_counts it2)"] dvd_imp_le [of "hd (bi_counts it2)" "hd (bi_counts it1)"]
    unfolding S_def min_def by (auto split: if_splits)
  have "hd (bi_counts it1) dvd size_out D1"
    unfolding m eq using take_prefix_dvd [of m "max m (length D1)" "map snd D1"] by (simp add: size_out_def)
  then show "S dvd size_out D1" using S1 dvd_trans by blast
  show "0 < S" using pos by (simp add: S_def)
qed

text \<open>Both operands repeat in a span only when the output has one element.\<close>

lemma both_repeat:
  "\<forall>p \<in> set ps. fits p \<and> 0 < joint p \<Longrightarrow> source_index (dims1 ps) 1 = 0 \<Longrightarrow> source_index (dims2 ps) 1 = 0 \<Longrightarrow>
   size_out (dims1 ps) = 1"
proof (induction ps)
  case (Cons p ps)
  obtain a b where p: "p = (a, b)" by (cases p)
  have "joint p = 1"
  proof (rule ccontr)
    assume "joint p \<noteq> 1"
    moreover have "0 < joint p" using Cons.prems(1) by simp
    ultimately have j: "1 < joint p" by linarith
    show False
    proof (cases "a = 1")
      case True
      then have "joint p = b" using p by (simp add: joint_def)
      then show False using j Cons.prems(3) p by simp
    next
      case False
      then have "joint p = a" using p by (simp add: joint_def)
      then show False using j Cons.prems(2) p by simp
    qed
  qed
  then have "a = 1" "b = 1" using Cons.prems(1) p by (auto simp: joint_def fits_def split: if_splits)
  then show ?case using Cons \<open>joint p = 1\<close> p by simp
qed simp


section \<open>One span, one part of it\<close>

definition elementwise :: "('a, 'b, 'c) process_funcs \<Rightarrow> ('a \<Rightarrow> 'b \<Rightarrow> 'c) \<Rightarrow> bool" where
  "elementwise F f \<longleftrightarrow> (\<forall>x ys. input0scalar F x ys = map (f x) ys) \<and> (\<forall>xs y. input1scalar F xs y = map (\<lambda>x. f x y) xs)
     \<and> (\<forall>xs ys. length xs = length ys \<longrightarrow> general F xs ys = map2 f xs ys)"

text \<open>What an element of the output should be.\<close>

definition bcast :: "('a \<Rightarrow> 'b \<Rightarrow> 'c) \<Rightarrow> (nat \<times> nat) list \<Rightarrow> 'a list \<Rightarrow> 'b list \<Rightarrow> nat \<Rightarrow> 'c" where
  "bcast f ps xs ys t = f (xs ! source_index (dims1 ps) t) (ys ! source_index (dims2 ps) t)"

text \<open>The helper reads both operands at position \<open>p\<close> and writes into a buffer for the whole output.\<close>

definition inputs_at :: "(nat \<times> nat) list \<Rightarrow> 'a list \<Rightarrow> 'b list \<Rightarrow> ('a, 'b) input_broadcaster \<Rightarrow> nat \<Rightarrow> bool" where
  "inputs_at ps xs ys ib p \<longleftrightarrow>
     ib_data0 ib = xs \<and> ib_data1 ib = Some ys \<and> length xs = size_in (dims1 ps) \<and> length ys = size_in (dims2 ps)
     \<and> positioned (dims1 ps) (br_iterator1 (ib_broadcaster ib)) p
     \<and> positioned (dims2 ps) (br_iterator2 (ib_broadcaster ib)) p
     \<and> ib_span_size ib = GetSpanSize (ib_broadcaster ib) \<and> (\<forall>p \<in> set ps. fits p \<and> 0 < joint p)"

lemma dims_snd: "map snd (dims1 ps) = map snd (dims2 ps)"
  by (simp add: dims1_def dims2_def)

lemma size_out_dims: "size_out (dims2 ps) = size_out (dims1 ps)"
  by (simp only: size_out_def dims_snd)

lemma inputs_span:
  assumes "inputs_at ps xs ys ib p"
  shows "ib_span_size ib dvd hd (bi_counts (br_iterator1 (ib_broadcaster ib)))"
    "ib_span_size ib dvd hd (bi_counts (br_iterator2 (ib_broadcaster ib)))"
    "ib_span_size ib dvd size_out (dims1 ps)" "0 < ib_span_size ib"
  using assms span_divides [of "dims1 ps" "br_iterator1 (ib_broadcaster ib)" p "dims2 ps" "br_iterator2 (ib_broadcaster ib)" p]
  by (simp_all add: inputs_at_def GetSpanSize_def dims_snd)

lemma both_scalar:
  assumes "inputs_at ps xs ys ib p" "IsInput0Scalar ib" "IsInput1Scalar ib" and p: "ib_span_size ib dvd p"
    "p + ib_span_size ib \<le> size_out (dims1 ps)"
  shows "ib_span_size ib = 1"
proof (rule ccontr)
  let ?S = "ib_span_size ib"
  let ?it1 = "br_iterator1 (ib_broadcaster ib)" and ?it2 = "br_iterator2 (ib_broadcaster ib)"
  assume "?S \<noteq> 1"
  then have S: "1 < ?S" using inputs_span(4) [OF assms(1)] by linarith
  have pos: "positioned (dims1 ps) ?it1 p" "positioned (dims2 ps) ?it2 p" using assms(1) by (simp_all add: inputs_at_def)
  have d: "hd (bi_deltas ?it1) = 0" "hd (bi_deltas ?it2) = 0"
    using assms(2,3) by (simp_all add: IsInput0Scalar_def IsInput1Scalar_def)
  have N: "1 < size_out (dims1 ps)" "1 < size_out (dims2 ps)" using S p(2) size_out_dims [of ps] by simp_all
  have w: "bi_deltas ?it1 \<noteq> []" "bi_counts ?it1 \<noteq> []" "bi_deltas ?it2 \<noteq> []" "bi_counts ?it2 \<noteq> []"
    using pos by (auto simp: positioned_def walked_def)
  have "walk_index (bi_deltas ?it1) (bi_counts ?it1) (0 + 1) = 0"
    using walk_index_span [OF w(1,2) inputs_span(1) [OF assms(1)] _ S, of 0] d by (simp add: walk_start)
  moreover have "walk_index (bi_deltas ?it2) (bi_counts ?it2) (0 + 1) = 0"
    using walk_index_span [OF w(3,4) inputs_span(2) [OF assms(1)] _ S, of 0] d by (simp add: walk_start)
  ultimately have "source_index (dims1 ps) 1 = 0" "source_index (dims2 ps) 1 = 0"
    using pos N by (simp_all add: positioned_def)
  then have "size_out (dims1 ps) = 1" using both_repeat assms(1) by (simp add: inputs_at_def)
  with N show False by simp
qed

text \<open>The part of the span at \<open>p\<close> from offset \<open>q\<close> on, of \<open>n\<close> elements, which a helper is for.\<close>

definition helper_for :: "nat \<Rightarrow> nat \<Rightarrow> ('a, 'b, 'c) broadcast_helper \<Rightarrow> bool" where
  "helper_for q n h \<longleftrightarrow>
     (\<not> IsInput0Scalar (bh_input h) \<longrightarrow> bh_input0_offset h = q \<and> bh_input0_num h = n) \<and>
     (\<not> IsInput1Scalar (bh_input h) \<longrightarrow> bh_input1_offset h = q \<and> bh_input1_num h = n) \<and>
     (IsInput0Scalar (bh_input h) \<and> IsInput1Scalar (bh_input h) \<longrightarrow> bh_input1_offset h = 0 \<and> bh_input1_num h = 1) \<and>
     bh_output_offset h = q \<and> bh_output_num h = n"

lemma process_part:
  assumes F: "elementwise F f" and i: "inputs_at ps xs ys (bh_input h) p"
    and p: "ib_span_size (bh_input h) dvd p" "p + ib_span_size (bh_input h) \<le> size_out (dims1 ps)"
    and h: "helper_for q n h" and n: "0 < n" "q + n \<le> ib_span_size (bh_input h)"
    and o: "ob_pos (bh_output h) = p" "length (ob_data (bh_output h)) = size_out (dims1 ps)"
  shows "process F h = Inr (h\<lparr>bh_output := bh_output h\<lparr>ob_data := take (p + q) (ob_data (bh_output h)) @
    map (bcast f ps xs ys) [p + q..<p + q + n] @ drop (p + q + n) (ob_data (bh_output h))\<rparr>\<rparr>)"
proof -
  let ?S = "ib_span_size (bh_input h)" and ?b = "ib_broadcaster (bh_input h)"
  have i': "ib_data0 (bh_input h) = xs" "ib_data1 (bh_input h) = Some ys" "length xs = size_in (dims1 ps)"
    "length ys = size_in (dims2 ps)" "positioned (dims1 ps) (br_iterator1 ?b) p" "positioned (dims2 ps) (br_iterator2 ?b) p"
    using i by (simp_all add: inputs_at_def)
  have p2: "p + ?S \<le> size_out (dims2 ps)" using p(2) size_out_dims [of ps] by simp
  note S = inputs_span [OF i]
  note read0 = read_contiguous [OF i'(5) S(1) p _ n i'(3)] and rep0 = read_repeated [OF i'(5) S(1) p S(4) _ i'(3)]
  note read1 = read_contiguous [OF i'(6) S(2) p(1) p2 _ n i'(4)] and rep1 = read_repeated [OF i'(6) S(2) p(1) p2 S(4) _ i'(4)]
  have wr: "write_output h (map (bcast f ps xs ys) [p + q..<p + q + n]) =
    Inr (h\<lparr>bh_output := bh_output h\<lparr>ob_data := take (p + q) (ob_data (bh_output h)) @
      map (bcast f ps xs ys) [p + q..<p + q + n] @ drop (p + q + n) (ob_data (bh_output h))\<rparr>\<rparr>)"
    using h n o p(2) by (simp add: write_output_def helper_for_def Let_def)
  have same: "t = p + (t - p) \<and> t - p < ?S" if "t \<in> set [p + q..<p + q + n]" for t using that n by auto
  show ?thesis
  proof (cases "IsInput0Scalar (bh_input h)")
    case True
    have c0: "source_index (dims1 ps) t = source_index (dims1 ps) p" if "t \<in> set [p + q..<p + q + n]" for t
      using rep0(2) [of "t - p"] same [OF that] True by (simp add: IsInput0Scalar_def)
    have "SpanInput1 h = Inr (map (\<lambda>t. ys ! source_index (dims2 ps) t) [p + q..<p + q + n])"
    proof (cases "IsInput1Scalar (bh_input h)")
      case one: True
      have "?S = 1" by (rule both_scalar [OF i True one p])
      then have q: "q = 0" "n = 1" using n by auto
      have "read_scalar ys (Current (br_iterator2 ?b)) = Inr (ys ! source_index (dims2 ps) p)"
        using rep1(1) one by (simp add: IsInput1Scalar_def)
      then have "read_span ys (Current (br_iterator2 ?b)) 1 = Inr [ys ! source_index (dims2 ps) p]"
        by (auto simp: read_scalar_def read_span_def vget_def take_Suc_conv_app_nth hd_drop_conv_nth
            take_Suc split: if_splits)
      then show ?thesis using h True one q i'(2) by (simp add: SpanInput1_def Span1_def helper_for_def)
    next
      case False
      then show ?thesis using h read1 i'(2) by (simp add: SpanInput1_def Span1_def helper_for_def IsInput1Scalar_def)
    qed
    moreover have "Scalar0 (bh_input h) = Inr (xs ! source_index (dims1 ps) p)"
      using rep0(1) True i'(1) by (simp add: Scalar0_def IsInput0Scalar_def)
    moreover have "input0scalar F (xs ! source_index (dims1 ps) p) (map (\<lambda>t. ys ! source_index (dims2 ps) t) [p + q..<p + q + n])
        = map (bcast f ps xs ys) [p + q..<p + q + n]"
      using F c0 by (simp add: elementwise_def bcast_def)
    ultimately show ?thesis using True wr by (simp add: process_def)
  next
    case not0: False
    have x: "SpanInput0 h = Inr (map (\<lambda>t. xs ! source_index (dims1 ps) t) [p + q..<p + q + n])"
      using h read0 i'(1) not0 by (simp add: SpanInput0_def Span0_def helper_for_def IsInput0Scalar_def)
    show ?thesis
    proof (cases "IsInput1Scalar (bh_input h)")
      case True
      have c1: "source_index (dims2 ps) t = source_index (dims2 ps) p" if "t \<in> set [p + q..<p + q + n]" for t
        using rep1(2) [of "t - p"] same [OF that] True by (simp add: IsInput1Scalar_def)
      have "Scalar1 (bh_input h) = Inr (ys ! source_index (dims2 ps) p)"
        using rep1(1) True i'(2) by (simp add: Scalar1_def IsInput1Scalar_def)
      moreover have "input1scalar F (map (\<lambda>t. xs ! source_index (dims1 ps) t) [p + q..<p + q + n]) (ys ! source_index (dims2 ps) p)
          = map (bcast f ps xs ys) [p + q..<p + q + n]"
        using F c1 by (simp add: elementwise_def bcast_def)
      ultimately show ?thesis using True not0 x wr by (simp add: process_def)
    next
      case False
      have "SpanInput1 h = Inr (map (\<lambda>t. ys ! source_index (dims2 ps) t) [p + q..<p + q + n])"
        using False h read1 i'(2) by (simp add: SpanInput1_def Span1_def helper_for_def IsInput1Scalar_def)
      moreover have "general F (map (\<lambda>t. xs ! source_index (dims1 ps) t) [p + q..<p + q + n])
          (map (\<lambda>t. ys ! source_index (dims2 ps) t) [p + q..<p + q + n]) = map (bcast f ps xs ys) [p + q..<p + q + n]"
        using F by (simp add: elementwise_def bcast_def map2_map_map)
      ultimately show ?thesis using False not0 x wr by (simp add: process_def)
    qed
  qed
qed


section \<open>The loop over spans\<close>

lemma BroadcastHelper_parts [simp]: "bh_input (BroadcastHelper ib ob) = ib" "bh_output (BroadcastHelper ib ob) = ob"
  by (simp_all add: BroadcastHelper_def Let_def)

lemma AdvanceBy_inputs:
  assumes i: "inputs_at ps xs ys ib p" and d: "ib_span_size ib dvd k"
  shows "\<exists>ib'. ib_AdvanceBy ib k = Inr ib' \<and> inputs_at ps xs ys ib' (p + k) \<and> ib_span_size ib' = ib_span_size ib"
proof -
  let ?b = "ib_broadcaster ib"
  obtain it1 where 1: "AdvanceBy (br_iterator1 ?b) k = Inr it1" "positioned (dims1 ps) it1 (p + k)"
    "bi_counts it1 = bi_counts (br_iterator1 ?b)"
    using positioned_advance i by (fastforce simp: inputs_at_def)
  obtain it2 where 2: "AdvanceBy (br_iterator2 ?b) k = Inr it2" "positioned (dims2 ps) it2 (p + k)"
    "bi_counts it2 = bi_counts (br_iterator2 ?b)"
    using positioned_advance i by (fastforce simp: inputs_at_def)
  show ?thesis using 1 2 i d inputs_span(4) [OF i]
    by (simp add: ib_AdvanceBy_def inputs_at_def GetSpanSize_def Let_def)
qed

text \<open>The helper for whole spans, at position \<open>p\<close> of a loop from \<open>s\<close> to \<open>e\<close>.\<close>

definition loop_at :: "('a \<Rightarrow> 'b \<Rightarrow> 'c) \<Rightarrow> (nat \<times> nat) list \<Rightarrow> 'a list \<Rightarrow> 'b list \<Rightarrow> 'c list \<Rightarrow> nat \<Rightarrow> nat \<Rightarrow>
    ('a, 'b, 'c) broadcast_helper \<Rightarrow> nat \<Rightarrow> bool" where
  "loop_at f ps xs ys data s e h p \<longleftrightarrow>
     (let S = ib_span_size (bh_input h) in
      inputs_at ps xs ys (bh_input h) p \<and> ob_pos (bh_output h) = p \<and> ob_end (bh_output h) = e
      \<and> ob_span_size (bh_output h) = S \<and> length data = size_out (dims1 ps)
      \<and> ob_data (bh_output h) = take s data @ map (bcast f ps xs ys) [s..<p] @ drop p data
      \<and> bh_input0_offset h = 0 \<and> bh_input0_num h = S \<and> bh_input1_offset h = 0 \<and> bh_input1_num h = S
      \<and> bh_output_offset h = 0 \<and> bh_output_num h = S
      \<and> s \<le> p \<and> p \<le> e \<and> e \<le> size_out (dims1 ps) \<and> S dvd p \<and> S dvd e)"

lemma dvd_next: "(S :: nat) dvd p \<Longrightarrow> S dvd e \<Longrightarrow> p < e \<Longrightarrow> p + S \<le> e"
proof -
  assume "S dvd p" "S dvd e" "p < e"
  then have "S dvd e - p" "0 < e - p" by simp_all
  then show "p + S \<le> e" using dvd_imp_le [of S "e - p"] by simp
qed

lemma span_step:
  assumes F: "elementwise F f" and l: "loop_at f ps xs ys data s e h p" and p: "p < e"
  shows "\<exists>h'. bindE (process F h) helper_Next = Inr h' \<and> loop_at f ps xs ys data s e h' (p + ib_span_size (bh_input h))
    \<and> ib_span_size (bh_input h') = ib_span_size (bh_input h)"
proof -
  let ?S = "ib_span_size (bh_input h)" and ?g = "bcast f ps xs ys"
  have i: "inputs_at ps xs ys (bh_input h) p" and le: "s \<le> p" "e \<le> size_out (dims1 ps)" "?S dvd p" "?S dvd e"
    and o: "ob_pos (bh_output h) = p" "ob_data (bh_output h) = take s data @ map ?g [s..<p] @ drop p data"
    and len: "length data = size_out (dims1 ps)"
    using l by (simp_all add: loop_at_def Let_def)
  have S: "0 < ?S" by (rule inputs_span(4) [OF i])
  have pS: "p + ?S \<le> e" by (rule dvd_next [OF le(3,4) p])
  then have pN: "p + ?S \<le> size_out (dims1 ps)" using le by simp
  have "helper_for 0 ?S h" using l both_scalar [OF i _ _ le(3) pN] by (auto simp: loop_at_def helper_for_def Let_def)
  moreover have "length (ob_data (bh_output h)) = size_out (dims1 ps)" using o len le pN by simp
  ultimately have run: "process F h = Inr (h\<lparr>bh_output := bh_output h\<lparr>ob_data := take p (ob_data (bh_output h)) @
      map ?g [p..<p + ?S] @ drop (p + ?S) (ob_data (bh_output h))\<rparr>\<rparr>)"
    using process_part [OF F i le(3) pN _ S] o by simp
  have data: "take p (ob_data (bh_output h)) @ map ?g [p..<p + ?S] @ drop (p + ?S) (ob_data (bh_output h)) =
      take s data @ map ?g [s..<p + ?S] @ drop (p + ?S) data"
  proof -
    have "[s..<p + ?S] = [s..<p] @ [p..<p + ?S]" by (rule upt_add_eq_append [OF le(1)])
    moreover have "take p (ob_data (bh_output h)) = take s data @ map ?g [s..<p]" using o len le pN by simp
    moreover have "drop (p + ?S) (ob_data (bh_output h)) = drop (p + ?S) data"
      using o len le pN by (simp add: add.commute)
    ultimately show ?thesis by simp
  qed
  obtain ib' where ib': "ib_AdvanceBy (bh_input h) ?S = Inr ib'" "inputs_at ps xs ys ib' (p + ?S)" "ib_span_size ib' = ?S"
    using AdvanceBy_inputs [OF i, of ?S] by auto
  show ?thesis using run data ib' l pS le by (simp add: helper_Next_def ib_Next_def ob_Next_def loop_at_def Let_def)
qed

lemma span_loop_fills:
  assumes F: "elementwise F f"
  shows "loop_at f ps xs ys data s e h p \<Longrightarrow> e - p \<le> fuel \<Longrightarrow>
    \<exists>h'. span_loop fuel F h = Some (Inr h') \<and>
      ob_data (bh_output h') = take s data @ map (bcast f ps xs ys) [s..<e] @ drop e data"
proof (induction fuel arbitrary: h p)
  case 0
  then have "p = e" by (simp add: loop_at_def Let_def)
  with 0 show ?case by (simp add: loop_at_def Let_def NeedMoreOutput_def)
next
  case (Suc fuel)
  show ?case
  proof (cases "p = e")
    case True
    with Suc.prems show ?thesis by (simp add: loop_at_def Let_def NeedMoreOutput_def)
  next
    case False
    then have "p < e" using Suc.prems by (simp add: loop_at_def Let_def)
    then obtain h' where h': "bindE (process F h) helper_Next = Inr h'"
      "loop_at f ps xs ys data s e h' (p + ib_span_size (bh_input h))"
      using span_step [OF F Suc.prems(1)] by blast
    have "0 < ib_span_size (bh_input h)" using Suc.prems(1) inputs_span(4) by (auto simp: loop_at_def Let_def)
    then have "e - (p + ib_span_size (bh_input h)) \<le> fuel" using Suc.prems(2) by simp
    from Suc.IH [OF h'(2) this] show ?thesis
      using h'(1) False Suc.prems(1) by (simp add: NeedMoreOutput_def loop_at_def Let_def)
  qed
qed

section \<open>Segments of one span\<close>

lemma segments_fill:
  assumes F: "elementwise F f" and seg: "\<forall>(a, b) \<in> set segments. a < b \<and> b \<le> size_out (dims1 ps)"
  shows "inputs_at ps xs ys (bh_input h) 0 \<Longrightarrow> ib_span_size (bh_input h) = size_out (dims1 ps) \<Longrightarrow>
    ob_pos (bh_output h) = 0 \<Longrightarrow> length (ob_data (bh_output h)) = size_out (dims1 ps) \<Longrightarrow>
    \<exists>h'. ParallelizeSingleSpan segments F h = Inr h' \<and> length (ob_data (bh_output h')) = size_out (dims1 ps) \<and>
      (\<forall>t < size_out (dims1 ps). ob_data (bh_output h') ! t =
        (if \<exists>(a, b) \<in> set segments. a \<le> t \<and> t < b then bcast f ps xs ys t else ob_data (bh_output h) ! t))"
  using seg
proof (induction segments arbitrary: h)
  case (Cons ab segments)
  obtain a b where ab: "ab = (a, b)" by (cases ab)
  let ?N = "size_out (dims1 ps)" and ?g = "bcast f ps xs ys" and ?data = "ob_data (bh_output h)"
  let ?sh = "BroadcastHelper_segment h a (b - a)"
  have n: "a < b" "b \<le> ?N" using Cons.prems(5) ab by auto
  have sh: "bh_input ?sh = bh_input h" "bh_output ?sh = bh_output h"
    by (simp_all add: BroadcastHelper_segment_def Let_def)
  have "helper_for a (b - a) ?sh" by (simp add: helper_for_def BroadcastHelper_segment_def Let_def)
  then have run: "process F ?sh = Inr (?sh\<lparr>bh_output := bh_output h\<lparr>ob_data := take a ?data @ map ?g [a..<b] @ drop b ?data\<rparr>\<rparr>)"
    using process_part [OF F, of ps xs ys ?sh 0 a "b - a"] Cons.prems n sh by simp
  let ?h1 = "h\<lparr>bh_output := bh_output h\<lparr>ob_data := take a ?data @ map ?g [a..<b] @ drop b ?data\<rparr>\<rparr>"
  have len: "length (take a ?data @ map ?g [a..<b] @ drop b ?data) = ?N" using Cons.prems(4) n by simp
  have nth: "(take a ?data @ map ?g [a..<b] @ drop b ?data) ! t = (if a \<le> t \<and> t < b then ?g t else ?data ! t)"
    if "t < ?N" for t using that n Cons.prems(4) by (auto simp: nth_append)
  have "\<exists>h'. ParallelizeSingleSpan segments F ?h1 = Inr h' \<and> length (ob_data (bh_output h')) = ?N \<and>
      (\<forall>t < ?N. ob_data (bh_output h') ! t =
        (if \<exists>(a, b) \<in> set segments. a \<le> t \<and> t < b then ?g t else ob_data (bh_output ?h1) ! t))"
    by (rule Cons.IH) (use Cons.prems len in simp_all)
  then obtain h' where h': "ParallelizeSingleSpan segments F ?h1 = Inr h'" "length (ob_data (bh_output h')) = ?N"
      "\<forall>t < ?N. ob_data (bh_output h') ! t =
        (if \<exists>(a, b) \<in> set segments. a \<le> t \<and> t < b then ?g t else ob_data (bh_output ?h1) ! t)" by blast
  have "ParallelizeSingleSpan (ab # segments) F h = Inr h'"
    using h'(1) run sh by (simp add: ParallelizeSingleSpan_def ab)
  moreover have "ob_data (bh_output h') ! t =
      (if \<exists>(a, b) \<in> set (ab # segments). a \<le> t \<and> t < b then ?g t else ?data ! t)" if "t < ?N" for t
    using h'(3) [rule_format, OF that] nth [OF that] by (simp add: ab)
  ultimately show ?case using h'(2) by blast
qed (simp add: ParallelizeSingleSpan_def)


section \<open>The operands of a new broadcaster\<close>

lemma padded_fit:
  assumes "\<forall>p \<in> set (zip xs ys). fits p" "length xs = length ys"
  shows "zip xs (map joint (zip xs ys)) = map (\<lambda>p. (fst p, joint p)) (zip xs ys)"
    "zip ys (map joint (zip xs ys)) = map (\<lambda>p. (snd p, joint p)) (zip xs ys)"
    "broadcast_to xs (map joint (zip xs ys))" "broadcast_to ys (map joint (zip xs ys))"
proof -
  show "zip xs (map joint (zip xs ys)) = map (\<lambda>p. (fst p, joint p)) (zip xs ys)"
    "zip ys (map joint (zip xs ys)) = map (\<lambda>p. (snd p, joint p)) (zip xs ys)"
    by (rule nth_equalityI; simp add: assms(2))+
  have "fits (xs ! i, ys ! i)" if "i < length xs" for i
    using assms that by (auto simp: set_zip)
  then show "broadcast_to xs (map joint (zip xs ys))" "broadcast_to ys (map joint (zip xs ys))"
    using assms(2) by (auto simp: broadcast_to_def list_all2_conv_all_nth joint_def fits_def) metis
qed

text \<open>The index of the output position \<open>t\<close> in an operand of shape \<open>s\<close>.\<close>

definition operand_index :: "nat list \<Rightarrow> nat list \<Rightarrow> nat \<Rightarrow> nat" where
  "operand_index os s t = rm_index os (bstrides (padded (length os) s)) t"

lemma prod_padded: "prod_list (padded n s) = prod_list s"
  by (simp add: padded_def)

lemma operands:
  assumes os: "numpy_shape s1 s2 = Some os"
  defines "n \<equiv> max (length s1) (length s2)"
  shows "size_out (dims1 (pairs s1 s2)) = prod_list os" "size_in (dims1 (pairs s1 s2)) = prod_list s1"
    "size_in (dims2 (pairs s1 s2)) = prod_list s2"
    "t < prod_list os \<Longrightarrow> source_index (dims1 (pairs s1 s2)) t = operand_index os s1 t"
    "t < prod_list os \<Longrightarrow> source_index (dims2 (pairs s1 s2)) t = operand_index os s2 t"
    "0 \<notin> set os \<Longrightarrow> \<forall>p \<in> set (pairs s1 s2). fits p \<and> 0 < joint p"
proof -
  let ?p1 = "padded n s1" and ?p2 = "padded n s2"
  have fit: "\<forall>p \<in> set (zip ?p1 ?p2). fits p" and o: "os = map joint (zip ?p1 ?p2)"
    using os by (simp_all add: numpy_shape_def n_def Let_def split: if_splits)
  have len: "length ?p1 = length ?p2" by (simp add: padded_def n_def)
  have leno: "length os = n" by (simp add: o padded_def n_def)
  note f = padded_fit [OF fit len]
  have d1: "dims1 (pairs s1 s2) = rev (zip ?p1 os)" and d2: "dims2 (pairs s1 s2) = rev (zip ?p2 os)"
    unfolding o f by (simp_all add: pairs_def dims1_def dims2_def rev_map n_def)
  have l1: "length ?p1 = length os" "length ?p2 = length os" using len by (simp_all add: o)
  show "size_out (dims1 (pairs s1 s2)) = prod_list os" "size_in (dims1 (pairs s1 s2)) = prod_list s1"
    "size_in (dims2 (pairs s1 s2)) = prod_list s2"
    unfolding d1 d2 size_out_def size_in_def by (simp_all add: rev_map [symmetric] l1 prod_padded)
  show "t < prod_list os \<Longrightarrow> source_index (dims1 (pairs s1 s2)) t = operand_index os s1 t"
    using source_index_rm_index [of ?p1 os t] f(3) unfolding d1 operand_index_def leno by (simp add: o [symmetric])
  show "t < prod_list os \<Longrightarrow> source_index (dims2 (pairs s1 s2)) t = operand_index os s2 t"
    using source_index_rm_index [of ?p2 os t] f(4) unfolding d2 operand_index_def leno by (simp add: o [symmetric])
  show "0 \<notin> set os \<Longrightarrow> \<forall>p \<in> set (pairs s1 s2). fits p \<and> 0 < joint p"
    using fit by (auto simp: o pairs_def n_def)
qed

text \<open>A new broadcaster is at position 0 of both operands.\<close>

lemma InputBroadcaster_start:
  assumes os: "numpy_shape s1 s2 = Some os" "0 \<notin> set os"
    and len: "length xs = prod_list s1" "length ys = prod_list s2"
  shows "\<exists>ib ps. InputBroadcaster (xs, s1) (Some ys, s2) = Inr ib \<and> inputs_at ps xs ys ib 0
    \<and> size_out (dims1 ps) = prod_list os
    \<and> (\<forall>t < prod_list os. bcast f ps xs ys t = f (xs ! operand_index os s1 t) (ys ! operand_index os s2 t))"
proof -
  let ?P = "pairs s1 s2"
  have fit: "\<forall>p \<in> set ?P. fits p \<and> 0 < joint p" by (rule operands(6) [OF os])
  obtain b ps where b: "Broadcaster s1 s2 = Inr b" "ps = ?P \<or> ?P = [] \<and> ps = [(1, 1)]"
    "building (dims1 ps) (br_iterator1 b)" "building (dims2 ps) (br_iterator2 b)"
    "bi_counters (br_iterator1 b) = replicate (length (bi_counts (br_iterator1 b))) 0"
    "bi_counters (br_iterator2 b) = replicate (length (bi_counts (br_iterator2 b))) 0"
    using Broadcaster_done [of s1 s2] fit by auto
  have same: "size_out (dims1 ps) = size_out (dims1 ?P)" "size_in (dims1 ps) = size_in (dims1 ?P)"
    "size_in (dims2 ps) = size_in (dims2 ?P)" "source_index (dims1 ps) t = source_index (dims1 ?P) t"
    "source_index (dims2 ps) t = source_index (dims2 ?P) t" "\<forall>p \<in> set ps. fits p \<and> 0 < joint p" for t
    using b(2) fit by (auto simp: joint_def fits_def)
  have fits12: "dims_fit (dims1 ps)" "dims_fit (dims2 ps)"
    using same(6) by (auto simp: dims_fit_def dims1_def dims2_def fits_def joint_def)
  let ?ib = "\<lparr>ib_data0 = xs, ib_data1 = Some ys, ib_broadcaster = b, ib_span_size = GetSpanSize b\<rparr>"
  have "inputs_at ps xs ys ?ib 0"
    using positioned_start [OF b(3) fits12(1) b(5)] positioned_start [OF b(4) fits12(2) b(6)] same len
      operands(2,3) [OF os(1)]
    by (simp add: inputs_at_def)
  moreover have "InputBroadcaster (xs, s1) (Some ys, s2) = Inr ?ib" using b(1) by (simp add: InputBroadcaster_def)
  ultimately show ?thesis using same operands(1,4,5) [OF os(1)]
    by (intro exI [where x = ?ib] exI [where x = ps]) (simp add: bcast_def)
qed

section \<open>Properties\<close>

text \<open>
  C34. The constructor accepts two shapes exactly when numpy broadcasts them, dimensions 0
  included, and computes the output shape numpy prescribes; all others it rejects.
\<close>
theorem broadcaster_shape:
  "case numpy_shape s1 s2 of
     None \<Rightarrow> \<exists>e. Broadcaster s1 s2 = Inl e
   | Some os \<Rightarrow> \<exists>b. Broadcaster s1 s2 = Inr b \<and> br_output_shape b = os"
proof (cases "\<forall>p \<in> set (pairs s1 s2). fits p")
  case True
  then show ?thesis using Broadcaster_done [OF True] by (auto simp: numpy_shape_pairs)
next
  case False
  then have "\<exists>e. Broadcaster s1 s2 = Inl e" using Broadcaster_fits by (cases "Broadcaster s1 s2") auto
  moreover have "numpy_shape s1 s2 = None" unfolding numpy_shape_pairs using False by (rule if_not_P)
  ultimately show ?thesis by simp
qed

lemma OutputBroadcaster_range:
  assumes "S dvd start" "S dvd stop" "0 < S" "start < stop" "stop \<le> length data"
  shows "OutputBroadcaster S data (int start) (int stop) =
    Inr \<lparr>ob_span_size = S, ob_elements = stop - start, ob_pos = start, ob_end = stop, ob_data = data\<rparr>"
proof -
  have "int start mod int S = 0" "int stop mod int S = 0" using assms by (simp_all add: mod_eq_0_iff_dvd)
  then show ?thesis using assms by (simp add: OutputBroadcaster_def nat_diff_distrib)
qed

lemma loop_fills_range:
  assumes F: "elementwise F f" and i: "inputs_at ps xs ys ib s" and len: "length data = size_out (dims1 ps)"
    and d: "ib_span_size ib dvd s" "ib_span_size ib dvd e" "s \<le> e" "e \<le> size_out (dims1 ps)"
    and fuel: "e - s \<le> fuel"
  shows "\<exists>h. span_loop fuel F (BroadcastHelper ib \<lparr>ob_span_size = ib_span_size ib, ob_elements = k,
      ob_pos = s, ob_end = e, ob_data = data\<rparr>) = Some (Inr h)
    \<and> ob_data (bh_output h) = take s data @ map (bcast f ps xs ys) [s..<e] @ drop e data"
proof (rule span_loop_fills [OF F _ fuel])
  show "loop_at f ps xs ys data s e (BroadcastHelper ib \<lparr>ob_span_size = ib_span_size ib, ob_elements = k,
      ob_pos = s, ob_end = e, ob_data = data\<rparr>) s"
    using i len d by (simp add: loop_at_def BroadcastHelper_def Let_def)
qed

text \<open>
  C2. For functions that compute \<open>f\<close> element by element, broadcasting two operands fills the
  output: element \<open>t\<close> is \<open>f\<close> of the elements that the strides of the operands give for
  position \<open>t\<close>, where a dimension 1 or a missing one repeats. No operand is read outside, the loop
  ends, and it makes no difference whether the one span is cut into segments, as long as
  these cover the output.
\<close>
theorem broadcast_correct:
  assumes F: "elementwise F f" and os: "numpy_shape s1 s2 = Some os" "0 \<notin> set os"
    and len: "length xs = prod_list s1" "length ys = prod_list s2" "length data = prod_list os"
    and seg: "\<forall>(a, b) \<in> set segments. a < b \<and> b \<le> prod_list os"
      "\<forall>t < prod_list os. \<exists>(a, b) \<in> set segments. a \<le> t \<and> t < b"
  shows "\<exists>ib ob h. InputBroadcaster (xs, s1) (Some ys, s2) = Inr ib
    \<and> OutputBroadcaster (ib_span_size ib) data 0 0 = Inr ob
    \<and> BroadcastLooper par_available segments (prod_list os) F (BroadcastHelper ib ob) = Some (Inr h)
    \<and> ob_data (bh_output h) =
        map (\<lambda>t. f (xs ! operand_index os s1 t) (ys ! operand_index os s2 t)) [0..<prod_list os]"
proof -
  let ?N = "prod_list os"
  let ?g = "\<lambda>t. f (xs ! operand_index os s1 t) (ys ! operand_index os s2 t)"
  obtain ib ps where ib: "InputBroadcaster (xs, s1) (Some ys, s2) = Inr ib" "inputs_at ps xs ys ib 0"
    "size_out (dims1 ps) = ?N" "\<forall>t < ?N. bcast f ps xs ys t = ?g t"
    using InputBroadcaster_start [OF os len(1,2), of f] by blast
  let ?ob = "\<lparr>ob_span_size = ib_span_size ib, ob_elements = ?N, ob_pos = 0, ob_end = ?N, ob_data = data\<rparr>"
  let ?h = "BroadcastHelper ib ?ob"
  have ob: "OutputBroadcaster (ib_span_size ib) data 0 0 = Inr ?ob"
    using len(3) by (simp add: OutputBroadcaster_def)
  have two: "ib_data1 ib \<noteq> None" using ib(2) by (simp add: inputs_at_def)
  have "\<exists>h. BroadcastLooper par_available segments ?N F ?h = Some (Inr h) \<and> ob_data (bh_output h) = map ?g [0..<?N]"
  proof (cases "par_available \<and> ib_span_size ib = ?N")
    case True
    obtain h where h: "ParallelizeSingleSpan segments F ?h = Inr h" "length (ob_data (bh_output h)) = ?N"
      "\<forall>t < ?N. ob_data (bh_output h) ! t =
         (if \<exists>(a, b) \<in> set segments. a \<le> t \<and> t < b then bcast f ps xs ys t else ob_data (bh_output ?h) ! t)"
      using segments_fill [OF F, of segments ps xs ys ?h] seg(1) ib(2,3) True len(3)
      by (auto simp: BroadcastHelper_def Let_def)
    have "ob_data (bh_output h) = map ?g [0..<?N]"
      using h(2,3) seg(2) ib(4) by (intro nth_equalityI) auto
    with h(1) True two show ?thesis
      by (simp add: BroadcastLooper_def BroadcastHelper_def Let_def)
  next
    case False
    obtain h where "span_loop ?N F ?h = Some (Inr h)"
      "ob_data (bh_output h) = take 0 data @ map (bcast f ps xs ys) [0..<?N] @ drop ?N data"
      using loop_fills_range [OF F ib(2), of data ?N ?N ?N] inputs_span(3) [OF ib(2)] ib(3) len(3) by auto
    moreover have "map (bcast f ps xs ys) [0..<?N] = map ?g [0..<?N]" using ib(4) by simp
    ultimately show ?thesis using False two len(3)
      by (auto simp: BroadcastLooper_def BroadcastHelper_def Let_def)
  qed
  then show ?thesis using ib(1) ob by blast
qed


definition lifted :: "('a \<Rightarrow> 'b \<Rightarrow> 'c) \<Rightarrow> ('a, 'b, 'c) process_funcs" where
  "lifted f = \<lparr>input0scalar = (\<lambda>x ys. map (f x) ys), input1scalar = (\<lambda>xs y. map (\<lambda>x. f x y) xs), general = map2 f\<rparr>"

lemma lifted_elementwise: "elementwise (lifted f) f"
  by (simp add: elementwise_def lifted_def)

lemma sample_shape: "numpy_shape [2, 1] [3] = Some [2, 3]"
  by (simp add: numpy_shape_def padded_def fits_def joint_def Let_def)

theorem broadcast_correct_witness:
  "\<exists>ib ob h. InputBroadcaster ([1, 2], [2, 1]) (Some [10, 20, 30], [3]) = Inr ib
    \<and> OutputBroadcaster (ib_span_size ib) (replicate 6 0) 0 0 = Inr ob
    \<and> BroadcastLooper False [(0, 6)] 6 (lifted (+)) (BroadcastHelper ib ob) = Some (Inr h)
    \<and> ob_data (bh_output h) = [11, 21, 31, 12, 22, 32 :: nat]"
proof -
  have six: "[0..<6] = [0, 1, 2, 3, 4, 5]" by code_simp
  have "map (\<lambda>t. [1, 2] ! operand_index [2, 3] [2, 1] t + [10, 20, 30] ! operand_index [2, 3] [3] t) [0..<6]
      = [11, 21, 31, 12, 22, 32 :: nat]"
    using six by (simp add: operand_index_def padded_def)
  then show ?thesis
    using broadcast_correct [OF lifted_elementwise [of "(+)"] sample_shape, of "[1, 2 :: nat]" "[10, 20, 30]" "replicate 6 0" "[(0, 6)]" False]
    by simp
qed

text \<open>
  The output can be computed in pieces that start and end at a span: with the inputs
  advanced to the start and an output broadcaster for the range, the loop fills exactly the range, with
  what it has in the whole, and leaves the rest of the output alone. Starting anywhere else
  is refused.
\<close>
theorem broadcast_range:
  assumes F: "elementwise F f" and os: "numpy_shape s1 s2 = Some os" "0 \<notin> set os"
    and len: "length xs = prod_list s1" "length ys = prod_list s2" "length data = prod_list os"
  shows "\<exists>ib. InputBroadcaster (xs, s1) (Some ys, s2) = Inr ib
    \<and> (\<forall>start stop. ib_span_size ib dvd start \<and> ib_span_size ib dvd stop \<and> start < stop \<and> stop \<le> prod_list os \<longrightarrow>
        (\<exists>ib' ob h. ib_AdvanceBy ib start = Inr ib'
          \<and> OutputBroadcaster (ib_span_size ib) data (int start) (int stop) = Inr ob
          \<and> BroadcastLooper False [] (stop - start) F (BroadcastHelper ib' ob) = Some (Inr h)
          \<and> ob_data (bh_output h) = take start data @
              map (\<lambda>t. f (xs ! operand_index os s1 t) (ys ! operand_index os s2 t)) [start..<stop] @ drop stop data))
    \<and> (\<forall>start. \<not> ib_span_size ib dvd start \<longrightarrow> ib_AdvanceBy ib start = Inl EnforceFailed)"
proof -
  let ?N = "prod_list os"
  let ?g = "\<lambda>t. f (xs ! operand_index os s1 t) (ys ! operand_index os s2 t)"
  obtain ib ps where ib: "InputBroadcaster (xs, s1) (Some ys, s2) = Inr ib" "inputs_at ps xs ys ib 0"
    "size_out (dims1 ps) = ?N" "\<forall>t < ?N. bcast f ps xs ys t = ?g t"
    using InputBroadcaster_start [OF os len(1,2), of f] by blast
  have S: "0 < ib_span_size ib" by (rule inputs_span(4) [OF ib(2)])
  have "\<exists>ib' ob h. ib_AdvanceBy ib start = Inr ib'
        \<and> OutputBroadcaster (ib_span_size ib) data (int start) (int stop) = Inr ob
        \<and> BroadcastLooper False [] (stop - start) F (BroadcastHelper ib' ob) = Some (Inr h)
        \<and> ob_data (bh_output h) = take start data @ map ?g [start..<stop] @ drop stop data"
    if d: "ib_span_size ib dvd start" "ib_span_size ib dvd stop" "start < stop" "stop \<le> ?N" for start stop
  proof -
    obtain ib' where ib': "ib_AdvanceBy ib start = Inr ib'" "inputs_at ps xs ys ib' start" "ib_span_size ib' = ib_span_size ib"
      using AdvanceBy_inputs [OF ib(2) d(1)] by auto
    obtain h where h: "span_loop (stop - start) F (BroadcastHelper ib' \<lparr>ob_span_size = ib_span_size ib,
        ob_elements = stop - start, ob_pos = start, ob_end = stop, ob_data = data\<rparr>) = Some (Inr h)"
      "ob_data (bh_output h) = take start data @ map (bcast f ps xs ys) [start..<stop] @ drop stop data"
      using loop_fills_range [OF F ib'(2), of data stop "stop - start" "stop - start"] d ib(3) ib'(3) len(3) by auto
    have "map (bcast f ps xs ys) [start..<stop] = map ?g [start..<stop]" using ib(4) d(4) by simp
    moreover have "ib_data1 ib' \<noteq> None" using ib'(2) by (simp add: inputs_at_def)
    then have "BroadcastLooper False [] (stop - start) F (BroadcastHelper ib' \<lparr>ob_span_size = ib_span_size ib,
        ob_elements = stop - start, ob_pos = start, ob_end = stop, ob_data = data\<rparr>) = Some (Inr h)"
      using h(1) by (simp add: BroadcastLooper_def)
    moreover have "OutputBroadcaster (ib_span_size ib) data (int start) (int stop) = Inr \<lparr>ob_span_size = ib_span_size ib,
        ob_elements = stop - start, ob_pos = start, ob_end = stop, ob_data = data\<rparr>"
      by (rule OutputBroadcaster_range [OF d(1,2) S d(3)]) (use d(4) len(3) in simp)
    ultimately show ?thesis using h(2) ib'(1) by metis
  qed
  moreover have "ib_AdvanceBy ib start = Inl EnforceFailed" if "\<not> ib_span_size ib dvd start" for start
    using S that by (simp add: ib_AdvanceBy_def enforce_def dvd_eq_mod_eq_0)
  ultimately show ?thesis using ib(1) by blast
qed

theorem broadcast_range_witness:
  "\<exists>ib. InputBroadcaster ([1, 2], [2, 1]) (Some [10, 20, 30], [3]) = Inr (ib :: (nat, nat) input_broadcaster)"
  using broadcast_range [OF lifted_elementwise [of "(+)"] sample_shape, of "[1, 2 :: nat]" "[10, 20, 30]" "replicate 6 0"]
  by auto

end
