(* ===== verification/Float32.thy ===== *)
theory Float32
  imports Prelude Complex_Main "HOL-Library.Log_Nat"
begin

text \<open>
  The single-precision arithmetic that the shape computations go through. A finite
  \<open>float\<close> is the rational number it denotes. \<open>round32\<close> rounds to 24 significant bits,
  ties to even, which is what IEEE-754 prescribes for the conversion of an integer, for
  the division and for the addition; the results here are integers below \<open>2^64\<close> and their
  quotients, so neither overflow nor a subnormal number occurs and the exponent is left
  unbounded. What the shape computations need of rounding is the locale \<open>rounding\<close>.
\<close>

section \<open>Rounding to the nearest integer, ties to even\<close>

definition rne :: "rat \<Rightarrow> int" where
  "rne x = (let f = \<lfloor>x\<rfloor>; d = x - of_int f in
     if d < 1 / 2 then f else if 1 / 2 < d then f + 1 else if even f then f else f + 1)"

lemma rne_bounds: "\<lfloor>x\<rfloor> \<le> rne x" "rne x \<le> \<lfloor>x\<rfloor> + 1"
  by (simp_all add: rne_def Let_def)

lemma rne_int [simp]: "rne (of_int n) = n"
  by (simp add: rne_def)

lemma rne_mono: "x \<le> y \<Longrightarrow> rne x \<le> rne y"
proof -
  assume le: "x \<le> y"
  then have fl: "\<lfloor>x\<rfloor> \<le> \<lfloor>y\<rfloor>" by (rule floor_mono)
  show ?thesis
  proof (cases "\<lfloor>x\<rfloor> = \<lfloor>y\<rfloor>")
    case True
    with le show ?thesis by (auto simp: rne_def Let_def)
  next
    case False
    with fl have "\<lfloor>x\<rfloor> + 1 \<le> \<lfloor>y\<rfloor>" by simp
    with rne_bounds(2) [of x] rne_bounds(1) [of y] show ?thesis by linarith
  qed
qed

lemma rne_le: "x \<le> of_int n \<Longrightarrow> rne x \<le> n"
  using rne_mono [of x "of_int n"] by simp

lemma rne_ge: "of_int n \<le> x \<Longrightarrow> n \<le> rne x"
  using rne_mono [of "of_int n" x] by simp

section \<open>The exponent of a positive rational\<close>

lemma powi_pos: "0 < (2::rat) powi a"
  by simp

lemma powi_add: "(2::rat) powi (a + b) = 2 powi a * 2 powi b"
  by (simp add: power_int_add)

lemma powi_le: "a \<le> b \<Longrightarrow> (2::rat) powi a \<le> 2 powi b"
  by (rule power_int_increasing) simp_all

lemma powi_less_imp: "(2::rat) powi a < 2 powi b \<Longrightarrow> a < b"
  using powi_le [of b a] by (meson not_le)

definition ilog2 :: "rat \<Rightarrow> int" where
  "ilog2 x = (let (p, q) = quotient_of x; e = bitlen p - bitlen q in
     if x < 2 powi e then e - 1 else e)"

lemma bitlen_powi:
  assumes "0 < p"
  shows "(2::rat) powi (bitlen p - 1) \<le> of_int p" "of_int p < (2::rat) powi bitlen p"
proof -
  obtain n where n: "bitlen p = int (Suc n)"
    using bitlen_nonneg [of p] assms by (metis Suc_pred bitlen_eq_zero_iff gr0_conv_Suc int_nat_eq nat_eq_iff not_le order_less_irrefl zero_less_nat_eq of_nat_0 nat_0_le linorder_not_less antisym_conv3)
  have b: "2 ^ nat (bitlen p - 1) \<le> p" "p < 2 ^ nat (bitlen p)"
    using bitlen_bounds [OF assms] by auto
  have "(2::rat) powi (bitlen p - 1) = of_int (2 ^ n)" using n by (simp add: power_int_def)
  moreover have "(2::rat) powi bitlen p = of_int (2 ^ Suc n)" using n by (simp add: power_int_def nat_add_distrib)
  ultimately show "(2::rat) powi (bitlen p - 1) \<le> of_int p" "of_int p < (2::rat) powi bitlen p"
    using b n by (simp_all only: of_int_le_iff of_int_less_iff) (simp_all add: nat_add_distrib)
qed

lemma ilog2_bounds:
  assumes "0 < x"
  shows "2 powi ilog2 x \<le> x" "x < 2 powi (ilog2 x + 1)"
proof -
  obtain p q where pq: "quotient_of x = (p, q)" by fastforce
  have q: "0 < q" using quotient_of_denom_pos [OF pq] .
  have x: "x = of_int p / of_int q" using quotient_of_div [OF pq] .
  have p: "0 < p" using assms x q by (simp add: zero_less_divide_iff)
  define e where "e = bitlen p - bitlen q"
  let ?P = "of_int p :: rat" and ?Q = "of_int q :: rat"
  note bp = bitlen_powi [OF p] and bq = bitlen_powi [OF q]
  have Q: "0 < ?Q" using q by simp
  have up: "x < 2 powi (e + 1)"
  proof -
    have "?P < 2 powi bitlen p" by (rule bp(2))
    also have "\<dots> = 2 powi (e + 1) * 2 powi (bitlen q - 1)"
      by (simp add: e_def flip: power_int_add)
    also have "\<dots> \<le> 2 powi (e + 1) * ?Q" using bq(1) by (intro mult_left_mono) simp_all
    finally show ?thesis using Q by (simp add: x divide_less_eq)
  qed
  have lo: "2 powi (e - 1) \<le> x"
  proof -
    have "2 powi (e - 1) * ?Q \<le> 2 powi (e - 1) * 2 powi bitlen q"
      using bq(2) by (intro mult_left_mono) simp_all
    also have "\<dots> = 2 powi (bitlen p - 1)" by (simp add: e_def flip: power_int_add)
    also have "\<dots> \<le> ?P" by (rule bp(1))
    finally show ?thesis using Q by (simp add: x le_divide_eq)
  qed
  have "ilog2 x = (if x < 2 powi e then e - 1 else e)"
    by (simp add: ilog2_def pq e_def)
  with up lo show "2 powi ilog2 x \<le> x" "x < 2 powi (ilog2 x + 1)" by (auto split: if_splits)
qed


section \<open>Rounding to 24 significant bits\<close>

definition ulp32 :: "rat \<Rightarrow> rat" where
  "ulp32 a = 2 powi (ilog2 a - 23)"

definition round32 :: "rat \<Rightarrow> rat" where
  "round32 x = (if x = 0 then 0
     else sgn x * (of_int (rne (\<bar>x\<bar> / ulp32 \<bar>x\<bar>)) * ulp32 \<bar>x\<bar>))"

lemma round32_0 [simp]: "round32 0 = 0"
  by (simp add: round32_def)

lemma round32_minus: "round32 (- x) = - round32 x"
  by (simp add: round32_def)

lemma round32_pos: "0 < x \<Longrightarrow> round32 x = of_int (rne (x / ulp32 x)) * ulp32 x"
  by (simp add: round32_def)

lemma ulp32_pos [simp]: "0 < ulp32 a"
  by (simp add: ulp32_def)

lemma ulp32_scale: "2 ^ 23 * ulp32 a = 2 powi ilog2 a" "2 ^ 24 * ulp32 a = 2 powi (ilog2 a + 1)"
proof -
  have p: "(2::rat) ^ 23 = 2 powi 23" "(2::rat) ^ 24 = 2 powi 24" by simp_all
  have e: "ilog2 a = 23 + (ilog2 a - 23)" "ilog2 a + 1 = 24 + (ilog2 a - 23)" by simp_all
  show "2 ^ 23 * ulp32 a = 2 powi ilog2 a"
    by (subst e(1)) (simp only: p ulp32_def powi_add)
  show "2 ^ 24 * ulp32 a = 2 powi (ilog2 a + 1)"
    by (subst e(2)) (simp only: p ulp32_def powi_add)
qed

lemma round32_binade:
  assumes "0 < x"
  shows "2 powi ilog2 x \<le> round32 x" "round32 x \<le> 2 powi (ilog2 x + 1)"
proof -
  let ?u = "ulp32 x"
  have "2 ^ 23 * ?u \<le> x" "x < 2 ^ 24 * ?u"
    unfolding ulp32_scale by (rule ilog2_bounds [OF assms])+
  then have "of_int (2 ^ 23) \<le> x / ?u" "x / ?u \<le> of_int (2 ^ 24)"
    by (simp_all add: le_divide_eq divide_le_eq)
  then have "2 ^ 23 \<le> rne (x / ?u)" "rne (x / ?u) \<le> 2 ^ 24"
    using rne_ge [of "2 ^ 23" "x / ?u"] rne_le [of "x / ?u" "2 ^ 24"] by blast+
  then have "(2 ^ 23 :: rat) \<le> of_int (rne (x / ?u))" "of_int (rne (x / ?u)) \<le> (2 ^ 24 :: rat)"
    by (metis of_int_le_iff of_int_numeral of_int_power)+
  then have "2 ^ 23 * ?u \<le> round32 x" "round32 x \<le> 2 ^ 24 * ?u"
    by (simp_all only: round32_pos [OF assms] mult_right_mono less_imp_le [OF ulp32_pos])
  then show "2 powi ilog2 x \<le> round32 x" "round32 x \<le> 2 powi (ilog2 x + 1)"
    unfolding ulp32_scale .
qed

lemma round32_mono_pos: "0 < x \<Longrightarrow> x \<le> y \<Longrightarrow> round32 x \<le> round32 y"
proof -
  assume x: "0 < x" and le: "x \<le> y"
  then have y: "0 < y" by simp
  have "(2::rat) powi ilog2 x < 2 powi (ilog2 y + 1)"
    using ilog2_bounds(1) [OF x] ilog2_bounds(2) [OF y] le by linarith
  then have e: "ilog2 x \<le> ilog2 y" using powi_less_imp by fastforce
  show ?thesis
  proof (cases "ilog2 x = ilog2 y")
    case True
    then have u: "ulp32 x = ulp32 y" by (simp add: ulp32_def)
    have "rne (x / ulp32 y) \<le> rne (y / ulp32 y)" 
      by (rule rne_mono) (rule divide_right_mono, rule le, rule less_imp_le, rule ulp32_pos)
    then have "of_int (rne (x / ulp32 y)) \<le> (of_int (rne (y / ulp32 y)) :: rat)" by simp
    then show ?thesis unfolding round32_pos [OF x] round32_pos [OF y] u
      by (rule mult_right_mono) (rule less_imp_le, rule ulp32_pos)
  next
    case False
    with e have "(2::rat) powi (ilog2 x + 1) \<le> 2 powi ilog2 y" by (intro powi_le) simp
    then show ?thesis using round32_binade(2) [OF x] round32_binade(1) [OF y] by linarith
  qed
qed

lemma round32_sign: "0 < x \<Longrightarrow> 0 < round32 x"
  using round32_binade(1) [of x] powi_pos [of "ilog2 x"] by linarith

lemma round32_mono: "x \<le> y \<Longrightarrow> round32 x \<le> round32 y"
proof -
  assume le: "x \<le> y"
  consider "0 < x" | "y < 0" | "x \<le> 0" "0 \<le> y" by linarith
  then show ?thesis
  proof cases
    case 1
    then show ?thesis using le by (rule round32_mono_pos)
  next
    case 2
    with le round32_mono_pos [of "- y" "- x"] show ?thesis by (simp add: round32_minus)
  next
    case 3
    have "round32 x \<le> 0" using 3 round32_sign [of "- x"] by (cases "x = 0") (auto simp: round32_minus)
    moreover have "0 \<le> round32 y" using 3 round32_sign [of y] by (cases "y = 0") auto
    ultimately show ?thesis by simp
  qed
qed

lemma round32_exact_pos:
  assumes m: "0 < m" "m < 2 ^ 24"
  shows "round32 (of_int m * 2 powi k) = of_int m * 2 powi k"
proof -
  let ?x = "of_int m * (2::rat) powi k"
  have x: "0 < ?x" using m by simp
  have "(2::rat) powi ilog2 ?x \<le> ?x" by (rule ilog2_bounds(1) [OF x])
  also have "\<dots> < 2 powi 24 * 2 powi k"
  proof (rule mult_strict_right_mono)
    have "(of_int m :: rat) < of_int (2 ^ 24)" using m(2) by (simp only: of_int_less_iff)
    then show "(of_int m :: rat) < 2 powi 24" by (simp add: power_int_def)
  qed simp
  also have "\<dots> = 2 powi (24 + k)" by (simp only: powi_add)
  finally have e: "ilog2 ?x \<le> 23 + k" using powi_less_imp by fastforce
  define j where "j = nat (23 + k - ilog2 ?x)"
  have j: "k - (ilog2 ?x - 23) = int j" using e by (simp add: j_def)
  have "?x / ulp32 ?x = of_int m * 2 powi (k - (ilog2 ?x - 23))"
    by (simp add: ulp32_def power_int_diff)
  also have "\<dots> = of_int (m * 2 ^ j)" unfolding j by simp
  finally have q: "?x / ulp32 ?x = of_int (m * 2 ^ j)" .
  have "round32 ?x = of_int (m * 2 ^ j) * ulp32 ?x" unfolding round32_pos [OF x] q rne_int ..
  also have "\<dots> = ?x / ulp32 ?x * ulp32 ?x" unfolding q ..
  finally show ?thesis by (simp add: less_imp_neq [OF ulp32_pos, symmetric])
qed

lemma round32_exact:
  assumes "\<bar>m\<bar> \<le> 2 ^ 24"
  shows "round32 (of_int m * 2 powi k) = of_int m * 2 powi k"
proof -
  have pos: "round32 (of_int n * 2 powi k) = of_int n * 2 powi k" if "0 < n" "n \<le> 2 ^ 24" for n
  proof (cases "n = 2 ^ 24")
    case True
    have "of_int n * (2::rat) powi k = of_int (2 ^ 23) * 2 powi (k + 1)"
      unfolding True by (simp add: power_int_add)
    then show ?thesis using round32_exact_pos [of "2 ^ 23" "k + 1"] by simp
  next
    case False
    with that show ?thesis by (intro round32_exact_pos) auto
  qed
  consider "m = 0" | "0 < m" | "0 < - m" by linarith
  then show ?thesis
  proof cases
    case 3
    with assms pos [of "- m"] show ?thesis by (simp add: round32_minus)
  qed (use assms pos in auto)
qed


section \<open>What the shape computations need of rounding\<close>

locale rounding =
  fixes rnd :: "rat \<Rightarrow> rat"
  assumes rnd_mono: "x \<le> y \<Longrightarrow> rnd x \<le> rnd y"
    and rnd_exact: "\<bar>m\<bar> \<le> 2 ^ 24 \<Longrightarrow> rnd (of_int m * 2 powi k) = of_int m * 2 powi k"
begin

lemma rnd_int: "\<bar>m\<bar> \<le> 2 ^ 24 \<Longrightarrow> rnd (of_int m) = of_int m"
  using rnd_exact [of m 0] by simp

text \<open>The fixed points of rounding on a grid of spacing \<open>2 ^ -k\<close> that is fine enough for \<open>1 / s\<close>.\<close>

lemma grid:
  assumes s: "1 \<le> s" and n: "0 \<le> n" "n * s + 2 * s \<le> 2 ^ 23"
  shows "\<exists>u. 0 < u \<and> u \<le> 1 / of_int s \<and> u \<le> 1 \<and>
    (\<forall>j. 0 \<le> j \<and> j \<le> n + 1 \<longrightarrow> rnd (of_int j + u) = of_int j + u \<and>
       rnd (of_int (j + 1) - u) = of_int (j + 1) - u) \<and> rnd (- u) = - u"
proof -
  define b where "b = nat (bitlen s)"
  have b: "s < 2 ^ b" "2 ^ b \<le> 2 * s"
  proof -
    have bb: "2 ^ nat (bitlen s - 1) \<le> s" "s < 2 ^ nat (bitlen s)"
      using bitlen_bounds [of s] s by auto
    show "s < 2 ^ b" using bb(2) by (simp add: b_def)
    have "0 < b" using bb(2) s by (cases b) (auto simp: b_def)
    then have "b = Suc (nat (bitlen s - 1))" by (simp add: b_def)
    then show "2 ^ b \<le> 2 * s" using bb(1) by simp
  qed
  define u where "u = (2::rat) powi (- int b)"
  have ub: "u * of_int (2 ^ b) = 1" by (simp add: u_def power_int_minus)
  have up: "0 < u" by (simp add: u_def)
  have "u * of_int s \<le> u * of_int (2 ^ b)" using b(1) up
    by (intro mult_left_mono) (simp_all only: of_int_le_iff less_imp_le)
  with ub s have us: "u \<le> 1 / of_int s" by (simp add: le_divide_eq)
  have "1 / of_int s \<le> (1 :: rat)" using s by simp
  with us have u1: "u \<le> 1" by simp
  have big: "(n + 2) * 2 ^ b \<le> 2 ^ 24"
  proof -
    have "(n + 2) * 2 ^ b \<le> (n + 2) * (2 * s)" using b(2) n(1) by (intro mult_left_mono) simp_all
    also have "\<dots> = 2 * (n * s + 2 * s)" by (simp add: algebra_simps)
    finally show ?thesis using n(2) by simp
  qed
  have fix_pt: "rnd (of_int m * u) = of_int m * u" if "\<bar>m\<bar> \<le> 2 ^ 24" for m
    unfolding u_def by (rule rnd_exact [OF that])
  have rep: "of_int j + u = of_int (j * 2 ^ b + 1) * u" "of_int j - u = of_int (j * 2 ^ b - 1) * u" for j
    using ub by (simp_all add: algebra_simps)
  have pow: "(1::int) \<le> 2 ^ b" by simp
  have "rnd (of_int j + u) = of_int j + u \<and> rnd (of_int (j + 1) - u) = of_int (j + 1) - u"
    if j: "0 \<le> j" "j \<le> n + 1" for j
  proof -
    have a: "(j + 1) * 2 ^ b \<le> (n + 2) * 2 ^ b" using j by (intro mult_right_mono) simp_all
    have "0 \<le> j * 2 ^ b" using j by simp
    moreover have "j * 2 ^ b + 2 ^ b \<le> 2 ^ 24" using a big by (simp add: distrib_right)
    ultimately have m1: "\<bar>j * 2 ^ b + 1\<bar> \<le> 2 ^ 24" using pow by linarith
    have "1 * 1 \<le> (j + 1) * 2 ^ b" using j pow by (intro mult_mono) simp_all
    then have m2: "\<bar>(j + 1) * 2 ^ b - 1\<bar> \<le> 2 ^ 24" using a big by linarith
    show ?thesis unfolding rep using fix_pt [OF m1] fix_pt [OF m2] by simp
  qed
  moreover have "rnd (- u) = - u" using fix_pt [of "- 1"] by simp
  ultimately show ?thesis using up us u1 by blast
qed

lemma quotient_exact:
  assumes s: "1 \<le> s" and x: "0 \<le> x" "x + 2 * s \<le> 2 ^ 23"
  shows "\<lfloor>rnd (rnd (of_int x / of_int s) + 1)\<rfloor> = x div s + 1"
    and "\<lceil>rnd (rnd (of_int x / of_int s) + 1)\<rceil> = (x + s - 1) div s + 1"
    and "1 \<le> rnd (rnd (of_int x / of_int s) + 1)"
proof -
  define n where "n = x div s"
  define r where "r = x mod s"
  have xs: "x = n * s + r" "0 \<le> r" "r < s" "0 \<le> n"
    using s x by (simp_all add: n_def r_def pos_imp_zdiv_nonneg_iff)
  have ns: "n * s + 2 * s \<le> 2 ^ 23" using x xs by simp
  let ?q = "of_int x / of_int s :: rat"
  have S: "(0::rat) < of_int s" using s by simp
  have q: "?q = of_int n + of_int r / of_int s" using S by (simp add: xs(1) add_divide_distrib)
  obtain u where u: "0 < u" "u \<le> 1 / of_int s" "u \<le> 1"
    and g: "\<And>j. 0 \<le> j \<Longrightarrow> j \<le> n + 1 \<Longrightarrow> rnd (of_int j + u) = of_int j + u"
      "\<And>j. 0 \<le> j \<Longrightarrow> j \<le> n + 1 \<Longrightarrow> rnd (of_int (j + 1) - u) = of_int (j + 1) - u"
    using grid [OF s xs(4) ns] by blast
  have "n + 1 \<le> n * s + 2 * s" using mult_left_mono [of 1 s n] xs(4) s by simp
  then have n24: "n + 1 \<le> 2 ^ 23" using ns by simp
  have ints: "rnd (of_int n) = of_int n" "rnd (of_int n + 1) = of_int n + 1"
    using rnd_int [of n] rnd_int [of "n + 1"] n24 xs(4) by simp_all
  have res: "\<lfloor>rnd (rnd ?q + 1)\<rfloor> = n + 1 \<and> \<lceil>rnd (rnd ?q + 1)\<rceil> = (if r = 0 then n + 1 else n + 2) \<and>
      1 \<le> rnd (rnd ?q + 1)"
  proof (cases "r = 0")
    case True
    then have "rnd (rnd ?q + 1) = of_int (n + 1)" using q ints by simp
    then show ?thesis using True xs(4) by simp
  next
    case False
    have "1 / of_int s \<le> of_int r / (of_int s :: rat)" using False xs(2) S by (intro divide_right_mono) simp_all
    with q u(2) have lo: "of_int n + u \<le> ?q" by linarith
    have "of_int r \<le> (of_int s - 1 :: rat)" using xs(3) by (metis of_int_1 of_int_diff of_int_le_iff zle_diff1_eq)
    then have "of_int r / of_int s \<le> (of_int s - 1) / (of_int s :: rat)" using S by (intro divide_right_mono) simp_all
    also have "\<dots> = 1 - 1 / of_int s" using S by (simp add: diff_divide_distrib)
    finally have up: "?q \<le> of_int (n + 1) - u" using q u(2) by simp
    have "of_int n + u \<le> rnd ?q" "rnd ?q \<le> of_int (n + 1) - u"
      using rnd_mono [OF lo] rnd_mono [OF up] g [of n] xs(4) by simp_all
    then have "of_int (n + 1) + u \<le> rnd ?q + 1" "rnd ?q + 1 \<le> of_int (n + 1 + 1) - u" by simp_all
    from this [THEN rnd_mono] g [of "n + 1"] xs(4)
    have "of_int (n + 1) + u \<le> rnd (rnd ?q + 1)" "rnd (rnd ?q + 1) \<le> of_int (n + 1 + 1) - u" by simp_all
    then have "\<lfloor>rnd (rnd ?q + 1)\<rfloor> = n + 1" "\<lceil>rnd (rnd ?q + 1)\<rceil> = n + 2" "1 \<le> rnd (rnd ?q + 1)"
      using u xs(4) by (simp_all add: floor_eq_iff ceiling_eq_iff)
    then show ?thesis using False by simp
  qed
  have "(x + s - 1) div s = (if r = 0 then n else n + 1)"
  proof (cases "r = 0")
    case True
    then have e: "x + s - 1 = n * s + (s - 1)" using xs by simp
    have "(x + s - 1) div s = n + (s - 1) div s"
      unfolding e using s by (intro div_mult_self3) simp
    also have "(s - 1) div s = 0" using s by (intro div_pos_pos_trivial) simp_all
    finally show ?thesis unfolding if_P [OF True] by (simp only: add_0_right)
  next
    case False
    then have e: "x + s - 1 = (n + 1) * s + (r - 1)" using xs by (simp add: algebra_simps)
    have "(x + s - 1) div s = n + 1 + (r - 1) div s"
      unfolding e using s by (intro div_mult_self3) simp
    also have "(r - 1) div s = 0" using False xs by (intro div_pos_pos_trivial) simp_all
    finally show ?thesis unfolding if_not_P [OF False] by (simp only: add_0_right)
  qed
  with res show "\<lfloor>rnd (rnd ?q + 1)\<rfloor> = x div s + 1" "\<lceil>rnd (rnd ?q + 1)\<rceil> = (x + s - 1) div s + 1"
    "1 \<le> rnd (rnd ?q + 1)" by (auto simp: n_def)
qed

lemma quotient_negative:
  assumes s: "1 \<le> s" "s \<le> 2 ^ 22" and x: "x < 0"
  shows "rnd (rnd (of_int x / of_int s) + 1) < 1"
proof -
  have S: "(0::rat) < of_int s" using s by simp
  obtain u where u: "0 < u" "u \<le> 1 / of_int s" "u \<le> 1" "rnd (- u) = - u"
    and g: "\<And>j. 0 \<le> j \<Longrightarrow> j \<le> 0 + 1 \<Longrightarrow> rnd (of_int (j + 1) - u) = of_int (j + 1) - u"
    using grid [of s 0] s by fastforce
  have "of_int x \<le> (- 1 :: rat)" using x by (metis of_int_1 of_int_le_iff of_int_minus zle_diff1_eq diff_0)
  then have "of_int x / of_int s \<le> - 1 / (of_int s :: rat)" using S by (intro divide_right_mono) simp_all
  then have "of_int x / of_int s \<le> - u" using u(2) by simp
  from rnd_mono [OF this] u(4) have "rnd (of_int x / of_int s) + 1 \<le> of_int (0 + 1) - u" by simp
  from rnd_mono [OF this] g [of 0] show ?thesis using u(1) by simp
qed

end

interpretation b32: rounding round32
  by unfold_locales (erule round32_mono, erule round32_exact)


section \<open>The expression \<open>float(x) / stride + 1\<close> and its conversion back\<close>

text \<open>
  A conversion to \<open>int64_t\<close> truncates; a value outside the range, like a division by
  zero (which gives an infinity or a NaN that is converted next), is undefined in C++.
\<close>

definition trunc :: "rat \<Rightarrow> int" where
  "trunc x = (if 0 \<le> x then \<lfloor>x\<rfloor> else \<lceil>x\<rceil>)"

definition float_to_int64 :: "rat \<Rightarrow> int res" where
  "float_to_int64 x = (let n = trunc x in
     if - (2 ^ 63) \<le> n \<and> n < 2 ^ 63 then Inr n else Inl Undefined)"

definition window_quot :: "int \<Rightarrow> int \<Rightarrow> rat res" where
  "window_quot x stride =
     (if stride = 0 then Inl Undefined
      else Inr (round32 (round32 (round32 (of_int x) / round32 (of_int stride)) + 1)))"

lemma window_quot_small:
  assumes "\<bar>x\<bar> \<le> 2 ^ 24" "1 \<le> s" "s \<le> 2 ^ 24"
  shows "window_quot x s = Inr (round32 (round32 (of_int x / of_int s) + 1))"
  using assms by (simp add: window_quot_def b32.rnd_int)

lemma int_div_bounds:
  assumes "0 \<le> x" "1 \<le> (s::int)"
  shows "x div s \<le> x" "0 \<le> x div s"
  using assms zdiv_mono2 [of x 1 s] by (simp_all add: pos_imp_zdiv_nonneg_iff)

lemma window_floor:
  assumes "1 \<le> s" "0 \<le> x" "x + 2 * s \<le> 2 ^ 23"
  shows "bindE (window_quot x s) float_to_int64 = Inr (x div s + 1)"
proof -
  have le: "x div s \<le> x" "0 \<le> x div s"
    using assms int_div_bounds by simp_all
  show ?thesis
    using b32.quotient_exact [OF assms] assms le window_quot_small [of x s]
    by (simp add: float_to_int64_def trunc_def Let_def)
qed

lemma window_ceiling:
  assumes "1 \<le> s" "0 \<le> x" "x + 2 * s \<le> 2 ^ 23"
  shows "bindE (window_quot x s) (\<lambda>q. float_to_int64 (of_int \<lceil>q\<rceil>)) =
    Inr ((x + s - 1) div s + 1)"
proof -
  have le: "(x + s - 1) div s \<le> x + s - 1" "0 \<le> (x + s - 1) div s"
    using assms int_div_bounds [of "x + s - 1" s] by linarith+
  show ?thesis
    using b32.quotient_exact [OF assms] assms le window_quot_small [of x s]
    by (simp add: float_to_int64_def trunc_def Let_def)
qed

lemma window_negative:
  assumes "1 \<le> s" "s \<le> 2 ^ 22" "x < 0" "- (2 ^ 23) \<le> x"
  shows "\<exists>n \<le> 0. bindE (window_quot x s) float_to_int64 = Inr n"
proof -
  let ?r = "round32 (round32 (of_int x / of_int s) + 1)"
  have lt: "?r < 1" by (rule b32.quotient_negative [OF assms(1-3)])
  have S: "(1::rat) \<le> of_int s" using assms(1) by simp
  have "of_int (- (2 ^ 23)) \<le> (of_int x / of_int s :: rat)"
  proof -
    have "of_int (- (2 ^ 23)) * of_int s \<le> (of_int (- (2 ^ 23)) :: rat)" using S by simp
    also have "\<dots> \<le> of_int x" using assms(4) by (simp only: of_int_le_iff)
    finally show ?thesis using S by (simp add: le_divide_eq)
  qed
  from b32.rnd_mono [OF this] have "of_int (- (2 ^ 23)) \<le> round32 (of_int x / of_int s)"
    by (subst (asm) b32.rnd_int) simp_all
  then have "of_int (- (2 ^ 23)) \<le> round32 (of_int x / of_int s) + 1" by simp
  from b32.rnd_mono [OF this] have ge: "of_int (- (2 ^ 23)) \<le> ?r"
    by (subst (asm) b32.rnd_int) simp_all
  have "trunc ?r \<le> 0" using lt by (auto simp: trunc_def floor_le_iff ceiling_le_iff)
  moreover have "- (2 ^ 63) \<le> trunc ?r"
  proof -
    have "- (2 ^ 23) \<le> trunc ?r" using ge unfolding trunc_def by (auto simp: le_floor_iff le_ceiling_iff)
    then show ?thesis by simp
  qed
  ultimately show ?thesis using assms window_quot_small [of x s] by (simp add: float_to_int64_def Let_def)
qed

end
