(* ===== verification/ConvShape.thy ===== *)
theory ConvShape
  imports Float32
begin

text \<open>
  The padding and output-shape arithmetic of onnxruntime/core/providers/common.h and the
  attribute structs of the convolution and transposed convolution kernels
  (cpu/nn/conv_attributes.h, cpu/nn/conv_transpose_attributes.h). An \<open>int64_t\<close> is a
  mathematical integer: the products and sums stay below \<open>2^63\<close> for the shapes of real
  tensors, and C++ leaves a signed overflow undefined. \<open>/\<close> and \<open>%\<close> truncate toward zero,
  and a zero divisor is \<open>Undefined\<close>. Reference parameters that a function updates are
  arguments and results; what a failed call leaves in them is not modelled.
  The attributes of a node come from a protobuf the sources only declare an interface to
  (\<open>OpNodeProtoHelper\<close>), so a node is its three lookup functions; a lookup that fails
  leaves its output vector empty.
\<close>

section \<open>Helpers of common.h\<close>

datatype auto_pad_type = NOTSET | VALID | SAME_UPPER | SAME_LOWER

definition HandleNegativeAxis :: "int \<Rightarrow> int \<Rightarrow> int res" where
  "HandleNegativeAxis axis tensor_rank =
     bindE (enforce (axis \<ge> - tensor_rank \<and> axis \<le> tensor_rank - 1)) (\<lambda>_.
     Inr (if axis < 0 then axis + tensor_rank else axis))"

definition IsScalarOr1ElementVector :: "int list \<Rightarrow> bool" where
  "IsScalarOr1ElementVector dims =
     (length dims = 0 \<or> (length dims = 1 \<and> prod_list dims = 1))"

definition clamp :: "rat \<Rightarrow> rat \<Rightarrow> rat \<Rightarrow> rat" where
  "clamp v lo hi = (if v < lo then lo else if v > hi then hi else v)"

definition StringToAutoPadType :: "string \<Rightarrow> auto_pad_type res" where
  "StringToAutoPadType str =
     (if str = [] then Inr NOTSET
      else if str = ''NOTSET'' then Inr NOTSET
      else if str = ''VALID'' then Inr VALID
      else if str = ''SAME_UPPER'' then Inr SAME_UPPER
      else if str = ''SAME_LOWER'' then Inr SAME_LOWER
      else Inl EnforceFailed)"

text \<open>C++ division and remainder.\<close>

definition cdiv :: "int \<Rightarrow> int \<Rightarrow> int res" where
  "cdiv a b = (if b = 0 then Inl Undefined else Inr (a sdiv b))"

definition cmod :: "int \<Rightarrow> int \<Rightarrow> int res" where
  "cmod a b = (if b = 0 then Inl Undefined else Inr (a smod b))"

unbundle bit_operations_syntax

definition ComputePad ::
  "int \<Rightarrow> int \<Rightarrow> int \<Rightarrow> int \<Rightarrow> auto_pad_type \<Rightarrow> bool \<Rightarrow> int \<times> int \<Rightarrow> (int \<times> int) res" where
  "ComputePad in_dim stride kern dilation pad_type force_symmetric pads =
     (case pad_type of
        NOTSET \<Rightarrow> Inr pads
      | VALID \<Rightarrow> Inr (0, 0)
      | _ \<Rightarrow>
          if 1 \<noteq> dilation then Inl (StatusErr INVALID_ARGUMENT)
          else bindE (cdiv (in_dim + stride - 1) stride) (\<lambda>legacy_target_size.
            let pad_needed0 = (legacy_target_size - 1) * stride + kern - in_dim;
                pad_needed = (if force_symmetric then (pad_needed0 + 1) AND NOT 1 else pad_needed0);
                pad_head = (if pad_type = SAME_LOWER then (pad_needed + 1) sdiv 2
                            else pad_needed sdiv 2)
            in Inr (pad_head, pad_needed - pad_head)))"

definition ComputeOutputShape :: "int \<Rightarrow> int \<Rightarrow> int \<Rightarrow> int \<Rightarrow> int \<Rightarrow> int \<Rightarrow> int res" where
  "ComputeOutputShape in_dim stride kern dilation pad_head pad_tail =
     (let dkernel = dilation * (kern - 1) + 1 in
      bindE (window_quot (in_dim + pad_head + pad_tail - dkernel) stride) float_to_int64)"

definition ComputePadAndOutputShape ::
  "int \<Rightarrow> int \<Rightarrow> int \<Rightarrow> int \<Rightarrow> auto_pad_type \<Rightarrow> bool \<Rightarrow> int \<times> int \<Rightarrow> (int \<times> int \<times> int) res" where
  "ComputePadAndOutputShape in_dim stride kern dilation pad_type force_symmetric pads =
     bindE (ComputePad in_dim stride kern dilation pad_type force_symmetric pads)
       (\<lambda>(pad_head, pad_tail).
     bindE (ComputeOutputShape in_dim stride kern dilation pad_head pad_tail) (\<lambda>out_dim.
     Inr (pad_head, pad_tail, out_dim)))"

section \<open>Attributes of a node\<close>

record node_attrs =
  attr_string :: "string \<Rightarrow> string option"
  attr_int :: "string \<Rightarrow> int option"
  attr_ints :: "string \<Rightarrow> int list option"

definition ints_or_empty :: "node_attrs \<Rightarrow> string \<Rightarrow> int list" where
  "ints_or_empty info name = (case attr_ints info name of None \<Rightarrow> [] | Some v \<Rightarrow> v)"

record conv_attributes =
  auto_pad :: auto_pad_type
  group :: int
  kernel_shape_specified :: bool
  conv_strides :: "int list"
  conv_pads :: "int list"
  conv_dilations :: "int list"
  conv_kernel_shape :: "int list"

definition ConvAttributes_init :: "node_attrs \<Rightarrow> conv_attributes res" where
  "ConvAttributes_init info =
     bindE (case attr_string info ''auto_pad'' of
              None \<Rightarrow> Inr NOTSET | Some str \<Rightarrow> StringToAutoPadType str) (\<lambda>ap.
     let ks_specified = (attr_ints info ''kernel_shape'' \<noteq> None);
         ks = ints_or_empty info ''kernel_shape'';
         st0 = ints_or_empty info ''strides'';
         st = (if st0 = [] then replicate (length ks) 1 else st0)
     in bindE (case attr_ints info ''pads'' of
                 None \<Rightarrow> Inr (replicate (length ks * 2) 0)
               | Some p \<Rightarrow> bindE (enforce (ap = NOTSET)) (\<lambda>_. Inr p)) (\<lambda>pd.
        let dl0 = ints_or_empty info ''dilations'';
            dl = (if dl0 = [] then replicate (length ks) 1 else dl0);
            gr = (case attr_int info ''group'' of None \<Rightarrow> 1 | Some g \<Rightarrow> g)
        in Inr \<lparr>auto_pad = ap, group = gr, kernel_shape_specified = ks_specified,
                conv_strides = st, conv_pads = pd, conv_dilations = dl,
                conv_kernel_shape = ks\<rparr>))"

definition ComputeKernelShape :: "conv_attributes \<Rightarrow> int list \<Rightarrow> int list res" where
  "ComputeKernelShape a weight_shape =
     (if kernel_shape_specified a then
        let kernel_shape = conv_kernel_shape a in
        if length kernel_shape + 2 \<noteq> length weight_shape then Inl (StatusErr FAIL)
        else bindE (foldE (\<lambda>i _. if kernel_shape ! i \<noteq> weight_shape ! (i + 2)
                                 then Inl (StatusErr FAIL) else Inr ())
                      [0..<length kernel_shape] ()) (\<lambda>_. Inr kernel_shape)
      else if length weight_shape < 2 then Inl Undefined else Inr (drop 2 weight_shape))"

definition ValidateInputShape ::
  "conv_attributes \<Rightarrow> int list \<Rightarrow> int list \<Rightarrow> bool \<Rightarrow> unit res" where
  "ValidateInputShape a input_shape weight_shape channels_last =
     (if length input_shape \<noteq> length weight_shape then Inl (StatusErr FAIL)
      else bindE (vget weight_shape 0) (\<lambda>M.
        bindE (if channels_last then vget_back input_shape 1 else vget input_shape 1) (\<lambda>C.
        bindE (vget weight_shape 1) (\<lambda>w1.
        if C \<noteq> w1 * group a then Inl (StatusErr FAIL)
        else bindE (cmod M (group a)) (\<lambda>r.
          if r \<noteq> 0 then Inl (StatusErr FAIL) else Inr ())))))"

text \<open>The size checks at the start of both inference routines.\<close>

definition check_sizes :: "nat \<Rightarrow> int list \<Rightarrow> int list \<Rightarrow> int list \<Rightarrow> int list \<Rightarrow> unit res" where
  "check_sizes rank strides kernel_shape dilations pads =
     (if rank > length strides then Inl (StatusErr INVALID_ARGUMENT)
      else if rank > length kernel_shape then Inl (StatusErr INVALID_ARGUMENT)
      else if rank > length dilations then Inl (StatusErr INVALID_ARGUMENT)
      else if 2 * rank > length pads then Inl (StatusErr INVALID_ARGUMENT)
      else Inr ())"

definition InferOutputShape ::
  "conv_attributes \<Rightarrow> int list \<Rightarrow> int list \<Rightarrow> int list \<Rightarrow> int list \<Rightarrow> bool \<Rightarrow>
   int list \<times> int list \<Rightarrow> (int list \<times> int list) res" where
  "InferOutputShape a input_shape kernel_shape strides dilations force_symmetric st =
     (let rank = length input_shape in
      bindE (check_sizes rank strides kernel_shape dilations (fst st)) (\<lambda>_.
      foldE (\<lambda>dm (pads, output_shape).
          bindE (vat pads dm) (\<lambda>ph.
          bindE (vat pads (rank + dm)) (\<lambda>pt.
          bindE (ComputePadAndOutputShape (input_shape ! dm) (strides ! dm)
                   (kernel_shape ! dm) (dilations ! dm) (auto_pad a) force_symmetric (ph, pt))
            (\<lambda>(ph', pt', out).
          if out \<le> 0 then Inl (StatusErr INVALID_ARGUMENT)
          else Inr (pads[dm := ph', rank + dm := pt'], output_shape @ [out])))))
        [0..<rank] st))"

section \<open>Making asymmetric pads symmetric\<close>

text \<open>
  The loop that adds multiples of the stride to the head padding. With a stride that is
  not positive it does not end; a C++ program with such a loop has no defined behaviour.
\<close>

partial_function (option) overpad :: "int \<Rightarrow> int \<Rightarrow> int \<Rightarrow> int \<Rightarrow> (int \<times> int) option" where
  "overpad pad_tail stride pad_head excess =
     (if pad_head < pad_tail then overpad pad_tail stride (pad_head + stride) (excess + 1)
      else Some (pad_head, excess))"

record adjusted =
  adj_pads :: "int list"
  adj_output_shape :: "int list"
  adj_revised_shape :: "int list"
  post_slicing_needed :: bool
  slice_starts :: "int list"
  slice_ends :: "int list"
  slice_axes :: "int list"

text \<open>
  The adjustment of one dimension: the new pads, the output size with them, and the slice
  to take when one is needed.
\<close>

definition adjust_dim ::
  "int \<Rightarrow> int \<Rightarrow> int \<Rightarrow> int \<Rightarrow> int \<Rightarrow> int \<times> int \<Rightarrow>
   (int \<times> int \<times> int \<times> (int \<times> int) option) res" where
  "adjust_dim in_dim stride kern dilation out pads =
     (case pads of (pad_head, pad_tail) \<Rightarrow>
      if pad_head = pad_tail then Inr (pad_head, pad_tail, out, None)
      else
        bindE (if pad_head < pad_tail
               then (case overpad pad_tail stride pad_head 0 of
                       None \<Rightarrow> Inl Undefined
                     | Some (h, excess) \<Rightarrow> Inr (h, True, excess))
               else Inr (pad_head, False, 0)) (\<lambda>(h, head_overpadded, excess).
        if pad_tail < h then
          bindE (ComputeOutputShape in_dim stride kern dilation h h) (\<lambda>revised.
          if head_overpadded then Inr (h, h, revised, Some (excess, excess + out))
          else if revised \<noteq> out then Inr (h, h, revised, Some (0, out - revised))
          else Inr (h, h, revised, None))
        else Inr (h, pad_tail, excess + out, Some (excess, excess + out))))"

definition adjusted_step ::
  "conv_attributes \<Rightarrow> int list \<Rightarrow> int list \<Rightarrow> int list \<Rightarrow> int list \<Rightarrow> nat \<Rightarrow> adjusted \<Rightarrow> adjusted res"
where
  "adjusted_step a input_shape kernel_shape strides dilations dm st =
     (let rank = length input_shape; i = input_shape ! dm; s = strides ! dm;
          k = kernel_shape ! dm; d = dilations ! dm
      in bindE (ComputePadAndOutputShape i s k d (auto_pad a) False
                  (adj_pads st ! dm, adj_pads st ! (rank + dm))) (\<lambda>(ph, pt, out).
         if out \<le> 0 then Inl (StatusErr INVALID_ARGUMENT)
         else bindE (adjust_dim i s k d out (ph, pt)) (\<lambda>(h, t, revised, sl).
           let st' = st\<lparr>adj_pads := (adj_pads st)[dm := h, rank + dm := t],
                        adj_output_shape := adj_output_shape st @ [out],
                        adj_revised_shape := adj_revised_shape st @ [revised]\<rparr>
           in Inr (case sl of None \<Rightarrow> st'
                   | Some (b, e) \<Rightarrow> st'\<lparr>post_slicing_needed := True,
                       slice_axes := slice_axes st @ [int dm + 2],
                       slice_starts := slice_starts st @ [b],
                       slice_ends := slice_ends st @ [e]\<rparr>))))"

definition InferOutputShapeWithAdjustedPads ::
  "conv_attributes \<Rightarrow> int list \<Rightarrow> int list \<Rightarrow> int list \<Rightarrow> int list \<Rightarrow> adjusted \<Rightarrow> adjusted res" where
  "InferOutputShapeWithAdjustedPads a input_shape kernel_shape strides dilations st =
     bindE (check_sizes (length input_shape) strides kernel_shape dilations (adj_pads st)) (\<lambda>_.
     foldE (adjusted_step a input_shape kernel_shape strides dilations) [0..<length input_shape] st)"

definition HasStridesOneAndNoPadding :: "conv_attributes \<Rightarrow> bool" where
  "HasStridesOneAndNoPadding a =
     (list_all (\<lambda>v. v = 1) (conv_strides a) \<and> list_all (\<lambda>v. v = 0) (conv_pads a))"

section \<open>Transposed convolution\<close>

text \<open>\<open>output_padding\<close> and \<open>output_shape\<close> are the two attributes it adds.\<close>

record conv_transpose_attributes = conv_attributes +
  output_padding :: "int list"
  ct_output_shape :: "int list"

definition ComputeTotalPad :: "int \<Rightarrow> int \<Rightarrow> int \<Rightarrow> int \<Rightarrow> int \<Rightarrow> int \<Rightarrow> int" where
  "ComputeTotalPad in_size stride adj kern dilation out_size =
     max 0 ((in_size - 1) * stride + adj + (kern - 1) * dilation + 1 - out_size)"

definition DistributePadding :: "auto_pad_type \<Rightarrow> int \<Rightarrow> int \<times> int" where
  "DistributePadding pad_type total_pad =
     (if pad_type = SAME_UPPER then (total_pad - total_pad sdiv 2, total_pad sdiv 2)
      else (total_pad sdiv 2, total_pad - total_pad sdiv 2))"

definition ComputeTransposePadAndOutputShape ::
  "int \<Rightarrow> int \<Rightarrow> int \<Rightarrow> int \<Rightarrow> int \<Rightarrow> auto_pad_type \<Rightarrow> int \<times> int \<Rightarrow> int \<Rightarrow> (int \<times> int \<times> int) res"
where
  "ComputeTransposePadAndOutputShape in_size stride kern dilation adj pad_type pads out_size =
     (if out_size \<noteq> -1 then
        bindE (enforce (out_size \<ge> 0)) (\<lambda>_.
        let total_pad = ComputeTotalPad in_size stride adj kern dilation out_size;
            (pad_head, pad_tail) = DistributePadding pad_type total_pad
        in Inr (pad_head, pad_tail, out_size))
      else
        let (pad_head, pad_tail) =
              (if pad_type = SAME_UPPER \<or> pad_type = SAME_LOWER
               then DistributePadding pad_type
                      (ComputeTotalPad in_size stride adj kern dilation in_size)
               else pads)
        in Inr (pad_head, pad_tail,
             (in_size - 1) * stride + adj + (kern - 1) * dilation + 1 - pad_head - pad_tail))"

definition transpose_step ::
  "conv_transpose_attributes \<Rightarrow> int list \<Rightarrow> int list \<Rightarrow> int list \<Rightarrow> int list \<Rightarrow> int list \<Rightarrow>
   nat \<Rightarrow> int list \<times> int list \<Rightarrow> (int list \<times> int list) res" where
  "transpose_step a input_shape kernel_shape p_strides p_dilations p_output_padding dm st =
     (case st of (p_pads, out_p) \<Rightarrow>
      let rank = length input_shape; n = length (ct_output_shape a) in
      bindE (if n = 0 then Inr (- 1)
             else if n = rank then vget (ct_output_shape a) dm
             else vget (ct_output_shape a) (dm + 2)) (\<lambda>dim_size.
      bindE (vget input_shape dm) (\<lambda>i.
      bindE (vget p_strides dm) (\<lambda>s.
      bindE (vget kernel_shape dm) (\<lambda>k.
      bindE (vget p_dilations dm) (\<lambda>d.
      bindE (vget p_output_padding dm) (\<lambda>adj.
      bindE (vat p_pads dm) (\<lambda>ph.
      bindE (vat p_pads (rank + dm)) (\<lambda>pt.
      bindE (ComputeTransposePadAndOutputShape i s k d adj (auto_pad a) (ph, pt) dim_size)
        (\<lambda>(ph', pt', dim_size').
      bindE (enforce (dim_size' > 0)) (\<lambda>_.
      Inr (p_pads[dm := ph', rank + dm := pt'], out_p @ [dim_size'])))))))))))) "

definition ComputePadsAndOutputShape ::
  "conv_transpose_attributes \<Rightarrow> int list \<Rightarrow> int \<Rightarrow> int list \<Rightarrow> int list \<Rightarrow> int list \<Rightarrow> int list \<Rightarrow>
   int \<Rightarrow> int list \<times> int list \<Rightarrow> (int list \<times> int list) res" where
  "ComputePadsAndOutputShape a input_shape output_channel kernel_shape p_strides p_dilations
     p_output_padding N st =
     foldE (transpose_step a input_shape kernel_shape p_strides p_dilations p_output_padding)
       [0..<length input_shape] (fst st, [N, output_channel] @ snd st)"

text \<open>
  \<open>PrepareForCompute\<close> on the shapes of the operands \<open>X\<close> and \<open>F\<close> and, with dynamic
  padding, the elements of the tensor \<open>Pads\<close>. The tensors themselves (\<open>B\<close>, the
  allocation of \<open>Y\<close>) are only passed through.
\<close>

record conv_transpose_prepare =
  prep_N :: int
  num_input_channels :: int
  num_output_channels :: int
  prep_input_shape :: "int list"
  prep_kernel_shape :: "int list"
  prep_pads :: "int list"
  prep_dilations :: "int list"
  prep_strides :: "int list"
  prep_Y_dims :: "int list"

definition or_default :: "int list \<Rightarrow> nat \<Rightarrow> int \<Rightarrow> int list" where
  "or_default v n x = (if v = [] then replicate n x else v)"

definition PrepareForCompute ::
  "conv_transpose_attributes \<Rightarrow> int list \<Rightarrow> int list \<Rightarrow> int list option \<Rightarrow>
   conv_transpose_prepare res" where
  "PrepareForCompute a X F dynamic_pads =
     (let input_shape = drop 2 X in
      bindE (vget X 1) (\<lambda>nic.
      bindE (vget X 0) (\<lambda>N.
      bindE (vget F 1) (\<lambda>mult.
      let noc = mult * group a in
      if group a \<le> 0 then Inl (StatusErr INVALID_ARGUMENT)
      else if length X \<noteq> length F then Inl (StatusErr INVALID_ARGUMENT)
      else if F ! 0 \<noteq> nic then Inl (StatusErr INVALID_ARGUMENT)
      else bindE (cmod nic (group a)) (\<lambda>r.
        if r \<noteq> 0 then Inl (StatusErr INVALID_ARGUMENT)
        else bindE (ComputeKernelShape (conv_attributes.truncate a) F) (\<lambda>ks.
          let n = length ks;
              local_pads = or_default (case dynamic_pads of Some p \<Rightarrow> p | None \<Rightarrow> conv_pads a) (n * 2) 0;
              local_dilations = or_default (conv_dilations a) n 1;
              local_strides = or_default (conv_strides a) n 1
          in bindE (ComputePadsAndOutputShape a input_shape noc ks local_strides local_dilations
                      (or_default (output_padding a) n 0) N (local_pads, [])) (\<lambda>(pads', Y_dims).
             Inr \<lparr>prep_N = N, num_input_channels = nic, num_output_channels = noc,
                  prep_input_shape = input_shape, prep_kernel_shape = ks, prep_pads = pads',
                  prep_dilations = local_dilations, prep_strides = local_strides,
                  prep_Y_dims = Y_dims\<rparr>)))))))"

section \<open>The number of window positions\<close>

text \<open>
  A window of extent \<open>dkernel\<close> on an axis of padded length \<open>padded\<close> has the start positions
  \<open>0\<close>, \<open>stride\<close>, \<open>2 * stride\<close>, \dots\ that leave it inside.
\<close>

definition conv_windows :: "int \<Rightarrow> int \<Rightarrow> int \<Rightarrow> nat" where
  "conv_windows padded stride dkernel = card {k::nat. int k * stride + dkernel \<le> padded}"

lemma mult_le_iff_le_div: "1 \<le> (s::int) \<Longrightarrow> n * s \<le> x \<longleftrightarrow> n \<le> x div s"
proof
  assume s: "1 \<le> s"
  show "n \<le> x div s" if "n * s \<le> x"
    using zdiv_mono1 [OF that, of s] s by simp
  show "n * s \<le> x" if "n \<le> x div s"
  proof -
    have "n * s \<le> x div s * s" using that s by (intro mult_right_mono) simp_all
    also have "\<dots> \<le> x" using s by (simp add: minus_mod_eq_div_mult [symmetric])
    finally show ?thesis .
  qed
qed

lemma conv_windows_eq:
  assumes s: "1 \<le> stride"
  shows "conv_windows padded stride dkernel =
    (if dkernel \<le> padded then nat ((padded - dkernel) div stride + 1) else 0)"
proof (cases "dkernel \<le> padded")
  case True
  let ?q = "(padded - dkernel) div stride"
  have q0: "0 \<le> ?q" using True s by (simp add: pos_imp_zdiv_nonneg_iff)
  have "int k * stride + dkernel \<le> padded \<longleftrightarrow> int k \<le> ?q" for k
    unfolding mult_le_iff_le_div [OF s, symmetric] le_diff_eq ..
  moreover have "int k \<le> ?q \<longleftrightarrow> k \<le> nat ?q" for k using q0 by linarith
  ultimately have "{k::nat. int k * stride + dkernel \<le> padded} = {..nat ?q}"
    unfolding atMost_def by (simp only:)
  then show ?thesis using True q0 by (simp add: conv_windows_def nat_add_distrib)
next
  case False
  have "\<not> int k * stride + dkernel \<le> padded" for k
    using False s mult_nonneg_nonneg [of "int k" stride] by linarith
  then have "{k::nat. int k * stride + dkernel \<le> padded} = {}" by blast
  then show ?thesis using False by (simp add: conv_windows_def)
qed

text \<open>The range in which single precision is exact for a window computation.\<close>

definition window_range :: "int \<Rightarrow> int \<Rightarrow> bool" where
  "window_range x stride \<longleftrightarrow>
     1 \<le> stride \<and> stride \<le> 2 ^ 22 \<and> - (2 ^ 23) \<le> x \<and> x + 2 * stride \<le> 2 ^ 23"

definition dkern :: "int \<Rightarrow> int \<Rightarrow> int" where
  "dkern dilation kern = dilation * (kern - 1) + 1"

lemma ComputeOutputShape_nonneg:
  assumes "window_range (i + ph + pt - dkern d k) s" "dkern d k \<le> i + ph + pt"
  shows "ComputeOutputShape i s k d ph pt = Inr ((i + ph + pt - dkern d k) div s + 1)"
  using assms window_floor [of s "i + ph + pt - dkern d k"]
  by (simp add: ComputeOutputShape_def window_range_def dkern_def Let_def)

lemma ComputeOutputShape_neg:
  assumes "window_range (i + ph + pt - dkern d k) s" "i + ph + pt < dkern d k"
  shows "\<exists>n \<le> 0. ComputeOutputShape i s k d ph pt = Inr n"
  using assms window_negative [of s "i + ph + pt - dkern d k"]
  by (simp add: ComputeOutputShape_def window_range_def dkern_def Let_def)

lemma ComputeOutputShape_windows:
  assumes "window_range (i + ph + pt - dkern d k) s"
  shows "\<exists>n. ComputeOutputShape i s k d ph pt = Inr n \<and>
    max 0 n = int (conv_windows (i + ph + pt) s (dkern d k))"
proof (cases "dkern d k \<le> i + ph + pt")
  case True
  have "1 \<le> s" using assms by (simp add: window_range_def)
  with True have "0 \<le> (i + ph + pt - dkern d k) div s" by (simp add: pos_imp_zdiv_nonneg_iff)
  then show ?thesis
    using ComputeOutputShape_nonneg [OF assms True] conv_windows_eq [OF \<open>1 \<le> s\<close>] True by simp
next
  case False
  have "1 \<le> s" using assms by (simp add: window_range_def)
  then show ?thesis
    using ComputeOutputShape_neg [OF assms] conv_windows_eq [of s "i + ph + pt" "dkern d k"] False by auto
qed

section \<open>Automatic padding\<close>

lemma ceil_div:
  assumes "1 \<le> (s::int)" "1 \<le> i"
  shows "(i + s - 1) div s * s < i + s" "i \<le> (i + s - 1) div s * s" "1 \<le> (i + s - 1) div s"
proof -
  have m: "(i + s - 1) div s * s = (i + s - 1) - (i + s - 1) mod s" by (simp add: minus_mod_eq_div_mult)
  have "0 \<le> (i + s - 1) mod s" "(i + s - 1) mod s < s" using assms by simp_all
  then show "(i + s - 1) div s * s < i + s" "i \<le> (i + s - 1) div s * s" unfolding m by linarith+
  show "1 \<le> (i + s - 1) div s" using mult_le_iff_le_div [OF assms(1), of 1 "i + s - 1"] assms(2) by simp
qed

lemma sdiv_nonneg [simp]: "0 \<le> (a::int) \<Longrightarrow> 0 \<le> b \<Longrightarrow> a sdiv b = a div b"
  by (simp add: signed_divide_int_def sgn_if zero_less_mult_iff)

lemma same_pad_value:
  assumes "1 \<le> s" "1 \<le> i" "same = SAME_UPPER \<or> same = SAME_LOWER"
  shows "\<exists>h. ComputePad i s k 1 same False pads =
      Inr (h, ((i + s - 1) div s - 1) * s + k - i - h) \<and>
    (s \<le> k \<longrightarrow> (let p = ((i + s - 1) div s - 1) * s + k - i in
       0 \<le> h \<and> 0 \<le> p - h \<and> (if same = SAME_UPPER then h \<le> p - h \<and> p - h \<le> h + 1
                                else p - h \<le> h \<and> h \<le> p - h + 1)))"
proof -
  define p where "p = ((i + s - 1) div s - 1) * s + k - i"
  define h where "h = (if same = SAME_LOWER then (p + 1) sdiv 2 else p sdiv 2)"
  have cd: "cdiv (i + s - 1) s = Inr ((i + s - 1) div s)" using assms by (simp add: cdiv_def)
  have run: "ComputePad i s k 1 same False pads = Inr (h, p - h)"
    using assms(3) by (auto simp: ComputePad_def cd p_def h_def Let_def)
  have "0 \<le> p" if "s \<le> k" using ceil_div [OF assms(1,2)] that by (simp add: p_def left_diff_distrib)
  then have "s \<le> k \<longrightarrow> 0 \<le> h \<and> 0 \<le> p - h \<and> (if same = SAME_UPPER then h \<le> p - h \<and> p - h \<le> h + 1
        else p - h \<le> h \<and> h \<le> p - h + 1)"
    using assms(3) by (auto simp: h_def)
  with run show ?thesis by (auto simp: p_def Let_def)
qed

lemma same_output:
  assumes "1 \<le> s" "s \<le> 2 ^ 22" "1 \<le> i" "i + 3 * s \<le> 2 ^ 23"
    and pad: "ComputePad i s k 1 same False pads = Inr (h, t)"
    and t: "h + t = ((i + s - 1) div s - 1) * s + k - i"
  shows "ComputeOutputShape i s k 1 h t = Inr ((i + s - 1) div s)"
proof -
  let ?c = "(i + s - 1) div s"
  have x: "i + h + t - dkern 1 k = (?c - 1) * s" using t by (simp add: dkern_def)
  have "(?c - 1) * s < i + s" "0 \<le> (?c - 1) * s"
    using ceil_div [OF assms(1,3)] assms(1) by (simp_all add: left_diff_distrib)
  then have wr: "window_range (i + h + t - dkern 1 k) s" "dkern 1 k \<le> i + h + t"
    using assms x by (simp_all add: window_range_def)
  show ?thesis unfolding ComputeOutputShape_nonneg [OF wr] x using assms(1) by simp
qed


section \<open>Over-padding\<close>

lemma overpad_result:
  assumes "1 \<le> s"
  shows "\<exists>n \<ge> 0. overpad t s h e = Some (h + n * s, e + n) \<and> t \<le> h + n * s \<and>
    (h < t \<longrightarrow> h + n * s < t + s \<and> 1 \<le> n)"
proof (induction "nat (t - h)" arbitrary: h e rule: less_induct)
  case less
  show ?case
  proof (cases "h < t")
    case False
    then have "overpad t s h e = Some (h + 0 * s, e + 0)" by (subst overpad.simps) simp
    with False show ?thesis by force
  next
    case True
    have "nat (t - (h + s)) < nat (t - h)" using True assms by simp
    from less.hyps [OF this, of "e + 1"] obtain n where n: "0 \<le> n"
      "overpad t s (h + s) (e + 1) = Some (h + s + n * s, e + 1 + n)" "t \<le> h + s + n * s"
      "h + s < t \<longrightarrow> h + s + n * s < t + s \<and> 1 \<le> n" by blast
    have up: "h + s + n * s < t + s"
    proof (cases "h + s < t")
      case True
      with n(4) show ?thesis by simp
    next
      case False
      then have "overpad t s (h + s) (e + 1) = Some (h + s, e + 1)" by (subst overpad.simps) simp
      with n(2) have "h + s = h + s + n * s" by (simp only: option.inject prod.inject)
      with \<open>h < t\<close> show ?thesis by linarith
    qed
    have "overpad t s h e = Some (h + (n + 1) * s, e + (n + 1))"
      using True n(2) by (subst overpad.simps) (simp add: algebra_simps)
    moreover have "h + (n + 1) * s = h + s + n * s" by (simp add: algebra_simps)
    ultimately show ?thesis using n(1,3) up by (intro exI [of _ "n + 1"]) simp
  qed
qed

text \<open>The part of the enlarged output that a slice keeps; a negative end counts from the back.\<close>

definition kept_range :: "int \<Rightarrow> (int \<times> int) option \<Rightarrow> int \<times> int" where
  "kept_range n sl = (case sl of None \<Rightarrow> (0, n)
     | Some (b, e) \<Rightarrow> (b, if e < 0 then n + e else e))"

text \<open>
  What the adjustment of an axis promises: symmetric pads, the output size that belongs to
  them, and a kept range inside that output which has the size of the original output and
  whose first window starts where the first window with the original pads starts.
\<close>

definition adjusts ::
  "int \<Rightarrow> int \<Rightarrow> int \<Rightarrow> int \<Rightarrow> int \<Rightarrow> int \<Rightarrow> int \<times> int \<times> int \<times> (int \<times> int) option \<Rightarrow> bool" where
  "adjusts i s k d ph out res \<longleftrightarrow>
     (case res of (h, t, rv, sl) \<Rightarrow>
        (case kept_range rv sl of (b, e) \<Rightarrow>
           h = t \<and> ComputeOutputShape i s k d h t = Inr rv \<and>
           0 \<le> b \<and> e \<le> rv \<and> e - b = out \<and> h = ph + b * s))"

lemma adjust_dim_ok:
  assumes r: "window_range (i + ph + pt - dkern d k) s"
    and r': "i + 2 * max ph pt + 4 * s - dkern d k \<le> 2 ^ 23"
    and out: "ComputeOutputShape i s k d ph pt = Inr out" "1 \<le> out"
  shows "\<exists>res. adjust_dim i s k d out (ph, pt) = Inr res \<and> adjusts i s k d ph out res"
proof -
  let ?x = "i + ph + pt - dkern d k"
  have s: "1 \<le> s" using r by (simp add: window_range_def)
  have x0: "dkern d k \<le> i + ph + pt"
    using ComputeOutputShape_neg [OF r] out by (cases "dkern d k \<le> i + ph + pt") auto
  have out': "out = ?x div s + 1" using ComputeOutputShape_nonneg [OF r x0] out by simp
  have more: "ComputeOutputShape i s k d h t = Inr ((i + h + t - dkern d k) div s + 1)"
    if "ph + pt \<le> h + t" "h + t < 2 * max ph pt + 2 * s" for h t
  proof (rule ComputeOutputShape_nonneg)
    show "dkern d k \<le> i + h + t" using that x0 by simp
    show "window_range (i + h + t - dkern d k) s" using r r' that x0 by (simp add: window_range_def)
  qed
  consider "ph = pt" | "ph < pt" | "pt < ph" by linarith
  then show ?thesis
  proof cases
    case 1
    then show ?thesis using out by (simp add: adjust_dim_def adjusts_def kept_range_def)
  next
    case 2
    obtain n where n: "0 \<le> n" "overpad pt s ph 0 = Some (ph + n * s, n)" "pt \<le> ph + n * s"
      "ph + n * s < pt + s" using overpad_result [OF s, of pt ph 0] 2 by auto
    let ?h = "ph + n * s"
    have shift: "(i + ?h + t - dkern d k) div s = n + (i + ph + t - dkern d k) div s" for t
      using div_mult_self3 [of s n "i + ph + t - dkern d k"] s by (simp add: algebra_simps)
    show ?thesis
    proof (cases "pt < ?h")
      case True
      have rv: "ComputeOutputShape i s k d ?h ?h = Inr ((i + ?h + ?h - dkern d k) div s + 1)"
        by (rule more) (use n 2 True in auto)
      have "?x div s \<le> (i + ph + ?h - dkern d k) div s" using s n(3) by (intro zdiv_mono1) simp_all
      then have le: "n + out \<le> (i + ?h + ?h - dkern d k) div s + 1" unfolding shift out' by simp
      have "adjust_dim i s k d out (ph, pt) =
          Inr (?h, ?h, (i + ?h + ?h - dkern d k) div s + 1, Some (n, n + out))"
        using 2 n(2) True rv by (simp add: adjust_dim_def)
      then show ?thesis using rv le n(1) out(2) by (simp add: adjusts_def kept_range_def)
    next
      case False
      then have h: "?h = pt" using n(3) by simp
      have "adjust_dim i s k d out (ph, pt) = Inr (?h, pt, n + out, Some (n, n + out))"
        using 2 n(2) False by (simp add: adjust_dim_def)
      moreover have "ComputeOutputShape i s k d ?h pt = Inr (n + out)"
        using more [of ?h pt] n 2 s unfolding shift out' by simp
      ultimately show ?thesis using h n(1) out(2) by (simp add: adjusts_def kept_range_def)
    qed
  next
    case 3
    have rv: "ComputeOutputShape i s k d ph ph = Inr ((i + ph + ph - dkern d k) div s + 1)"
      by (rule more) (use 3 s in auto)
    let ?rv = "(i + ph + ph - dkern d k) div s + 1"
    have le: "out \<le> ?rv" unfolding out' using s 3 by (intro add_right_mono zdiv_mono1) simp_all
    have "adjust_dim i s k d out (ph, pt) =
        Inr (ph, ph, ?rv, if ?rv \<noteq> out then Some (0, out - ?rv) else None)"
      using 3 rv by (simp add: adjust_dim_def)
    then show ?thesis using rv le by (simp add: adjusts_def kept_range_def)
  qed
qed


section \<open>All axes\<close>

definition slice_of :: "adjusted \<Rightarrow> nat \<Rightarrow> (int \<times> int) option" where
  "slice_of st i =
     map_of (zip (slice_axes st) (zip (slice_starts st) (slice_ends st))) (int i + 2)"

definition axis_ok :: "int list \<Rightarrow> int list \<Rightarrow> int list \<Rightarrow> int list \<Rightarrow> int list \<Rightarrow> nat \<Rightarrow> bool" where
  "axis_ok ins strides ks ds pads i \<longleftrightarrow>
     (let x = ins ! i - dkern (ds ! i) (ks ! i); h = pads ! i; t = pads ! (length ins + i); s = strides ! i in
      window_range (x + h + t) s \<and> x + 2 * max h t + 4 * s \<le> 2 ^ 23)"

definition axis_windows :: "int list \<Rightarrow> int list \<Rightarrow> int list \<Rightarrow> int list \<Rightarrow> int list \<Rightarrow> nat \<Rightarrow> nat" where
  "axis_windows ins strides ks ds pads i =
     conv_windows (ins ! i + pads ! i + pads ! (length ins + i)) (strides ! i) (dkern (ds ! i) (ks ! i))"

definition axis_done ::
  "int list \<Rightarrow> int list \<Rightarrow> int list \<Rightarrow> int list \<Rightarrow> int list \<Rightarrow> adjusted \<Rightarrow> nat \<Rightarrow> bool" where
  "axis_done ins strides ks ds pads st i \<longleftrightarrow>
     adj_output_shape st ! i = int (axis_windows ins strides ks ds pads i) \<and>
     1 \<le> adj_output_shape st ! i \<and>
     adjusts (ins ! i) (strides ! i) (ks ! i) (ds ! i) (pads ! i) (adj_output_shape st ! i)
       (adj_pads st ! i, adj_pads st ! (length ins + i), adj_revised_shape st ! i, slice_of st i)"

definition adj_inv ::
  "int list \<Rightarrow> int list \<Rightarrow> int list \<Rightarrow> int list \<Rightarrow> int list \<Rightarrow> nat \<Rightarrow> adjusted \<Rightarrow> bool" where
  "adj_inv ins strides ks ds pads n st \<longleftrightarrow>
     length (adj_pads st) = length pads \<and> length (adj_output_shape st) = n \<and>
     length (adj_revised_shape st) = n \<and> length (slice_starts st) = length (slice_axes st) \<and>
     length (slice_ends st) = length (slice_axes st) \<and> (\<forall>x \<in> set (slice_axes st). x < int n + 2) \<and>
     (\<forall>i < length ins. n \<le> i \<longrightarrow> adj_pads st ! i = pads ! i \<and>
        adj_pads st ! (length ins + i) = pads ! (length ins + i)) \<and>
     (\<forall>i < n. axis_done ins strides ks ds pads st i)"

lemma adjusted_step_inv:
  assumes np: "auto_pad a = NOTSET" and n: "n < length ins" and len: "2 * length ins \<le> length pads"
    and ok: "axis_ok ins strides ks ds pads n" and inv: "adj_inv ins strides ks ds pads n st"
  shows "if 1 \<le> axis_windows ins strides ks ds pads n
    then \<exists>st'. adjusted_step a ins ks strides ds n st = Inr st' \<and>
           adj_inv ins strides ks ds pads (Suc n) st'
    else adjusted_step a ins ks strides ds n st = Inl (StatusErr INVALID_ARGUMENT)"
proof -
  let ?i = "ins ! n" and ?s = "strides ! n" and ?k = "ks ! n" and ?d = "ds ! n"
  let ?h = "pads ! n" and ?t = "pads ! (length ins + n)"
  have pads: "adj_pads st ! n = ?h" "adj_pads st ! (length ins + n) = ?t"
    using inv n by (auto simp: adj_inv_def)
  have r: "window_range (?i + ?h + ?t - dkern ?d ?k) ?s"
    "?i + 2 * max ?h ?t + 4 * ?s - dkern ?d ?k \<le> 2 ^ 23"
    using ok by (auto simp: axis_ok_def Let_def algebra_simps)
  obtain out where out: "ComputeOutputShape ?i ?s ?k ?d ?h ?t = Inr out"
    "max 0 out = int (axis_windows ins strides ks ds pads n)"
    using ComputeOutputShape_windows [OF r(1)] by (auto simp: axis_windows_def)
  have cp: "ComputePadAndOutputShape ?i ?s ?k ?d NOTSET False (?h, ?t) = Inr (?h, ?t, out)"
    by (simp add: ComputePadAndOutputShape_def ComputePad_def out)
  show ?thesis
  proof (cases "1 \<le> axis_windows ins strides ks ds pads n")
    case False
    then have "out \<le> 0" using out(2) by simp
    then show ?thesis using False by (simp add: adjusted_step_def Let_def np pads cp)
  next
    case True
    then have o1: "1 \<le> out" "out = int (axis_windows ins strides ks ds pads n)" using out(2) by auto
    obtain h t rv sl where res: "adjust_dim ?i ?s ?k ?d out (?h, ?t) = Inr (h, t, rv, sl)"
      and adj: "adjusts ?i ?s ?k ?d ?h out (h, t, rv, sl)"
      using adjust_dim_ok [OF r out(1) o1(1)] by auto
    define st1 where "st1 = st\<lparr>adj_pads := (adj_pads st)[n := h, length ins + n := t],
       adj_output_shape := adj_output_shape st @ [out], adj_revised_shape := adj_revised_shape st @ [rv]\<rparr>"
    define st' where "st' = (case sl of None \<Rightarrow> st1 | Some (b, e) \<Rightarrow>
       st1\<lparr>post_slicing_needed := True, slice_axes := slice_axes st @ [int n + 2],
           slice_starts := slice_starts st @ [b], slice_ends := slice_ends st @ [e]\<rparr>)"
    have run: "adjusted_step a ins ks strides ds n st = Inr st'"
      using o1(1)
      by (cases sl) (auto simp: adjusted_step_def Let_def np pads cp res st'_def st1_def)
    have f: "adj_pads st' = (adj_pads st)[n := h, length ins + n := t]"
      "adj_output_shape st' = adj_output_shape st @ [out]"
      "adj_revised_shape st' = adj_revised_shape st @ [rv]"
      by (simp_all add: st'_def st1_def split: option.split)
    have lens: "length (adj_pads st) = length pads" "length (adj_output_shape st) = n"
      "length (adj_revised_shape st) = n" "length (slice_starts st) = length (slice_axes st)"
      "length (slice_ends st) = length (slice_axes st)"
      using inv by (auto simp: adj_inv_def)
    have fresh: "map_of (zip (slice_axes st) (zip (slice_starts st) (slice_ends st))) (int n + 2) = None"
    proof -
      have "int n + 2 \<notin> set (slice_axes st)" using inv by (auto simp: adj_inv_def)
      then show ?thesis using lens by simp
    qed
    have sl_n: "slice_of st' n = sl"
      using lens by (cases sl)
        (simp_all add: slice_of_def st'_def st1_def map_add_def fresh case_prod_unfold)
    have sl_i: "slice_of st' i = slice_of st i" if "i < n" for i
    proof -
      have ne: "int i + 2 \<noteq> int n + 2" using that by simp
      have flip: "(None = x) = (x = None)" for x :: "(int \<times> int) option" by auto
      show ?thesis using lens ne
        by (cases sl) (simp_all add: slice_of_def st'_def st1_def map_add_def case_prod_unfold flip
            split: option.split)
    qed
    have ps: "adj_pads st' ! n = h" "adj_pads st' ! (length ins + n) = t"
      using lens n len by (auto simp: f nth_list_update)
    have ps': "adj_pads st' ! i = adj_pads st ! i"
      "adj_pads st' ! (length ins + i) = adj_pads st ! (length ins + i)" if "i \<noteq> n" "i < length ins" for i
      using that lens n by (auto simp: f nth_list_update)
    have done_n: "axis_done ins strides ks ds pads st' n"
      using adj o1 sl_n lens by (simp add: axis_done_def ps f(2,3) nth_append)
    have done_i: "axis_done ins strides ks ds pads st' i" if "i < n" for i
    proof -
      have "axis_done ins strides ks ds pads st i" using inv that by (simp add: adj_inv_def)
      then show ?thesis using that sl_i [OF that] lens n
        by (auto simp: axis_done_def ps' f(2,3) nth_append)
    qed
    have "length (slice_starts st') = length (slice_axes st')"
      "length (slice_ends st') = length (slice_axes st')"
      "\<forall>x \<in> set (slice_axes st'). x < int (Suc n) + 2"
      using inv by (auto simp: adj_inv_def st'_def st1_def split: option.split)
    then have "adj_inv ins strides ks ds pads (Suc n) st'"
      using inv done_n done_i ps' lens unfolding adj_inv_def
      by (auto simp: less_Suc_eq f)
    with run True show ?thesis by simp
  qed
qed

text \<open>
  C22. Making asymmetric pads symmetric: for explicit pads in the range where single precision is
  exact, the routine succeeds iff every axis has at least one window position (otherwise
  INVALID_ARGUMENT). On success the output shape counts the window positions of the given
  pads; the new pads are symmetric, the revised shape is the output shape with them, and
  the recorded slice keeps exactly as many positions as the original output has, starting
  at the position that coincides with the original first window.
\<close>

theorem conv_adjusted_pads:
  assumes np: "auto_pad a = NOTSET" and len: "2 * length ins \<le> length pads"
    "length ins \<le> length strides" "length ins \<le> length ks" "length ins \<le> length ds"
    and ok: "\<forall>i < length ins. axis_ok ins strides ks ds pads i"
  defines "st0 \<equiv> \<lparr>adj_pads = pads, adj_output_shape = [], adj_revised_shape = [],
     post_slicing_needed = False, slice_starts = [], slice_ends = [], slice_axes = []\<rparr>"
  shows "if \<forall>i < length ins. 1 \<le> axis_windows ins strides ks ds pads i
    then \<exists>st. InferOutputShapeWithAdjustedPads a ins ks strides ds st0 = Inr st \<and>
           (\<forall>i < length ins. axis_done ins strides ks ds pads st i)
    else InferOutputShapeWithAdjustedPads a ins ks strides ds st0 = Inl (StatusErr INVALID_ARGUMENT)"
proof -
  let ?step = "adjusted_step a ins ks strides ds" and ?P = "adj_inv ins strides ks ds pads"
  have run: "InferOutputShapeWithAdjustedPads a ins ks strides ds st0 =
      foldE ?step [0..<length ins] st0"
    using len by (simp add: InferOutputShapeWithAdjustedPads_def check_sizes_def st0_def)
  have init: "?P 0 st0" by (simp add: adj_inv_def st0_def)
  have step: "if 1 \<le> axis_windows ins strides ks ds pads i
      then \<exists>t'. ?step i t = Inr t' \<and> ?P (Suc i) t'
      else ?step i t = Inl (StatusErr INVALID_ARGUMENT)" if "i < length ins" "?P i t" for i t
    using adjusted_step_inv [OF np that(1) len(1) _ that(2)] ok that(1) by blast
  have keep: "?P (Suc i) t'" if "i < length ins" "?P i t" "?step i t = Inr t'" for i t t'
    using step [OF that(1,2)] that(3) by (auto split: if_splits)
  show ?thesis
  proof (cases "\<forall>i < length ins. 1 \<le> axis_windows ins strides ks ds pads i")
    case True
    have "\<exists>st. foldE ?step [0..<length ins] st0 = Inr st \<and> ?P (length ins) st"
    proof (rule foldE_upt_total [where P = ?P, OF init])
      fix i t assume i: "i < length ins" "?P i t"
      with step [OF i] True show "\<exists>t'. ?step i t = Inr t' \<and> ?P (Suc i) t'" by simp
    qed
    then show ?thesis unfolding if_P [OF True] run by (auto simp: adj_inv_def)
  next
    case False
    show ?thesis
    proof (cases "foldE ?step [0..<length ins] st0")
      case (Inr st)
      have "?P (length ins) st" by (rule foldE_upt_partial [where P = ?P, OF Inr init]) (rule keep)
      then have "\<forall>i < length ins. 1 \<le> axis_windows ins strides ks ds pads i"
        by (auto simp: adj_inv_def axis_done_def)
      with False show ?thesis by blast
    next
      case (Inl e)
      have "\<exists>i t. i < length ins \<and> ?P i t \<and> ?step i t = Inl e"
        by (rule foldE_upt_Inl [where P = ?P, OF Inl init]) (rule keep)
      then have "e = StatusErr INVALID_ARGUMENT" using step by (fastforce split: if_splits)
      then show ?thesis unfolding if_not_P [OF False] run Inl by simp
    qed
  qed
qed


text \<open>
  With explicit pads \<open>InferOutputShape\<close> leaves the pads alone and returns, for every axis, the
  number of window positions that fit into the padded axis, although it computes it in
  single precision; an axis without a position gives INVALID_ARGUMENT.
\<close>

theorem conv_infer_shape:
  assumes np: "auto_pad a = NOTSET" and len: "2 * length ins \<le> length pads"
    "length ins \<le> length strides" "length ins \<le> length ks" "length ins \<le> length ds"
    and ok: "\<forall>i < length ins. window_range (ins ! i + pads ! i + pads ! (length ins + i)
      - dkern (ds ! i) (ks ! i)) (strides ! i)"
  shows "InferOutputShape a ins ks strides ds force (pads, []) =
    (if \<forall>i < length ins. 1 \<le> axis_windows ins strides ks ds pads i
     then Inr (pads, map (\<lambda>i. int (axis_windows ins strides ks ds pads i)) [0..<length ins])
     else Inl (StatusErr INVALID_ARGUMENT))"
proof -
  let ?w = "axis_windows ins strides ks ds pads"
  define step where "step = (\<lambda>dm (pads, output_shape).
          bindE (vat pads dm) (\<lambda>ph.
          bindE (vat pads (length ins + dm)) (\<lambda>pt.
          bindE (ComputePadAndOutputShape (ins ! dm) (strides ! dm)
                   (ks ! dm) (ds ! dm) (auto_pad a) force (ph, pt))
            (\<lambda>(ph', pt', out).
          if out \<le> 0 then Inl (StatusErr INVALID_ARGUMENT)
          else Inr (pads[dm := ph', length ins + dm := pt'], output_shape @ [out])))))"
  have run: "InferOutputShape a ins ks strides ds force (pads, []) = foldE step [0..<length ins] (pads, [])"
    using len by (simp add: InferOutputShape_def check_sizes_def Let_def step_def)
  have st: "step i (pads, os) = (if 1 \<le> ?w i then Inr (pads, os @ [int (?w i)])
      else Inl (StatusErr INVALID_ARGUMENT))" if "i < length ins" for i os
  proof -
    have wr: "window_range (ins ! i + pads ! i + pads ! (length ins + i) - dkern (ds ! i) (ks ! i)) (strides ! i)"
      using ok that by blast
    obtain out where out: "ComputeOutputShape (ins ! i) (strides ! i) (ks ! i) (ds ! i) (pads ! i)
        (pads ! (length ins + i)) = Inr out" "max 0 out = int (?w i)"
      using ComputeOutputShape_windows [OF wr] unfolding axis_windows_def by blast
    have idx: "i < length pads" "length ins + i < length pads" using that len(1) by simp_all
    show ?thesis using out idx
      by (auto simp: step_def np ComputePadAndOutputShape_def ComputePad_def)
  qed
  have "foldE step [0..<n] (pads, []) = (if \<forall>i < n. 1 \<le> ?w i
      then Inr (pads, map (\<lambda>i. int (?w i)) [0..<n]) else Inl (StatusErr INVALID_ARGUMENT))"
    if "n \<le> length ins" for n
    using that
  proof (induction n)
    case (Suc n)
    then show ?case using st [of n] by (auto simp: foldE_append less_Suc_eq)
  qed simp
  then show ?thesis unfolding run by simp
qed

text \<open>
  SAME padding gives an output of \<open>in / stride\<close> rounded up, for every kernel. When the kernel
  is at least as large as the stride, both pads are non-negative, differ by at most one,
  and the larger one is the tail for SAME_UPPER and the head for SAME_LOWER.
\<close>

theorem same_padding:
  assumes "1 \<le> s" "s \<le> 2 ^ 22" "1 \<le> i" "i + 3 * s \<le> 2 ^ 23"
    and "same = SAME_UPPER \<or> same = SAME_LOWER"
  shows "\<exists>h t. ComputePadAndOutputShape i s k 1 same False pads = Inr (h, t, (i + s - 1) div s) \<and>
    (s \<le> k \<longrightarrow> 0 \<le> h \<and> 0 \<le> t \<and>
       (if same = SAME_UPPER then h \<le> t \<and> t \<le> h + 1 else t \<le> h \<and> h \<le> t + 1))"
proof -
  let ?p = "((i + s - 1) div s - 1) * s + k - i"
  obtain h where h: "ComputePad i s k 1 same False pads = Inr (h, ?p - h)"
    and sym: "s \<le> k \<longrightarrow> 0 \<le> h \<and> 0 \<le> ?p - h \<and> (if same = SAME_UPPER then h \<le> ?p - h \<and> ?p - h \<le> h + 1
        else ?p - h \<le> h \<and> h \<le> ?p - h + 1)"
    using same_pad_value [OF assms(1,3,5), of k pads] unfolding Let_def by blast
  have "ComputeOutputShape i s k 1 h (?p - h) = Inr ((i + s - 1) div s)"
    by (rule same_output [OF assms(1-4) h]) simp
  then have "ComputePadAndOutputShape i s k 1 same False pads = Inr (h, ?p - h, (i + s - 1) div s)"
    by (simp add: ComputePadAndOutputShape_def h)
  with sym show ?thesis by blast
qed

text \<open>With a kernel smaller than the stride the padding can be negative.\<close>

lemma same_padding_negative: "ComputePad 5 3 1 1 SAME_UPPER False (0, 0) = Inr (0, - 1)"
  by (simp add: ComputePad_def cdiv_def signed_divide_int_def)

text \<open>Outside the range the single-precision result is too small.\<close>

lemma ComputeOutputShape_rounds: "ComputeOutputShape 16777217 1 1 1 0 0 = Inr 16777216"
  by code_simp

section \<open>Transposed convolution\<close>

text \<open>
  A transposed convolution undoes the shape of a convolution: whatever way the pads were
  chosen (explicit pads, SAME, or an explicit output size that the full size covers), a
  convolution with these pads on the computed output size has the original input size.
\<close>

theorem conv_transpose_roundtrip:
  assumes run: "ComputeTransposePadAndOutputShape i s k d adj pad_type pads out_size = Inr (h, t, out)"
    and i: "1 \<le> i" and adj: "0 \<le> adj" "adj < s" and s: "s \<le> 2 ^ 22"
    and fits: "out_size \<le> (i - 1) * s + adj + dkern d k" and small: "(i - 1) * s + adj + 2 * s \<le> 2 ^ 23"
  shows "ComputeOutputShape out s k d h t = Inr i"
proof -
  have s1: "1 \<le> s" using adj by simp
  have dp: "fst (DistributePadding p tot) + snd (DistributePadding p tot) = tot" for p tot
    by (simp add: DistributePadding_def)
  have x: "out + h + t - dkern d k = (i - 1) * s + adj"
  proof (cases "out_size = -1")
    case False
    define tot where "tot = ComputeTotalPad i s adj k d out_size"
    have ht: "(h, t) = DistributePadding pad_type tot" "out = out_size" using run False
      by (auto simp: ComputeTransposePadAndOutputShape_def tot_def bindE_Inr_iff split: prod.splits)
    have "h + t = tot" using dp [of pad_type tot] unfolding ht(1) [symmetric] by simp
    moreover have "tot = (i - 1) * s + adj + dkern d k - out_size"
      using fits by (simp add: tot_def ComputeTotalPad_def dkern_def algebra_simps)
    ultimately show ?thesis using ht(2) by simp
  next
    case True
    then show ?thesis using run
      by (auto simp: ComputeTransposePadAndOutputShape_def dkern_def algebra_simps split: prod.splits if_splits)
  qed
  have "0 \<le> (i - 1) * s" using i s1 by simp
  then have r: "window_range (out + h + t - dkern d k) s" "dkern d k \<le> out + h + t"
    using small s s1 adj x by (simp_all add: window_range_def)
  have "((i - 1) * s + adj) div s = i - 1 + adj div s"
    using s1 by (intro div_mult_self3) simp
  then have "((i - 1) * s + adj) div s + 1 = i" using adj by simp
  then show ?thesis using ComputeOutputShape_nonneg [OF r] x by simp
qed


section \<open>Concrete inputs\<close>

definition plain_conv :: conv_attributes where
  "plain_conv = \<lparr>auto_pad = NOTSET, group = 1, kernel_shape_specified = True, conv_strides = [],
     conv_pads = [], conv_dilations = [], conv_kernel_shape = []\<rparr>"

lemma plain_conv_NOTSET: "auto_pad plain_conv = NOTSET"
  by (simp add: plain_conv_def)

lemma two_axes: "(\<forall>i < length [x, y]. P i) \<longleftrightarrow> P 0 \<and> P (1::nat)"
  by (auto simp: less_Suc_eq)

theorem conv_infer_shape_witness:
  "InferOutputShape plain_conv [5, 6] [3, 3] [2, 1] [1, 1] False ([0, 0, 1, 2], []) =
     Inr ([0, 0, 1, 2], [2, 6])"
  using conv_infer_shape [OF plain_conv_NOTSET, where ins = "[5, 6]" and strides = "[2, 1]"
      and ks = "[3, 3]" and ds = "[1, 1]" and pads = "[0, 0, 1, 2]" and force = False]
  unfolding two_axes
  by (simp add: window_range_def dkern_def axis_windows_def conv_windows_eq)

lemma axis_done_symmetric:
  "axis_done ins strides ks ds pads st i \<Longrightarrow> adj_pads st ! i = adj_pads st ! (length ins + i)"
  by (auto simp: axis_done_def adjusts_def split: prod.splits)

theorem conv_adjusted_pads_witness:
  "\<exists>st. InferOutputShapeWithAdjustedPads plain_conv [5, 6] [3, 3] [2, 1] [1, 1]
     \<lparr>adj_pads = [0, 0, 1, 2], adj_output_shape = [], adj_revised_shape = [],
      post_slicing_needed = False, slice_starts = [], slice_ends = [], slice_axes = []\<rparr> = Inr st \<and>
     (\<forall>i < 2. adj_pads st ! i = adj_pads st ! (2 + i))"
proof -
  let ?ins = "[5, 6]" and ?strides = "[2, 1]" and ?ks = "[3, 3]" and ?ds = "[1, 1]"
    and ?pads = "[0, 0, 1, 2] :: int list"
  have ok: "\<forall>i < length ?ins. axis_ok ?ins ?strides ?ks ?ds ?pads i"
    unfolding two_axes by (simp add: axis_ok_def window_range_def dkern_def)
  have w: "\<forall>i < length ?ins. 1 \<le> axis_windows ?ins ?strides ?ks ?ds ?pads i"
    unfolding two_axes by (simp add: axis_windows_def conv_windows_eq dkern_def)
  have "\<exists>st. InferOutputShapeWithAdjustedPads plain_conv ?ins ?ks ?strides ?ds
     \<lparr>adj_pads = ?pads, adj_output_shape = [], adj_revised_shape = [],
      post_slicing_needed = False, slice_starts = [], slice_ends = [], slice_axes = []\<rparr> = Inr st \<and>
     (\<forall>i < length ?ins. axis_done ?ins ?strides ?ks ?ds ?pads st i)"
    using conv_adjusted_pads [OF plain_conv_NOTSET _ _ _ _ ok] unfolding if_P [OF w] by simp
  then show ?thesis using axis_done_symmetric [of ?ins ?strides ?ks ?ds ?pads] by fastforce
qed

theorem same_padding_witness:
  "\<exists>h t. ComputePadAndOutputShape 7 2 3 1 SAME_UPPER False (0, 0) = Inr (h, t, 4) \<and> h \<le> t"
  using same_padding [of 2 7 SAME_UPPER 3 "(0, 0)"] by auto

theorem conv_transpose_roundtrip_witness:
  "ComputeOutputShape 9 2 3 1 1 1 = Inr 5"
  using conv_transpose_roundtrip [of 5 2 3 1 0 NOTSET "(1, 1)" "- 1" 1 1 9]
  by (simp add: ComputeTransposePadAndOutputShape_def dkern_def)

end
