(* ===== verification/Pool.thy ===== *)
theory Pool
  imports ConvShape
begin

text \<open>
  \<open>PoolAttributes\<close> of onnxruntime/core/providers/cpu/nn/pool_attributes.h: the attributes of
  the pooling kernels and their output sizes. The record holds the members; those the
  constructor leaves uninitialised for a global pooling operator (they are not read then)
  have a fixed value here. \<open>TensorShape::Size\<close> is only declared in the sources and is the
  parameter \<open>shape_size\<close>. The \<open>static_cast<int>\<close> of a dimension keeps its lower 32 bits.
\<close>

record pool_attributes =
  global_pooling :: bool
  count_include_pad :: bool
  storage_order :: int
  ceil_mode :: int
  pool_kernel_shape :: "int list"
  pool_pads :: "int list"
  pool_strides :: "int list"
  pool_dilations :: "int list"
  default_dilations :: bool
  pool_auto_pad :: auto_pad_type

definition IsGlobalPooling :: "string \<Rightarrow> bool" where
  "IsGlobalPooling op_name =
     (op_name = ''GlobalAveragePool'' \<or> op_name = ''GlobalMaxPool'' \<or> op_name = ''GlobalLpPool'')"

definition pool_default :: "bool \<Rightarrow> pool_attributes" where
  "pool_default global = \<lparr>global_pooling = global, count_include_pad = False, storage_order = 0,
     ceil_mode = 0, pool_kernel_shape = [], pool_pads = [], pool_strides = [], pool_dilations = [],
     default_dilations = False, pool_auto_pad = NOTSET\<rparr>"

definition required :: "'a option \<Rightarrow> 'a res" where
  "required r = (case r of None \<Rightarrow> Inl EnforceFailed | Some x \<Rightarrow> Inr x)"

text \<open>The check of one axis at the end of the constructor.\<close>

definition check_axis :: "int list \<Rightarrow> int list \<Rightarrow> nat \<Rightarrow> unit res" where
  "check_axis kernel_shape pads dm =
     bindE (enforce (kernel_shape ! dm > 0)) (\<lambda>_.
     bindE (vget pads dm) (\<lambda>ph.
     bindE (if ph < kernel_shape ! dm
            then bindE (vget pads (dm + length kernel_shape)) (\<lambda>pt. Inr (pt < kernel_shape ! dm))
            else Inr False) enforce))"

definition PoolAttributes_init :: "node_attrs \<Rightarrow> string \<Rightarrow> int \<Rightarrow> pool_attributes res" where
  "PoolAttributes_init info op_name start_version =
     (if IsGlobalPooling op_name then Inr (pool_default True)
      else
        bindE (required (attr_ints info ''kernel_shape'')) (\<lambda>ks.
        bindE (required (attr_string info ''auto_pad'')) (\<lambda>ap_str.
        bindE (StringToAutoPadType ap_str) (\<lambda>ap.
        let n = length ks;
            pads = or_default (ints_or_empty info ''pads'') (n * 2) 0;
            strides = or_default (ints_or_empty info ''strides'') n 1;
            ceil = (case attr_int info ''ceil_mode'' of None \<Rightarrow> 0 | Some c \<Rightarrow> c);
            dil0 = ints_or_empty info ''dilations'';
            dilations = or_default dil0 n 1;
            default_dil = (if dil0 = [] then True else list_all (\<lambda>i. i = 1) dil0)
        in
        bindE (if op_name = ''AveragePool''
               then bindE (required (attr_int info ''count_include_pad'')) (\<lambda>t. Inr (t \<noteq> 0))
               else Inr False) (\<lambda>cip.
        bindE (if op_name = ''MaxPool'' \<and> start_version \<ge> 8
               then required (attr_int info ''storage_order'') else Inr 0) (\<lambda>so.
        bindE (foldE (\<lambda>dm _. check_axis ks pads dm) [0..<n] ()) (\<lambda>_.
        bindE (enforce (length strides = n)) (\<lambda>_.
        bindE (enforce (length dilations = n)) (\<lambda>_.
        Inr \<lparr>global_pooling = False, count_include_pad = cip, storage_order = so,
             ceil_mode = ceil, pool_kernel_shape = ks, pool_pads = pads, pool_strides = strides,
             pool_dilations = dilations, default_dilations = default_dil,
             pool_auto_pad = ap\<rparr>)))))))))"

definition pool_ComputeOutputSize ::
  "pool_attributes \<Rightarrow> int \<Rightarrow> int \<Rightarrow> int \<Rightarrow> int \<Rightarrow> int \<Rightarrow> int res" where
  "pool_ComputeOutputSize a in_size stride kern pad_needed dilation =
     (let x = in_size + pad_needed - dilation * (kern - 1) - 1 in
      if ceil_mode a = 0 then bindE (window_quot x stride) float_to_int64
      else bindE (window_quot x stride) (\<lambda>q. float_to_int64 (of_int \<lceil>q\<rceil>)))"

definition same_pad_needed :: "int \<Rightarrow> int \<Rightarrow> int \<Rightarrow> int res" where
  "same_pad_needed in_size stride kern =
     bindE (cdiv (in_size + stride - 1) stride) (\<lambda>legacy_target_size.
     Inr ((legacy_target_size - 1) * stride + kern - in_size))"

definition ComputeSizePadDilations ::
  "pool_attributes \<Rightarrow> int \<Rightarrow> int \<Rightarrow> int \<Rightarrow> int \<times> int \<Rightarrow> int \<Rightarrow> (int \<times> int \<times> int) res" where
  "ComputeSizePadDilations a in_size stride kern pads dilation =
     (case pool_auto_pad a of
        VALID \<Rightarrow>
          bindE (pool_ComputeOutputSize a in_size stride kern 0 dilation) (\<lambda>out. Inr (0, 0, out))
      | SAME_LOWER \<Rightarrow>
          bindE (same_pad_needed in_size stride kern) (\<lambda>pad_needed.
          let pad_head = (pad_needed + 1) sdiv 2 in
          bindE (pool_ComputeOutputSize a in_size stride kern pad_needed dilation) (\<lambda>out.
          Inr (pad_head, pad_needed - pad_head, out)))
      | SAME_UPPER \<Rightarrow>
          bindE (same_pad_needed in_size stride kern) (\<lambda>pad_needed.
          let pad_head = pad_needed sdiv 2 in
          bindE (pool_ComputeOutputSize a in_size stride kern pad_needed dilation) (\<lambda>out.
          Inr (pad_head, pad_needed - pad_head, out)))
      | NOTSET \<Rightarrow>
          bindE (pool_ComputeOutputSize a in_size stride kern (fst pads + snd pads) dilation) (\<lambda>out.
          Inr (fst pads, snd pads, out)))"

definition to_int32 :: "int \<Rightarrow> int" where
  "to_int32 x = sint (word_of_int x :: 32 word)"

text \<open>One round of the loop over the axes.\<close>

definition pool_axis ::
  "pool_attributes \<Rightarrow> int list \<Rightarrow> nat \<Rightarrow> int list \<times> int list \<Rightarrow> (int list \<times> int list) res" where
  "pool_axis a input_dims dm st =
     (case st of (actual_pads, output_dims) \<Rightarrow>
      let last = length input_dims + dm - 2 in
      bindE (vget (pool_strides a) dm) (\<lambda>stride.
      bindE (vget (pool_kernel_shape a) dm) (\<lambda>kern.
      bindE (vat actual_pads dm) (\<lambda>ph.
      bindE (vat actual_pads last) (\<lambda>pt.
      bindE (vget (pool_dilations a) dm) (\<lambda>dilation.
      bindE (ComputeSizePadDilations a (to_int32 (input_dims ! (dm + 2))) stride kern (ph, pt) dilation)
        (\<lambda>(ph', pt', dim_size).
      Inr (actual_pads[dm := ph', last := pt'], output_dims @ [dim_size]))))))))"

definition InferOutputSize ::
  "pool_attributes \<Rightarrow> int list \<Rightarrow> int list \<times> int list \<Rightarrow> (int list \<times> int list) res" where
  "InferOutputSize a input_dims st =
     bindE (enforce (length input_dims \<ge> 2)) (\<lambda>_.
     if global_pooling a then Inr (fst st, replicate (length input_dims - 2) 1)
     else foldE (pool_axis a input_dims) [0..<length input_dims - 2] st)"

definition SetOutputSize ::
  "(int list \<Rightarrow> int) \<Rightarrow> pool_attributes \<Rightarrow> int list \<Rightarrow> int \<Rightarrow> int list \<Rightarrow> (int list \<times> int list) res" where
  "SetOutputSize shape_size a input_shape output_channel actual_pads =
     bindE (if shape_size input_shape > 0 then Inr True
            else bindE (vget input_shape 0) (\<lambda>n. Inr (n = 0))) (\<lambda>ok.
     bindE (enforce ok) (\<lambda>_.
     bindE (vget input_shape 0) (\<lambda>N.
     bindE (InferOutputSize a input_shape (actual_pads, [])) (\<lambda>(pads, output_dims).
     Inr (pads, [N, output_channel] @ output_dims)))))"

section \<open>Output sizes\<close>

text \<open>
  The number of positions of a pooling window: with \<open>ceil_mode\<close> a last window that starts
  inside and only partly fits counts too.
\<close>

definition pool_positions :: "int \<Rightarrow> int \<Rightarrow> int \<Rightarrow> int" where
  "pool_positions ceil x stride =
     (if ceil = 0 then x div stride + 1 else (x + stride - 1) div stride + 1)"

lemma pool_ComputeOutputSize_ok:
  assumes "1 \<le> s" "0 \<le> i + p - dkern d k" "i + p - dkern d k + 2 * s \<le> 2 ^ 23"
  shows "pool_ComputeOutputSize a i s k p d = Inr (pool_positions (ceil_mode a) (i + p - dkern d k) s)"
proof -
  have x: "i + p - d * (k - 1) - 1 = i + p - dkern d k" by (simp add: dkern_def)
  show ?thesis unfolding pool_ComputeOutputSize_def Let_def x
    using window_floor [OF assms] window_ceiling [OF assms] by (simp add: pool_positions_def)
qed

lemma same_pad_needed_ok:
  "1 \<le> s \<Longrightarrow> 1 \<le> i \<Longrightarrow> same_pad_needed i s k = Inr (((i + s - 1) div s - 1) * s + k - i)"
  by (simp add: same_pad_needed_def cdiv_def)

text \<open>The total padding of an axis in each mode.\<close>

definition total_pad :: "auto_pad_type \<Rightarrow> int \<Rightarrow> int \<Rightarrow> int \<Rightarrow> int \<times> int \<Rightarrow> int" where
  "total_pad mode i s k pads =
     (case mode of NOTSET \<Rightarrow> fst pads + snd pads | VALID \<Rightarrow> 0
      | _ \<Rightarrow> ((i + s - 1) div s - 1) * s + k - i)"

definition pool_axis_ok :: "pool_attributes \<Rightarrow> int \<Rightarrow> int \<Rightarrow> int \<Rightarrow> int \<times> int \<Rightarrow> int \<Rightarrow> bool" where
  "pool_axis_ok a i s k pads d \<longleftrightarrow> 1 \<le> s \<and> 1 \<le> i \<and> i < 2 ^ 31 \<and>
     (let x = i + total_pad (pool_auto_pad a) i s k pads - dkern d k in 0 \<le> x \<and> x + 2 * s \<le> 2 ^ 23)"

lemma ComputeSizePadDilations_ok:
  assumes "pool_axis_ok a i s k pads d"
  shows "\<exists>h t. ComputeSizePadDilations a i s k pads d =
      Inr (h, t, pool_positions (ceil_mode a) (i + h + t - dkern d k) s) \<and>
    h + t = total_pad (pool_auto_pad a) i s k pads \<and> (pool_auto_pad a = NOTSET \<longrightarrow> (h, t) = pads)"
  using assms pool_ComputeOutputSize_ok [of s i "total_pad (pool_auto_pad a) i s k pads" d k a]
    same_pad_needed_ok [of s i k]
  by (cases "pool_auto_pad a")
    (auto simp: pool_axis_ok_def Let_def ComputeSizePadDilations_def total_pad_def
      prod_eq_iff add.assoc)

lemma to_int32_eq: "to_int32 x = (x + 2 ^ 31) mod 2 ^ 32 - 2 ^ 31"
  by (simp add: to_int32_def int_word_sint)

lemma to_int32_id: "0 \<le> x \<Longrightarrow> x < 2 ^ 31 \<Longrightarrow> to_int32 x = x"
  by (simp add: to_int32_eq)

lemma to_int32_wraps: "to_int32 (x + 2 ^ 32) = to_int32 x"
proof -
  have "x + 2 ^ 32 + 2 ^ 31 = (x + 2 ^ 31) + 2 ^ 32" by simp
  then show ?thesis unfolding to_int32_eq by (simp only: mod_add_self2)
qed

text \<open>What \<open>InferOutputSize\<close> has established for an axis.\<close>

definition pool_axis_done ::
  "pool_attributes \<Rightarrow> int list \<Rightarrow> int list \<Rightarrow> int list \<times> int list \<Rightarrow> nat \<Rightarrow> bool" where
  "pool_axis_done a ins pads st i \<longleftrightarrow>
     (let n = length ins; h = fst st ! i; t = fst st ! (n + i); s = pool_strides a ! i;
          k = pool_kernel_shape a ! i; d = pool_dilations a ! i
      in h + t = total_pad (pool_auto_pad a) (ins ! i) s k (pads ! i, pads ! (n + i)) \<and>
         snd st ! i = pool_positions (ceil_mode a) (ins ! i + h + t - dkern d k) s)"

definition pool_inv ::
  "pool_attributes \<Rightarrow> int list \<Rightarrow> int list \<Rightarrow> nat \<Rightarrow> int list \<times> int list \<Rightarrow> bool" where
  "pool_inv a ins pads n st \<longleftrightarrow>
     length (fst st) = length pads \<and> length (snd st) = n \<and>
     (\<forall>i < length ins. n \<le> i \<longrightarrow> fst st ! i = pads ! i \<and>
        fst st ! (length ins + i) = pads ! (length ins + i)) \<and>
     (\<forall>i < n. pool_axis_done a ins pads st i)"

lemma pool_axis_inv:
  assumes len: "2 * length ins \<le> length pads" "length ins \<le> length (pool_strides a)"
      "length ins \<le> length (pool_kernel_shape a)" "length ins \<le> length (pool_dilations a)"
    and n: "n < length ins" and inv: "pool_inv a ins pads n st"
    and ok: "pool_axis_ok a (ins ! n) (pool_strides a ! n) (pool_kernel_shape a ! n)
      (pads ! n, pads ! (length ins + n)) (pool_dilations a ! n)"
  shows "\<exists>st'. pool_axis a (N # C # ins) n st = Inr st' \<and> pool_inv a ins pads (Suc n) st'"
proof -
  obtain ap os where st: "st = (ap, os)" by (cases st)
  have f: "length ap = length pads" "length os = n" "ap ! n = pads ! n"
    "ap ! (length ins + n) = pads ! (length ins + n)"
    using inv n by (auto simp: pool_inv_def st)
  have last: "length (N # C # ins) + n - 2 = length ins + n" by simp
  have i32: "to_int32 ((N # C # ins) ! (n + 2)) = ins ! n"
    using ok by (simp add: pool_axis_ok_def to_int32_id)
  obtain h t where run: "ComputeSizePadDilations a (ins ! n) (pool_strides a ! n) (pool_kernel_shape a ! n)
      (pads ! n, pads ! (length ins + n)) (pool_dilations a ! n) = Inr (h, t,
      pool_positions (ceil_mode a) (ins ! n + h + t - dkern (pool_dilations a ! n) (pool_kernel_shape a ! n))
        (pool_strides a ! n))"
    and tot: "h + t = total_pad (pool_auto_pad a) (ins ! n) (pool_strides a ! n) (pool_kernel_shape a ! n)
      (pads ! n, pads ! (length ins + n))"
    using ComputeSizePadDilations_ok [OF ok] by blast
  define st' where "st' = (ap[n := h, length ins + n := t], os @ [pool_positions (ceil_mode a)
      (ins ! n + h + t - dkern (pool_dilations a ! n) (pool_kernel_shape a ! n)) (pool_strides a ! n)])"
  have idx: "n < length pads" "length ins + n < length pads" using n len(1) by simp_all
  have step: "pool_axis a (N # C # ins) n st = Inr st'"
    unfolding pool_axis_def st prod.case last i32 Let_def
    using n len f idx run by (simp add: st'_def)
  have ps: "fst st' ! n = h" "fst st' ! (length ins + n) = t"
    using f idx n by (auto simp: st'_def nth_list_update)
  have ps': "fst st' ! i = ap ! i" "fst st' ! (length ins + i) = ap ! (length ins + i)"
    if "i \<noteq> n" "i < length ins" for i
    using that n by (auto simp: st'_def nth_list_update)
  have "pool_axis_done a ins pads st' n"
    using tot ps f by (simp add: pool_axis_done_def Let_def) (simp add: st'_def nth_append f)
  moreover have "pool_axis_done a ins pads st' i" if "i < n" for i
  proof -
    have "pool_axis_done a ins pads st i" using inv that by (simp add: pool_inv_def)
    moreover have "snd st' ! i = os ! i" using that f by (simp add: st'_def nth_append)
    ultimately show ?thesis using ps' [of i] that n by (simp add: pool_axis_done_def Let_def st)
  qed
  moreover have "fst st' ! i = pads ! i \<and> fst st' ! (length ins + i) = pads ! (length ins + i)"
    if "i < length ins" "Suc n \<le> i" for i
  proof -
    have "fst st ! i = pads ! i \<and> fst st ! (length ins + i) = pads ! (length ins + i)"
      using inv that by (simp add: pool_inv_def)
    then show ?thesis using ps' [of i] that by (simp add: st)
  qed
  moreover have "length (fst st') = length pads" "length (snd st') = Suc n"
    using f by (simp_all add: st'_def)
  ultimately have "pool_inv a ins pads (Suc n) st'" by (simp add: pool_inv_def less_Suc_eq)
  with step show ?thesis by blast
qed

text \<open>
  In every padding mode \<open>InferOutputSize\<close> succeeds on axes in the range where single precision
  is exact; the pads it stores add up to the total padding of the mode (the given pads,
  none, or what SAME needs), and every output size is the number of pooling positions for
  exactly these pads, with and without \<open>ceil_mode\<close>.
\<close>

theorem pool_output_sizes:
  assumes "\<not> global_pooling a"
    and len: "2 * length ins \<le> length pads" "length ins \<le> length (pool_strides a)"
      "length ins \<le> length (pool_kernel_shape a)" "length ins \<le> length (pool_dilations a)"
    and ok: "\<forall>i < length ins. pool_axis_ok a (ins ! i) (pool_strides a ! i) (pool_kernel_shape a ! i)
      (pads ! i, pads ! (length ins + i)) (pool_dilations a ! i)"
  shows "\<exists>pads' out. InferOutputSize a (N # C # ins) (pads, []) = Inr (pads', out) \<and>
    length out = length ins \<and> length pads' = length pads \<and>
    (\<forall>i < length ins. pool_axis_done a ins pads (pads', out) i)"
proof -
  have "\<exists>st. foldE (pool_axis a (N # C # ins)) [0..<length ins] (pads, []) = Inr st \<and>
      pool_inv a ins pads (length ins) st"
  proof (rule foldE_upt_total [where P = "pool_inv a ins pads"])
    show "pool_inv a ins pads 0 (pads, [])" by (simp add: pool_inv_def)
    fix i t assume i: "i < length ins" "pool_inv a ins pads i t"
    then show "\<exists>t'. pool_axis a (N # C # ins) i t = Inr t' \<and> pool_inv a ins pads (Suc i) t'"
      using pool_axis_inv [OF len i ok [rule_format, OF i(1)]] by blast
  qed
  then show ?thesis using assms(1) by (auto simp: InferOutputSize_def pool_inv_def)
qed

text \<open>
  The conversion of an input dimension to \<open>int\<close>: adding \<open>2^32\<close> to every spatial dimension
  does not change the computed output sizes, so the sizes of long axes are wrong.
\<close>

theorem pool_dims_truncated:
  "InferOutputSize a (N # C # map (\<lambda>x. x + 2 ^ 32) ins) st = InferOutputSize a (N # C # ins) st"
proof -
  have "pool_axis a (N # C # map (\<lambda>x. x + 2 ^ 32) ins) n st = pool_axis a (N # C # ins) n st"
    if "n < length ins" for n st
    using that by (simp add: pool_axis_def to_int32_wraps del: power_numeral cong: prod.case_cong)
  then show ?thesis unfolding InferOutputSize_def by (auto intro!: bindE_cong foldE_cong)
qed


section \<open>What the constructor guarantees\<close>

definition pool_wf :: "pool_attributes \<Rightarrow> bool" where
  "pool_wf a \<longleftrightarrow>
     (let n = length (pool_kernel_shape a) in
      length (pool_strides a) = n \<and> length (pool_dilations a) = n \<and> 2 * n \<le> length (pool_pads a) \<and>
      (\<forall>i < n. 0 < pool_kernel_shape a ! i \<and> pool_pads a ! i < pool_kernel_shape a ! i \<and>
         pool_pads a ! (n + i) < pool_kernel_shape a ! i))"

lemma check_axis_Inr:
  "check_axis ks pads i = Inr u \<Longrightarrow>
    0 < ks ! i \<and> length ks + i < length pads \<and> pads ! i < ks ! i \<and> pads ! (length ks + i) < ks ! i"
  by (auto simp: check_axis_def bindE_Inr_iff access_iff add.commute split: if_splits)

lemma check_axes_Inr:
  assumes "foldE (\<lambda>dm _. check_axis ks pads dm) [0..<n] u = Inr u'" "i < n"
  shows "\<exists>v. check_axis ks pads i = Inr v"
  using assms
proof (induction n arbitrary: u')
  case (Suc n)
  then show ?case by (auto simp: foldE_append bindE_Inr_iff less_Suc_eq)
qed simp



section \<open>Concrete inputs\<close>

definition max_pool_node :: node_attrs where
  "max_pool_node = \<lparr>attr_string = (\<lambda>n. if n = ''auto_pad'' then Some ''NOTSET'' else None),
     attr_int = (\<lambda>n. if n = ''storage_order'' then Some 0 else None),
     attr_ints = (\<lambda>n. if n = ''kernel_shape'' then Some [3, 2]
                      else if n = ''strides'' then Some [2, 2]
                      else if n = ''pads'' then Some [1, 0, 1, 0] else None)\<rparr>"

definition max_pool :: pool_attributes where
  "max_pool = \<lparr>global_pooling = False, count_include_pad = False, storage_order = 0, ceil_mode = 0,
     pool_kernel_shape = [3, 2], pool_pads = [1, 0, 1, 0], pool_strides = [2, 2],
     pool_dilations = [1, 1], default_dilations = True, pool_auto_pad = NOTSET\<rparr>"

lemma max_pool_init: "PoolAttributes_init max_pool_node ''MaxPool'' 8 = Inr max_pool"
  by (simp add: PoolAttributes_init_def IsGlobalPooling_def required_def max_pool_node_def
      StringToAutoPadType_def or_default_def ints_or_empty_def check_axis_def max_pool_def
      upt_rec numeral_2_eq_2 numeral_3_eq_3)


theorem pool_output_sizes_witness:
  "\<exists>pads' out. InferOutputSize max_pool [1, 8, 9, 11] ([1, 0, 1, 0], []) = Inr (pads', out) \<and>
     out ! 0 = 5"
proof -
  have ok: "\<forall>i < length [9, 11]. pool_axis_ok max_pool ([9, 11] ! i) (pool_strides max_pool ! i)
      (pool_kernel_shape max_pool ! i) ([1, 0, 1, 0] ! i, [1, 0, 1, 0] ! (length [9::int, 11] + i))
      (pool_dilations max_pool ! i)"
    by (simp add: less_Suc_eq pool_axis_ok_def max_pool_def total_pad_def dkern_def)
  obtain pads' out where r: "InferOutputSize max_pool [1, 8, 9, 11] ([1, 0, 1, 0], []) = Inr (pads', out)"
    "pool_axis_done max_pool [9, 11] [1, 0, 1, 0] (pads', out) 0"
    using pool_output_sizes [OF _ _ _ _ _ ok, of 1 8] by (auto simp: max_pool_def)
  from r(2) have "pads' ! 0 + pads' ! Suc (Suc 0) = 2"
    "out ! 0 = (9 + pads' ! 0 + pads' ! Suc (Suc 0) - 3) div 2 + 1"
    by (simp_all add: pool_axis_done_def max_pool_def total_pad_def dkern_def pool_positions_def numeral_2_eq_2
        Let_def)
  moreover from this have "9 + pads' ! 0 + pads' ! Suc (Suc 0) - 3 = 8" by simp
  ultimately have "out ! 0 = 5" by simp
  with r(1) show ?thesis by blast
qed

end
