(* ===== verification/Slices.thy ===== *)
theory Slices
  imports Radix
begin

text \<open>
  Iteration over tensors and slices of them (onnxruntime/core/providers/cpu/tensor/utils.h):
  pitches (\<open>TensorPitches\<close>), counters over all axes but the innermost (\<open>TensorAxisCounters\<close>,
  \<open>ExtentAxisCounters\<close>), and the iterators over a slice given by starts, extents and steps
  (\<open>SliceSkips\<close>, \<open>SliceIteratorBase\<close>, \<open>WritableSliceIterator\<close>). Dimensions, extents and counters are
  \<open>nat\<close>, starts, steps, skips and the position \<open>int\<close>; a pointer into a tensor is the index of
  the element it points at, so the factor \<open>element_size_\<close> is left out, and 64-bit wrap-around too
  (a negative step held as \<open>size_t\<close> moves the pointer backwards modulo \<open>2 ^ 64\<close>).
\<close>

section \<open>Pitches\<close>

text \<open>The loop \<open>for (i = rank - 1; i-- > 0;)\<close>, and the one over the padding.\<close>

fun pitch_loop :: "nat list \<Rightarrow> nat \<Rightarrow> nat \<Rightarrow> nat list \<Rightarrow> nat list res" where
  "pitch_loop dims padded_rank 0 p = Inr p"
| "pitch_loop dims padded_rank (Suc i) p =
     bindE (vget p (i + 1 + padded_rank)) (\<lambda>q. bindE (vget dims (i + 1)) (\<lambda>d.
     bindE (vset p (i + padded_rank) (q * d)) (pitch_loop dims padded_rank i)))"

definition pad_step :: "nat list \<Rightarrow> nat \<Rightarrow> nat \<Rightarrow> nat list \<Rightarrow> nat list res" where
  "pad_step dims padded_rank i p =
     (if i = 0 \<and> length dims > 0 then
        bindE (vget p padded_rank) (\<lambda>q. bindE (vget dims 0) (\<lambda>d. vset p (padded_rank - 1) (q * d)))
      else bindE (vget p (padded_rank - 1)) (\<lambda>q. vset p (padded_rank - 1 - i) q))"

definition Calculate :: "nat list \<Rightarrow> nat list \<Rightarrow> (bool \<times> nat list) res" where
  "Calculate p dims =
     (let tensor_rank = length dims; pitch_rank = length p; padded_rank = pitch_rank - tensor_rank in
      if pitch_rank < tensor_rank then Inr (False, p)
      else if pitch_rank = 0 then Inr (True, p)
      else
        bindE (vset p (pitch_rank - 1) 1) (\<lambda>p.
        bindE (if tensor_rank > 1 then pitch_loop dims padded_rank (tensor_rank - 1) p else Inr p) (\<lambda>p.
        bindE (if padded_rank \<ge> 1 then foldE (pad_step dims padded_rank) [0..<padded_rank] p else Inr p) (\<lambda>p.
        Inr (True, p)))))"

definition TensorPitches :: "nat list \<Rightarrow> nat \<Rightarrow> nat list res" where
  "TensorPitches dims rank = bindE (Calculate (replicate (max rank (length dims)) 0) dims) (\<lambda>(_, p). Inr p)"

section \<open>Counters over the axes\<close>

record axis_counters =
  ac_running :: bool
  ac_axis :: nat
  ac_indices :: "nat list"
  ac_extents :: "nat list"

text \<open>
  \<open>indices_.resize(rank - 1)\<close> throws for rank 0: the size wraps around. \<open>TensorShape::Size\<close> is only
  declared: it is a parameter, documented to be the number of elements.
\<close>

definition doc_size :: "(nat list \<Rightarrow> nat) \<Rightarrow> bool" where
  "doc_size size_of \<longleftrightarrow> (\<forall>shape. size_of shape = prod_list shape)"

definition TensorAxisCounters :: "(nat list \<Rightarrow> nat) \<Rightarrow> nat list \<Rightarrow> axis_counters res" where
  "TensorAxisCounters size_of shape =
     (if shape = [] then Inl Thrown
      else Inr \<lparr>ac_running = (size_of shape \<noteq> 0), ac_axis = length shape - 1,
        ac_indices = replicate (length shape - 1) 0, ac_extents = shape\<rparr>)"

definition ExtentAxisCounters :: "nat list \<Rightarrow> axis_counters res" where
  "ExtentAxisCounters extents =
     (if extents = [] then Inl Thrown
      else Inr \<lparr>ac_running = (0 \<notin> set extents), ac_axis = length extents - 1,
        ac_indices = replicate (length extents - 1) 0, ac_extents = extents\<rparr>)"

text \<open>At axis 0 the decrement wraps around; the counters are not used after that.\<close>

definition Increment :: "axis_counters \<Rightarrow> axis_counters \<times> bool" where
  "Increment c =
     (if ac_axis c = 0 then (c\<lparr>ac_axis := 2 ^ 64 - 1, ac_running := False\<rparr>, False)
      else
        let axis = ac_axis c - 1; i = ac_indices c ! axis + 1 in
        if i \<noteq> ac_extents c ! axis then
          (c\<lparr>ac_axis := length (ac_indices c), ac_indices := (ac_indices c)[axis := i]\<rparr>, False)
        else (c\<lparr>ac_axis := axis, ac_indices := (ac_indices c)[axis := 0]\<rparr>, True))"

text \<open>
  How the counters are used: after each row, \<open>while (counters.Increment())\<close> goes to the start of the
  next; its body is called with the axis of every carry. Fuel for the loop; None when it
  does not suffice.
\<close>

fun next_row :: "nat \<Rightarrow> axis_counters \<Rightarrow> (axis_counters \<times> nat list) option" where
  "next_row 0 c = None"
| "next_row (Suc fuel) c =
     (case Increment c of (c', carry) \<Rightarrow>
        if carry then map_option (\<lambda>(c'', axes). (c'', ac_axis c' # axes)) (next_row fuel c') else Some (c', []))"

section \<open>Slices\<close>

text \<open>The loop of \<open>SliceSkips\<close> from \<open>i\<close> down, with the pitch, the step of the axis and the skips so far.\<close>

fun skip_loop :: "nat list \<Rightarrow> nat list \<Rightarrow> int list \<Rightarrow> nat \<Rightarrow> int \<times> int \<times> int list \<Rightarrow> int list" where
  "skip_loop dims extents steps 0 (pitch, steps_i, skips) = skips"
| "skip_loop dims extents steps (Suc i) (pitch, steps_i, skips) =
     (let prevPitch = pitch; pitch = pitch * int (dims ! i);
          steps_i_minus_1 = (if i > 0 \<and> i - 1 < length steps then steps ! (i - 1) else 1) in
      skip_loop dims extents steps i (pitch, steps_i_minus_1,
        (steps_i_minus_1 * pitch - steps_i * int (extents ! i) * prevPitch) # skips))"

definition SliceSkips :: "nat list \<Rightarrow> nat list \<Rightarrow> int list \<Rightarrow> int list res" where
  "SliceSkips dims extents steps =
     bindE (enforce (length dims = length extents \<and> length steps \<le> length dims)) (\<lambda>_.
     let n = length dims; steps_i = (if n \<ge> 1 \<and> n - 1 < length steps then steps ! (n - 1) else 1) in
     Inr (skip_loop dims extents steps n (1, steps_i, [])))"

record 'a slice_iterator =
  si_data :: "'a list"
  si_input :: int
  si_extents :: "nat list"
  si_inner_counter :: nat
  si_inner_extent :: nat
  si_inner_step :: int
  si_skips :: "int list"
  si_indices :: "nat list"

text \<open>The initial skip.\<close>

fun start_loop :: "nat list \<Rightarrow> int list \<Rightarrow> nat \<Rightarrow> int \<times> int \<Rightarrow> int" where
  "start_loop dims starts 0 (pitch, input) = input"
| "start_loop dims starts (Suc i) (pitch, input) =
     start_loop dims starts i (pitch * int (dims ! i), input + pitch * starts ! i)"

definition slice_Init :: "bool \<Rightarrow> 'a list \<Rightarrow> nat list \<Rightarrow> int list \<Rightarrow> nat list \<Rightarrow> int list \<Rightarrow> int list \<Rightarrow> 'a slice_iterator res" where
  "slice_Init writable data dims starts extents steps skips =
     bindE (enforce (length dims = length starts \<and> length dims = length extents \<and>
       (if writable then length dims = length steps else length steps \<le> length dims))) (\<lambda>_.
     if dims = [] then Inl Undefined
     else Inr \<lparr>si_data = data, si_input = start_loop dims starts (length dims) (1, 0), si_extents = extents,
       si_inner_counter = 0, si_inner_extent = extents ! (length dims - 1),
       si_inner_step = (if length dims = length steps then steps ! (length dims - 1) else 1),
       si_skips = skips, si_indices = replicate (length extents) 0\<rparr>)"

text \<open>The shape is that of the tensor or an explicit one.\<close>

definition SliceIterator :: "'a list \<Rightarrow> nat list \<Rightarrow> int list \<Rightarrow> nat list \<Rightarrow> int list \<Rightarrow> 'a slice_iterator res" where
  "SliceIterator data dims starts extents steps =
     bindE (SliceSkips dims extents steps) (slice_Init False data dims starts extents steps)"

definition WritableSliceIterator :: "'a list \<Rightarrow> nat list \<Rightarrow> int list \<Rightarrow> nat list \<Rightarrow> int list \<Rightarrow> 'a slice_iterator res" where
  "WritableSliceIterator data dims starts extents steps =
     bindE (SliceSkips dims extents steps) (slice_Init True data dims starts extents steps)"

fun advance_loop :: "nat list \<Rightarrow> int list \<Rightarrow> nat \<Rightarrow> nat list \<times> int \<Rightarrow> nat list \<times> int" where
  "advance_loop extents skips 0 (indices, input) = (indices, input)"
| "advance_loop extents skips (Suc axis) (indices, input) =
     (let i = indices ! axis + 1 in
      if i = extents ! axis then advance_loop extents skips axis (indices[axis := 0], input + skips ! axis)
      else (indices[axis := i], input))"

definition AdvanceOverInnerExtent :: "'a slice_iterator \<Rightarrow> 'a slice_iterator" where
  "AdvanceOverInnerExtent it =
     (let axis = length (si_skips it) - 1;
          (indices, input) = advance_loop (si_extents it) (si_skips it) axis (si_indices it, si_input it + si_skips it ! axis) in
      it\<lparr>si_indices := indices, si_input := input\<rparr>)"

definition IncrementInnerDimension :: "'a slice_iterator \<Rightarrow> 'a slice_iterator" where
  "IncrementInnerDimension it =
     (let it = it\<lparr>si_input := si_input it + si_inner_step it, si_inner_counter := si_inner_counter it + 1\<rparr> in
      if si_inner_counter it = si_inner_extent it then AdvanceOverInnerExtent (it\<lparr>si_inner_counter := 0\<rparr>) else it)"

text \<open>Reading and writing through \<open>input_\<close>.\<close>

definition deref :: "'a slice_iterator \<Rightarrow> 'a res" where
  "deref it = (if 0 \<le> si_input it then vget (si_data it) (nat (si_input it)) else Inl Undefined)"

definition assign :: "'a slice_iterator \<Rightarrow> 'a \<Rightarrow> 'a slice_iterator res" where
  "assign it x = (if 0 \<le> si_input it then bindE (vset (si_data it) (nat (si_input it)) x) (\<lambda>d. Inr (it\<lparr>si_data := d\<rparr>))
     else Inl Undefined)"

definition SolitaryInnerStep :: "'a slice_iterator \<Rightarrow> bool" where
  "SolitaryInnerStep it \<longleftrightarrow> si_inner_step it = 1"

text \<open>Copying one innermost row out; the result is what is written behind the output pointer.\<close>

definition CopyInnermostAxisSolitaryInnerStep :: "'a slice_iterator \<Rightarrow> ('a slice_iterator \<times> 'a list) res" where
  "CopyInnermostAxisSolitaryInnerStep it =
     (let n = si_inner_extent it; i = si_input it in
      if 0 \<le> i \<and> nat i + n \<le> length (si_data it) then
        Inr (AdvanceOverInnerExtent (it\<lparr>si_input := i + int n\<rparr>), take n (drop (nat i) (si_data it)))
      else Inl Undefined)"

fun typed_copy :: "nat \<Rightarrow> 'a slice_iterator \<Rightarrow> ('a slice_iterator \<times> 'a list) res" where
  "typed_copy 0 it = Inr (it, [])"
| "typed_copy (Suc n) it = bindE (deref it) (\<lambda>x.
     bindE (typed_copy n (IncrementInnerDimension it)) (\<lambda>(it', xs). Inr (it', x # xs)))"

definition CopyInnermostAxisNonSolitaryInnerStep ::
    "bool \<Rightarrow> nat \<Rightarrow> 'a slice_iterator \<Rightarrow> ('a slice_iterator \<times> 'a list) res" where
  "CopyInnermostAxisNonSolitaryInnerStep is_string element_size it =
     (if is_string \<or> element_size \<in> {1, 2, 4, 8} then typed_copy (si_inner_extent it) it else Inl Thrown)"

text \<open>The row copies of \<open>WritableSliceIterator\<close>: out with a step, and in.\<close>

fun writable_copy :: "nat \<Rightarrow> 'a slice_iterator \<Rightarrow> ('a slice_iterator \<times> 'a list) res" where
  "writable_copy 0 it = Inr (it, [])"
| "writable_copy (Suc n) it = bindE (deref it) (\<lambda>x.
     bindE (writable_copy n (it\<lparr>si_input := si_input it + si_inner_step it\<rparr>)) (\<lambda>(it', xs). Inr (it', x # xs)))"

definition writable_CopyInnermostAxisNonSolitaryInnerStep :: "'a slice_iterator \<Rightarrow> ('a slice_iterator \<times> 'a list) res" where
  "writable_CopyInnermostAxisNonSolitaryInnerStep it = writable_copy (si_inner_extent it) it"

definition CopyFromInnermostAxisSolitaryInnerStep :: "'a list \<Rightarrow> 'a slice_iterator \<Rightarrow> ('a slice_iterator \<times> 'a list) res" where
  "CopyFromInnermostAxisSolitaryInnerStep src it =
     (let n = si_inner_extent it; i = si_input it in
      if 0 \<le> i \<and> nat i + n \<le> length (si_data it) \<and> n \<le> length src then
        Inr (AdvanceOverInnerExtent (it\<lparr>si_data := take (nat i) (si_data it) @ take n src @ drop (nat i + n) (si_data it),
          si_input := i + int n\<rparr>), drop n src)
      else Inl Undefined)"

fun copy_from :: "nat \<Rightarrow> 'a list \<Rightarrow> 'a slice_iterator \<Rightarrow> ('a slice_iterator \<times> 'a list) res" where
  "copy_from 0 src it = Inr (it, src)"
| "copy_from (Suc n) src it = bindE (vget src 0) (\<lambda>x. bindE (assign it x) (\<lambda>it.
     copy_from n (drop 1 src) (IncrementInnerDimension it)))"

definition CopyFromInnermostAxisNonSolitaryInnerStep :: "'a list \<Rightarrow> 'a slice_iterator \<Rightarrow> ('a slice_iterator \<times> 'a list) res" where
  "CopyFromInnermostAxisNonSolitaryInnerStep src it = copy_from (si_inner_extent it) src it"


section \<open>Positions of a slice\<close>

text \<open>
  What the iterators are meant to visit. The elements of a slice are numbered in row-major order, the
  last axis fastest; \<open>slice_quot a U\<close> is where the \<open>U\<close>-th combination of coordinates of the first
  \<open>a\<close> axes lies in the box of the first \<open>a\<close> dimensions, and \<open>slice_at\<close> the index in the
  tensor of its first element. Steps that are not given are 1.
\<close>

definition step_of :: "int list \<Rightarrow> nat \<Rightarrow> int" where
  "step_of steps a = (if a < length steps then steps ! a else 1)"

fun slice_quot :: "nat list \<Rightarrow> int list \<Rightarrow> nat list \<Rightarrow> int list \<Rightarrow> nat \<Rightarrow> nat \<Rightarrow> int" where
  "slice_quot dims starts extents steps 0 U = 0"
| "slice_quot dims starts extents steps (Suc a) U =
     slice_quot dims starts extents steps a (U div extents ! a) * int (dims ! a)
     + (starts ! a + step_of steps a * int (U mod extents ! a))"

definition box_from :: "nat list \<Rightarrow> nat \<Rightarrow> nat" where
  "box_from dims a = prod_list (drop a dims)"

definition slice_at :: "nat list \<Rightarrow> int list \<Rightarrow> nat list \<Rightarrow> int list \<Rightarrow> nat \<Rightarrow> nat \<Rightarrow> int" where
  "slice_at dims starts extents steps a U = slice_quot dims starts extents steps a U * int (box_from dims a)"

text \<open>Every coordinate of the slice is a coordinate of the tensor.\<close>

definition slice_inside :: "nat list \<Rightarrow> int list \<Rightarrow> nat list \<Rightarrow> int list \<Rightarrow> bool" where
  "slice_inside dims starts extents steps \<longleftrightarrow>
     length starts = length dims \<and> length extents = length dims \<and> length steps \<le> length dims \<and>
     (\<forall>a < length dims. 0 < extents ! a \<and> (\<forall>k < extents ! a.
        0 \<le> starts ! a + step_of steps a * int k \<and> starts ! a + step_of steps a * int k < int (dims ! a)))"

lemma box_from_step: "a < length dims \<Longrightarrow> box_from dims a = dims ! a * box_from dims (Suc a)"
  by (simp add: box_from_def Cons_nth_drop_Suc [symmetric])

lemma box_from_all [simp]: "length dims \<le> a \<Longrightarrow> box_from dims a = 1"
  by (simp add: box_from_def)

lemma box_from_0: "box_from dims 0 = prod_list dims"
  by (simp add: box_from_def)

lemma slice_at_0 [simp]: "slice_at dims starts extents steps 0 U = 0"
  by (simp add: slice_at_def)

lemma slice_at_Suc:
  "a < length dims \<Longrightarrow> slice_at dims starts extents steps (Suc a) U =
     (starts ! a + step_of steps a * int (U mod extents ! a)) * int (box_from dims (Suc a))
     + slice_at dims starts extents steps a (U div extents ! a)"
  by (simp add: slice_at_def box_from_step algebra_simps)

declare slice_quot.simps(2) [simp del]

lemma slice_quot_bounds:
  assumes s: "slice_inside dims starts extents steps" and a: "a \<le> length dims"
  shows "0 \<le> slice_quot dims starts extents steps a U
    \<and> (slice_quot dims starts extents steps a U + 1) * int (box_from dims a) \<le> int (prod_list dims)"
  using a
proof (induction a arbitrary: U)
  case 0
  then show ?case by (simp add: box_from_0)
next
  case (Suc a)
  let ?q = "slice_quot dims starts extents steps a (U div extents ! a)"
  let ?c = "starts ! a + step_of steps a * int (U mod extents ! a)"
  have "a < length dims" using Suc.prems by simp
  with s have e: "0 < extents ! a" and k: "\<And>k. k < extents ! a \<Longrightarrow>
      0 \<le> starts ! a + step_of steps a * int k \<and> starts ! a + step_of steps a * int k < int (dims ! a)"
    by (auto simp: slice_inside_def)
  from e k [of "U mod extents ! a"] have c: "0 \<le> ?c" "?c < int (dims ! a)" by simp_all
  have q: "0 \<le> ?q" "(?q + 1) * int (box_from dims a) \<le> int (prod_list dims)"
    using Suc.IH [of "U div extents ! a"] Suc.prems by simp_all
  have "(?q * int (dims ! a) + ?c + 1) * int (box_from dims (Suc a))
      \<le> ((?q + 1) * int (dims ! a)) * int (box_from dims (Suc a))"
    using c by (intro mult_right_mono) (simp_all add: distrib_right)
  also have "\<dots> = (?q + 1) * int (box_from dims a)" using \<open>a < length dims\<close> by (simp add: box_from_step)
  finally have "(slice_quot dims starts extents steps (Suc a) U + 1) * int (box_from dims (Suc a)) \<le> int (prod_list dims)"
    using q by (simp add: slice_quot.simps)
  moreover have "0 \<le> slice_quot dims starts extents steps (Suc a) U"
    using q c by (simp add: slice_quot.simps)
  ultimately show ?case by simp
qed

lemma slice_at_inside:
  assumes "slice_inside dims starts extents steps"
  shows "0 \<le> slice_at dims starts extents steps (length dims) U"
    and "slice_at dims starts extents steps (length dims) U < int (prod_list dims)"
  using slice_quot_bounds [OF assms, of "length dims" U] by (simp_all add: slice_at_def)

lemma slice_quot_inj:
  assumes s: "slice_inside dims starts extents steps" and a: "a \<le> length dims"
    and nz: "\<And>i. i < length dims \<Longrightarrow> step_of steps i \<noteq> 0"
    and U: "U < prod_list (take a extents)" and W: "W < prod_list (take a extents)"
    and eq: "slice_quot dims starts extents steps a U = slice_quot dims starts extents steps a W"
  shows "U = W"
  using a U W eq
proof (induction a arbitrary: U W)
  case 0
  then show ?case by simp
next
  case (Suc a)
  let ?e = "extents ! a"
  let ?c = "\<lambda>U. starts ! a + step_of steps a * int (U mod ?e)"
  have al: "a < length dims" "a < length extents" using Suc.prems(1) s by (auto simp: slice_inside_def)
  with s have e: "0 < ?e" and k: "\<And>k. k < ?e \<Longrightarrow>
      0 \<le> starts ! a + step_of steps a * int k \<and> starts ! a + step_of steps a * int k < int (dims ! a)"
    by (auto simp: slice_inside_def)
  have c: "0 \<le> ?c X" "?c X < int (dims ! a)" for X using e k [of "X mod ?e"] by simp_all
  have p: "prod_list (take (Suc a) extents) = prod_list (take a extents) * ?e"
    using al by (simp add: take_Suc_conv_app_nth)
  have div: "U div ?e < prod_list (take a extents)" "W div ?e < prod_list (take a extents)"
    using Suc.prems(2,3) e unfolding p by (simp_all add: less_mult_imp_div_less)
  have "(slice_quot dims starts extents steps a (X div ?e) * int (dims ! a) + ?c X) mod int (dims ! a) = ?c X" for X
    using c [of X] by simp
  moreover have "(slice_quot dims starts extents steps a (X div ?e) * int (dims ! a) + ?c X) div int (dims ! a)
      = slice_quot dims starts extents steps a (X div ?e)" for X
    using c [of X] by simp
  ultimately have "?c U = ?c W"
    "slice_quot dims starts extents steps a (U div ?e) = slice_quot dims starts extents steps a (W div ?e)"
    using Suc.prems(4) unfolding slice_quot.simps by metis+
  then have "U mod ?e = W mod ?e" "U div ?e = W div ?e"
    using nz [OF al(1)] Suc.IH [OF _ div] al(1) by simp_all
  then show ?case by (metis div_mult_mod_eq)
qed

lemma slice_at_inj:
  assumes "slice_inside dims starts extents steps" "\<And>i. i < length dims \<Longrightarrow> step_of steps i \<noteq> 0"
    and "U < prod_list extents" "W < prod_list extents"
    and "slice_at dims starts extents steps (length dims) U = slice_at dims starts extents steps (length dims) W"
  shows "U = W"
  by (rule slice_quot_inj [OF assms(1) order_refl assms(2)])
    (use assms in \<open>simp_all add: slice_at_def slice_inside_def\<close>)

section \<open>The iterators visit the slice\<close>

definition skip_of :: "nat list \<Rightarrow> nat list \<Rightarrow> int list \<Rightarrow> nat \<Rightarrow> int" where
  "skip_of dims extents steps a =
     (if a = 0 then 1 else step_of steps (a - 1)) * int (box_from dims a)
     - step_of steps a * int (extents ! a) * int (box_from dims (Suc a))"

lemma skip_loop_eq:
  "i \<le> length dims \<Longrightarrow> i = 0 \<or> s = step_of steps (i - 1) \<Longrightarrow>
     skip_loop dims extents steps i (int (box_from dims i), s, skips) = map (skip_of dims extents steps) [0..<i] @ skips"
proof (induction i arbitrary: s skips)
  case 0
  then show ?case by simp
next
  case (Suc i)
  let ?s = "if i > 0 \<and> i - 1 < length steps then steps ! (i - 1) else 1"
  have s: "s = step_of steps i" and il: "i < length dims" using Suc.prems by simp_all
  have box: "int (box_from dims (Suc i)) * int (dims ! i) = int (box_from dims i)"
    using il by (simp add: box_from_step)
  have s': "?s = (if i = 0 then 1 else step_of steps (i - 1))" by (simp add: step_of_def)
  have "?s * int (box_from dims i) - s * int (extents ! i) * int (box_from dims (Suc i)) = skip_of dims extents steps i"
    unfolding s' s by (simp add: skip_of_def)
  moreover have "i = 0 \<or> ?s = step_of steps (i - 1)" by (simp add: step_of_def)
  ultimately show ?case using Suc.IH il by (simp add: Let_def box)
qed

lemma SliceSkips_eq:
  "SliceSkips dims extents steps =
     (if length dims = length extents \<and> length steps \<le> length dims
      then Inr (map (skip_of dims extents steps) [0..<length dims]) else Inl EnforceFailed)"
proof -
  define s where "s = (if length dims \<ge> 1 \<and> length dims - 1 < length steps then steps ! (length dims - 1) else 1)"
  have "length dims = 0 \<or> s = step_of steps (length dims - 1)"
    by (cases dims) (simp_all add: s_def step_of_def)
  then have "skip_loop dims extents steps (length dims) (1, s, []) = map (skip_of dims extents steps) [0..<length dims]"
    using skip_loop_eq [OF order_refl, of dims s steps extents "[]"] by simp
  then show ?thesis unfolding SliceSkips_def Let_def s_def [symmetric] by (simp add: enforce_def)
qed

lemma start_loop_eq:
  "a \<le> length dims \<Longrightarrow> length dims = length starts \<Longrightarrow>
     start_loop dims starts a (int (box_from dims a), p) = p + slice_at dims starts extents steps a 0"
proof (induction a arbitrary: p)
  case 0
  then show ?case by simp
next
  case (Suc a)
  have "int (box_from dims (Suc a)) * int (dims ! a) = int (box_from dims a)"
    using Suc.prems by (simp add: box_from_step)
  then show ?case using Suc by (simp add: slice_at_Suc)
qed

fun digits_of :: "nat list \<Rightarrow> nat \<Rightarrow> nat \<Rightarrow> nat list \<Rightarrow> bool" where
  "digits_of extents 0 U idx \<longleftrightarrow> True"
| "digits_of extents (Suc a) U idx \<longleftrightarrow> idx ! a = U mod extents ! a \<and> digits_of extents a (U div extents ! a) idx"

lemma digits_of_update: "a \<le> j \<Longrightarrow> digits_of extents a U (idx[j := x]) \<longleftrightarrow> digits_of extents a U idx"
  by (induction a arbitrary: U) auto

lemma digits_of_zero: "a \<le> n \<Longrightarrow> digits_of extents a 0 (replicate n 0)"
  by (induction a) auto

text \<open>
  Going to the next combination of the first \<open>a\<close> coordinates: the counters become those of
  \<open>U + 1\<close>; the step of the last of these axes is part of the skip that was added before.
\<close>

lemma advance_loop_next:
  assumes dims: "length extents = length dims" and pos: "\<And>i. i < length dims \<Longrightarrow> 0 < extents ! i"
    and a: "0 < a" "a \<le> length dims" "length idx = length dims"
    and U: "Suc U < prod_list (take a extents)" and d: "digits_of extents a U idx"
  shows "\<exists>idx'. advance_loop extents (map (skip_of dims extents steps) [0..<length dims]) a (idx, p) =
      (idx', p + slice_at dims starts extents steps a (Suc U) - slice_at dims starts extents steps a U
        - step_of steps (a - 1) * int (box_from dims a))
    \<and> length idx' = length dims \<and> digits_of extents a (Suc U) idx' \<and> (\<forall>j \<ge> a. idx' ! j = idx ! j)"
  using a U d
proof (induction a arbitrary: U idx p)
  case 0
  then show ?case by simp
next
  case (Suc a)
  let ?e = "extents ! a" and ?S = "slice_at dims starts extents steps"
    and ?k = "map (skip_of dims extents steps) [0..<length dims]"
  have al: "a < length dims" using Suc.prems by simp
  have e: "0 < ?e" using pos al by simp
  have p: "prod_list (take (Suc a) extents) = prod_list (take a extents) * ?e"
    using al dims by (simp add: take_Suc_conv_app_nth)
  have d: "idx ! a = U mod ?e" "digits_of extents a (U div ?e) idx" using Suc.prems by simp_all
  show ?case
  proof (cases "U mod ?e + 1 = ?e")
    case False
    then have m: "Suc U mod ?e = Suc (U mod ?e)" "Suc U div ?e = U div ?e"
      by (simp_all add: mod_Suc div_Suc)
    have S: "?S (Suc a) (Suc U) - ?S (Suc a) U = step_of steps a * int (box_from dims (Suc a))"
      using al by (simp add: slice_at_Suc m algebra_simps)
    have "advance_loop extents ?k (Suc a) (idx, p) = (idx[a := Suc (U mod ?e)], p)"
      using False d by simp
    moreover have "digits_of extents (Suc a) (Suc U) (idx[a := Suc (U mod ?e)])"
      using d al Suc.prems by (simp add: digits_of_update m)
    moreover have "p + ?S (Suc a) (Suc U) - ?S (Suc a) U - step_of steps (Suc a - 1) * int (box_from dims (Suc a)) = p"
      using S by simp
    moreover have "length (idx[a := Suc (U mod ?e)]) = length dims"
      "\<forall>j \<ge> Suc a. idx[a := Suc (U mod ?e)] ! j = idx ! j" using Suc.prems by simp_all
    ultimately show ?thesis by metis
  next
    case True
    then have m: "Suc U mod ?e = 0" "Suc U div ?e = Suc (U div ?e)"
      by (simp_all add: mod_Suc div_Suc)
    have U1: "Suc (U div ?e) < prod_list (take a extents)"
      using Suc.prems e m unfolding p by (metis less_mult_imp_div_less)
    have a0: "0 < a" using U1 by (cases a) simp_all
    have k: "?k ! a = step_of steps (a - 1) * int (box_from dims a) - step_of steps a * int ?e * int (box_from dims (Suc a))"
      using al a0 by (simp add: skip_of_def)
    have d0: "digits_of extents a (U div ?e) (idx[a := 0])" using d by (simp add: digits_of_update)
    obtain idx' where idx': "advance_loop extents ?k a (idx[a := 0], p + ?k ! a) = (idx', p + ?k ! a
          + ?S a (Suc (U div ?e)) - ?S a (U div ?e) - step_of steps (a - 1) * int (box_from dims a))"
      "length idx' = length dims" "digits_of extents a (Suc (U div ?e)) idx'" "\<forall>j \<ge> a. idx' ! j = idx[a := 0] ! j"
      using Suc.IH [OF a0 _ _ U1 d0, of "p + ?k ! a"] Suc.prems by auto
    have u: "int (U mod ?e) = int ?e - 1" using True by linarith
    have S: "?S (Suc a) (Suc U) - ?S (Suc a) U
        = ?S a (Suc (U div ?e)) - ?S a (U div ?e)
          - step_of steps a * int ?e * int (box_from dims (Suc a)) + step_of steps a * int (box_from dims (Suc a))"
      using al by (simp add: slice_at_Suc m u algebra_simps)
    have "advance_loop extents ?k (Suc a) (idx, p) = advance_loop extents ?k a (idx[a := 0], p + ?k ! a)"
      using True d by (simp add: Let_def)
    also have "\<dots> = (idx', p + ?k ! a + ?S a (Suc (U div ?e)) - ?S a (U div ?e) - step_of steps (a - 1) * int (box_from dims a))"
      by (rule idx'(1))
    also have "p + ?k ! a + ?S a (Suc (U div ?e)) - ?S a (U div ?e) - step_of steps (a - 1) * int (box_from dims a)
        = p + ?S (Suc a) (Suc U) - ?S (Suc a) U - step_of steps a * int (box_from dims (Suc a))"
      using k S by linarith
    finally have "advance_loop extents ?k (Suc a) (idx, p)
      = (idx', p + ?S (Suc a) (Suc U) - ?S (Suc a) U - step_of steps a * int (box_from dims (Suc a)))" .
    moreover have "idx' ! a = 0" using idx'(4) al Suc.prems by simp
    ultimately show ?thesis using idx' m by auto
  qed
qed

text \<open>The state of an iterator that points at element \<open>t\<close> of the slice.\<close>

definition at_element :: "nat list \<Rightarrow> int list \<Rightarrow> nat list \<Rightarrow> int list \<Rightarrow> 'a list \<Rightarrow> nat \<Rightarrow> 'a slice_iterator \<Rightarrow> bool" where
  "at_element dims starts extents steps data t it \<longleftrightarrow>
     si_data it = data \<and> si_extents it = extents \<and> si_inner_extent it = extents ! (length dims - 1) \<and>
     si_inner_step it = step_of steps (length dims - 1) \<and>
     si_skips it = map (skip_of dims extents steps) [0..<length dims] \<and>
     si_inner_counter it = t mod extents ! (length dims - 1) \<and> length (si_indices it) = length dims \<and>
     digits_of extents (length dims - 1) (t div extents ! (length dims - 1)) (si_indices it) \<and>
     si_input it = slice_at dims starts extents steps (length dims) t"

lemma inside_facts:
  assumes "slice_inside dims starts extents steps" "dims \<noteq> []"
  shows "length starts = length dims" "length extents = length dims" "length steps \<le> length dims"
    and "\<And>i. i < length dims \<Longrightarrow> 0 < extents ! i" "0 < extents ! (length dims - 1)"
    and "prod_list extents = prod_list (take (length dims - 1) extents) * extents ! (length dims - 1)"
proof -
  show l: "length starts = length dims" "length extents = length dims" "length steps \<le> length dims"
    and e: "\<And>i. i < length dims \<Longrightarrow> 0 < extents ! i"
    using assms(1) by (auto simp: slice_inside_def)
  show "0 < extents ! (length dims - 1)" using e assms(2) by simp
  have "extents \<noteq> []" using l assms(2) by auto
  then have "extents = take (length dims - 1) extents @ [extents ! (length dims - 1)]"
    using l by (metis append_butlast_last_id butlast_conv_take last_conv_nth)
  then have "prod_list extents = prod_list (take (length dims - 1) extents @ [extents ! (length dims - 1)])" by simp
  then show "prod_list extents = prod_list (take (length dims - 1) extents) * extents ! (length dims - 1)" by simp
qed

lemma slice_at_last:
  assumes "dims \<noteq> []"
  shows "slice_at dims starts extents steps (length dims) t =
     starts ! (length dims - 1) + step_of steps (length dims - 1) * int (t mod extents ! (length dims - 1))
     + slice_at dims starts extents steps (length dims - 1) (t div extents ! (length dims - 1))"
proof (cases "length dims")
  case (Suc m)
  then show ?thesis using slice_at_Suc [of m dims starts extents steps t] by simp
qed (use assms in simp)

lemma slice_init_state:
  assumes s: "slice_inside dims starts extents steps" and n: "dims \<noteq> []" and w: "writable \<longrightarrow> length steps = length dims"
  shows "\<exists>it. bindE (SliceSkips dims extents steps) (slice_Init writable data dims starts extents steps) = Inr it
    \<and> at_element dims starts extents steps data 0 it"
proof -
  note f = inside_facts [OF s n]
  let ?a = "length dims - 1" and ?skips = "map (skip_of dims extents steps) [0..<length dims]"
  have len: "length dims = length starts" "length dims = length extents" "length steps \<le> length dims"
    using f by simp_all
  have st: "(if length dims = length steps then steps ! ?a else 1) = step_of steps ?a"
    using len n by (cases dims) (auto simp: step_of_def)
  have inp: "start_loop dims starts (length dims) (1, 0) = slice_at dims starts extents steps (length dims) 0"
    using start_loop_eq [OF order_refl len(1), of 0 extents steps] by simp
  define it where "it = \<lparr>si_data = data, si_input = slice_at dims starts extents steps (length dims) 0,
    si_extents = extents, si_inner_counter = 0, si_inner_extent = extents ! ?a, si_inner_step = step_of steps ?a,
    si_skips = ?skips, si_indices = replicate (length extents) 0\<rparr>"
  have g: "length dims = length starts \<and> length dims = length extents \<and>
      (if writable then length dims = length steps else length steps \<le> length dims)"
    using len w by auto
  have "slice_Init writable data dims starts extents steps ?skips = Inr it"
    unfolding slice_Init_def enforce_def if_P [OF g] bindE_simps if_not_P [OF n] st inp it_def ..
  moreover have "SliceSkips dims extents steps = Inr ?skips"
    using len by (simp add: SliceSkips_eq)
  moreover have "at_element dims starts extents steps data 0 it"
    using len by (simp add: at_element_def it_def digits_of_zero)
  ultimately show ?thesis by simp
qed

lemma row_end:
  assumes s: "slice_inside dims starts extents steps" and n: "dims \<noteq> []"
    and it: "si_extents it = extents" "si_skips it = map (skip_of dims extents steps) [0..<length dims]"
      "length (si_indices it) = length dims" "digits_of extents (length dims - 1) T (si_indices it)"
    and T: "Suc T < prod_list (take (length dims - 1) extents)"
  shows "\<exists>idx. AdvanceOverInnerExtent it = it\<lparr>si_indices := idx, si_input := si_input it
      + slice_at dims starts extents steps (length dims - 1) (Suc T) - slice_at dims starts extents steps (length dims - 1) T
      - step_of steps (length dims - 1) * int (extents ! (length dims - 1))\<rparr>
    \<and> length idx = length dims \<and> digits_of extents (length dims - 1) (Suc T) idx"
proof -
  note f = inside_facts [OF s n]
  let ?a = "length dims - 1" and ?k = "map (skip_of dims extents steps) [0..<length dims]"
  have a0: "0 < ?a" using T by (cases "?a") simp_all
  have k: "?k ! ?a = step_of steps (?a - 1) * int (box_from dims ?a) - step_of steps ?a * int (extents ! ?a)"
    using n a0 by (simp add: skip_of_def)
  obtain idx where idx: "advance_loop extents ?k ?a (si_indices it, si_input it + ?k ! ?a)
      = (idx, si_input it + ?k ! ?a + slice_at dims starts extents steps ?a (Suc T)
          - slice_at dims starts extents steps ?a T - step_of steps (?a - 1) * int (box_from dims ?a))"
      "length idx = length dims" "digits_of extents ?a (Suc T) idx"
    using advance_loop_next [OF f(2) f(4) a0 _ it(3) T it(4), where p = "si_input it + ?k ! ?a" and steps = steps] by auto
  have eq: "si_input it + ?k ! ?a + slice_at dims starts extents steps ?a (Suc T)
        - slice_at dims starts extents steps ?a T - step_of steps (?a - 1) * int (box_from dims ?a)
      = si_input it + slice_at dims starts extents steps ?a (Suc T) - slice_at dims starts extents steps ?a T
        - step_of steps ?a * int (extents ! ?a)" using k by linarith
  have "length (si_skips it) - 1 = ?a" by (simp add: it)
  then have "AdvanceOverInnerExtent it = it\<lparr>si_indices := idx, si_input := si_input it
      + slice_at dims starts extents steps ?a (Suc T) - slice_at dims starts extents steps ?a T
      - step_of steps ?a * int (extents ! ?a)\<rparr>"
    unfolding AdvanceOverInnerExtent_def Let_def it(1,2) by (simp only: it(1,2) idx(1) eq prod.case)
  with idx show ?thesis by blast
qed

lemma next_element:
  assumes s: "slice_inside dims starts extents steps" and n: "dims \<noteq> []"
    and it: "at_element dims starts extents steps data t it" and t: "Suc t < prod_list extents"
  shows "at_element dims starts extents steps data (Suc t) (IncrementInnerDimension it)"
proof -
  note f = inside_facts [OF s n]
  let ?a = "length dims - 1" and ?S = "slice_at dims starts extents steps"
  let ?e = "extents ! ?a"
  show ?thesis
  proof (cases "t mod ?e + 1 = ?e")
    case False
    then have m: "Suc t mod ?e = Suc (t mod ?e)" "Suc t div ?e = t div ?e" by (simp_all add: mod_Suc div_Suc)
    have "?S (length dims) (Suc t) = ?S (length dims) t + step_of steps ?a"
      using n by (simp add: slice_at_last m algebra_simps del: One_nat_def)
    with False it show ?thesis by (simp add: at_element_def IncrementInnerDimension_def m del: One_nat_def)
  next
    case True
    then have m: "Suc t mod ?e = 0" "Suc t div ?e = Suc (t div ?e)" by (simp_all add: mod_Suc div_Suc)
    have T: "Suc (t div ?e) < prod_list (take ?a extents)"
      using t m unfolding f(6) by (metis less_mult_imp_div_less)
    define it1 where "it1 = it\<lparr>si_input := si_input it + si_inner_step it, si_inner_counter := 0\<rparr>"
    have eq: "IncrementInnerDimension it = AdvanceOverInnerExtent it1"
      using True it by (simp add: IncrementInnerDimension_def it1_def at_element_def)
    obtain idx where idx: "AdvanceOverInnerExtent it1 = it1\<lparr>si_indices := idx, si_input := si_input it1
        + ?S ?a (Suc (t div ?e)) - ?S ?a (t div ?e) - step_of steps ?a * int ?e\<rparr>"
      "length idx = length dims" "digits_of extents ?a (Suc (t div ?e)) idx"
      using row_end [OF s n, of it1 "t div ?e"] T it by (auto simp: it1_def at_element_def)
    have u: "int (t mod ?e) = int ?e - 1" using True by linarith
    have "?S (length dims) (Suc t) = ?S (length dims) t + step_of steps ?a + ?S ?a (Suc (t div ?e)) - ?S ?a (t div ?e)
        - step_of steps ?a * int ?e"
      using n by (simp add: slice_at_last m u algebra_simps del: One_nat_def)
    with idx it show ?thesis by (simp add: eq at_element_def it1_def m del: One_nat_def)
  qed
qed

section \<open>Reading rows\<close>

abbreviation slice_elements :: "nat list \<Rightarrow> int list \<Rightarrow> nat list \<Rightarrow> int list \<Rightarrow> 'a list \<Rightarrow> nat \<Rightarrow> nat \<Rightarrow> 'a list" where
  "slice_elements dims starts extents steps data t m \<equiv>
     map (\<lambda>u. data ! nat (slice_at dims starts extents steps (length dims) u)) [t..<t + m]"

lemma deref_at_element:
  assumes "slice_inside dims starts extents steps" "at_element dims starts extents steps data t it"
    and "length data = prod_list dims"
  shows "deref it = Inr (data ! nat (slice_at dims starts extents steps (length dims) t))"
  using slice_at_inside [OF assms(1), of t] assms(2,3) by (simp add: deref_def at_element_def)

lemma typed_copy_elements:
  assumes s: "slice_inside dims starts extents steps" and n: "dims \<noteq> []"
    and data: "length data = prod_list dims"
    and it: "0 < m \<Longrightarrow> at_element dims starts extents steps data t it" and t: "t + m \<le> prod_list extents"
  shows "\<exists>it'. typed_copy m it = Inr (it', slice_elements dims starts extents steps data t m)
    \<and> (0 < m \<longrightarrow> t + m < prod_list extents \<longrightarrow> at_element dims starts extents steps data (t + m) it')"
  using it t
proof (induction m arbitrary: t it)
  case 0
  then show ?case by simp
next
  case (Suc m)
  have it: "at_element dims starts extents steps data t it" using Suc.prems by simp
  have nx: "0 < m \<Longrightarrow> at_element dims starts extents steps data (Suc t) (IncrementInnerDimension it)"
    using next_element [OF s n it] Suc.prems(2) by simp
  obtain it' where it': "typed_copy m (IncrementInnerDimension it)
      = Inr (it', slice_elements dims starts extents steps data (Suc t) m)"
    "0 < m \<longrightarrow> Suc t + m < prod_list extents \<longrightarrow> at_element dims starts extents steps data (Suc t + m) it'"
    using Suc.IH [OF nx] Suc.prems(2) by auto
  have "t + Suc m < prod_list extents \<Longrightarrow> at_element dims starts extents steps data (t + Suc m) it'"
  proof (cases "m = 0")
    case True
    assume "t + Suc m < prod_list extents"
    then show ?thesis using True it' next_element [OF s n it] by simp
  qed (use it' in simp)
  moreover have "[t..<t + Suc m] = t # [Suc t..<Suc t + m]" by (simp add: upt_conv_Cons)
  ultimately show ?case using it' deref_at_element [OF s it data] by simp
qed

text \<open>Along a row the positions are one step apart.\<close>

lemma slice_at_row:
  assumes n: "dims \<noteq> []" and e: "k < extents ! (length dims - 1)"
  shows "slice_at dims starts extents steps (length dims) (R * extents ! (length dims - 1) + k)
    = slice_at dims starts extents steps (length dims) (R * extents ! (length dims - 1)) + step_of steps (length dims - 1) * int k"
proof -
  have e0: "0 < extents ! (length dims - 1)" using e by simp
  show ?thesis
    unfolding slice_at_last [OF n] div_mult_add [OF e] mod_mult_add [OF e] using e0 by simp
qed

lemma row_in_data:
  assumes s: "slice_inside dims starts extents steps" and n: "dims \<noteq> []"
    and one: "step_of steps (length dims - 1) = 1" and data: "length data = prod_list dims"
  shows "nat (slice_at dims starts extents steps (length dims) (R * extents ! (length dims - 1)))
      + extents ! (length dims - 1) \<le> length data"
    and "take (extents ! (length dims - 1)) (drop (nat (slice_at dims starts extents steps (length dims)
        (R * extents ! (length dims - 1)))) data)
      = slice_elements dims starts extents steps data (R * extents ! (length dims - 1)) (extents ! (length dims - 1))"
proof -
  let ?e = "extents ! (length dims - 1)" and ?S = "slice_at dims starts extents steps (length dims)"
  have e: "0 < ?e" using inside_facts [OF s n] by simp
  have k: "?S (R * ?e + k) = ?S (R * ?e) + int k" if "k < ?e" for k
    using slice_at_row [OF n that, of starts steps R] one by simp
  have pos: "0 \<le> ?S (R * ?e)" by (rule slice_at_inside [OF s])
  have "?S (R * ?e) + int (?e - 1) < int (length data)"
    using slice_at_inside(2) [OF s, of "R * ?e + (?e - 1)"] k [of "?e - 1"] e data by simp
  then show le: "nat (?S (R * ?e)) + ?e \<le> length data" using e pos by linarith
  show "take ?e (drop (nat (?S (R * ?e))) data) = slice_elements dims starts extents steps data (R * ?e) ?e"
  proof (rule nth_equalityI)
    show "length (take ?e (drop (nat (?S (R * ?e))) data)) = length (slice_elements dims starts extents steps data (R * ?e) ?e)"
      using le by simp
    fix i assume "i < length (take ?e (drop (nat (?S (R * ?e))) data))"
    then have i: "i < ?e" by simp
    have "nat (?S (R * ?e) + int i) = nat (?S (R * ?e)) + i" using pos by simp
    then show "take ?e (drop (nat (?S (R * ?e))) data) ! i = slice_elements dims starts extents steps data (R * ?e) ?e ! i"
      using i le k [OF i] by (simp del: One_nat_def)
  qed
qed

text \<open>Calling one of the row copies \<open>k\<close> times, with the output pointer it returned.\<close>

fun copy_rows :: "('a slice_iterator \<Rightarrow> ('a slice_iterator \<times> 'a list) res) \<Rightarrow> nat \<Rightarrow> 'a slice_iterator \<Rightarrow> 'a list res" where
  "copy_rows copy_row 0 it = Inr []"
| "copy_rows copy_row (Suc k) it =
     bindE (copy_row it) (\<lambda>(it, xs). bindE (copy_rows copy_row k it) (\<lambda>ys. Inr (xs @ ys)))"

text \<open>What the caller of the row copies relies on; \<open>ok\<close> is the condition under which it may call one.\<close>

locale row_copy =
  fixes copy_row :: "'a slice_iterator \<Rightarrow> ('a slice_iterator \<times> 'a list) res" and ok :: "'a slice_iterator \<Rightarrow> bool"
  assumes copies_row: "slice_inside dims starts extents steps \<Longrightarrow> dims \<noteq> [] \<Longrightarrow> length data = prod_list dims \<Longrightarrow>
      at_element dims starts extents steps data (R * extents ! (length dims - 1)) it \<Longrightarrow>
      Suc R \<le> prod_list (take (length dims - 1) extents) \<Longrightarrow> ok it \<Longrightarrow>
      \<exists>it'. copy_row it = Inr (it', slice_elements dims starts extents steps data (R * extents ! (length dims - 1)) (extents ! (length dims - 1)))
        \<and> (Suc R < prod_list (take (length dims - 1) extents) \<longrightarrow>
             at_element dims starts extents steps data (Suc R * extents ! (length dims - 1)) it' \<and> ok it')"
begin

lemma rows_from:
  assumes s: "slice_inside dims starts extents steps" and n: "dims \<noteq> []" and data: "length data = prod_list dims"
    and it: "0 < k \<Longrightarrow> at_element dims starts extents steps data (R * extents ! (length dims - 1)) it \<and> ok it"
    and R: "R + k \<le> prod_list (take (length dims - 1) extents)"
  shows "copy_rows copy_row k it = Inr (slice_elements dims starts extents steps data (R * extents ! (length dims - 1)) (k * extents ! (length dims - 1)))"
  using it R
proof (induction k arbitrary: R it)
  case 0
  then show ?case by simp
next
  case (Suc k)
  let ?e = "extents ! (length dims - 1)"
  obtain it' where it': "copy_row it = Inr (it', slice_elements dims starts extents steps data (R * ?e) ?e)"
    "Suc R < prod_list (take (length dims - 1) extents) \<longrightarrow> at_element dims starts extents steps data (Suc R * ?e) it' \<and> ok it'"
    using copies_row [OF s n data, of R it] Suc.prems by auto
  have "copy_rows copy_row k it' = Inr (slice_elements dims starts extents steps data (Suc R * ?e) (k * ?e))"
    by (rule Suc.IH) (use it'(2) Suc.prems(2) in auto)
  moreover have "[R * ?e..<R * ?e + Suc k * ?e] = [R * ?e..<R * ?e + ?e] @ [Suc R * ?e..<Suc R * ?e + k * ?e]"
    using upt_add_eq_append [of "R * ?e" "R * ?e + ?e" "k * ?e"] by (simp add: algebra_simps)
  ultimately show ?case using it'(1) by simp
qed

end

lemma solitary_row:
  assumes s: "slice_inside dims starts extents steps" and n: "dims \<noteq> []" and data: "length data = prod_list dims"
    and it: "at_element dims starts extents steps data (R * extents ! (length dims - 1)) it"
    and R: "Suc R \<le> prod_list (take (length dims - 1) extents)" and ok: "SolitaryInnerStep it"
  shows "\<exists>it'. CopyInnermostAxisSolitaryInnerStep it = Inr (it', slice_elements dims starts extents steps data
        (R * extents ! (length dims - 1)) (extents ! (length dims - 1)))
    \<and> (Suc R < prod_list (take (length dims - 1) extents) \<longrightarrow>
         at_element dims starts extents steps data (Suc R * extents ! (length dims - 1)) it' \<and> SolitaryInnerStep it')"
proof -
  note f = inside_facts [OF s n]
  let ?a = "length dims - 1" and ?S = "slice_at dims starts extents steps (length dims)"
  let ?e = "extents ! ?a"
  have one: "step_of steps ?a = 1" using ok it by (simp add: SolitaryInnerStep_def at_element_def)
  note row = row_in_data [OF s n one data, of R]
  define it1 where "it1 = it\<lparr>si_input := si_input it + int (si_inner_extent it)\<rparr>"
  have pos: "0 \<le> ?S (R * ?e)" by (rule slice_at_inside [OF s])
  have cp: "CopyInnermostAxisSolitaryInnerStep it
      = Inr (AdvanceOverInnerExtent it1, slice_elements dims starts extents steps data (R * ?e) ?e)"
    using it pos row by (simp add: CopyInnermostAxisSolitaryInnerStep_def at_element_def it1_def Let_def del: One_nat_def)
  have "at_element dims starts extents steps data (Suc R * ?e) (AdvanceOverInnerExtent it1)
      \<and> SolitaryInnerStep (AdvanceOverInnerExtent it1)"
    if R1: "Suc R < prod_list (take ?a extents)"
  proof -
    have T: "R * ?e div ?e = R" "Suc R * ?e div ?e = Suc R" "R * ?e mod ?e = 0" "Suc R * ?e mod ?e = 0"
      using f(5) by simp_all
    obtain idx where idx: "AdvanceOverInnerExtent it1 = it1\<lparr>si_indices := idx, si_input := si_input it1
          + slice_at dims starts extents steps ?a (Suc R) - slice_at dims starts extents steps ?a R - step_of steps ?a * int ?e\<rparr>"
        "length idx = length dims" "digits_of extents ?a (Suc R) idx"
      using row_end [OF s n _ _ _ _ R1, where it = it1] it T(1) by (auto simp: it1_def at_element_def simp del: One_nat_def)
    have "?S (Suc R * ?e) = ?S (R * ?e) + slice_at dims starts extents steps ?a (Suc R) - slice_at dims starts extents steps ?a R"
      unfolding slice_at_last [OF n] T by simp
    then show ?thesis
      using idx it T one by (simp add: at_element_def it1_def SolitaryInnerStep_def del: One_nat_def mult_Suc)
  qed
  with cp show ?thesis by blast
qed

interpretation solitary: row_copy CopyInnermostAxisSolitaryInnerStep SolitaryInnerStep
  by unfold_locales (rule solitary_row)

interpretation strided: row_copy "CopyInnermostAxisNonSolitaryInnerStep is_string element_size" 
  "\<lambda>_. is_string \<or> element_size \<in> {1, 2, 4, 8}"
proof unfold_locales
  fix dims :: "nat list" and starts extents steps and data :: "'a list" and R it
  assume s: "slice_inside dims starts extents steps" and n: "dims \<noteq> []" and data: "length data = prod_list dims"
    and it: "at_element dims starts extents steps data (R * extents ! (length dims - 1)) it"
    and R: "Suc R \<le> prod_list (take (length dims - 1) extents)" and ok: "is_string \<or> element_size \<in> {1, 2, 4, 8}"
  let ?e = "extents ! (length dims - 1)"
  note f = inside_facts [OF s n]
  have le: "Suc R * ?e \<le> prod_list extents" unfolding f(6) using R by (rule mult_le_mono1)
  have lt: "Suc R * ?e < prod_list extents" if "Suc R < prod_list (take (length dims - 1) extents)"
    unfolding f(6) by (rule mult_strict_right_mono [OF that f(5)])
  have e: "si_inner_extent it = ?e" using it by (simp add: at_element_def)
  have sum: "R * ?e + ?e = Suc R * ?e" by simp
  obtain it' where "typed_copy ?e it = Inr (it', slice_elements dims starts extents steps data (R * ?e) ?e)"
    "0 < ?e \<longrightarrow> R * ?e + ?e < prod_list extents \<longrightarrow> at_element dims starts extents steps data (R * ?e + ?e) it'"
    using typed_copy_elements [OF s n data, of ?e "R * ?e" it] it le by (auto simp del: One_nat_def)
  with lt f(5) show "\<exists>it'. CopyInnermostAxisNonSolitaryInnerStep is_string element_size it
      = Inr (it', slice_elements dims starts extents steps data (R * ?e) ?e)
    \<and> (Suc R < prod_list (take (length dims - 1) extents) \<longrightarrow>
         at_element dims starts extents steps data (Suc R * ?e) it' \<and> (is_string \<or> element_size \<in> {1, 2, 4, 8}))"
    using ok unfolding sum by (simp add: CopyInnermostAxisNonSolitaryInnerStep_def e del: One_nat_def mult_Suc)
qed

section \<open>Writing rows\<close>

text \<open>The data after the elements from \<open>t\<close> on, which lie at the positions \<open>P\<close>, have been given the values \<open>xs\<close>.\<close>

fun slice_put :: "(nat \<Rightarrow> nat) \<Rightarrow> nat \<Rightarrow> 'a list \<Rightarrow> 'a list \<Rightarrow> 'a list" where
  "slice_put P t [] data = data"
| "slice_put P t (x # xs) data = slice_put P (Suc t) xs (data[P t := x])"

lemma length_slice_put [simp]: "length (slice_put P t xs data) = length data"
  by (induction xs arbitrary: t data) simp_all

lemma slice_put_append: "slice_put P t (xs @ ys) data = slice_put P (t + length xs) ys (slice_put P t xs data)"
  by (induction xs arbitrary: t data) simp_all

lemma slice_put_block:
  "(\<And>k. k < length xs \<Longrightarrow> P (t + k) = i + k) \<Longrightarrow> i + length xs \<le> length data \<Longrightarrow>
     slice_put P t xs data = take i data @ xs @ drop (i + length xs) data"
proof (induction xs arbitrary: t i data)
  case Nil
  then show ?case by simp
next
  case (Cons x xs)
  have "slice_put P (Suc t) xs (data[i := x])
      = take (Suc i) (data[i := x]) @ xs @ drop (Suc i + length xs) (data[i := x])"
  proof (rule Cons.IH)
    fix k assume "k < length xs"
    then show "P (Suc t + k) = Suc i + k" using Cons.prems(1) [of "Suc k"] by simp
  qed (use Cons.prems in simp)
  moreover have "take (Suc i) (data[i := x]) = take i data @ [x]"
    using Cons.prems(2) by (simp add: take_Suc_conv_app_nth)
  ultimately show ?case using Cons.prems(1) [of 0] by simp
qed

lemma slice_put_other: "j \<notin> P ` {t..<t + length xs} \<Longrightarrow> slice_put P t xs data ! j = data ! j"
proof (induction xs arbitrary: t data)
  case (Cons x xs)
  have "P t \<noteq> j" "j \<notin> P ` {Suc t..<Suc t + length xs}" using Cons.prems by auto
  then show ?case using Cons.IH by simp
qed simp

lemma slice_put_at:
  "inj_on P {t..<t + length xs} \<Longrightarrow> k < length xs \<Longrightarrow> P (t + k) < length data \<Longrightarrow>
     slice_put P t xs data ! P (t + k) = xs ! k"
proof (induction xs arbitrary: t k data)
  case (Cons x xs)
  have sub: "{Suc t..<Suc t + length xs} \<subseteq> {t..<t + length (x # xs)}" by auto
  show ?case
  proof (cases k)
    case 0
    have "P t \<notin> P ` {Suc t..<Suc t + length xs}"
      using inj_on_image_mem_iff [OF Cons.prems(1) _ sub, of t] by simp
    then show ?thesis using Cons.prems 0 by (simp add: slice_put_other)
  next
    case (Suc k')
    have "inj_on P {Suc t..<Suc t + length xs}" using Cons.prems(1) sub by (rule inj_on_subset)
    then show ?thesis using Cons.IH [of "Suc t" k' "data[P t := x]"] Cons.prems Suc by simp
  qed
qed simp

abbreviation slice_index :: "nat list \<Rightarrow> int list \<Rightarrow> nat list \<Rightarrow> int list \<Rightarrow> nat \<Rightarrow> nat" where
  "slice_index dims starts extents steps \<equiv> \<lambda>u. nat (slice_at dims starts extents steps (length dims) u)"

lemma si_data_Increment [simp]: "si_data (IncrementInnerDimension it) = si_data it"
  by (simp add: IncrementInnerDimension_def AdvanceOverInnerExtent_def Let_def split: prod.split)

lemma si_data_Advance [simp]: "si_data (AdvanceOverInnerExtent it) = si_data it"
  by (simp add: AdvanceOverInnerExtent_def Let_def split: prod.split)

lemma assign_element:
  assumes s: "slice_inside dims starts extents steps" and data: "length data = prod_list dims"
    and it: "at_element dims starts extents steps data t it"
  shows "assign it x = Inr (it\<lparr>si_data := data[slice_index dims starts extents steps t := x]\<rparr>)"
    and "at_element dims starts extents steps (data[slice_index dims starts extents steps t := x]) t
      (it\<lparr>si_data := data[slice_index dims starts extents steps t := x]\<rparr>)"
  using slice_at_inside [OF s, of t] it data by (auto simp: assign_def at_element_def vset_def)

lemma copy_from_elements:
  assumes s: "slice_inside dims starts extents steps" and n: "dims \<noteq> []" and data: "length data = prod_list dims"
    and it: "at_element dims starts extents steps data t it" and t: "t + m \<le> prod_list extents" and src: "m \<le> length src"
    and m: "0 < m"
  shows "\<exists>it'. copy_from m src it = Inr (it', drop m src)
    \<and> si_data it' = slice_put (slice_index dims starts extents steps) t (take m src) data
    \<and> (t + m < prod_list extents \<longrightarrow> at_element dims starts extents steps (si_data it') (t + m) it')"
  using it t src data m
proof (induction m arbitrary: t src data it)
  case 0
  then show ?case by simp
next
  case (Suc m)
  let ?P = "slice_index dims starts extents steps"
  from Suc.prems(3) obtain x xs where src: "src = x # xs" by (cases src) auto
  define it1 where "it1 = it\<lparr>si_data := data[?P t := x]\<rparr>"
  note as = assign_element [OF s Suc.prems(4,1), of x, folded it1_def]
  have sd: "si_data (IncrementInnerDimension it1) = data[?P t := x]" by (simp add: it1_def)
  have nx: "at_element dims starts extents steps (data[?P t := x]) (Suc t) (IncrementInnerDimension it1)"
    if "Suc t < prod_list extents"
    by (rule next_element [OF s n as(2) that])
  show ?case
  proof (cases "m = 0")
    case True
    then show ?thesis using src as(1) sd nx by simp
  next
    case False
    then have "Suc t < prod_list extents" using Suc.prems(2) by simp
    then obtain it' where "copy_from m xs (IncrementInnerDimension it1) = Inr (it', drop m xs)"
      "si_data it' = slice_put ?P (Suc t) (take m xs) (data[?P t := x])"
      "Suc t + m < prod_list extents \<longrightarrow> at_element dims starts extents steps (si_data it') (Suc t + m) it'"
      using Suc.IH [OF nx, of xs] Suc.prems False src by auto
    then show ?thesis using src as(1) by simp
  qed
qed

text \<open>Calling one of the writing row copies \<open>k\<close> times.\<close>

fun write_rows :: "('a list \<Rightarrow> 'a slice_iterator \<Rightarrow> ('a slice_iterator \<times> 'a list) res) \<Rightarrow> nat \<Rightarrow> 'a list \<Rightarrow>
    'a slice_iterator \<Rightarrow> 'a slice_iterator res" where
  "write_rows write_row 0 src it = Inr it"
| "write_rows write_row (Suc k) src it = bindE (write_row src it) (\<lambda>(it, src). write_rows write_row k src it)"

locale row_write =
  fixes write_row :: "'a list \<Rightarrow> 'a slice_iterator \<Rightarrow> ('a slice_iterator \<times> 'a list) res" and ok :: "'a slice_iterator \<Rightarrow> bool"
  assumes writes_row: "slice_inside dims starts extents steps \<Longrightarrow> dims \<noteq> [] \<Longrightarrow> length data = prod_list dims \<Longrightarrow>
      at_element dims starts extents steps data (R * extents ! (length dims - 1)) it \<Longrightarrow>
      Suc R \<le> prod_list (take (length dims - 1) extents) \<Longrightarrow> ok it \<Longrightarrow> extents ! (length dims - 1) \<le> length src \<Longrightarrow>
      \<exists>it'. write_row src it = Inr (it', drop (extents ! (length dims - 1)) src)
        \<and> si_data it' = slice_put (slice_index dims starts extents steps) (R * extents ! (length dims - 1))
             (take (extents ! (length dims - 1)) src) data
        \<and> (Suc R < prod_list (take (length dims - 1) extents) \<longrightarrow>
             at_element dims starts extents steps (si_data it') (Suc R * extents ! (length dims - 1)) it' \<and> ok it')"
begin

lemma write_rows_from:
  assumes s: "slice_inside dims starts extents steps" and n: "dims \<noteq> []" and data: "length data = prod_list dims"
    and it: "at_element dims starts extents steps data (R * extents ! (length dims - 1)) it \<and> ok it"
    and R: "R + k \<le> prod_list (take (length dims - 1) extents)" and src: "k * extents ! (length dims - 1) \<le> length src"
    and k: "0 < k"
  shows "\<exists>it'. write_rows write_row k src it = Inr it'
    \<and> si_data it' = slice_put (slice_index dims starts extents steps) (R * extents ! (length dims - 1))
         (take (k * extents ! (length dims - 1)) src) data"
  using it R src data k
proof (induction k arbitrary: R it src data)
  case 0
  then show ?case by simp
next
  case (Suc k)
  let ?e = "extents ! (length dims - 1)" and ?P = "slice_index dims starts extents steps"
  have es: "?e \<le> length src" using Suc.prems(3) by simp
  obtain it' where it': "write_row src it = Inr (it', drop ?e src)"
    "si_data it' = slice_put ?P (R * ?e) (take ?e src) data"
    "Suc R < prod_list (take (length dims - 1) extents) \<longrightarrow>
       at_element dims starts extents steps (si_data it') (Suc R * ?e) it' \<and> ok it'"
    using writes_row [OF s n Suc.prems(4), of R it src] Suc.prems es by auto
  show ?case
  proof (cases "k = 0")
    case True
    then show ?thesis using it' by (simp del: One_nat_def)
  next
    case False
    then have R1: "Suc R < prod_list (take (length dims - 1) extents)" using Suc.prems(2) by simp
    have "\<exists>it''. write_rows write_row k (drop ?e src) it' = Inr it''
      \<and> si_data it'' = slice_put ?P (Suc R * ?e) (take (k * ?e) (drop ?e src)) (si_data it')"
    proof (rule Suc.IH)
      show "at_element dims starts extents steps (si_data it') (Suc R * ?e) it' \<and> ok it'" using it'(3) R1 by blast
      show "length (si_data it') = prod_list dims" using it'(2) Suc.prems(4) by simp
      show "k * ?e \<le> length (drop ?e src)" using Suc.prems(3) by simp
    qed (use False Suc.prems in simp_all)
    then obtain it'' where it'': "write_rows write_row k (drop ?e src) it' = Inr it''"
      "si_data it'' = slice_put ?P (Suc R * ?e) (take (k * ?e) (drop ?e src)) (si_data it')" by blast
    have "take (Suc k * ?e) src = take ?e src @ take (k * ?e) (drop ?e src)" by (simp add: take_add)
    moreover have "R * ?e + length (take ?e src) = Suc R * ?e" using es by simp
    ultimately have "slice_put ?P (R * ?e) (take (Suc k * ?e) src) data = si_data it''"
      using it''(2) it'(2) by (simp only: slice_put_append)
    with it' it'' show ?thesis by simp
  qed
qed

end

lemma solitary_write:
  assumes s: "slice_inside dims starts extents steps" and n: "dims \<noteq> []" and data: "length data = prod_list dims"
    and it: "at_element dims starts extents steps data (R * extents ! (length dims - 1)) it"
    and R: "Suc R \<le> prod_list (take (length dims - 1) extents)" and ok: "SolitaryInnerStep it"
    and src: "extents ! (length dims - 1) \<le> length src"
  shows "\<exists>it'. CopyFromInnermostAxisSolitaryInnerStep src it = Inr (it', drop (extents ! (length dims - 1)) src)
    \<and> si_data it' = slice_put (slice_index dims starts extents steps) (R * extents ! (length dims - 1))
         (take (extents ! (length dims - 1)) src) data
    \<and> (Suc R < prod_list (take (length dims - 1) extents) \<longrightarrow>
         at_element dims starts extents steps (si_data it') (Suc R * extents ! (length dims - 1)) it' \<and> SolitaryInnerStep it')"
proof -
  note f = inside_facts [OF s n]
  let ?a = "length dims - 1" and ?S = "slice_at dims starts extents steps (length dims)"
  let ?e = "extents ! ?a" and ?P = "slice_index dims starts extents steps"
  have one: "step_of steps ?a = 1" using ok it by (simp add: SolitaryInnerStep_def at_element_def)
  note row = row_in_data [OF s n one data, of R]
  let ?i = "?P (R * ?e)"
  define data' where "data' = take ?i data @ take ?e src @ drop (?i + ?e) data"
  define it1 where "it1 = it\<lparr>si_data := data'\<rparr>"
  have pos: "0 \<le> ?S (R * ?e)" by (rule slice_at_inside [OF s])
  have put: "slice_put ?P (R * ?e) (take ?e src) data = data'"
  proof -
    have len: "length (take ?e src) = ?e" using src by simp
    have "slice_put ?P (R * ?e) (take ?e src) data
        = take ?i data @ take ?e src @ drop (?i + length (take ?e src)) data"
    proof (rule slice_put_block)
      fix k assume "k < length (take ?e src)"
      then have "k < ?e" by simp
      then show "?P (R * ?e + k) = ?i + k"
        using slice_at_row [OF n, of k extents starts steps R] one pos by (simp del: One_nat_def)
    qed (use row(1) len in \<open>simp del: One_nat_def\<close>)
    then show ?thesis unfolding data'_def len .
  qed
  have data': "length data' = prod_list dims" using data by (simp flip: put)
  have it1: "at_element dims starts extents steps data' (R * ?e) it1"
    using it by (simp add: at_element_def it1_def)
  have e: "si_inner_extent it = ?e" "si_input it = ?S (R * ?e)" "si_data it = data"
    using it by (simp_all add: at_element_def)
  have cp: "CopyFromInnermostAxisSolitaryInnerStep src it
      = Inr (AdvanceOverInnerExtent (it1\<lparr>si_input := si_input it1 + int (si_inner_extent it1)\<rparr>), drop ?e src)"
    using pos row(1) src
    by (simp add: CopyFromInnermostAxisSolitaryInnerStep_def Let_def e it1_def data'_def del: One_nat_def)
  have rd: "CopyInnermostAxisSolitaryInnerStep it1
      = Inr (AdvanceOverInnerExtent (it1\<lparr>si_input := si_input it1 + int (si_inner_extent it1)\<rparr>),
          take ?e (drop ?i data'))"
    using pos row(1) data data' by (simp add: CopyInnermostAxisSolitaryInnerStep_def Let_def e it1_def del: One_nat_def)
  have "SolitaryInnerStep it1" using ok by (simp add: SolitaryInnerStep_def it1_def)
  from solitary_row [OF s n data' it1 R this]
  have "Suc R < prod_list (take ?a extents) \<longrightarrow>
      at_element dims starts extents steps data' (Suc R * ?e)
        (AdvanceOverInnerExtent (it1\<lparr>si_input := si_input it1 + int (si_inner_extent it1)\<rparr>))
      \<and> SolitaryInnerStep (AdvanceOverInnerExtent (it1\<lparr>si_input := si_input it1 + int (si_inner_extent it1)\<rparr>))"
    by (simp only: rd sum.inject prod.inject) blast
  with cp put show ?thesis by (simp add: it1_def)
qed

interpretation solitary_in: row_write CopyFromInnermostAxisSolitaryInnerStep SolitaryInnerStep
  by unfold_locales (rule solitary_write)

interpretation strided_in: row_write CopyFromInnermostAxisNonSolitaryInnerStep "\<lambda>_. True"
proof unfold_locales
  fix dims :: "nat list" and starts extents steps and data :: "'a list" and R it and src :: "'a list"
  assume s: "slice_inside dims starts extents steps" and n: "dims \<noteq> []" and data: "length data = prod_list dims"
    and it: "at_element dims starts extents steps data (R * extents ! (length dims - 1)) it"
    and R: "Suc R \<le> prod_list (take (length dims - 1) extents)" and src: "extents ! (length dims - 1) \<le> length src"
  let ?e = "extents ! (length dims - 1)"
  note f = inside_facts [OF s n]
  have sum: "Suc R * ?e = R * ?e + ?e" by simp
  have le: "R * ?e + ?e \<le> prod_list extents"
    unfolding f(6) using mult_le_mono1 [OF R, of ?e] by simp
  have lt: "Suc R < prod_list (take (length dims - 1) extents) \<Longrightarrow> R * ?e + ?e < prod_list extents"
    unfolding f(6) sum [symmetric] by (rule mult_strict_right_mono [OF _ f(5)])
  have e: "si_inner_extent it = ?e" using it by (simp add: at_element_def)
  show "\<exists>it'. CopyFromInnermostAxisNonSolitaryInnerStep src it = Inr (it', drop ?e src)
    \<and> si_data it' = slice_put (slice_index dims starts extents steps) (R * ?e) (take ?e src) data
    \<and> (Suc R < prod_list (take (length dims - 1) extents) \<longrightarrow>
         at_element dims starts extents steps (si_data it') (Suc R * ?e) it' \<and> True)"
    unfolding CopyFromInnermostAxisNonSolitaryInnerStep_def e sum
    using copy_from_elements [OF s n data it le src f(5)] lt by blast
qed

section \<open>What the iterators achieve\<close>

text \<open>
  C16. For a slice that lies inside the tensor, SliceIterator and WritableSliceIterator can be made, and going
  through all elements with the postfix increment yields the elements of the slice in row-major order, each
  access inside the tensor. The row copies, called once per row, yield the same: the one without steps
  when the inner step is 1, that of SliceIterator with steps for strings and for elements of 1, 2, 4 or 8 bytes.
\<close>

theorem slice_iterates:
  assumes s: "slice_inside dims starts extents steps" and n: "dims \<noteq> []" and data: "length data = prod_list dims"
    and w: "writable \<longrightarrow> length steps = length dims"
  shows "\<exists>it it'. (if writable then WritableSliceIterator else SliceIterator) data dims starts extents steps = Inr it
    \<and> typed_copy (prod_list extents) it
        = Inr (it', map (\<lambda>t. data ! nat (slice_at dims starts extents steps (length dims) t)) [0..<prod_list extents])
    \<and> (SolitaryInnerStep it \<longrightarrow> copy_rows CopyInnermostAxisSolitaryInnerStep (prod_list (take (length dims - 1) extents)) it
        = Inr (map (\<lambda>t. data ! nat (slice_at dims starts extents steps (length dims) t)) [0..<prod_list extents]))
    \<and> (\<not> writable \<and> (is_string \<or> element_size \<in> {1, 2, 4, 8}) \<longrightarrow>
        copy_rows (CopyInnermostAxisNonSolitaryInnerStep is_string element_size) (prod_list (take (length dims - 1) extents)) it
        = Inr (map (\<lambda>t. data ! nat (slice_at dims starts extents steps (length dims) t)) [0..<prod_list extents]))"
proof -
  note f = inside_facts [OF s n]
  obtain it where it: "bindE (SliceSkips dims extents steps) (slice_Init writable data dims starts extents steps) = Inr it"
    "at_element dims starts extents steps data 0 it"
    using slice_init_state [OF s n w] by blast
  have mk: "(if writable then WritableSliceIterator else SliceIterator) data dims starts extents steps = Inr it"
    using it(1) by (cases writable) (simp_all add: WritableSliceIterator_def SliceIterator_def)
  obtain it' where rd: "typed_copy (prod_list extents) it
      = Inr (it', slice_elements dims starts extents steps data 0 (prod_list extents))"
    using typed_copy_elements [OF s n data, of "prod_list extents" 0 it] it(2) by auto
  have it0: "at_element dims starts extents steps data (0 * extents ! (length dims - 1)) it" using it(2) by simp
  have so: "SolitaryInnerStep it \<Longrightarrow> copy_rows CopyInnermostAxisSolitaryInnerStep (prod_list (take (length dims - 1) extents)) it
      = Inr (slice_elements dims starts extents steps data 0 (prod_list extents))"
    using solitary.rows_from [OF s n data, of "prod_list (take (length dims - 1) extents)" 0 it] it0
    by (simp add: f(6) del: One_nat_def)
  have st: "is_string \<or> element_size \<in> {1, 2, 4, 8} \<Longrightarrow>
      copy_rows (CopyInnermostAxisNonSolitaryInnerStep is_string element_size) (prod_list (take (length dims - 1) extents)) it
      = Inr (slice_elements dims starts extents steps data 0 (prod_list extents))"
    using strided.rows_from [OF s n data, of "prod_list (take (length dims - 1) extents)" 0 it is_string element_size] it0
    by (simp add: f(6) del: One_nat_def)
  from mk rd so st show ?thesis unfolding add_0 by blast
qed

lemma example_inside: "slice_inside [2, 5] [0, 4] [2, 2] [1, -2]"
  by code_simp

theorem slice_iterates_witness:
  "\<exists>it it'. SliceIterator [0..<10] [2, 5] [0, 4] [2, 2] [1, -2] = Inr it \<and> typed_copy 4 it = Inr (it', [4, 2, 9, 7])
    \<and> copy_rows (CopyInnermostAxisNonSolitaryInnerStep False 8) 2 it = Inr [4, 2, 9, 7]"
proof -
  have "map (\<lambda>t. [0..<10] ! nat (slice_at [2, 5] [0, 4] [2, 2] [1, -2] 2 t)) [0..<4] = [4, 2, 9, 7]" by code_simp
  then show ?thesis
    using slice_iterates [OF example_inside, of "[0..<10]" False False 8] by (simp add: numeral_2_eq_2 [symmetric] del: upt_rec_numeral) blast
qed

text \<open>
  C28. Writing rows through a WritableSliceIterator and reading the slice back gives what was written, and
  leaves every element outside the slice as it was, when no step is 0.
\<close>

theorem slice_write_read:
  assumes s: "slice_inside dims starts extents steps" and n: "dims \<noteq> []" and data: "length data = prod_list dims"
    and w: "length steps = length dims" "0 \<notin> set steps" and src: "length src = prod_list extents"
  shows "\<exists>it it1 it2 data'. WritableSliceIterator data dims starts extents steps = Inr it
    \<and> write_rows CopyFromInnermostAxisNonSolitaryInnerStep (prod_list (take (length dims - 1) extents)) src it = Inr it1
    \<and> (SolitaryInnerStep it \<longrightarrow>
        write_rows CopyFromInnermostAxisSolitaryInnerStep (prod_list (take (length dims - 1) extents)) src it = Inr it2
        \<and> si_data it2 = data')
    \<and> si_data it1 = data' \<and> length data' = length data
    \<and> map (\<lambda>t. data' ! nat (slice_at dims starts extents steps (length dims) t)) [0..<prod_list extents] = src
    \<and> (\<forall>j. (\<forall>t < prod_list extents. int j \<noteq> slice_at dims starts extents steps (length dims) t) \<longrightarrow> data' ! j = data ! j)"
proof -
  note f = inside_facts [OF s n]
  let ?S = "slice_at dims starts extents steps (length dims)" and ?P = "slice_index dims starts extents steps"
  let ?K = "prod_list (take (length dims - 1) extents)"
  define data' where "data' = slice_put ?P 0 src data"
  obtain it where it: "WritableSliceIterator data dims starts extents steps = Inr it"
    "at_element dims starts extents steps data 0 it"
    using slice_init_state [OF s n, of True data] w by (auto simp: WritableSliceIterator_def)
  have it0: "at_element dims starts extents steps data (0 * extents ! (length dims - 1)) it" using it(2) by simp
  have K: "0 < ?K" using f(4) f(2) by (auto simp: prod_list_pos_iff in_set_conv_nth)
  have Ks: "?K * extents ! (length dims - 1) \<le> length src" "take (?K * extents ! (length dims - 1)) src = src"
    using src f(6) by simp_all
  obtain it1 where it1: "write_rows CopyFromInnermostAxisNonSolitaryInnerStep ?K src it = Inr it1" "si_data it1 = data'"
    using strided_in.write_rows_from [OF s n data conjI [OF it0 TrueI] _ Ks(1) K] Ks(2) by (auto simp: data'_def)
  have it2: "\<exists>it2. SolitaryInnerStep it \<longrightarrow>
      write_rows CopyFromInnermostAxisSolitaryInnerStep ?K src it = Inr it2 \<and> si_data it2 = data'"
    using solitary_in.write_rows_from [OF s n data conjI [OF it0] _ Ks(1) K] Ks(2) by (auto simp: data'_def)
  have nz: "step_of steps i \<noteq> 0" if "i < length dims" for i
    using that w by (auto simp: step_of_def in_set_conv_nth)
  have inj: "inj_on ?P {0..<0 + length src}"
  proof (rule inj_onI)
    fix U W assume "U \<in> {0..<0 + length src}" "W \<in> {0..<0 + length src}" "?P U = ?P W"
    then show "U = W"
      using slice_at_inj [OF s nz, of U W] slice_at_inside(1) [OF s] src eq_nat_nat_iff by auto
  qed
  have "map (\<lambda>t. data' ! ?P t) [0..<prod_list extents] = src"
  proof (rule nth_equalityI)
    fix i assume "i < length (map (\<lambda>t. data' ! ?P t) [0..<prod_list extents])"
    then have i: "i < length src" using src by simp
    have "?P (0 + i) < length data" using slice_at_inside [OF s, of i] data by simp
    from slice_put_at [OF inj i this] i src show "map (\<lambda>t. data' ! ?P t) [0..<prod_list extents] ! i = src ! i"
      by (simp add: data'_def)
  qed (use src in simp)
  moreover have "data' ! j = data ! j" if j: "\<forall>t < prod_list extents. int j \<noteq> ?S t" for j
  proof -
    have "j \<notin> ?P ` {0..<0 + length src}" using j slice_at_inside(1) [OF s] src by auto
    then show ?thesis unfolding data'_def by (rule slice_put_other)
  qed
  moreover have "length data' = length data" by (simp add: data'_def)
  ultimately show ?thesis using it(1) it1 it2 by blast
qed

theorem slice_write_read_witness:
  "\<exists>it it1. WritableSliceIterator [0..<10] [2, 5] [0, 4] [2, 2] [1, -2] = Inr it
    \<and> write_rows CopyFromInnermostAxisNonSolitaryInnerStep 2 [40, 20, 90, 70] it = Inr it1
    \<and> map (\<lambda>t. si_data it1 ! nat (slice_at [2, 5] [0, 4] [2, 2] [1, -2] 2 t)) [0..<4] = [40, 20, 90, 70]"
  using slice_write_read [OF example_inside, of "[0..<10]" "[40, 20, 90, 70]"]
  by (fastforce simp: numeral_2_eq_2 [symmetric] simp del: upt_rec_numeral)

lemma writable_copy_elements:
  assumes s: "slice_inside dims starts extents steps" and n: "dims \<noteq> []" and data: "length data = prod_list dims"
    and it: "si_data it = data" "si_input it = slice_at dims starts extents steps (length dims) k"
      "si_inner_step it = step_of steps (length dims - 1)" and m: "k + m \<le> extents ! (length dims - 1)"
  shows "writable_copy m it = Inr (it\<lparr>si_input := si_input it + step_of steps (length dims - 1) * int m\<rparr>,
    slice_elements dims starts extents steps data k m)"
  using it m
proof (induction m arbitrary: k it)
  case 0
  then show ?case by simp
next
  case (Suc m)
  let ?S = "slice_at dims starts extents steps (length dims)" and ?st = "step_of steps (length dims - 1)"
  have d: "deref it = Inr (data ! nat (?S k))"
    using slice_at_inside [OF s, of k] Suc.prems(1,2) data by (simp add: deref_def)
  have upt: "[k..<k + Suc m] = k # [Suc k..<Suc k + m]" by (simp add: upt_conv_Cons)
  show ?case
  proof (cases "m = 0")
    case True
    then show ?thesis using d Suc.prems by (simp del: One_nat_def)
  next
    case False
    then have k: "k < extents ! (length dims - 1)" "Suc k < extents ! (length dims - 1)" using Suc.prems(4) by simp_all
    have "?S (Suc k) = ?S k + ?st"
      using slice_at_row [OF n k(1), of starts steps 0] slice_at_row [OF n k(2), of starts steps 0]
      by (simp add: algebra_simps del: One_nat_def)
    then have "writable_copy m (it\<lparr>si_input := si_input it + ?st\<rparr>)
        = Inr (it\<lparr>si_input := si_input it + ?st + ?st * int m\<rparr>, slice_elements dims starts extents steps data (Suc k) m)"
      using Suc.IH [of "it\<lparr>si_input := si_input it + ?st\<rparr>" "Suc k"] Suc.prems by (simp del: One_nat_def)
    then show ?thesis unfolding upt using d Suc.prems(3) by (simp add: algebra_simps del: One_nat_def upt_Suc)
  qed
qed

text \<open>
  The row copy of WritableSliceIterator that handles steps copies the first row, but does not go on to the next one: it
  leaves the iterator a row of steps further, with the counters as they were. In the box of 2 by 5 elements 0 to 9
  the slice of every second element, two in each row, is 0, 2, 5, 7; two calls give 0, 2, 4, 6.
\<close>

theorem writable_copy_stays_in_row:
  assumes s: "slice_inside dims starts extents steps" and n: "dims \<noteq> []" and data: "length data = prod_list dims"
    and w: "length steps = length dims"
  shows "(\<exists>it. WritableSliceIterator data dims starts extents steps = Inr it
      \<and> writable_CopyInnermostAxisNonSolitaryInnerStep it
        = Inr (it\<lparr>si_input := slice_at dims starts extents steps (length dims) 0 + step_of steps (length dims - 1) * int (extents ! (length dims - 1))\<rparr>,
            map (\<lambda>t. data ! nat (slice_at dims starts extents steps (length dims) t)) [0..<extents ! (length dims - 1)]))
    \<and> bindE (WritableSliceIterator [0..<10] [2, 5] [0, 0] [2, 2] [1, 2])
        (copy_rows writable_CopyInnermostAxisNonSolitaryInnerStep 2) = Inr [0, 2, 4, 6]
    \<and> map (\<lambda>t. [0..<10] ! nat (slice_at [2, 5] [0, 0] [2, 2] [1, 2] 2 t)) [0..<4] = [0, 2, 5, 7]"
proof -
  obtain it where it: "WritableSliceIterator data dims starts extents steps = Inr it"
    "at_element dims starts extents steps data 0 it"
    using slice_init_state [OF s n, of True data] w by (auto simp: WritableSliceIterator_def)
  have "writable_copy (extents ! (length dims - 1)) it
      = Inr (it\<lparr>si_input := si_input it + step_of steps (length dims - 1) * int (extents ! (length dims - 1))\<rparr>,
          slice_elements dims starts extents steps data 0 (extents ! (length dims - 1)))"
    by (rule writable_copy_elements [OF s n data]) (use it(2) in \<open>auto simp: at_element_def\<close>)
  then have "writable_CopyInnermostAxisNonSolitaryInnerStep it
      = Inr (it\<lparr>si_input := slice_at dims starts extents steps (length dims) 0 + step_of steps (length dims - 1) * int (extents ! (length dims - 1))\<rparr>,
          slice_elements dims starts extents steps data 0 (extents ! (length dims - 1)))"
    using it(2) by (simp add: writable_CopyInnermostAxisNonSolitaryInnerStep_def at_element_def del: One_nat_def)
  moreover have "bindE (WritableSliceIterator [0..<10] [2, 5] [0, 0] [2, 2] [1, 2])
      (copy_rows writable_CopyInnermostAxisNonSolitaryInnerStep 2) = Inr [0, 2, 4, 6]" by code_simp
  moreover have "map (\<lambda>t. [0..<10] ! nat (slice_at [2, 5] [0, 0] [2, 2] [1, 2] 2 t)) [0..<4] = [0, 2, 5, 7]" by code_simp
  ultimately show ?thesis using it(1) by simp
qed

theorem writable_copy_stays_in_row_witness:
  "\<exists>it. WritableSliceIterator [0..<10] [2, 5] [0, 4] [2, 2] [1, -2] = Inr it
    \<and> writable_CopyInnermostAxisNonSolitaryInnerStep it = Inr (it\<lparr>si_input := 0\<rparr>, [4, 2])"
proof -
  have "map (\<lambda>t. [0..<10] ! nat (slice_at [2, 5] [0, 4] [2, 2] [1, -2] 2 t)) [0..<2] = [4, 2]"
    "slice_at [2, 5] [0, 4] [2, 2] [1, -2] 2 0 + step_of [1, -2] 1 * 2 = 0" by code_simp+
  then show ?thesis
    using writable_copy_stays_in_row [OF example_inside, of "[0..<10]"]
    by (simp add: numeral_2_eq_2 [symmetric] del: upt_rec_numeral)
qed

section \<open>Pitches and counters\<close>

lemma pitch_loop_fills:
  assumes "length p = pad + length dims" "i < length dims"
    and "\<And>j. i + pad \<le> j \<Longrightarrow> j < length p \<Longrightarrow> p ! j = prod_list (drop (Suc j - pad) dims)"
  shows "\<exists>p'. pitch_loop dims pad i p = Inr p' \<and> length p' = length p
    \<and> (\<forall>j. pad \<le> j \<longrightarrow> j < length p \<longrightarrow> p' ! j = prod_list (drop (Suc j - pad) dims))"
  using assms
proof (induction i arbitrary: p)
  case 0
  then show ?case by simp
next
  case (Suc i)
  let ?p = "p[i + pad := p ! (i + 1 + pad) * dims ! (i + 1)]"
  have nx: "p ! (i + 1 + pad) = prod_list (drop (Suc (Suc i)) dims)" using Suc.prems by simp
  have pi: "p ! (i + 1 + pad) * dims ! (i + 1) = prod_list (drop (Suc i) dims)"
    using Suc.prems(2) unfolding nx by (simp flip: Cons_nth_drop_Suc)
  have "\<exists>p'. pitch_loop dims pad i ?p = Inr p' \<and> length p' = length ?p
    \<and> (\<forall>j. pad \<le> j \<longrightarrow> j < length ?p \<longrightarrow> p' ! j = prod_list (drop (Suc j - pad) dims))"
  proof (rule Suc.IH)
    fix j assume j: "i + pad \<le> j" "j < length ?p"
    show "?p ! j = prod_list (drop (Suc j - pad) dims)"
    proof (cases "j = i + pad")
      case True
      then show ?thesis using j pi by (simp add: Suc_diff_le)
    next
      case False
      then show ?thesis using Suc.prems(3) [of j] j by simp
    qed
  qed (use Suc.prems in simp_all)
  then show ?case using Suc.prems(1,2) by simp
qed

lemma pad_loop_fills:
  assumes len: "length p = pad + length dims" and pad: "0 < pad"
    and p: "\<And>j. pad \<le> j \<Longrightarrow> j < length p \<Longrightarrow> p ! j = prod_list (drop (Suc j - pad) dims)"
    and scalar: "dims = [] \<Longrightarrow> p ! (pad - 1) = 1"
  shows "foldE (pad_step dims pad) [0..<pad] p = Inr (map (\<lambda>j. prod_list (drop (Suc j - pad) dims)) [0..<length p])"
proof -
  let ?I = "\<lambda>i q. length q = length p \<and> (\<forall>j. pad \<le> j \<longrightarrow> j < length p \<longrightarrow> q ! j = prod_list (drop (Suc j - pad) dims))
    \<and> (\<forall>j < pad. pad - i \<le> j \<longrightarrow> q ! j = prod_list dims) \<and> (dims = [] \<or> 0 < i \<longrightarrow> q ! (pad - 1) = prod_list dims)"
  have "\<exists>q. foldE (pad_step dims pad) [0..<pad] p = Inr q \<and> ?I pad q"
  proof (rule foldE_upt_total [where P = ?I and s = p and f = "pad_step dims pad"])
    show "?I 0 p" using p scalar pad by auto
    fix i q assume i: "i < pad" and I: "?I i q"
    show "\<exists>q'. pad_step dims pad i q = Inr q' \<and> ?I (Suc i) q'"
    proof (cases "i = 0 \<and> dims \<noteq> []")
      case True
      then obtain d ds where dims: "dims = d # ds" by (cases dims) auto
      have "q ! pad = prod_list ds" using I len dims by simp
      then have "pad_step dims pad i q = Inr (q[pad - 1 := prod_list dims])"
        using True I len pad dims by (simp add: pad_step_def mult.commute)
      then show ?thesis using True I i len pad by (auto simp: nth_list_update)
    next
      case False
      then have l: "q ! (pad - 1) = prod_list dims" using I i by auto
      have "pad_step dims pad i q = Inr (q[pad - 1 - i := prod_list dims])"
        using False I i len pad l by (auto simp: pad_step_def)
      moreover have "?I (Suc i) (q[pad - 1 - i := prod_list dims])"
      proof (intro conjI allI impI)
        fix j assume j: "j < pad" "pad - Suc i \<le> j"
        show "q[pad - 1 - i := prod_list dims] ! j = prod_list dims"
        proof (cases "j = pad - 1 - i")
          case True
          then show ?thesis using I i len by simp
        next
          case False
          then have "pad - i \<le> j" using j by simp
          then show ?thesis using I j False by simp
        qed
      next
        show "q[pad - 1 - i := prod_list dims] ! (pad - 1) = prod_list dims"
          using l I i len by (cases "i = 0") (simp_all add: nth_list_update)
      qed (use I i in simp_all)
      ultimately show ?thesis by blast
    qed
  qed
  then obtain q where qI: "foldE (pad_step dims pad) [0..<pad] p = Inr q \<and> ?I pad q" ..
  note q = conjunct1 [OF qI] conjunct2 [OF qI]
  have "q = map (\<lambda>j. prod_list (drop (Suc j - pad) dims)) [0..<length p]"
  proof (rule nth_equalityI)
    fix j assume "j < length q"
    then show "q ! j = map (\<lambda>j. prod_list (drop (Suc j - pad) dims)) [0..<length p] ! j"
      using q(2) by (cases "j < pad") auto
  qed (use q(2) in simp)
  with q(1) show ?thesis by simp
qed

text \<open>
  Calculate fails exactly when the pitches have fewer axes than the tensor. Otherwise, and so for every
  TensorPitches, the pitch of an axis is the number of elements of one step along it: the product of the
  dimensions behind it. Axes that are padded in front have the whole tensor as their pitch.
\<close>

theorem tensor_pitches:
  "Calculate p dims = Inr (if length p < length dims then (False, p)
     else (True, map (\<lambda>i. prod_list (drop (Suc i - (length p - length dims)) dims)) [0..<length p]))
   \<and> TensorPitches dims rank = Inr (map (\<lambda>i. prod_list (drop (Suc i - (max rank (length dims) - length dims)) dims))
       [0..<max rank (length dims)])"
proof -
  have C: "Calculate p dims = Inr (if length p < length dims then (False, p)
     else (True, map (\<lambda>i. prod_list (drop (Suc i - (length p - length dims)) dims)) [0..<length p]))" for p
  proof (cases "length p < length dims \<or> p = []")
    case True
    then show ?thesis by (auto simp: Calculate_def Let_def)
  next
    case False
    define pad where "pad = length p - length dims"
    have len: "length p = pad + length dims" "0 < length p" using False by (auto simp: pad_def)
    let ?g = "\<lambda>j. prod_list (drop (Suc j - pad) dims)" and ?p = "p[length p - 1 := 1]"
    have last: "?p ! j = ?g j" if "length dims - 1 + pad \<le> j" "j < length ?p" for j
    proof -
      have "j = length p - 1" "length dims \<le> Suc j - pad" using that len by auto
      then show ?thesis using len(2) by simp
    qed
    obtain p' where p': "(if length dims > 1 then pitch_loop dims pad (length dims - 1) ?p else Inr ?p) = Inr p'"
      "length p' = length p" "\<And>j. pad \<le> j \<Longrightarrow> j < length p \<Longrightarrow> p' ! j = ?g j" "dims = [] \<Longrightarrow> p' = ?p"
    proof (cases "length dims > 1")
      case True
      have "\<exists>p'. pitch_loop dims pad (length dims - 1) ?p = Inr p' \<and> length p' = length ?p
          \<and> (\<forall>j. pad \<le> j \<longrightarrow> j < length ?p \<longrightarrow> p' ! j = ?g j)"
        by (rule pitch_loop_fills) (use len True last in simp_all)
      then obtain p' where "pitch_loop dims pad (length dims - 1) ?p = Inr p'" "length p' = length p"
        "\<And>j. pad \<le> j \<Longrightarrow> j < length p \<Longrightarrow> p' ! j = ?g j" by auto
      moreover have "dims \<noteq> []" using True by auto
      ultimately show ?thesis using that [of p'] True by simp
    next
      case single: False
      have "?p ! j = ?g j" if "pad \<le> j" "j < length p" for j
        by (rule last) (use single that in simp_all)
      then show ?thesis using that [of ?p] single by simp
    qed
    have L: "(if pad \<ge> 1 then foldE (pad_step dims pad) [0..<pad] p' else Inr p') = Inr (map ?g [0..<length p])"
    proof (cases "pad \<ge> 1")
      case True
      have "foldE (pad_step dims pad) [0..<pad] p' = Inr (map ?g [0..<length p'])"
        by (rule pad_loop_fills) (use p' len True in auto)
      with True p'(2) show ?thesis by simp
    next
      case False
      have "p' = map ?g [0..<length p]"
        by (rule nth_equalityI) (use p' False in auto)
      with False show ?thesis by simp
    qed
    have vs: "vset p (length p - 1) 1 = Inr ?p" using len(2) by simp
    have g: "\<not> length p < length dims" "length p \<noteq> 0" using False by simp_all
    show ?thesis
      unfolding Calculate_def Let_def pad_def [symmetric] if_not_P [OF g(1)] if_not_P [OF g(2)] vs bindE_simps p'(1) L ..
  qed
  then show ?thesis by (simp add: TensorPitches_def)
qed

text \<open>The state of counters in front of row \<open>T\<close>, and the axes at which going on to the next row carries.\<close>

definition at_row :: "nat list \<Rightarrow> nat \<Rightarrow> axis_counters \<Rightarrow> bool" where
  "at_row shape T c \<longleftrightarrow> ac_running c \<and> ac_axis c = length shape - 1 \<and> ac_extents c = shape
     \<and> length (ac_indices c) = length shape - 1 \<and> digits_of shape (length shape - 1) T (ac_indices c)"

definition carried_axes :: "nat list \<Rightarrow> nat \<Rightarrow> nat \<Rightarrow> nat list" where
  "carried_axes shape a T = filter (\<lambda>i. prod_list (drop i (take a shape)) dvd Suc T) (rev [0..<a])"

lemma carried_axes_Suc:
  assumes a: "a < length shape" and e: "0 < shape ! a"
  shows "carried_axes shape (Suc a) U
    = (if Suc U mod shape ! a = 0 then a # carried_axes shape a (U div shape ! a) else [])"
proof -
  let ?e = "shape ! a"
  have p: "prod_list (drop i (take (Suc a) shape)) = prod_list (drop i (take a shape)) * ?e" if "i \<le> a" for i
    using that a by (simp add: take_Suc_conv_app_nth)
  have dvd: "prod_list (drop i (take (Suc a) shape)) dvd Suc U \<longleftrightarrow>
      Suc U mod ?e = 0 \<and> prod_list (drop i (take a shape)) dvd Suc (U div ?e)" if "i \<le> a" for i
  proof (cases "Suc U mod ?e = 0")
    case True
    then have eq: "Suc (U div ?e) * ?e = Suc U" by (metis add_0_right div_Suc div_mult_mod_eq)
    have "prod_list (drop i (take a shape)) * ?e dvd Suc (U div ?e) * ?e
        \<longleftrightarrow> prod_list (drop i (take a shape)) dvd Suc (U div ?e)"
      using e by (simp only: dvd_times_right_cancel_iff)
    then show ?thesis unfolding p [OF that] eq by (simp add: True)
  next
    case False
    then have "\<not> ?e dvd Suc U" by (simp add: dvd_eq_mod_eq_0)
    then show ?thesis unfolding p [OF that] using False dvd_mult_right by blast
  qed
  have "filter (\<lambda>i. prod_list (drop i (take (Suc a) shape)) dvd Suc U) (rev [0..<a])
      = filter (\<lambda>i. Suc U mod ?e = 0 \<and> prod_list (drop i (take a shape)) dvd Suc (U div ?e)) (rev [0..<a])"
    by (rule filter_cong) (use dvd in auto)
  then show ?thesis using dvd [of a] by (simp add: carried_axes_def)
qed

lemma next_row_from:
  assumes pos: "0 \<notin> set shape" and a: "a < length shape"
    and c: "ac_running c" "ac_axis c = a" "ac_extents c = shape" "length (ac_indices c) = length shape - 1"
      "digits_of shape a U (ac_indices c)"
    and U: "U < prod_list (take a shape)" and fuel: "a < fuel"
  shows "\<exists>c'. next_row fuel c = Some (c', carried_axes shape a U) \<and> ac_running c' = (Suc U < prod_list (take a shape))
    \<and> (Suc U < prod_list (take a shape) \<longrightarrow> ac_axis c' = length shape - 1 \<and> ac_extents c' = shape
        \<and> length (ac_indices c') = length shape - 1 \<and> digits_of shape a (Suc U) (ac_indices c')
        \<and> (\<forall>j \<ge> a. ac_indices c' ! j = ac_indices c ! j))"
  using a c U fuel
proof (induction a arbitrary: fuel c U)
  case 0
  then obtain f where "fuel = Suc f" by (cases fuel) auto
  then show ?case using 0 by (simp add: Increment_def carried_axes_def)
next
  case (Suc a)
  let ?e = "shape ! a"
  obtain f where f: "fuel = Suc f" "a < f" using Suc.prems(8) by (cases fuel) auto
  have al: "a < length shape" "a < length shape - 1" using Suc.prems(1) by simp_all
  have e: "0 < ?e" using pos al(1) by (metis neq0_conv nth_mem)
  have p: "prod_list (take (Suc a) shape) = prod_list (take a shape) * ?e"
    using al by (simp add: take_Suc_conv_app_nth)
  have d: "ac_indices c ! a = U mod ?e" "digits_of shape a (U div ?e) (ac_indices c)" using Suc.prems(6) by simp_all
  have q: "U div ?e < prod_list (take a shape)" using Suc.prems(7) unfolding p by (simp add: less_mult_imp_div_less)
  show ?case
  proof (cases "U mod ?e + 1 = ?e")
    case False
    then have m: "Suc U mod ?e = Suc (U mod ?e)" "Suc U div ?e = U div ?e" by (simp_all add: mod_Suc div_Suc)
    have "Suc U < prod_list (take a shape) * ?e"
      using q m(2) e by (metis less_mult_imp_div_less div_less_iff_less_mult)
    moreover have "carried_axes shape (Suc a) U = []" using m by (simp add: carried_axes_Suc [OF al(1) e])
    moreover have "Increment c = (c\<lparr>ac_axis := length shape - 1, ac_indices := (ac_indices c)[a := Suc (U mod ?e)]\<rparr>, False)"
      using False Suc.prems d by (simp add: Increment_def Let_def)
    ultimately show ?thesis
      using f d Suc.prems(2,4,5) al by (simp add: p m digits_of_update)
  next
    case True
    then have m: "Suc U mod ?e = 0" "Suc U div ?e = Suc (U div ?e)" by (simp_all add: mod_Suc div_Suc)
    define c1 where "c1 = c\<lparr>ac_axis := a, ac_indices := (ac_indices c)[a := 0]\<rparr>"
    have I: "Increment c = (c1, True)"
      using True Suc.prems d by (simp add: Increment_def Let_def c1_def)
    have lt: "Suc U < prod_list (take (Suc a) shape) \<longleftrightarrow> Suc (U div ?e) < prod_list (take a shape)"
      unfolding p using m e by (metis div_less_iff_less_mult)
    obtain c' where "next_row f c1 = Some (c', carried_axes shape a (U div ?e))"
        "ac_running c' = (Suc (U div ?e) < prod_list (take a shape))"
        "Suc (U div ?e) < prod_list (take a shape) \<longrightarrow> ac_axis c' = length shape - 1 \<and> ac_extents c' = shape
          \<and> length (ac_indices c') = length shape - 1 \<and> digits_of shape a (Suc (U div ?e)) (ac_indices c')
          \<and> (\<forall>j \<ge> a. ac_indices c' ! j = ac_indices c1 ! j)"
      using Suc.IH [of c1 "U div ?e" f] Suc.prems q f d by (auto simp: c1_def digits_of_update)
    then show ?thesis
      using f I m Suc.prems(5) al unfolding lt by (auto simp: carried_axes_Suc [OF al(1) e] c1_def nth_list_update)
  qed
qed

text \<open>\<open>k\<close> rows further, with the axes reported on the way.\<close>

fun rows_on :: "nat \<Rightarrow> nat \<Rightarrow> axis_counters \<Rightarrow> (axis_counters \<times> nat list list) option" where
  "rows_on fuel 0 c = Some (c, [])"
| "rows_on fuel (Suc k) c =
     (case next_row fuel c of None \<Rightarrow> None
      | Some (c', axes) \<Rightarrow> map_option (\<lambda>(c'', axess). (c'', axes # axess)) (rows_on fuel k c'))"

text \<open>
  The counters over a shape without empty axes run through all rows: after \<open>T\<close> rows they stand at the
  coordinates of row \<open>T\<close> and still run when there is such a row; after the last they stop. Every
  \<open>while (Increment())\<close> ends, and reports a carry at exactly the axes whose box of inner rows is complete.
\<close>

theorem counters_visit_rows:
  assumes doc: "doc_size size_of" and shape: "shape \<noteq> []" "0 \<notin> set shape" and T: "T \<le> prod_list (butlast shape)"
  shows "\<exists>c c'. TensorAxisCounters size_of shape = Inr c \<and> ExtentAxisCounters shape = Inr c
    \<and> rows_on (length shape) T c = Some (c', map (carried_axes shape (length shape - 1)) [0..<T])
    \<and> (T < prod_list (butlast shape) \<longrightarrow> at_row shape T c') \<and> ac_running c' = (T < prod_list (butlast shape))"
proof -
  let ?n = "length shape - 1" and ?R = "prod_list (butlast shape)"
  have R: "?R = prod_list (take ?n shape)" by (simp add: butlast_conv_take)
  have "0 \<notin> set (butlast shape)" using shape(2) in_set_butlastD by fast
  then have R0: "0 < ?R" by (simp add: prod_list_pos_iff)
  define c where "c = \<lparr>ac_running = True, ac_axis = ?n, ac_indices = replicate ?n 0, ac_extents = shape\<rparr>"
  have mk: "TensorAxisCounters size_of shape = Inr c" "ExtentAxisCounters shape = Inr c"
    using shape doc prod_list_pos_iff [of shape] by (simp_all add: doc_size_def TensorAxisCounters_def ExtentAxisCounters_def c_def)
  have c0: "at_row shape 0 c" by (simp add: at_row_def c_def digits_of_zero)
  have run: "\<exists>c'. rows_on (length shape) k c = Some (c', map (carried_axes shape ?n) [S..<S + k])
      \<and> (S + k < ?R \<longrightarrow> at_row shape (S + k) c') \<and> ac_running c' = (S + k < ?R)"
    if "at_row shape S c" "S + k \<le> ?R" "S < ?R" for k S c
    using that
  proof (induction k arbitrary: S c)
    case 0
    then show ?case by (auto simp: at_row_def)
  next
    case (Suc k)
    have "?n < length shape" using shape(1) by simp
    then obtain c1 where c1: "next_row (length shape) c = Some (c1, carried_axes shape ?n S)" "ac_running c1 = (Suc S < ?R)"
      "Suc S < ?R \<longrightarrow> at_row shape (Suc S) c1"
      using next_row_from [OF shape(2), of ?n c S "length shape"] Suc.prems unfolding R by (auto simp: at_row_def)
    have upt: "[S..<S + Suc k] = S # [Suc S..<Suc S + k]" by (simp add: upt_conv_Cons)
    show ?case
    proof (cases "k = 0")
      case True
      then show ?thesis using c1 by simp
    next
      case False
      then have "Suc S < ?R" using Suc.prems(2) by simp
      with c1(3) Suc.IH [of "Suc S" c1] Suc.prems(2) obtain c' where
        "rows_on (length shape) k c1 = Some (c', map (carried_axes shape ?n) [Suc S..<Suc S + k])"
        "Suc S + k < ?R \<longrightarrow> at_row shape (Suc S + k) c'" "ac_running c' = (Suc S + k < ?R)" by auto
      then show ?thesis using c1(1) unfolding upt by simp
    qed
  qed
  show ?thesis using mk run [OF c0, of T] T R0 by auto
qed

theorem counters_visit_rows_witness:
  "\<exists>c c'. TensorAxisCounters prod_list [2, 2, 3] = Inr c \<and> rows_on 3 4 c = Some (c', [[], [1], [], [1, 0]]) \<and> \<not> ac_running c'"
proof -
  have "map (carried_axes [2, 2, 3] 2) [0..<4] = [[], [1], [], [1, 0]]" by code_simp
  then show ?thesis
    using counters_visit_rows [of prod_list "[2, 2, 3]" 4]
    by (simp add: doc_size_def numeral_2_eq_2 [symmetric] numeral_3_eq_3 [symmetric] del: upt_rec_numeral) blast
qed

end
