(* ===== verification/TreeEnsemble.thy ===== *)
theory TreeEnsemble
  imports Prelude
begin

text \<open>
  Decision tree ensembles (onnxruntime/core/providers/cpu/ml/tree_ensemble_common.h with the types of
  tree_ensemble_aggregator.h and ml_common.h): the constructor that builds the nodes from the attributes of the
  operator, and the walk from a root to a leaf. A pointer to a node is its index in \<open>nodes_\<close>. Node ids and tree ids
  are cut to 32 bits as the code does. The input values and thresholds are of any type; how they compare in
  each mode, and which values are NaN, are parameters, as floating-point comparison is.
\<close>

section \<open>Model\<close>

datatype node_mode = BRANCH_LEQ | BRANCH_LT | BRANCH_GTE | BRANCH_GT | BRANCH_EQ | BRANCH_NEQ | LEAF

definition MakeTreeNodeMode :: "string \<Rightarrow> node_mode" where
  "MakeTreeNodeMode input =
     (if input = ''BRANCH_LEQ'' then BRANCH_LEQ
      else if input = ''LEAF'' then LEAF
      else if input = ''BRANCH_LT'' then BRANCH_LT
      else if input = ''BRANCH_GTE'' then BRANCH_GTE
      else if input = ''BRANCH_GT'' then BRANCH_GT
      else if input = ''BRANCH_EQ'' then BRANCH_EQ
      else BRANCH_NEQ)"

datatype post_eval_transform = T_NONE | T_LOGISTIC | T_SOFTMAX | T_SOFTMAX_ZERO | T_PROBIT

definition MakeTransform :: "string \<Rightarrow> post_eval_transform" where
  "MakeTransform input =
     (if input = ''NONE'' then T_NONE
      else if input = ''LOGISTIC'' then T_LOGISTIC
      else if input = ''SOFTMAX'' then T_SOFTMAX
      else if input = ''SOFTMAX_ZERO'' then T_SOFTMAX_ZERO
      else T_PROBIT)"

datatype aggregate_function = AGG_AVERAGE | AGG_SUM | AGG_MIN | AGG_MAX

definition MakeAggregateFunction :: "string \<Rightarrow> aggregate_function" where
  "MakeAggregateFunction input =
     (if input = ''AVERAGE'' then AGG_AVERAGE
      else if input = ''SUM'' then AGG_SUM
      else if input = ''MIN'' then AGG_MIN
      else AGG_MAX)"

datatype missing_track = kNone | kTrue | kFalse

text \<open>\<open>TreeNodeElement\<close>; the id is the pair of tree id and node id.\<close>

record 'v tree_node =
  tn_id :: "int \<times> int"
  tn_feature_id :: int
  tn_value :: 'v
  tn_hitrates :: 'v
  tn_mode :: node_mode
  tn_truenode :: "nat option"
  tn_falsenode :: "nat option"
  tn_missing_tracks :: missing_track
  tn_weights :: "(int \<times> 'v) list"
  tn_is_not_leaf :: bool
  tn_is_missing_track_true :: bool

text \<open>The arguments of the constructor.\<close>

record 'v tree_attrs =
  ta_parallel_tree :: int
  ta_parallel_N :: int
  ta_aggregate_function :: string
  ta_base_values :: "'v list"
  ta_n_targets_or_classes :: int
  ta_falsenodeids :: "int list"
  ta_featureids :: "int list"
  ta_hitrates :: "'v list"
  ta_missing_value_tracks_true :: "int list"
  ta_modes :: "string list"
  ta_nodeids :: "int list"
  ta_treeids :: "int list"
  ta_truenodeids :: "int list"
  ta_values :: "'v list"
  ta_post_transform :: string
  ta_class_ids :: "int list"
  ta_class_nodeids :: "int list"
  ta_class_treeids :: "int list"
  ta_class_weights :: "'v list"

record 'v tree_ensemble =
  te_n_targets_or_classes :: int
  te_base_values :: "'v list"
  te_post_transform :: post_eval_transform
  te_aggregate_function :: aggregate_function
  te_nodes :: "'v tree_node list"
  te_roots :: "nat list"
  te_same_mode :: bool
  te_has_missing_tracks :: bool
  te_parallel_tree :: int
  te_parallel_N :: int

definition to_int :: "int \<Rightarrow> int" where
  "to_int x = signed_take_bit 31 x"

text \<open>The loop that finds out whether all branches compare alike; \<open>fpos\<close> is the first branch.\<close>

definition mode_step :: "node_mode list \<Rightarrow> nat \<Rightarrow> bool \<times> nat option \<Rightarrow> bool \<times> nat option" where
  "mode_step cmodes i st =
     (case st of (same, fpos) \<Rightarrow>
        if cmodes ! i = LEAF then (same, fpos)
        else case fpos of
            None \<Rightarrow> (same, Some i)
          | Some f \<Rightarrow> (if cmodes ! i \<noteq> cmodes ! f then False else same, Some f))"

type_synonym id_map = "int \<times> int \<Rightarrow> nat option"

definition node_id_at :: "'v tree_attrs \<Rightarrow> nat \<Rightarrow> int \<times> int" where
  "node_id_at A i = (to_int (ta_treeids A ! i), to_int (ta_nodeids A ! i))"

definition new_node :: "'v::{one,uminus} tree_attrs \<Rightarrow> node_mode list \<Rightarrow> nat \<Rightarrow> 'v tree_node" where
  "new_node A cmodes i =
     (let mt = (if i < length (ta_missing_value_tracks_true A)
                then (if ta_missing_value_tracks_true A ! i = 1 then kTrue else kFalse) else kNone) in
      \<lparr>tn_id = node_id_at A i, tn_feature_id = to_int (ta_featureids A ! i), tn_value = ta_values A ! i,
       tn_hitrates = (if i < length (ta_hitrates A) then ta_hitrates A ! i else - 1), tn_mode = cmodes ! i,
       tn_truenode = None, tn_falsenode = None, tn_missing_tracks = mt, tn_weights = [],
       tn_is_not_leaf = (cmodes ! i \<noteq> LEAF), tn_is_missing_track_true = (mt = kTrue)\<rparr>)"

definition fill_node :: "'v::{one,uminus} tree_attrs \<Rightarrow> node_mode list \<Rightarrow> nat \<Rightarrow> 'v tree_node list \<times> id_map \<Rightarrow>
    ('v tree_node list \<times> id_map) res" where
  "fill_node A cmodes i st =
     (case st of (nodes, idi) \<Rightarrow>
        let node = new_node A cmodes i in
        if idi (tn_id node) \<noteq> None then Inl Thrown
        else Inr (nodes @ [node], idi(tn_id node \<mapsto> i)))"

text \<open>The pointer to the child with a given node id; None is the null pointer.\<close>

definition find_child :: "'v tree_node list \<Rightarrow> id_map \<Rightarrow> 'v tree_node \<Rightarrow> int \<Rightarrow> nat option res" where
  "find_child nodes idi it child_id =
     (let coor = (fst (tn_id it), to_int child_id) in
      case idi coor of
        None \<Rightarrow> Inl Thrown
      | Some j \<Rightarrow>
          if 0 \<le> snd coor \<and> snd coor < int (length nodes) then
            if fst (tn_id (nodes ! j)) \<noteq> fst (tn_id it) \<or> snd (tn_id (nodes ! j)) = snd (tn_id it) then Inl Thrown
            else Inr (Some j)
          else Inr None)"

definition link_node :: "'v tree_attrs \<Rightarrow> id_map \<Rightarrow> nat \<Rightarrow> 'v tree_node list \<Rightarrow> 'v tree_node list res" where
  "link_node A idi i nodes =
     (let it = nodes ! i in
      if \<not> tn_is_not_leaf it then Inr nodes
      else
        bindE (find_child nodes idi it (ta_truenodeids A ! i)) (\<lambda>t.
        bindE (find_child nodes idi it (ta_falsenodeids A ! i)) (\<lambda>f.
        Inr (nodes[i := it\<lparr>tn_truenode := t, tn_falsenode := f\<rparr>]))))"

definition root_step :: "'v tree_node list \<Rightarrow> nat \<Rightarrow> nat list \<times> int \<Rightarrow> nat list \<times> int" where
  "root_step nodes i st =
     (case st of (roots, previous) \<Rightarrow>
        let tree_id = fst (tn_id (nodes ! i)) in
        (if previous = -1 \<or> previous \<noteq> tree_id then roots @ [i] else roots, tree_id))"

definition weight_step :: "'v tree_attrs \<Rightarrow> id_map \<Rightarrow> nat \<Rightarrow> 'v tree_node list \<Rightarrow> 'v tree_node list res" where
  "weight_step A idi i nodes =
     (case idi (to_int (ta_class_treeids A ! i), to_int (ta_class_nodeids A ! i)) of
        None \<Rightarrow> Inl Thrown
      | Some j \<Rightarrow>
          bindE (vget (ta_class_ids A) i) (\<lambda>c. bindE (vget (ta_class_weights A) i) (\<lambda>v.
          Inr (nodes[j := (nodes ! j)\<lparr>tn_weights := tn_weights (nodes ! j) @ [(c, v)]\<rparr>]))))"

definition tree_check_sizes :: "'v tree_attrs \<Rightarrow> unit res" where
  "tree_check_sizes A =
     enforce (0 < ta_n_targets_or_classes A
       \<and> length (ta_falsenodeids A) = length (ta_featureids A) \<and> length (ta_falsenodeids A) = length (ta_modes A)
       \<and> length (ta_falsenodeids A) = length (ta_nodeids A) \<and> length (ta_falsenodeids A) = length (ta_treeids A)
       \<and> length (ta_falsenodeids A) = length (ta_truenodeids A) \<and> length (ta_falsenodeids A) = length (ta_values A)
       \<and> length (ta_class_ids A) = length (ta_class_nodeids A)
       \<and> length (ta_class_ids A) = length (ta_class_treeids A) \<and> length (ta_class_ids A) = length (ta_class_treeids A))"

definition TreeEnsembleCommon :: "'v::{one,uminus} tree_attrs \<Rightarrow> 'v tree_ensemble res" where
  "TreeEnsembleCommon A =
     bindE (tree_check_sizes A) (\<lambda>_.
     let cmodes = map MakeTreeNodeMode (ta_modes A);
         same_mode = fst (fold (mode_step cmodes) [0..<length cmodes] (True, None));
         n_nodes = length (ta_treeids A) in
     bindE (foldE (fill_node A cmodes) [0..<n_nodes] ([], \<lambda>_. None)) (\<lambda>(nodes, idi).
     bindE (foldE (link_node A idi) [0..<n_nodes] nodes) (\<lambda>nodes.
     let roots = fst (fold (root_step nodes) [0..<n_nodes] ([], -1)) in
     bindE (foldE (weight_step A idi) [0..<length (ta_class_nodeids A)] nodes) (\<lambda>nodes.
     Inr \<lparr>te_n_targets_or_classes = ta_n_targets_or_classes A, te_base_values = ta_base_values A,
       te_post_transform = MakeTransform (ta_post_transform A),
       te_aggregate_function = MakeAggregateFunction (ta_aggregate_function A),
       te_nodes = nodes, te_roots = roots, te_same_mode = same_mode,
       te_has_missing_tracks = list_ex (\<lambda>x. x \<noteq> 0) (ta_missing_value_tracks_true A),
       te_parallel_tree = ta_parallel_tree A, te_parallel_N = ta_parallel_N A\<rparr>))))"

text \<open>Reading a feature of the row that starts at \<open>off\<close>.\<close>

definition x_at :: "'x list \<Rightarrow> nat \<Rightarrow> int \<Rightarrow> 'x res" where
  "x_at X off f = (if 0 \<le> int off + f then vget X (nat (int off + f)) else Inl Undefined)"

text \<open>
  The bodies of the loops: when all branches compare alike in mode \<open>m\<close>, with and without missing
  values, and the general one. A null pointer is dereferenced by the next test of the loop.
\<close>

definition take_branch :: "'v tree_node \<Rightarrow> bool \<Rightarrow> nat res" where
  "take_branch n c = (case (if c then tn_truenode n else tn_falsenode n) of None \<Rightarrow> Inl Undefined | Some j \<Rightarrow> Inr j)"

definition same_mode_step :: "(node_mode \<Rightarrow> 'x \<Rightarrow> 'v \<Rightarrow> bool) \<Rightarrow> ('x \<Rightarrow> bool) \<Rightarrow> bool \<Rightarrow> node_mode \<Rightarrow> 'v tree_node list \<Rightarrow>
    'x list \<Rightarrow> nat \<Rightarrow> nat \<Rightarrow> nat res" where
  "same_mode_step cmp nan has_missing m nodes X off r =
     (let n = nodes ! r in
      bindE (x_at X off (tn_feature_id n)) (\<lambda>val.
      take_branch n (if has_missing then cmp m val (tn_value n) \<or> (tn_is_missing_track_true n \<and> nan val)
        else cmp m val (tn_value n))))"

definition mixed_mode_step :: "(node_mode \<Rightarrow> 'x \<Rightarrow> 'v \<Rightarrow> bool) \<Rightarrow> ('x \<Rightarrow> bool) \<Rightarrow> 'v tree_node list \<Rightarrow>
    'x list \<Rightarrow> nat \<Rightarrow> nat \<Rightarrow> nat res" where
  "mixed_mode_step cmp nan nodes X off r =
     (let n = nodes ! r in
      bindE (x_at X off (tn_feature_id n)) (\<lambda>val.
      if tn_mode n = LEAF then Inr r
      else take_branch n (cmp (tn_mode n) val (tn_value n) \<or> (tn_is_missing_track_true n \<and> nan val))))"

text \<open>The loop over them; it may not return.\<close>

partial_function (option) to_leaf :: "(nat \<Rightarrow> nat res) \<Rightarrow> 'v tree_node list \<Rightarrow> nat \<Rightarrow> nat res option" where
  "to_leaf step nodes r =
     (if tn_is_not_leaf (nodes ! r) then (case step r of Inl e \<Rightarrow> Some (Inl e) | Inr j \<Rightarrow> to_leaf step nodes j)
      else Some (Inr r))"

definition ProcessTreeNodeLeave :: "'v tree_ensemble \<Rightarrow> (node_mode \<Rightarrow> 'x \<Rightarrow> 'v \<Rightarrow> bool) \<Rightarrow> ('x \<Rightarrow> bool) \<Rightarrow>
    'x list \<Rightarrow> nat \<Rightarrow> nat \<Rightarrow> nat res option" where
  "ProcessTreeNodeLeave te cmp nan X off root =
     (if te_same_mode te then
        (if tn_mode (te_nodes te ! root) = LEAF then Some (Inr root)
         else to_leaf (same_mode_step cmp nan (te_has_missing_tracks te) (tn_mode (te_nodes te ! root)) (te_nodes te) X off)
                (te_nodes te) root)
      else to_leaf (mixed_mode_step cmp nan (te_nodes te) X off) (te_nodes te) root)"


section \<open>What the constructor builds\<close>

lemma mode_loop:
  "fold (mode_step cm) [0..<k] (True, None) = (same, fpos) \<Longrightarrow>
     same = (\<forall>i < k. \<forall>j < k. cm ! i \<noteq> LEAF \<longrightarrow> cm ! j \<noteq> LEAF \<longrightarrow> cm ! i = cm ! j)
   \<and> (case fpos of None \<Rightarrow> \<forall>i < k. cm ! i = LEAF | Some f \<Rightarrow> f < k \<and> cm ! f \<noteq> LEAF)"
proof (induction k arbitrary: same fpos)
  case 0
  then show ?case by simp
next
  case (Suc k)
  obtain s f where sf: "fold (mode_step cm) [0..<k] (True, None) = (s, f)" by fastforce
  note IH = Suc.IH [OF sf]
  have st: "mode_step cm k (s, f) = (same, fpos)" using Suc.prems sf by simp
  show ?case
  proof (cases "cm ! k = LEAF \<or> f = None")
    case True
    then show ?thesis using st IH by (cases f) (auto simp: mode_step_def less_Suc_eq split: if_splits)
  next
    case False
    then obtain g where g: "f = Some g" "cm ! k \<noteq> LEAF" by auto
    with st have e: "same = (cm ! k = cm ! g \<and> s)" "fpos = Some g"
      by (cases "cm ! k = cm ! g"; auto simp: mode_step_def)+
    have gk: "g < k" "cm ! g \<noteq> LEAF" using IH g by simp_all
    have "same = (\<forall>i < Suc k. \<forall>j < Suc k. cm ! i \<noteq> LEAF \<longrightarrow> cm ! j \<noteq> LEAF \<longrightarrow> cm ! i = cm ! j)"
    proof
      assume same
      then have s: s and k: "cm ! k = cm ! g" using e by simp_all
      have "cm ! i = cm ! g" if "i < Suc k" "cm ! i \<noteq> LEAF" for i
        using that s k IH gk by (cases "i = k") (auto simp: less_Suc_eq)
      then show "\<forall>i < Suc k. \<forall>j < Suc k. cm ! i \<noteq> LEAF \<longrightarrow> cm ! j \<noteq> LEAF \<longrightarrow> cm ! i = cm ! j" by metis
    next
      assume all: "\<forall>i < Suc k. \<forall>j < Suc k. cm ! i \<noteq> LEAF \<longrightarrow> cm ! j \<noteq> LEAF \<longrightarrow> cm ! i = cm ! j"
      then have "cm ! k = cm ! g" using g(2) gk by simp
      moreover have s using IH all by simp
      ultimately show same using e by simp
    qed
    then show ?thesis using e gk by simp
  qed
qed

lemma new_node_sel [simp]:
  "tn_id (new_node A cm i) = node_id_at A i" "tn_mode (new_node A cm i) = cm ! i"
  "tn_is_not_leaf (new_node A cm i) = (cm ! i \<noteq> LEAF)" "tn_weights (new_node A cm i) = []"
  "tn_truenode (new_node A cm i) = None" "tn_falsenode (new_node A cm i) = None"
  by (simp_all add: new_node_def Let_def)

lemma new_node_missing:
  "tn_is_missing_track_true (new_node A cm i) \<Longrightarrow> \<exists>x \<in> set (ta_missing_value_tracks_true A). x \<noteq> 0"
  by (auto simp: new_node_def Let_def split: if_splits dest: nth_mem intro!: bexI [where x = 1])

lemma fill_loop:
  assumes "foldE (fill_node A cm) [0..<n] ([], \<lambda>_. None) = Inr (nodes, idi)"
  shows "nodes = map (new_node A cm) [0..<n] \<and> distinct (map (node_id_at A) [0..<n])
    \<and> (\<forall>nid j. idi nid = Some j \<longleftrightarrow> j < n \<and> node_id_at A j = nid)"
proof -
  let ?P = "\<lambda>i st. fst st = map (new_node A cm) [0..<i] \<and> distinct (map (node_id_at A) [0..<i])
    \<and> (\<forall>nid j. snd st nid = Some j \<longleftrightarrow> j < i \<and> node_id_at A j = nid)"
  have "?P n (nodes, idi)"
  proof (rule foldE_upt_partial [where P = ?P, OF assms])
    fix i st st' assume P: "?P i st" and st': "fill_node A cm i st = Inr st'"
    obtain ns m where st: "st = (ns, m)" by (cases st)
    have m: "m (node_id_at A i) = None" and e: "st' = (ns @ [new_node A cm i], m(node_id_at A i \<mapsto> i))"
      using st' by (auto simp: fill_node_def st Let_def split: if_splits)
    from P have all: "\<forall>nid j. m nid = Some j \<longleftrightarrow> j < i \<and> node_id_at A j = nid"
      unfolding st snd_conv fst_conv by blast
    have new: "\<And>j. j < i \<Longrightarrow> node_id_at A j \<noteq> node_id_at A i"
    proof
      fix j assume "j < i" "node_id_at A j = node_id_at A i"
      then have "m (node_id_at A i) = Some j" using all by blast
      with m show False by simp
    qed
    then have "node_id_at A i \<notin> set (map (node_id_at A) [0..<i])" by (auto simp: image_iff) metis
    then show "?P (Suc i) st'" using P new by (auto simp: e st less_Suc_eq)
  qed simp
  then show ?thesis by simp
qed

text \<open>Where a child pointer of node \<open>i\<close> may go.\<close>

definition child_ok :: "'v tree_attrs \<Rightarrow> nat \<Rightarrow> nat \<Rightarrow> int \<Rightarrow> nat option \<Rightarrow> bool" where
  "child_ok A n i c t \<longleftrightarrow>
     (\<exists>j < n. node_id_at A j = (fst (node_id_at A i), to_int c)
       \<and> t = (if 0 \<le> to_int c \<and> to_int c < int n then Some j else None) \<and> (t = Some j \<longrightarrow> j \<noteq> i))"

lemma find_child_ok:
  assumes "\<And>nid j. idi nid = Some j \<longleftrightarrow> j < n \<and> node_id_at A j = nid" and "length nodes = n"
    and "\<And>j. j < n \<Longrightarrow> tn_id (nodes ! j) = node_id_at A j" and "i < n"
    and "find_child nodes idi (nodes ! i) c = Inr t"
  shows "child_ok A n i c t"
proof -
  let ?id = "(fst (node_id_at A i), to_int c)"
  from assms(3-5) obtain j where j: "idi ?id = Some j"
    by (auto simp: find_child_def Let_def split: option.splits)
  then have jn: "j < n" "node_id_at A j = ?id" using assms(1) by simp_all
  have "t = (if 0 \<le> to_int c \<and> to_int c < int n then Some j else None)" "t = Some j \<longrightarrow> j \<noteq> i"
    using assms(2-5) j jn by (auto simp: find_child_def Let_def split: if_splits dest: arg_cong [where f = snd])
  with jn show ?thesis unfolding child_ok_def by blast
qed

definition linked :: "'v::{one,uminus} tree_attrs \<Rightarrow> node_mode list \<Rightarrow> nat \<Rightarrow> nat \<Rightarrow> 'v tree_node \<Rightarrow> bool" where
  "linked A cm n i nd \<longleftrightarrow>
     (\<exists>t f. nd = (new_node A cm i)\<lparr>tn_truenode := t, tn_falsenode := f\<rparr>
       \<and> (if cm ! i = LEAF then t = None \<and> f = None
          else child_ok A n i (ta_truenodeids A ! i) t \<and> child_ok A n i (ta_falsenodeids A ! i) f))"

lemma linked_weights: "linked A cm n i nd \<Longrightarrow> nd\<lparr>tn_weights := []\<rparr> = nd"
  by (auto simp: linked_def new_node_def Let_def)

lemma new_node_eta: "(new_node A cm i)\<lparr>tn_truenode := None, tn_falsenode := None\<rparr> = new_node A cm i"
  by (simp add: new_node_def Let_def)

lemma link_loop:
  assumes idi: "\<And>nid j. idi nid = Some j \<longleftrightarrow> j < n \<and> node_id_at A j = nid"
    and ret: "foldE (link_node A idi) [0..<n] (map (new_node A cm) [0..<n]) = Inr nodes"
  shows "length nodes = n \<and> (\<forall>i < n. linked A cm n i (nodes ! i))"
proof -
  let ?P = "\<lambda>i ns. length ns = n \<and> (\<forall>j < n. if j < i then linked A cm n j (ns ! j) else ns ! j = new_node A cm j)"
  have "?P n nodes"
  proof (rule foldE_upt_partial [where P = ?P, OF ret])
    fix i ns ns' assume i: "i < n" and P: "?P i ns" and ns': "link_node A idi i ns = Inr ns'"
    have nd: "ns ! i = new_node A cm i" using P i by simp
    have ids: "tn_id (ns ! j) = node_id_at A j" if "j < n" for j
    proof (cases "j < i")
      case True
      then have "linked A cm n j (ns ! j)" using P that by simp
      then show ?thesis by (auto simp: linked_def)
    qed (use P that in simp)
    show "?P (Suc i) ns'"
    proof (cases "cm ! i = LEAF")
      case True
      then have "ns' = ns" using ns' nd by (simp add: link_node_def Let_def)
      moreover have "linked A cm n i (ns ! i)" using True nd new_node_eta unfolding linked_def by metis
      ultimately show ?thesis using P by (auto simp: less_Suc_eq)
    next
      case False
      then obtain t f where tf: "find_child ns idi (ns ! i) (ta_truenodeids A ! i) = Inr t"
        "find_child ns idi (ns ! i) (ta_falsenodeids A ! i) = Inr f"
        "ns' = ns[i := (ns ! i)\<lparr>tn_truenode := t, tn_falsenode := f\<rparr>]"
        using ns' nd by (auto simp: link_node_def Let_def bindE_Inr_iff)
      have "child_ok A n i (ta_truenodeids A ! i) t" "child_ok A n i (ta_falsenodeids A ! i) f"
        using find_child_ok [OF idi _ ids i] tf P by auto
      then have "linked A cm n i (ns' ! i)" using tf(3) nd i P False by (auto simp: linked_def)
      then show ?thesis using P tf(3) i by (auto simp: less_Suc_eq nth_list_update)
    qed
  qed simp
  then show ?thesis by simp
qed

lemma root_loop:
  "fold (root_step nodes) [0..<k] ([], -1) =
     (filter (\<lambda>i. i = 0 \<or> fst (tn_id (nodes ! (i - 1))) = -1 \<or> fst (tn_id (nodes ! (i - 1))) \<noteq> fst (tn_id (nodes ! i))) [0..<k],
      if k = 0 then -1 else fst (tn_id (nodes ! (k - 1))))"
  by (induction k) (auto simp: root_step_def Let_def)

text \<open>The weights a node has been given by the first \<open>k\<close> entries.\<close>

definition weights_of :: "'v tree_attrs \<Rightarrow> nat \<Rightarrow> int \<times> int \<Rightarrow> (int \<times> 'v) list" where
  "weights_of A k nid = map (\<lambda>i. (ta_class_ids A ! i, ta_class_weights A ! i))
     (filter (\<lambda>i. (to_int (ta_class_treeids A ! i), to_int (ta_class_nodeids A ! i)) = nid) [0..<k])"

lemma weight_loop:
  assumes idi: "\<And>nid j. idi nid = Some j \<longleftrightarrow> j < n \<and> node_id_at A j = nid"
    and dist: "distinct (map (node_id_at A) [0..<n])"
    and ns: "length nodes = n" "\<And>i. i < n \<Longrightarrow> linked A cm n i (nodes ! i)"
    and ret: "foldE (weight_step A idi) [0..<k] nodes = Inr nodes'"
  shows "length nodes' = n \<and> (\<forall>i < n. nodes' ! i = (nodes ! i)\<lparr>tn_weights := weights_of A k (node_id_at A i)\<rparr>)"
proof -
  let ?P = "\<lambda>k ns. length ns = n \<and> (\<forall>i < n. ns ! i = (nodes ! i)\<lparr>tn_weights := weights_of A k (node_id_at A i)\<rparr>)"
  have "?P k nodes'"
  proof (rule foldE_upt_partial [where P = ?P, OF ret])
    have "(nodes ! i)\<lparr>tn_weights := weights_of A 0 (node_id_at A i)\<rparr> = nodes ! i" if "i < n" for i
      using linked_weights [OF ns(2) [OF that]] by (simp add: weights_of_def)
    then show "?P 0 nodes" using ns(1) by simp
    fix i ms ms' assume P: "?P i ms" and ms': "weight_step A idi i ms = Inr ms'"
    let ?id = "(to_int (ta_class_treeids A ! i), to_int (ta_class_nodeids A ! i))"
    from ms' obtain j where j: "idi ?id = Some j"
      and e: "ms' = ms[j := (ms ! j)\<lparr>tn_weights := tn_weights (ms ! j) @ [(ta_class_ids A ! i, ta_class_weights A ! i)]\<rparr>]"
      by (auto simp: weight_step_def bindE_Inr_iff vget_Inr_iff split: option.splits)
    from j idi have jn: "j < n" "node_id_at A j = ?id" by simp_all
    have other: "node_id_at A h \<noteq> ?id" if "h < n" "h \<noteq> j" for h
      using dist jn that by (auto simp: distinct_conv_nth) metis
    have W: "weights_of A (Suc i) nid = weights_of A i nid @ (if ?id = nid then [(ta_class_ids A ! i, ta_class_weights A ! i)] else [])" for nid
      by (simp add: weights_of_def)
    have "ms' ! h = (nodes ! h)\<lparr>tn_weights := weights_of A (Suc i) (node_id_at A h)\<rparr>" if h: "h < n" for h
    proof (cases "h = j")
      case True
      then show ?thesis using P h jn by (simp add: e W)
    next
      case False
      then have "?id \<noteq> node_id_at A h" using other [OF h] by metis
      then show ?thesis using P h False by (simp add: e W)
    qed
    then show "?P (Suc i) ms'" using P by (simp add: e)
  qed
  then show ?thesis .
qed

lemma constructed:
  assumes ret: "TreeEnsembleCommon A = Inr te"
  defines "n \<equiv> length (ta_treeids A)" and "cm \<equiv> map MakeTreeNodeMode (ta_modes A)"
  shows "tree_check_sizes A = Inr ()" "length (te_nodes te) = n" "distinct (map (node_id_at A) [0..<n])"
    and "\<And>i. i < n \<Longrightarrow> \<exists>nd. linked A cm n i nd
      \<and> te_nodes te ! i = nd\<lparr>tn_weights := weights_of A (length (ta_class_nodeids A)) (node_id_at A i)\<rparr>"
    and "te_roots te = filter (\<lambda>i. i = 0 \<or> fst (node_id_at A (i - 1)) = -1 \<or> fst (node_id_at A (i - 1)) \<noteq> fst (node_id_at A i)) [0..<n]"
    and "te_same_mode te \<longleftrightarrow> (\<forall>i < n. \<forall>j < n. cm ! i \<noteq> LEAF \<longrightarrow> cm ! j \<noteq> LEAF \<longrightarrow> cm ! i = cm ! j)"
    and "te_has_missing_tracks te \<longleftrightarrow> (\<exists>x \<in> set (ta_missing_value_tracks_true A). x \<noteq> 0)"
proof -
  let ?k = "length (ta_class_nodeids A)"
  have sz: "length (ta_modes A) = n"
    using ret by (auto simp: TreeEnsembleCommon_def tree_check_sizes_def bindE_Inr_iff n_def)
  obtain nodes0 idi nodes1 nodes2 where 0: "tree_check_sizes A = Inr ()"
    and 1: "foldE (fill_node A cm) [0..<n] ([], \<lambda>_. None) = Inr (nodes0, idi)"
    and 2: "foldE (link_node A idi) [0..<n] nodes0 = Inr nodes1"
    and 3: "foldE (weight_step A idi) [0..<?k] nodes1 = Inr nodes2"
    and te: "te_nodes te = nodes2" "te_roots te = fst (fold (root_step nodes1) [0..<n] ([], -1))"
      "te_same_mode te = fst (fold (mode_step cm) [0..<length cm] (True, None))"
      "te_has_missing_tracks te = list_ex (\<lambda>x. x \<noteq> 0) (ta_missing_value_tracks_true A)"
    using ret unfolding TreeEnsembleCommon_def n_def [symmetric] cm_def [symmetric] Let_def
    by (auto simp: bindE_Inr_iff)
  show "tree_check_sizes A = Inr ()" by (rule 0)
  note f = fill_loop [OF 1]
  show d: "distinct (map (node_id_at A) [0..<n])" using f by blast
  have idi: "\<And>nid j. idi nid = Some j \<longleftrightarrow> j < n \<and> node_id_at A j = nid" using f by blast
  note l = link_loop [OF idi 2 [unfolded conjunct1 [OF f]]]
  note w = weight_loop [OF idi d conjunct1 [OF l] _ 3, of cm]
  have w: "length nodes2 = n" "\<And>i. i < n \<Longrightarrow> nodes2 ! i = (nodes1 ! i)\<lparr>tn_weights := weights_of A ?k (node_id_at A i)\<rparr>"
    using w l by blast+
  show "length (te_nodes te) = n" using w te by simp
  show "\<exists>nd. linked A cm n i nd \<and> te_nodes te ! i = nd\<lparr>tn_weights := weights_of A ?k (node_id_at A i)\<rparr>" if "i < n" for i
    using w(2) [OF that] l that te(1) by blast
  have ids: "tn_id (nodes1 ! i) = node_id_at A i" if "i < n" for i
    using l that by (auto simp: linked_def)
  have "te_roots te = filter (\<lambda>i. i = 0 \<or> fst (tn_id (nodes1 ! (i - 1))) = -1 \<or> fst (tn_id (nodes1 ! (i - 1))) \<noteq> fst (tn_id (nodes1 ! i))) [0..<n]"
    unfolding te root_loop by simp
  also have "\<dots> = filter (\<lambda>i. i = 0 \<or> fst (node_id_at A (i - 1)) = -1 \<or> fst (node_id_at A (i - 1)) \<noteq> fst (node_id_at A i)) [0..<n]"
    by (rule filter_cong) (auto simp: ids)
  finally show "te_roots te = filter (\<lambda>i. i = 0 \<or> fst (node_id_at A (i - 1)) = -1 \<or> fst (node_id_at A (i - 1)) \<noteq> fst (node_id_at A i)) [0..<n]" .
  obtain same fpos where sf: "fold (mode_step cm) [0..<length cm] (True, None) = (same, fpos)" by fastforce
  show "te_same_mode te \<longleftrightarrow> (\<forall>i < n. \<forall>j < n. cm ! i \<noteq> LEAF \<longrightarrow> cm ! j \<noteq> LEAF \<longrightarrow> cm ! i = cm ! j)"
    using mode_loop [OF sf] unfolding te(3) sf by (simp add: cm_def sz)
  show "te_has_missing_tracks te \<longleftrightarrow> (\<exists>x \<in> set (ta_missing_value_tracks_true A). x \<noteq> 0)"
    unfolding te(4) by (simp add: Bex_set)
qed

text \<open>
  The invariant of a constructed ensemble: ids are unique, exactly the leaves have no branch, a
  child pointer goes from a branch to another node of the same tree, the flags that select the
  fast loops say what they should, and the roots are the nodes at which the tree id changes.
\<close>

definition child_wf :: "'v tree_node list \<Rightarrow> nat \<Rightarrow> nat option \<Rightarrow> bool" where
  "child_wf nodes i c \<longleftrightarrow> (case c of None \<Rightarrow> True | Some j \<Rightarrow>
     j < length nodes \<and> j \<noteq> i \<and> tn_is_not_leaf (nodes ! i) \<and> fst (tn_id (nodes ! j)) = fst (tn_id (nodes ! i)))"

definition ensemble_wf :: "'v tree_ensemble \<Rightarrow> bool" where
  "ensemble_wf te \<longleftrightarrow>
     (let nodes = te_nodes te; n = length nodes in
      distinct (map tn_id nodes)
      \<and> (\<forall>i < n. (tn_is_not_leaf (nodes ! i) \<longleftrightarrow> tn_mode (nodes ! i) \<noteq> LEAF)
          \<and> child_wf nodes i (tn_truenode (nodes ! i)) \<and> child_wf nodes i (tn_falsenode (nodes ! i)))
      \<and> (te_same_mode te \<longleftrightarrow> (\<forall>i < n. \<forall>j < n. tn_is_not_leaf (nodes ! i) \<longrightarrow> tn_is_not_leaf (nodes ! j) \<longrightarrow>
            tn_mode (nodes ! i) = tn_mode (nodes ! j)))
      \<and> (\<not> te_has_missing_tracks te \<longrightarrow> (\<forall>i < n. \<not> tn_is_missing_track_true (nodes ! i)))
      \<and> te_roots te = filter (\<lambda>i. i = 0 \<or> fst (tn_id (nodes ! (i - 1))) = -1
            \<or> fst (tn_id (nodes ! (i - 1))) \<noteq> fst (tn_id (nodes ! i))) [0..<n])"

lemma constructed_wf:
  assumes ret: "TreeEnsembleCommon A = Inr te"
  shows "ensemble_wf te"
proof -
  let ?n = "length (ta_treeids A)" and ?cm = "map MakeTreeNodeMode (ta_modes A)" and ?nodes = "te_nodes te"
  note c = constructed [OF ret]
  have len: "length ?nodes = ?n" by (rule c(2))
  have modes: "length (ta_modes A) = ?n" using c(1) by (simp add: tree_check_sizes_def)
  have nd: "tn_id (?nodes ! i) = node_id_at A i" "tn_mode (?nodes ! i) = ?cm ! i"
    "tn_is_not_leaf (?nodes ! i) \<longleftrightarrow> ?cm ! i \<noteq> LEAF"
    "tn_is_missing_track_true (?nodes ! i) \<longrightarrow> (\<exists>x \<in> set (ta_missing_value_tracks_true A). x \<noteq> 0)" if "i < ?n" for i
    using c(4) [OF that] by (auto simp: linked_def dest: new_node_missing)
  have kids: "(tn_truenode (?nodes ! i) = None \<and> tn_falsenode (?nodes ! i) = None) \<or> ?cm ! i \<noteq> LEAF
      \<and> child_ok A ?n i (ta_truenodeids A ! i) (tn_truenode (?nodes ! i))
      \<and> child_ok A ?n i (ta_falsenodeids A ! i) (tn_falsenode (?nodes ! i))" if "i < ?n" for i
    using c(4) [OF that] by (auto simp: linked_def split: if_splits)
  have ok: "child_wf ?nodes i t" if "i < ?n" "?cm ! i \<noteq> LEAF" "child_ok A ?n i x t" for i x t
    using that len nd by (auto simp: child_wf_def child_ok_def split: option.splits if_splits)
  have "map tn_id ?nodes = map (node_id_at A) [0..<?n]"
    by (rule nth_equalityI) (use len nd in auto)
  then have "distinct (map tn_id ?nodes)" using c(3) by simp
  moreover have "(tn_is_not_leaf (?nodes ! i) \<longleftrightarrow> tn_mode (?nodes ! i) \<noteq> LEAF)
      \<and> child_wf ?nodes i (tn_truenode (?nodes ! i)) \<and> child_wf ?nodes i (tn_falsenode (?nodes ! i))" if "i < ?n" for i
    using kids [OF that] ok [OF that] nd [OF that] by (auto simp: child_wf_def)
  moreover have "te_same_mode te \<longleftrightarrow> (\<forall>i < ?n. \<forall>j < ?n. tn_is_not_leaf (?nodes ! i) \<longrightarrow> tn_is_not_leaf (?nodes ! j) \<longrightarrow>
      tn_mode (?nodes ! i) = tn_mode (?nodes ! j))"
    unfolding c(6) using nd by auto
  moreover have "\<not> te_has_missing_tracks te \<longrightarrow> (\<forall>i < ?n. \<not> tn_is_missing_track_true (?nodes ! i))"
    unfolding c(7) using nd(4) by blast
  moreover have "te_roots te = filter (\<lambda>i. i = 0 \<or> fst (tn_id (?nodes ! (i - 1))) = -1
      \<or> fst (tn_id (?nodes ! (i - 1))) \<noteq> fst (tn_id (?nodes ! i))) [0..<?n]"
    unfolding c(5) by (rule filter_cong) (auto simp: nd)
  ultimately show ?thesis unfolding ensemble_wf_def Let_def len by blast
qed

section \<open>Walking to a leaf\<close>

text \<open>
  The reference: from a leaf the walk has arrived, from a branch it goes on to the child its test selects. A
  missing value goes to the true side where the node says so.
\<close>

inductive decides :: "(node_mode \<Rightarrow> 'x \<Rightarrow> 'v \<Rightarrow> bool) \<Rightarrow> ('x \<Rightarrow> bool) \<Rightarrow> 'v tree_node list \<Rightarrow> 'x list \<Rightarrow> nat \<Rightarrow> nat \<Rightarrow> nat \<Rightarrow> bool"
  for cmp nan nodes X off where
  arrived: "\<not> tn_is_not_leaf (nodes ! r) \<Longrightarrow> decides cmp nan nodes X off r r"
| go_true: "tn_is_not_leaf (nodes ! r) \<Longrightarrow> x_at X off (tn_feature_id (nodes ! r)) = Inr v \<Longrightarrow>
    cmp (tn_mode (nodes ! r)) v (tn_value (nodes ! r)) \<or> tn_is_missing_track_true (nodes ! r) \<and> nan v \<Longrightarrow>
    tn_truenode (nodes ! r) = Some j \<Longrightarrow> decides cmp nan nodes X off j l \<Longrightarrow> decides cmp nan nodes X off r l"
| go_false: "tn_is_not_leaf (nodes ! r) \<Longrightarrow> x_at X off (tn_feature_id (nodes ! r)) = Inr v \<Longrightarrow>
    \<not> (cmp (tn_mode (nodes ! r)) v (tn_value (nodes ! r)) \<or> tn_is_missing_track_true (nodes ! r) \<and> nan v) \<Longrightarrow>
    tn_falsenode (nodes ! r) = Some j \<Longrightarrow> decides cmp nan nodes X off j l \<Longrightarrow> decides cmp nan nodes X off r l"

inductive_simps decides_leaf: "decides cmp nan nodes X off r l"

lemma mixed_step_cases:
  assumes "tn_mode (nodes ! r) \<noteq> LEAF" "mixed_mode_step cmp nan nodes X off r = Inr j"
  obtains v where "x_at X off (tn_feature_id (nodes ! r)) = Inr v"
    "cmp (tn_mode (nodes ! r)) v (tn_value (nodes ! r)) \<or> tn_is_missing_track_true (nodes ! r) \<and> nan v"
    "tn_truenode (nodes ! r) = Some j"
  | v where "x_at X off (tn_feature_id (nodes ! r)) = Inr v"
    "\<not> (cmp (tn_mode (nodes ! r)) v (tn_value (nodes ! r)) \<or> tn_is_missing_track_true (nodes ! r) \<and> nan v)"
    "tn_falsenode (nodes ! r) = Some j"
proof -
  let ?c = "\<lambda>v. cmp (tn_mode (nodes ! r)) v (tn_value (nodes ! r)) \<or> tn_is_missing_track_true (nodes ! r) \<and> nan v"
  obtain v where v: "x_at X off (tn_feature_id (nodes ! r)) = Inr v" "take_branch (nodes ! r) (?c v) = Inr j"
    using assms by (auto simp: mixed_mode_step_def Let_def bindE_Inr_iff)
  show thesis
  proof (cases "?c v")
    case True
    then have "tn_truenode (nodes ! r) = Some j" using v(2) by (simp add: take_branch_def split: option.splits)
    with True v(1) that(1) show thesis by blast
  next
    case False
    then have "tn_falsenode (nodes ! r) = Some j" using v(2) by (auto simp: take_branch_def split: option.splits if_splits)
    with False v(1) that(2) show thesis by blast
  qed
qed

text \<open>\<open>S\<close> is a set of nodes that the walk does not leave.\<close>

lemma to_leaf_decides:
  assumes "to_leaf (mixed_mode_step cmp nan nodes X off) nodes r = Some (Inr l)" and r: "r \<in> S"
    and modes: "\<And>i. i \<in> S \<Longrightarrow> tn_is_not_leaf (nodes ! i) \<Longrightarrow> tn_mode (nodes ! i) \<noteq> LEAF"
    and closed: "\<And>i j. i \<in> S \<Longrightarrow> tn_is_not_leaf (nodes ! i) \<Longrightarrow> mixed_mode_step cmp nan nodes X off i = Inr j \<Longrightarrow> j \<in> S"
  shows "decides cmp nan nodes X off r l"
proof -
  let ?s = "mixed_mode_step cmp nan nodes X off"
  have "?s = ?s \<longrightarrow> nodes = nodes \<longrightarrow> r \<in> S \<longrightarrow> (\<forall>l. y = Inr l \<longrightarrow> decides cmp nan nodes X off r l)"
    if "to_leaf ?s nodes r = Some y" for y
  proof (rule to_leaf.raw_induct [where P = "\<lambda>st ns r y. st = ?s \<longrightarrow> ns = nodes \<longrightarrow> r \<in> S \<longrightarrow>
      (\<forall>l. y = Inr l \<longrightarrow> decides cmp nan nodes X off r l)", OF _ that], intro impI allI)
    fix f st ns r y l
    assume IH: "\<And>st ns r y. f st ns r = Some y \<Longrightarrow> st = ?s \<longrightarrow> ns = nodes \<longrightarrow> r \<in> S \<longrightarrow>
        (\<forall>l. y = Inr l \<longrightarrow> decides cmp nan nodes X off r l)"
      and eq: "(if tn_is_not_leaf (ns ! r) then (case st r of Inl e \<Rightarrow> Some (Inl e) | Inr j \<Rightarrow> f st ns j) else Some (Inr r)) = Some y"
      and st: "st = ?s" "ns = nodes" and r: "r \<in> S" and y: "y = Inr l"
    show "decides cmp nan nodes X off r l"
    proof (cases "tn_is_not_leaf (nodes ! r)")
      case False
      then show ?thesis using eq st y by (auto intro: arrived)
    next
      case True
      then obtain j where j: "?s r = Inr j" "f st ns j = Some y"
        using eq st y by (auto split: sum.splits)
      have "decides cmp nan nodes X off j l" using IH [OF j(2)] st y closed [OF r True j(1)] by blast
      with j(1) modes [OF r True] True show ?thesis
        by (elim mixed_step_cases) (auto intro: go_true go_false)
    qed
  qed
  with assms(1) r show ?thesis by blast
qed

lemma decides_to_leaf:
  assumes "decides cmp nan nodes X off r l" and "r \<in> S"
    and modes: "\<And>i. i \<in> S \<Longrightarrow> tn_is_not_leaf (nodes ! i) \<Longrightarrow> tn_mode (nodes ! i) \<noteq> LEAF"
    and closed: "\<And>i j. i \<in> S \<Longrightarrow> tn_is_not_leaf (nodes ! i) \<Longrightarrow> mixed_mode_step cmp nan nodes X off i = Inr j \<Longrightarrow> j \<in> S"
  shows "to_leaf (mixed_mode_step cmp nan nodes X off) nodes r = Some (Inr l)"
  using assms(1,2)
proof induction
  case (arrived r)
  then show ?case by (simp add: to_leaf.simps)
next
  case (go_true r v j l)
  then have st: "mixed_mode_step cmp nan nodes X off r = Inr j"
    using modes by (simp add: mixed_mode_step_def take_branch_def)
  with go_true closed have "to_leaf (mixed_mode_step cmp nan nodes X off) nodes j = Some (Inr l)" by blast
  with go_true(1) st show ?case by (subst to_leaf.simps) simp
next
  case (go_false r v j l)
  then have st: "mixed_mode_step cmp nan nodes X off r = Inr j"
    using modes by (auto simp: mixed_mode_step_def take_branch_def)
  with go_false closed have "to_leaf (mixed_mode_step cmp nan nodes X off) nodes j = Some (Inr l)" by blast
  with go_false(1) st show ?case by (subst to_leaf.simps) simp
qed

text \<open>Two bodies that agree on all nodes the walk can visit give the same walk.\<close>

lemma to_leaf_agree:
  assumes ret: "to_leaf s1 nodes r = Some y" and r: "r \<in> S"
    and agree: "\<And>i. i \<in> S \<Longrightarrow> tn_is_not_leaf (nodes ! i) \<Longrightarrow> s2 i = s1 i"
    and closed: "\<And>i j. i \<in> S \<Longrightarrow> tn_is_not_leaf (nodes ! i) \<Longrightarrow> s1 i = Inr j \<Longrightarrow> j \<in> S"
  shows "to_leaf s2 nodes r = Some y"
proof -
  have "s1 = s1 \<longrightarrow> nodes = nodes \<longrightarrow> r \<in> S \<longrightarrow> to_leaf s2 nodes r = Some y"
  proof (rule to_leaf.raw_induct [where P = "\<lambda>st ns r y. st = s1 \<longrightarrow> ns = nodes \<longrightarrow> r \<in> S \<longrightarrow> to_leaf s2 nodes r = Some y",
        OF _ ret], intro impI)
    fix f st ns r y
    assume IH: "\<And>st ns r y. f st ns r = Some y \<Longrightarrow> st = s1 \<longrightarrow> ns = nodes \<longrightarrow> r \<in> S \<longrightarrow> to_leaf s2 nodes r = Some y"
      and eq: "(if tn_is_not_leaf (ns ! r) then (case st r of Inl e \<Rightarrow> Some (Inl e) | Inr j \<Rightarrow> f st ns j) else Some (Inr r)) = Some y"
      and st: "st = s1" "ns = nodes" and r: "r \<in> S"
    show "to_leaf s2 nodes r = Some y"
    proof (cases "tn_is_not_leaf (nodes ! r)")
      case False
      then show ?thesis using eq st by (simp add: to_leaf.simps)
    next
      case True
      note a = agree [OF r True]
      show ?thesis
      proof (cases "s1 r")
        case (Inl e)
        then have "y = Inl e" using eq st True by simp
        then show ?thesis using True a Inl by (subst to_leaf.simps) simp
      next
        case (Inr j)
        then have "f st ns j = Some y" using eq st True by simp
        then have "to_leaf s2 nodes j = Some y" using IH st closed [OF r True Inr] by blast
        then show ?thesis using True a Inr by (subst to_leaf.simps) simp
      qed
    qed
  qed
  with r show ?thesis by blast
qed

lemma same_mode_step_mixed:
  assumes "tn_mode (nodes ! i) = m" "m \<noteq> LEAF" "\<not> has_missing \<Longrightarrow> \<not> tn_is_missing_track_true (nodes ! i)"
  shows "same_mode_step cmp nan has_missing m nodes X off i = mixed_mode_step cmp nan nodes X off i"
  using assms by (cases has_missing) (auto simp: same_mode_step_def mixed_mode_step_def Let_def)

lemma mixed_step_inside:
  assumes "ensemble_wf te" "i < length (te_nodes te)" "tn_is_not_leaf (te_nodes te ! i)"
    "mixed_mode_step cmp nan (te_nodes te) X off i = Inr j"
  shows "j < length (te_nodes te)"
proof -
  note w = assms(1) [unfolded ensemble_wf_def Let_def]
  have m: "tn_mode (te_nodes te ! i) \<noteq> LEAF" using w assms(2,3) by blast
  have k: "child_wf (te_nodes te) i (tn_truenode (te_nodes te ! i))" "child_wf (te_nodes te) i (tn_falsenode (te_nodes te ! i))"
    using w assms(2) by blast+
  have "tn_truenode (te_nodes te ! i) = Some j \<or> tn_falsenode (te_nodes te ! i) = Some j"
    by (rule mixed_step_cases [OF m assms(4)]) simp_all
  then show ?thesis using k by (auto simp: child_wf_def)
qed

lemma walk_mixed:
  assumes wf: "ensemble_wf te" and r: "r < length (te_nodes te)"
  shows "ProcessTreeNodeLeave te cmp nan X off r = to_leaf (mixed_mode_step cmp nan (te_nodes te) X off) (te_nodes te) r"
proof (cases "te_same_mode te")
  case False
  then show ?thesis by (simp add: ProcessTreeNodeLeave_def)
next
  case True
  let ?nodes = "te_nodes te" and ?n = "length (te_nodes te)"
  note w = wf [unfolded ensemble_wf_def Let_def]
  show ?thesis
  proof (cases "tn_mode (?nodes ! r) = LEAF")
    case leaf: True
    then have "\<not> tn_is_not_leaf (?nodes ! r)" using w r by blast
    then show ?thesis using True leaf by (simp add: ProcessTreeNodeLeave_def to_leaf.simps)
  next
    case branch: False
    let ?s1 = "same_mode_step cmp nan (te_has_missing_tracks te) (tn_mode (?nodes ! r)) ?nodes X off"
      and ?s2 = "mixed_mode_step cmp nan ?nodes X off"
    have rb: "tn_is_not_leaf (?nodes ! r)" using w r branch by blast
    have eq: "?s1 i = ?s2 i" if "i \<in> {..<?n}" "tn_is_not_leaf (?nodes ! i)" for i
    proof (rule same_mode_step_mixed)
      show "tn_mode (?nodes ! i) = tn_mode (?nodes ! r)" using w True that rb r by blast
      show "\<not> te_has_missing_tracks te \<Longrightarrow> \<not> tn_is_missing_track_true (?nodes ! i)" using w that by blast
    qed (rule branch)
    have closed: "j \<in> {..<?n}" if "i \<in> {..<?n}" "tn_is_not_leaf (?nodes ! i)" "?s2 i = Inr j" for i j
      using mixed_step_inside [OF wf _ that(2,3)] that(1) by simp
    have "to_leaf ?s1 ?nodes r = to_leaf ?s2 ?nodes r"
    proof (cases "to_leaf ?s1 ?nodes r")
      case None
      have False if "to_leaf ?s2 ?nodes r = Some y" for y
        using to_leaf_agree [OF that, of "{..<?n}" ?s1] eq closed r None by auto
      then show ?thesis using None by (cases "to_leaf ?s2 ?nodes r") auto
    next
      case (Some y)
      have "to_leaf ?s2 ?nodes r = Some y"
        by (rule to_leaf_agree [OF Some, of "{..<?n}"]) (use eq closed r in auto)
      with Some show ?thesis by simp
    qed
    then show ?thesis using True branch by (simp add: ProcessTreeNodeLeave_def)
  qed
qed

text \<open>Where an ensemble can get stuck: a null child, or a feature outside the input.\<close>

definition walkable :: "'v tree_node list \<Rightarrow> 'x list \<Rightarrow> nat \<Rightarrow> bool" where
  "walkable nodes X off \<longleftrightarrow> (\<forall>i < length nodes. tn_is_not_leaf (nodes ! i) \<longrightarrow>
     tn_truenode (nodes ! i) \<noteq> None \<and> tn_falsenode (nodes ! i) \<noteq> None
     \<and> 0 \<le> int off + tn_feature_id (nodes ! i) \<and> int off + tn_feature_id (nodes ! i) < int (length X))"

definition child_rel :: "'v tree_node list \<Rightarrow> (nat \<times> nat) set" where
  "child_rel nodes = {(j, i). i < length nodes \<and> j < length nodes
     \<and> (tn_truenode (nodes ! i) = Some j \<or> tn_falsenode (nodes ! i) = Some j)}"

lemma walk_arrives:
  assumes wf: "ensemble_wf te" and ok: "walkable (te_nodes te) X off" and acyclic: "acyclic (child_rel (te_nodes te))"
    and r: "r < length (te_nodes te)"
  shows "\<exists>l < length (te_nodes te). decides cmp nan (te_nodes te) X off r l \<and> \<not> tn_is_not_leaf (te_nodes te ! l)
    \<and> fst (tn_id (te_nodes te ! l)) = fst (tn_id (te_nodes te ! r))"
proof -
  let ?nodes = "te_nodes te"
  have "finite (child_rel ?nodes)"
    by (rule finite_subset [of _ "{..<length ?nodes} \<times> {..<length ?nodes}"]) (auto simp: child_rel_def)
  then have "wf (child_rel ?nodes)" using acyclic by (rule finite_acyclic_wf)
  then show ?thesis using r
  proof (induction r rule: wf_induct_rule)
    case (less r)
    note w = wf [unfolded ensemble_wf_def Let_def]
    show ?case
    proof (cases "tn_is_not_leaf (?nodes ! r)")
      case False
      then show ?thesis using less.prems by (auto intro: arrived)
    next
      case True
      from ok True less.prems obtain t f where tf: "tn_truenode (?nodes ! r) = Some t" "tn_falsenode (?nodes ! r) = Some f"
        and x: "0 \<le> int off + tn_feature_id (?nodes ! r)" "int off + tn_feature_id (?nodes ! r) < int (length X)"
        unfolding walkable_def by blast
      then obtain v where v: "x_at X off (tn_feature_id (?nodes ! r)) = Inr v" by (auto simp: x_at_def)
      have kid: "c < length ?nodes" "fst (tn_id (?nodes ! c)) = fst (tn_id (?nodes ! r))" "(c, r) \<in> child_rel ?nodes"
        if "c = t \<or> c = f" for c
      proof -
        have "child_wf ?nodes r (Some t)" "child_wf ?nodes r (Some f)" using w less.prems tf by metis+
        then show "c < length ?nodes" "fst (tn_id (?nodes ! c)) = fst (tn_id (?nodes ! r))" "(c, r) \<in> child_rel ?nodes"
          using that less.prems tf by (auto simp: child_wf_def child_rel_def)
      qed
      have down: "\<exists>l < length ?nodes. decides cmp nan ?nodes X off c l \<and> \<not> tn_is_not_leaf (?nodes ! l)
          \<and> fst (tn_id (?nodes ! l)) = fst (tn_id (?nodes ! c))" if "c = t \<or> c = f" for c
        by (rule less.IH) (use kid [OF that] in auto)
      show ?thesis
      proof (cases "cmp (tn_mode (?nodes ! r)) v (tn_value (?nodes ! r)) \<or> tn_is_missing_track_true (?nodes ! r) \<and> nan v")
        case c: True
        from down [of t] kid [of t] go_true [where nodes = ?nodes and cmp = cmp and nan = nan and X = X and off = off and r = r and v = v, OF True v c tf(1)] show ?thesis by metis
      next
        case c: False
        from down [of f] kid [of f] go_false [where nodes = ?nodes and cmp = cmp and nan = nan and X = X and off = off and r = r and v = v, OF True v c tf(2)] show ?thesis by metis
      qed
    qed
  qed
qed

lemma walk_decides:
  assumes wf: "ensemble_wf te" and r: "r < length (te_nodes te)"
  shows "ProcessTreeNodeLeave te cmp nan X off r = Some (Inr l) \<longleftrightarrow> decides cmp nan (te_nodes te) X off r l"
proof -
  let ?S = "{..<length (te_nodes te)}" and ?nodes = "te_nodes te"
  have m: "tn_mode (?nodes ! i) \<noteq> LEAF" if "i \<in> ?S" "tn_is_not_leaf (?nodes ! i)" for i
    using wf [unfolded ensemble_wf_def Let_def] that by blast
  have c: "j \<in> ?S" if "i \<in> ?S" "tn_is_not_leaf (?nodes ! i)" "mixed_mode_step cmp nan ?nodes X off i = Inr j" for i j
    using mixed_step_inside [OF wf _ that(2,3)] that(1) by simp
  have "r \<in> ?S" using r by simp
  show ?thesis unfolding walk_mixed [OF wf r]
  proof
    assume h: "to_leaf (mixed_mode_step cmp nan ?nodes X off) ?nodes r = Some (Inr l)"
    show "decides cmp nan ?nodes X off r l"
      by (rule to_leaf_decides [OF h \<open>r \<in> ?S\<close>]) (use m c in blast)+
  next
    assume h: "decides cmp nan ?nodes X off r l"
    show "to_leaf (mixed_mode_step cmp nan ?nodes X off) ?nodes r = Some (Inr l)"
      by (rule decides_to_leaf [OF h \<open>r \<in> ?S\<close>]) (use m c in blast)+
  qed
qed

section \<open>What holds of ensembles\<close>

text \<open>
  C27. A constructed ensemble satisfies its invariant \<open>ensemble_wf\<close>; the pointer to a child is null
  exactly when the id of the child does not lie below the number of nodes; and every node carries
  the weights that were given for its id, in the order of the attributes.
\<close>

theorem tree_ensemble_constructed:
  assumes "TreeEnsembleCommon A = Inr te" and "i < length (te_nodes te)"
  shows "ensemble_wf te \<and> length (te_nodes te) = length (ta_treeids A) \<and> tn_id (te_nodes te ! i) = node_id_at A i
    \<and> tn_weights (te_nodes te ! i) = map (\<lambda>k. (ta_class_ids A ! k, ta_class_weights A ! k))
        (filter (\<lambda>k. (to_int (ta_class_treeids A ! k), to_int (ta_class_nodeids A ! k)) = tn_id (te_nodes te ! i))
          [0..<length (ta_class_nodeids A)])
    \<and> (tn_is_not_leaf (te_nodes te ! i) \<longrightarrow>
        (tn_truenode (te_nodes te ! i) = None
          \<longleftrightarrow> \<not> (0 \<le> to_int (ta_truenodeids A ! i) \<and> to_int (ta_truenodeids A ! i) < int (length (te_nodes te))))
        \<and> (tn_falsenode (te_nodes te ! i) = None
          \<longleftrightarrow> \<not> (0 \<le> to_int (ta_falsenodeids A ! i) \<and> to_int (ta_falsenodeids A ! i) < int (length (te_nodes te)))))"
proof -
  note c = constructed [OF assms(1)]
  have i: "i < length (ta_treeids A)" using assms(2) c(2) by simp
  obtain nd where nd: "linked A (map MakeTreeNodeMode (ta_modes A)) (length (ta_treeids A)) i nd"
    "te_nodes te ! i = nd\<lparr>tn_weights := weights_of A (length (ta_class_nodeids A)) (node_id_at A i)\<rparr>"
    using c(4) [OF i] by blast
  have id: "tn_id (te_nodes te ! i) = node_id_at A i" using nd by (auto simp: linked_def)
  have "tn_is_not_leaf (te_nodes te ! i) \<longrightarrow>
      child_ok A (length (ta_treeids A)) i (ta_truenodeids A ! i) (tn_truenode (te_nodes te ! i))
      \<and> child_ok A (length (ta_treeids A)) i (ta_falsenodeids A ! i) (tn_falsenode (te_nodes te ! i))"
    using nd by (auto simp: linked_def split: if_splits)
  moreover have "t = None \<longleftrightarrow> \<not> (0 \<le> to_int x \<and> to_int x < int (length (ta_treeids A)))"
    if "child_ok A (length (ta_treeids A)) i x t" for x t
    using that by (auto simp: child_ok_def split: if_splits)
  ultimately show ?thesis
    using constructed_wf [OF assms(1)] c(2) id nd(2) by (auto simp: weights_of_def)
qed

text \<open>
  C21. The walk returns leaf \<open>l\<close> exactly when the tests of the nodes lead there, be it by the loops for
  ensembles in which all branches compare alike, with or without missing values, or by the
  general one.
\<close>

theorem tree_walk_correct:
  assumes "TreeEnsembleCommon A = Inr te" "r < length (te_nodes te)"
  shows "ProcessTreeNodeLeave te cmp nan X off r = Some (Inr l) \<longleftrightarrow> decides cmp nan (te_nodes te) X off r l"
  by (rule walk_decides [OF constructed_wf [OF assms(1)] assms(2)])

text \<open>
  C37. When the child pointers form no cycle, no child is null and the input has all features, the walk ends,
  whatever the comparisons say, at a leaf of the same tree.
\<close>

theorem tree_walk_ends:
  assumes "TreeEnsembleCommon A = Inr te" "r < length (te_nodes te)"
    and "walkable (te_nodes te) X off" "acyclic (child_rel (te_nodes te))"
  shows "\<exists>l < length (te_nodes te). ProcessTreeNodeLeave te cmp nan X off r = Some (Inr l)
    \<and> tn_mode (te_nodes te ! l) = LEAF \<and> fst (tn_id (te_nodes te ! l)) = fst (tn_id (te_nodes te ! r))"
proof -
  have wf: "ensemble_wf te" by (rule constructed_wf [OF assms(1)])
  obtain l where l: "l < length (te_nodes te)" "decides cmp nan (te_nodes te) X off r l" "\<not> tn_is_not_leaf (te_nodes te ! l)"
    "fst (tn_id (te_nodes te ! l)) = fst (tn_id (te_nodes te ! r))"
    using walk_arrives [OF wf assms(3,4,2), of cmp nan] by blast
  have "tn_mode (te_nodes te ! l) = LEAF" using wf [unfolded ensemble_wf_def Let_def] l(1,3) by blast
  with l walk_decides [OF wf assms(2), of cmp nan X off l] show ?thesis by auto
qed

text \<open>Small ensembles for examples: one tree of three nodes with given ids and children of the first two.\<close>

definition three_nodes :: "int \<Rightarrow> int list \<Rightarrow> int list \<Rightarrow> int list \<Rightarrow> string list \<Rightarrow> int list \<Rightarrow> int tree_attrs" where
  "three_nodes tree ids trues falses modes weights =
     \<lparr>ta_parallel_tree = 80, ta_parallel_N = 50, ta_aggregate_function = ''SUM'', ta_base_values = [],
      ta_n_targets_or_classes = 1, ta_falsenodeids = falses, ta_featureids = [0, 0, 0], ta_hitrates = [],
      ta_missing_value_tracks_true = [], ta_modes = modes, ta_nodeids = ids, ta_treeids = [tree, tree, tree],
      ta_truenodeids = trues, ta_values = [5, 3, 0], ta_post_transform = ''NONE'',
      ta_class_ids = [0, 0], ta_class_nodeids = [ids ! 1, ids ! 2], ta_class_treeids = [tree, tree],
      ta_class_weights = weights\<rparr>"

definition compare_int :: "node_mode \<Rightarrow> int \<Rightarrow> int \<Rightarrow> bool" where
  "compare_int m v t = (case m of BRANCH_LEQ \<Rightarrow> v \<le> t | BRANCH_LT \<Rightarrow> v < t | BRANCH_GTE \<Rightarrow> v \<ge> t | BRANCH_GT \<Rightarrow> v > t
     | BRANCH_EQ \<Rightarrow> v = t | BRANCH_NEQ \<Rightarrow> v \<noteq> t | LEAF \<Rightarrow> False)"

abbreviation good_tree :: "int tree_attrs" where
  "good_tree \<equiv> three_nodes 0 [0, 1, 2] [1, 0, 0] [2, 0, 0] [''BRANCH_LEQ'', ''LEAF'', ''LEAF''] [10, 20]"

definition built :: "'v::{one,uminus} tree_attrs \<Rightarrow> 'v tree_ensemble" where
  "built A = (case TreeEnsembleCommon A of Inr te \<Rightarrow> te | Inl e \<Rightarrow> undefined)"

definition builds :: "'v::{one,uminus} tree_attrs \<Rightarrow> bool" where
  "builds A = (case TreeEnsembleCommon A of Inr te \<Rightarrow> True | Inl e \<Rightarrow> False)"

lemma builds_built: "builds A \<Longrightarrow> TreeEnsembleCommon A = Inr (built A)"
  by (auto simp: builds_def built_def split: sum.splits)

lemma good_tree_builds: "builds good_tree"
  by code_simp

lemma good_tree_nodes: "length (te_nodes (built good_tree)) = 3"
  by code_simp

theorem tree_ensemble_constructed_witness:
  "ensemble_wf (built good_tree) \<and> tn_weights (te_nodes (built good_tree) ! 2) = [(0, 20)]"
proof -
  have "2 < length (te_nodes (built good_tree))" using good_tree_nodes by simp
  from tree_ensemble_constructed [OF builds_built [OF good_tree_builds] this]
  have "ensemble_wf (built good_tree)" by (rule conjunct1)
  moreover have "tn_weights (te_nodes (built good_tree) ! 2) = [(0, 20)]" by code_simp
  ultimately show ?thesis ..
qed

theorem tree_walk_correct_witness:
  "ProcessTreeNodeLeave (built good_tree) compare_int (\<lambda>_. False) [7, 4] 1 0 = Some (Inr 1)"
proof -
  have "\<not> tn_is_not_leaf (te_nodes (built good_tree) ! 1)" by code_simp
  then have 1: "decides compare_int (\<lambda>_. False) (te_nodes (built good_tree)) [7, 4] 1 1 1" by (rule arrived)
  have "tn_is_not_leaf (te_nodes (built good_tree) ! 0)" by code_simp
  moreover have "x_at [7::int, 4] 1 (tn_feature_id (te_nodes (built good_tree) ! 0)) = Inr 4" by code_simp
  moreover have "compare_int (tn_mode (te_nodes (built good_tree) ! 0)) 4 (tn_value (te_nodes (built good_tree) ! 0))" by code_simp
  moreover have "tn_truenode (te_nodes (built good_tree) ! 0) = Some 1" by code_simp
  ultimately have "decides compare_int (\<lambda>_. False) (te_nodes (built good_tree)) [7, 4] 1 0 1"
    using 1 by (blast intro: go_true)
  then show ?thesis
    using tree_walk_correct [OF builds_built [OF good_tree_builds], of 0 compare_int "\<lambda>_. False" "[7, 4]" 1 1] good_tree_nodes
    by simp
qed

theorem tree_walk_ends_witness:
  "list_ex (\<lambda>l. ProcessTreeNodeLeave (built good_tree) compare_int (\<lambda>_. False) [7, 4] 0 0 = Some (Inr l)) [0..<3]"
proof -
  have kids: "map tn_truenode (te_nodes (built good_tree)) = [Some 1, None, None]"
    "map tn_falsenode (te_nodes (built good_tree)) = [Some 2, None, None]" by code_simp+
  have at: "tn_truenode (te_nodes (built good_tree) ! i) = [Some 1, None, None] ! i"
    "tn_falsenode (te_nodes (built good_tree) ! i) = [Some 2, None, None] ! i" if "i < 3" for i
    using that good_tree_nodes arg_cong [OF kids(1), where f = "\<lambda>xs. xs ! i"]
      arg_cong [OF kids(2), where f = "\<lambda>xs. xs ! i"] by simp_all
  have "i < j" if ji: "(j, i) \<in> child_rel (te_nodes (built good_tree))" for i j
  proof -
    have i: "i < 3" and c: "[Some 1, None, None] ! i = Some j \<or> [Some 2, None, None] ! i = Some j"
      using ji at [of i] by (auto simp: child_rel_def good_tree_nodes)
    consider "i = 0" | "i = 1" | "i = 2" using i by linarith
    then show ?thesis using c by cases auto
  qed
  then have "child_rel (te_nodes (built good_tree)) \<subseteq> {(j, i). i < j}" by auto
  moreover have "acyclic {(j, i). i < (j::nat)}"
  proof -
    have "{(j, i). i < (j::nat)} = {(i, j). i < j}\<inverse>" by auto
    then show ?thesis using wf_acyclic [OF wf_less] by (simp only: acyclic_converse)
  qed
  ultimately have "acyclic (child_rel (te_nodes (built good_tree)))" using acyclic_subset by blast
  moreover have "walkable (te_nodes (built good_tree)) [7, 4] 0" unfolding walkable_def good_tree_nodes by code_simp
  ultimately obtain l where "l < 3" "ProcessTreeNodeLeave (built good_tree) compare_int (\<lambda>_. False) [7, 4] 0 0 = Some (Inr l)"
    using tree_walk_ends [OF builds_built [OF good_tree_builds], of 0 "[7, 4]" 0 compare_int "\<lambda>_. False"] good_tree_nodes by auto
  then show ?thesis by (auto simp: list_ex_iff)
qed

text \<open>
  What the constructor accepts without a check. Two branches that are each other's child: the walk never ends.
  Node ids that start at 5: the pointers to the children are null and the walk dereferences
  them. Fewer weights than ids of weights: the constructor reads past their end. The tree id -1: every
  node of the tree becomes a root.
\<close>

theorem tree_attributes_unchecked:
  "builds (three_nodes 0 [0, 1, 2] [1, 0, 0] [1, 0, 0] [''BRANCH_LEQ'', ''BRANCH_LEQ'', ''LEAF''] [10, 20])
   \<and> ProcessTreeNodeLeave (built (three_nodes 0 [0, 1, 2] [1, 0, 0] [1, 0, 0] [''BRANCH_LEQ'', ''BRANCH_LEQ'', ''LEAF''] [10, 20]))
       compare_int (\<lambda>_. False) [4] 0 0 = None
   \<and> ProcessTreeNodeLeave (built (three_nodes 0 [5, 6, 7] [6, 0, 0] [7, 0, 0] [''BRANCH_LEQ'', ''LEAF'', ''LEAF''] [10, 20]))
       compare_int (\<lambda>_. False) [4] 0 0 = Some (Inl Undefined)
   \<and> TreeEnsembleCommon (three_nodes 0 [0, 1, 2] [1, 0, 0] [2, 0, 0] [''BRANCH_LEQ'', ''LEAF'', ''LEAF''] [10]) = Inl Undefined
   \<and> te_roots (built (three_nodes 0 [0, 1, 2] [1, 0, 0] [2, 0, 0] [''BRANCH_LEQ'', ''LEAF'', ''LEAF''] [10, 20])) = [0]
   \<and> te_roots (built (three_nodes (-1) [0, 1, 2] [1, 0, 0] [2, 0, 0] [''BRANCH_LEQ'', ''LEAF'', ''LEAF''] [10, 20])) = [0, 1, 2]"
proof -
  let ?A = "three_nodes 0 [0, 1, 2] [1, 0, 0] [1, 0, 0] [''BRANCH_LEQ'', ''BRANCH_LEQ'', ''LEAF''] [10, 20]"
  let ?B = "three_nodes 0 [5, 6, 7] [6, 0, 0] [7, 0, 0] [''BRANCH_LEQ'', ''LEAF'', ''LEAF''] [10, 20]"
  let ?s = "mixed_mode_step compare_int (\<lambda>_. False) (te_nodes (built ?A)) [4] 0"
  have b: "builds ?A" "builds ?B" by code_simp+
  have len: "length (te_nodes (built ?A)) = 3" "length (te_nodes (built ?B)) = 3" by code_simp+
  have cyc: "?s 0 = Inr 1" "?s 1 = Inr 0" by code_simp+
  have br: "tn_is_not_leaf (te_nodes (built ?A) ! 0)" "tn_is_not_leaf (te_nodes (built ?A) ! 1)" by code_simp+
  have never: False if "to_leaf ?s (te_nodes (built ?A)) 0 = Some y" for y
  proof -
    have "?s = ?s \<longrightarrow> te_nodes (built ?A) = te_nodes (built ?A) \<longrightarrow> 0 \<in> {0, 1::nat} \<longrightarrow> False"
    proof (rule to_leaf.raw_induct [where P = "\<lambda>st ns r y. st = ?s \<longrightarrow> ns = te_nodes (built ?A) \<longrightarrow> r \<in> {0, 1} \<longrightarrow> False",
          OF _ that], intro impI)
      fix f st ns r y
      assume IH: "\<And>st ns r y. f st ns r = Some y \<Longrightarrow> st = ?s \<longrightarrow> ns = te_nodes (built ?A) \<longrightarrow> r \<in> {0, 1} \<longrightarrow> False"
        and eq: "(if tn_is_not_leaf (ns ! r) then (case st r of Inl e \<Rightarrow> Some (Inl e) | Inr j \<Rightarrow> f st ns j) else Some (Inr r)) = Some y"
        and st: "st = ?s" "ns = te_nodes (built ?A)" and r: "r \<in> {0, 1}"
      have "f ?s (te_nodes (built ?A)) (1 - r) = Some y"
        using r eq br cyc unfolding st by auto
      then show False using IH r by fastforce
    qed
    then show False by simp
  qed
  have "ProcessTreeNodeLeave (built ?A) compare_int (\<lambda>_. False) [4] 0 0 = None"
  proof (cases "to_leaf ?s (te_nodes (built ?A)) 0")
    case None
    have "0 < length (te_nodes (built ?A))" using len by simp
    from trans [OF walk_mixed [OF constructed_wf [OF builds_built [OF b(1)]] this] None] show ?thesis .
  qed (use never in blast)
  moreover have "ProcessTreeNodeLeave (built ?B) compare_int (\<lambda>_. False) [4] 0 0 = Some (Inl Undefined)"
  proof -
    have "mixed_mode_step compare_int (\<lambda>_. False) (te_nodes (built ?B)) [4] 0 0 = Inl Undefined" by code_simp
    moreover have "tn_is_not_leaf (te_nodes (built ?B) ! 0)" by code_simp
    ultimately show ?thesis
      using walk_mixed [OF constructed_wf [OF builds_built [OF b(2)]], of 0 compare_int "\<lambda>_. False" "[4]" 0] len
      by (simp add: to_leaf.simps)
  qed
  moreover have "TreeEnsembleCommon (three_nodes 0 [0, 1, 2] [1, 0, 0] [2, 0, 0] [''BRANCH_LEQ'', ''LEAF'', ''LEAF''] [10]) = Inl Undefined"
    by code_simp
  moreover have "te_roots (built (three_nodes 0 [0, 1, 2] [1, 0, 0] [2, 0, 0] [''BRANCH_LEQ'', ''LEAF'', ''LEAF''] [10, 20])) = [0]"
    "te_roots (built (three_nodes (-1) [0, 1, 2] [1, 0, 0] [2, 0, 0] [''BRANCH_LEQ'', ''LEAF'', ''LEAF''] [10, 20])) = [0, 1, 2]"
    by code_simp+
  ultimately show ?thesis using b(1) by blast
qed

end
