(* ===== verification/MlCommon.thy ===== *)
theory MlCommon
  imports Complex_Main TreeEnsemble
begin

text \<open>
  Scores of the classical machine learning operators (onnxruntime/core/providers/cpu/ml/ml_common.h): the
  transforms from scores to probabilities, how scores are written out, with the second class that a
  binary classifier adds, and the batched routine that does this in place. Numbers are elements
  of an ordered field, so rounding is left out; \<open>exp\<close>, \<open>log\<close>, \<open>sqrt\<close> and the smallest
  float come from the standard library and are parameters, as are the routines of the matrix library.
\<close>

section \<open>Model\<close>

record 'v math =
  m_exp :: "'v \<Rightarrow> 'v"
  m_log :: "'v \<Rightarrow> 'v"
  m_sqrt :: "'v \<Rightarrow> 'v"
  m_lowest :: 'v

definition ErfInv :: "'v::linordered_field math \<Rightarrow> 'v \<Rightarrow> 'v" where
  "ErfInv M x =
     (let sgn = (if x < 0 then - 1 else 1);
          x = (1 - x) * (1 + x);
          log = m_log M x;
          v = 2 / (314159 / 100000 * (147 / 1000)) + 1 / 2 * log;
          v2 = 1 / (147 / 1000) * log;
          v3 = - v + m_sqrt M (v * v - v2) in
      sgn * m_sqrt M v3)"

definition ComputeLogistic :: "'v::linordered_field math \<Rightarrow> 'v \<Rightarrow> 'v" where
  "ComputeLogistic M val = (let v = 1 / (1 + m_exp M (- \<bar>val\<bar>)) in if val < 0 then 1 - v else v)"

definition ComputeProbit :: "'v::linordered_field math \<Rightarrow> 'v \<Rightarrow> 'v" where
  "ComputeProbit M val = 141421356 / 100000000 * ErfInv M (2 * val - 1)"

definition sigmoid_probability :: "'v::linordered_field math \<Rightarrow> 'v \<Rightarrow> 'v \<Rightarrow> 'v \<Rightarrow> 'v" where
  "sigmoid_probability M score proba probb = 1 - ComputeLogistic M (score * proba + probb)"

text \<open>The first loop of both: the largest value.\<close>

definition max_value :: "'v::linordered_field math \<Rightarrow> 'v list \<Rightarrow> 'v" where
  "max_value M values = fold (\<lambda>v v_max. if v > v_max then v else v_max) values (m_lowest M)"

definition ComputeSoftmax :: "'v::linordered_field math \<Rightarrow> 'v list \<Rightarrow> 'v list" where
  "ComputeSoftmax M values =
     (let v_max = max_value M values;
          es = map (\<lambda>v. m_exp M (v - v_max)) values;
          this_sum = fold (\<lambda>e s. s + e) es 0 in
      map (\<lambda>e. e / this_sum) es)"

definition ComputeSoftmaxZero :: "'v::linordered_field math \<Rightarrow> 'v list \<Rightarrow> 'v list" where
  "ComputeSoftmaxZero M values =
     (let v_max = max_value M values;
          exp_neg_v_max = m_exp M (- v_max);
          far = (\<lambda>v. v > 1 / 10000000 \<or> v < - 1 / 10000000);
          es = map (\<lambda>v. if far v then m_exp M (v - v_max) else v * exp_neg_v_max) values;
          this_sum = fold (\<lambda>v s. if far v then s + m_exp M (v - v_max) else s) values 0 in
      map (\<lambda>e. e / this_sum) es)"

text \<open>\<open>ScoreValue\<close>; its conversion to a number is 0 without a score.\<close>

record 'v score_value =
  sv_score :: 'v
  sv_has_score :: bool

definition score_number :: "'v::zero score_value \<Rightarrow> 'v" where
  "score_number s = (if sv_has_score s then sv_score s else 0)"

text \<open>The values \<open>write_scores\<close> stores from \<open>Z\<close> on.\<close>

definition write_scores :: "'v::linordered_field math \<Rightarrow> 'v list \<Rightarrow> post_eval_transform \<Rightarrow> int \<Rightarrow> 'v list" where
  "write_scores M scores post add_second_class =
     (if length scores \<ge> 2 then
        (case post of
           T_PROBIT \<Rightarrow> map (ComputeProbit M) scores
         | T_LOGISTIC \<Rightarrow> map (ComputeLogistic M) scores
         | T_SOFTMAX \<Rightarrow> ComputeSoftmax M scores
         | T_SOFTMAX_ZERO \<Rightarrow> ComputeSoftmaxZero M scores
         | T_NONE \<Rightarrow> scores)
      else if length scores = 1 then
        (let s = hd scores in
         if post = T_PROBIT then [ComputeProbit M s]
         else if add_second_class = 0 \<or> add_second_class = 1 then [1 - s, s]
         else if add_second_class = 2 \<or> add_second_class = 3 then
           (if post = T_LOGISTIC then [ComputeLogistic M (- s), ComputeLogistic M s] else [- s, s])
         else [s])
      else [])"

text \<open>A transform applied to one batch after the other.\<close>

function per_batch :: "('v list \<Rightarrow> 'v list) \<Rightarrow> nat \<Rightarrow> 'v list \<Rightarrow> 'v list" where
  "per_batch f n s = (if n = 0 \<or> s = [] then s else f (take n s) @ per_batch f n (drop n s))"
  by pat_completeness auto
termination by (relation "measure (\<lambda>(f, n, s). length s)") auto

definition use_mlas :: "nat \<Rightarrow> int \<Rightarrow> bool" where
  "use_mlas batch_size num_scores =
     (if batch_size = 1 then False
      else if batch_size = 2 then num_scores \<ge> 32 * 1024
      else if batch_size = 3 \<or> batch_size = 4 then num_scores \<ge> 16 * 1024
      else True)"

definition second_class :: "'v::linordered_field math \<Rightarrow> post_eval_transform \<Rightarrow> int \<Rightarrow> ('v \<Rightarrow> 'v \<times> 'v) res" where
  "second_class M post add_second_class =
     (if add_second_class = 0 \<or> add_second_class = 1 then Inr (\<lambda>s. (1 - s, s))
      else if add_second_class = 2 \<or> add_second_class = 3 then
        (if post = T_LOGISTIC then Inr (\<lambda>s. (ComputeLogistic M (- s), ComputeLogistic M s)) else Inr (\<lambda>s. (- s, s)))
      else Inl Thrown)"

definition store_pair :: "('v \<Rightarrow> 'v \<times> 'v) \<Rightarrow> 'v \<Rightarrow> nat \<Rightarrow> 'v list \<Rightarrow> 'v list" where
  "store_pair f v p s = s[p := fst (f v), Suc p := snd (f v)]"

text \<open>Forward over scores that lie two apart, and backward over packed ones.\<close>

definition expand_forward :: "('v \<Rightarrow> 'v \<times> 'v) \<Rightarrow> nat \<Rightarrow> 'v list \<Rightarrow> 'v list" where
  "expand_forward f n s = fold (\<lambda>i s. store_pair f (s ! (2 * i)) (2 * i) s) [0..<n] s"

fun expand_back :: "('v \<Rightarrow> 'v \<times> 'v) \<Rightarrow> nat \<Rightarrow> 'v list \<Rightarrow> 'v list" where
  "expand_back f 0 s = s"
| "expand_back f (Suc i) s = expand_back f i (store_pair f (s ! i) (2 * i) s)"

definition fits_int32 :: "int \<Rightarrow> bool" where
  "fits_int32 x \<longleftrightarrow> - (2 ^ 31) \<le> x \<and> x < 2 ^ 31"

definition batched_update_scores_inplace :: "'v::linordered_field math \<Rightarrow> ('v list \<Rightarrow> 'v list) \<Rightarrow> ('v list \<Rightarrow> nat \<Rightarrow> 'v list) \<Rightarrow>
    'v list \<Rightarrow> int \<Rightarrow> int \<Rightarrow> post_eval_transform \<Rightarrow> int \<Rightarrow> bool \<Rightarrow> 'v list res" where
  "batched_update_scores_inplace M mlas_logistic mlas_softmax scores num_batches batch_size post add_second_class have_space =
     (if batch_size < 1 then Inr scores
      else
        let num_scores = num_batches * batch_size;
            expected = num_scores * (if batch_size = 1 \<and> add_second_class \<ge> 0 then 2 else 1) in
        if \<not> fits_int32 num_batches \<or> \<not> fits_int32 num_scores \<or> \<not> fits_int32 expected then Inl Thrown
        else bindE (enforce (int (length scores) = expected)) (\<lambda>_.
        if batch_size > 1 then
          (case post of
             T_PROBIT \<Rightarrow> Inr (map (ComputeProbit M) scores)
           | T_LOGISTIC \<Rightarrow> Inr (mlas_logistic scores)
           | T_SOFTMAX \<Rightarrow> Inr (if use_mlas (nat batch_size) num_scores then mlas_softmax scores (nat batch_size)
               else per_batch (ComputeSoftmax M) (nat batch_size) scores)
           | T_SOFTMAX_ZERO \<Rightarrow> Inr (per_batch (ComputeSoftmaxZero M) (nat batch_size) scores)
           | T_NONE \<Rightarrow> Inr scores)
        else if post = T_PROBIT then
          Inr (map (ComputeProbit M) (take (nat num_scores) scores) @ drop (nat num_scores) scores)
        else if add_second_class \<ge> 0 then
          bindE (second_class M post add_second_class) (\<lambda>f.
          Inr (if have_space then expand_forward f (nat num_batches) scores else expand_back f (nat num_scores) scores))
        else Inr scores))"

section \<open>Transforms\<close>

lemma fold_plus: "fold (\<lambda>e s. s + e) es a = a + sum_list (es :: 'v::linordered_field list)"
  by (induction es arbitrary: a) (simp_all add: algebra_simps)

lemma sum_list_divide: "sum_list (map (\<lambda>e. e / c) es) = sum_list es / (c :: 'v::linordered_field)"
  by (induction es) (simp_all add: add_divide_distrib)

lemma sum_list_pos: "es \<noteq> [] \<Longrightarrow> (\<And>e. e \<in> set es \<Longrightarrow> 0 < e) \<Longrightarrow> 0 < sum_list (es :: 'v::linordered_field list)"
proof (induction es)
  case (Cons e es)
  then show ?case by (cases "es = []") (auto intro: add_pos_pos)
qed simp

text \<open>What the transforms rely on: the exponential function is positive and grows.\<close>

definition exp_like :: "('v::linordered_field \<Rightarrow> 'v) \<Rightarrow> bool" where
  "exp_like f \<longleftrightarrow> (\<forall>x. 0 < f x) \<and> (\<forall>x y. x < y \<longrightarrow> f x < f y) \<and> f 0 = 1"

lemma exp_like_mono: "exp_like f \<Longrightarrow> f x < f y \<longleftrightarrow> x < y"
  unfolding exp_like_def by (metis linorder_neqE order_less_asym)

text \<open>
  The softmax of a list of scores is a probability distribution, positive numbers that add up to 1, that keeps the
  order of the scores. The logistic function lies strictly between 0 and 1, and the
  two classes of a binary score have probabilities that add up to 1.
\<close>

theorem transforms_give_probabilities:
  assumes "exp_like (m_exp M)" and "values \<noteq> []"
  shows "sum_list (ComputeSoftmax M values) = 1 \<and> length (ComputeSoftmax M values) = length values
    \<and> (\<forall>i < length values. 0 < ComputeSoftmax M values ! i
        \<and> (\<forall>j < length values. ComputeSoftmax M values ! i < ComputeSoftmax M values ! j \<longleftrightarrow> values ! i < values ! j))
    \<and> 0 < ComputeLogistic M x \<and> ComputeLogistic M x < 1 \<and> ComputeLogistic M (- x) + ComputeLogistic M x = 1"
proof -
  let ?es = "map (\<lambda>v. m_exp M (v - max_value M values)) values"
  have pos: "0 < m_exp M v" for v using assms(1) by (simp add: exp_like_def)
  have sum: "0 < sum_list ?es" by (rule sum_list_pos) (use assms(2) pos in auto)
  have eq: "ComputeSoftmax M values = map (\<lambda>e. e / sum_list ?es) ?es"
    by (simp add: ComputeSoftmax_def Let_def fold_plus)
  have "sum_list (ComputeSoftmax M values) = 1" unfolding eq sum_list_divide using sum by simp
  moreover have "0 < ComputeSoftmax M values ! i
      \<and> (\<forall>j < length values. ComputeSoftmax M values ! i < ComputeSoftmax M values ! j \<longleftrightarrow> values ! i < values ! j)"
    if "i < length values" for i
    unfolding eq using that sum pos by (auto simp: divide_strict_right_mono divide_less_cancel exp_like_mono [OF assms(1)])
  moreover have "0 < ComputeLogistic M x \<and> ComputeLogistic M x < 1"
  proof -
    define v where "v = 1 / (1 + m_exp M (- \<bar>x\<bar>))"
    have "1 < 1 + m_exp M (- \<bar>x\<bar>)" using pos by simp
    then have "0 < v" "v < 1" unfolding v_def by (simp_all add: field_simps)
    then show ?thesis unfolding ComputeLogistic_def Let_def v_def [symmetric] by simp
  qed
  moreover have "ComputeLogistic M (- x) + ComputeLogistic M x = 1"
    using assms(1) by (cases x "0 :: 'a" rule: linorder_cases) (auto simp: ComputeLogistic_def Let_def exp_like_def)
  moreover have "length (ComputeSoftmax M values) = length values" unfolding eq by simp
  ultimately show ?thesis by blast
qed

definition rational_exp :: "rat \<Rightarrow> rat" where
  "rational_exp x = (if x < 0 then 1 / (1 - x) else 1 + x)"

abbreviation rational_math :: "rat math" where
  "rational_math \<equiv> \<lparr>m_exp = rational_exp, m_log = (\<lambda>x. x), m_sqrt = (\<lambda>x. x), m_lowest = - 1000\<rparr>"

lemma rational_exp_like: "exp_like rational_exp"
  unfolding exp_like_def
proof (intro conjI allI impI)
  fix x y :: rat assume xy: "x < y"
  consider "y < 0" | "x < 0" "0 \<le> y" | "0 \<le> x" using xy by linarith
  then show "rational_exp x < rational_exp y"
  proof cases
    case 1
    then have "1 / (1 - x) < 1 / (1 - y)" using xy by (intro divide_strict_left_mono) auto
    then show ?thesis using 1 xy by (simp add: rational_exp_def)
  next
    case 2
    then have "rational_exp x = 1 / (1 - x)" "rational_exp y = 1 + y" "1 / (1 - x) < 1"
      by (simp_all add: rational_exp_def)
    then show ?thesis using 2 by linarith
  qed (use xy in \<open>simp add: rational_exp_def\<close>)
qed (auto simp: rational_exp_def)

theorem transforms_give_probabilities_witness:
  "sum_list (ComputeSoftmax rational_math [1, 3, 2]) = 1
   \<and> ComputeLogistic rational_math (- 2) + ComputeLogistic rational_math 2 = 1"
  using transforms_give_probabilities [of rational_math "[1, 3, 2]" 2] rational_exp_like by simp

section \<open>The second class in place\<close>

lemma nth_store_pair:
  "Suc p < length s \<Longrightarrow> store_pair f v p s ! j = (if j = p then fst (f v) else if j = Suc p then snd (f v) else s ! j)"
  by (simp add: store_pair_def nth_list_update)

lemma length_store_pair [simp]: "length (store_pair f v p s) = length s"
  by (simp add: store_pair_def)

definition pair_at :: "('v \<Rightarrow> 'v \<times> 'v) \<Rightarrow> 'v \<Rightarrow> nat \<Rightarrow> 'v" where
  "pair_at f v j = (if even j then fst (f v) else snd (f v))"

lemma expand_back_nth:
  "2 * n \<le> length s \<Longrightarrow> length (expand_back f n s) = length s
   \<and> (\<forall>j < length s. expand_back f n s ! j = (if j < 2 * n then pair_at f (s ! (j div 2)) j else s ! j))"
proof (induction n arbitrary: s)
  case 0
  then show ?case by simp
next
  case (Suc n)
  let ?s = "store_pair f (s ! n) (2 * n) s"
  have IH: "length (expand_back f n ?s) = length s"
    "\<And>j. j < length s \<Longrightarrow> expand_back f n ?s ! j = (if j < 2 * n then pair_at f (?s ! (j div 2)) j else ?s ! j)"
    using Suc.IH [of ?s] Suc.prems by simp_all
  have at: "?s ! j = (if j = 2 * n then fst (f (s ! n)) else if j = Suc (2 * n) then snd (f (s ! n)) else s ! j)" for j
    by (rule nth_store_pair) (use Suc.prems in simp)
  have "expand_back f n ?s ! j = (if j < 2 * Suc n then pair_at f (s ! (j div 2)) j else s ! j)" if j: "j < length s" for j
  proof -
    consider "j < 2 * n" | "j = 2 * n" | "j = Suc (2 * n)" | "2 * Suc n \<le> j" by atomize_elim arith
    then show ?thesis
    proof cases
      case 1
      then have "j div 2 < n" by linarith
      then show ?thesis using IH(2) [OF j] 1 by (simp add: at)
    next
      case 2
      then show ?thesis using IH(2) [OF j] by (simp add: at pair_at_def)
    next
      case 3
      then show ?thesis using IH(2) [OF j] by (simp add: at pair_at_def)
    next
      case 4
      then show ?thesis using IH(2) [OF j] by (simp add: at)
    qed
  qed
  with IH(1) show ?case by simp
qed

lemma expand_forward_nth:
  assumes "2 * n \<le> length s"
  shows "length (expand_forward f n s) = length s
   \<and> (\<forall>j < length s. expand_forward f n s ! j = (if j < 2 * n then pair_at f (s ! (2 * (j div 2))) j else s ! j))"
  using assms unfolding expand_forward_def
proof (induction n)
  case 0
  then show ?case by simp
next
  case (Suc n)
  let ?r = "fold (\<lambda>i s. store_pair f (s ! (2 * i)) (2 * i) s) [0..<n] s"
  have IH: "length ?r = length s" "\<And>j. j < length s \<Longrightarrow> ?r ! j = (if j < 2 * n then pair_at f (s ! (2 * (j div 2))) j else s ! j)"
    using Suc by simp_all
  have v: "?r ! (2 * n) = s ! (2 * n)" using IH(2) Suc.prems by simp
  have at: "store_pair f (s ! (2 * n)) (2 * n) ?r ! j
      = (if j = 2 * n then fst (f (s ! (2 * n))) else if j = Suc (2 * n) then snd (f (s ! (2 * n))) else ?r ! j)" for j
    by (rule nth_store_pair) (use Suc.prems IH(1) in simp)
  have "store_pair f (s ! (2 * n)) (2 * n) ?r ! j = (if j < 2 * Suc n then pair_at f (s ! (2 * (j div 2))) j else s ! j)"
    if j: "j < length s" for j
  proof -
    consider "j < 2 * n" | "j = 2 * n" | "j = Suc (2 * n)" | "2 * Suc n \<le> j" by atomize_elim arith
    then show ?thesis by cases (use IH(2) [OF j] in \<open>simp_all add: at pair_at_def\<close>)
  qed
  with IH(1) show ?case by (simp add: v)
qed

lemma concat_pairs:
  assumes "length r = 2 * n" "\<And>j. j < 2 * n \<Longrightarrow> r ! j = pair_at f (v (j div 2)) j"
  shows "r = concat (map (\<lambda>k. [fst (f (v k)), snd (f (v k))]) [0..<n])"
  using assms
proof (induction n arbitrary: r)
  case 0
  then show ?case by simp
next
  case (Suc n)
  have "take (2 * n) r = concat (map (\<lambda>k. [fst (f (v k)), snd (f (v k))]) [0..<n])"
    by (rule Suc.IH) (use Suc.prems in simp_all)
  moreover have "r = take (2 * n) r @ [r ! (2 * n), r ! Suc (2 * n)]"
    using Suc.prems(1) by (simp add: Cons_nth_drop_Suc [symmetric] flip: append_take_drop_id [of "2 * n" r, symmetric])
      (metis Cons_nth_drop_Suc append_take_drop_id drop_all lessI less_Suc_eq order_refl)
  moreover have "r ! (2 * n) = fst (f (v n))" "r ! Suc (2 * n) = snd (f (v n))"
    using Suc.prems(2) [of "2 * n"] Suc.prems(2) [of "Suc (2 * n)"] by (simp_all add: pair_at_def)
  ultimately show ?case by simp
qed

text \<open>
  The batched routine, for single scores to which a second class is added, stores for every score exactly
  what \<open>write_scores\<close> stores for it alone, although it works in the buffer that holds the scores: packed
  scores are expanded from the back, scores with a gap from the front.
\<close>

theorem batched_second_class:
  assumes "length scores = 2 * n" "int n < 2 ^ 30" "add_second_class \<in> {0, 1, 2, 3}" "post \<noteq> T_PROBIT"
  shows "batched_update_scores_inplace M mlas_logistic mlas_softmax scores (int n) 1 post add_second_class have_space
    = Inr (concat (map (\<lambda>k. write_scores M [scores ! (if have_space then 2 * k else k)] post add_second_class) [0..<n]))"
proof -
  define f where "f = (if add_second_class \<in> {0, 1} then (\<lambda>s. (1 - s, s)) else if post = T_LOGISTIC
      then (\<lambda>s. (ComputeLogistic M (- s), ComputeLogistic M s)) else (\<lambda>s. (- s, s)))"
  have f: "second_class M post add_second_class = Inr f"
    "\<And>v. write_scores M [v] post add_second_class = [fst (f v), snd (f v)]"
    using assms(3,4) by (auto simp: second_class_def write_scores_def f_def)
  have fits: "fits_int32 (int n)" "fits_int32 (int n * 2)" using assms(2) by (auto simp: fits_int32_def)
  have bk: "expand_back f n scores = concat (map (\<lambda>k. [fst (f (scores ! k)), snd (f (scores ! k))]) [0..<n])"
    by (rule concat_pairs) (use expand_back_nth [of n scores f] assms(1) in auto)
  have fwd: "expand_forward f n scores = concat (map (\<lambda>k. [fst (f (scores ! (2 * k))), snd (f (scores ! (2 * k)))]) [0..<n])"
    by (rule concat_pairs) (use expand_forward_nth [of n scores f] assms(1) in auto)
  have "0 \<le> add_second_class" using assms(3) by auto
  then show ?thesis
    using fits assms(1,4) f bk fwd by (simp add: batched_update_scores_inplace_def Let_def)
qed

theorem batched_second_class_witness:
  "batched_update_scores_inplace rational_math id (\<lambda>s n. s) [1, 2, 0, 0] 2 1 T_NONE 3 False = Inr [- 1, 1, - 2, 2]"
  using batched_second_class [of "[1, 2, 0, 0]" 2 3 T_NONE rational_math id "\<lambda>s n. s" False]
  by (simp add: write_scores_def numeral_2_eq_2)

end
