(* ===== verification/ThreadLoops.thy ===== *)
theory ThreadLoops
  imports Prelude "HOL-Library.Multiset"
begin

text \<open>
  Parallel loops (include/onnxruntime/core/platform/threadpool.h): how the work of a loop is cut into
  batches and handed to the pool. \<open>ThreadPool::SimpleParallelFor\<close> and \<open>DegreeOfParallelism\<close> are only declared
  there. A pool is therefore its degree of parallelism and, for every number of tasks, the order in which it runs them;
  what the loops rely on is that each task runs once (\<open>runs_all\<close>). A task is a function that
  changes the state of its caller; a task runs as a whole.
\<close>

section \<open>Model\<close>

record pool =
  pool_degree :: nat
  pool_order :: "nat \<Rightarrow> nat list"

definition runs_all :: "pool \<Rightarrow> bool" where
  "runs_all p \<longleftrightarrow> 1 \<le> pool_degree p \<and> (\<forall>n. mset (pool_order p n) = mset [0..<n])"

definition PartitionWork :: "nat \<Rightarrow> nat \<Rightarrow> nat \<Rightarrow> nat \<times> nat" where
  "PartitionWork batch_idx num_batches total_work =
     (let work_per_batch = total_work div num_batches; work_per_batch_extra = total_work mod num_batches in
      if batch_idx < work_per_batch_extra then
        let start = (work_per_batch + 1) * batch_idx in (start, start + work_per_batch + 1)
      else
        let start = work_per_batch * batch_idx + work_per_batch_extra in (start, start + work_per_batch))"

definition TrySimpleParallelFor :: "pool option \<Rightarrow> nat \<Rightarrow> (nat \<Rightarrow> 's \<Rightarrow> 'e + 's) \<Rightarrow> 's \<Rightarrow> 'e + 's" where
  "TrySimpleParallelFor tp n fn s =
     (case tp of Some p \<Rightarrow> foldE fn (pool_order p n) s | None \<Rightarrow> foldE fn [0..<n] s)"

text \<open>The task of one batch.\<close>

definition batch_task :: "nat \<Rightarrow> nat \<Rightarrow> (nat \<Rightarrow> 's \<Rightarrow> 'e + 's) \<Rightarrow> nat \<Rightarrow> 's \<Rightarrow> 'e + 's" where
  "batch_task num_batches n fn batch_index s =
     (case PartitionWork batch_index num_batches n of (start, end_) \<Rightarrow> foldE fn [start..<end_] s)"

definition TryBatchParallelFor :: "pool option \<Rightarrow> nat \<Rightarrow> (nat \<Rightarrow> 's \<Rightarrow> 'e + 's) \<Rightarrow> nat \<Rightarrow> 's \<Rightarrow> 'e + 's" where
  "TryBatchParallelFor tp n fn num_batches s =
     (case tp of
        None \<Rightarrow> foldE fn [0..<n] s
      | Some p \<Rightarrow>
          if n = 0 then Inr s
          else if n = 1 then fn 0 s
          else
            let num_batches = (if num_batches = 0 then min n (pool_degree p) else num_batches) in
            if num_batches \<le> 1 then foldE fn [0..<n] s
            else foldE (batch_task num_batches n fn) (pool_order p num_batches) s)"

section \<open>Batches cut the work\<close>

lemma runs_all_none: "runs_all p \<Longrightarrow> pool_order p 0 = []"
  unfolding runs_all_def by (metis mset.simps(1) mset_zero_iff upt_0)

definition batch_start :: "nat \<Rightarrow> nat \<Rightarrow> nat \<Rightarrow> nat" where
  "batch_start b k n = n div k * b + min b (n mod k)"

lemma PartitionWork_eq: "PartitionWork b k n = (batch_start b k n, batch_start (Suc b) k n)"
  by (auto simp: PartitionWork_def batch_start_def Let_def min_def algebra_simps)

lemma batch_start_0 [simp]: "batch_start 0 k n = 0"
  by (simp add: batch_start_def)

lemma batch_start_end: "0 < k \<Longrightarrow> batch_start k k n = n"
  by (simp add: batch_start_def min_absorb2 less_imp_le mult.commute)

lemma batch_start_mono: "batch_start b k n \<le> batch_start (Suc b) k n"
  by (simp add: batch_start_def min_def)

lemma batches_concat: "concat (map (\<lambda>b. [batch_start b k n..<batch_start (Suc b) k n]) [0..<m]) = [0..<batch_start m k n]"
proof (induction m)
  case (Suc m)
  have "[0..<batch_start m k n] @ [batch_start m k n..<batch_start (Suc m) k n] = [0..<batch_start (Suc m) k n]"
    using upt_add_eq_append [of 0 "batch_start m k n" "batch_start (Suc m) k n - batch_start m k n"] batch_start_mono [of m k n]
    by simp
  then show ?case using Suc by simp
qed simp

lemma batch_within:
  assumes "b < k"
  shows "set [batch_start b k n..<batch_start (Suc b) k n] \<subseteq> {..<n}"
proof -
  have "batch_start c k n \<le> batch_start d k n" if "c \<le> d" for c d
    using lift_Suc_mono_le [of "\<lambda>b. batch_start b k n", OF batch_start_mono that] .
  from this [of "Suc b" k] assms show ?thesis using batch_start_end [of k n] by auto
qed

lemma mset_concat_perm:
  assumes "mset xs = mset ys"
  shows "mset (concat (map f xs)) = mset (concat (map f ys))"
proof -
  have "mset (concat (map f zs)) = sum_mset (image_mset (\<lambda>x. mset (f x)) (mset zs))" for zs
    by (induction zs) simp_all
  then show ?thesis using assms by simp
qed

lemma foldE_batches:
  "foldE (batch_task k n fn) bs s = foldE fn (concat (map (\<lambda>b. [batch_start b k n..<batch_start (Suc b) k n]) bs)) s"
proof (induction bs arbitrary: s)
  case (Cons b bs)
  then have IH: "foldE (batch_task k n fn) bs = foldE fn (concat (map (\<lambda>b. [batch_start b k n..<batch_start (Suc b) k n]) bs))"
    by (rule ext)
  have "foldE (batch_task k n fn) (b # bs) s = bindE (foldE fn [batch_start b k n..<batch_start (Suc b) k n] s)
      (foldE (batch_task k n fn) bs)"
    by (simp add: batch_task_def PartitionWork_eq)
  then show ?case unfolding IH by (simp add: foldE_append)
qed simp

lemma simple_loop_order:
  assumes "tp = None \<or> runs_all (the tp)"
  shows "\<exists>is. mset is = mset [0..<n] \<and> TrySimpleParallelFor tp n fn s = foldE fn is s"
  using assms by (cases tp) (auto simp: TrySimpleParallelFor_def runs_all_def simp del: mset_upt)

lemma batch_loop_order:
  assumes "tp = None \<or> runs_all (the tp)"
  shows "\<exists>is. mset is = mset [0..<n] \<and> TryBatchParallelFor tp n fn num_batches s = foldE fn is s"
proof (cases tp)
  case None
  then show ?thesis by (auto simp: TryBatchParallelFor_def simp del: mset_upt)
next
  case (Some p)
  with assms have p: "1 \<le> pool_degree p" "\<And>n. mset (pool_order p n) = mset [0..<n]" by (simp_all add: runs_all_def)
  let ?k = "if num_batches = 0 then min n (pool_degree p) else num_batches"
  consider "n = 0" | "n = 1" | "1 < n" "?k \<le> 1" | "1 < n" "1 < ?k" by linarith
  then show ?thesis
  proof cases
    case 4
    let ?is = "concat (map (\<lambda>b. [batch_start b ?k n..<batch_start (Suc b) ?k n]) (pool_order p ?k))"
    have "mset ?is = mset (concat (map (\<lambda>b. [batch_start b ?k n..<batch_start (Suc b) ?k n]) [0..<?k]))"
      by (rule mset_concat_perm) (rule p(2))
    also have "\<dots> = mset [0..<n]" using 4 by (simp only: batches_concat batch_start_end)
    finally have "mset ?is = mset [0..<n]" .
    moreover have "TryBatchParallelFor tp n fn num_batches s = foldE fn ?is s"
      using 4 by (simp only: TryBatchParallelFor_def Some option.case Let_def foldE_batches if_False not_le not_less0
        less_numeral_extra) auto
    ultimately show ?thesis by blast
  next
    case 3
    then show ?thesis by (auto simp: TryBatchParallelFor_def Some Let_def simp del: mset_upt)
  next
    case 2
    have "foldE fn [0] s = fn 0 s" by (cases "fn 0 s") simp_all
    with 2 show ?thesis by (auto simp: TryBatchParallelFor_def Some intro: exI [of _ "[0]"])
  qed (auto simp: TryBatchParallelFor_def Some)
qed

text \<open>
  Tasks that each work on a cell of their own: the order does not matter. \<open>ix\<close> is where the cell of a task is.
\<close>

lemma foldE_index:
  assumes "distinct (map ix is)" "\<And>i. i \<in> set is \<Longrightarrow> ix i < length s"
    and "\<And>i t. i \<in> set is \<Longrightarrow> length t = length s \<Longrightarrow> t ! ix i = s ! ix i \<Longrightarrow> fn i t = Inr (t[ix i := g i])"
  shows "\<exists>t. foldE fn is s = Inr t \<and> length t = length s \<and> (\<forall>i \<in> set is. t ! ix i = g i)
    \<and> (\<forall>j. j \<notin> ix ` set is \<longrightarrow> t ! j = s ! j)"
  using assms
proof (induction "is" arbitrary: s)
  case Nil
  then show ?case by simp
next
  case (Cons i "is")
  have i: "fn i s = Inr (s[ix i := g i])" using Cons.prems by simp
  have "\<exists>t. foldE fn is (s[ix i := g i]) = Inr t \<and> length t = length (s[ix i := g i]) \<and> (\<forall>i \<in> set is. t ! ix i = g i)
    \<and> (\<forall>j. j \<notin> ix ` set is \<longrightarrow> t ! j = s[ix i := g i] ! j)"
  proof (rule Cons.IH)
    fix k t assume k: "k \<in> set is" and t: "length t = length (s[ix i := g i])" "t ! ix k = s[ix i := g i] ! ix k"
    have "ix i \<notin> ix ` set is" using Cons.prems(1) by simp
    with k have "ix k \<noteq> ix i" by (metis imageI)
    then show "fn k t = Inr (t[ix k := g k])" using Cons.prems(3) [of k t] k t by simp
  qed (use Cons.prems in auto)
  then obtain t where t: "foldE fn is (s[ix i := g i]) = Inr t" "length t = length s" "\<forall>i \<in> set is. t ! ix i = g i"
    "\<forall>j. j \<notin> ix ` set is \<longrightarrow> t ! j = s[ix i := g i] ! j" by auto
  have "ix i \<notin> ix ` set is" "ix i < length s" using Cons.prems(1,2) by simp_all
  then have "t ! ix i = g i" using t(4) by simp
  with t i show ?case by auto
qed

lemma foldE_cells:
  assumes "distinct is" "\<And>i. i \<in> set is \<Longrightarrow> i < length s"
    and "\<And>i t. i \<in> set is \<Longrightarrow> length t = length s \<Longrightarrow> t ! i = s ! i \<Longrightarrow> fn i t = Inr (t[i := g i])"
  shows "\<exists>t. foldE fn is s = Inr t \<and> length t = length s
    \<and> (\<forall>j < length s. t ! j = (if j \<in> set is then g j else s ! j))"
  using foldE_index [of "\<lambda>i. i" "is" s fn g] assms by auto

text \<open>Tasks that each write a block of cells, whatever was there before.\<close>

lemma foldE_blocks:
  assumes "\<And>b t. b \<in> set bs \<Longrightarrow> length t = L \<Longrightarrow>
      \<exists>t'. fn b t = Inr t' \<and> length t' = L \<and> (\<forall>p < L. t' ! p = (if p \<in> W b then g p else t ! p))" and "length s = L"
  shows "\<exists>t. foldE fn bs s = Inr t \<and> length t = L \<and> (\<forall>p < L. t ! p = (if \<exists>b \<in> set bs. p \<in> W b then g p else s ! p))"
  using assms
proof (induction bs arbitrary: s)
  case (Cons b bs)
  obtain t' where t': "fn b s = Inr t'" "length t' = L" "\<And>p. p < L \<Longrightarrow> t' ! p = (if p \<in> W b then g p else s ! p)"
    using Cons.prems(1) [of b s] Cons.prems(2) by auto
  have "\<exists>t. foldE fn bs t' = Inr t \<and> length t = L \<and> (\<forall>p < L. t ! p = (if \<exists>b \<in> set bs. p \<in> W b then g p else t' ! p))"
    by (rule Cons.IH) (use Cons.prems t' in auto)
  then show ?case using t' by auto
qed simp

text \<open>A loop whose task \<open>i\<close> computes cell \<open>i\<close> fills all cells, in whatever order the tasks run.\<close>

lemma loop_fills_cells:
  assumes tp: "tp = None \<or> runs_all (the tp)" and n: "length s = n"
    and fn: "\<And>i t. i < n \<Longrightarrow> length t = n \<Longrightarrow> t ! i = s ! i \<Longrightarrow> fn i t = Inr (t[i := g i])"
  shows "TrySimpleParallelFor tp n fn s = Inr (map g [0..<n])"
    and "TryBatchParallelFor tp n fn num_batches s = Inr (map g [0..<n])"
proof -
  have run: "foldE fn is s = Inr (map g [0..<n])" if "mset is = mset [0..<n]" for "is"
  proof -
    have set: "set is = {0..<n}" using that mset_eq_setD by fastforce
    have "distinct is" using that by (metis distinct_upt mset_eq_imp_distinct_iff)
    have "\<exists>t. foldE fn is s = Inr t \<and> length t = length s \<and> (\<forall>j < length s. t ! j = (if j \<in> set is then g j else s ! j))"
    proof (rule foldE_cells [OF \<open>distinct is\<close>])
      fix i assume "i \<in> set is"
      then show "i < length s" using set n by simp
    next
      fix i t assume "i \<in> set is" "length t = length s" "t ! i = s ! i"
      then show "fn i t = Inr (t[i := g i])" using set n by (intro fn) simp_all
    qed
    then obtain t where t: "foldE fn is s = Inr t" "length t = length s"
      "\<forall>j < length s. t ! j = (if j \<in> set is then g j else s ! j)" by blast
    have "t = map g [0..<n]" by (rule nth_equalityI) (use t(2,3) n set in simp_all)
    with t(1) show ?thesis by simp
  qed
  show "TrySimpleParallelFor tp n fn s = Inr (map g [0..<n])"
    using simple_loop_order [OF tp, of n fn s] run by auto
  show "TryBatchParallelFor tp n fn num_batches s = Inr (map g [0..<n])"
    using batch_loop_order [OF tp, of n fn num_batches s] run by auto
qed

text \<open>A simple loop over the batches of \<open>n\<close> tasks runs each of them once.\<close>

lemma simple_batches_order:
  assumes "tp = None \<or> runs_all (the tp)" "0 < k"
  shows "\<exists>is. mset is = mset [0..<n] \<and> TrySimpleParallelFor tp k (batch_task k n fn) s = foldE fn is s"
proof -
  obtain bs where bs: "mset bs = mset [0..<k]" "TrySimpleParallelFor tp k (batch_task k n fn) s = foldE (batch_task k n fn) bs s"
    using simple_loop_order [OF assms(1), of k "batch_task k n fn" s] by (elim exE conjE)
  have "mset (concat (map (\<lambda>b. [batch_start b k n..<batch_start (Suc b) k n]) bs))
      = mset (concat (map (\<lambda>b. [batch_start b k n..<batch_start (Suc b) k n]) [0..<k]))"
    by (rule mset_concat_perm [OF bs(1)])
  also have "\<dots> = mset [0..<n]" unfolding batches_concat batch_start_end [OF assms(2)] ..
  finally have "mset (concat (map (\<lambda>b. [batch_start b k n..<batch_start (Suc b) k n]) bs)) = mset [0..<n]" .
  moreover have "TrySimpleParallelFor tp k (batch_task k n fn) s
      = foldE fn (concat (map (\<lambda>b. [batch_start b k n..<batch_start (Suc b) k n]) bs)) s"
    unfolding bs(2) by (rule foldE_batches)
  ultimately show ?thesis by (intro exI conjI)
qed

text \<open>
  A task is local when it changes only its own cell and what it does depends on that cell only. If the
  loop over local tasks returns when run in order, it returns the same in every order.
\<close>

definition local_task :: "(nat \<Rightarrow> 'c list \<Rightarrow> 'e + 'c list) \<Rightarrow> bool" where
  "local_task fn \<longleftrightarrow> (\<forall>i t t'. fn i t = Inr t' \<longrightarrow> i < length t \<and>
     (\<forall>u. length u = length t \<longrightarrow> u ! i = t ! i \<longrightarrow> fn i u = Inr (u[i := t' ! i])))"

lemma local_taskD:
  assumes "local_task fn" "fn i t = Inr t'"
  shows "i < length t" "length u = length t \<Longrightarrow> u ! i = t ! i \<Longrightarrow> fn i u = Inr (u[i := t' ! i])"
    "t' = t[i := t' ! i]"
proof -
  have l: "i < length t \<and> (\<forall>u. length u = length t \<longrightarrow> u ! i = t ! i \<longrightarrow> fn i u = Inr (u[i := t' ! i]))"
    using assms unfolding local_task_def by blast
  then show "i < length t" ..
  show "length u = length t \<Longrightarrow> u ! i = t ! i \<Longrightarrow> fn i u = Inr (u[i := t' ! i])" using l by blast
  have "fn i t = Inr (t[i := t' ! i])" using l by blast
  then show "t' = t[i := t' ! i]" using assms(2) by simp
qed

lemma local_in_order:
  assumes l: "local_task fn" and r: "foldE fn [0..<n] s = Inr out"
  shows "length out = length s \<and> n \<le> length s \<and> (\<forall>j. n \<le> j \<longrightarrow> out ! j = s ! j)
    \<and> (\<forall>i < n. \<forall>u. length u = length s \<longrightarrow> u ! i = s ! i \<longrightarrow> fn i u = Inr (u[i := out ! i]))"
  using r
proof (induction n arbitrary: out)
  case 0
  then show ?case by simp
next
  case (Suc n)
  then obtain t where t: "foldE fn [0..<n] s = Inr t" and last: "fn n t = Inr out"
    by (auto simp: foldE_append bindE_Inr_iff)
  note IH = Suc.IH [OF t]
  note n = local_taskD [OF l last]
  have len: "length t = length s" and rest: "\<forall>j. n \<le> j \<longrightarrow> t ! j = s ! j" using IH by simp_all
  have out: "out ! j = t ! j" if "j \<noteq> n" for j using that n(3) by (metis nth_list_update_neq)
  have "fn i u = Inr (u[i := out ! i])" if i: "i < Suc n" and u: "length u = length s" "u ! i = s ! i" for i u
  proof (cases "i = n")
    case True
    then show ?thesis using n(2) [of u] u len rest by simp
  next
    case False
    then show ?thesis using IH i u out [of i] by simp
  qed
  moreover have "length out = length s" using n(3) len by (metis length_list_update)
  moreover have "Suc n \<le> length s" using n(1) len by simp
  moreover have "\<forall>j. Suc n \<le> j \<longrightarrow> out ! j = s ! j" using out rest by simp
  ultimately show ?case by blast
qed

lemma local_any_order:
  assumes l: "local_task fn" and r: "foldE fn [0..<n] s = Inr out" and p: "mset is = mset [0..<n]"
  shows "foldE fn is s = Inr out"
proof -
  note o = local_in_order [OF l r]
  have set: "set is = {0..<n}" using p mset_eq_setD by fastforce
  have dist: "distinct is" using p by (metis distinct_upt mset_eq_imp_distinct_iff)
  have "\<exists>t. foldE fn is s = Inr t \<and> length t = length s
      \<and> (\<forall>j < length s. t ! j = (if j \<in> set is then out ! j else s ! j))"
  proof (rule foldE_cells [OF dist])
    fix i assume "i \<in> set is"
    then show "i < length s" using set o by simp
  next
    fix i t assume "i \<in> set is" "length t = length s" "t ! i = s ! i"
    then show "fn i t = Inr (t[i := out ! i])" using o set by simp
  qed
  then obtain t where t: "foldE fn is s = Inr t" "length t = length s"
    "\<forall>j < length s. t ! j = (if j \<in> set is then out ! j else s ! j)" by blast
  have "t = out" by (rule nth_equalityI) (use t(2,3) o set in auto)
  with t(1) show ?thesis by simp
qed

lemma local_loops:
  assumes l: "local_task fn" and r: "foldE fn [0..<n] s = Inr out" and tp: "tp = None \<or> runs_all (the tp)"
  shows "TrySimpleParallelFor tp n fn s = Inr out"
    and "TryBatchParallelFor tp n fn num_batches s = Inr out"
    and "0 < k \<Longrightarrow> TrySimpleParallelFor tp k (batch_task k n fn) s = Inr out"
  using simple_loop_order [OF tp, of n fn s] batch_loop_order [OF tp, of n fn num_batches s]
    simple_batches_order [OF tp, of k n fn s] local_any_order [OF l r] by fastforce+



end
