(* ===== verification/TreeScores.thy ===== *)
theory TreeScores
  imports MlCommon ThreadLoops
begin

text \<open>
  From leaves to scores (onnxruntime/core/providers/cpu/ml/tree_ensemble_aggregator.h, and \<open>compute\<close>, \<open>ComputeAgg\<close> and
  the classifier of tree_ensemble_common.h). An aggregator is the record of its methods over one state, a
  score (one output) or a vector of scores (several). A computation may end in an error or, since the
  walk to a leaf may not return, not at all: \<open>Inl None\<close> says that it does not return. \<open>Z\<close> and the labels are
  kept as rows; storing more values than a row has room for counts as an error.
\<close>

section \<open>Aggregators\<close>

type_synonym 'a run = "ort_error option + 'a"

definition returned :: "'a res \<Rightarrow> 'a run" where
  "returned x = (case x of Inl e \<Rightarrow> Inl (Some e) | Inr y \<Rightarrow> Inr y)"

text \<open>The members of \<open>TreeAggregator\<close>, with those its constructor computes.\<close>

record 'v aggregator =
  ag_n_trees :: nat
  ag_n_targets :: int
  ag_post :: post_eval_transform
  ag_base_values :: "'v list"

definition ag_origin :: "'v::linordered_field aggregator \<Rightarrow> 'v" where
  "ag_origin a = (if length (ag_base_values a) = 1 then ag_base_values a ! 0 else 0)"

definition ag_use_base_values :: "'v aggregator \<Rightarrow> bool" where
  "ag_use_base_values a \<longleftrightarrow> int (length (ag_base_values a)) = ag_n_targets a"

text \<open>The methods: what is stored from \<open>Z\<close> on, and the label when one is stored.\<close>

record ('v, 's) agg_methods =
  am_zero :: 's
  am_process :: "'s \<Rightarrow> (int \<times> 'v) list \<Rightarrow> 's res"
  am_merge :: "'s \<Rightarrow> 's \<Rightarrow> 's res"
  am_finalize :: "'s \<Rightarrow> ('v list \<times> int option) res"

definition no_score :: "'v::zero score_value" where
  "no_score = \<lparr>sv_score = 0, sv_has_score = False\<rparr>"

definition score_of :: "'v \<Rightarrow> 'v score_value" where
  "score_of x = \<lparr>sv_score = x, sv_has_score = True\<rparr>"

text \<open>One output: \<open>root.weights[0].value\<close>.\<close>

definition first_weight :: "(int \<times> 'v) list \<Rightarrow> 'v res" where
  "first_weight ws = bindE (vget ws 0) (\<lambda>w. Inr (snd w))"

definition probit_or_score :: "'v::linordered_field math \<Rightarrow> post_eval_transform \<Rightarrow> 'v \<Rightarrow> 'v" where
  "probit_or_score M post s = (if post = T_PROBIT then ComputeProbit M s else s)"

definition finalize1_base :: "'v::linordered_field math \<Rightarrow> 'v aggregator \<Rightarrow> 'v score_value \<Rightarrow> ('v list \<times> int option) res" where
  "finalize1_base M a p =
     Inr ([probit_or_score M (ag_post a) (if sv_has_score p then sv_score p + ag_origin a else ag_origin a)], None)"

definition sum_process1 :: "'v::linordered_field score_value \<Rightarrow> (int \<times> 'v) list \<Rightarrow> 'v score_value res" where
  "sum_process1 p ws = bindE (first_weight ws) (\<lambda>v. Inr (p\<lparr>sv_score := sv_score p + v\<rparr>))"

definition sum_merge1 :: "'v::linordered_field score_value \<Rightarrow> 'v score_value \<Rightarrow> 'v score_value res" where
  "sum_merge1 p p2 = Inr (p\<lparr>sv_score := sv_score p + sv_score p2\<rparr>)"

definition sum_finalize1 :: "'v::linordered_field math \<Rightarrow> 'v aggregator \<Rightarrow> 'v score_value \<Rightarrow> ('v list \<times> int option) res" where
  "sum_finalize1 M a p = Inr ([probit_or_score M (ag_post a) (sv_score p + ag_origin a)], None)"

definition average_finalize1 :: "'v::linordered_field math \<Rightarrow> 'v aggregator \<Rightarrow> 'v score_value \<Rightarrow> ('v list \<times> int option) res" where
  "average_finalize1 M a p =
     Inr ([probit_or_score M (ag_post a) (sv_score p / of_nat (ag_n_trees a) + ag_origin a)], None)"

definition min_process1 :: "'v::linordered_field score_value \<Rightarrow> (int \<times> 'v) list \<Rightarrow> 'v score_value res" where
  "min_process1 p ws = bindE (first_weight ws) (\<lambda>v.
     Inr (score_of (if \<not> sv_has_score p \<or> v < sv_score p then v else sv_score p)))"

definition min_merge1 :: "'v::linordered_field score_value \<Rightarrow> 'v score_value \<Rightarrow> 'v score_value res" where
  "min_merge1 p p2 = Inr (if sv_has_score p2
     then score_of (if sv_has_score p \<and> sv_score p < sv_score p2 then sv_score p else sv_score p2) else p)"

definition max_process1 :: "'v::linordered_field score_value \<Rightarrow> (int \<times> 'v) list \<Rightarrow> 'v score_value res" where
  "max_process1 p ws = bindE (first_weight ws) (\<lambda>v.
     Inr (score_of (if \<not> sv_has_score p \<or> v > sv_score p then v else sv_score p)))"

definition max_merge1 :: "'v::linordered_field score_value \<Rightarrow> 'v score_value \<Rightarrow> 'v score_value res" where
  "max_merge1 p p2 = Inr (if sv_has_score p2
     then score_of (if sv_has_score p \<and> sv_score p > sv_score p2 then sv_score p else sv_score p2) else p)"

text \<open>Several outputs: one entry of the weights of a leaf at a time.\<close>

definition at_target :: "'s list \<Rightarrow> int \<Rightarrow> nat res" where
  "at_target ps i = (if 0 \<le> i \<and> i < int (length ps) then Inr (nat i) else Inl Undefined)"

definition sum_entry :: "int \<times> 'v \<Rightarrow> 'v::linordered_field score_value list \<Rightarrow> 'v score_value list res" where
  "sum_entry w ps = bindE (enforce (fst w < int (length ps))) (\<lambda>_. bindE (at_target ps (fst w)) (\<lambda>t.
     Inr (ps[t := score_of (sv_score (ps ! t) + snd w)])))"

definition min_entry :: "int \<times> 'v \<Rightarrow> 'v::linordered_field score_value list \<Rightarrow> 'v score_value list res" where
  "min_entry w ps = bindE (at_target ps (fst w)) (\<lambda>t.
     Inr (ps[t := score_of (if \<not> sv_has_score (ps ! t) \<or> snd w < sv_score (ps ! t) then snd w else sv_score (ps ! t))]))"

definition max_entry :: "int \<times> 'v \<Rightarrow> 'v::linordered_field score_value list \<Rightarrow> 'v score_value list res" where
  "max_entry w ps = bindE (at_target ps (fst w)) (\<lambda>t.
     Inr (ps[t := score_of (if \<not> sv_has_score (ps ! t) \<or> snd w > sv_score (ps ! t) then snd w else sv_score (ps ! t))]))"

definition sum_cell :: "'v::linordered_field score_value \<Rightarrow> 'v score_value \<Rightarrow> 'v score_value" where
  "sum_cell p p2 = (if sv_has_score p2 then score_of (sv_score p + sv_score p2) else p)"

definition min_cell :: "'v::linordered_field score_value \<Rightarrow> 'v score_value \<Rightarrow> 'v score_value" where
  "min_cell p p2 = (if sv_has_score p2
     then score_of (if sv_has_score p \<and> sv_score p < sv_score p2 then sv_score p else sv_score p2) else p)"

definition max_cell :: "'v::linordered_field score_value \<Rightarrow> 'v score_value \<Rightarrow> 'v score_value" where
  "max_cell p p2 = (if sv_has_score p2
     then score_of (if sv_has_score p \<and> sv_score p > sv_score p2 then sv_score p else sv_score p2) else p)"

definition merge_cells :: "('s \<Rightarrow> 's \<Rightarrow> 's) \<Rightarrow> 's list \<Rightarrow> 's list \<Rightarrow> 's list res" where
  "merge_cells f ps ps2 = bindE (enforce (length ps = length ps2)) (\<lambda>_. Inr (map2 f ps ps2))"

definition finalize_base :: "'v::linordered_field math \<Rightarrow> 'v aggregator \<Rightarrow> 'v score_value list \<Rightarrow> ('v list \<times> int option) res" where
  "finalize_base M a ps =
     bindE (enforce (int (length ps) = ag_n_targets a)) (\<lambda>_.
     let ps = map (\<lambda>jt. let it = ps ! jt;
            val = (if ag_use_base_values a then ag_base_values a ! jt else 0) + (if sv_has_score it then sv_score it else 0)
          in it\<lparr>sv_score := val\<rparr>) [0..<length ps] in
     Inr (write_scores M (map score_number ps) (ag_post a) (-1), None))"

text \<open>Adding base values element by element; reading past their end is undefined.\<close>

definition add_base :: "('v \<Rightarrow> 'v \<Rightarrow> 'v) \<Rightarrow> 'v list \<Rightarrow> 'v score_value list \<Rightarrow> 'v score_value list res" where
  "add_base f bs ps = (if length ps \<le> length bs then Inr (map2 (\<lambda>p b. p\<lparr>sv_score := f (sv_score p) b\<rparr>) ps bs) else Inl Undefined)"

definition sum_finalize :: "'v::linordered_field math \<Rightarrow> 'v aggregator \<Rightarrow> 'v score_value list \<Rightarrow> ('v list \<times> int option) res" where
  "sum_finalize M a ps =
     bindE (if ag_use_base_values a then add_base (+) (ag_base_values a) ps else Inr ps) (\<lambda>ps.
     Inr (write_scores M (map score_number ps) (ag_post a) (-1), None))"

definition average_finalize :: "'v::linordered_field math \<Rightarrow> 'v aggregator \<Rightarrow> 'v score_value list \<Rightarrow> ('v list \<times> int option) res" where
  "average_finalize M a ps =
     bindE (if ag_use_base_values a then
         bindE (enforce (length (ag_base_values a) = length ps)) (\<lambda>_.
         add_base (\<lambda>s b. s / of_nat (ag_n_trees a) + b) (ag_base_values a) ps)
       else Inr (map (\<lambda>p. p\<lparr>sv_score := sv_score p / of_nat (ag_n_trees a)\<rparr>) ps)) (\<lambda>ps.
     Inr (write_scores M (map score_number ps) (ag_post a) (-1), None))"

definition process_all :: "(int \<times> 'v \<Rightarrow> 's \<Rightarrow> 's res) \<Rightarrow> 's \<Rightarrow> (int \<times> 'v) list \<Rightarrow> 's res" where
  "process_all entry ps ws = foldE entry ws ps"

definition zeros :: "'v::linordered_field aggregator \<Rightarrow> 'v score_value list" where
  "zeros a = replicate (nat (ag_n_targets a)) no_score"

definition TreeAggregatorSum1 :: "'v::linordered_field math \<Rightarrow> 'v aggregator \<Rightarrow> ('v, 'v score_value) agg_methods" where
  "TreeAggregatorSum1 M a = \<lparr>am_zero = no_score, am_process = sum_process1, am_merge = sum_merge1, am_finalize = sum_finalize1 M a\<rparr>"

definition TreeAggregatorSum :: "'v::linordered_field math \<Rightarrow> 'v aggregator \<Rightarrow> ('v, 'v score_value list) agg_methods" where
  "TreeAggregatorSum M a = \<lparr>am_zero = zeros a, am_process = process_all sum_entry, am_merge = merge_cells sum_cell,
     am_finalize = sum_finalize M a\<rparr>"

definition TreeAggregatorAverage1 :: "'v::linordered_field math \<Rightarrow> 'v aggregator \<Rightarrow> ('v, 'v score_value) agg_methods" where
  "TreeAggregatorAverage1 M a = (TreeAggregatorSum1 M a)\<lparr>am_finalize := average_finalize1 M a\<rparr>"

definition TreeAggregatorAverage :: "'v::linordered_field math \<Rightarrow> 'v aggregator \<Rightarrow> ('v, 'v score_value list) agg_methods" where
  "TreeAggregatorAverage M a = (TreeAggregatorSum M a)\<lparr>am_finalize := average_finalize M a\<rparr>"

definition TreeAggregatorMin1 :: "'v::linordered_field math \<Rightarrow> 'v aggregator \<Rightarrow> ('v, 'v score_value) agg_methods" where
  "TreeAggregatorMin1 M a = \<lparr>am_zero = no_score, am_process = min_process1, am_merge = min_merge1, am_finalize = finalize1_base M a\<rparr>"

definition TreeAggregatorMin :: "'v::linordered_field math \<Rightarrow> 'v aggregator \<Rightarrow> ('v, 'v score_value list) agg_methods" where
  "TreeAggregatorMin M a = \<lparr>am_zero = zeros a, am_process = process_all min_entry, am_merge = merge_cells min_cell,
     am_finalize = finalize_base M a\<rparr>"

definition TreeAggregatorMax1 :: "'v::linordered_field math \<Rightarrow> 'v aggregator \<Rightarrow> ('v, 'v score_value) agg_methods" where
  "TreeAggregatorMax1 M a = \<lparr>am_zero = no_score, am_process = max_process1, am_merge = max_merge1, am_finalize = finalize1_base M a\<rparr>"

definition TreeAggregatorMax :: "'v::linordered_field math \<Rightarrow> 'v aggregator \<Rightarrow> ('v, 'v score_value list) agg_methods" where
  "TreeAggregatorMax M a = \<lparr>am_zero = zeros a, am_process = process_all max_entry, am_merge = merge_cells max_cell,
     am_finalize = finalize_base M a\<rparr>"

section \<open>Classification\<close>

record class_info =
  ci_class_labels :: "int list"
  ci_binary_case :: bool
  ci_weights_are_all_positive :: bool

definition get_max_weight :: "'v::linordered_field score_value list \<Rightarrow> int \<times> 'v" where
  "get_max_weight classes =
     fold (\<lambda>k (maxclass, maxweight).
       if sv_has_score (classes ! k) \<and> (maxclass = -1 \<or> sv_score (classes ! k) > maxweight)
       then (int k, sv_score (classes ! k)) else (maxclass, maxweight)) [0..<length classes] (-1, 0)"

text \<open>The label and the new value of \<open>write_additional_scores\<close>; the labels of the class are 1 and 0.\<close>

definition set_score_binary2 :: "class_info \<Rightarrow> int \<Rightarrow> 'v::linordered_field \<Rightarrow> bool \<Rightarrow> 'v \<Rightarrow> bool \<Rightarrow> (int \<times> int) res" where
  "set_score_binary2 c was score0 has0 score1 has1 =
     (let pos_weight = (if has1 then score1 else if has0 then score0 else 0) in
      if ci_binary_case c then
        if ci_weights_are_all_positive c then
          if pos_weight > 1 / 2 then bindE (vget (ci_class_labels c) 1) (\<lambda>l. Inr (l, 0))
          else bindE (vget (ci_class_labels c) 0) (\<lambda>l. Inr (l, 1))
        else if pos_weight > 0 then bindE (vget (ci_class_labels c) 1) (\<lambda>l. Inr (l, 2))
        else bindE (vget (ci_class_labels c) 0) (\<lambda>l. Inr (l, 3))
      else Inr (if pos_weight > 0 then 1 else 0, was))"

definition set_score_binary :: "class_info \<Rightarrow> int \<Rightarrow> 'v::linordered_field score_value list \<Rightarrow> (int \<times> int) res" where
  "set_score_binary c was classes =
     bindE (enforce (length classes = 2 \<or> length classes = 1)) (\<lambda>_.
     if length classes = 2 \<and> sv_has_score (classes ! 1) then
       set_score_binary2 c was (sv_score (classes ! 0)) (sv_has_score (classes ! 0)) (sv_score (classes ! 1)) (sv_has_score (classes ! 1))
     else set_score_binary2 c was (sv_score (classes ! 0)) (sv_has_score (classes ! 0)) 0 False)"

definition classifier_finalize1 :: "'v::linordered_field math \<Rightarrow> 'v aggregator \<Rightarrow> class_info \<Rightarrow> 'v score_value \<Rightarrow>
    ('v list \<times> int option) res" where
  "classifier_finalize1 M a c p =
     (let bs = ag_base_values a in
      if length bs = 2 then
        let s1 = sv_score p + bs ! 1; s0 = - s1 in
        bindE (set_score_binary2 c (-1) s0 True s1 True) (\<lambda>(y, was).
        Inr (write_scores M [s0, s1] (ag_post a) was, Some y))
      else
        let s0 = (if length bs = 1 then sv_score p + bs ! 0 else sv_score p) in
        bindE (set_score_binary2 c (-1) s0 True 0 False) (\<lambda>(y, was).
        Inr (write_scores M [s0] (ag_post a) was, Some y)))"

text \<open>Adding the base values of more than two classes.\<close>

definition class_base :: "'v::linordered_field list \<Rightarrow> nat \<Rightarrow> 'v score_value list \<Rightarrow> 'v score_value list res" where
  "class_base bs k ps =
     bindE (vget ps k) (\<lambda>p.
     Inr (ps[k := score_of (if sv_has_score p then sv_score p + bs ! k else bs ! k)]))"

text \<open>The base values of two classes, with the value of \<open>write_additional_scores\<close>.\<close>

definition binary_base :: "'v::linordered_field list \<Rightarrow> 'v score_value list \<Rightarrow> 'v score_value list \<times> int" where
  "binary_base bs ps =
     (let p0 = ps ! 0; p1 = ps ! 1 in
      if length bs = 2 then
        if sv_has_score p1 then
          let s = bs ! 1 + sv_score p0 in ([p0\<lparr>sv_score := - s\<rparr>, score_of s], -1)
        else ([p0\<lparr>sv_score := sv_score p0 + bs ! 0\<rparr>, p1\<lparr>sv_score := sv_score p1 + bs ! 1\<rparr>], -1)
      else if length bs = 1 then
        let p0 = p0\<lparr>sv_score := sv_score p0 + bs ! 0\<rparr> in (if sv_has_score p1 then [p0, p1] else [p0], -1)
      else if length bs = 0 then (if sv_has_score p1 then [p0, p1] else [p0], 3)
      else ([p0, p1], -1))"

definition classifier_finalize :: "'v::linordered_field math \<Rightarrow> 'v aggregator \<Rightarrow> class_info \<Rightarrow> 'v score_value list \<Rightarrow>
    ('v list \<times> int option) res" where
  "classifier_finalize M a c ps =
     (if ag_n_targets a > 2 then
        bindE (foldE (class_base (ag_base_values a)) [0..<length (ag_base_values a)] ps) (\<lambda>ps.
        let maxclass = fst (get_max_weight ps) in
        bindE (if maxclass < 0 then Inl Undefined else vget (ci_class_labels c) (nat maxclass)) (\<lambda>y.
        Inr (write_scores M (map score_number ps) (ag_post a) (-1), Some y)))
      else
        bindE (enforce (length ps = 2)) (\<lambda>_.
        case binary_base (ag_base_values a) ps of (ps, was) \<Rightarrow>
        bindE (set_score_binary c was ps) (\<lambda>(y, was).
        Inr (write_scores M (map score_number ps) (ag_post a) was, Some y))))"

definition TreeAggregatorClassifier1 :: "'v::linordered_field math \<Rightarrow> 'v aggregator \<Rightarrow> class_info \<Rightarrow> ('v, 'v score_value) agg_methods" where
  "TreeAggregatorClassifier1 M a c = (TreeAggregatorSum1 M a)\<lparr>am_finalize := classifier_finalize1 M a c\<rparr>"

definition TreeAggregatorClassifier :: "'v::linordered_field math \<Rightarrow> 'v aggregator \<Rightarrow> class_info \<Rightarrow> ('v, 'v score_value list) agg_methods" where
  "TreeAggregatorClassifier M a c = (TreeAggregatorSum M a)\<lparr>am_finalize := classifier_finalize M a c\<rparr>"

section \<open>Running the trees\<close>

text \<open>\<open>leaf j i\<close> is the weights of the leaf that row \<open>i\<close> reaches in tree \<open>j\<close>.\<close>

type_synonym 'v leaf_fun = "nat \<Rightarrow> nat \<Rightarrow> (int \<times> 'v) list run"

definition leaf_weights :: "'v tree_ensemble \<Rightarrow> (node_mode \<Rightarrow> 'x \<Rightarrow> 'v \<Rightarrow> bool) \<Rightarrow> ('x \<Rightarrow> bool) \<Rightarrow> 'x list \<Rightarrow> nat \<Rightarrow> 'v leaf_fun" where
  "leaf_weights te cmp nan X stride j i =
     (case ProcessTreeNodeLeave te cmp nan X (i * stride) (te_roots te ! j) of
        None \<Rightarrow> Inl None
      | Some r \<Rightarrow> bindE (returned r) (\<lambda>l. Inr (tn_weights (te_nodes te ! l))))"

definition add_tree :: "('v, 's) agg_methods \<Rightarrow> 'v leaf_fun \<Rightarrow> nat \<Rightarrow> nat \<Rightarrow> 's \<Rightarrow> 's run" where
  "add_tree agg leaf i j s = bindE (leaf j i) (\<lambda>ws. returned (am_process agg s ws))"

text \<open>A row of the output: the room in \<open>Z\<close> and the label.\<close>

type_synonym 'v out_row = "'v list \<times> int"

definition finish :: "('v, 's) agg_methods \<Rightarrow> bool \<Rightarrow> 's \<Rightarrow> nat \<Rightarrow> 'v out_row list \<Rightarrow> 'v out_row list run" where
  "finish agg has_label s i rows =
     bindE (returned (am_finalize agg s)) (\<lambda>(zs, y).
     returned (bindE (vget rows i) (\<lambda>(row, l).
     if length zs \<le> length row \<and> (y = None \<or> has_label)
     then Inr (rows[i := (zs @ drop (length zs) row, case y of None \<Rightarrow> l | Some l' \<Rightarrow> l')]) else Inl Undefined)))"

text \<open>All trees on one row (A, A2, and the bodies of C, C2, E and E2).\<close>

definition one_row :: "('v, 's) agg_methods \<Rightarrow> 'v leaf_fun \<Rightarrow> nat \<Rightarrow> bool \<Rightarrow> nat \<Rightarrow> 'v out_row list \<Rightarrow> 'v out_row list run" where
  "one_row agg leaf n_trees has_label i rows =
     bindE (foldE (add_tree agg leaf i) [0..<n_trees] (am_zero agg)) (\<lambda>s. finish agg has_label s i rows)"

definition degree :: "pool option \<Rightarrow> nat" where
  "degree tp = (case tp of None \<Rightarrow> 1 | Some p \<Rightarrow> pool_degree p)"

definition int32 :: "nat \<Rightarrow> nat run" where
  "int32 n = (if n < 2 ^ 31 then Inr n else Inl (Some Thrown))"

text \<open>Section B: a score per tree, merged in order.\<close>

definition section_B :: "pool option \<Rightarrow> ('v, 's) agg_methods \<Rightarrow> 'v leaf_fun \<Rightarrow> nat \<Rightarrow> bool \<Rightarrow> 'v out_row list \<Rightarrow> 'v out_row list run" where
  "section_B tp agg leaf n_trees has_label rows =
     bindE (int32 n_trees) (\<lambda>n.
     bindE (TryBatchParallelFor tp n (\<lambda>j scores. bindE (add_tree agg leaf 0 j (scores ! j)) (\<lambda>s. Inr (scores[j := s]))) 0
       (replicate n_trees (am_zero agg))) (\<lambda>scores.
     bindE (foldE (\<lambda>p2 s. returned (am_merge agg s p2)) scores (am_zero agg)) (\<lambda>s.
     finish agg has_label s 0 rows)))"

text \<open>Section B2: a vector of scores per thread.\<close>

definition section_B2 :: "pool option \<Rightarrow> ('v, 's) agg_methods \<Rightarrow> 'v leaf_fun \<Rightarrow> nat \<Rightarrow> bool \<Rightarrow> 'v out_row list \<Rightarrow> 'v out_row list run" where
  "section_B2 tp agg leaf n_trees has_label rows =
     bindE (int32 n_trees) (\<lambda>n.
     let num_threads = min (degree tp) n in
     bindE (TrySimpleParallelFor tp num_threads (\<lambda>b scores.
       case PartitionWork b num_threads n_trees of (start, end_) \<Rightarrow>
       bindE (foldE (add_tree agg leaf 0) [start..<end_] (am_zero agg)) (\<lambda>s. Inr (scores[b := s])))
       (replicate num_threads (am_zero agg))) (\<lambda>scores.
     bindE (returned (vget scores 0)) (\<lambda>s0.
     bindE (foldE (\<lambda>p2 s. returned (am_merge agg s p2)) (drop 1 scores) s0) (\<lambda>s.
     finish agg has_label s 0 rows))))"

text \<open>Sections C and C2: row after row.\<close>

definition section_C :: "('v, 's) agg_methods \<Rightarrow> 'v leaf_fun \<Rightarrow> nat \<Rightarrow> nat \<Rightarrow> bool \<Rightarrow> 'v out_row list \<Rightarrow> 'v out_row list run" where
  "section_C agg leaf n_trees N has_label rows = foldE (one_row agg leaf n_trees has_label) [0..<N] rows"

text \<open>
  Sections D and D2: every thread runs a part of the trees on all rows, then the threads share the
  rows and merge the scores of each.
\<close>

definition tree_pass :: "('v, 's) agg_methods \<Rightarrow> 'v leaf_fun \<Rightarrow> nat \<Rightarrow> nat \<Rightarrow> nat \<Rightarrow> 's list \<Rightarrow> 's list run" where
  "tree_pass agg leaf N o1 j = foldE (\<lambda>i scores. bindE (returned (vget scores (o1 + i))) (\<lambda>s.
     bindE (add_tree agg leaf i j s) (\<lambda>s. Inr (scores[o1 + i := s])))) [0..<N]"

definition trees_task :: "('v, 's) agg_methods \<Rightarrow> 'v leaf_fun \<Rightarrow> nat \<Rightarrow> nat \<Rightarrow> nat \<Rightarrow> nat \<Rightarrow> 's list \<Rightarrow> 's list run" where
  "trees_task agg leaf num_threads n_trees N b scores =
     (case PartitionWork b num_threads n_trees of (start, end_) \<Rightarrow>
      bindE (foldE (\<lambda>i scores. returned (vset scores (b * N + i) (am_zero agg))) [0..<N] scores)
      (foldE (tree_pass agg leaf N (b * N)) [start..<end_]))"

definition merge_row :: "('v, 's) agg_methods \<Rightarrow> nat \<Rightarrow> nat \<Rightarrow> bool \<Rightarrow> nat \<Rightarrow> 's list \<times> 'v out_row list \<Rightarrow> ('s list \<times> 'v out_row list) run" where
  "merge_row agg num_threads N has_label i st =
     (case st of (scores, rows) \<Rightarrow>
      bindE (foldE (\<lambda>j scores. returned (bindE (vget scores i) (\<lambda>s. bindE (vget scores (j * N + i)) (\<lambda>s2.
          bindE (am_merge agg s s2) (\<lambda>s. Inr (scores[i := s])))))) [1..<num_threads] scores) (\<lambda>scores.
      bindE (returned (vget scores i)) (\<lambda>s.
      bindE (finish agg has_label s i rows) (\<lambda>rows. Inr (scores, rows)))))"

definition section_D :: "pool option \<Rightarrow> ('v, 's) agg_methods \<Rightarrow> 'v leaf_fun \<Rightarrow> nat \<Rightarrow> nat \<Rightarrow> bool \<Rightarrow> 'v out_row list \<Rightarrow> 'v out_row list run" where
  "section_D tp agg leaf n_trees N has_label rows =
     bindE (int32 n_trees) (\<lambda>n.
     let num_threads = min (degree tp) n in
     bindE (TrySimpleParallelFor tp num_threads (trees_task agg leaf num_threads n_trees N)
       (replicate (num_threads * N) (am_zero agg))) (\<lambda>scores.
     bindE (TrySimpleParallelFor tp num_threads (batch_task num_threads N (merge_row agg num_threads N has_label)) (scores, rows))
       (\<lambda>(scores, rows). Inr rows)))"

text \<open>Section E: every row on its own; section E2: the same in batches.\<close>

definition section_E :: "pool option \<Rightarrow> ('v, 's) agg_methods \<Rightarrow> 'v leaf_fun \<Rightarrow> nat \<Rightarrow> nat \<Rightarrow> bool \<Rightarrow> 'v out_row list \<Rightarrow> 'v out_row list run" where
  "section_E tp agg leaf n_trees N has_label rows =
     bindE (int32 N) (\<lambda>n. TryBatchParallelFor tp n (one_row agg leaf n_trees has_label) 0 rows)"

definition section_E2 :: "pool option \<Rightarrow> ('v, 's) agg_methods \<Rightarrow> 'v leaf_fun \<Rightarrow> nat \<Rightarrow> nat \<Rightarrow> bool \<Rightarrow> 'v out_row list \<Rightarrow> 'v out_row list run" where
  "section_E2 tp agg leaf n_trees N has_label rows =
     bindE (int32 N) (\<lambda>n. let num_threads = min (degree tp) n in
     TrySimpleParallelFor tp num_threads (batch_task num_threads N (one_row agg leaf n_trees has_label)) rows)"

text \<open>The rows and the width of a row of the input.\<close>

definition input_rows :: "nat list \<Rightarrow> (nat \<times> nat) res" where
  "input_rows dims =
     (if length dims = 1 then bindE (vget dims 0) (\<lambda>d. Inr (d, 1))
      else bindE (vget dims 1) (\<lambda>stride. bindE (vget dims 0) (\<lambda>N. Inr (stride, N))))"

definition ComputeAgg :: "'v::linordered_field tree_ensemble \<Rightarrow> (node_mode \<Rightarrow> 'x \<Rightarrow> 'v \<Rightarrow> bool) \<Rightarrow> ('x \<Rightarrow> bool) \<Rightarrow> pool option \<Rightarrow>
    'x list \<times> nat list \<Rightarrow> 'v out_row list \<Rightarrow> bool \<Rightarrow> ('v, 'v score_value) agg_methods \<Rightarrow> ('v, 'v score_value list) agg_methods \<Rightarrow>
    'v out_row list run" where
  "ComputeAgg te cmp nan ttp X rows has_label agg1 agg =
     bindE (returned (input_rows (snd X))) (\<lambda>(stride, N).
     let leaf = leaf_weights te cmp nan (fst X) stride; n_trees = length (te_roots te) in
     if te_n_targets_or_classes te = 1 then
       if N = 1 then
         if int n_trees \<le> te_parallel_tree te then one_row agg1 leaf n_trees has_label 0 rows
         else section_B ttp agg1 leaf n_trees has_label rows
       else if int N \<le> te_parallel_N te then section_C agg1 leaf n_trees N has_label rows
       else if n_trees > degree ttp then section_D ttp agg1 leaf n_trees N has_label rows
       else section_E ttp agg1 leaf n_trees N has_label rows
     else
       if N = 1 then
         if int n_trees \<le> te_parallel_tree te then one_row agg leaf n_trees has_label 0 rows
         else section_B2 ttp agg leaf n_trees has_label rows
       else if int N \<le> te_parallel_N te then section_C agg leaf n_trees N has_label rows
       else if n_trees \<ge> degree ttp then section_D ttp agg leaf n_trees N has_label rows
       else section_E2 ttp agg leaf n_trees N has_label rows)"

definition aggregator_of :: "'v tree_ensemble \<Rightarrow> 'v aggregator" where
  "aggregator_of te = \<lparr>ag_n_trees = length (te_roots te), ag_n_targets = te_n_targets_or_classes te,
     ag_post = te_post_transform te, ag_base_values = te_base_values te\<rparr>"

definition tree_compute :: "'v::linordered_field math \<Rightarrow> 'v tree_ensemble \<Rightarrow> (node_mode \<Rightarrow> 'x \<Rightarrow> 'v \<Rightarrow> bool) \<Rightarrow> ('x \<Rightarrow> bool) \<Rightarrow>
    pool option \<Rightarrow> 'x list \<times> nat list \<Rightarrow> 'v out_row list \<Rightarrow> bool \<Rightarrow> 'v out_row list run" where
  "tree_compute M te cmp nan ttp X rows has_label =
     (let a = aggregator_of te; run = ComputeAgg te cmp nan ttp X rows has_label in
      case te_aggregate_function te of
        AGG_AVERAGE \<Rightarrow> run (TreeAggregatorAverage1 M a) (TreeAggregatorAverage M a)
      | AGG_SUM \<Rightarrow> run (TreeAggregatorSum1 M a) (TreeAggregatorSum M a)
      | AGG_MIN \<Rightarrow> run (TreeAggregatorMin1 M a) (TreeAggregatorMin M a)
      | AGG_MAX \<Rightarrow> run (TreeAggregatorMax1 M a) (TreeAggregatorMax M a))"

text \<open>The classifier.\<close>

record 'v tree_classifier =
  tc_ensemble :: "'v tree_ensemble"
  tc_weights_are_all_positive :: bool
  tc_binary_case :: bool
  tc_classlabels_strings :: "string list"
  tc_classlabels_int64s :: "int list"
  tc_class_labels :: "int list"

definition TreeEnsembleCommonClassifier :: "'v::linordered_field tree_attrs \<Rightarrow> string list \<Rightarrow> int list \<Rightarrow> 'v tree_classifier res" where
  "TreeEnsembleCommonClassifier A classlabels_strings classlabels_int64s =
     (let A = A\<lparr>ta_n_targets_or_classes := int (if classlabels_strings = [] then length classlabels_int64s else length classlabels_strings)\<rparr> in
      bindE (TreeEnsembleCommon A) (\<lambda>te.
      Inr \<lparr>tc_ensemble = te,
        tc_weights_are_all_positive = list_all (\<lambda>i. \<not> ta_class_weights A ! i < 0) [0..<length (ta_class_ids A)],
        tc_binary_case = (te_n_targets_or_classes te = 2 \<and> card (set (ta_class_ids A)) = 1),
        tc_classlabels_strings = classlabels_strings, tc_classlabels_int64s = classlabels_int64s,
        tc_class_labels = map int [0..<length classlabels_strings]\<rparr>))"

text \<open>The labels come back as integers or, row by row, as strings.\<close>

definition classifier_compute :: "'v::linordered_field math \<Rightarrow> 'v tree_classifier \<Rightarrow> (node_mode \<Rightarrow> 'x \<Rightarrow> 'v \<Rightarrow> bool) \<Rightarrow> ('x \<Rightarrow> bool) \<Rightarrow>
    pool option \<Rightarrow> 'x list \<times> nat list \<Rightarrow> 'v out_row list \<Rightarrow> ('v out_row list \<times> string list) run" where
  "classifier_compute M tc cmp nan ttp X rows =
     (let te = tc_ensemble tc; a = aggregator_of te;
          c = (\<lambda>labels. \<lparr>ci_class_labels = labels, ci_binary_case = tc_binary_case tc,
            ci_weights_are_all_positive = tc_weights_are_all_positive tc\<rparr>);
          run = (\<lambda>labels. ComputeAgg te cmp nan ttp X rows True (TreeAggregatorClassifier1 M a (c labels)) (TreeAggregatorClassifier M a (c labels))) in
      if tc_classlabels_strings tc = [] then bindE (run (tc_classlabels_int64s tc)) (\<lambda>rows. Inr (rows, []))
      else
        bindE (run (tc_class_labels tc)) (\<lambda>rows.
        returned (foldE (\<lambda>row (rows, labels).
            bindE (if snd row < 0 then Inl Undefined else vget (tc_classlabels_strings tc) (nat (snd row))) (\<lambda>s.
            Inr (rows, labels @ [s]))) rows (rows, []))))"


section \<open>What an aggregator promises\<close>

text \<open>
  \<open>ok\<close> is which weights of a leaf the scores accept and \<open>valid\<close> the scores a run produces. Merging with
  untouched scores changes nothing, and adding a leaf before a merge is adding it after.
\<close>

locale aggregator_laws =
  fixes agg :: "('v, 's) agg_methods"
    and ok :: "(int \<times> 'v) list \<Rightarrow> bool"
    and valid :: "'s \<Rightarrow> bool"
  assumes inv_zero: "valid (am_zero agg)"
    and process_returns: "valid s \<Longrightarrow> ok ws \<Longrightarrow> \<exists>t. am_process agg s ws = Inr t \<and> valid t"
    and process_ok: "valid s \<Longrightarrow> am_process agg s ws = Inr t \<Longrightarrow> ok ws"
    and merge_zero: "valid s \<Longrightarrow> am_merge agg s (am_zero agg) = Inr s"
    and merge_returns: "valid s \<Longrightarrow> valid t \<Longrightarrow> \<exists>u. am_merge agg s t = Inr u \<and> valid u"
    and merge_process: "valid s \<Longrightarrow> valid t \<Longrightarrow> ok ws \<Longrightarrow>
      bindE (am_process agg t ws) (am_merge agg s) = bindE (am_merge agg s t) (\<lambda>u. am_process agg u ws)"

lemma returned_simps [simp]: "returned (Inr x) = Inr x" "returned (Inl e) = Inl (Some e)"
  by (simp_all add: returned_def)

lemma returned_Inr [simp]: "returned x = Inr y \<longleftrightarrow> x = Inr y"
  by (cases x) simp_all

lemma returned_bind: "returned (bindE x f) = bindE (returned x) (\<lambda>y. returned (f y))"
  by (cases x) simp_all

text \<open>A score alone: \<open>add\<close> a weight, \<open>join\<close> two scores.\<close>

locale score_cell =
  fixes add :: "'v::linordered_field score_value \<Rightarrow> 'v \<Rightarrow> 'v score_value"
    and join :: "'v score_value \<Rightarrow> 'v score_value \<Rightarrow> 'v score_value"
    and good :: "'v score_value \<Rightarrow> bool"
  assumes good_none: "good no_score"
    and good_add: "good p \<Longrightarrow> good (add p v)"
    and good_join: "good p \<Longrightarrow> good q \<Longrightarrow> good (join p q)"
    and join_none: "good p \<Longrightarrow> join p no_score = p"
    and join_add: "good p \<Longrightarrow> good q \<Longrightarrow> join p (add q v) = add (join p q) v"

definition one_output :: "('v score_value \<Rightarrow> 'v \<Rightarrow> 'v score_value) \<Rightarrow> ('v score_value \<Rightarrow> 'v score_value \<Rightarrow> 'v score_value) \<Rightarrow>
    ('v score_value \<Rightarrow> ('v list \<times> int option) res) \<Rightarrow> ('v::linordered_field, 'v score_value) agg_methods" where
  "one_output add join fin = \<lparr>am_zero = no_score,
     am_process = (\<lambda>p ws. bindE (first_weight ws) (\<lambda>v. Inr (add p v))),
     am_merge = (\<lambda>p q. Inr (join p q)), am_finalize = fin\<rparr>"

definition entry :: "('v score_value \<Rightarrow> 'v \<Rightarrow> 'v score_value) \<Rightarrow> int \<times> 'v \<Rightarrow> 'v score_value list \<Rightarrow> 'v score_value list res" where
  "entry add w ps = bindE (at_target ps (fst w)) (\<lambda>t. Inr (ps[t := add (ps ! t) (snd w)]))"

definition several_outputs :: "nat \<Rightarrow> (int \<times> 'v \<Rightarrow> 'v score_value list \<Rightarrow> 'v score_value list res) \<Rightarrow>
    ('v score_value \<Rightarrow> 'v score_value \<Rightarrow> 'v score_value) \<Rightarrow> ('v score_value list \<Rightarrow> ('v list \<times> int option) res) \<Rightarrow>
    ('v::linordered_field, 'v score_value list) agg_methods" where
  "several_outputs n e join fin = \<lparr>am_zero = replicate n no_score, am_process = process_all e,
     am_merge = merge_cells join, am_finalize = fin\<rparr>"

definition in_range :: "nat \<Rightarrow> int \<times> 'v \<Rightarrow> bool" where
  "in_range n w \<longleftrightarrow> 0 \<le> fst w \<and> fst w < int n"

lemma entry_in: "in_range (length ps) w \<Longrightarrow> entry add w ps = Inr (ps[nat (fst w) := add (ps ! nat (fst w)) (snd w)])"
  by (simp add: entry_def at_target_def in_range_def)

lemma entry_out: "\<not> in_range (length ps) w \<Longrightarrow> entry add w ps = Inl Undefined"
  by (simp add: entry_def at_target_def in_range_def del: de_Morgan_conj)

context score_cell
begin

lemma one_output_laws: "aggregator_laws (one_output add join fin) (\<lambda>ws. ws \<noteq> []) good"
  by unfold_locales (auto simp: one_output_def first_weight_def vget_def good_none good_add good_join join_none join_add bindE_def
      split: if_splits)

definition goods :: "nat \<Rightarrow> 'v score_value list \<Rightarrow> bool" where
  "goods n ps \<longleftrightarrow> length ps = n \<and> list_all good ps"

lemma goods_entry: "goods n ps \<Longrightarrow> in_range n w \<Longrightarrow> \<exists>qs. entry add w ps = Inr qs \<and> goods n qs"
  by (auto simp: goods_def entry_in list_all_length in_range_def nth_list_update good_add)

lemma goods_entries: "goods n ps \<Longrightarrow> list_all (in_range n) ws \<Longrightarrow> \<exists>qs. foldE (entry add) ws ps = Inr qs \<and> goods n qs"
proof (induction ws arbitrary: ps)
  case (Cons w ws)
  then obtain qs where "entry add w ps = Inr qs" "goods n qs" using goods_entry [of n ps w] by auto
  then show ?case using Cons.IH [of qs] Cons.prems(2) by simp
qed simp

lemma entries_in_range: "goods n ps \<Longrightarrow> foldE (entry add) ws ps = Inr qs \<Longrightarrow> list_all (in_range n) ws"
proof (induction ws arbitrary: ps)
  case (Cons w ws)
  then obtain rs where rs: "entry add w ps = Inr rs" "foldE (entry add) ws rs = Inr qs" by (auto simp: bindE_Inr_iff)
  have w: "in_range n w" using rs(1) Cons.prems(1) entry_out [of ps w add] by (auto simp: goods_def)
  then have "goods n rs" using goods_entry [OF Cons.prems(1) w] rs(1) by simp
  then show ?case using Cons.IH [of rs] rs(2) w by simp
qed simp

lemma join_entry:
  assumes "goods n ps" "goods n qs" "in_range n w"
  shows "bindE (entry add w qs) (\<lambda>qs. Inr (map2 join ps qs)) = entry add w (map2 join ps qs)"
proof -
  let ?t = "nat (fst w)"
  have t: "?t < n" "length ps = n" "length qs = n" using assms by (auto simp: in_range_def goods_def)
  have "map2 join ps (qs[?t := add (qs ! ?t) (snd w)]) = (map2 join ps qs)[?t := add (map2 join ps qs ! ?t) (snd w)]"
  proof (rule nth_equalityI)
    fix k assume "k < length (map2 join ps (qs[?t := add (qs ! ?t) (snd w)]))"
    then have k: "k < n" using t by simp
    then show "map2 join ps (qs[?t := add (qs ! ?t) (snd w)]) ! k = (map2 join ps qs)[?t := add (map2 join ps qs ! ?t) (snd w)] ! k"
      using assms t join_add by (cases "k = ?t") (auto simp: goods_def list_all_length)
  qed (use t in simp)
  then show ?thesis using assms(3) t by (simp add: entry_in)
qed

lemma join_entries:
  assumes "goods n ps" "goods n qs" "list_all (in_range n) ws"
  shows "bindE (foldE (entry add) ws qs) (\<lambda>qs. Inr (map2 join ps qs)) = foldE (entry add) ws (map2 join ps qs)"
  using assms
proof (induction ws arbitrary: qs)
  case Nil
  then show ?case by simp
next
  case (Cons w ws)
  then have w: "in_range n w" by simp
  obtain rs where rs: "entry add w qs = Inr rs" "goods n rs" using goods_entry [OF Cons.prems(2) w] by blast
  have "entry add w (map2 join ps qs) = Inr (map2 join ps rs)"
    using join_entry [OF Cons.prems(1,2) w] rs(1) by simp
  then show ?case using Cons.IH [of rs] Cons.prems rs by simp
qed

lemma goods_join: "goods n ps \<Longrightarrow> goods n qs \<Longrightarrow> goods n (map2 join ps qs)"
  by (auto simp: goods_def list_all_length good_join)

lemma join_zeros: "goods n ps \<Longrightarrow> map2 join ps (replicate n no_score) = ps"
  by (rule nth_equalityI) (auto simp: goods_def list_all_length join_none)

lemma several_outputs_laws:
  assumes e: "\<And>w ps qs. e w ps = Inr qs \<longleftrightarrow> entry add w ps = Inr qs"
  shows "aggregator_laws (several_outputs n e join fin) (list_all (in_range n)) (goods n)"
proof -
  have es: "foldE e ws ps = Inr qs \<longleftrightarrow> foldE (entry add) ws ps = Inr qs" for ws ps qs
    by (induction ws arbitrary: ps) (auto simp: bindE_Inr_iff e)
  show ?thesis
  proof unfold_locales
    fix s t and ws :: "(int \<times> 'v) list"
    assume st: "goods n s" "goods n t" and ws: "list_all (in_range n) ws"
    obtain qs where qs: "foldE e ws t = Inr qs" "goods n qs" using goods_entries [OF st(2) ws] es by blast
    obtain rs where rs: "foldE e ws (map2 join s t) = Inr rs" using goods_entries [OF goods_join [OF st] ws] es by blast
    have "rs = map2 join s qs" using join_entries [OF st ws] qs rs es by simp
    then show "bindE (am_process (several_outputs n e join fin) t ws) (am_merge (several_outputs n e join fin) s)
      = bindE (am_merge (several_outputs n e join fin) s t) (\<lambda>u. am_process (several_outputs n e join fin) u ws)"
      using qs rs st by (simp add: several_outputs_def process_all_def merge_cells_def enforce_def goods_def)
  next
    fix s t assume "goods n s" "goods n t"
    then show "\<exists>u. am_merge (several_outputs n e join fin) s t = Inr u \<and> goods n u"
      using goods_join [of n s t] by (simp add: several_outputs_def merge_cells_def enforce_def goods_def)
  next
    fix s assume "goods n s"
    then show "am_merge (several_outputs n e join fin) s (am_zero (several_outputs n e join fin)) = Inr s"
      using join_zeros [of n s] by (simp add: several_outputs_def merge_cells_def enforce_def goods_def)
  next
    fix s and ws :: "(int \<times> 'v) list"
    assume "goods n s" "list_all (in_range n) ws"
    then show "\<exists>t. am_process (several_outputs n e join fin) s ws = Inr t \<and> goods n t"
      using goods_entries es by (simp add: several_outputs_def process_all_def)
  next
    fix s t and ws :: "(int \<times> 'v) list"
    assume "goods n s" "am_process (several_outputs n e join fin) s ws = Inr t"
    then show "list_all (in_range n) ws"
      using entries_in_range es by (simp add: several_outputs_def process_all_def)
  qed (simp add: several_outputs_def goods_def list_all_length good_none)
qed

end

text \<open>The aggregators of the code.\<close>

definition sum_good :: "'v::linordered_field score_value \<Rightarrow> bool" where
  "sum_good p \<longleftrightarrow> sv_has_score p \<or> sv_score p = 0"

definition min_add :: "'v::linordered_field score_value \<Rightarrow> 'v \<Rightarrow> 'v score_value" where
  "min_add p v = score_of (if \<not> sv_has_score p \<or> v < sv_score p then v else sv_score p)"

definition max_add :: "'v::linordered_field score_value \<Rightarrow> 'v \<Rightarrow> 'v score_value" where
  "max_add p v = score_of (if \<not> sv_has_score p \<or> v > sv_score p then v else sv_score p)"

interpretation sum1_cell: score_cell "\<lambda>p v. p\<lparr>sv_score := sv_score p + v\<rparr>"
  "\<lambda>p p2. p\<lparr>sv_score := sv_score p + sv_score p2\<rparr>" "\<lambda>_. True"
  by unfold_locales (auto simp: no_score_def)

interpretation sum_cell: score_cell "\<lambda>p v. score_of (sv_score p + v)" sum_cell sum_good
  by unfold_locales (auto simp: no_score_def sum_good_def score_of_def sum_cell_def)

interpretation min_cell: score_cell min_add min_cell "\<lambda>_. True"
  by unfold_locales (auto simp: no_score_def min_add_def score_of_def min_cell_def)

interpretation max_cell: score_cell max_add max_cell "\<lambda>_. True"
  by unfold_locales (auto simp: no_score_def max_add_def score_of_def max_cell_def)

lemma sum1_eq: "TreeAggregatorSum1 M a = one_output (\<lambda>p v. p\<lparr>sv_score := sv_score p + v\<rparr>)
    (\<lambda>p p2. p\<lparr>sv_score := sv_score p + sv_score p2\<rparr>) (sum_finalize1 M a)"
  by (simp add: TreeAggregatorSum1_def one_output_def sum_process1_def sum_merge1_def fun_eq_iff)

lemma sum_eq: "TreeAggregatorSum M a = several_outputs (nat (ag_n_targets a)) sum_entry sum_cell (sum_finalize M a)"
  by (simp add: TreeAggregatorSum_def several_outputs_def zeros_def)

lemma sum_entry_entry: "sum_entry w ps = Inr qs \<longleftrightarrow> entry (\<lambda>p v. score_of (sv_score p + v)) w ps = Inr qs"
  by (auto simp: sum_entry_def entry_def at_target_def enforce_def)

lemma agg_finalize_update: "aggregator_laws agg ok P \<Longrightarrow> aggregator_laws (agg\<lparr>am_finalize := f\<rparr>) ok P"
  by (simp add: aggregator_laws_def)

interpretation sum1: aggregator_laws "TreeAggregatorSum1 M a" "\<lambda>ws. ws \<noteq> []" "\<lambda>_. True" for M a
  unfolding sum1_eq by (rule sum1_cell.one_output_laws)

interpretation sum: aggregator_laws "TreeAggregatorSum M a" "list_all (in_range (nat (ag_n_targets a)))"
  "sum_cell.goods (nat (ag_n_targets a))" for M a
  unfolding sum_eq by (rule sum_cell.several_outputs_laws) (rule sum_entry_entry)

interpretation average1: aggregator_laws "TreeAggregatorAverage1 M a" "\<lambda>ws. ws \<noteq> []" "\<lambda>_. True" for M a
  unfolding TreeAggregatorAverage1_def by (intro agg_finalize_update sum1.aggregator_laws_axioms)

interpretation average: aggregator_laws "TreeAggregatorAverage M a" "list_all (in_range (nat (ag_n_targets a)))"
  "sum_cell.goods (nat (ag_n_targets a))" for M a
  unfolding TreeAggregatorAverage_def by (intro agg_finalize_update sum.aggregator_laws_axioms)

interpretation min1: aggregator_laws "TreeAggregatorMin1 M a" "\<lambda>ws. ws \<noteq> []" "\<lambda>_. True" for M a
proof -
  have "TreeAggregatorMin1 M a = one_output min_add min_cell (finalize1_base M a)"
    by (simp add: TreeAggregatorMin1_def one_output_def min_process1_def min_merge1_def min_add_def min_cell_def fun_eq_iff)
  then show "aggregator_laws (TreeAggregatorMin1 M a) (\<lambda>ws. ws \<noteq> []) (\<lambda>_. True)"
    using min_cell.one_output_laws by simp
qed

interpretation min: aggregator_laws "TreeAggregatorMin M a" "list_all (in_range (nat (ag_n_targets a)))"
  "min_cell.goods (nat (ag_n_targets a))" for M a
proof -
  have "TreeAggregatorMin M a = several_outputs (nat (ag_n_targets a)) min_entry min_cell (finalize_base M a)"
    by (simp add: TreeAggregatorMin_def several_outputs_def zeros_def)
  moreover have "min_entry w ps = Inr qs \<longleftrightarrow> entry min_add w ps = Inr qs" for w and ps qs :: "'a score_value list"
    by (auto simp: min_entry_def entry_def min_add_def)
  ultimately show "aggregator_laws (TreeAggregatorMin M a) (list_all (in_range (nat (ag_n_targets a))))
      (min_cell.goods (nat (ag_n_targets a)))"
    using min_cell.several_outputs_laws [of min_entry "nat (ag_n_targets a)" "finalize_base M a"] by simp
qed

interpretation max1: aggregator_laws "TreeAggregatorMax1 M a" "\<lambda>ws. ws \<noteq> []" "\<lambda>_. True" for M a
proof -
  have "TreeAggregatorMax1 M a = one_output max_add max_cell (finalize1_base M a)"
    by (simp add: TreeAggregatorMax1_def one_output_def max_process1_def max_merge1_def max_add_def max_cell_def fun_eq_iff)
  then show "aggregator_laws (TreeAggregatorMax1 M a) (\<lambda>ws. ws \<noteq> []) (\<lambda>_. True)"
    using max_cell.one_output_laws by simp
qed

interpretation max: aggregator_laws "TreeAggregatorMax M a" "list_all (in_range (nat (ag_n_targets a)))"
  "max_cell.goods (nat (ag_n_targets a))" for M a
proof -
  have "TreeAggregatorMax M a = several_outputs (nat (ag_n_targets a)) max_entry max_cell (finalize_base M a)"
    by (simp add: TreeAggregatorMax_def several_outputs_def zeros_def)
  moreover have "max_entry w ps = Inr qs \<longleftrightarrow> entry max_add w ps = Inr qs" for w and ps qs :: "'a score_value list"
    by (auto simp: max_entry_def entry_def max_add_def)
  ultimately show "aggregator_laws (TreeAggregatorMax M a) (list_all (in_range (nat (ag_n_targets a))))
      (max_cell.goods (nat (ag_n_targets a)))"
    using max_cell.several_outputs_laws [of max_entry "nat (ag_n_targets a)" "finalize_base M a"] by simp
qed

interpretation classifier1: aggregator_laws "TreeAggregatorClassifier1 M a c" "\<lambda>ws. ws \<noteq> []" "\<lambda>_. True" for M a c
  unfolding TreeAggregatorClassifier1_def by (intro agg_finalize_update sum1.aggregator_laws_axioms)

interpretation classifier: aggregator_laws "TreeAggregatorClassifier M a c" "list_all (in_range (nat (ag_n_targets a)))"
  "sum_cell.goods (nat (ag_n_targets a))" for M a c
  unfolding TreeAggregatorClassifier_def by (intro agg_finalize_update sum.aggregator_laws_axioms)

section \<open>Every schedule gives the scores of the loop over the trees\<close>

lemma finish_local: "local_task (finish agg has_label s)"
  by (auto simp: local_task_def finish_def vget_def nth_list_update bindE_Inr_iff split: prod.splits if_splits)

lemma one_row_local: "local_task (one_row agg leaf n_trees has_label)"
  unfolding local_task_def
proof (intro allI impI)
  fix i t t' assume "one_row agg leaf n_trees has_label i t = Inr t'"
  then obtain s where s: "foldE (add_tree agg leaf i) [0..<n_trees] (am_zero agg) = Inr s" "finish agg has_label s i t = Inr t'"
    by (auto simp: one_row_def bindE_Inr_iff)
  show "i < length t \<and> (\<forall>u. length u = length t \<longrightarrow> u ! i = t ! i \<longrightarrow> one_row agg leaf n_trees has_label i u = Inr (u[i := t' ! i]))"
    using local_taskD(1,2) [OF finish_local s(2)] s(1) by (simp add: one_row_def)
qed

context aggregator_laws
begin

definition leaves_ok :: "'v leaf_fun \<Rightarrow> nat \<Rightarrow> nat set \<Rightarrow> bool" where
  "leaves_ok leaf i J \<longleftrightarrow> (\<forall>j \<in> J. \<exists>ws. leaf j i = Inr ws \<and> ok ws)"

definition adds :: "'v leaf_fun \<Rightarrow> nat \<Rightarrow> nat list \<Rightarrow> 's \<Rightarrow> 's" where
  "adds leaf i js s = projr (foldE (add_tree agg leaf i) js s)"

lemma merge_adds_run:
  assumes "leaves_ok leaf i J" "set js \<subseteq> J" "valid s" "valid t" "am_merge agg s t = Inr u" "valid u"
  shows "\<exists>t' u'. foldE (add_tree agg leaf i) js t = Inr t' \<and> valid t' \<and> am_merge agg s t' = Inr u'
    \<and> foldE (add_tree agg leaf i) js u = Inr u' \<and> valid u'"
  using assms
proof (induction js arbitrary: t u)
  case Nil
  then show ?case by simp
next
  case (Cons j js)
  obtain ws where ws: "leaf j i = Inr ws" "ok ws" using Cons.prems(1,2) by (auto simp: leaves_ok_def)
  obtain t1 where t1: "am_process agg t ws = Inr t1" "valid t1" using process_returns [OF Cons.prems(4) ws(2)] by blast
  obtain u1 where u1: "am_process agg u ws = Inr u1" "valid u1" using process_returns [OF Cons.prems(6) ws(2)] by blast
  have "am_merge agg s t1 = Inr u1" using merge_process [OF Cons.prems(3,4) ws(2)] t1 u1 Cons.prems(5) by simp
  then show ?case using Cons.IH [of t1 u1] Cons.prems t1 u1 ws by (simp add: add_tree_def)
qed

lemma adds_run:
  assumes "leaves_ok leaf i J" "set js \<subseteq> J" "valid s"
  shows "foldE (add_tree agg leaf i) js s = Inr (adds leaf i js s)" "valid (adds leaf i js s)"
    "am_merge agg s (adds leaf i js (am_zero agg)) = Inr (adds leaf i js s)"
proof -
  obtain t' u' where "foldE (add_tree agg leaf i) js (am_zero agg) = Inr t'" "am_merge agg s t' = Inr u'"
    "foldE (add_tree agg leaf i) js s = Inr u'" "valid u'"
    using merge_adds_run [OF assms(1,2,3) inv_zero merge_zero [OF assms(3)] assms(3)] by blast
  then show "foldE (add_tree agg leaf i) js s = Inr (adds leaf i js s)" "valid (adds leaf i js s)"
    "am_merge agg s (adds leaf i js (am_zero agg)) = Inr (adds leaf i js s)"
    by (simp_all add: adds_def)
qed

lemma adds_append:
  assumes "leaves_ok leaf i J" "set js \<subseteq> J" "set ks \<subseteq> J" "valid s"
  shows "adds leaf i (js @ ks) s = adds leaf i ks (adds leaf i js s)"
proof -
  have "foldE (add_tree agg leaf i) (js @ ks) s = foldE (add_tree agg leaf i) ks (adds leaf i js s)"
    using adds_run(1) [OF assms(1,2,4)] by (simp add: foldE_append)
  then show ?thesis by (simp add: adds_def)
qed

lemma merge_parts:
  assumes "leaves_ok leaf i J" "\<forall>js \<in> set jss. set js \<subseteq> J" "valid s"
  shows "foldE (\<lambda>p2 s. returned (am_merge agg s p2)) (map (\<lambda>js. adds leaf i js (am_zero agg)) jss) s
    = Inr (adds leaf i (concat jss) s)"
  using assms(2,3)
proof (induction jss arbitrary: s)
  case Nil
  then show ?case by (simp add: adds_def)
next
  case (Cons js jss)
  have js: "set js \<subseteq> J" "set (concat jss) \<subseteq> J" using Cons.prems by auto
  note r = adds_run [OF assms(1) js(1) Cons.prems(2)]
  show ?case using Cons.IH [of "adds leaf i js s"] Cons.prems(1) r adds_append [OF assms(1) js Cons.prems(2)] by simp
qed

lemma run_leaves_ok:
  assumes "foldE (add_tree agg leaf i) js s = Inr t" "valid s"
  shows "leaves_ok leaf i (set js)"
  using assms
proof (induction js arbitrary: s)
  case Nil
  then show ?case by (simp add: leaves_ok_def)
next
  case (Cons j js)
  then obtain s' where add: "add_tree agg leaf i j s = Inr s'" and rest: "foldE (add_tree agg leaf i) js s' = Inr t"
    by (auto simp: bindE_Inr_iff)
  from add obtain ws where ws: "leaf j i = Inr ws" "am_process agg s ws = Inr s'"
    by (auto simp: add_tree_def bindE_Inr_iff)
  have "ok ws" by (rule process_ok [OF Cons.prems(2) ws(2)])
  moreover have "valid s'" using process_returns [OF Cons.prems(2) \<open>ok ws\<close>] ws(2) by simp
  ultimately show ?case using Cons.IH [OF rest] ws(1) by (simp add: leaves_ok_def)
qed

lemma one_row_run:
  assumes "one_row agg leaf T has_label i rows = Inr out"
  shows "leaves_ok leaf i {..<T}" "finish agg has_label (adds leaf i [0..<T] (am_zero agg)) i rows = Inr out"
proof -
  obtain s where s: "foldE (add_tree agg leaf i) [0..<T] (am_zero agg) = Inr s" "finish agg has_label s i rows = Inr out"
    using assms by (auto simp: one_row_def bindE_Inr_iff)
  have "{..<T} = set [0..<T]" by auto
  then show "leaves_ok leaf i {..<T}" using run_leaves_ok [OF s(1) inv_zero] by simp
  show "finish agg has_label (adds leaf i [0..<T] (am_zero agg)) i rows = Inr out" using s by (simp add: adds_def)
qed

lemma one_row_eq:
  assumes "leaves_ok leaf i {..<T}"
  shows "one_row agg leaf T has_label i rows = finish agg has_label (adds leaf i [0..<T] (am_zero agg)) i rows"
proof -
  have "set [0..<T] \<subseteq> {..<T}" by auto
  then show ?thesis using adds_run(1) [OF assms _ inv_zero, of "[0..<T]"] by (simp add: one_row_def)
qed

lemma section_B_row:
  assumes tp: "tp = None \<or> runs_all (the tp)" and T: "T < 2 ^ 31" and r: "one_row agg leaf T has_label 0 rows = Inr out"
  shows "section_B tp agg leaf T has_label rows = Inr out"
proof -
  note ok = one_row_run [OF r]
  have "TryBatchParallelFor tp T (\<lambda>j scores. bindE (add_tree agg leaf 0 j (scores ! j)) (\<lambda>s. Inr (scores[j := s]))) 0
      (replicate T (am_zero agg)) = Inr (map (\<lambda>j. adds leaf 0 [j] (am_zero agg)) [0..<T])"
  proof (rule loop_fills_cells(2) [OF tp])
    fix j and t :: "'s list"
    assume j: "j < T" "length t = T" "t ! j = replicate T (am_zero agg) ! j"
    have "foldE (add_tree agg leaf 0) [j] (am_zero agg) = Inr (adds leaf 0 [j] (am_zero agg))"
      using adds_run(1) [OF ok(1) _ inv_zero, of "[j]"] j(1) by simp
    then show "bindE (add_tree agg leaf 0 j (t ! j)) (\<lambda>s. Inr (t[j := s])) = Inr (t[j := adds leaf 0 [j] (am_zero agg)])"
      using j by (auto simp: bindE_Inr_iff)
  qed simp
  moreover have "foldE (\<lambda>p2 s. returned (am_merge agg s p2)) (map (\<lambda>j. adds leaf 0 [j] (am_zero agg)) [0..<T]) (am_zero agg)
      = Inr (adds leaf 0 [0..<T] (am_zero agg))"
    using merge_parts [OF ok(1) _ inv_zero, of "map (\<lambda>j. [j]) [0..<T]"] by (simp add: comp_def)
  ultimately show ?thesis using ok(2) T by (simp add: section_B_def int32_def)
qed

lemma merge_batches:
  assumes ok: "leaves_ok leaf i {..<T}" and k: "0 < k"
  shows "foldE (\<lambda>p2 s. returned (am_merge agg s p2))
      (map (\<lambda>b. adds leaf i [batch_start b k T..<batch_start (Suc b) k T] (am_zero agg)) [1..<k])
      (adds leaf i [batch_start 0 k T..<batch_start (Suc 0) k T] (am_zero agg))
    = Inr (adds leaf i [0..<T] (am_zero agg))"
proof -
  let ?r = "\<lambda>b. [batch_start b k T..<batch_start (Suc b) k T]"
  have r: "set (?r b) \<subseteq> {..<T}" if "b < k" for b using that by (rule batch_within)
  have "foldE (\<lambda>p2 s. returned (am_merge agg s p2)) (map (\<lambda>js. adds leaf i js (am_zero agg)) (map ?r [1..<k])) (adds leaf i (?r 0) (am_zero agg))
      = Inr (adds leaf i (concat (map ?r [1..<k])) (adds leaf i (?r 0) (am_zero agg)))"
  proof (rule merge_parts [OF ok])
    show "valid (adds leaf i (?r 0) (am_zero agg))" using adds_run(2) [OF ok r inv_zero, of 0] k by blast
    show "\<forall>js \<in> set (map ?r [1..<k]). set js \<subseteq> {..<T}" using r by auto
  qed
  also have "adds leaf i (concat (map ?r [1..<k])) (adds leaf i (?r 0) (am_zero agg))
      = adds leaf i (?r 0 @ concat (map ?r [1..<k])) (am_zero agg)"
    by (rule adds_append [OF ok, symmetric]) (use r k inv_zero in fastforce)+
  also have "?r 0 @ concat (map ?r [1..<k]) = concat (map ?r [0..<k])"
    using k by (simp add: upt_conv_Cons)
  also have "\<dots> = [0..<T]" using k by (simp only: batches_concat batch_start_end)
  finally show ?thesis by (simp add: comp_def)
qed

end

context aggregator_laws
begin

lemma section_B2_row:
  assumes tp: "tp = None \<or> runs_all (the tp)" and T: "0 < T" "T < 2 ^ 31"
    and r: "one_row agg leaf T has_label 0 rows = Inr out"
  shows "section_B2 tp agg leaf T has_label rows = Inr out"
proof -
  note ok = one_row_run [OF r]
  define k where "k = min (degree tp) T"
  have k: "0 < k" using tp T by (auto simp: k_def degree_def runs_all_def split: option.splits)
  let ?r = "\<lambda>b. [batch_start b k T..<batch_start (Suc b) k T]"
  let ?g = "\<lambda>b. adds leaf 0 (?r b) (am_zero agg)"
  have "TrySimpleParallelFor tp k (\<lambda>b scores. case PartitionWork b k T of (start, end_) \<Rightarrow>
      bindE (foldE (add_tree agg leaf 0) [start..<end_] (am_zero agg)) (\<lambda>s. Inr (scores[b := s])))
      (replicate k (am_zero agg)) = Inr (map ?g [0..<k])"
  proof (rule loop_fills_cells(1) [OF tp])
    fix b and t :: "'s list"
    assume b: "b < k"
    have "foldE (add_tree agg leaf 0) (?r b) (am_zero agg) = Inr (?g b)"
      by (rule adds_run(1) [OF ok(1) batch_within [OF b] inv_zero])
    then show "(case PartitionWork b k T of (start, end_) \<Rightarrow>
        bindE (foldE (add_tree agg leaf 0) [start..<end_] (am_zero agg)) (\<lambda>s. Inr (t[b := s]))) = Inr (t[b := ?g b])"
      by (simp add: PartitionWork_eq)
  qed simp
  moreover have "vget (map ?g [0..<k]) 0 = Inr (?g 0)" using k by (simp add: vget_def)
  moreover have "drop 1 (map ?g [0..<k]) = map ?g [1..<k]" by (simp add: drop_map)
  moreover note merge_batches [OF ok(1) k]
  ultimately show ?thesis using ok(2) T unfolding section_B2_def int32_def Let_def k_def by simp
qed

lemma section_E_rows:
  assumes tp: "tp = None \<or> runs_all (the tp)" and N: "N < 2 ^ 31"
    and r: "foldE (one_row agg leaf T has_label) [0..<N] rows = Inr out"
  shows "section_E tp agg leaf T N has_label rows = Inr out"
    and "section_E2 tp agg leaf T N has_label rows = Inr out"
proof -
  show "section_E tp agg leaf T N has_label rows = Inr out"
    using local_loops(2) [OF one_row_local r tp] N by (simp add: section_E_def int32_def)
  show "section_E2 tp agg leaf T N has_label rows = Inr out"
  proof (cases "N = 0")
    case True
    then show ?thesis using r local_loops(1) [OF one_row_local r tp] tp
      by (auto simp: section_E2_def int32_def TrySimpleParallelFor_def runs_all_none split: option.splits)
  next
    case False
    then have "0 < min (degree tp) N" using tp by (auto simp: degree_def runs_all_def split: option.splits)
    then show ?thesis using local_loops(3) [OF one_row_local r tp] N by (simp add: section_E2_def int32_def Let_def)
  qed
qed

text \<open>One thread of section D adds its trees to its block of scores.\<close>

lemma add_tree_row:
  assumes ok: "\<And>i. i < N \<Longrightarrow> leaves_ok leaf i {..<T}" and j: "j < T"
    and s: "\<And>i. i < N \<Longrightarrow> valid (scores ! (o1 + i))" and len: "o1 + N \<le> length scores"
  shows "\<exists>t. tree_pass agg leaf N o1 j scores = Inr t
      \<and> length t = length scores \<and> (\<forall>i < N. t ! (o1 + i) = adds leaf i [j] (scores ! (o1 + i)))
      \<and> (\<forall>p. \<not> (o1 \<le> p \<and> p < o1 + N) \<longrightarrow> t ! p = scores ! p)"
proof -
  have "\<exists>t. tree_pass agg leaf N o1 j scores = Inr t
      \<and> length t = length scores \<and> (\<forall>i \<in> set [0..<N]. t ! (o1 + i) = adds leaf i [j] (scores ! (o1 + i)))
      \<and> (\<forall>p. p \<notin> (\<lambda>i. o1 + i) ` set [0..<N] \<longrightarrow> t ! p = scores ! p)"
    unfolding tree_pass_def
  proof (rule foldE_index)
    show "distinct (map (\<lambda>i. o1 + i) [0..<N])" by (simp add: distinct_map inj_on_def)
    show "o1 + i < length scores" if "i \<in> set [0..<N]" for i using that len by simp
  next
    fix i and t :: "'s list"
    assume i: "i \<in> set [0..<N]" and t: "length t = length scores" "t ! (o1 + i) = scores ! (o1 + i)"
    have "foldE (add_tree agg leaf i) [j] (scores ! (o1 + i)) = Inr (adds leaf i [j] (scores ! (o1 + i)))"
      by (rule adds_run(1) [OF ok]) (use i j s in auto)
    then have "add_tree agg leaf i j (scores ! (o1 + i)) = Inr (adds leaf i [j] (scores ! (o1 + i)))"
      by (cases "add_tree agg leaf i j (scores ! (o1 + i))") simp_all
    then show "bindE (returned (vget t (o1 + i))) (\<lambda>s. bindE (add_tree agg leaf i j s) (\<lambda>s. Inr (t[o1 + i := s])))
        = Inr (t[o1 + i := adds leaf i [j] (scores ! (o1 + i))])"
      using i t len by (simp add: vget_def)
  qed
  moreover have "p \<in> (\<lambda>i. o1 + i) ` set [0..<N] \<longleftrightarrow> o1 \<le> p \<and> p < o1 + N" for p
    using image_iff [of p "\<lambda>i. o1 + i" "set [0..<N]"] le_Suc_ex by fastforce
  ultimately show ?thesis by auto
qed

lemma add_trees_rows:
  assumes ok: "\<And>i. i < N \<Longrightarrow> leaves_ok leaf i {..<T}" and js: "set js \<subseteq> {..<T}"
    and s: "\<And>i. i < N \<Longrightarrow> valid (scores ! (o1 + i))" and len: "o1 + N \<le> length scores"
  shows "\<exists>t. foldE (tree_pass agg leaf N o1) js scores = Inr t
      \<and> length t = length scores \<and> (\<forall>i < N. t ! (o1 + i) = adds leaf i js (scores ! (o1 + i)))
      \<and> (\<forall>p. \<not> (o1 \<le> p \<and> p < o1 + N) \<longrightarrow> t ! p = scores ! p)"
  using js s len
proof (induction js arbitrary: scores)
  case Nil
  then show ?case by (simp add: adds_def)
next
  case (Cons j js)
  then have j: "j < T" "set js \<subseteq> {..<T}" by auto
  obtain t where t: "tree_pass agg leaf N o1 j scores = Inr t"
      "length t = length scores" "\<forall>i < N. t ! (o1 + i) = adds leaf i [j] (scores ! (o1 + i))"
      "\<forall>p. \<not> (o1 \<le> p \<and> p < o1 + N) \<longrightarrow> t ! p = scores ! p"
    using add_tree_row [of N leaf T j scores o1] ok j(1) Cons.prems(2,3) by blast
  have v: "valid (t ! (o1 + i))" if "i < N" for i
    using adds_run(2) [OF ok [OF that], of "[j]" "scores ! (o1 + i)"] Cons.prems(2) that t(3) j(1) by simp
  obtain t' where t': "foldE (tree_pass agg leaf N o1) js t = Inr t'"
      "length t' = length t" "\<forall>i < N. t' ! (o1 + i) = adds leaf i js (t ! (o1 + i))"
      "\<forall>p. \<not> (o1 \<le> p \<and> p < o1 + N) \<longrightarrow> t' ! p = t ! p"
    using Cons.IH [of t] j(2) v Cons.prems(3) t(2) by auto
  have "t' ! (o1 + i) = adds leaf i (j # js) (scores ! (o1 + i))" if "i < N" for i
    using t'(3) t(3) that adds_append [OF ok [OF that], of "[j]" js "scores ! (o1 + i)"] Cons.prems(2) j by simp
  with t t' show ?case by simp
qed

end

context aggregator_laws
begin

lemma trees_task_block:
  assumes ok: "\<And>i. i < N \<Longrightarrow> leaves_ok leaf i {..<T}" and b: "b < k" and len: "length scores = k * N"
  shows "\<exists>t. trees_task agg leaf k T N b scores = Inr t \<and> length t = k * N
    \<and> (\<forall>p < k * N. t ! p = (if b * N \<le> p \<and> p < b * N + N
         then adds leaf (p - b * N) [batch_start b k T..<batch_start (Suc b) k T] (am_zero agg) else scores ! p))"
proof -
  let ?o = "b * N"
  let ?r = "[batch_start b k T..<batch_start (Suc b) k T]"
  have room: "?o + N \<le> length scores" using b len mult_le_mono1 [of "Suc b" k N] by simp
  have "\<exists>t. foldE (\<lambda>i scores. returned (vset scores (?o + i) (am_zero agg))) [0..<N] scores = Inr t
      \<and> length t = length scores \<and> (\<forall>i \<in> set [0..<N]. t ! (?o + i) = am_zero agg)
      \<and> (\<forall>p. p \<notin> (\<lambda>i. ?o + i) ` set [0..<N] \<longrightarrow> t ! p = scores ! p)"
    by (rule foldE_index) (use room in \<open>auto simp: vset_def distinct_map inj_on_def\<close>)
  then obtain z where z: "foldE (\<lambda>i scores. returned (vset scores (?o + i) (am_zero agg))) [0..<N] scores = Inr z"
      "length z = length scores" "\<forall>i \<in> set [0..<N]. z ! (?o + i) = am_zero agg"
      "\<forall>p. p \<notin> (\<lambda>i. ?o + i) ` set [0..<N] \<longrightarrow> z ! p = scores ! p" by (elim exE conjE)
  have "\<exists>t. foldE (tree_pass agg leaf N ?o) ?r z = Inr t
      \<and> length t = length z \<and> (\<forall>i < N. t ! (?o + i) = adds leaf i ?r (z ! (?o + i)))
      \<and> (\<forall>p. \<not> (?o \<le> p \<and> p < ?o + N) \<longrightarrow> t ! p = z ! p)"
    by (rule add_trees_rows [OF ok batch_within [OF b]]) (use z(2,3) room inv_zero in auto)
  then obtain t where t: "foldE (tree_pass agg leaf N ?o) ?r z = Inr t"
      "length t = length z" "\<forall>i < N. t ! (?o + i) = adds leaf i ?r (z ! (?o + i))"
      "\<forall>p. \<not> (?o \<le> p \<and> p < ?o + N) \<longrightarrow> t ! p = z ! p" by (elim exE conjE)
  have "t ! p = (if ?o \<le> p \<and> p < ?o + N then adds leaf (p - ?o) ?r (am_zero agg) else scores ! p)" for p
  proof (cases "?o \<le> p \<and> p < ?o + N")
    case True
    then obtain i where "p = ?o + i" "i < N" by (metis add_less_cancel_left le_Suc_ex)
    then show ?thesis using t(3) z(3) by simp
  next
    case False
    then have "p \<notin> (\<lambda>i. ?o + i) ` set [0..<N]" by auto
    then have "z ! p = scores ! p" using z(4) by blast
    moreover have "t ! p = z ! p" using t(4) False by blast
    ultimately show ?thesis using False by (simp only: if_False)
  qed
  then show ?thesis using t(1,2) z(1,2) len by (simp add: trees_task_def PartitionWork_eq)
qed

text \<open>The scores of all threads after the first loop: block \<open>b\<close> holds the scores of the trees of thread \<open>b\<close>.\<close>

definition thread_scores :: "'v leaf_fun \<Rightarrow> nat \<Rightarrow> nat \<Rightarrow> nat \<Rightarrow> nat \<Rightarrow> 's" where
  "thread_scores leaf k T b i = adds leaf i [batch_start b k T..<batch_start (Suc b) k T] (am_zero agg)"

lemma thread_loop:
  assumes tp: "tp = None \<or> runs_all (the tp)" and ok: "\<And>i. i < N \<Longrightarrow> leaves_ok leaf i {..<T}"
  shows "\<exists>scores. TrySimpleParallelFor tp k (trees_task agg leaf k T N) (replicate (k * N) (am_zero agg)) = Inr scores
    \<and> length scores = k * N \<and> (\<forall>b < k. \<forall>i < N. scores ! (b * N + i) = thread_scores leaf k T b i)"
proof -
  obtain bs where bs: "mset bs = mset [0..<k]" "TrySimpleParallelFor tp k (trees_task agg leaf k T N) (replicate (k * N) (am_zero agg))
      = foldE (trees_task agg leaf k T N) bs (replicate (k * N) (am_zero agg))"
    using simple_loop_order [OF tp, of k "trees_task agg leaf k T N" "replicate (k * N) (am_zero agg)"] by (elim exE conjE)
  have set: "set bs = {0..<k}" using bs(1) mset_eq_setD by fastforce
  have "\<exists>t. foldE (trees_task agg leaf k T N) bs (replicate (k * N) (am_zero agg)) = Inr t \<and> length t = k * N
      \<and> (\<forall>p < k * N. t ! p = (if \<exists>b \<in> set bs. p \<in> {b * N..<b * N + N}
           then thread_scores leaf k T (p div N) (p mod N) else replicate (k * N) (am_zero agg) ! p))"
  proof (rule foldE_blocks)
    fix b and t :: "'s list"
    assume b: "b \<in> set bs" and len: "length t = k * N"
    have "b < k" using b set by simp
    have "p div N = b \<and> p mod N = p - b * N" if "b * N \<le> p" "p < b * N + N" for p
    proof -
      define i where "i = p - b * N"
      have i: "p = b * N + i" "i < N" using that by (simp_all add: i_def)
      have "(b * N + i) div N = b" "(b * N + i) mod N = i" using i(2) by simp_all
      then show ?thesis unfolding i(1) by simp
    qed
    then have cell: "thread_scores leaf k T (p div N) (p mod N)
        = adds leaf (p - b * N) [batch_start b k T..<batch_start (Suc b) k T] (am_zero agg)" if "p \<in> {b * N..<b * N + N}" for p
      using that by (simp add: thread_scores_def)
    have "\<exists>t'. trees_task agg leaf k T N b t = Inr t' \<and> length t' = k * N
        \<and> (\<forall>p < k * N. t' ! p = (if b * N \<le> p \<and> p < b * N + N
         then adds leaf (p - b * N) [batch_start b k T..<batch_start (Suc b) k T] (am_zero agg) else t ! p))"
      by (rule trees_task_block [OF _ \<open>b < k\<close> len]) (rule ok)
    then obtain t' where t': "trees_task agg leaf k T N b t = Inr t'" "length t' = k * N"
        "\<forall>p < k * N. t' ! p = (if b * N \<le> p \<and> p < b * N + N
         then adds leaf (p - b * N) [batch_start b k T..<batch_start (Suc b) k T] (am_zero agg) else t ! p)"
      by (elim exE conjE)
    have "t' ! p = (if p \<in> {b * N..<b * N + N} then thread_scores leaf k T (p div N) (p mod N) else t ! p)" if "p < k * N" for p
      using t'(3) that cell [of p] by (cases "b * N \<le> p \<and> p < b * N + N") (simp_all only: atLeastLessThan_iff if_True if_False simp_thms)
    then show "\<exists>t'. trees_task agg leaf k T N b t = Inr t' \<and> length t' = k * N \<and> (\<forall>p < k * N. t' ! p =
        (if p \<in> {b * N..<b * N + N} then thread_scores leaf k T (p div N) (p mod N) else t ! p))"
      using t'(1,2) by (intro exI [of _ t'] conjI allI impI)
  qed simp
  then obtain t where t: "foldE (trees_task agg leaf k T N) bs (replicate (k * N) (am_zero agg)) = Inr t" "length t = k * N"
      "\<forall>p < k * N. t ! p = (if \<exists>b \<in> set bs. p \<in> {b * N..<b * N + N}
           then thread_scores leaf k T (p div N) (p mod N) else replicate (k * N) (am_zero agg) ! p)" by (elim exE conjE)
  have "t ! (b * N + i) = thread_scores leaf k T b i" if b: "b < k" and i: "i < N" for b i
  proof -
    have "b * N + i < k * N" using mult_le_mono1 [of "Suc b" k N] b i by simp
    moreover have "\<exists>c \<in> set bs. b * N + i \<in> {c * N..<c * N + N}" using set b i by (intro bexI [of _ b]) auto
    ultimately show ?thesis using t(3) i by simp
  qed
  then show ?thesis using bs(2) t(1,2) by (intro exI [of _ t]) simp
qed

text \<open>Merging the scores of a row leaves those of the other rows and of the other threads alone.\<close>

lemma merge_row_scores:
  assumes js: "\<forall>j \<in> set js. 1 \<le> j \<and> j * N + i < length scores" and i: "i < N" "i < length scores"
    and m: "foldE (\<lambda>p2 s. returned (am_merge agg s p2)) (map (\<lambda>j. scores ! (j * N + i)) js) (scores ! i) = Inr u"
  shows "foldE (\<lambda>j scores. returned (bindE (vget scores i) (\<lambda>s. bindE (vget scores (j * N + i)) (\<lambda>s2.
      bindE (am_merge agg s s2) (\<lambda>s. Inr (scores[i := s])))))) js scores = Inr (scores[i := u])"
  using js i(2) m
proof (induction js arbitrary: scores)
  case Nil
  then have "u = scores ! i" by simp
  then show ?case by simp
next
  case (Cons j js)
  have away: "k * N + i \<noteq> i" if "1 \<le> k" for k using that i(1) by simp
  obtain v where v: "am_merge agg (scores ! i) (scores ! (j * N + i)) = Inr v"
      "foldE (\<lambda>p2 s. returned (am_merge agg s p2)) (map (\<lambda>j. scores ! (j * N + i)) js) v = Inr u"
    using Cons.prems(3) by (auto simp: bindE_Inr_iff)
  have "map (\<lambda>j. scores[i := v] ! (j * N + i)) js = map (\<lambda>j. scores ! (j * N + i)) js"
    using Cons.prems(1) away by (auto simp: nth_list_update_neq)
  then have m: "foldE (\<lambda>p2 s. returned (am_merge agg s p2)) (map (\<lambda>j. scores[i := v] ! (j * N + i)) js) (scores[i := v] ! i) = Inr u"
    using v(2) Cons.prems(2) by (simp only: nth_list_update_eq)
  have "foldE (\<lambda>j scores. returned (bindE (vget scores i) (\<lambda>s. bindE (vget scores (j * N + i)) (\<lambda>s2.
      bindE (am_merge agg s s2) (\<lambda>s. Inr (scores[i := s])))))) js (scores[i := v]) = Inr (scores[i := v, i := u])"
    by (rule Cons.IH [OF _ _ m]) (use Cons.prems(1,2) in auto)
  then show ?case using Cons.prems(1,2) v(1) by (simp add: vget_def)
qed

lemma merge_rows:
  assumes ok: "\<And>i. i < N \<Longrightarrow> leaves_ok leaf i {..<T}" and k: "0 < k"
    and "distinct is" "set is \<subseteq> {..<N}" "length scores = k * N"
    and "\<forall>i \<in> set is. \<forall>b < k. scores ! (b * N + i) = thread_scores leaf k T b i"
    and "foldE (one_row agg leaf T has_label) is rows = Inr out"
  shows "\<exists>scores'. foldE (merge_row agg k N has_label) is (scores, rows) = Inr (scores', out)"
  using assms(3-)
proof (induction "is" arbitrary: scores rows)
  case Nil
  then show ?case by simp
next
  case (Cons i "is")
  let ?u = "adds leaf i [0..<T] (am_zero agg)"
  have i: "i < N" using Cons.prems(2) by simp
  have blocks: "scores ! (b * N + i) = thread_scores leaf k T b i" if "b < k" for b using Cons.prems(4) that by simp
  have room: "b * N + i < length scores" if "b < k" for b using mult_le_mono1 [of "Suc b" k N] that i Cons.prems(3) by simp
  have "map (\<lambda>j. scores ! (j * N + i)) [1..<k] = map (\<lambda>b. thread_scores leaf k T b i) [1..<k]"
    using blocks by auto
  moreover have "scores ! i = thread_scores leaf k T 0 i" using blocks [OF k] by simp
  ultimately have "foldE (\<lambda>p2 s. returned (am_merge agg s p2)) (map (\<lambda>j. scores ! (j * N + i)) [1..<k]) (scores ! i) = Inr ?u"
    using merge_batches [OF ok [OF i] k] by (simp only: thread_scores_def)
  then have merged: "foldE (\<lambda>j scores. returned (bindE (vget scores i) (\<lambda>s. bindE (vget scores (j * N + i)) (\<lambda>s2.
      bindE (am_merge agg s s2) (\<lambda>s. Inr (scores[i := s])))))) [1..<k] scores = Inr (scores[i := ?u])"
    using merge_row_scores [of "[1..<k]" N i scores ?u] room [OF k] room i by simp
  obtain rows' where rows': "one_row agg leaf T has_label i rows = Inr rows'" "foldE (one_row agg leaf T has_label) is rows' = Inr out"
    using Cons.prems(5) by (auto simp: bindE_Inr_iff)
  have step: "merge_row agg k N has_label i (scores, rows) = Inr (scores[i := ?u], rows')"
    using merged room [OF k] rows'(1) one_row_eq [OF ok [OF i]] by (simp add: merge_row_def vget_def)
  have "\<exists>scores'. foldE (merge_row agg k N has_label) is (scores[i := ?u], rows') = Inr (scores', out)"
  proof (rule Cons.IH)
    show "\<forall>l \<in> set is. \<forall>b < k. scores[i := ?u] ! (b * N + l) = thread_scores leaf k T b l"
    proof (intro ballI allI impI)
      fix l b assume l: "l \<in> set is" and b: "b < k"
      have "l \<noteq> i" "l < N" using Cons.prems(1,2) l by auto
      then have "i \<noteq> b * N + l" using i by (metis add_0 mod_less mod_mult_self3 mult.commute)
      then show "scores[i := ?u] ! (b * N + l) = thread_scores leaf k T b l" using Cons.prems(4) l b by simp
    qed
  qed (use Cons.prems rows'(2) in auto)
  then show ?case using step by simp
qed

lemma section_D_rows:
  assumes tp: "tp = None \<or> runs_all (the tp)" and T: "0 < T" "T < 2 ^ 31"
    and r: "foldE (one_row agg leaf T has_label) [0..<N] rows = Inr out"
  shows "section_D tp agg leaf T N has_label rows = Inr out"
proof -
  define k where "k = min (degree tp) T"
  have k: "0 < k" using tp T by (auto simp: k_def degree_def runs_all_def split: option.splits)
  note rl = local_in_order [OF one_row_local r]
  have ok: "leaves_ok leaf i {..<T}" if "i < N" for i using rl one_row_run(1) that by blast
  have "\<exists>scores. TrySimpleParallelFor tp k (trees_task agg leaf k T N) (replicate (k * N) (am_zero agg)) = Inr scores
    \<and> length scores = k * N \<and> (\<forall>b < k. \<forall>i < N. scores ! (b * N + i) = thread_scores leaf k T b i)"
    by (rule thread_loop [OF tp]) (rule ok)
  then obtain scores where scores: "TrySimpleParallelFor tp k (trees_task agg leaf k T N) (replicate (k * N) (am_zero agg)) = Inr scores"
      "length scores = k * N" "\<forall>b < k. \<forall>i < N. scores ! (b * N + i) = thread_scores leaf k T b i"
    by (elim exE conjE)
  obtain order where order: "mset order = mset [0..<N]"
      "TrySimpleParallelFor tp k (batch_task k N (merge_row agg k N has_label)) (scores, rows)
        = foldE (merge_row agg k N has_label) order (scores, rows)"
    using simple_batches_order [OF tp k, of N "merge_row agg k N has_label" "(scores, rows)"] by (elim exE conjE)
  have "distinct order" using order(1) by (metis distinct_upt mset_eq_imp_distinct_iff)
  moreover have "set order = {..<N}" using order(1) mset_eq_setD by fastforce
  ultimately obtain scores' where "foldE (merge_row agg k N has_label) order (scores, rows) = Inr (scores', out)"
    using merge_rows [of N leaf T k order scores has_label rows out, OF ok k] scores(2,3) local_any_order [OF one_row_local r order(1)] by auto
  then show ?thesis using scores(1) order(2) T by (simp add: section_D_def int32_def Let_def k_def)
qed

end

section \<open>The reference: row by row, tree by tree\<close>

definition row_by_row :: "'v::linordered_field tree_ensemble \<Rightarrow> (node_mode \<Rightarrow> 'x \<Rightarrow> 'v \<Rightarrow> bool) \<Rightarrow> ('x \<Rightarrow> bool) \<Rightarrow>
    'x list \<times> nat list \<Rightarrow> 'v out_row list \<Rightarrow> bool \<Rightarrow> ('v, 'v score_value) agg_methods \<Rightarrow> ('v, 'v score_value list) agg_methods \<Rightarrow>
    'v out_row list run" where
  "row_by_row te cmp nan X rows has_label agg1 agg =
     bindE (returned (input_rows (snd X))) (\<lambda>(stride, N).
     let leaf = leaf_weights te cmp nan (fst X) stride; T = length (te_roots te) in
     if te_n_targets_or_classes te = 1 then foldE (one_row agg1 leaf T has_label) [0..<N] rows
     else foldE (one_row agg leaf T has_label) [0..<N] rows)"

definition tree_reference :: "'v::linordered_field math \<Rightarrow> 'v tree_ensemble \<Rightarrow> (node_mode \<Rightarrow> 'x \<Rightarrow> 'v \<Rightarrow> bool) \<Rightarrow> ('x \<Rightarrow> bool) \<Rightarrow>
    'x list \<times> nat list \<Rightarrow> 'v out_row list \<Rightarrow> bool \<Rightarrow> 'v out_row list run" where
  "tree_reference M te cmp nan X rows has_label =
     (let a = aggregator_of te; run = row_by_row te cmp nan X rows has_label in
      case te_aggregate_function te of
        AGG_AVERAGE \<Rightarrow> run (TreeAggregatorAverage1 M a) (TreeAggregatorAverage M a)
      | AGG_SUM \<Rightarrow> run (TreeAggregatorSum1 M a) (TreeAggregatorSum M a)
      | AGG_MIN \<Rightarrow> run (TreeAggregatorMin1 M a) (TreeAggregatorMin M a)
      | AGG_MAX \<Rightarrow> run (TreeAggregatorMax1 M a) (TreeAggregatorMax M a))"

definition classifier_reference :: "'v::linordered_field math \<Rightarrow> 'v tree_classifier \<Rightarrow> (node_mode \<Rightarrow> 'x \<Rightarrow> 'v \<Rightarrow> bool) \<Rightarrow> ('x \<Rightarrow> bool) \<Rightarrow>
    'x list \<times> nat list \<Rightarrow> 'v out_row list \<Rightarrow> int list \<Rightarrow> 'v out_row list run" where
  "classifier_reference M tc cmp nan X rows labels =
     (let te = tc_ensemble tc; a = aggregator_of te;
          c = \<lparr>ci_class_labels = labels, ci_binary_case = tc_binary_case tc, ci_weights_are_all_positive = tc_weights_are_all_positive tc\<rparr> in
      row_by_row te cmp nan X rows True (TreeAggregatorClassifier1 M a c) (TreeAggregatorClassifier M a c))"

lemma one_row_0: "foldE (one_row agg leaf T has_label) [0..<1] rows = Inr out \<longleftrightarrow> one_row agg leaf T has_label 0 rows = Inr out"
  by (cases "one_row agg leaf T has_label 0 rows") simp_all

lemma ComputeAgg_rows:
  assumes laws: "aggregator_laws agg1 ok1 valid1" "aggregator_laws agg ok valid"
    and tp: "tp = None \<or> runs_all (the tp)" and T: "te_roots te \<noteq> []" "length (te_roots te) < 2 ^ 31"
    and N: "list_all (\<lambda>d. d < 2 ^ 31) (snd X)"
    and r: "row_by_row te cmp nan X rows has_label agg1 agg = Inr out"
  shows "ComputeAgg te cmp nan tp X rows has_label agg1 agg = Inr out"
proof -
  obtain stride N where sN: "input_rows (snd X) = Inr (stride, N)" using r by (cases "input_rows (snd X)") (auto simp: row_by_row_def)
  have N: "N < 2 ^ 31"
    using sN N by (auto simp: input_rows_def vget_def list_all_length bindE_Inr_iff split: if_splits)
  define leaf where "leaf = leaf_weights te cmp nan (fst X) stride"
  define K where "K = length (te_roots te)"
  have K: "0 < K" "K < 2 ^ 31" using T by (simp_all add: K_def)
  have unfolded: "ComputeAgg te cmp nan tp X rows has_label agg1 agg =
     (if te_n_targets_or_classes te = 1 then
       if N = 1 then
         if int K \<le> te_parallel_tree te then one_row agg1 leaf K has_label 0 rows else section_B tp agg1 leaf K has_label rows
       else if int N \<le> te_parallel_N te then section_C agg1 leaf K N has_label rows
       else if K > degree tp then section_D tp agg1 leaf K N has_label rows
       else section_E tp agg1 leaf K N has_label rows
     else
       if N = 1 then
         if int K \<le> te_parallel_tree te then one_row agg leaf K has_label 0 rows else section_B2 tp agg leaf K has_label rows
       else if int N \<le> te_parallel_N te then section_C agg leaf K N has_label rows
       else if K \<ge> degree tp then section_D tp agg leaf K N has_label rows
       else section_E2 tp agg leaf K N has_label rows)"
    unfolding ComputeAgg_def sN returned_simps bindE_simps prod.case Let_def leaf_def K_def by (rule refl)
  show ?thesis
  proof (cases "te_n_targets_or_classes te = 1")
    case True
    then have r1: "foldE (one_row agg1 leaf K has_label) [0..<N] rows = Inr out"
      using r sN by (simp add: row_by_row_def Let_def leaf_def K_def)
    have "one_row agg1 leaf K has_label 0 rows = Inr out" if "N = 1" using r1 unfolding that one_row_0 .
    then show ?thesis
      using r1 aggregator_laws.section_B_row [OF laws(1) tp K(2)] aggregator_laws.section_D_rows [OF laws(1) tp K r1]
        aggregator_laws.section_E_rows(1) [OF laws(1) tp N r1]
      unfolding unfolded True section_C_def by (simp del: One_nat_def)
  next
    case False
    then have r1: "foldE (one_row agg leaf K has_label) [0..<N] rows = Inr out"
      using r sN by (simp add: row_by_row_def Let_def leaf_def K_def)
    have "one_row agg leaf K has_label 0 rows = Inr out" if "N = 1" using r1 unfolding that one_row_0 .
    with False show ?thesis
      using r1 aggregator_laws.section_B2_row [OF laws(2) tp K] aggregator_laws.section_D_rows [OF laws(2) tp K r1]
        aggregator_laws.section_E_rows(2) [OF laws(2) tp N r1]
      unfolding unfolded section_C_def by (simp del: One_nat_def)
  qed
qed

lemma tree_compute_rows:
  assumes "tp = None \<or> runs_all (the tp)" "te_roots te \<noteq> []" "length (te_roots te) < 2 ^ 31"
    and "list_all (\<lambda>d. d < 2 ^ 31) (snd X)" and r: "tree_reference M te cmp nan X rows has_label = Inr out"
  shows "tree_compute M te cmp nan tp X rows has_label = Inr out"
proof (cases "te_aggregate_function te")
  case AGG_AVERAGE
  then show ?thesis
    using ComputeAgg_rows [OF average1.aggregator_laws_axioms average.aggregator_laws_axioms assms(1-4)] r
    by (simp add: tree_compute_def tree_reference_def Let_def)
next
  case AGG_SUM
  then show ?thesis
    using ComputeAgg_rows [OF sum1.aggregator_laws_axioms sum.aggregator_laws_axioms assms(1-4)] r
    by (simp add: tree_compute_def tree_reference_def Let_def)
next
  case AGG_MIN
  then show ?thesis
    using ComputeAgg_rows [OF min1.aggregator_laws_axioms min.aggregator_laws_axioms assms(1-4)] r
    by (simp add: tree_compute_def tree_reference_def Let_def)
next
  case AGG_MAX
  then show ?thesis
    using ComputeAgg_rows [OF max1.aggregator_laws_axioms max.aggregator_laws_axioms assms(1-4)] r
    by (simp add: tree_compute_def tree_reference_def Let_def)
qed

lemma classifier_compute_rows:
  assumes "tp = None \<or> runs_all (the tp)" "te_roots (tc_ensemble tc) \<noteq> []" "length (te_roots (tc_ensemble tc)) < 2 ^ 31"
    and "list_all (\<lambda>d. d < 2 ^ 31) (snd X)"
    and r: "tc_classlabels_strings tc = []" "classifier_reference M tc cmp nan X rows (tc_classlabels_int64s tc) = Inr out"
  shows "classifier_compute M tc cmp nan tp X rows = Inr (out, [])"
  using ComputeAgg_rows [OF classifier1.aggregator_laws_axioms classifier.aggregator_laws_axioms assms(1-4)] r
  by (simp add: classifier_compute_def classifier_reference_def Let_def)


text \<open>Three trees that are leaves.\<close>

definition leaf_node :: "(int \<times> rat) list \<Rightarrow> rat tree_node" where
  "leaf_node ws = \<lparr>tn_id = (0, 0), tn_feature_id = 0, tn_value = 0, tn_hitrates = 0, tn_mode = LEAF, tn_truenode = None,
     tn_falsenode = None, tn_missing_tracks = kNone, tn_weights = ws, tn_is_not_leaf = False, tn_is_missing_track_true = False\<rparr>"

definition three_leaves :: "rat tree_ensemble" where
  "three_leaves = \<lparr>te_n_targets_or_classes = 1, te_base_values = [1 / 2], te_post_transform = T_NONE, te_aggregate_function = AGG_SUM,
     te_nodes = map leaf_node [[(0, 1)], [(0, 2)], [(0, 4)]], te_roots = [0, 1, 2], te_same_mode = True, te_has_missing_tracks = False,
     te_parallel_tree = 20, te_parallel_N = 1\<rparr>"

definition two_threads :: pool where
  "two_threads = \<lparr>pool_degree = 2, pool_order = (\<lambda>n. rev [0..<n])\<rparr>"

definition no_math :: "rat math" where
  "no_math = \<lparr>m_exp = (\<lambda>x. x), m_log = (\<lambda>x. x), m_sqrt = (\<lambda>x. x), m_lowest = 0\<rparr>"

lemma three_leaves_walk: "j < 3 \<Longrightarrow> leaf_weights three_leaves cmp nan X stride j i = Inr ([[(0, 1)], [(0, 2)], [(0, 4)]] ! j)"
  by (auto simp: leaf_weights_def three_leaves_def leaf_node_def ProcessTreeNodeLeave_def less_Suc_eq numeral_3_eq_3)

lemma three_leaves_rows: "tree_reference no_math three_leaves cmp nan (X, [2, 1]) [([0], 0), ([0], 0)] False
    = Inr [([15 / 2], 0), ([15 / 2], 0)]"
proof -
  have roots: "length (te_roots three_leaves) = 3" "te_n_targets_or_classes three_leaves = 1"
    "te_aggregate_function three_leaves = AGG_SUM" by (simp_all add: three_leaves_def)
  have a: "aggregator_of three_leaves = \<lparr>ag_n_trees = 3, ag_n_targets = 1, ag_post = T_NONE, ag_base_values = [1 / 2]\<rparr>"
    by (simp add: aggregator_of_def three_leaves_def)
  have "foldE (add_tree (TreeAggregatorSum1 no_math (aggregator_of three_leaves)) (leaf_weights three_leaves cmp nan X 1) i) [0..<3] no_score
      = Inr \<lparr>sv_score = 7, sv_has_score = False\<rparr>" for i
    by (simp add: numeral_3_eq_3 add_tree_def three_leaves_walk TreeAggregatorSum1_def sum_process1_def first_weight_def vget_def no_score_def)
  then show ?thesis
    by (simp add: tree_reference_def row_by_row_def roots input_rows_def vget_def Let_def one_row_def finish_def
        TreeAggregatorSum1_def sum_finalize1_def a ag_origin_def probit_or_score_def numeral_2_eq_2)
qed


section \<open>Base values\<close>

lemma write_scores_none: "2 \<le> length xs \<Longrightarrow> write_scores M xs T_NONE was = xs"
  by (simp add: write_scores_def)

text \<open>
  C38. With several targets and a base value for each, a target that no leaf has scored comes out
  as 0 and not as its base value, in a sum, an average, a minimum and a maximum alike: the methods add the base value to the
  score but leave it marked as missing. With one target the base value comes out.
\<close>

theorem base_value_lost_without_score:
  assumes n: "2 \<le> n" "length ps = n" "length (ag_base_values a) = n" "ag_n_targets a = int n" and post: "ag_post a = T_NONE"
  shows "sum_finalize M a ps
      = Inr (map2 (\<lambda>p b. if sv_has_score p then sv_score p + b else 0) ps (ag_base_values a), None)
    \<and> average_finalize M a ps
      = Inr (map2 (\<lambda>p b. if sv_has_score p then sv_score p / of_nat (ag_n_trees a) + b else 0) ps (ag_base_values a), None)
    \<and> finalize_base M a ps
      = Inr (map2 (\<lambda>p b. if sv_has_score p then b + sv_score p else 0) ps (ag_base_values a), None)
    \<and> sum_finalize1 M a' no_score = Inr ([probit_or_score M (ag_post a') (ag_origin a')], None)"
proof -
  have u: "ag_use_base_values a" using n by (simp add: ag_use_base_values_def)
  have sums: "map score_number (map2 (\<lambda>p b. p\<lparr>sv_score := f (sv_score p) b\<rparr>) ps (ag_base_values a))
      = map2 (\<lambda>p b. if sv_has_score p then f (sv_score p) b else 0) ps (ag_base_values a)" for f
    by (auto simp: score_number_def)
  have base: "map score_number (map (\<lambda>jt. let it = ps ! jt;
          val = (if ag_use_base_values a then ag_base_values a ! jt else 0) + (if sv_has_score it then sv_score it else 0)
        in it\<lparr>sv_score := val\<rparr>) [0..<length ps])
      = map2 (\<lambda>p b. if sv_has_score p then b + sv_score p else 0) ps (ag_base_values a)"
    by (rule nth_equalityI) (use n u in \<open>auto simp: score_number_def Let_def\<close>)
  have "sum_finalize M a ps
      = Inr (map2 (\<lambda>p b. if sv_has_score p then sv_score p + b else 0) ps (ag_base_values a), None)"
    using n by (simp add: sum_finalize_def u add_base_def post sums write_scores_none del: map_map list.map_comp)
  moreover have "average_finalize M a ps
      = Inr (map2 (\<lambda>p b. if sv_has_score p then sv_score p / of_nat (ag_n_trees a) + b else 0) ps (ag_base_values a), None)"
    using n sums [of "\<lambda>s b. s / of_nat (ag_n_trees a) + b"]
    by (simp add: average_finalize_def u add_base_def enforce_def post write_scores_none del: map_map list.map_comp)
  moreover have "finalize_base M a ps
      = Inr (map2 (\<lambda>p b. if sv_has_score p then b + sv_score p else 0) ps (ag_base_values a), None)"
    unfolding finalize_base_def base Let_def using n post base [unfolded Let_def] by (simp add: enforce_def write_scores_none)
  moreover have "sum_finalize1 M a' no_score = Inr ([probit_or_score M (ag_post a') (ag_origin a')], None)"
    by (simp add: sum_finalize1_def no_score_def)
  ultimately show ?thesis by (intro conjI)
qed

theorem base_value_lost_without_score_witness:
  "sum_finalize no_math \<lparr>ag_n_trees = 1, ag_n_targets = 2, ag_post = T_NONE, ag_base_values = [10, 20]\<rparr> [score_of 1, no_score]
     = Inr ([11, 0], None)"
  using base_value_lost_without_score [of 2 "[score_of 1, no_score]"
      "\<lparr>ag_n_trees = 1, ag_n_targets = 2, ag_post = T_NONE, ag_base_values = [10, 20]\<rparr>" no_math
      "\<lparr>ag_n_trees = 1, ag_n_targets = 1, ag_post = T_NONE, ag_base_values = [10]\<rparr>"]
  by (simp add: score_of_def no_score_def)

end
