(* ===== verification/JniEnums.thy ===== *)
theory JniEnums
  imports Prelude Complex_Main
begin

text \<open>
  The conversions of java/src/main/native/OrtJniUtil.c that need no call into the JVM or the
  runtime: numeric codes of the Java enums, element sizes, half-precision to single
  precision. The C enums (onnxruntime_c_api.h) are datatypes with the enumerators as
  constructors, in the header's order; a \<open>jint\<close> is an integer. The \<open>default\<close> branch of a
  switch over a C enum is not reachable from an enumerator.
\<close>

unbundle bit_operations_syntax

section \<open>The enums of onnxruntime_c_api.h\<close>

datatype OrtLoggingLevel =
    ORT_LOGGING_LEVEL_VERBOSE | ORT_LOGGING_LEVEL_INFO | ORT_LOGGING_LEVEL_WARNING
  | ORT_LOGGING_LEVEL_ERROR | ORT_LOGGING_LEVEL_FATAL

datatype GraphOptimizationLevel =
    ORT_DISABLE_ALL | ORT_ENABLE_BASIC | ORT_ENABLE_EXTENDED | ORT_ENABLE_ALL

datatype ExecutionMode = ORT_SEQUENTIAL | ORT_PARALLEL

datatype ONNXType =
    ONNX_TYPE_UNKNOWN | ONNX_TYPE_TENSOR | ONNX_TYPE_SEQUENCE | ONNX_TYPE_MAP
  | ONNX_TYPE_OPAQUE | ONNX_TYPE_SPARSETENSOR

datatype ONNXTensorElementDataType =
    ELT_UNDEFINED | ELT_FLOAT | ELT_UINT8 | ELT_INT8 | ELT_UINT16 | ELT_INT16 | ELT_INT32
  | ELT_INT64 | ELT_STRING | ELT_BOOL | ELT_FLOAT16 | ELT_DOUBLE | ELT_UINT32 | ELT_UINT64
  | ELT_COMPLEX64 | ELT_COMPLEX128 | ELT_BFLOAT16

datatype OrtErrorCode =
    ORT_OK | ORT_FAIL | ORT_INVALID_ARGUMENT | ORT_NO_SUCHFILE | ORT_NO_MODEL | ORT_ENGINE_ERROR
  | ORT_RUNTIME_EXCEPTION | ORT_INVALID_PROTOBUF | ORT_MODEL_LOADED | ORT_NOT_IMPLEMENTED
  | ORT_INVALID_GRAPH | ORT_EP_FAIL

section \<open>Conversions of OrtJniUtil.c\<close>

definition convertLoggingLevel :: "int \<Rightarrow> OrtLoggingLevel" where
  "convertLoggingLevel level =
     (if level = 0 then ORT_LOGGING_LEVEL_VERBOSE
      else if level = 1 then ORT_LOGGING_LEVEL_INFO
      else if level = 2 then ORT_LOGGING_LEVEL_WARNING
      else if level = 3 then ORT_LOGGING_LEVEL_ERROR
      else if level = 4 then ORT_LOGGING_LEVEL_FATAL
      else ORT_LOGGING_LEVEL_VERBOSE)"

definition convertOptimizationLevel :: "int \<Rightarrow> GraphOptimizationLevel" where
  "convertOptimizationLevel level =
     (if level = 0 then ORT_DISABLE_ALL
      else if level = 1 then ORT_ENABLE_BASIC
      else if level = 2 then ORT_ENABLE_EXTENDED
      else if level = 99 then ORT_ENABLE_ALL
      else ORT_DISABLE_ALL)"

definition convertExecutionMode :: "int \<Rightarrow> ExecutionMode" where
  "convertExecutionMode mode =
     (if mode = 0 then ORT_SEQUENTIAL else if mode = 1 then ORT_PARALLEL else ORT_SEQUENTIAL)"

fun convertFromONNXDataFormat :: "ONNXTensorElementDataType \<Rightarrow> int" where
  "convertFromONNXDataFormat ELT_UNDEFINED = 0"
| "convertFromONNXDataFormat ELT_UINT8 = 1"
| "convertFromONNXDataFormat ELT_INT8 = 2"
| "convertFromONNXDataFormat ELT_UINT16 = 3"
| "convertFromONNXDataFormat ELT_INT16 = 4"
| "convertFromONNXDataFormat ELT_UINT32 = 5"
| "convertFromONNXDataFormat ELT_INT32 = 6"
| "convertFromONNXDataFormat ELT_UINT64 = 7"
| "convertFromONNXDataFormat ELT_INT64 = 8"
| "convertFromONNXDataFormat ELT_FLOAT16 = 9"
| "convertFromONNXDataFormat ELT_FLOAT = 10"
| "convertFromONNXDataFormat ELT_DOUBLE = 11"
| "convertFromONNXDataFormat ELT_STRING = 12"
| "convertFromONNXDataFormat ELT_BOOL = 13"
| "convertFromONNXDataFormat ELT_COMPLEX64 = 14"
| "convertFromONNXDataFormat ELT_COMPLEX128 = 15"
| "convertFromONNXDataFormat ELT_BFLOAT16 = 16"

definition convertToONNXDataFormat :: "int \<Rightarrow> ONNXTensorElementDataType" where
  "convertToONNXDataFormat type =
     (if type = 0 then ELT_UNDEFINED
      else if type = 1 then ELT_UINT8
      else if type = 2 then ELT_INT8
      else if type = 3 then ELT_UINT16
      else if type = 4 then ELT_INT16
      else if type = 5 then ELT_UINT32
      else if type = 6 then ELT_INT32
      else if type = 7 then ELT_UINT64
      else if type = 8 then ELT_INT64
      else if type = 9 then ELT_FLOAT16
      else if type = 10 then ELT_FLOAT
      else if type = 11 then ELT_DOUBLE
      else if type = 12 then ELT_STRING
      else if type = 13 then ELT_BOOL
      else if type = 14 then ELT_COMPLEX64
      else if type = 15 then ELT_COMPLEX128
      else if type = 16 then ELT_BFLOAT16
      else ELT_UNDEFINED)"

fun onnxTypeSize :: "ONNXTensorElementDataType \<Rightarrow> nat" where
  "onnxTypeSize ELT_UINT8 = 1"
| "onnxTypeSize ELT_INT8 = 1"
| "onnxTypeSize ELT_BOOL = 1"
| "onnxTypeSize ELT_UINT16 = 2"
| "onnxTypeSize ELT_INT16 = 2"
| "onnxTypeSize ELT_FLOAT16 = 2"
| "onnxTypeSize ELT_UINT32 = 4"
| "onnxTypeSize ELT_INT32 = 4"
| "onnxTypeSize ELT_FLOAT = 4"
| "onnxTypeSize ELT_UINT64 = 8"
| "onnxTypeSize ELT_INT64 = 8"
| "onnxTypeSize ELT_DOUBLE = 8"
| "onnxTypeSize _ = 0"

fun convertErrorCode :: "OrtErrorCode \<Rightarrow> int" where
  "convertErrorCode ORT_OK = 0"
| "convertErrorCode ORT_FAIL = 1"
| "convertErrorCode ORT_INVALID_ARGUMENT = 2"
| "convertErrorCode ORT_NO_SUCHFILE = 3"
| "convertErrorCode ORT_NO_MODEL = 4"
| "convertErrorCode ORT_ENGINE_ERROR = 5"
| "convertErrorCode ORT_RUNTIME_EXCEPTION = 6"
| "convertErrorCode ORT_INVALID_PROTOBUF = 7"
| "convertErrorCode ORT_MODEL_LOADED = 8"
| "convertErrorCode ORT_NOT_IMPLEMENTED = 9"
| "convertErrorCode ORT_INVALID_GRAPH = 10"
| "convertErrorCode ORT_EP_FAIL = 11"

text \<open>\<open>convertHalfToFloat\<close>: the bits of the result, on the 32 bits of an \<open>int\<close>.\<close>

definition convertHalfToFloat :: "16 word \<Rightarrow> 32 word" where
  "convertHalfToFloat half =
     (let h = (ucast half :: 32 word) in
      push_bit 16 (h AND 0x8000) OR push_bit 13 ((h AND 0x7c00) + 0x1C000)
        OR push_bit 13 (h AND 0x03FF))"

section \<open>The codes lose nothing\<close>

interpretation elt: lossless convertFromONNXDataFormat convertToONNXDataFormat
proof
  show "convertToONNXDataFormat (convertFromONNXDataFormat x) = x" for x
    by (cases x) (simp_all add: convertToONNXDataFormat_def)
qed

text \<open>
  The numeric codes of the element types: converting to a code and back gives the type, two
  types never share a code, and exactly the codes 0 to 16 survive the other direction.
\<close>

theorem element_type_codes:
  "convertToONNXDataFormat (convertFromONNXDataFormat t) = t \<and>
   (0 \<le> c \<and> c \<le> 16 \<longleftrightarrow> convertFromONNXDataFormat (convertToONNXDataFormat c) = c) \<and>
   (convertFromONNXDataFormat t = convertFromONNXDataFormat u \<longleftrightarrow> t = u)"
proof (intro conjI)
  show "convertToONNXDataFormat (convertFromONNXDataFormat t) = t" by (rule elt.decode_encode)
  show "convertFromONNXDataFormat t = convertFromONNXDataFormat u \<longleftrightarrow> t = u"
    using elt.encode_inj by blast
  have "0 \<le> c \<and> c \<le> 16 \<longleftrightarrow> c \<in> {0, 1, 2, 3, 4, 5, 6, 7, 8, 9, 10, 11, 12, 13, 14, 15, 16}"
    unfolding insert_iff empty_iff by presburger
  then show "0 \<le> c \<and> c \<le> 16 \<longleftrightarrow> convertFromONNXDataFormat (convertToONNXDataFormat c) = c"
    by (auto simp: convertToONNXDataFormat_def split: if_splits)
qed

section \<open>What the bits denote\<close>

text \<open>The value of a binary16 and of a binary32 bit pattern; \<open>None\<close> for infinities and NaNs.\<close>

definition half_exp :: "16 word \<Rightarrow> nat" where "half_exp h = unat (take_bit 5 (drop_bit 10 h))"
definition half_man :: "16 word \<Rightarrow> nat" where "half_man h = unat (take_bit 10 h)"
definition half_sign :: "16 word \<Rightarrow> rat" where "half_sign h = (if bit h 15 then - 1 else 1)"

definition half_value :: "16 word \<Rightarrow> rat option" where
  "half_value h =
     (if half_exp h = 31 then None
      else if half_exp h = 0 then Some (half_sign h * (of_nat (half_man h) / 2 ^ 24))
      else Some (half_sign h * ((1024 + of_nat (half_man h)) * 2 ^ half_exp h / 2 ^ 25)))"

definition float_value :: "32 word \<Rightarrow> rat option" where
  "float_value w =
     (let e = unat (take_bit 8 (drop_bit 23 w)); m = of_nat (unat (take_bit 23 w));
          s = (if bit w 31 then - 1 else 1)
      in if e = 255 then None
         else if e = 0 then Some (s * (m / 2 ^ 149))
         else Some (s * ((2 ^ 23 + m) * 2 ^ e / 2 ^ 150)))"

lemma half_fields: "half_exp h < 32" "half_man h < 1024"
  by (simp_all add: half_exp_def half_man_def unsigned_take_bit_eq take_bit_nat_less_exp [of 5, simplified]
      take_bit_nat_less_exp [of 10, simplified])


lemma masks:
  "(0x8000 :: 32 word) = push_bit 15 1" "(0x7c00 :: 32 word) = push_bit 10 (mask 5)"
  "(0x03FF :: 32 word) = mask 10" "(0x1C000 :: 32 word) = push_bit 10 112"
  by (simp_all add: mask_eq_exp_minus_1 push_bit_eq_mult)

definition exp_word :: "16 word \<Rightarrow> 32 word" where
  "exp_word h = ucast (take_bit 5 (drop_bit 10 h)) + 112"

lemma unat_exp_word: "unat (exp_word h) = half_exp h + 112"
proof -
  have "unat (ucast (take_bit 5 (drop_bit 10 h)) :: 32 word) = half_exp h"
    by (simp add: half_exp_def unsigned_ucast_eq unsigned_take_bit_eq)
  then show ?thesis using half_fields(1) [of h]
    by (simp add: exp_word_def unat_add_lem [THEN iffD1])
qed

lemma exp_word_bits: "bit (exp_word h) n \<Longrightarrow> n < 8"
proof -
  assume b: "bit (exp_word h) n"
  have "take_bit 8 (exp_word h) = exp_word h"
    using half_fields(1) [of h] by (simp add: take_bit_eq_mod word_unat_eq_iff unat_mod unat_exp_word)
  with b show ?thesis by (metis bit_take_bit_iff)
qed

lemma conv_form:
  "convertHalfToFloat h =
     push_bit 31 (ucast (drop_bit 15 h)) OR push_bit 23 (exp_word h) OR push_bit 13 (ucast (take_bit 10 h))"
proof -
  have "ucast h AND push_bit 15 1 = push_bit 15 (ucast (drop_bit 15 h) :: 32 word)"
  proof (rule bit_word_eqI)
    fix n assume "n < LENGTH(32)"
    have "bit (push_bit k 1 :: 32 word) n \<longleftrightarrow> k = n" for k
      using \<open>n < LENGTH(32)\<close> by (auto simp: bit_exp_iff)
    then have one: "bit (push_bit 15 1 :: 32 word) n \<longleftrightarrow> 15 = n" .
    have h: "bit h m \<Longrightarrow> m < 16" for m using bit_imp_le_length [of h m] by simp
    show "bit (ucast h AND push_bit 15 1 :: 32 word) n =
        bit (push_bit 15 (ucast (drop_bit 15 h)) :: 32 word) n"
      unfolding bit_and_iff one by (auto simp: bit_simps dest: h)
  qed
  then have s: "push_bit 16 (ucast h AND 0x8000) = push_bit 31 (ucast (drop_bit 15 h) :: 32 word)"
    unfolding masks(1) by simp
  have e: "(ucast h AND 0x7c00) + 0x1C000 = push_bit 10 (exp_word h)"
  proof -
    have "ucast h AND push_bit 10 (mask 5) = push_bit 10 (ucast (take_bit 5 (drop_bit 10 h)) :: 32 word)"
    proof (rule bit_word_eqI)
      fix n assume n: "n < LENGTH(32)"
      have "bit (push_bit j (mask k) :: 32 word) n \<longleftrightarrow> j \<le> n \<and> n < j + k" for j k
        using n by (auto simp: bit_push_bit_iff bit_mask_iff)
      then have pm: "bit (push_bit 10 (mask 5) :: 32 word) n \<longleftrightarrow> 10 \<le> n \<and> n < 10 + 5" .
      show "bit (ucast h AND push_bit 10 (mask 5) :: 32 word) n =
          bit (push_bit 10 (ucast (take_bit 5 (drop_bit 10 h))) :: 32 word) n"
        unfolding bit_and_iff pm using n by (cases "10 \<le> n"; cases "n < 15") (auto simp: bit_simps)
    qed
    then have "ucast h AND 0x7c00 = push_bit 10 (ucast (take_bit 5 (drop_bit 10 h)) :: 32 word)"
      unfolding masks(2) .
    then show ?thesis unfolding exp_word_def masks(4) by (simp only: push_bit_add)
  qed
  have m: "ucast h AND 0x03FF = (ucast (take_bit 10 h) :: 32 word)"
    unfolding masks(3) by (simp add: unsigned_take_bit_eq flip: take_bit_eq_mask)
  show ?thesis unfolding convertHalfToFloat_def Let_def s e m by simp
qed

lemma conv_fields:
  "unat (take_bit 23 (convertHalfToFloat h)) = half_man h * 2 ^ 13"
  "unat (take_bit 8 (drop_bit 23 (convertHalfToFloat h))) = half_exp h + 112"
  "bit (convertHalfToFloat h) 31 = bit h 15"
proof -
  have "take_bit 23 (convertHalfToFloat h) = push_bit 13 (ucast (take_bit 10 h))"
    by (rule bit_word_eqI) (auto simp: conv_form bit_simps)
  moreover have "unat (push_bit 13 (ucast (take_bit 10 h) :: 32 word)) = half_man h * 2 ^ 13"
  proof -
    have "unat (ucast (take_bit 10 h) :: 32 word) = half_man h"
      by (simp add: half_man_def unsigned_ucast_eq unsigned_take_bit_eq)
    then have "unat (push_bit 13 (ucast (take_bit 10 h) :: 32 word)) = (2 ^ 13 * half_man h) mod 2 ^ 32"
      by (simp add: push_bit_eq_mult unat_word_ariths mult.commute)
    also have "\<dots> = half_man h * 2 ^ 13" using half_fields(2) [of h] by simp
    finally show ?thesis .
  qed
  ultimately show "unat (take_bit 23 (convertHalfToFloat h)) = half_man h * 2 ^ 13" by simp
  have "take_bit 8 (drop_bit 23 (convertHalfToFloat h)) = exp_word h"
    by (rule bit_word_eqI) (auto simp: conv_form bit_simps dest: exp_word_bits)
  then show "unat (take_bit 8 (drop_bit 23 (convertHalfToFloat h))) = half_exp h + 112"
    by (simp add: unat_exp_word)
  show "bit (convertHalfToFloat h) 31 = bit h 15"
    by (auto simp: conv_form bit_simps dest: exp_word_bits)
qed

text \<open>
  \<open>convertHalfToFloat\<close>: the bits computed always denote the finite number
  \<open>(1024 + m) * 2 ^ (e - 25)\<close> with the sign of the half, so the result has the value of
  the half exactly for the normal numbers; zero, subnormal numbers, infinities and NaNs
  are converted to something else.
\<close>

theorem half_to_float:
  "float_value (convertHalfToFloat h) =
     Some (half_sign h * ((1024 + of_nat (half_man h)) * 2 ^ half_exp h / 2 ^ 25)) \<and>
   (float_value (convertHalfToFloat h) = half_value h \<longleftrightarrow> half_exp h \<noteq> 0 \<and> half_exp h \<noteq> 31)"
proof -
  let ?v = "half_sign h * ((1024 + of_nat (half_man h)) * 2 ^ half_exp h / 2 ^ 25) :: rat"
  have "float_value (convertHalfToFloat h) =
      Some (half_sign h * ((2 ^ 23 + of_nat (half_man h * 2 ^ 13)) * 2 ^ (half_exp h + 112) / 2 ^ 150))"
    using half_fields(1) [of h] by (simp add: float_value_def conv_fields half_sign_def)
  also have "(2 ^ 23 + of_nat (half_man h * 2 ^ 13)) * 2 ^ (half_exp h + 112) / 2 ^ 150
      = (1024 + of_nat (half_man h)) * 2 ^ half_exp h / (2 ^ 25 :: rat)"
    by (simp add: power_add field_simps)
  finally have v: "float_value (convertHalfToFloat h) = Some ?v" .
  have "half_man h < 1024" by (rule half_fields)
  then have "of_nat (half_man h) / 2 ^ 24 \<noteq> (1024 + of_nat (half_man h)) * 1 / (2 ^ 25 :: rat)"
    by (simp add: field_simps)
  then show ?thesis unfolding v by (auto simp: half_value_def half_sign_def)
qed

theorem half_zero: "half_value 0 = Some 0 \<and> float_value (convertHalfToFloat 0) = Some (1 / 2 ^ 15)"
  using half_to_float [of 0] by (simp add: half_value_def half_exp_def half_man_def half_sign_def)

end
