(* ===== verification/JavaArrays.thy ===== *)
theory JavaArrays
  imports JniEnums
begin

text \<open>
  Copying between Java arrays and tensor memory (copyJavaToTensor, copyTensorToJava and
  their one-dimensional cases in java/src/main/native/OrtJniUtil.c). A primitive Java
  array is its element kind with the bytes of its elements, an array of arrays is a tree;
  an array that occurs twice inside another is not represented (the Java side allocates
  each row separately). A tensor pointer is an offset into the tensor's bytes. \<open>thrown\<close> is the
  code of the pending Java exception; a JNI call other than the release of a reference is
  undefined while an exception is pending, as are an access outside the tensor's memory
  and a region call on an array of another kind.
\<close>

section \<open>Java arrays and the call state\<close>

datatype jkind = JByte | JShort | JInt | JLong | JFloat | JDouble | JBoolean

datatype jarray = JPrim jkind "8 word list" | JObjs "jarray list" | JNullRef

fun jsize :: "jkind \<Rightarrow> nat" where
  "jsize JByte = 1"
| "jsize JBoolean = 1"
| "jsize JShort = 2"
| "jsize JInt = 4"
| "jsize JFloat = 4"
| "jsize JLong = 8"
| "jsize JDouble = 8"

record copy_state =
  tensor :: "8 word list"
  thrown :: "int option"

definition throw_ort :: "OrtErrorCode \<Rightarrow> copy_state \<Rightarrow> copy_state res" where
  "throw_ort code st =
     (if thrown st = None then Inr (st\<lparr>thrown := Some (convertErrorCode code)\<rparr>) else Inl Undefined)"

definition GetArrayLength :: "jarray \<Rightarrow> copy_state \<Rightarrow> nat res" where
  "GetArrayLength arr st =
     (if thrown st \<noteq> None then Inl Undefined
      else case arr of JPrim k bs \<Rightarrow> Inr (length bs div jsize k) | JObjs xs \<Rightarrow> Inr (length xs)
           | JNullRef \<Rightarrow> Inl Undefined)"

text \<open>The kind of the Java array that the copy routines use for an element type.\<close>

fun java_kind :: "ONNXTensorElementDataType \<Rightarrow> jkind option" where
  "java_kind ELT_UINT8 = Some JByte"
| "java_kind ELT_INT8 = Some JByte"
| "java_kind ELT_UINT16 = Some JShort"
| "java_kind ELT_INT16 = Some JShort"
| "java_kind ELT_UINT32 = Some JInt"
| "java_kind ELT_INT32 = Some JInt"
| "java_kind ELT_UINT64 = Some JLong"
| "java_kind ELT_INT64 = Some JLong"
| "java_kind ELT_FLOAT = Some JFloat"
| "java_kind ELT_DOUBLE = Some JDouble"
| "java_kind ELT_BOOL = Some JBoolean"
| "java_kind _ = None"

text \<open>\<open>Get<Kind>ArrayRegion\<close> over the whole array into the tensor at \<open>off\<close>, and its inverse.\<close>

definition get_region :: "jkind \<Rightarrow> jarray \<Rightarrow> nat \<Rightarrow> copy_state \<Rightarrow> copy_state res" where
  "get_region k arr off st =
     (case arr of
        JPrim k' bs \<Rightarrow>
          if k = k' \<and> off + length bs \<le> length (tensor st)
          then Inr (st\<lparr>tensor := take off (tensor st) @ bs @ drop (off + length bs) (tensor st)\<rparr>)
          else Inl Undefined
      | _ \<Rightarrow> Inl Undefined)"

definition set_region :: "jkind \<Rightarrow> jarray \<Rightarrow> nat \<Rightarrow> copy_state \<Rightarrow> jarray res" where
  "set_region k arr off st =
     (case arr of
        JPrim k' bs \<Rightarrow>
          if k = k' \<and> off + length bs \<le> length (tensor st)
          then Inr (JPrim k (take (length bs) (drop off (tensor st))))
          else Inl Undefined
      | _ \<Rightarrow> Inl Undefined)"

section \<open>Java to tensor\<close>

definition copyJavaToPrimitiveArray ::
  "ONNXTensorElementDataType \<Rightarrow> jarray \<Rightarrow> nat \<Rightarrow> copy_state \<Rightarrow> (nat \<times> copy_state) res" where
  "copyJavaToPrimitiveArray onnxType input off st =
     bindE (GetArrayLength input st) (\<lambda>inputLength.
     let consumedSize = inputLength * onnxTypeSize onnxType in
     case java_kind onnxType of
       Some k \<Rightarrow> bindE (get_region k input off st) (\<lambda>st'. Inr (consumedSize, st'))
     | None \<Rightarrow>
         bindE (throw_ort (if onnxType = ELT_FLOAT16 \<or> onnxType = ELT_STRING
                           then ORT_NOT_IMPLEMENTED else ORT_INVALID_ARGUMENT) st)
           (\<lambda>st'. Inr (0, st')))"

text \<open>
  The recursion over the dimensions; the count of remaining dimensions is a \<open>uint32_t\<close>,
  and the parameter \<open>tensorSize\<close> is passed on but never used.
\<close>

fun copyJavaToTensor ::
    "ONNXTensorElementDataType \<Rightarrow> 32 word \<Rightarrow> jarray \<Rightarrow> nat \<Rightarrow> copy_state \<Rightarrow> (nat \<times> copy_state) res"
and copyJavaRows ::
    "ONNXTensorElementDataType \<Rightarrow> 32 word \<Rightarrow> jarray list \<Rightarrow> nat \<Rightarrow> nat \<Rightarrow> copy_state \<Rightarrow>
     (nat \<times> copy_state) res"
where
  "copyJavaToTensor ty dimensionsRemaining input off st =
     (if dimensionsRemaining = 1 then copyJavaToPrimitiveArray ty input off st
      else bindE (GetArrayLength input st) (\<lambda>_.
        case input of
          JObjs xs \<Rightarrow> copyJavaRows ty (dimensionsRemaining - 1) xs off 0 st
        | _ \<Rightarrow> Inl Undefined))"
| "copyJavaRows ty dims [] off sizeConsumed st = Inr (sizeConsumed, st)"
| "copyJavaRows ty dims (childArr # xs) off sizeConsumed st =
     (if thrown st \<noteq> None then Inl Undefined
      else bindE (copyJavaToTensor ty dims childArr (off + sizeConsumed) st) (\<lambda>(n, st').
        copyJavaRows ty dims xs off (sizeConsumed + n) st'))"

section \<open>Tensor to Java\<close>

text \<open>16-bit floats are converted element by element; memory is little-endian.\<close>

definition half_at :: "8 word list \<Rightarrow> nat \<Rightarrow> 16 word" where
  "half_at m p = ucast (m ! p) OR push_bit 8 (ucast (m ! (p + 1)))"

definition float_bytes :: "32 word \<Rightarrow> 8 word list" where
  "float_bytes w = map (\<lambda>i. ucast (drop_bit (8 * i) w)) [0..<4]"

definition copyPrimitiveArrayToJava ::
  "ONNXTensorElementDataType \<Rightarrow> jarray \<Rightarrow> nat \<Rightarrow> copy_state \<Rightarrow> (nat \<times> jarray \<times> copy_state) res"
where
  "copyPrimitiveArrayToJava onnxType output off st =
     bindE (GetArrayLength output st) (\<lambda>outputLength.
     let consumedSize = outputLength * onnxTypeSize onnxType in
     if onnxType = ELT_FLOAT16 then
       (case output of
          JPrim JFloat bs \<Rightarrow>
            if off + consumedSize \<le> length (tensor st)
            then Inr (consumedSize,
                   JPrim JFloat (concat (map (\<lambda>i. float_bytes
                      (convertHalfToFloat (half_at (tensor st) (off + 2 * i)))) [0..<outputLength])), st)
            else Inl Undefined
        | _ \<Rightarrow> Inl Undefined)
     else case java_kind onnxType of
       Some k \<Rightarrow> bindE (set_region k output off st) (\<lambda>out'. Inr (consumedSize, out', st))
     | None \<Rightarrow> bindE (throw_ort ORT_NOT_IMPLEMENTED st) (\<lambda>st'. Inr (0, output, st')))"

fun copyTensorToJava ::
    "ONNXTensorElementDataType \<Rightarrow> 32 word \<Rightarrow> jarray \<Rightarrow> nat \<Rightarrow> copy_state \<Rightarrow>
     (nat \<times> jarray \<times> copy_state) res"
and copyTensorRows ::
    "ONNXTensorElementDataType \<Rightarrow> 32 word \<Rightarrow> jarray list \<Rightarrow> nat \<Rightarrow> nat \<Rightarrow> copy_state \<Rightarrow>
     (nat \<times> jarray list \<times> copy_state) res"
where
  "copyTensorToJava ty dimensionsRemaining output off st =
     (if dimensionsRemaining = 1 then copyPrimitiveArrayToJava ty output off st
      else bindE (GetArrayLength output st) (\<lambda>_.
        case output of
          JObjs xs \<Rightarrow> bindE (copyTensorRows ty (dimensionsRemaining - 1) xs off 0 st)
                       (\<lambda>(n, xs', st'). Inr (n, JObjs xs', st'))
        | _ \<Rightarrow> Inl Undefined))"
| "copyTensorRows ty dims [] off sizeConsumed st = Inr (sizeConsumed, [], st)"
| "copyTensorRows ty dims (childArr # xs) off sizeConsumed st =
     (if thrown st \<noteq> None then Inl Undefined
      else bindE (copyTensorToJava ty dims childArr (off + sizeConsumed) st) (\<lambda>(n, child', st').
        bindE (copyTensorRows ty dims xs off (sizeConsumed + n) st') (\<lambda>(m, xs', st'').
        Inr (m, child' # xs', st''))))"

section \<open>Rectangular arrays\<close>

fun flatten :: "jarray \<Rightarrow> 8 word list" where
  "flatten (JPrim k bs) = bs"
| "flatten (JObjs xs) = concat (map flatten xs)"
| "flatten JNullRef = []"

fun has_shape :: "jkind \<Rightarrow> nat list \<Rightarrow> jarray \<Rightarrow> bool" where
  "has_shape k [n] (JPrim k' bs) \<longleftrightarrow> k' = k \<and> length bs = n * jsize k"
| "has_shape k (n # d # ds) (JObjs xs) \<longleftrightarrow> length xs = n \<and> (\<forall>x \<in> set xs. has_shape k (d # ds) x)"
| "has_shape _ _ _ \<longleftrightarrow> False"

lemma jsize_pos [simp]: "0 < jsize k"
  by (cases k) auto

lemma java_kind_size: "java_kind ty = Some k \<Longrightarrow> jsize k = onnxTypeSize ty"
  by (cases ty) auto

lemma has_shape_length: "has_shape k ds arr \<Longrightarrow> length (flatten arr) = prod_list ds * jsize k"
proof (induction k ds arr rule: has_shape.induct)
  case (2 k n d ds xs)
  then have "\<forall>x \<in> set xs. length (flatten x) = prod_list (d # ds) * jsize k" by auto
  then have "sum_list (map (length \<circ> flatten) xs) = sum_list (map (\<lambda>_. prod_list (d # ds) * jsize k) xs)"
    by (intro arg_cong [where f = sum_list] map_cong) auto
  also have "\<dots> = length xs * (prod_list (d # ds) * jsize k)" by (simp add: sum_list_triv)
  finally show ?case using 2 by (simp add: length_concat comp_def mult.assoc)
qed auto

definition put_bytes :: "nat \<Rightarrow> 8 word list \<Rightarrow> 8 word list \<Rightarrow> 8 word list" where
  "put_bytes off bs m = take off m @ bs @ drop (off + length bs) m"

lemma length_put_bytes [simp]: "off + length bs \<le> length m \<Longrightarrow> length (put_bytes off bs m) = length m"
  by (simp add: put_bytes_def)

lemma put_bytes_append:
  "off + length xs + length ys \<le> length m \<Longrightarrow>
    put_bytes (off + length xs) ys (put_bytes off xs m) = put_bytes off (xs @ ys) m"
  by (simp add: put_bytes_def ac_simps)

lemma put_bytes_read:
  "off + length bs \<le> length m \<Longrightarrow> take (length bs) (drop off (put_bytes off bs m)) = bs"
  by (simp add: put_bytes_def)

lemma put_bytes_Nil [simp]: "put_bytes off [] m = m"
  by (simp add: put_bytes_def)


lemma dims_word:
  assumes "Suc n < 2 ^ 32"
  shows "(of_nat (Suc n) :: 32 word) - 1 = of_nat n" "(of_nat (Suc n) :: 32 word) = 1 \<longleftrightarrow> n = 0"
proof -
  show "(of_nat (Suc n) :: 32 word) - 1 = of_nat n" by simp
  have "unat (of_nat n :: 32 word) = n" using assms by (simp add: unat_of_nat take_bit_eq_mod)
  then show "(of_nat (Suc n) :: 32 word) = 1 \<longleftrightarrow> n = 0" by auto
qed

lemma has_shape_Cons:
  "has_shape k (n # ds) arr \<longleftrightarrow>
    (if ds = [] then \<exists>bs. arr = JPrim k bs \<and> length bs = n * jsize k
     else \<exists>xs. arr = JObjs xs \<and> length xs = n \<and> (\<forall>x \<in> set xs. has_shape k ds x))"
  by (cases ds; cases arr) auto

text \<open>A row copier that is right on every row is right on the list of rows.\<close>

lemma copyJavaRows_ok:
  assumes "\<And>x off st. x \<in> set xs \<Longrightarrow> thrown st = None \<Longrightarrow>
      off + length (flatten x) \<le> length (tensor st) \<Longrightarrow>
      copyJavaToTensor ty dims x off st =
        Inr (length (flatten x), st\<lparr>tensor := put_bytes off (flatten x) (tensor st)\<rparr>)"
    and "thrown st = None" "off + c + length (concat (map flatten xs)) \<le> length (tensor st)"
  shows "copyJavaRows ty dims xs off c st = Inr (c + length (concat (map flatten xs)),
    st\<lparr>tensor := put_bytes (off + c) (concat (map flatten xs)) (tensor st)\<rparr>)"
  using assms
proof (induction xs arbitrary: c st)
  case Nil
  then show ?case by simp
next
  case (Cons x xs)
  let ?f = "flatten x" and ?r = "concat (map flatten xs)"
  let ?st = "st\<lparr>tensor := put_bytes (off + c) ?f (tensor st)\<rparr>"
  have room: "off + c + length ?f + length ?r \<le> length (tensor st)" using Cons.prems(3) by simp
  have hd: "copyJavaToTensor ty dims x (off + c) st = Inr (length ?f, ?st)"
    using Cons.prems(1) [of x st "off + c"] Cons.prems(2) room by simp
  have tl: "copyJavaRows ty dims xs off (c + length ?f) ?st =
      Inr (c + length ?f + length ?r,
        ?st\<lparr>tensor := put_bytes (off + (c + length ?f)) ?r (tensor ?st)\<rparr>)"
    using Cons.prems room by (intro Cons.IH) auto
  have "put_bytes (off + (c + length ?f)) ?r (put_bytes (off + c) ?f (tensor st)) =
      put_bytes (off + c) (?f @ ?r) (tensor st)"
    using put_bytes_append [OF room] by (simp add: add.assoc)
  then show ?case using hd tl Cons.prems(2) by (simp add: add.assoc)
qed

lemma copyJavaToTensor_shape:
  assumes ty: "java_kind ty = Some k"
  shows "has_shape k ds arr \<Longrightarrow> length ds < 2 ^ 32 \<Longrightarrow> thrown st = None \<Longrightarrow>
    off + length (flatten arr) \<le> length (tensor st) \<Longrightarrow>
    copyJavaToTensor ty (of_nat (length ds)) arr off st =
      Inr (length (flatten arr), st\<lparr>tensor := put_bytes off (flatten arr) (tensor st)\<rparr>)"
proof (induction ds arbitrary: arr off st)
  case Nil
  then show ?case by simp
next
  case (Cons n ds)
  note w = dims_word [of "length ds"]
  show ?case
  proof (cases "ds = []")
    case True
    then obtain bs where "arr = JPrim k bs" "length bs = n * jsize k"
      using Cons.prems(1) by (auto simp: has_shape_Cons)
    then show ?thesis using True Cons.prems ty java_kind_size [OF ty]
      by (simp add: copyJavaToPrimitiveArray_def GetArrayLength_def get_region_def put_bytes_def Let_def)
  next
    case False
    then obtain xs where xs: "arr = JObjs xs" "\<forall>x \<in> set xs. has_shape k ds x"
      using Cons.prems(1) by (auto simp: has_shape_Cons)
    have "copyJavaRows ty (of_nat (length ds)) xs off 0 st = Inr (0 + length (concat (map flatten xs)),
        st\<lparr>tensor := put_bytes (off + 0) (concat (map flatten xs)) (tensor st)\<rparr>)"
    proof (rule copyJavaRows_ok)
      fix x off and st :: copy_state
      assume "x \<in> set xs" "thrown st = None" "off + length (flatten x) \<le> length (tensor st)"
      then show "copyJavaToTensor ty (of_nat (length ds)) x off st =
          Inr (length (flatten x), st\<lparr>tensor := put_bytes off (flatten x) (tensor st)\<rparr>)"
        using xs(2) Cons.prems(2) by (intro Cons.IH) auto
    qed (use Cons.prems xs in auto)
    then show ?thesis using w Cons.prems(2,3) False xs(1)
      by (subst copyJavaToTensor.simps) (simp add: GetArrayLength_def del: of_nat_Suc copyJavaToTensor.simps)
  qed
qed

lemma copyTensorRows_ok:
  assumes "\<And>x off. x \<in> set xs \<Longrightarrow> off + prod_list ds * jsize k \<le> length (tensor st) \<Longrightarrow>
      \<exists>x'. copyTensorToJava ty dims x off st = Inr (prod_list ds * jsize k, x', st) \<and>
        has_shape k ds x' \<and> flatten x' = take (prod_list ds * jsize k) (drop off (tensor st))"
    and "thrown st = None" "off + c + length xs * (prod_list ds * jsize k) \<le> length (tensor st)"
  shows "\<exists>xs'. copyTensorRows ty dims xs off c st =
      Inr (c + length xs * (prod_list ds * jsize k), xs', st) \<and> length xs' = length xs \<and>
      (\<forall>x \<in> set xs'. has_shape k ds x) \<and>
      concat (map flatten xs') = take (length xs * (prod_list ds * jsize k)) (drop (off + c) (tensor st))"
  using assms
proof (induction xs arbitrary: c)
  case Nil
  then show ?case by simp
next
  case (Cons x xs)
  let ?n = "prod_list ds * jsize k"
  have room: "off + c + ?n + length xs * ?n \<le> length (tensor st)" using Cons.prems(3) by (simp add: add.assoc)
  obtain x' where x': "copyTensorToJava ty dims x (off + c) st = Inr (?n, x', st)" "has_shape k ds x'"
    "flatten x' = take ?n (drop (off + c) (tensor st))"
    using Cons.prems(1) [of x "off + c"] room by auto
  obtain xs' where xs': "copyTensorRows ty dims xs off (c + ?n) st = Inr (c + ?n + length xs * ?n, xs', st)"
    "length xs' = length xs" "\<forall>x \<in> set xs'. has_shape k ds x"
    "concat (map flatten xs') = take (length xs * ?n) (drop (off + (c + ?n)) (tensor st))"
    using Cons.IH [of "c + ?n"] Cons.prems(1,2) room by (auto simp: add.assoc)
  have "take ?n (drop (off + c) (tensor st)) @ take (length xs * ?n) (drop (off + (c + ?n)) (tensor st)) =
      take (?n + length xs * ?n) (drop (off + c) (tensor st))"
    by (simp add: take_add ac_simps)
  then show ?case using x' xs' Cons.prems(2) by (auto simp: add.assoc)
qed

lemma copyTensorToJava_shape:
  assumes ty: "java_kind ty = Some k" and nt: "thrown st = None"
  shows "has_shape k ds arr \<Longrightarrow> length ds < 2 ^ 32 \<Longrightarrow>
    off + prod_list ds * jsize k \<le> length (tensor st) \<Longrightarrow>
    \<exists>arr'. copyTensorToJava ty (of_nat (length ds)) arr off st = Inr (prod_list ds * jsize k, arr', st) \<and>
      has_shape k ds arr' \<and> flatten arr' = take (prod_list ds * jsize k) (drop off (tensor st))"
proof (induction ds arbitrary: arr off)
  case Nil
  then show ?case by simp
next
  case (Cons n ds)
  note w = dims_word [of "length ds"]
  show ?case
  proof (cases "ds = []")
    case True
    then obtain bs where "arr = JPrim k bs" "length bs = n * jsize k"
      using Cons.prems(1) by (auto simp: has_shape_Cons)
    moreover have "ty \<noteq> ELT_FLOAT16" using ty by auto
    ultimately show ?thesis using True Cons.prems ty java_kind_size [OF ty] nt
      by (simp add: copyPrimitiveArrayToJava_def GetArrayLength_def set_region_def Let_def)
  next
    case False
    then obtain xs where xs: "arr = JObjs xs" "length xs = n" "\<forall>x \<in> set xs. has_shape k ds x"
      using Cons.prems(1) by (auto simp: has_shape_Cons)
    have "\<exists>xs'. copyTensorRows ty (of_nat (length ds)) xs off 0 st =
        Inr (0 + length xs * (prod_list ds * jsize k), xs', st) \<and> length xs' = length xs \<and>
      (\<forall>x \<in> set xs'. has_shape k ds x) \<and>
      concat (map flatten xs') = take (length xs * (prod_list ds * jsize k)) (drop (off + 0) (tensor st))"
    proof (rule copyTensorRows_ok)
      fix x off assume "x \<in> set xs" "off + prod_list ds * jsize k \<le> length (tensor st)"
      then show "\<exists>x'. copyTensorToJava ty (of_nat (length ds)) x off st = Inr (prod_list ds * jsize k, x', st) \<and>
        has_shape k ds x' \<and> flatten x' = take (prod_list ds * jsize k) (drop off (tensor st))"
        using xs(3) Cons.prems(2) by (intro Cons.IH) auto
    qed (use Cons.prems(3) xs(2) nt in \<open>auto simp: mult.assoc\<close>)
    then obtain xs' where "copyTensorRows ty (of_nat (length ds)) xs off 0 st =
        Inr (n * (prod_list ds * jsize k), xs', st)" "length xs' = n" "\<forall>x \<in> set xs'. has_shape k ds x"
      "concat (map flatten xs') = take (n * (prod_list ds * jsize k)) (drop off (tensor st))"
      using xs(2) by auto
    then show ?thesis using w Cons.prems(2) False xs(1) nt
      by (subst copyTensorToJava.simps)
        (simp add: GetArrayLength_def has_shape_Cons mult.assoc del: of_nat_Suc copyTensorToJava.simps)
  qed
qed

text \<open>Arrays of one shape with the same bytes are the same array.\<close>

lemma flatten_inj:
  "has_shape k ds x \<Longrightarrow> has_shape k ds y \<Longrightarrow> flatten x = flatten y \<Longrightarrow> x = y"
proof (induction ds arbitrary: x y)
  case Nil
  then show ?case by simp
next
  case (Cons n ds)
  note IH = Cons.IH
  show ?case
  proof (cases "ds = []")
    case True
    then show ?thesis using Cons.prems by (auto simp: has_shape_Cons)
  next
    case False
    then obtain xs ys where o: "x = JObjs xs" "y = JObjs ys" "length xs = length ys"
      "\<forall>x \<in> set xs. has_shape k ds x" "\<forall>y \<in> set ys. has_shape k ds y"
      using Cons.prems by (auto simp: has_shape_Cons)
    have "concat (map flatten xs) = concat (map flatten ys)" using Cons.prems(3) o by simp
    with o(3-5) have "xs = ys"
    proof (induction xs ys rule: list_induct2)
      case (Cons x xs y ys)
      then have "length (flatten x) = length (flatten y)"
        using has_shape_length [of k ds x] has_shape_length [of k ds y] by simp
      with Cons.prems(3) have "flatten x = flatten y" "concat (map flatten xs) = concat (map flatten ys)"
        by (auto simp: append_eq_append_conv)
      moreover have "x = y"
        using Cons.prems by (intro IH [OF _ _ \<open>flatten x = flatten y\<close>]) simp_all
      ultimately show ?case using Cons.IH Cons.prems by simp
    qed simp
    then show ?thesis using o by simp
  qed
qed


declare copyJavaToTensor.simps [simp del] copyTensorToJava.simps [simp del]

section \<open>Properties\<close>

text \<open>
  A rectangular Java array of the element type's kind, of any number of dimensions, is
  written to the tensor in row-major order without a gap, exactly into the
  \<open>prod ds * size\<close> bytes from the offset on, and this number of bytes is returned.
\<close>

theorem java_tensor_copy:
  assumes "java_kind ty = Some k" "has_shape k ds arr" "length ds < 2 ^ 32" "thrown st = None"
    and "off + prod_list ds * onnxTypeSize ty \<le> length (tensor st)"
  shows "copyJavaToTensor ty (of_nat (length ds)) arr off st =
      Inr (prod_list ds * onnxTypeSize ty, st\<lparr>tensor := take off (tensor st) @ flatten arr @
        drop (off + prod_list ds * onnxTypeSize ty) (tensor st)\<rparr>)"
  using copyJavaToTensor_shape [OF assms(1-4), of off] assms(5) has_shape_length [OF assms(2)]
    java_kind_size [OF assms(1)]
  by (simp add: put_bytes_def)

text \<open>
  C6. What was copied into a tensor is copied back: for every element type with a Java array
  kind, copying an array in and then out into any array of the same shape gives the array
  that went in, reports the same number of bytes, and leaves the tensor as it was written.
\<close>

theorem java_tensor_roundtrip:
  assumes ty: "java_kind ty = Some k" and arr: "has_shape k ds arr" and dst: "has_shape k ds arr0"
    and len: "length ds < 2 ^ 32" and nt: "thrown st = None"
    and room: "off + prod_list ds * onnxTypeSize ty \<le> length (tensor st)"
  shows "bindE (copyJavaToTensor ty (of_nat (length ds)) arr off st) (\<lambda>(n, st').
      copyTensorToJava ty (of_nat (length ds)) arr0 off st') =
    Inr (prod_list ds * onnxTypeSize ty, arr,
      st\<lparr>tensor := put_bytes off (flatten arr) (tensor st)\<rparr>)"
proof -
  let ?n = "prod_list ds * onnxTypeSize ty"
  let ?st = "st\<lparr>tensor := put_bytes off (flatten arr) (tensor st)\<rparr>"
  have sz: "jsize k = onnxTypeSize ty" by (rule java_kind_size [OF ty])
  have fl: "length (flatten arr) = ?n" using has_shape_length [OF arr] sz by simp
  have cpy: "copyJavaToTensor ty (of_nat (length ds)) arr off st = Inr (?n, ?st)"
    using copyJavaToTensor_shape [OF ty arr len nt, of off] room fl by simp
  obtain arr' where bk: "copyTensorToJava ty (of_nat (length ds)) arr0 off ?st = Inr (?n, arr', ?st)"
    "has_shape k ds arr'" "flatten arr' = take ?n (drop off (tensor ?st))"
    using copyTensorToJava_shape [OF ty _ dst len, of ?st off] nt room fl sz by auto
  have "flatten arr' = flatten arr" using bk(3) put_bytes_read [of off "flatten arr" "tensor st"] room fl by simp
  then have "arr' = arr" using flatten_inj [OF bk(2) arr] by simp
  then show ?thesis using cpy bk(1) by simp
qed

text \<open>
  An element type without a Java array kind makes the one-dimensional copy throw the Java
  exception with the mapped code and report zero bytes. With two dimensions and at least
  two rows the loop then calls into the JVM although the exception is pending.
\<close>

theorem java_copy_unsupported:
  assumes "java_kind ty = None" "thrown st = None" "bs = replicate (n * jsize k) 0"
  shows "copyJavaToTensor ty 1 (JPrim k bs) off st = Inr (0, st\<lparr>thrown := Some (convertErrorCode
      (if ty = ELT_FLOAT16 \<or> ty = ELT_STRING then ORT_NOT_IMPLEMENTED else ORT_INVALID_ARGUMENT))\<rparr>) \<and>
    copyJavaToTensor ty 2 (JObjs [JPrim k bs, x]) off st = Inl Undefined"
proof -
  have w: "(2 :: 32 word) \<noteq> 1" "(2 :: 32 word) - 1 = 1" by simp_all
  show ?thesis using assms
    by (simp add: copyJavaToTensor.simps copyJavaToPrimitiveArray_def GetArrayLength_def throw_ort_def w)
qed

text \<open>
  No size is checked: an array that is larger than the tensor is written past its end.
\<close>

lemma java_copy_overrun:
  assumes "java_kind ty = Some k" "length bs = n * jsize k" "length (tensor st) < off + length bs"
    "thrown st = None"
  shows "copyJavaToTensor ty 1 (JPrim k bs) off st = Inl Undefined"
  using assms
  by (simp add: copyJavaToTensor.simps copyJavaToPrimitiveArray_def GetArrayLength_def get_region_def Let_def)

section \<open>Concrete inputs\<close>

definition rows22 :: jarray where
  "rows22 = JObjs [JPrim JShort [1, 0, 2, 0], JPrim JShort [3, 0, 4, 0]]"

lemma rows22_shape: "has_shape JShort [2, 2] rows22"
  by (simp add: rows22_def)

lemma dims2: "(of_nat (length [2 :: nat, 2]) :: 32 word) = 2"
  by simp

theorem java_tensor_copy_witness:
  "copyJavaToTensor ELT_INT16 2 rows22 1 \<lparr>tensor = replicate 10 9, thrown = None\<rparr> =
     Inr (8, \<lparr>tensor = [9, 1, 0, 2, 0, 3, 0, 4, 0, 9], thrown = None\<rparr>)"
proof -
  let ?st = "\<lparr>tensor = replicate 10 9, thrown = None\<rparr>"
  have r: "replicate 10 (9 :: 8 word) = [9, 9, 9, 9, 9, 9, 9, 9, 9, 9]" by (simp add: eval_nat_numeral)
  have "copyJavaToTensor ELT_INT16 2 rows22 1 ?st =
      Inr (prod_list [2, 2] * onnxTypeSize ELT_INT16, ?st\<lparr>tensor := take 1 (tensor ?st) @ flatten rows22 @
        drop (1 + prod_list [2, 2] * onnxTypeSize ELT_INT16) (tensor ?st)\<rparr>)"
    by (rule java_tensor_copy [where ds = "[2, 2]" and k = JShort, unfolded dims2])
      (simp_all add: rows22_shape)
  then show ?thesis by (simp add: rows22_def r)
qed

theorem java_tensor_roundtrip_witness:
  "bindE (copyJavaToTensor ELT_INT16 2 rows22 0 \<lparr>tensor = replicate 8 9, thrown = None\<rparr>)
     (\<lambda>(n, st'). copyTensorToJava ELT_INT16 2
        (JObjs [JPrim JShort [0, 0, 0, 0], JPrim JShort [0, 0, 0, 0]]) 0 st') =
   Inr (8, rows22, \<lparr>tensor = flatten rows22, thrown = None\<rparr>)"
proof -
  let ?st = "\<lparr>tensor = replicate 8 9, thrown = None\<rparr>"
  have "bindE (copyJavaToTensor ELT_INT16 2 rows22 0 ?st) (\<lambda>(n, st'). copyTensorToJava ELT_INT16 2
        (JObjs [JPrim JShort [0, 0, 0, 0], JPrim JShort [0, 0, 0, 0]]) 0 st') =
      Inr (prod_list [2, 2] * onnxTypeSize ELT_INT16, rows22,
        ?st\<lparr>tensor := put_bytes 0 (flatten rows22) (tensor ?st)\<rparr>)"
    by (rule java_tensor_roundtrip [where ds = "[2, 2]" and k = JShort, unfolded dims2])
      (simp_all add: rows22_shape)
  then show ?thesis by (simp add: put_bytes_def rows22_def)
qed

theorem java_copy_unsupported_witness:
  "copyJavaToTensor ELT_FLOAT16 2 (JObjs [JPrim JFloat [0, 0, 0, 0], JNullRef]) 0
     \<lparr>tensor = [9, 9], thrown = None\<rparr> = Inl Undefined"
  using java_copy_unsupported [where ty = ELT_FLOAT16 and st = "\<lparr>tensor = [9, 9], thrown = None\<rparr>"
      and bs = "[0, 0, 0, 0]" and n = 1 and k = JFloat and x = JNullRef and off = 0]
  by (simp add: eval_nat_numeral)

end
