(* ===== verification/JniBase.thy ===== *)
theory JniBase
  imports JniEnums "HOL-Library.State_Monad"
begin

text \<open>
  The calls that the Java bindings (java/src/main/native) make into the runtime's C API, the
  JVM and the C library. None of the three is in the sources as C code, so their
  answers are a parameter \<open>E\<close> (type \<open>env\<close>): the answer to a call may depend on everything
  called before. A C function is a computation in the state monad over the list of calls
  made so far; its \<open>do\<close> block follows the C text statement by statement. An answer is a
  status, which only the API functions with result \<open>OrtStatus*\<close> have (it is dropped for
  the others), and a list of values: the output parameters (which are whatever \<open>E\<close>
  says after a failure, as the C variables are then uninitialised) or the returned value.
  Handles and integers are values of \<open>jval\<close>.

  Two kinds of lemmas follow: \<open>net\<close> counts calls by weight (what is acquired against what
  is released), and the locale \<open>ledger\<close> says how the error path contributes to a count.
\<close>

datatype jval = JNULL | JInt int | JPtr nat | JCStr string

text \<open>
  The functions called. A \<open>Take\<close> function hands out a handle of the given kind, which its
  caller then owns, as its first output; a \<open>Give\<close> function takes one back. The allocator
  also owns the names and metadata strings an API call allocates with it.
\<close>

datatype resource =
    R_TypeInfo | R_ShapeInfo | R_Value | R_Alloc | R_Chars | R_Elements | R_Session | R_Options
  | R_RunOptions | R_Env | R_Metadata | R_Providers

datatype cfun = Take resource string | Give resource string | ReleaseStatus | Plain string

abbreviation GetMapValueType :: cfun where "GetMapValueType \<equiv> Take R_TypeInfo ''GetMapValueType''"
abbreviation GetSequenceElementType :: cfun where "GetSequenceElementType \<equiv> Take R_TypeInfo ''GetSequenceElementType''"
abbreviation SessionGetInputTypeInfo :: cfun where "SessionGetInputTypeInfo \<equiv> Take R_TypeInfo ''SessionGetInputTypeInfo''"
abbreviation SessionGetOutputTypeInfo :: cfun where "SessionGetOutputTypeInfo \<equiv> Take R_TypeInfo ''SessionGetOutputTypeInfo''"
abbreviation GetTensorTypeAndShape :: cfun where "GetTensorTypeAndShape \<equiv> Take R_ShapeInfo ''GetTensorTypeAndShape''"
abbreviation GetValue :: cfun where "GetValue \<equiv> Take R_Value ''GetValue''"
abbreviation CreateTensorAsOrtValue :: cfun where "CreateTensorAsOrtValue \<equiv> Take R_Value ''CreateTensorAsOrtValue''"
abbreviation CreateTensorWithDataAsOrtValue :: cfun where "CreateTensorWithDataAsOrtValue \<equiv> Take R_Value ''CreateTensorWithDataAsOrtValue''"
abbreviation AllocatorAlloc :: cfun where "AllocatorAlloc \<equiv> Take R_Alloc ''AllocatorAlloc''"
abbreviation SessionGetInputName :: cfun where "SessionGetInputName \<equiv> Take R_Alloc ''SessionGetInputName''"
abbreviation SessionGetOutputName :: cfun where "SessionGetOutputName \<equiv> Take R_Alloc ''SessionGetOutputName''"
abbreviation SessionEndProfiling :: cfun where "SessionEndProfiling \<equiv> Take R_Alloc ''SessionEndProfiling''"
abbreviation ModelMetadataGetProducerName :: cfun where "ModelMetadataGetProducerName \<equiv> Take R_Alloc ''ModelMetadataGetProducerName''"
abbreviation ModelMetadataGetGraphName :: cfun where "ModelMetadataGetGraphName \<equiv> Take R_Alloc ''ModelMetadataGetGraphName''"
abbreviation ModelMetadataGetDomain :: cfun where "ModelMetadataGetDomain \<equiv> Take R_Alloc ''ModelMetadataGetDomain''"
abbreviation ModelMetadataGetDescription :: cfun where "ModelMetadataGetDescription \<equiv> Take R_Alloc ''ModelMetadataGetDescription''"
abbreviation ModelMetadataLookupCustomMetadataMap :: cfun where "ModelMetadataLookupCustomMetadataMap \<equiv> Take R_Alloc ''ModelMetadataLookupCustomMetadataMap''"
abbreviation ModelMetadataGetCustomMetadataMapKeys :: cfun where "ModelMetadataGetCustomMetadataMapKeys \<equiv> Take R_Alloc ''ModelMetadataGetCustomMetadataMapKeys''"
abbreviation GetStringUTFChars :: cfun where "GetStringUTFChars \<equiv> Take R_Chars ''GetStringUTFChars''"
abbreviation GetLongArrayElements :: cfun where "GetLongArrayElements \<equiv> Take R_Elements ''GetLongArrayElements''"
abbreviation GetByteArrayElements :: cfun where "GetByteArrayElements \<equiv> Take R_Elements ''GetByteArrayElements''"
abbreviation CreateSession :: cfun where "CreateSession \<equiv> Take R_Session ''CreateSession''"
abbreviation CreateSessionFromArray :: cfun where "CreateSessionFromArray \<equiv> Take R_Session ''CreateSessionFromArray''"
abbreviation CreateSessionOptions :: cfun where "CreateSessionOptions \<equiv> Take R_Options ''CreateSessionOptions''"
abbreviation CreateRunOptions :: cfun where "CreateRunOptions \<equiv> Take R_RunOptions ''CreateRunOptions''"
abbreviation CreateEnv :: cfun where "CreateEnv \<equiv> Take R_Env ''CreateEnv''"
abbreviation SessionGetModelMetadata :: cfun where "SessionGetModelMetadata \<equiv> Take R_Metadata ''SessionGetModelMetadata''"
abbreviation GetAvailableProviders :: cfun where "GetAvailableProviders \<equiv> Take R_Providers ''GetAvailableProviders''"
abbreviation ReleaseTypeInfo :: cfun where "ReleaseTypeInfo \<equiv> Give R_TypeInfo ''ReleaseTypeInfo''"
abbreviation ReleaseTensorTypeAndShapeInfo :: cfun where "ReleaseTensorTypeAndShapeInfo \<equiv> Give R_ShapeInfo ''ReleaseTensorTypeAndShapeInfo''"
abbreviation ReleaseValue :: cfun where "ReleaseValue \<equiv> Give R_Value ''ReleaseValue''"
abbreviation AllocatorFree :: cfun where "AllocatorFree \<equiv> Give R_Alloc ''AllocatorFree''"
abbreviation ReleaseStringUTFChars :: cfun where "ReleaseStringUTFChars \<equiv> Give R_Chars ''ReleaseStringUTFChars''"
abbreviation ReleaseLongArrayElements :: cfun where "ReleaseLongArrayElements \<equiv> Give R_Elements ''ReleaseLongArrayElements''"
abbreviation ReleaseByteArrayElements :: cfun where "ReleaseByteArrayElements \<equiv> Give R_Elements ''ReleaseByteArrayElements''"
abbreviation ReleaseSession :: cfun where "ReleaseSession \<equiv> Give R_Session ''ReleaseSession''"
abbreviation ReleaseSessionOptions :: cfun where "ReleaseSessionOptions \<equiv> Give R_Options ''ReleaseSessionOptions''"
abbreviation ReleaseRunOptions :: cfun where "ReleaseRunOptions \<equiv> Give R_RunOptions ''ReleaseRunOptions''"
abbreviation ReleaseEnv :: cfun where "ReleaseEnv \<equiv> Give R_Env ''ReleaseEnv''"
abbreviation ReleaseModelMetadata :: cfun where "ReleaseModelMetadata \<equiv> Give R_Metadata ''ReleaseModelMetadata''"
abbreviation ReleaseAvailableProviders :: cfun where "ReleaseAvailableProviders \<equiv> Give R_Providers ''ReleaseAvailableProviders''"
abbreviation GetErrorMessage :: cfun where "GetErrorMessage \<equiv> Plain ''GetErrorMessage''"
abbreviation strlen :: cfun where "strlen \<equiv> Plain ''strlen''"
abbreviation malloc :: cfun where "malloc \<equiv> Plain ''malloc''"
abbreviation memcpy :: cfun where "memcpy \<equiv> Plain ''memcpy''"
abbreviation GetErrorCode :: cfun where "GetErrorCode \<equiv> Plain ''GetErrorCode''"
abbreviation NewStringUTF :: cfun where "NewStringUTF \<equiv> Plain ''NewStringUTF''"
abbreviation FindClass :: cfun where "FindClass \<equiv> Plain ''FindClass''"
abbreviation GetMethodID :: cfun where "GetMethodID \<equiv> Plain ''GetMethodID''"
abbreviation NewObject :: cfun where "NewObject \<equiv> Plain ''NewObject''"
abbreviation Throw :: cfun where "Throw \<equiv> Plain ''Throw''"
abbreviation GetTensorElementType :: cfun where "GetTensorElementType \<equiv> Plain ''GetTensorElementType''"
abbreviation GetDimensionsCount :: cfun where "GetDimensionsCount \<equiv> Plain ''GetDimensionsCount''"
abbreviation GetDimensions :: cfun where "GetDimensions \<equiv> Plain ''GetDimensions''"
abbreviation NewLongArray :: cfun where "NewLongArray \<equiv> Plain ''NewLongArray''"
abbreviation SetLongArrayRegion :: cfun where "SetLongArrayRegion \<equiv> Plain ''SetLongArrayRegion''"
abbreviation free :: cfun where "free \<equiv> Plain ''free''"
abbreviation GetStaticMethodID :: cfun where "GetStaticMethodID \<equiv> Plain ''GetStaticMethodID''"
abbreviation CallStaticObjectMethod :: cfun where "CallStaticObjectMethod \<equiv> Plain ''CallStaticObjectMethod''"
abbreviation GetMapKeyType :: cfun where "GetMapKeyType \<equiv> Plain ''GetMapKeyType''"
abbreviation CastTypeInfoToTensorInfo :: cfun where "CastTypeInfoToTensorInfo \<equiv> Plain ''CastTypeInfoToTensorInfo''"
abbreviation GetOnnxTypeFromTypeInfo :: cfun where "GetOnnxTypeFromTypeInfo \<equiv> Plain ''GetOnnxTypeFromTypeInfo''"
abbreviation CastTypeInfoToMapTypeInfo :: cfun where "CastTypeInfoToMapTypeInfo \<equiv> Plain ''CastTypeInfoToMapTypeInfo''"
abbreviation CastTypeInfoToSequenceTypeInfo :: cfun where "CastTypeInfoToSequenceTypeInfo \<equiv> Plain ''CastTypeInfoToSequenceTypeInfo''"
abbreviation GetStringTensorDataLength :: cfun where "GetStringTensorDataLength \<equiv> Plain ''GetStringTensorDataLength''"
abbreviation GetStringTensorContent :: cfun where "GetStringTensorContent \<equiv> Plain ''GetStringTensorContent''"
abbreviation load :: cfun where "load \<equiv> Plain ''load''"
abbreviation store :: cfun where "store \<equiv> Plain ''store''"
abbreviation SetObjectArrayElement :: cfun where "SetObjectArrayElement \<equiv> Plain ''SetObjectArrayElement''"
abbreviation GetTensorShapeElementCount :: cfun where "GetTensorShapeElementCount \<equiv> Plain ''GetTensorShapeElementCount''"
abbreviation NewObjectArray :: cfun where "NewObjectArray \<equiv> Plain ''NewObjectArray''"
abbreviation GetTensorMutableData :: cfun where "GetTensorMutableData \<equiv> Plain ''GetTensorMutableData''"
abbreviation copyPrimitiveArrayToJava :: cfun where "copyPrimitiveArrayToJava \<equiv> Plain ''copyPrimitiveArrayToJava''"
abbreviation NewFloatArray :: cfun where "NewFloatArray \<equiv> Plain ''NewFloatArray''"
abbreviation NewDoubleArray :: cfun where "NewDoubleArray \<equiv> Plain ''NewDoubleArray''"
abbreviation SetFloatArrayRegion :: cfun where "SetFloatArrayRegion \<equiv> Plain ''SetFloatArrayRegion''"
abbreviation SetDoubleArrayRegion :: cfun where "SetDoubleArrayRegion \<equiv> Plain ''SetDoubleArrayRegion''"
abbreviation GetValueCount :: cfun where "GetValueCount \<equiv> Plain ''GetValueCount''"
abbreviation GetValueType :: cfun where "GetValueType \<equiv> Plain ''GetValueType''"
abbreviation GetArrayLength :: cfun where "GetArrayLength \<equiv> Plain ''GetArrayLength''"
abbreviation copyJavaToTensor :: cfun where "copyJavaToTensor \<equiv> Plain ''copyJavaToTensor''"
abbreviation copyTensorToJava :: cfun where "copyTensorToJava \<equiv> Plain ''copyTensorToJava''"
abbreviation AllocatorGetInfo :: cfun where "AllocatorGetInfo \<equiv> Plain ''AllocatorGetInfo''"
abbreviation GetDirectBufferAddress :: cfun where "GetDirectBufferAddress \<equiv> Plain ''GetDirectBufferAddress''"
abbreviation FillStringTensor :: cfun where "FillStringTensor \<equiv> Plain ''FillStringTensor''"
abbreviation GetObjectArrayElement :: cfun where "GetObjectArrayElement \<equiv> Plain ''GetObjectArrayElement''"
abbreviation NewDirectByteBuffer :: cfun where "NewDirectByteBuffer \<equiv> Plain ''NewDirectByteBuffer''"
abbreviation DeleteLocalRef :: cfun where "DeleteLocalRef \<equiv> Plain ''DeleteLocalRef''"
abbreviation SessionGetInputCount :: cfun where "SessionGetInputCount \<equiv> Plain ''SessionGetInputCount''"
abbreviation SessionGetOutputCount :: cfun where "SessionGetOutputCount \<equiv> Plain ''SessionGetOutputCount''"
abbreviation Run :: cfun where "Run \<equiv> Plain ''Run''"
abbreviation SessionGetProfilingStartTimeNs :: cfun where "SessionGetProfilingStartTimeNs \<equiv> Plain ''SessionGetProfilingStartTimeNs''"
abbreviation ModelMetadataGetVersion :: cfun where "ModelMetadataGetVersion \<equiv> Plain ''ModelMetadataGetVersion''"
abbreviation SetSessionExecutionMode :: cfun where "SetSessionExecutionMode \<equiv> Plain ''SetSessionExecutionMode''"
abbreviation SetSessionGraphOptimizationLevel :: cfun where "SetSessionGraphOptimizationLevel \<equiv> Plain ''SetSessionGraphOptimizationLevel''"
abbreviation SetIntraOpNumThreads :: cfun where "SetIntraOpNumThreads \<equiv> Plain ''SetIntraOpNumThreads''"
abbreviation SetInterOpNumThreads :: cfun where "SetInterOpNumThreads \<equiv> Plain ''SetInterOpNumThreads''"
abbreviation SetOptimizedModelFilePath :: cfun where "SetOptimizedModelFilePath \<equiv> Plain ''SetOptimizedModelFilePath''"
abbreviation SetSessionLogId :: cfun where "SetSessionLogId \<equiv> Plain ''SetSessionLogId''"
abbreviation EnableProfiling :: cfun where "EnableProfiling \<equiv> Plain ''EnableProfiling''"
abbreviation DisableProfiling :: cfun where "DisableProfiling \<equiv> Plain ''DisableProfiling''"
abbreviation EnableMemPattern :: cfun where "EnableMemPattern \<equiv> Plain ''EnableMemPattern''"
abbreviation DisableMemPattern :: cfun where "DisableMemPattern \<equiv> Plain ''DisableMemPattern''"
abbreviation EnableCpuMemArena :: cfun where "EnableCpuMemArena \<equiv> Plain ''EnableCpuMemArena''"
abbreviation DisableCpuMemArena :: cfun where "DisableCpuMemArena \<equiv> Plain ''DisableCpuMemArena''"
abbreviation SetSessionLogSeverityLevel :: cfun where "SetSessionLogSeverityLevel \<equiv> Plain ''SetSessionLogSeverityLevel''"
abbreviation SetSessionLogVerbosityLevel :: cfun where "SetSessionLogVerbosityLevel \<equiv> Plain ''SetSessionLogVerbosityLevel''"
abbreviation RegisterCustomOpsLibrary :: cfun where "RegisterCustomOpsLibrary \<equiv> Plain ''RegisterCustomOpsLibrary''"
abbreviation dlclose :: cfun where "dlclose \<equiv> Plain ''dlclose''"
abbreviation AddFreeDimensionOverrideByName :: cfun where "AddFreeDimensionOverrideByName \<equiv> Plain ''AddFreeDimensionOverrideByName''"
abbreviation DisablePerSessionThreads :: cfun where "DisablePerSessionThreads \<equiv> Plain ''DisablePerSessionThreads''"
abbreviation AddSessionConfigEntry :: cfun where "AddSessionConfigEntry \<equiv> Plain ''AddSessionConfigEntry''"
abbreviation AppendExecutionProvider_CPU :: cfun where "AppendExecutionProvider_CPU \<equiv> Plain ''AppendExecutionProvider_CPU''"
abbreviation AppendExecutionProvider_CUDA :: cfun where "AppendExecutionProvider_CUDA \<equiv> Plain ''AppendExecutionProvider_CUDA''"
abbreviation AppendExecutionProvider_Dnnl :: cfun where "AppendExecutionProvider_Dnnl \<equiv> Plain ''AppendExecutionProvider_Dnnl''"
abbreviation AppendExecutionProvider_OpenVINO :: cfun where "AppendExecutionProvider_OpenVINO \<equiv> Plain ''AppendExecutionProvider_OpenVINO''"
abbreviation AppendExecutionProvider_Tensorrt :: cfun where "AppendExecutionProvider_Tensorrt \<equiv> Plain ''AppendExecutionProvider_Tensorrt''"
abbreviation AppendExecutionProvider_Nnapi :: cfun where "AppendExecutionProvider_Nnapi \<equiv> Plain ''AppendExecutionProvider_Nnapi''"
abbreviation AppendExecutionProvider_Nuphar :: cfun where "AppendExecutionProvider_Nuphar \<equiv> Plain ''AppendExecutionProvider_Nuphar''"
abbreviation AppendExecutionProvider_MIGraphX :: cfun where "AppendExecutionProvider_MIGraphX \<equiv> Plain ''AppendExecutionProvider_MIGraphX''"
abbreviation AppendExecutionProvider_DML :: cfun where "AppendExecutionProvider_DML \<equiv> Plain ''AppendExecutionProvider_DML''"
abbreviation AppendExecutionProvider_ACL :: cfun where "AppendExecutionProvider_ACL \<equiv> Plain ''AppendExecutionProvider_ACL''"
abbreviation RunOptionsSetRunLogSeverityLevel :: cfun where "RunOptionsSetRunLogSeverityLevel \<equiv> Plain ''RunOptionsSetRunLogSeverityLevel''"
abbreviation RunOptionsGetRunLogSeverityLevel :: cfun where "RunOptionsGetRunLogSeverityLevel \<equiv> Plain ''RunOptionsGetRunLogSeverityLevel''"
abbreviation RunOptionsSetRunLogVerbosityLevel :: cfun where "RunOptionsSetRunLogVerbosityLevel \<equiv> Plain ''RunOptionsSetRunLogVerbosityLevel''"
abbreviation RunOptionsGetRunLogVerbosityLevel :: cfun where "RunOptionsGetRunLogVerbosityLevel \<equiv> Plain ''RunOptionsGetRunLogVerbosityLevel''"
abbreviation RunOptionsSetRunTag :: cfun where "RunOptionsSetRunTag \<equiv> Plain ''RunOptionsSetRunTag''"
abbreviation RunOptionsGetRunTag :: cfun where "RunOptionsGetRunTag \<equiv> Plain ''RunOptionsGetRunTag''"
abbreviation RunOptionsSetTerminate :: cfun where "RunOptionsSetTerminate \<equiv> Plain ''RunOptionsSetTerminate''"
abbreviation RunOptionsUnsetTerminate :: cfun where "RunOptionsUnsetTerminate \<equiv> Plain ''RunOptionsUnsetTerminate''"
abbreviation SetLanguageProjection :: cfun where "SetLanguageProjection \<equiv> Plain ''SetLanguageProjection''"
abbreviation GetAllocatorWithDefaultOptions :: cfun where "GetAllocatorWithDefaultOptions \<equiv> Plain ''GetAllocatorWithDefaultOptions''"
abbreviation EnableTelemetryEvents :: cfun where "EnableTelemetryEvents \<equiv> Plain ''EnableTelemetryEvents''"
abbreviation DisableTelemetryEvents :: cfun where "DisableTelemetryEvents \<equiv> Plain ''DisableTelemetryEvents''"
abbreviation OrtGetApiBase :: cfun where "OrtGetApiBase \<equiv> Plain ''OrtGetApiBase''"
abbreviation GetApi :: cfun where "GetApi \<equiv> Plain ''GetApi''"

datatype call_event = Call (fn: cfun) (args: "jval list") (answer: "jval \<times> jval list")

type_synonym env = "call_event list \<Rightarrow> cfun \<Rightarrow> jval list \<Rightarrow> jval \<times> jval list"

type_synonym 'a jni = "(call_event list, 'a) state"

text \<open>Value \<open>n\<close> of an answer; a missing one reads as \<open>NULL\<close>.\<close>

definition out :: "nat \<Rightarrow> jval \<times> jval list \<Rightarrow> jval" where
  "out n r = (if n < length (snd r) then snd r ! n else JNULL)"

text \<open>An API call with a status, and a call without one.\<close>

definition call :: "env \<Rightarrow> cfun \<Rightarrow> jval list \<Rightarrow> (jval \<times> jval list) jni" where
  "call E f xs = State (\<lambda>t. (E t f xs, t @ [Call f xs (E t f xs)]))"

definition plain :: "env \<Rightarrow> cfun \<Rightarrow> jval list \<Rightarrow> (jval \<times> jval list) jni" where
  "plain E f xs = State (\<lambda>t. ((JNULL, snd (E t f xs)), t @ [Call f xs (JNULL, snd (E t f xs))]))"

text \<open>A call that returns one value, and one whose result is not used.\<close>

definition ret :: "env \<Rightarrow> cfun \<Rightarrow> jval list \<Rightarrow> jval jni" where
  "ret E f xs = do { r \<leftarrow> plain E f xs; State_Monad.return (out 0 r) }"

definition run :: "env \<Rightarrow> cfun \<Rightarrow> jval list \<Rightarrow> unit jni" where
  "run E f xs = do { _ \<leftarrow> plain E f xs; State_Monad.return () }"

fun int_of :: "jval \<Rightarrow> int" where
  "int_of (JInt n) = n"
| "int_of (JPtr n) = int n"
| "int_of _ = 0"

text \<open>The loops \<open>for (i = a; i < a + n; i++)\<close>, without and with a result for each \<open>i\<close>.\<close>

fun for_range :: "nat \<Rightarrow> nat \<Rightarrow> (nat \<Rightarrow> unit jni) \<Rightarrow> unit jni" where
  "for_range a 0 body = State_Monad.return ()"
| "for_range a (Suc n) body = do { body a; for_range (Suc a) n body }"

fun map_range :: "nat \<Rightarrow> nat \<Rightarrow> (nat \<Rightarrow> 'a jni) \<Rightarrow> 'a list jni" where
  "map_range a 0 body = State_Monad.return []"
| "map_range a (Suc n) body =
     do { x \<leftarrow> body a; xs \<leftarrow> map_range (Suc a) n body; State_Monad.return (x # xs) }"

fun for_list :: "'a list \<Rightarrow> ('a \<Rightarrow> unit jni) \<Rightarrow> unit jni" where
  "for_list [] body = State_Monad.return ()"
| "for_list (x # xs) body = do { body x; for_list xs body }"

section \<open>Errors\<close>

definition error_code_of :: "int \<Rightarrow> OrtErrorCode option" where
  "error_code_of c =
     (if 0 \<le> c \<and> c \<le> 11 then
        Some ([ORT_OK, ORT_FAIL, ORT_INVALID_ARGUMENT, ORT_NO_SUCHFILE, ORT_NO_MODEL, ORT_ENGINE_ERROR,
          ORT_RUNTIME_EXCEPTION, ORT_INVALID_PROTOBUF, ORT_MODEL_LOADED, ORT_NOT_IMPLEMENTED,
          ORT_INVALID_GRAPH, ORT_EP_FAIL] ! nat c)
      else None)"

definition message_id :: "int \<Rightarrow> int" where
  "message_id c = (case error_code_of c of Some e \<Rightarrow> convertErrorCode e | None \<Rightarrow> - 1)"

definition throwOrtException :: "env \<Rightarrow> int \<Rightarrow> jval \<Rightarrow> jval jni" where
  "throwOrtException E messageId message = do {
     messageStr \<leftarrow> ret E NewStringUTF [message];
     exClazz \<leftarrow> ret E FindClass [JCStr ''ai/onnxruntime/OrtException''];
     exConstructor \<leftarrow> ret E GetMethodID [exClazz, JCStr ''<init>'', JCStr ''(ILjava/lang/String;)V''];
     javaException \<leftarrow> ret E NewObject [exClazz, exConstructor, JInt messageId, messageStr];
     ret E Throw [javaException]
   }"

definition throw_code :: "env \<Rightarrow> OrtErrorCode \<Rightarrow> string \<Rightarrow> unit jni" where
  "throw_code E code msg = do {
     _ \<leftarrow> throwOrtException E (convertErrorCode code) (JCStr msg);
     State_Monad.return ()
   }"

definition checkOrtStatus :: "env \<Rightarrow> jval \<Rightarrow> unit jni" where
  "checkOrtStatus E status =
     (if status \<noteq> JNULL then do {
        message \<leftarrow> ret E GetErrorMessage [status];
        n \<leftarrow> ret E strlen [message];
        copy \<leftarrow> ret E malloc [JInt (int_of n + 1)];
        run E memcpy [copy, message, JInt (int_of n + 1)];
        code \<leftarrow> ret E GetErrorCode [status];
        run E ReleaseStatus [status];
        _ \<leftarrow> throwOrtException E (message_id (int_of code)) copy;
        State_Monad.return ()
      } else State_Monad.return ())"

text \<open>\<open>checkOrtStatus(jniEnv, api, api->f(xs, &x))\<close>; the value is the first output.\<close>

definition checked :: "env \<Rightarrow> cfun \<Rightarrow> jval list \<Rightarrow> jval jni" where
  "checked E f xs = do {
     r \<leftarrow> call E f xs;
     checkOrtStatus E (fst r);
     State_Monad.return (out 0 r)
   }"

text \<open>The same with two outputs, and with none.\<close>

definition checked2 :: "env \<Rightarrow> cfun \<Rightarrow> jval list \<Rightarrow> (jval \<times> jval) jni" where
  "checked2 E f xs = do {
     r \<leftarrow> call E f xs;
     checkOrtStatus E (fst r);
     State_Monad.return (out 0 r, out 1 r)
   }"

definition check :: "env \<Rightarrow> cfun \<Rightarrow> jval list \<Rightarrow> unit jni" where
  "check E f xs = do {
     r \<leftarrow> call E f xs;
     checkOrtStatus E (fst r)
   }"

section \<open>Counting calls\<close>

text \<open>
  \<open>net w m \<delta>\<close>: whatever has been called before, \<open>m\<close> adds calls of total weight \<open>\<delta> x\<close>, where
  \<open>x\<close> is its result.
\<close>

definition weight :: "(call_event \<Rightarrow> int) \<Rightarrow> call_event list \<Rightarrow> int" where
  "weight w t = sum_list (map w t)"

definition net :: "(call_event \<Rightarrow> int) \<Rightarrow> 'a jni \<Rightarrow> ('a \<Rightarrow> int) \<Rightarrow> bool" where
  "net w m \<delta> \<longleftrightarrow> (\<forall>t. weight w (snd (run_state m t)) = weight w t + \<delta> (fst (run_state m t)))"

lemma weight_append [simp]: "weight w (t @ u) = weight w t + weight w u"
  by (simp add: weight_def)

lemma weight_single [simp]: "weight w [e] = w e"
  by (simp add: weight_def)

lemma weight_Nil [simp]: "weight w [] = 0"
  by (simp add: weight_def)

lemma run_state_call [simp]: "run_state (call E f xs) t = (E t f xs, t @ [Call f xs (E t f xs)])"
  by (simp add: call_def)

lemma run_state_plain [simp]:
  "run_state (plain E f xs) t = ((JNULL, snd (E t f xs)), t @ [Call f xs (JNULL, snd (E t f xs))])"
  by (simp add: plain_def)

lemma run_state_return [simp]: "run_state (State_Monad.return x) t = (x, t)"
  by (simp add: State_Monad.return_def)

lemma out_plain [simp]: "out n (JNULL, snd r) = out n r"
  by (simp add: out_def)

lemma net_return: "\<delta> x = 0 \<Longrightarrow> net w (State_Monad.return x) \<delta>"
  by (simp add: net_def)

text \<open>Sequencing, when the results of \<open>m\<close> are known to satisfy \<open>P\<close>, and in general.\<close>

lemma net_bind_where:
  assumes m: "net w m \<delta>1" and P: "\<And>t. P (fst (run_state m t))"
    and g: "\<And>x. P x \<Longrightarrow> net w (g x) (\<lambda>y. \<delta> y - \<delta>1 x)"
  shows "net w (State_Monad.bind m g) \<delta>"
  unfolding net_def
proof
  fix t
  obtain x u where r: "run_state m t = (x, u)" by fastforce
  have "P x" using P [of t] by (simp add: r)
  from m have "weight w (snd (run_state m t)) = weight w t + \<delta>1 (fst (run_state m t))" unfolding net_def ..
  moreover from g [OF \<open>P x\<close>] have
    "weight w (snd (run_state (g x) u)) = weight w u + (\<delta> (fst (run_state (g x) u)) - \<delta>1 x)"
    unfolding net_def ..
  ultimately show "weight w (snd (run_state (State_Monad.bind m g) t)) =
      weight w t + \<delta> (fst (run_state (State_Monad.bind m g) t))"
    by (simp add: r)
qed

lemma net_bind:
  "net w m \<delta>1 \<Longrightarrow> (\<And>x. net w (g x) (\<lambda>y. \<delta> y - \<delta>1 x)) \<Longrightarrow> net w (State_Monad.bind m g) \<delta>"
  by (rule net_bind_where [where P = "\<lambda>_. True"]) simp_all

lemma net_bind_0: "net w m (\<lambda>_. 0) \<Longrightarrow> (\<And>x. net w (g x) \<delta>) \<Longrightarrow> net w (State_Monad.bind m g) \<delta>"
  by (rule net_bind [of w m "\<lambda>_. 0"]) simp_all

lemma net_bind_return: "net w (g x) \<delta> \<Longrightarrow> net w (State_Monad.bind (State_Monad.return x) g) \<delta>"
  by (simp add: net_def)

lemma net_bind_assoc:
  "net w (State_Monad.bind m (\<lambda>x. State_Monad.bind (g x) h)) \<delta> \<Longrightarrow>
    net w (State_Monad.bind (State_Monad.bind m g) h) \<delta>"
  by (simp add: net_def)

lemma net_plain: "net w (plain E f xs) (\<lambda>a. w (Call f xs (JNULL, snd a)))"
  by (simp add: net_def)

lemma net_bind_ret:
  "(\<And>a :: jval \<times> jval list. net w (g (out 0 a)) (\<lambda>y. \<delta> y - w (Call f xs (JNULL, snd a)))) \<Longrightarrow>
    net w (State_Monad.bind (ret E f xs) g) \<delta>"
  unfolding ret_def by (simp add: net_bind [OF net_plain])

lemma net_bind_run:
  assumes "\<And>a :: jval \<times> jval list. net w (g ()) (\<lambda>y. \<delta> y - w (Call f xs (JNULL, snd a)))"
  shows "net w (State_Monad.bind (run E f xs) g) \<delta>"
  unfolding run_def by (intro net_bind_assoc net_bind [OF net_plain] net_bind_return) (rule assms)

lemma net_ret: "(\<And>a :: jval \<times> jval list. \<delta> (out 0 a) = w (Call f xs (JNULL, snd a))) \<Longrightarrow> net w (ret E f xs) \<delta>"
  unfolding ret_def by (rule net_bind [OF net_plain]) (simp add: net_return)

lemma net_run:
  assumes "\<And>a :: jval \<times> jval list. \<delta> () = w (Call f xs (JNULL, snd a))"
  shows "net w (run E f xs) \<delta>"
  unfolding run_def by (rule net_bind [OF net_plain], rule net_return) (simp add: assms)

lemma net_if: "(c \<Longrightarrow> net w m \<delta>) \<Longrightarrow> (\<not> c \<Longrightarrow> net w n \<delta>) \<Longrightarrow> net w (if c then m else n) \<delta>"
  by simp

lemma net_bind_if:
  "(c \<Longrightarrow> net w (State_Monad.bind m g) \<delta>) \<Longrightarrow> (\<not> c \<Longrightarrow> net w (State_Monad.bind n g) \<delta>) \<Longrightarrow>
    net w (State_Monad.bind (if c then m else n) g) \<delta>"
  by simp

lemma net_case: "net w (g x y) \<delta> \<Longrightarrow> net w (case (x, y) of (a, b) \<Rightarrow> g a b) \<delta>"
  by simp

lemma net_cong: "net w m \<delta>1 \<Longrightarrow> (\<And>y. \<delta> y = \<delta>1 y) \<Longrightarrow> net w m \<delta>"
  by (simp add: net_def)

lemma net_for: "(\<And>i. net w (body i) (\<lambda>_. 0)) \<Longrightarrow> net w (for_range a n body) (\<lambda>_. 0)"
  by (induction n arbitrary: a) (auto intro: net_return net_bind_0)

lemma net_for_list: "(\<And>x. net w (body x) (\<lambda>_. k x)) \<Longrightarrow> net w (for_list xs body) (\<lambda>_. sum_list (map k xs))"
proof (induction xs)
  case (Cons x xs)
  show ?case unfolding for_list.simps by (rule net_bind [OF Cons.prems]) (simp add: Cons)
qed (simp add: net_return)

lemma net_map_range:
  assumes "\<And>i. net w (body i) k"
  shows "net w (map_range a n body) (\<lambda>xs. sum_list (map k xs))"
proof (induction n arbitrary: a)
  case (Suc n)
  then show ?case
    unfolding map_range.simps
    by (intro net_bind [OF assms] net_bind [OF Suc.IH] net_return) simp
qed (simp add: net_return)

lemmas net_rules =
  net_case net_bind_ret net_bind_run net_bind_assoc net_bind_return net_bind_if net_if net_return net_ret net_run

section \<open>The calls themselves\<close>

text \<open>\<open>emits m P\<close>: the calls \<open>m\<close> adds and its result satisfy \<open>P\<close>, whatever was called before.\<close>

definition emits :: "'a jni \<Rightarrow> (call_event list \<Rightarrow> 'a \<Rightarrow> bool) \<Rightarrow> bool" where
  "emits m P \<longleftrightarrow> (\<forall>t. \<exists>u. snd (run_state m t) = t @ u \<and> P u (fst (run_state m t)))"

lemma emits_return: "P [] x \<Longrightarrow> emits (State_Monad.return x) P"
  by (simp add: emits_def)

lemma emits_bind:
  assumes m: "emits m Q" and g: "\<And>u x. Q u x \<Longrightarrow> emits (g x) (\<lambda>u' y. P (u @ u') y)"
  shows "emits (State_Monad.bind m g) P"
  unfolding emits_def
proof
  fix t
  from m obtain u where u: "snd (run_state m t) = t @ u" "Q u (fst (run_state m t))"
    unfolding emits_def by blast
  from g [OF u(2)] obtain u' where
    "snd (run_state (g (fst (run_state m t))) (t @ u)) = (t @ u) @ u'"
    "P (u @ u') (fst (run_state (g (fst (run_state m t))) (t @ u)))"
    unfolding emits_def by blast
  then show "\<exists>u. snd (run_state (State_Monad.bind m g) t) = t @ u \<and> P u (fst (run_state (State_Monad.bind m g) t))"
    by (auto simp: case_prod_unfold u intro!: exI [of _ "u @ u'"])
qed

lemma emits_ret: "(\<And>a :: jval \<times> jval list. P [Call f xs a] (out 0 a)) \<Longrightarrow> emits (ret E f xs) P"
  by (simp add: emits_def ret_def) (metis out_plain)

lemma emits_run: "(\<And>a :: jval \<times> jval list. P [Call f xs a] ()) \<Longrightarrow> emits (run E f xs) P"
  by (simp add: emits_def run_def)

lemma emits_bind_ret:
  assumes "\<And>a :: jval \<times> jval list. emits (g (out 0 a)) (\<lambda>u y. P (Call f xs a # u) y)"
  shows "emits (State_Monad.bind (ret E f xs) g) P"
  by (rule emits_bind [where Q = "\<lambda>u x. \<exists>a :: jval \<times> jval list. u = [Call f xs a] \<and> x = out 0 a"])
    (auto intro: emits_ret assms)

lemma emits_bind_run:
  assumes "\<And>a :: jval \<times> jval list. emits (g ()) (\<lambda>u y. P (Call f xs a # u) y)"
  shows "emits (State_Monad.bind (run E f xs) g) P"
  by (rule emits_bind [where Q = "\<lambda>u _. \<exists>a :: jval \<times> jval list. u = [Call f xs a]"])
    (auto intro: emits_run assms)

lemma emits_assoc:
  "emits (State_Monad.bind m (\<lambda>x. State_Monad.bind (g x) h)) P \<Longrightarrow>
    emits (State_Monad.bind (State_Monad.bind m g) h) P"
  by simp

lemma emits_if: "(c \<Longrightarrow> emits m P) \<Longrightarrow> (\<not> c \<Longrightarrow> emits n P) \<Longrightarrow> emits (if c then m else n) P"
  by simp

lemmas emits_rules =
  emits_bind_ret emits_bind_run emits_assoc emits_if emits_return emits_ret emits_run

section \<open>The error path in a count\<close>

text \<open>\<open>c s\<close> is what \<open>checkOrtStatus\<close> adds on status \<open>s\<close>.\<close>

locale ledger =
  fixes w :: "call_event \<Rightarrow> int" and c :: "jval \<Rightarrow> int"
  assumes check_cost: "net w (checkOrtStatus E s) (\<lambda>_. c s)"
begin

lemma net_call_check:
  "net w (do { r \<leftarrow> call E f xs; checkOrtStatus E (fst r); State_Monad.return r })
    (\<lambda>a. w (Call f xs a) + c (fst a))"
proof -
  have "weight w (snd (run_state (checkOrtStatus E s) t)) = weight w t + c s" for s t
    using check_cost [of E s] unfolding net_def by blast
  then show ?thesis by (simp add: net_def case_prod_unfold)
qed

lemma net_bind_call_check:
  assumes "\<And>a :: jval \<times> jval list. net w (g a) (\<lambda>y. \<delta> y - (w (Call f xs a) + c (fst a)))"
  shows "net w (State_Monad.bind (call E f xs) (\<lambda>r. State_Monad.bind (checkOrtStatus E (fst r)) (\<lambda>_. g r))) \<delta>"
  using net_bind [OF net_call_check, of g \<delta>, OF assms] by simp

lemma net_bind_checked:
  "(\<And>a :: jval \<times> jval list. net w (g (out 0 a)) (\<lambda>y. \<delta> y - (w (Call f xs a) + c (fst a)))) \<Longrightarrow>
    net w (State_Monad.bind (checked E f xs) g) \<delta>"
  unfolding checked_def by (simp add: net_bind_call_check)

lemma net_bind_checked2:
  "(\<And>a :: jval \<times> jval list. net w (g (out 0 a, out 1 a)) (\<lambda>y. \<delta> y - (w (Call f xs a) + c (fst a)))) \<Longrightarrow>
    net w (State_Monad.bind (checked2 E f xs) g) \<delta>"
  unfolding checked2_def by (simp add: net_bind_call_check del: One_nat_def)

lemma net_bind_check:
  assumes "\<And>a :: jval \<times> jval list. net w (g ()) (\<lambda>y. \<delta> y - (w (Call f xs a) + c (fst a)))"
  shows "net w (State_Monad.bind (check E f xs) g) \<delta>"
  using net_bind_call_check [of "\<lambda>_. g ()" \<delta> f xs E, OF assms] by (simp add: check_def)

lemma net_checked:
  "(\<And>a :: jval \<times> jval list. \<delta> (out 0 a) = w (Call f xs a) + c (fst a)) \<Longrightarrow> net w (checked E f xs) \<delta>"
  unfolding checked_def by (rule net_bind_call_check) (simp add: net_return)

lemma net_checked2:
  "(\<And>a :: jval \<times> jval list. \<delta> (out 0 a, out 1 a) = w (Call f xs a) + c (fst a)) \<Longrightarrow> net w (checked2 E f xs) \<delta>"
  unfolding checked2_def by (rule net_bind_call_check) (simp add: net_return)

lemma net_check:
  assumes "\<And>a :: jval \<times> jval list. \<delta> () = w (Call f xs a) + c (fst a)"
  shows "net w (check E f xs) \<delta>"
  using net_bind_call_check [of "\<lambda>_. State_Monad.return ()" \<delta> f xs E] unfolding check_def
  by (simp add: net_return assms [symmetric])

lemmas rules = net_bind_checked net_bind_checked2 net_bind_check net_checked net_checked2 net_check

end

end
