(* ===== verification/JniLedger.thy ===== *)
theory JniLedger
  imports JniBase
begin

text \<open>
  What the bindings own: the balance of a computation for one handle (\<open>handle_weight\<close>), for
  all handles of a kind (\<open>kind_weight\<close>) and for the error statuses (\<open>status_weight\<close>). All are
  instances of the locale \<open>ledger\<close>, whose rules derive the balance of a function from its
  text.
\<close>

section \<open>Handles\<close>

text \<open>The argument of a \<open>Give\<close> function that is the handle.\<close>

fun handle_index :: "resource \<Rightarrow> nat" where
  "handle_index R_Alloc = 1"
| "handle_index R_Chars = 1"
| "handle_index R_Elements = 1"
| "handle_index _ = 0"

text \<open>
  +1 when the call hands out the handle \<open>v\<close> of kind \<open>r\<close>, -1 when it takes it back. \<open>NULL\<close> is
  never owned.
\<close>

fun handle_weight :: "resource \<Rightarrow> jval \<Rightarrow> call_event \<Rightarrow> int" where
  "handle_weight r v (Call (Take r' f) xs a) = of_bool (r = r' \<and> v \<noteq> JNULL \<and> out 0 a = v)"
| "handle_weight r v (Call (Give r' f) xs a) = - of_bool (r = r' \<and> v \<noteq> JNULL \<and> xs ! handle_index r' = v)"
| "handle_weight r v _ = 0"

lemma throw_handles: "net (handle_weight r v) (throwOrtException E i msg) (\<lambda>_. 0)"
  unfolding throwOrtException_def by (intro net_rules) simp

lemma throw_code_handles: "net (handle_weight r v) (throw_code E i msg) (\<lambda>_. 0)"
  unfolding throw_code_def by (intro net_bind_0 [OF throw_handles] net_rules) simp

interpretation handle: ledger "handle_weight r v" "\<lambda>_. 0" for r v
  by (unfold_locales, unfold checkOrtStatus_def)
    (intro net_rules net_bind_0 [OF throw_handles], simp_all)

lemmas handle_rules = net_bind_0 [OF throw_code_handles] throw_code_handles handle.rules net_rules

text \<open>
  \<open>leak_free m\<close>: every handle is taken back exactly as often as it is handed out.
  \<open>owns r m\<close>: the same, except that the result of \<open>m\<close> is a handle the caller now owns.
  \<open>frees r h m\<close>: the same, except that \<open>m\<close> takes back the handle \<open>h\<close> of the caller.
\<close>

definition leak_free :: "'a jni \<Rightarrow> bool" where
  "leak_free m \<longleftrightarrow> (\<forall>r v. net (handle_weight r v) m (\<lambda>_. 0))"

definition owns :: "resource \<Rightarrow> jval jni \<Rightarrow> bool" where
  "owns r m \<longleftrightarrow> (\<forall>r' v. net (handle_weight r' v) m (\<lambda>x. of_bool (r' = r \<and> v \<noteq> JNULL \<and> x = v)))"

definition frees :: "resource \<Rightarrow> jval \<Rightarrow> 'a jni \<Rightarrow> bool" where
  "frees r h m \<longleftrightarrow> (\<forall>r' v. net (handle_weight r' v) m (\<lambda>_. - of_bool (r' = r \<and> v \<noteq> JNULL \<and> h = v)))"

lemma leak_freeI: "(\<And>r v. net (handle_weight r v) m (\<lambda>_. 0)) \<Longrightarrow> leak_free m"
  by (simp add: leak_free_def)

lemma leak_freeD: "leak_free m \<Longrightarrow> net (handle_weight r v) m (\<lambda>_. 0)"
  by (simp add: leak_free_def)

lemma ownsI:
  "(\<And>r' v. net (handle_weight r' v) m (\<lambda>x. of_bool (r' = r \<and> v \<noteq> JNULL \<and> x = v))) \<Longrightarrow> owns r m"
  by (simp add: owns_def)

lemma freesI:
  "(\<And>r' v. net (handle_weight r' v) m (\<lambda>_. - of_bool (r' = r \<and> v \<noteq> JNULL \<and> h = v))) \<Longrightarrow> frees r h m"
  by (simp add: frees_def)

section \<open>All handles of a kind, and calls of a function\<close>

fun kind_weight :: "resource \<Rightarrow> call_event \<Rightarrow> int" where
  "kind_weight r (Call (Take r' f) xs a) = of_bool (r = r')"
| "kind_weight r (Call (Give r' f) xs a) = - of_bool (r = r')"
| "kind_weight r _ = 0"

definition calls :: "cfun \<Rightarrow> call_event \<Rightarrow> int" where
  "calls f e = of_bool (fn e = f)"

lemma throw_kind: "net (kind_weight r) (throwOrtException E i msg) (\<lambda>_. 0)"
  unfolding throwOrtException_def by (intro net_rules) simp

interpretation kind: ledger "kind_weight r" "\<lambda>_. 0" for r
  by (unfold_locales, unfold checkOrtStatus_def)
    (intro net_rules net_bind_0 [OF throw_kind], simp_all)

lemma throw_stores: "net (calls SetObjectArrayElement) (throwOrtException E i msg) (\<lambda>_. 0)"
  unfolding throwOrtException_def by (intro net_rules) (simp add: calls_def)

interpretation stores: ledger "calls SetObjectArrayElement" "\<lambda>_. 0"
  by (unfold_locales, unfold checkOrtStatus_def)
    (intro net_rules net_bind_0 [OF throw_stores], simp_all add: calls_def)

section \<open>Statuses\<close>

definition status_weight :: "jval \<Rightarrow> call_event \<Rightarrow> int" where
  "status_weight v e =
     of_bool (v \<noteq> JNULL \<and> fst (answer e) = v)
     - of_bool (v \<noteq> JNULL \<and> fn e = ReleaseStatus \<and> args e ! 0 = v)"

lemma throw_statuses: "net (status_weight v) (throwOrtException E i msg) (\<lambda>_. 0)"
  unfolding throwOrtException_def by (intro net_rules) (auto simp: status_weight_def)

lemma throw_code_statuses: "net (status_weight v) (throw_code E i msg) (\<lambda>_. 0)"
  unfolding throw_code_def by (intro net_bind_0 [OF throw_statuses] net_rules) simp

interpretation status: ledger "status_weight v" "\<lambda>s. - of_bool (v \<noteq> JNULL \<and> s = v)" for v
  by (unfold_locales, unfold checkOrtStatus_def)
    (intro net_rules net_bind_0 [OF throw_statuses], auto simp: status_weight_def)

text \<open>Every status other than \<open>NULL\<close> that an API call of \<open>m\<close> returns is released exactly once.\<close>

definition cleared :: "'a jni \<Rightarrow> bool" where
  "cleared m \<longleftrightarrow> (\<forall>v. net (status_weight v) m (\<lambda>_. 0))"

lemma cleared_return: "cleared (State_Monad.return x)"
  by (simp add: cleared_def net_return)

lemma cleared_bind: "cleared m \<Longrightarrow> (\<And>x. cleared (g x)) \<Longrightarrow> cleared (State_Monad.bind m g)"
  by (simp add: cleared_def net_bind_0)

lemma cleared_throw_code: "cleared (throw_code E i msg)"
  by (simp add: cleared_def throw_code_statuses)

lemma cleared_call:
  assumes "f \<noteq> ReleaseStatus"
  shows "cleared (ret E f xs)" "cleared (run E f xs)" "cleared (checked E f xs)"
    "cleared (check E f xs)" "cleared (checked2 E f xs)"
proof -
  have w: "status_weight v (Call f xs a) = of_bool (v \<noteq> JNULL \<and> fst a = v)" for v a
    using assms by (simp add: status_weight_def)
  show "cleared (ret E f xs)" "cleared (run E f xs)" "cleared (checked E f xs)" "cleared (check E f xs)"
    "cleared (checked2 E f xs)"
    unfolding cleared_def by (auto intro!: net_ret net_run status.rules simp: w)
qed

lemma cleared_if: "(c \<Longrightarrow> cleared m) \<Longrightarrow> (\<not> c \<Longrightarrow> cleared n) \<Longrightarrow> cleared (if c then m else n)"
  by simp

lemma cleared_for: "(\<And>i. cleared (body i)) \<Longrightarrow> cleared (for_range a n body)"
  by (simp add: cleared_def net_for)

lemma cleared_for_list: "(\<And>x. cleared (body x)) \<Longrightarrow> cleared (for_list xs body)"
  unfolding cleared_def using net_for_list [where k = "\<lambda>_. 0" and body = body] by simp

lemma cleared_map_range: "(\<And>i. cleared (body i)) \<Longrightarrow> cleared (map_range a n body)"
  unfolding cleared_def using net_map_range [where k = "\<lambda>_. 0" and body = body] by simp

lemmas cleared_rules =
  cleared_bind cleared_return cleared_if cleared_throw_code cleared_for cleared_for_list
  cleared_map_range cleared_call

end
