(* ===== verification/JniUtil.thy ===== *)
theory JniUtil
  imports JniLedger
begin

text \<open>
  The functions of java/src/main/native/OrtJniUtil.c that call into the runtime and the JVM:
  descriptions of types, strings and values as Java objects. Each is a computation over
  the calls it makes (theory \<open>JniBase\<close>); parameters that are the same throughout
  (\<open>jniEnv\<close>, \<open>api\<close>) are left out. Reading memory that the runtime has filled in is the
  call \<open>load\<close>, whose answer is the content; storing is \<open>store\<close>. A switch over a C enum is a
  case distinction over the enumerators, with \<open>None\<close> for a number that is none of them. The
  copy of a Java array from or into a tensor is recorded as one call; theory \<open>JavaArrays\<close>
  models what it does.
\<close>

section \<open>Numbers of the enums\<close>

definition onnx_type_of :: "jval \<Rightarrow> ONNXType option" where
  "onnx_type_of v = (let c = int_of v in
     if 0 \<le> c \<and> c \<le> 5 then
       Some ([ONNX_TYPE_UNKNOWN, ONNX_TYPE_TENSOR, ONNX_TYPE_SEQUENCE, ONNX_TYPE_MAP,
         ONNX_TYPE_OPAQUE, ONNX_TYPE_SPARSETENSOR] ! nat c)
     else None)"

definition elt_type_of :: "jval \<Rightarrow> ONNXTensorElementDataType option" where
  "elt_type_of v = (let c = int_of v in
     if 0 \<le> c \<and> c \<le> 16 then
       Some ([ELT_UNDEFINED, ELT_FLOAT, ELT_UINT8, ELT_INT8, ELT_UINT16, ELT_INT16, ELT_INT32,
         ELT_INT64, ELT_STRING, ELT_BOOL, ELT_FLOAT16, ELT_DOUBLE, ELT_UINT32, ELT_UINT64,
         ELT_COMPLEX64, ELT_COMPLEX128, ELT_BFLOAT16] ! nat c)
     else None)"

fun elt_number :: "ONNXTensorElementDataType \<Rightarrow> int" where
  "elt_number ELT_UNDEFINED = 0" | "elt_number ELT_FLOAT = 1" | "elt_number ELT_UINT8 = 2"
| "elt_number ELT_INT8 = 3" | "elt_number ELT_UINT16 = 4" | "elt_number ELT_INT16 = 5"
| "elt_number ELT_INT32 = 6" | "elt_number ELT_INT64 = 7" | "elt_number ELT_STRING = 8"
| "elt_number ELT_BOOL = 9" | "elt_number ELT_FLOAT16 = 10" | "elt_number ELT_DOUBLE = 11"
| "elt_number ELT_UINT32 = 12" | "elt_number ELT_UINT64 = 13" | "elt_number ELT_COMPLEX64 = 14"
| "elt_number ELT_COMPLEX128 = 15" | "elt_number ELT_BFLOAT16 = 16"

lemma elt_type_of_number: "elt_type_of (JInt (elt_number t)) = Some t"
  by (cases t) (simp_all add: elt_type_of_def)

definition element_code :: "jval \<Rightarrow> jval" where
  "element_code v = JInt (case elt_type_of v of Some t \<Rightarrow> convertFromONNXDataFormat t | None \<Rightarrow> - 1)"

definition OnnxTensorType_class :: jval where
  "OnnxTensorType_class = JCStr ''ai/onnxruntime/TensorInfo$OnnxTensorType''"
definition OnnxTensorType_sig :: jval where
  "OnnxTensorType_sig = JCStr ''(I)Lai/onnxruntime/TensorInfo$OnnxTensorType;''"
definition OnnxJavaType_class :: jval where
  "OnnxJavaType_class = JCStr ''ai/onnxruntime/OnnxJavaType''"
definition OnnxJavaType_sig :: jval where
  "OnnxJavaType_sig = JCStr ''(Lai/onnxruntime/TensorInfo$OnnxTensorType;)Lai/onnxruntime/OnnxJavaType;''"
definition MapInfo_sig :: jval where
  "MapInfo_sig = JCStr ''(ILai/onnxruntime/OnnxJavaType;Lai/onnxruntime/OnnxJavaType;)V''"

text \<open>
  C conversions: a \<open>size_t\<close>, and the signed integer types of \<open>n\<close> bits (\<open>jint\<close>, which is also
  \<open>jsize\<close>, and \<open>jlong\<close>).
\<close>

definition usize :: "int \<Rightarrow> jval" where
  "usize n = JInt (n mod 2 ^ 64)"

definition to_signed :: "nat \<Rightarrow> int \<Rightarrow> int" where
  "to_signed bits k = (k + 2 ^ (bits - 1)) mod 2 ^ bits - 2 ^ (bits - 1)"

definition jint :: "int \<Rightarrow> jval" where
  "jint n = JInt (to_signed 32 n)"

definition jlong :: "int \<Rightarrow> jval" where
  "jlong n = JInt (to_signed 64 n)"

section \<open>Type descriptions\<close>

definition convertToTensorInfo :: "env \<Rightarrow> jval \<Rightarrow> jval jni" where
  "convertToTensorInfo E info = do {
     onnxType \<leftarrow> checked E GetTensorElementType [info];
     numDim \<leftarrow> checked E GetDimensionsCount [info];
     dimensions \<leftarrow> ret E malloc [usize (8 * int_of numDim)];
     check E GetDimensions [info, dimensions, numDim];
     let onnxTypeInt = element_code onnxType;
     shape \<leftarrow> ret E NewLongArray [jint (int_of numDim)];
     run E SetLongArrayRegion [shape, JInt 0, jint (int_of numDim), dimensions];
     run E free [dimensions];
     clazz \<leftarrow> ret E FindClass [OnnxTensorType_class];
     mapFromInt \<leftarrow> ret E GetStaticMethodID [clazz, JCStr ''mapFromInt'', OnnxTensorType_sig];
     onnxTensorTypeJava \<leftarrow> ret E CallStaticObjectMethod [clazz, mapFromInt, onnxTypeInt];
     clazz2 \<leftarrow> ret E FindClass [OnnxJavaType_class];
     mapFromOnnx \<leftarrow> ret E GetStaticMethodID [clazz2, JCStr ''mapFromOnnxTensorType'', OnnxJavaType_sig];
     javaDataType \<leftarrow> ret E CallStaticObjectMethod [clazz2, mapFromOnnx, onnxTensorTypeJava];
     clazz3 \<leftarrow> ret E FindClass [JCStr ''ai/onnxruntime/TensorInfo''];
     ctor \<leftarrow> ret E GetMethodID [clazz3, JCStr ''<init>'',
       JCStr ''([JLai/onnxruntime/OnnxJavaType;Lai/onnxruntime/TensorInfo$OnnxTensorType;)V''];
     ret E NewObject [clazz3, ctor, shape, javaDataType, onnxTensorTypeJava]
   }"

definition convertToMapInfo :: "env \<Rightarrow> jval \<Rightarrow> jval jni" where
  "convertToMapInfo E info = do {
     tensorTypeClazz \<leftarrow> ret E FindClass [OnnxTensorType_class];
     mapFromInt \<leftarrow> ret E GetStaticMethodID [tensorTypeClazz, JCStr ''mapFromInt'', OnnxTensorType_sig];
     javaTypeClazz \<leftarrow> ret E FindClass [OnnxJavaType_class];
     mapFromOnnx \<leftarrow> ret E GetStaticMethodID
       [javaTypeClazz, JCStr ''mapFromOnnxTensorType'', OnnxJavaType_sig];
     mapInfoClazz \<leftarrow> ret E FindClass [JCStr ''ai/onnxruntime/MapInfo''];
     ctor \<leftarrow> ret E GetMethodID [mapInfoClazz, JCStr ''<init>'', MapInfo_sig];
     keyType \<leftarrow> checked E GetMapKeyType [info];
     tensorTypeKey \<leftarrow> ret E CallStaticObjectMethod [tensorTypeClazz, mapFromInt, element_code keyType];
     javaTypeKey \<leftarrow> ret E CallStaticObjectMethod [javaTypeClazz, mapFromOnnx, tensorTypeKey];
     valueTypeInfo \<leftarrow> checked E GetMapValueType [info];
     tensorValueInfo \<leftarrow> checked E CastTypeInfoToTensorInfo [valueTypeInfo];
     valueType \<leftarrow> checked E GetTensorElementType [tensorValueInfo];
     run E ReleaseTypeInfo [valueTypeInfo];
     tensorTypeValue \<leftarrow> ret E CallStaticObjectMethod
       [tensorTypeClazz, mapFromInt, element_code valueType];
     javaTypeValue \<leftarrow> ret E CallStaticObjectMethod [javaTypeClazz, mapFromOnnx, tensorTypeValue];
     ret E NewObject [mapInfoClazz, ctor, JInt (- 1), javaTypeKey, javaTypeValue]
   }"

definition createEmptyMapInfo :: "env \<Rightarrow> jval jni" where
  "createEmptyMapInfo E = do {
     clazz \<leftarrow> ret E FindClass [OnnxJavaType_class];
     mapFromInt \<leftarrow> ret E GetStaticMethodID
       [clazz, JCStr ''mapFromInt'', JCStr ''(I)Lai/onnxruntime/OnnxJavaType;''];
     unknownType \<leftarrow> ret E CallStaticObjectMethod [clazz, mapFromInt, JInt 0];
     clazz2 \<leftarrow> ret E FindClass [JCStr ''ai/onnxruntime/MapInfo''];
     ctor \<leftarrow> ret E GetMethodID [clazz2, JCStr ''<init>'',
       JCStr ''(Lai/onnxruntime/OnnxJavaType;Lai/onnxruntime/OnnxJavaType;)V''];
     ret E NewObject [clazz2, ctor, unknownType, unknownType]
   }"

definition createEmptySequenceInfo :: "env \<Rightarrow> jval jni" where
  "createEmptySequenceInfo E = do {
     clazz \<leftarrow> ret E FindClass [OnnxJavaType_class];
     mapFromInt \<leftarrow> ret E GetStaticMethodID
       [clazz, JCStr ''mapFromInt'', JCStr ''(I)Lai/onnxruntime/OnnxJavaType;''];
     unknownType \<leftarrow> ret E CallStaticObjectMethod [clazz, mapFromInt, JInt 0];
     clazz2 \<leftarrow> ret E FindClass [JCStr ''ai/onnxruntime/SequenceInfo''];
     ctor \<leftarrow> ret E GetMethodID [clazz2, JCStr ''<init>'',
       JCStr ''(ILai/onnxruntime/OnnxJavaType;)V''];
     ret E NewObject [clazz2, ctor, JInt (- 1), unknownType]
   }"

definition convertToSequenceInfo :: "env \<Rightarrow> jval \<Rightarrow> jval jni" where
  "convertToSequenceInfo E info = do {
     sequenceInfoClazz \<leftarrow> ret E FindClass [JCStr ''ai/onnxruntime/SequenceInfo''];
     elementTypeInfo \<leftarrow> checked E GetSequenceElementType [info];
     type \<leftarrow> checked E GetOnnxTypeFromTypeInfo [elementTypeInfo];
     sequenceInfo \<leftarrow>
       (if onnx_type_of type = Some ONNX_TYPE_TENSOR then do {
          elementTensorInfo \<leftarrow> checked E CastTypeInfoToTensorInfo [elementTypeInfo];
          element \<leftarrow> checked E GetTensorElementType [elementTensorInfo];
          tensorTypeClazz \<leftarrow> ret E FindClass [OnnxTensorType_class];
          mapFromInt \<leftarrow> ret E GetStaticMethodID [tensorTypeClazz, JCStr ''mapFromInt'', OnnxTensorType_sig];
          tensorTypeJava \<leftarrow> ret E CallStaticObjectMethod [tensorTypeClazz, mapFromInt, element_code element];
          javaTypeClazz \<leftarrow> ret E FindClass [OnnxJavaType_class];
          mapFromOnnx \<leftarrow> ret E GetStaticMethodID
            [javaTypeClazz, JCStr ''mapFromOnnxTensorType'', OnnxJavaType_sig];
          onnxJavaType \<leftarrow> ret E CallStaticObjectMethod [javaTypeClazz, mapFromOnnx, tensorTypeJava];
          ctor \<leftarrow> ret E GetMethodID [sequenceInfoClazz, JCStr ''<init>'',
            JCStr ''(ILai/onnxruntime/OnnxJavaType;)V''];
          ret E NewObject [sequenceInfoClazz, ctor, JInt (- 1), onnxJavaType]
        }
        else if onnx_type_of type = Some ONNX_TYPE_MAP then do {
          mapInfo \<leftarrow> checked E CastTypeInfoToMapTypeInfo [elementTypeInfo];
          javaMapInfo \<leftarrow> convertToMapInfo E mapInfo;
          ctor \<leftarrow> ret E GetMethodID [sequenceInfoClazz, JCStr ''<init>'',
            JCStr ''(ILai/onnxruntime/MapInfo;)V''];
          ret E NewObject [sequenceInfoClazz, ctor, JInt (- 1), javaMapInfo]
        }
        else do {
          sequenceInfo \<leftarrow> createEmptySequenceInfo E;
          throw_code E ORT_INVALID_ARGUMENT ''Invalid element type found in sequence'';
          State_Monad.return sequenceInfo
        });
     run E ReleaseTypeInfo [elementTypeInfo];
     State_Monad.return sequenceInfo
   }"

definition convertToValueInfo :: "env \<Rightarrow> jval \<Rightarrow> jval jni" where
  "convertToValueInfo E info = do {
     type \<leftarrow> checked E GetOnnxTypeFromTypeInfo [info];
     if onnx_type_of type = Some ONNX_TYPE_TENSOR then do {
       tensorInfo \<leftarrow> checked E CastTypeInfoToTensorInfo [info];
       convertToTensorInfo E tensorInfo
     }
     else if onnx_type_of type = Some ONNX_TYPE_SEQUENCE then do {
       sequenceInfo \<leftarrow> checked E CastTypeInfoToSequenceTypeInfo [info];
       convertToSequenceInfo E sequenceInfo
     }
     else if onnx_type_of type = Some ONNX_TYPE_MAP then do {
       mapInfo \<leftarrow> checked E CastTypeInfoToMapTypeInfo [info];
       convertToMapInfo E mapInfo
     }
     else do {
       throw_code E ORT_NOT_IMPLEMENTED ''Invalid ONNXType found.'';
       State_Monad.return JNULL
     }
   }"

section \<open>Strings and arrays of a tensor\<close>

definition createStringFromStringTensor :: "env \<Rightarrow> jval \<Rightarrow> jval \<Rightarrow> jval jni" where
  "createStringFromStringTensor E allocator tensor = do {
     totalStringLength \<leftarrow> checked E GetStringTensorDataLength [tensor];
     characterBuffer \<leftarrow> checked E AllocatorAlloc [allocator, usize (int_of totalStringLength + 1)];
     offsets \<leftarrow> checked E AllocatorAlloc [allocator, usize 8];
     check E GetStringTensorContent [tensor, characterBuffer, totalStringLength, offsets, JInt 1];
     offset \<leftarrow> ret E load [offsets, JInt 0];
     let curSize = (int_of offset + 1) mod 2 ^ 64;
     run E store [characterBuffer, usize (curSize - 1), JInt 0];
     tempString \<leftarrow> ret E NewStringUTF [characterBuffer];
     check E AllocatorFree [allocator, characterBuffer];
     check E AllocatorFree [allocator, offsets];
     State_Monad.return tempString
   }"

text \<open>
  The loop of \<open>copyStringTensorToArray\<close> from string \<open>i\<close> on, \<open>n\<close> strings to go; the result is
  the last \<open>tempBuffer\<close>. The buffer grows when a string does not fit.
\<close>

fun copy_strings ::
    "env \<Rightarrow> jval \<Rightarrow> jval \<Rightarrow> jval \<Rightarrow> jval \<Rightarrow> nat \<Rightarrow> nat \<Rightarrow> jval \<Rightarrow> int \<Rightarrow> jval jni" where
  "copy_strings E allocator characterBuffer offsets outputArray i 0 tempBuffer bufferSize =
     State_Monad.return tempBuffer"
| "copy_strings E allocator characterBuffer offsets outputArray i (Suc n) tempBuffer bufferSize = do {
     next \<leftarrow> ret E load [offsets, JInt (int i + 1)];
     this \<leftarrow> ret E load [offsets, JInt (int i)];
     let curSize = (int_of next - int_of this + 1) mod 2 ^ 64;
     (tempBuffer, bufferSize) \<leftarrow>
       (if curSize > bufferSize then do {
          check E AllocatorFree [allocator, tempBuffer];
          tempBuffer \<leftarrow> checked E AllocatorAlloc [allocator, JInt curSize];
          State_Monad.return (tempBuffer, curSize)
        }
        else State_Monad.return (tempBuffer, bufferSize));
     start \<leftarrow> ret E load [offsets, JInt (int i)];
     run E memcpy [tempBuffer, characterBuffer, start, JInt curSize];
     run E store [tempBuffer, usize (curSize - 1), JInt 0];
     tempString \<leftarrow> ret E NewStringUTF [tempBuffer];
     run E SetObjectArrayElement [outputArray, jint (int i), tempString];
     copy_strings E allocator characterBuffer offsets outputArray (Suc i) n tempBuffer bufferSize
   }"

definition copyStringTensorToArray :: "env \<Rightarrow> jval \<Rightarrow> jval \<Rightarrow> nat \<Rightarrow> jval \<Rightarrow> unit jni" where
  "copyStringTensorToArray E allocator tensor n outputArray = do {
     totalStringLength \<leftarrow> checked E GetStringTensorDataLength [tensor];
     characterBuffer \<leftarrow> checked E AllocatorAlloc [allocator, usize (int_of totalStringLength + int n)];
     offsets \<leftarrow> checked E AllocatorAlloc [allocator, usize (8 * (int n + 1))];
     check E GetStringTensorContent
       [tensor, characterBuffer, totalStringLength, offsets, JInt (int n)];
     check E GetStringTensorDataLength [tensor, offsets, JInt (int n)];
     tempBuffer \<leftarrow> copy_strings E allocator characterBuffer offsets outputArray 0 n JNULL 0;
     (if tempBuffer \<noteq> JNULL then check E AllocatorFree [allocator, tempBuffer]
       else State_Monad.return ());
     check E AllocatorFree [allocator, characterBuffer];
     check E AllocatorFree [allocator, offsets]
   }"

definition createStringArrayFromTensor :: "env \<Rightarrow> jval \<Rightarrow> jval \<Rightarrow> jval jni" where
  "createStringArrayFromTensor E allocator tensor = do {
     tensorInfo \<leftarrow> checked E GetTensorTypeAndShape [tensor];
     n \<leftarrow> checked E GetTensorShapeElementCount [tensorInfo];
     run E ReleaseTensorTypeAndShapeInfo [tensorInfo];
     stringClazz \<leftarrow> ret E FindClass [JCStr ''java/lang/String''];
     outputArray \<leftarrow> ret E NewObjectArray [jint (int_of n), stringClazz, JNULL];
     copyStringTensorToArray E allocator tensor (nat (int_of n)) outputArray;
     State_Monad.return outputArray
   }"

definition createLongArrayFromTensor :: "env \<Rightarrow> jval \<Rightarrow> jval jni" where
  "createLongArrayFromTensor E tensor = do {
     tensorInfo \<leftarrow> checked E GetTensorTypeAndShape [tensor];
     value \<leftarrow> checked E GetTensorElementType [tensorInfo];
     n \<leftarrow> checked E GetTensorShapeElementCount [tensorInfo];
     run E ReleaseTensorTypeAndShapeInfo [tensorInfo];
     arr \<leftarrow> checked E GetTensorMutableData [tensor];
     outputArray \<leftarrow> ret E NewLongArray [jint (int_of n)];
     run E copyPrimitiveArrayToJava [value, arr, outputArray];
     State_Monad.return outputArray
   }"

definition createFloatArrayFromTensor :: "env \<Rightarrow> jval \<Rightarrow> jval jni" where
  "createFloatArrayFromTensor E tensor = do {
     tensorInfo \<leftarrow> checked E GetTensorTypeAndShape [tensor];
     value \<leftarrow> checked E GetTensorElementType [tensorInfo];
     n \<leftarrow> checked E GetTensorShapeElementCount [tensorInfo];
     run E ReleaseTensorTypeAndShapeInfo [tensorInfo];
     arr \<leftarrow> checked E GetTensorMutableData [tensor];
     outputArray \<leftarrow> ret E NewFloatArray [jint (int_of n)];
     run E copyPrimitiveArrayToJava [value, arr, outputArray];
     State_Monad.return outputArray
   }"

definition createDoubleArrayFromTensor :: "env \<Rightarrow> jval \<Rightarrow> jval jni" where
  "createDoubleArrayFromTensor E tensor = do {
     tensorInfo \<leftarrow> checked E GetTensorTypeAndShape [tensor];
     value \<leftarrow> checked E GetTensorElementType [tensorInfo];
     n \<leftarrow> checked E GetTensorShapeElementCount [tensorInfo];
     run E ReleaseTensorTypeAndShapeInfo [tensorInfo];
     arr \<leftarrow> checked E GetTensorMutableData [tensor];
     outputArray \<leftarrow> ret E NewDoubleArray [jint (int_of n)];
     run E copyPrimitiveArrayToJava [value, arr, outputArray];
     State_Monad.return outputArray
   }"

section \<open>Values as Java objects\<close>

definition createJavaTensorFromONNX :: "env \<Rightarrow> jval \<Rightarrow> jval \<Rightarrow> jval jni" where
  "createJavaTensorFromONNX E allocator tensor = do {
     info \<leftarrow> checked E GetTensorTypeAndShape [tensor];
     tensorInfo \<leftarrow> convertToTensorInfo E info;
     run E ReleaseTensorTypeAndShapeInfo [info];
     clazz \<leftarrow> ret E FindClass [JCStr ''ai/onnxruntime/OnnxTensor''];
     ctor \<leftarrow> ret E GetMethodID [clazz, JCStr ''<init>'', JCStr ''(JJLai/onnxruntime/TensorInfo;)V''];
     ret E NewObject [clazz, ctor, tensor, allocator, tensorInfo]
   }"

definition createJavaSequenceFromONNX :: "env \<Rightarrow> jval \<Rightarrow> jval \<Rightarrow> jval jni" where
  "createJavaSequenceFromONNX E allocator sequence = do {
     tensorTypeClazz \<leftarrow> ret E FindClass [OnnxTensorType_class];
     mapFromInt \<leftarrow> ret E GetStaticMethodID [tensorTypeClazz, JCStr ''mapFromInt'', OnnxTensorType_sig];
     javaTypeClazz \<leftarrow> ret E FindClass [OnnxJavaType_class];
     mapFromOnnx \<leftarrow> ret E GetStaticMethodID
       [javaTypeClazz, JCStr ''mapFromOnnxTensorType'', OnnxJavaType_sig];
     sequenceInfoClazz \<leftarrow> ret E FindClass [JCStr ''ai/onnxruntime/SequenceInfo''];
     count \<leftarrow> checked E GetValueCount [sequence];
     firstElement \<leftarrow> checked E GetValue [sequence, JInt 0, allocator];
     elementType \<leftarrow> checked E GetValueType [firstElement];
     sequenceInfo \<leftarrow>
       (if onnx_type_of elementType = Some ONNX_TYPE_TENSOR then do {
          firstElementInfo \<leftarrow> checked E GetTensorTypeAndShape [firstElement];
          element \<leftarrow> checked E GetTensorElementType [firstElementInfo];
          run E ReleaseTensorTypeAndShapeInfo [firstElementInfo];
          tensorTypeJava \<leftarrow> ret E CallStaticObjectMethod [tensorTypeClazz, mapFromInt, element_code element];
          onnxJavaType \<leftarrow> ret E CallStaticObjectMethod [javaTypeClazz, mapFromOnnx, tensorTypeJava];
          ctor \<leftarrow> ret E GetMethodID [sequenceInfoClazz, JCStr ''<init>'',
            JCStr ''(ILai/onnxruntime/OnnxJavaType;)V''];
          ret E NewObject [sequenceInfoClazz, ctor, jint (int_of count), onnxJavaType]
        }
        else if onnx_type_of elementType = Some ONNX_TYPE_MAP then do {
          keys \<leftarrow> checked E GetValue [firstElement, JInt 0, allocator];
          keysInfo \<leftarrow> checked E GetTensorTypeAndShape [keys];
          key \<leftarrow> checked E GetTensorElementType [keysInfo];
          mapCount \<leftarrow> checked E GetTensorShapeElementCount [keysInfo];
          run E ReleaseTensorTypeAndShapeInfo [keysInfo];
          tensorTypeKey \<leftarrow> ret E CallStaticObjectMethod [tensorTypeClazz, mapFromInt, element_code key];
          javaTypeKey \<leftarrow> ret E CallStaticObjectMethod [javaTypeClazz, mapFromOnnx, tensorTypeKey];
          values \<leftarrow> checked E GetValue [firstElement, JInt 1, allocator];
          valuesInfo \<leftarrow> checked E GetTensorTypeAndShape [values];
          value \<leftarrow> checked E GetTensorElementType [valuesInfo];
          run E ReleaseTensorTypeAndShapeInfo [valuesInfo];
          tensorTypeValue \<leftarrow> ret E CallStaticObjectMethod [tensorTypeClazz, mapFromInt, element_code value];
          javaTypeValue \<leftarrow> ret E CallStaticObjectMethod [javaTypeClazz, mapFromOnnx, tensorTypeValue];
          mapInfoClazz \<leftarrow> ret E FindClass [JCStr ''ai/onnxruntime/MapInfo''];
          mapCtor \<leftarrow> ret E GetMethodID [mapInfoClazz, JCStr ''<init>'', MapInfo_sig];
          mapInfo \<leftarrow> ret E NewObject [mapInfoClazz, mapCtor, jint (int_of mapCount), javaTypeKey, javaTypeValue];
          run E ReleaseValue [keys];
          run E ReleaseValue [values];
          ctor \<leftarrow> ret E GetMethodID [sequenceInfoClazz, JCStr ''<init>'',
            JCStr ''(ILai/onnxruntime/MapInfo;)V''];
          ret E NewObject [sequenceInfoClazz, ctor, jint (int_of count), mapInfo]
        }
        else do {
          sequenceInfo \<leftarrow> createEmptySequenceInfo E;
          throw_code E ORT_INVALID_ARGUMENT ''Invalid element type found in sequence'';
          State_Monad.return sequenceInfo
        });
     run E ReleaseValue [firstElement];
     sequenceClazz \<leftarrow> ret E FindClass [JCStr ''ai/onnxruntime/OnnxSequence''];
     sequenceCtor \<leftarrow> ret E GetMethodID [sequenceClazz, JCStr ''<init>'',
       JCStr ''(JJLai/onnxruntime/SequenceInfo;)V''];
     ret E NewObject [sequenceClazz, sequenceCtor, sequence, allocator, sequenceInfo]
   }"

definition createJavaMapFromONNX :: "env \<Rightarrow> jval \<Rightarrow> jval \<Rightarrow> jval jni" where
  "createJavaMapFromONNX E allocator map_handle = do {
     tensorTypeClazz \<leftarrow> ret E FindClass [OnnxTensorType_class];
     mapFromInt \<leftarrow> ret E GetStaticMethodID [tensorTypeClazz, JCStr ''mapFromInt'', OnnxTensorType_sig];
     javaTypeClazz \<leftarrow> ret E FindClass [OnnxJavaType_class];
     mapFromOnnx \<leftarrow> ret E GetStaticMethodID
       [javaTypeClazz, JCStr ''mapFromOnnxTensorType'', OnnxJavaType_sig];
     mapInfoClazz \<leftarrow> ret E FindClass [JCStr ''ai/onnxruntime/MapInfo''];
     keys \<leftarrow> checked E GetValue [map_handle, JInt 0, allocator];
     keysInfo \<leftarrow> checked E GetTensorTypeAndShape [keys];
     key \<leftarrow> checked E GetTensorElementType [keysInfo];
     mapCount \<leftarrow> checked E GetTensorShapeElementCount [keysInfo];
     run E ReleaseTensorTypeAndShapeInfo [keysInfo];
     tensorTypeKey \<leftarrow> ret E CallStaticObjectMethod [tensorTypeClazz, mapFromInt, element_code key];
     javaTypeKey \<leftarrow> ret E CallStaticObjectMethod [javaTypeClazz, mapFromOnnx, tensorTypeKey];
     values \<leftarrow> checked E GetValue [map_handle, JInt 1, allocator];
     valuesInfo \<leftarrow> checked E GetTensorTypeAndShape [values];
     value \<leftarrow> checked E GetTensorElementType [valuesInfo];
     run E ReleaseTensorTypeAndShapeInfo [valuesInfo];
     tensorTypeValue \<leftarrow> ret E CallStaticObjectMethod [tensorTypeClazz, mapFromInt, element_code value];
     javaTypeValue \<leftarrow> ret E CallStaticObjectMethod [javaTypeClazz, mapFromOnnx, tensorTypeValue];
     mapCtor \<leftarrow> ret E GetMethodID [mapInfoClazz, JCStr ''<init>'', MapInfo_sig];
     mapInfo \<leftarrow> ret E NewObject [mapInfoClazz, mapCtor, jint (int_of mapCount), javaTypeKey, javaTypeValue];
     check E AllocatorFree [allocator, keys];
     check E AllocatorFree [allocator, values];
     mapClazz \<leftarrow> ret E FindClass [JCStr ''ai/onnxruntime/OnnxMap''];
     ctor \<leftarrow> ret E GetMethodID [mapClazz, JCStr ''<init>'', JCStr ''(JJLai/onnxruntime/MapInfo;)V''];
     ret E NewObject [mapClazz, ctor, map_handle, allocator, mapInfo]
   }"

definition convertOrtValueToONNXValue :: "env \<Rightarrow> jval \<Rightarrow> jval \<Rightarrow> jval jni" where
  "convertOrtValueToONNXValue E allocator onnxValue = do {
     valueType \<leftarrow> checked E GetValueType [onnxValue];
     if onnx_type_of valueType = Some ONNX_TYPE_TENSOR then createJavaTensorFromONNX E allocator onnxValue
     else if onnx_type_of valueType = Some ONNX_TYPE_SEQUENCE then
       createJavaSequenceFromONNX E allocator onnxValue
     else if onnx_type_of valueType = Some ONNX_TYPE_MAP then createJavaMapFromONNX E allocator onnxValue
     else if onnx_type_of valueType \<noteq> None then do {
       throw_code E ORT_NOT_IMPLEMENTED
         ''These types are unsupported - ONNX_TYPE_UNKNOWN, ONNX_TYPE_OPAQUE, ONNX_TYPE_SPARSETENSOR.'';
       State_Monad.return JNULL
     }
     else State_Monad.return JNULL
   }"

section \<open>Nothing is leaked\<close>

lemma convertToTensorInfo_leak_free: "leak_free (convertToTensorInfo E info)"
  unfolding convertToTensorInfo_def Let_def by (intro leak_freeI handle_rules) simp

lemma convertToMapInfo_leak_free: "leak_free (convertToMapInfo E info)"
  unfolding convertToMapInfo_def by (intro leak_freeI handle_rules) simp

lemma createEmptyMapInfo_leak_free: "leak_free (createEmptyMapInfo E)"
  unfolding createEmptyMapInfo_def by (intro leak_freeI handle_rules) simp

lemma createEmptySequenceInfo_leak_free: "leak_free (createEmptySequenceInfo E)"
  unfolding createEmptySequenceInfo_def by (intro leak_freeI handle_rules) simp

lemmas info_nets =
  convertToTensorInfo_leak_free [THEN leak_freeD] convertToMapInfo_leak_free [THEN leak_freeD]
  createEmptySequenceInfo_leak_free [THEN leak_freeD]

lemma convertToSequenceInfo_leak_free: "leak_free (convertToSequenceInfo E info)"
  unfolding convertToSequenceInfo_def
  by (intro leak_freeI handle_rules info_nets [THEN net_bind_0]) simp_all

lemma convertToValueInfo_leak_free: "leak_free (convertToValueInfo E info)"
  unfolding convertToValueInfo_def
  by (intro leak_freeI handle_rules info_nets [THEN net_cong]
      convertToSequenceInfo_leak_free [THEN leak_freeD, THEN net_cong]) simp_all

lemma createStringFromStringTensor_leak_free:
  "leak_free (createStringFromStringTensor E allocator tensor)"
  unfolding createStringFromStringTensor_def Let_def by (intro leak_freeI handle_rules) simp

lemma copy_strings_net:
  "net (handle_weight r v) (copy_strings E allocator buf offsets arr i n temp sz)
    (\<lambda>x. of_bool (r = R_Alloc \<and> v \<noteq> JNULL \<and> x = v) - of_bool (r = R_Alloc \<and> v \<noteq> JNULL \<and> temp = v))"
proof (induction n arbitrary: i temp sz)
  case (Suc n)
  show ?case
    unfolding copy_strings.simps Let_def
    by (intro handle_rules Suc.IH [THEN net_cong]) simp_all
qed (simp add: net_return)

lemma copyStringTensorToArray_leak_free:
  "leak_free (copyStringTensorToArray E allocator tensor n outputArray)"
proof (rule leak_freeI)
  fix r v
  show "net (handle_weight r v) (copyStringTensorToArray E allocator tensor n outputArray) (\<lambda>_. 0)"
    unfolding copyStringTensorToArray_def
    by (intro handle_rules net_bind [OF copy_strings_net]) auto
qed

lemmas string_nets =
  createStringFromStringTensor_leak_free [THEN leak_freeD] copyStringTensorToArray_leak_free [THEN leak_freeD]

lemma createStringArrayFromTensor_leak_free: "leak_free (createStringArrayFromTensor E allocator tensor)"
  unfolding createStringArrayFromTensor_def
  by (intro leak_freeI handle_rules string_nets [THEN net_bind_0]) simp

lemma createLongArrayFromTensor_leak_free: "leak_free (createLongArrayFromTensor E tensor)"
  unfolding createLongArrayFromTensor_def by (intro leak_freeI handle_rules) simp

lemma createFloatArrayFromTensor_leak_free: "leak_free (createFloatArrayFromTensor E tensor)"
  unfolding createFloatArrayFromTensor_def by (intro leak_freeI handle_rules) simp

lemma createDoubleArrayFromTensor_leak_free: "leak_free (createDoubleArrayFromTensor E tensor)"
  unfolding createDoubleArrayFromTensor_def by (intro leak_freeI handle_rules) simp

lemmas array_nets =
  createStringArrayFromTensor_leak_free [THEN leak_freeD] createLongArrayFromTensor_leak_free [THEN leak_freeD]
  createFloatArrayFromTensor_leak_free [THEN leak_freeD] createDoubleArrayFromTensor_leak_free [THEN leak_freeD]

lemma createJavaTensorFromONNX_leak_free: "leak_free (createJavaTensorFromONNX E allocator tensor)"
  unfolding createJavaTensorFromONNX_def
  by (intro leak_freeI handle_rules info_nets [THEN net_bind_0]) simp

lemma createJavaSequenceFromONNX_leak_free: "leak_free (createJavaSequenceFromONNX E allocator sequence)"
  unfolding createJavaSequenceFromONNX_def
  by (intro leak_freeI handle_rules info_nets [THEN net_bind_0]) simp_all

text \<open>The values of a map are given to the allocator instead of \<open>ReleaseValue\<close>.\<close>

lemma createJavaMapFromONNX_kinds:
  "net (kind_weight r) (createJavaMapFromONNX E allocator m)
    (\<lambda>_. if r = R_Value then 2 else if r = R_Alloc then - 2 else 0)"
  unfolding createJavaMapFromONNX_def
  by (intro kind.rules net_rules) simp

lemma createJavaMapFromONNX_handles:
  assumes "r \<noteq> R_Value" "r \<noteq> R_Alloc"
  shows "net (handle_weight r v) (createJavaMapFromONNX E allocator m) (\<lambda>_. 0)"
  unfolding createJavaMapFromONNX_def using assms by (intro handle_rules) simp

lemma convertOrtValueToONNXValue_handles:
  assumes "r \<noteq> R_Value" "r \<noteq> R_Alloc"
  shows "net (handle_weight r v) (convertOrtValueToONNXValue E allocator x) (\<lambda>_. 0)"
  unfolding convertOrtValueToONNXValue_def
  by (intro handle_rules createJavaTensorFromONNX_leak_free [THEN leak_freeD, THEN net_cong]
      createJavaSequenceFromONNX_leak_free [THEN leak_freeD, THEN net_cong]
      createJavaMapFromONNX_handles [OF assms, THEN net_cong]) simp_all

section \<open>Every status is cleared\<close>

lemma convertToTensorInfo_cleared: "cleared (convertToTensorInfo E info)"
  unfolding convertToTensorInfo_def Let_def by (intro cleared_rules) simp_all

lemma convertToMapInfo_cleared: "cleared (convertToMapInfo E info)"
  unfolding convertToMapInfo_def by (intro cleared_rules) simp_all

lemma createEmptySequenceInfo_cleared: "cleared (createEmptySequenceInfo E)"
  unfolding createEmptySequenceInfo_def by (intro cleared_rules) simp_all

lemmas info_cleared = convertToTensorInfo_cleared convertToMapInfo_cleared createEmptySequenceInfo_cleared

lemma convertToSequenceInfo_cleared: "cleared (convertToSequenceInfo E info)"
  unfolding convertToSequenceInfo_def by (intro info_cleared cleared_rules) simp_all

lemma convertToValueInfo_cleared: "cleared (convertToValueInfo E info)"
  unfolding convertToValueInfo_def
  by (intro info_cleared convertToSequenceInfo_cleared cleared_rules) simp_all

lemma createStringFromStringTensor_cleared: "cleared (createStringFromStringTensor E allocator tensor)"
  unfolding createStringFromStringTensor_def Let_def by (intro cleared_rules) simp_all

lemma copy_strings_cleared: "cleared (copy_strings E allocator buf offsets arr i n temp sz)"
proof (induction n arbitrary: i temp sz)
  case (Suc n)
  show ?case
    unfolding copy_strings.simps Let_def case_prod_unfold by (intro Suc.IH cleared_rules) simp_all
qed (simp add: cleared_return)

lemma copyStringTensorToArray_cleared:
  "cleared (copyStringTensorToArray E allocator tensor n outputArray)"
  unfolding copyStringTensorToArray_def by (intro copy_strings_cleared cleared_rules) simp_all

lemma createStringArrayFromTensor_cleared: "cleared (createStringArrayFromTensor E allocator tensor)"
  unfolding createStringArrayFromTensor_def
  by (intro copyStringTensorToArray_cleared cleared_rules) simp_all

lemma createLongArrayFromTensor_cleared: "cleared (createLongArrayFromTensor E tensor)"
  unfolding createLongArrayFromTensor_def by (intro cleared_rules) simp_all

lemma createFloatArrayFromTensor_cleared: "cleared (createFloatArrayFromTensor E tensor)"
  unfolding createFloatArrayFromTensor_def by (intro cleared_rules) simp_all

lemma createDoubleArrayFromTensor_cleared: "cleared (createDoubleArrayFromTensor E tensor)"
  unfolding createDoubleArrayFromTensor_def by (intro cleared_rules) simp_all

lemma createJavaTensorFromONNX_cleared: "cleared (createJavaTensorFromONNX E allocator tensor)"
  unfolding createJavaTensorFromONNX_def by (intro info_cleared cleared_rules) simp_all

lemma createJavaSequenceFromONNX_cleared: "cleared (createJavaSequenceFromONNX E allocator sequence)"
  unfolding createJavaSequenceFromONNX_def by (intro info_cleared cleared_rules) simp_all

lemma createJavaMapFromONNX_cleared: "cleared (createJavaMapFromONNX E allocator m)"
  unfolding createJavaMapFromONNX_def by (intro cleared_rules) simp_all

lemma convertOrtValueToONNXValue_cleared: "cleared (convertOrtValueToONNXValue E allocator x)"
  unfolding convertOrtValueToONNXValue_def
  by (intro createJavaTensorFromONNX_cleared createJavaSequenceFromONNX_cleared
      createJavaMapFromONNX_cleared cleared_rules) simp_all

lemmas util_cleared =
  convertToValueInfo_cleared createStringFromStringTensor_cleared copyStringTensorToArray_cleared
  createStringArrayFromTensor_cleared createLongArrayFromTensor_cleared createFloatArrayFromTensor_cleared
  createDoubleArrayFromTensor_cleared convertOrtValueToONNXValue_cleared

section \<open>What Java relies on\<close>

text \<open>
  The conversions of types, strings, arrays, tensors and sequences to Java objects give
  back every handle they take (type and shape information, values, allocator buffers)
  exactly once, whatever the runtime answers.
\<close>
theorem util_leak_free:
  "leak_free (convertToValueInfo E info)
   \<and> leak_free (createEmptyMapInfo E)
   \<and> leak_free (createStringFromStringTensor E allocator tensor)
   \<and> leak_free (copyStringTensorToArray E allocator tensor n outputArray)
   \<and> leak_free (createStringArrayFromTensor E allocator tensor)
   \<and> leak_free (createLongArrayFromTensor E tensor)
   \<and> leak_free (createFloatArrayFromTensor E tensor)
   \<and> leak_free (createDoubleArrayFromTensor E tensor)
   \<and> leak_free (createJavaTensorFromONNX E allocator tensor)
   \<and> leak_free (createJavaSequenceFromONNX E allocator sequence)"
  by (intro conjI convertToValueInfo_leak_free createEmptyMapInfo_leak_free
      createStringFromStringTensor_leak_free copyStringTensorToArray_leak_free
      createStringArrayFromTensor_leak_free createLongArrayFromTensor_leak_free
      createFloatArrayFromTensor_leak_free createDoubleArrayFromTensor_leak_free
      createJavaTensorFromONNX_leak_free createJavaSequenceFromONNX_leak_free)

text \<open>
  Describing a map leaves two OrtValues (its keys and values) unreleased and gives two
  handles to the allocator that the allocator did not hand out; all other kinds of handles
  are balanced.
\<close>
theorem map_values_misfreed:
  "net (kind_weight R_Value) (createJavaMapFromONNX E allocator m) (\<lambda>_. 2)
   \<and> net (kind_weight R_Alloc) (createJavaMapFromONNX E allocator m) (\<lambda>_. - 2)
   \<and> net (kind_weight R_ShapeInfo) (createJavaMapFromONNX E allocator m) (\<lambda>_. 0)"
  using createJavaMapFromONNX_kinds [of R_Value E allocator m]
    createJavaMapFromONNX_kinds [of R_Alloc E allocator m]
    createJavaMapFromONNX_kinds [of R_ShapeInfo E allocator m] by simp

end
