(* ===== verification/JniTensor.thy ===== *)
theory JniTensor
  imports JniUtil
begin

text \<open>
  The native methods of ai.onnxruntime.OnnxTensor
  (java/src/main/native/ai_onnxruntime_OnnxTensor.c). A handle passed in from Java
  (\<open>jlong\<close>) is the pointer it was made from. \<open>load\<close> answers with the value read, at the type
  of the pointer; a float result is its bits. Arrays that a function fills itself are
  stored (\<open>store\<close>) and kept as the list of the elements stored, which is what it reads back:
  they are separate allocations.
\<close>

definition JNI_ABORT :: jval where "JNI_ABORT = JInt 2"

fun ptr_add :: "jval \<Rightarrow> int \<Rightarrow> jval" where
  "ptr_add (JPtr p) k = JPtr (nat (int p + k))"
| "ptr_add JNULL k = JPtr (nat k)"
| "ptr_add v k = v"

definition OnnxTensor_createTensor :: "env \<Rightarrow> jval \<Rightarrow> jval \<Rightarrow> jval \<Rightarrow> int \<Rightarrow> jval jni" where
  "OnnxTensor_createTensor E allocator dataObj shape onnxTypeJava = do {
     let onnxType = JInt (elt_number (convertToONNXDataFormat onnxTypeJava));
     shapeArr \<leftarrow> ret E GetLongArrayElements [shape];
     shapeLen \<leftarrow> ret E GetArrayLength [shape];
     ortValue \<leftarrow> checked E CreateTensorAsOrtValue [allocator, shapeArr, shapeLen, onnxType];
     run E ReleaseLongArrayElements [shape, shapeArr, JNI_ABORT];
     tensorData \<leftarrow> checked E GetTensorMutableData [ortValue];
     info \<leftarrow> checked E GetTensorTypeAndShape [ortValue];
     dimensions \<leftarrow> checked E GetDimensionsCount [info];
     arrSize \<leftarrow> checked E GetTensorShapeElementCount [info];
     onnxTypeEnum \<leftarrow> checked E GetTensorElementType [info];
     run E ReleaseTensorTypeAndShapeInfo [info];
     run E copyJavaToTensor [onnxType, tensorData, arrSize, dimensions, dataObj];
     State_Monad.return ortValue
   }"

definition OnnxTensor_createTensorFromBuffer ::
    "env \<Rightarrow> jval \<Rightarrow> jval \<Rightarrow> int \<Rightarrow> jval \<Rightarrow> jval \<Rightarrow> int \<Rightarrow> jval jni" where
  "OnnxTensor_createTensorFromBuffer E allocator buffer bufferPos bufferSize shape onnxTypeJava = do {
     allocatorInfo \<leftarrow> checked E AllocatorGetInfo [allocator];
     let onnxType = JInt (elt_number (convertToONNXDataFormat onnxTypeJava));
     bufferArr \<leftarrow> ret E GetDirectBufferAddress [buffer];
     let bufferArr = ptr_add bufferArr bufferPos;
     shapeArr \<leftarrow> ret E GetLongArrayElements [shape];
     shapeLen \<leftarrow> ret E GetArrayLength [shape];
     ortValue \<leftarrow> checked E CreateTensorWithDataAsOrtValue
       [allocatorInfo, bufferArr, bufferSize, shapeArr, shapeLen, onnxType];
     run E ReleaseLongArrayElements [shape, shapeArr, JNI_ABORT];
     State_Monad.return ortValue
   }"

definition OnnxTensor_createString :: "env \<Rightarrow> jval \<Rightarrow> jval \<Rightarrow> jval jni" where
  "OnnxTensor_createString E allocator input = do {
     shapeArr \<leftarrow> checked E AllocatorAlloc [allocator, usize 8];
     run E store [shapeArr, JInt 0, JInt 1];
     ortValue \<leftarrow> checked E CreateTensorAsOrtValue
       [allocator, shapeArr, JInt 1, JInt (elt_number ELT_STRING)];
     check E AllocatorFree [allocator, shapeArr];
     stringBuffer \<leftarrow> ret E GetStringUTFChars [input, JNULL];
     check E FillStringTensor [ortValue, stringBuffer, JInt 1];
     run E ReleaseStringUTFChars [input, stringBuffer];
     State_Monad.return ortValue
   }"

text \<open>The loop that takes the characters of each string of a Java array, and the one that releases them.\<close>

definition get_strings :: "env \<Rightarrow> jval \<Rightarrow> jval \<Rightarrow> jval \<Rightarrow> nat \<Rightarrow> (jval \<times> jval) list jni" where
  "get_strings E stringArr javaStrings strings n = map_range 0 n (\<lambda>i. do {
     javaString \<leftarrow> ret E GetObjectArrayElement [stringArr, jint (int i)];
     run E store [javaStrings, JInt (int i), javaString];
     chars \<leftarrow> ret E GetStringUTFChars [javaString, JNULL];
     run E store [strings, JInt (int i), chars];
     State_Monad.return (javaString, chars)
   })"

definition release_strings :: "env \<Rightarrow> (jval \<times> jval) list \<Rightarrow> unit jni" where
  "release_strings E pairs = for_list pairs (\<lambda>p. run E ReleaseStringUTFChars [fst p, snd p])"

definition OnnxTensor_createStringTensor :: "env \<Rightarrow> jval \<Rightarrow> jval \<Rightarrow> jval \<Rightarrow> jval jni" where
  "OnnxTensor_createStringTensor E allocator stringArr shape = do {
     shapeArr \<leftarrow> ret E GetLongArrayElements [shape];
     shapeLen \<leftarrow> ret E GetArrayLength [shape];
     n \<leftarrow> ret E GetArrayLength [stringArr];
     ortValue \<leftarrow> checked E CreateTensorAsOrtValue
       [allocator, shapeArr, shapeLen, JInt (elt_number ELT_STRING)];
     run E ReleaseLongArrayElements [shape, shapeArr, JNI_ABORT];
     strings \<leftarrow> checked E AllocatorAlloc [allocator, usize (8 * int_of n)];
     javaStrings \<leftarrow> checked E AllocatorAlloc [allocator, usize (8 * int_of n)];
     pairs \<leftarrow> get_strings E stringArr javaStrings strings (nat (int_of n));
     check E FillStringTensor [ortValue, strings, n];
     release_strings E pairs;
     check E AllocatorFree [allocator, strings];
     check E AllocatorFree [allocator, javaStrings];
     State_Monad.return ortValue
   }"

definition OnnxTensor_getBuffer :: "env \<Rightarrow> jval \<Rightarrow> jval jni" where
  "OnnxTensor_getBuffer E handle = do {
     info \<leftarrow> checked E GetTensorTypeAndShape [handle];
     arrSize \<leftarrow> checked E GetTensorShapeElementCount [info];
     onnxTypeEnum \<leftarrow> checked E GetTensorElementType [info];
     run E ReleaseTensorTypeAndShapeInfo [info];
     let typeSize = (case elt_type_of onnxTypeEnum of Some t \<Rightarrow> onnxTypeSize t | None \<Rightarrow> 0);
     let sizeBytes = (int_of arrSize * int typeSize) mod 2 ^ 64;
     arr \<leftarrow> checked E GetTensorMutableData [handle];
     ret E NewDirectByteBuffer [arr, jlong sizeBytes]
   }"

definition OnnxTensor_getFloat :: "env \<Rightarrow> jval \<Rightarrow> int \<Rightarrow> jval jni" where
  "OnnxTensor_getFloat E handle onnxType =
     (if onnxType = 9 then do {
        arr \<leftarrow> checked E GetTensorMutableData [handle];
        half \<leftarrow> ret E load [arr, JInt 0];
        State_Monad.return (JInt (uint (convertHalfToFloat (word_of_int (int_of half)))))
      }
      else if onnxType = 10 then do {
        arr \<leftarrow> checked E GetTensorMutableData [handle];
        ret E load [arr, JInt 0]
      }
      else State_Monad.return (JInt 0x7fc00000))"

definition OnnxTensor_getDouble :: "env \<Rightarrow> jval \<Rightarrow> jval jni" where
  "OnnxTensor_getDouble E handle = do {
     arr \<leftarrow> checked E GetTensorMutableData [handle];
     ret E load [arr, JInt 0]
   }"

definition OnnxTensor_getByte :: "env \<Rightarrow> jval \<Rightarrow> int \<Rightarrow> jval jni" where
  "OnnxTensor_getByte E handle onnxType =
     (if onnxType = 1 then do {
        arr \<leftarrow> checked E GetTensorMutableData [handle];
        x \<leftarrow> ret E load [arr, JInt 0];
        State_Monad.return (JInt (to_signed 8 (int_of x)))
      }
      else if onnxType = 2 then do {
        arr \<leftarrow> checked E GetTensorMutableData [handle];
        x \<leftarrow> ret E load [arr, JInt 0];
        State_Monad.return (JInt (to_signed 8 (int_of x)))
      }
      else State_Monad.return (JInt 0))"

definition OnnxTensor_getShort :: "env \<Rightarrow> jval \<Rightarrow> int \<Rightarrow> jval jni" where
  "OnnxTensor_getShort E handle onnxType =
     (if onnxType = 3 then do {
        arr \<leftarrow> checked E GetTensorMutableData [handle];
        x \<leftarrow> ret E load [arr, JInt 0];
        State_Monad.return (JInt (to_signed 16 (int_of x)))
      }
      else if onnxType = 4 then do {
        arr \<leftarrow> checked E GetTensorMutableData [handle];
        x \<leftarrow> ret E load [arr, JInt 0];
        State_Monad.return (JInt (to_signed 16 (int_of x)))
      }
      else State_Monad.return (JInt 0))"

definition OnnxTensor_getInt :: "env \<Rightarrow> jval \<Rightarrow> int \<Rightarrow> jval jni" where
  "OnnxTensor_getInt E handle onnxType =
     (if onnxType = 5 then do {
        arr \<leftarrow> checked E GetTensorMutableData [handle];
        x \<leftarrow> ret E load [arr, JInt 0];
        State_Monad.return (JInt (to_signed 32 (int_of x)))
      }
      else if onnxType = 6 then do {
        arr \<leftarrow> checked E GetTensorMutableData [handle];
        x \<leftarrow> ret E load [arr, JInt 0];
        State_Monad.return (JInt (to_signed 32 (int_of x)))
      }
      else State_Monad.return (JInt 0))"

definition OnnxTensor_getLong :: "env \<Rightarrow> jval \<Rightarrow> int \<Rightarrow> jval jni" where
  "OnnxTensor_getLong E handle onnxType =
     (if onnxType = 7 then do {
        arr \<leftarrow> checked E GetTensorMutableData [handle];
        x \<leftarrow> ret E load [arr, JInt 0];
        State_Monad.return (JInt (to_signed 64 (int_of x)))
      }
      else if onnxType = 8 then do {
        arr \<leftarrow> checked E GetTensorMutableData [handle];
        x \<leftarrow> ret E load [arr, JInt 0];
        State_Monad.return (JInt (to_signed 64 (int_of x)))
      }
      else State_Monad.return (JInt 0))"

definition OnnxTensor_getString :: "env \<Rightarrow> jval \<Rightarrow> jval \<Rightarrow> jval jni" where
  "OnnxTensor_getString E handle allocator = do {
     outputArray \<leftarrow> createStringArrayFromTensor E allocator handle;
     result \<leftarrow> ret E GetObjectArrayElement [outputArray, JInt 0];
     run E DeleteLocalRef [outputArray];
     State_Monad.return result
   }"

definition OnnxTensor_getBool :: "env \<Rightarrow> jval \<Rightarrow> jval jni" where
  "OnnxTensor_getBool E handle = do {
     arr \<leftarrow> checked E GetTensorMutableData [handle];
     ret E load [arr, JInt 0]
   }"

definition OnnxTensor_getArray :: "env \<Rightarrow> jval \<Rightarrow> jval \<Rightarrow> jval \<Rightarrow> unit jni" where
  "OnnxTensor_getArray E handle allocator carrier = do {
     info \<leftarrow> checked E GetTensorTypeAndShape [handle];
     dimensions \<leftarrow> checked E GetDimensionsCount [info];
     arrSize \<leftarrow> checked E GetTensorShapeElementCount [info];
     onnxTypeEnum \<leftarrow> checked E GetTensorElementType [info];
     run E ReleaseTensorTypeAndShapeInfo [info];
     if elt_type_of onnxTypeEnum = Some ELT_STRING then
       copyStringTensorToArray E allocator handle (nat (int_of arrSize)) carrier
     else do {
       arr \<leftarrow> checked E GetTensorMutableData [handle];
       run E copyTensorToJava [onnxTypeEnum, arr, arrSize, dimensions, carrier]
     }
   }"

definition OnnxTensor_close :: "env \<Rightarrow> jval \<Rightarrow> unit jni" where
  "OnnxTensor_close E handle = run E ReleaseValue [handle]"

section \<open>Ownership\<close>

lemma get_strings_net:
  "net (handle_weight r v) (get_strings E stringArr javaStrings strings n)
    (\<lambda>pairs. sum_list (map (\<lambda>p. of_bool (r = R_Chars \<and> v \<noteq> JNULL \<and> snd p = v)) pairs))"
  unfolding get_strings_def by (rule net_map_range) (intro handle_rules, simp)

lemma release_strings_net:
  "net (handle_weight r v) (release_strings E pairs)
    (\<lambda>_. - sum_list (map (\<lambda>p. of_bool (r = R_Chars \<and> v \<noteq> JNULL \<and> snd p = v)) pairs))"
proof -
  have "net (handle_weight r v) (release_strings E pairs)
      (\<lambda>_. sum_list (map (\<lambda>p. - of_bool (r = R_Chars \<and> v \<noteq> JNULL \<and> snd p = v)) pairs))"
    unfolding release_strings_def by (rule net_for_list) (intro handle_rules, simp)
  then show ?thesis by (rule net_cong) (simp add: uminus_sum_list_map o_def)
qed

lemma createTensor_owns: "owns R_Value (OnnxTensor_createTensor E allocator dataObj shape type)"
  unfolding OnnxTensor_createTensor_def Let_def by (intro ownsI handle_rules) simp

lemma createTensorFromBuffer_owns:
  "owns R_Value (OnnxTensor_createTensorFromBuffer E allocator buffer pos sz shape type)"
  unfolding OnnxTensor_createTensorFromBuffer_def Let_def by (intro ownsI handle_rules) simp

lemma createString_owns: "owns R_Value (OnnxTensor_createString E allocator input)"
  unfolding OnnxTensor_createString_def by (intro ownsI handle_rules) simp

lemma createStringTensor_owns: "owns R_Value (OnnxTensor_createStringTensor E allocator stringArr shape)"
  unfolding OnnxTensor_createStringTensor_def
  by (intro ownsI handle_rules net_bind [OF get_strings_net] net_bind [OF release_strings_net]) simp

lemma close_frees: "frees R_Value handle (OnnxTensor_close E handle)"
  unfolding OnnxTensor_close_def by (intro freesI handle_rules) simp

lemma getBuffer_leak_free: "leak_free (OnnxTensor_getBuffer E handle)"
  unfolding OnnxTensor_getBuffer_def Let_def by (intro leak_freeI handle_rules) simp

lemma getString_leak_free: "leak_free (OnnxTensor_getString E handle allocator)"
  unfolding OnnxTensor_getString_def
  by (intro leak_freeI handle_rules array_nets [THEN net_bind_0]) simp

lemma getArray_leak_free: "leak_free (OnnxTensor_getArray E handle allocator carrier)"
  unfolding OnnxTensor_getArray_def
  by (intro leak_freeI handle_rules string_nets [THEN net_cong]) simp_all


text \<open>
  Reading a tensor takes nothing it does not give back: the buffer, the string and the
  array accessors release the type information, all string buffers and copies, also the
  ones that grow while the strings are copied.
\<close>
theorem tensor_reads_leak_free:
  "leak_free (OnnxTensor_getBuffer E handle)
   \<and> leak_free (OnnxTensor_getString E handle allocator)
   \<and> leak_free (OnnxTensor_getArray E handle allocator carrier)"
  by (intro conjI getBuffer_leak_free getString_leak_free getArray_leak_free)

section \<open>Scalar reads\<close>

lemma to_signed_bounds:
  "0 < bits \<Longrightarrow> - (2 ^ (bits - 1)) \<le> to_signed bits k \<and> to_signed bits k < 2 ^ (bits - 1)"
  by (cases bits) (simp_all add: to_signed_def)

lemma to_signed_id:
  assumes "- (2 ^ (bits - 1)) \<le> k" "k < 2 ^ (bits - 1)" "0 < bits"
  shows "to_signed bits k = k"
  using assms by (cases bits) (simp_all add: to_signed_def)

text \<open>
  \<open>reads_signed bits m\<close>: the last thing \<open>m\<close> does is a load, and its result is the two's
  complement value of the lowest \<open>bits\<close> bits of the value loaded.
\<close>

definition reads_signed :: "nat \<Rightarrow> jval jni \<Rightarrow> bool" where
  "reads_signed bits m \<longleftrightarrow> (\<forall>t. \<exists>u xs a y.
     run_state m t = (JInt y, u @ [Call load xs a])
     \<and> - (2 ^ (bits - 1)) \<le> y \<and> y < 2 ^ (bits - 1) \<and> y mod 2 ^ bits = int_of (out 0 a) mod 2 ^ bits)"

lemma reads_signedI:
  assumes "0 < bits"
  shows "reads_signed bits (do {
     arr \<leftarrow> checked E f ys;
     x \<leftarrow> ret E load [arr, JInt 0];
     State_Monad.return (JInt (to_signed bits (int_of x)))
   })"
proof -
  have "to_signed bits k mod 2 ^ bits = k mod 2 ^ bits" for k
    using assms by (simp add: to_signed_def mod_diff_left_eq)
  then show ?thesis
    using to_signed_bounds [OF assms]
    by (auto simp: reads_signed_def ret_def case_prod_unfold)
qed

text \<open>
  The integer accessors of a tensor: for a Java type code of an integer type of the
  accessor's width, signed or unsigned, the result is the value read as two's complement of
  that width (so an unsigned value above the maximum comes out negative), and for every
  other code the result is 0 and no call is made.
\<close>
theorem integer_reads:
  "(convertToONNXDataFormat type \<in> {ELT_UINT8, ELT_INT8} \<longrightarrow> reads_signed 8 (OnnxTensor_getByte E handle type))
   \<and> (convertToONNXDataFormat type \<in> {ELT_UINT16, ELT_INT16} \<longrightarrow> reads_signed 16 (OnnxTensor_getShort E handle type))
   \<and> (convertToONNXDataFormat type \<in> {ELT_UINT32, ELT_INT32} \<longrightarrow> reads_signed 32 (OnnxTensor_getInt E handle type))
   \<and> (convertToONNXDataFormat type \<in> {ELT_UINT64, ELT_INT64} \<longrightarrow> reads_signed 64 (OnnxTensor_getLong E handle type))
   \<and> (convertToONNXDataFormat type \<notin> {ELT_UINT8, ELT_INT8} \<longrightarrow> OnnxTensor_getByte E handle type = State_Monad.return (JInt 0))
   \<and> (convertToONNXDataFormat type \<notin> {ELT_UINT64, ELT_INT64} \<longrightarrow> OnnxTensor_getLong E handle type = State_Monad.return (JInt 0))"
  by (auto simp: convertToONNXDataFormat_def OnnxTensor_getByte_def OnnxTensor_getShort_def
      OnnxTensor_getInt_def OnnxTensor_getLong_def reads_signedI split: if_splits)

theorem integer_reads_witness:
  "reads_signed 8 (OnnxTensor_getByte (\<lambda>t f xs. (JNULL, [JInt 200])) (JPtr 1) 1)"
  using integer_reads [of 1 "\<lambda>t f xs. (JNULL, [JInt 200])" "JPtr 1"]
  by (simp add: convertToONNXDataFormat_def)

end
