(* ===== verification/JniContainers.thy ===== *)
theory JniContainers
  imports JniTensor
begin

text \<open>
  The native methods of ai.onnxruntime.OnnxMap and ai.onnxruntime.OnnxSequence
  (java/src/main/native/ai_onnxruntime_OnnxMap.c, ai_onnxruntime_OnnxSequence.c): the keys
  and values of a map, of an element of a sequence of maps, and the elements of a sequence.
\<close>

section \<open>OnnxMap\<close>

definition OnnxMap_getStringKeys :: "env \<Rightarrow> jval \<Rightarrow> jval \<Rightarrow> jval jni" where
  "OnnxMap_getStringKeys E handle allocator = do {
     keys \<leftarrow> checked E GetValue [handle, JInt 0, allocator];
     result \<leftarrow> createStringArrayFromTensor E allocator keys;
     run E ReleaseValue [keys];
     State_Monad.return result
   }"

definition OnnxMap_getLongKeys :: "env \<Rightarrow> jval \<Rightarrow> jval \<Rightarrow> jval jni" where
  "OnnxMap_getLongKeys E handle allocator = do {
     keys \<leftarrow> checked E GetValue [handle, JInt 0, allocator];
     result \<leftarrow> createLongArrayFromTensor E keys;
     run E ReleaseValue [keys];
     State_Monad.return result
   }"

definition OnnxMap_getStringValues :: "env \<Rightarrow> jval \<Rightarrow> jval \<Rightarrow> jval jni" where
  "OnnxMap_getStringValues E handle allocator = do {
     values \<leftarrow> checked E GetValue [handle, JInt 1, allocator];
     result \<leftarrow> createStringArrayFromTensor E allocator values;
     run E ReleaseValue [values];
     State_Monad.return result
   }"

definition OnnxMap_getLongValues :: "env \<Rightarrow> jval \<Rightarrow> jval \<Rightarrow> jval jni" where
  "OnnxMap_getLongValues E handle allocator = do {
     values \<leftarrow> checked E GetValue [handle, JInt 1, allocator];
     result \<leftarrow> createLongArrayFromTensor E values;
     run E ReleaseValue [values];
     State_Monad.return result
   }"

definition OnnxMap_getFloatValues :: "env \<Rightarrow> jval \<Rightarrow> jval \<Rightarrow> jval jni" where
  "OnnxMap_getFloatValues E handle allocator = do {
     values \<leftarrow> checked E GetValue [handle, JInt 1, allocator];
     result \<leftarrow> createFloatArrayFromTensor E values;
     run E ReleaseValue [values];
     State_Monad.return result
   }"

definition OnnxMap_getDoubleValues :: "env \<Rightarrow> jval \<Rightarrow> jval \<Rightarrow> jval jni" where
  "OnnxMap_getDoubleValues E handle allocator = do {
     values \<leftarrow> checked E GetValue [handle, JInt 1, allocator];
     result \<leftarrow> createDoubleArrayFromTensor E values;
     run E ReleaseValue [values];
     State_Monad.return result
   }"

definition OnnxMap_close :: "env \<Rightarrow> jval \<Rightarrow> unit jni" where
  "OnnxMap_close E handle = run E ReleaseValue [handle]"

section \<open>OnnxSequence\<close>

definition OnnxSequence_getStringKeys :: "env \<Rightarrow> jval \<Rightarrow> jval \<Rightarrow> int \<Rightarrow> jval jni" where
  "OnnxSequence_getStringKeys E handle allocator index = do {
     element \<leftarrow> checked E GetValue [handle, JInt index, allocator];
     keys \<leftarrow> checked E GetValue [element, JInt 0, allocator];
     result \<leftarrow> createStringArrayFromTensor E allocator keys;
     run E ReleaseValue [keys];
     State_Monad.return result
   }"

definition OnnxSequence_getLongKeys :: "env \<Rightarrow> jval \<Rightarrow> jval \<Rightarrow> int \<Rightarrow> jval jni" where
  "OnnxSequence_getLongKeys E handle allocator index = do {
     element \<leftarrow> checked E GetValue [handle, JInt index, allocator];
     keys \<leftarrow> checked E GetValue [element, JInt 0, allocator];
     result \<leftarrow> createLongArrayFromTensor E keys;
     run E ReleaseValue [keys];
     run E ReleaseValue [element];
     State_Monad.return result
   }"

definition OnnxSequence_getStringValues :: "env \<Rightarrow> jval \<Rightarrow> jval \<Rightarrow> int \<Rightarrow> jval jni" where
  "OnnxSequence_getStringValues E handle allocator index = do {
     element \<leftarrow> checked E GetValue [handle, JInt index, allocator];
     values \<leftarrow> checked E GetValue [element, JInt 1, allocator];
     result \<leftarrow> createStringArrayFromTensor E allocator values;
     run E ReleaseValue [values];
     State_Monad.return result
   }"

definition OnnxSequence_getLongValues :: "env \<Rightarrow> jval \<Rightarrow> jval \<Rightarrow> int \<Rightarrow> jval jni" where
  "OnnxSequence_getLongValues E handle allocator index = do {
     element \<leftarrow> checked E GetValue [handle, JInt index, allocator];
     values \<leftarrow> checked E GetValue [element, JInt 1, allocator];
     result \<leftarrow> createLongArrayFromTensor E values;
     run E ReleaseValue [values];
     run E ReleaseValue [element];
     State_Monad.return result
   }"

definition OnnxSequence_getFloatValues :: "env \<Rightarrow> jval \<Rightarrow> jval \<Rightarrow> int \<Rightarrow> jval jni" where
  "OnnxSequence_getFloatValues E handle allocator index = do {
     element \<leftarrow> checked E GetValue [handle, JInt index, allocator];
     values \<leftarrow> checked E GetValue [element, JInt 1, allocator];
     result \<leftarrow> createFloatArrayFromTensor E values;
     run E ReleaseValue [values];
     run E ReleaseValue [element];
     State_Monad.return result
   }"

definition OnnxSequence_getDoubleValues :: "env \<Rightarrow> jval \<Rightarrow> jval \<Rightarrow> int \<Rightarrow> jval jni" where
  "OnnxSequence_getDoubleValues E handle allocator index = do {
     element \<leftarrow> checked E GetValue [handle, JInt index, allocator];
     values \<leftarrow> checked E GetValue [element, JInt 1, allocator];
     result \<leftarrow> createDoubleArrayFromTensor E values;
     run E ReleaseValue [values];
     run E ReleaseValue [element];
     State_Monad.return result
   }"

definition OnnxSequence_getStrings :: "env \<Rightarrow> jval \<Rightarrow> jval \<Rightarrow> jval jni" where
  "OnnxSequence_getStrings E sequence allocator = do {
     count \<leftarrow> checked E GetValueCount [sequence];
     stringClazz \<leftarrow> ret E FindClass [JCStr ''java/lang/String''];
     outputArray \<leftarrow> ret E NewObjectArray [jint (int_of count), stringClazz, JNULL];
     for_range 0 (nat (int_of count)) (\<lambda>i. do {
       element \<leftarrow> checked E GetValue [sequence, jint (int i), allocator];
       _ \<leftarrow> createStringFromStringTensor E allocator element;
       run E ReleaseValue [element]
     });
     State_Monad.return outputArray
   }"

definition OnnxSequence_getLongs :: "env \<Rightarrow> jval \<Rightarrow> jval \<Rightarrow> jval jni" where
  "OnnxSequence_getLongs E sequence allocator = do {
     count \<leftarrow> checked E GetValueCount [sequence];
     values \<leftarrow> checked E AllocatorAlloc [allocator, usize (8 * int_of count)];
     for_range 0 (nat (int_of count)) (\<lambda>i. do {
       element \<leftarrow> checked E GetValue [sequence, jint (int i), allocator];
       arr \<leftarrow> checked E GetTensorMutableData [element];
       x \<leftarrow> ret E load [arr, JInt 0];
       run E store [values, JInt (int i), x];
       run E ReleaseValue [element]
     });
     outputArray \<leftarrow> ret E NewLongArray [jint (int_of count)];
     run E SetLongArrayRegion [outputArray, JInt 0, jint (int_of count), values];
     check E AllocatorFree [allocator, values];
     State_Monad.return outputArray
   }"

definition OnnxSequence_getFloats :: "env \<Rightarrow> jval \<Rightarrow> jval \<Rightarrow> jval jni" where
  "OnnxSequence_getFloats E sequence allocator = do {
     count \<leftarrow> checked E GetValueCount [sequence];
     values \<leftarrow> checked E AllocatorAlloc [allocator, usize (4 * int_of count)];
     for_range 0 (nat (int_of count)) (\<lambda>i. do {
       element \<leftarrow> checked E GetValue [sequence, jint (int i), allocator];
       arr \<leftarrow> checked E GetTensorMutableData [element];
       x \<leftarrow> ret E load [arr, JInt 0];
       run E store [values, JInt (int i), x];
       run E ReleaseValue [element]
     });
     outputArray \<leftarrow> ret E NewFloatArray [jint (int_of count)];
     run E SetFloatArrayRegion [outputArray, JInt 0, jint (int_of count), values];
     check E AllocatorFree [allocator, values];
     State_Monad.return outputArray
   }"

definition OnnxSequence_getDoubles :: "env \<Rightarrow> jval \<Rightarrow> jval \<Rightarrow> jval jni" where
  "OnnxSequence_getDoubles E sequence allocator = do {
     count \<leftarrow> checked E GetValueCount [sequence];
     values \<leftarrow> checked E AllocatorAlloc [allocator, usize (8 * int_of count)];
     for_range 0 (nat (int_of count)) (\<lambda>i. do {
       element \<leftarrow> checked E GetValue [sequence, jint (int i), allocator];
       arr \<leftarrow> checked E GetTensorMutableData [element];
       x \<leftarrow> ret E load [arr, JInt 0];
       run E store [values, JInt (int i), x];
       run E ReleaseValue [element]
     });
     outputArray \<leftarrow> ret E NewDoubleArray [jint (int_of count)];
     run E SetDoubleArrayRegion [outputArray, JInt 0, jint (int_of count), values];
     check E AllocatorFree [allocator, values];
     State_Monad.return outputArray
   }"

definition OnnxSequence_close :: "env \<Rightarrow> jval \<Rightarrow> unit jni" where
  "OnnxSequence_close E handle = run E ReleaseValue [handle]"

section \<open>Ownership\<close>

text \<open>
  The property each accessor is meant to have, as an interface: the array is built from
  one child of the value it is given, and that child is released.
\<close>

locale array_builder =
  fixes build :: "env \<Rightarrow> jval \<Rightarrow> jval \<Rightarrow> jval jni"
  assumes build_leak_free: "leak_free (build E allocator x)"
begin

lemma child_leak_free:
  "leak_free (do {
     child \<leftarrow> checked E GetValue [handle, i, allocator];
     result \<leftarrow> build E allocator child;
     run E ReleaseValue [child];
     State_Monad.return result
   })"
  by (intro leak_freeI handle_rules build_leak_free [THEN leak_freeD, THEN net_bind_0]) simp

lemma grandchild_leak_free:
  "leak_free (do {
     element \<leftarrow> checked E GetValue [handle, i, allocator];
     child \<leftarrow> checked E GetValue [element, j, allocator];
     result \<leftarrow> build E allocator child;
     run E ReleaseValue [child];
     run E ReleaseValue [element];
     State_Monad.return result
   })"
  by (intro leak_freeI handle_rules build_leak_free [THEN leak_freeD, THEN net_bind_0]) simp

end

interpretation string_array: array_builder createStringArrayFromTensor
  by unfold_locales (rule createStringArrayFromTensor_leak_free)

interpretation long_array: array_builder "\<lambda>E _. createLongArrayFromTensor E"
  by unfold_locales (rule createLongArrayFromTensor_leak_free)

interpretation float_array: array_builder "\<lambda>E _. createFloatArrayFromTensor E"
  by unfold_locales (rule createFloatArrayFromTensor_leak_free)

interpretation double_array: array_builder "\<lambda>E _. createDoubleArrayFromTensor E"
  by unfold_locales (rule createDoubleArrayFromTensor_leak_free)

lemmas child_accessors =
  string_array.child_leak_free long_array.child_leak_free float_array.child_leak_free
  double_array.child_leak_free

lemmas grandchild_accessors =
  long_array.grandchild_leak_free float_array.grandchild_leak_free double_array.grandchild_leak_free

lemmas OnnxMap_defs =
  OnnxMap_getStringKeys_def OnnxMap_getLongKeys_def OnnxMap_getStringValues_def
  OnnxMap_getLongValues_def OnnxMap_getFloatValues_def OnnxMap_getDoubleValues_def

lemmas OnnxSequence_defs =
  OnnxSequence_getLongKeys_def OnnxSequence_getLongValues_def OnnxSequence_getFloatValues_def
  OnnxSequence_getDoubleValues_def

lemma map_accessors_leak_free:
  "leak_free (OnnxMap_getStringKeys E handle allocator) \<and> leak_free (OnnxMap_getLongKeys E handle allocator)
   \<and> leak_free (OnnxMap_getStringValues E handle allocator) \<and> leak_free (OnnxMap_getLongValues E handle allocator)
   \<and> leak_free (OnnxMap_getFloatValues E handle allocator) \<and> leak_free (OnnxMap_getDoubleValues E handle allocator)
   \<and> frees R_Value handle (OnnxMap_close E handle)"
  unfolding OnnxMap_defs OnnxMap_close_def
  by (intro conjI child_accessors freesI handle_rules) simp

lemma getStrings_leak_free: "leak_free (OnnxSequence_getStrings E sequence allocator)"
  unfolding OnnxSequence_getStrings_def
  by (intro leak_freeI handle_rules net_bind_0 [OF net_for] string_nets [THEN net_bind_0]) simp_all

lemma getLongs_leak_free: "leak_free (OnnxSequence_getLongs E sequence allocator)"
  unfolding OnnxSequence_getLongs_def
  by (intro leak_freeI handle_rules net_bind_0 [OF net_for]) simp_all

lemma getFloats_leak_free: "leak_free (OnnxSequence_getFloats E sequence allocator)"
  unfolding OnnxSequence_getFloats_def
  by (intro leak_freeI handle_rules net_bind_0 [OF net_for]) simp_all

lemma getDoubles_leak_free: "leak_free (OnnxSequence_getDoubles E sequence allocator)"
  unfolding OnnxSequence_getDoubles_def
  by (intro leak_freeI handle_rules net_bind_0 [OF net_for]) simp_all

lemma sequence_accessors_leak_free:
  "leak_free (OnnxSequence_getLongKeys E handle allocator i) \<and> leak_free (OnnxSequence_getLongValues E handle allocator i)
   \<and> leak_free (OnnxSequence_getFloatValues E handle allocator i)
   \<and> leak_free (OnnxSequence_getDoubleValues E handle allocator i)
   \<and> leak_free (OnnxSequence_getStrings E handle allocator) \<and> leak_free (OnnxSequence_getLongs E handle allocator)
   \<and> leak_free (OnnxSequence_getFloats E handle allocator) \<and> leak_free (OnnxSequence_getDoubles E handle allocator)
   \<and> frees R_Value handle (OnnxSequence_close E handle)"
  unfolding OnnxSequence_defs OnnxSequence_close_def
  by (intro conjI grandchild_accessors getStrings_leak_free getLongs_leak_free getFloats_leak_free
      getDoubles_leak_free freesI handle_rules) simp

text \<open>
  Every accessor of OnnxMap releases the keys or values tensor it fetches, and all that the
  conversion to a Java array allocates, whatever the runtime answers; the accessors of
  OnnxSequence for numeric keys and values, and the ones that read all elements, release the
  element, its child and every buffer; close releases the map or the sequence.
\<close>
theorem container_accessors_leak_free:
  "leak_free (OnnxMap_getStringKeys E handle allocator) \<and> leak_free (OnnxMap_getLongKeys E handle allocator)
   \<and> leak_free (OnnxMap_getStringValues E handle allocator) \<and> leak_free (OnnxMap_getLongValues E handle allocator)
   \<and> leak_free (OnnxMap_getFloatValues E handle allocator) \<and> leak_free (OnnxMap_getDoubleValues E handle allocator)
   \<and> frees R_Value handle (OnnxMap_close E handle)
   \<and> leak_free (OnnxSequence_getLongKeys E handle allocator i) \<and> leak_free (OnnxSequence_getLongValues E handle allocator i)
   \<and> leak_free (OnnxSequence_getFloatValues E handle allocator i)
   \<and> leak_free (OnnxSequence_getDoubleValues E handle allocator i)
   \<and> leak_free (OnnxSequence_getStrings E handle allocator) \<and> leak_free (OnnxSequence_getLongs E handle allocator)
   \<and> leak_free (OnnxSequence_getFloats E handle allocator) \<and> leak_free (OnnxSequence_getDoubles E handle allocator)
   \<and> frees R_Value handle (OnnxSequence_close E handle)"
  using map_accessors_leak_free sequence_accessors_leak_free by blast


lemma copy_strings_values:
  "net (kind_weight R_Value) (copy_strings E allocator buf offsets arr i n temp sz) (\<lambda>_. 0)"
proof (induction n arbitrary: i temp sz)
  case (Suc n)
  show ?case
    unfolding copy_strings.simps Let_def
    by (intro kind.rules net_rules Suc.IH [THEN net_cong]) simp_all
qed (simp add: net_return)

lemma string_array_values:
  "net (kind_weight R_Value) (createStringArrayFromTensor E allocator tensor) (\<lambda>_. 0)"
  unfolding createStringArrayFromTensor_def copyStringTensorToArray_def
  by (intro kind.rules net_rules net_bind_0 [OF copy_strings_values]) simp_all

text \<open>Copying the strings of a tensor, by contrast, stores each of them.\<close>

lemma copy_strings_stores:
  "net (calls SetObjectArrayElement) (copy_strings E allocator buf offsets arr i n temp sz) (\<lambda>_. int n)"
proof (induction n arbitrary: i temp sz)
  case (Suc n)
  show ?case
    unfolding copy_strings.simps Let_def
    by (intro stores.rules net_rules Suc.IH [THEN net_cong]) (simp_all add: calls_def)
qed (simp add: net_return)

lemma copyStringTensorToArray_stores:
  "net (calls SetObjectArrayElement) (copyStringTensorToArray E allocator tensor n arr) (\<lambda>_. int n)"
  unfolding copyStringTensorToArray_def
  by (intro stores.rules net_rules net_bind [OF copy_strings_stores]) (simp_all add: calls_def)

text \<open>
  The string accessors of a sequence of maps forget the element: each call leaves
  exactly one OrtValue more than it releases.
\<close>
theorem sequence_strings_leak:
  "net (kind_weight R_Value) (OnnxSequence_getStringKeys E handle allocator i) (\<lambda>_. 1)
   \<and> net (kind_weight R_Value) (OnnxSequence_getStringValues E handle allocator i) (\<lambda>_. 1)"
  unfolding OnnxSequence_getStringKeys_def OnnxSequence_getStringValues_def
  by (intro conjI kind.rules net_rules net_bind_0 [OF string_array_values]) simp_all

text \<open>
  Copying a string tensor of n elements stores n strings in the Java array. getStrings
  of a sequence makes the Java strings of the elements but stores none of them in the array
  it returns, whatever the length of the sequence.
\<close>
theorem sequence_getStrings_stores_nothing:
  "net (calls SetObjectArrayElement) (copyStringTensorToArray E allocator tensor n arr) (\<lambda>_. int n)
   \<and> net (calls SetObjectArrayElement) (OnnxSequence_getStrings E sequence allocator) (\<lambda>_. 0)"
  unfolding OnnxSequence_getStrings_def createStringFromStringTensor_def Let_def
  by (intro conjI copyStringTensorToArray_stores stores.rules net_rules net_bind_0 [OF net_for])
    (simp_all add: calls_def)

end
