(* ===== verification/JniSession.thy ===== *)
theory JniSession
  imports JniContainers
begin

text \<open>
  The native methods of ai.onnxruntime.OrtSession
  (java/src/main/native/ai_onnxruntime_OrtSession.c): sessions, their inputs and outputs, the
  run, profiling and the model's metadata. Of the platform branches the model has the one
  without \<open>_WIN32\<close>. A counter that the code compares with a \<open>size_t\<close> or \<open>jlong\<close> is
  assumed not to wrap around (it is 32 bits wide).
\<close>

definition OrtSession_createSession :: "env \<Rightarrow> jval \<Rightarrow> jval \<Rightarrow> jval \<Rightarrow> jval jni" where
  "OrtSession_createSession E envHandle modelPath opts = do {
     cPath \<leftarrow> ret E GetStringUTFChars [modelPath, JNULL];
     session \<leftarrow> checked E CreateSession [envHandle, cPath, opts];
     run E ReleaseStringUTFChars [modelPath, cPath];
     State_Monad.return session
   }"

definition OrtSession_createSession_bytes :: "env \<Rightarrow> jval \<Rightarrow> jval \<Rightarrow> jval \<Rightarrow> jval jni" where
  "OrtSession_createSession_bytes E envHandle modelArray opts = do {
     modelArr \<leftarrow> ret E GetByteArrayElements [modelArray, JNULL];
     modelLength \<leftarrow> ret E GetArrayLength [modelArray];
     session \<leftarrow> checked E CreateSessionFromArray [envHandle, modelArr, modelLength, opts];
     run E ReleaseByteArrayElements [modelArray, modelArr, JNI_ABORT];
     State_Monad.return session
   }"

definition OrtSession_getNumInputs :: "env \<Rightarrow> jval \<Rightarrow> jval jni" where
  "OrtSession_getNumInputs E session = checked E SessionGetInputCount [session]"

definition OrtSession_getInputNames :: "env \<Rightarrow> jval \<Rightarrow> jval \<Rightarrow> jval jni" where
  "OrtSession_getInputNames E session allocator = do {
     stringClazz \<leftarrow> ret E FindClass [JCStr ''java/lang/String''];
     numInputs \<leftarrow> OrtSession_getNumInputs E session;
     array \<leftarrow> ret E NewObjectArray [jint (int_of numInputs), stringClazz, JNULL];
     for_range 0 (nat (int_of numInputs)) (\<lambda>i. do {
       inputName \<leftarrow> checked E SessionGetInputName [session, JInt (int i), allocator];
       name \<leftarrow> ret E NewStringUTF [inputName];
       run E SetObjectArrayElement [array, jint (int i), name];
       check E AllocatorFree [allocator, inputName]
     });
     State_Monad.return array
   }"

definition OrtSession_getNumOutputs :: "env \<Rightarrow> jval \<Rightarrow> jval jni" where
  "OrtSession_getNumOutputs E session = checked E SessionGetOutputCount [session]"

definition OrtSession_getOutputNames :: "env \<Rightarrow> jval \<Rightarrow> jval \<Rightarrow> jval jni" where
  "OrtSession_getOutputNames E session allocator = do {
     stringClazz \<leftarrow> ret E FindClass [JCStr ''java/lang/String''];
     numOutputs \<leftarrow> OrtSession_getNumOutputs E session;
     array \<leftarrow> ret E NewObjectArray [jint (int_of numOutputs), stringClazz, JNULL];
     for_range 0 (nat (int_of numOutputs)) (\<lambda>i. do {
       outputName \<leftarrow> checked E SessionGetOutputName [session, JInt (int i), allocator];
       name \<leftarrow> ret E NewStringUTF [outputName];
       run E SetObjectArrayElement [array, jint (int i), name];
       check E AllocatorFree [allocator, outputName]
     });
     State_Monad.return array
   }"

definition OrtSession_getInputInfo :: "env \<Rightarrow> jval \<Rightarrow> jval \<Rightarrow> jval jni" where
  "OrtSession_getInputInfo E session allocator = do {
     nodeInfoClazz \<leftarrow> ret E FindClass [JCStr ''ai/onnxruntime/NodeInfo''];
     nodeInfoConstructor \<leftarrow> ret E GetMethodID [nodeInfoClazz, JCStr ''<init>'',
       JCStr ''(Ljava/lang/String;Lai/onnxruntime/ValueInfo;)V''];
     numInputs \<leftarrow> OrtSession_getNumInputs E session;
     array \<leftarrow> ret E NewObjectArray [jint (int_of numInputs), nodeInfoClazz, JNULL];
     for_range 0 (nat (int_of numInputs)) (\<lambda>i. do {
       inputName \<leftarrow> checked E SessionGetInputName [session, JInt (int i), allocator];
       name \<leftarrow> ret E NewStringUTF [inputName];
       check E AllocatorFree [allocator, inputName];
       typeInfo \<leftarrow> checked E SessionGetInputTypeInfo [session, JInt (int i)];
       valueInfoJava \<leftarrow> convertToValueInfo E typeInfo;
       run E ReleaseTypeInfo [typeInfo];
       nodeInfo \<leftarrow> ret E NewObject [nodeInfoClazz, nodeInfoConstructor, name, valueInfoJava];
       run E SetObjectArrayElement [array, jint (int i), nodeInfo]
     });
     State_Monad.return array
   }"

definition OrtSession_getOutputInfo :: "env \<Rightarrow> jval \<Rightarrow> jval \<Rightarrow> jval jni" where
  "OrtSession_getOutputInfo E session allocator = do {
     nodeInfoClazz \<leftarrow> ret E FindClass [JCStr ''ai/onnxruntime/NodeInfo''];
     nodeInfoConstructor \<leftarrow> ret E GetMethodID [nodeInfoClazz, JCStr ''<init>'',
       JCStr ''(Ljava/lang/String;Lai/onnxruntime/ValueInfo;)V''];
     numOutputs \<leftarrow> OrtSession_getNumOutputs E session;
     array \<leftarrow> ret E NewObjectArray [jint (int_of numOutputs), nodeInfoClazz, JNULL];
     for_range 0 (nat (int_of numOutputs)) (\<lambda>i. do {
       outputName \<leftarrow> checked E SessionGetOutputName [session, JInt (int i), allocator];
       name \<leftarrow> ret E NewStringUTF [outputName];
       check E AllocatorFree [allocator, outputName];
       typeInfo \<leftarrow> checked E SessionGetOutputTypeInfo [session, JInt (int i)];
       valueInfoJava \<leftarrow> convertToValueInfo E typeInfo;
       run E ReleaseTypeInfo [typeInfo];
       nodeInfo \<leftarrow> ret E NewObject [nodeInfoClazz, nodeInfoConstructor, name, valueInfoJava];
       run E SetObjectArrayElement [array, jint (int i), nodeInfo]
     });
     State_Monad.return array
   }"

text \<open>
  The run. The names of the inputs are taken as in \<open>get_strings\<close>; those of the outputs in
  the same way, with the output value set to \<open>NULL\<close>; each output value the runtime has
  filled in becomes a Java object.
\<close>

definition get_output_strings :: "env \<Rightarrow> jval \<Rightarrow> jval \<Rightarrow> jval \<Rightarrow> jval \<Rightarrow> nat \<Rightarrow> (jval \<times> jval) list jni" where
  "get_output_strings E stringArr javaStrings strings outputValues n = map_range 0 n (\<lambda>i. do {
     javaString \<leftarrow> ret E GetObjectArrayElement [stringArr, jint (int i)];
     run E store [javaStrings, JInt (int i), javaString];
     chars \<leftarrow> ret E GetStringUTFChars [javaString, JNULL];
     run E store [strings, JInt (int i), chars];
     run E store [outputValues, JInt (int i), JNULL];
     State_Monad.return (javaString, chars)
   })"

definition convert_output ::
    "env \<Rightarrow> jval \<Rightarrow> jval \<Rightarrow> jval \<Rightarrow> nat \<times> jval \<times> jval \<Rightarrow> unit jni" where
  "convert_output E allocator outputValues outputArray p = do {
     outputValue \<leftarrow> ret E load [outputValues, JInt (int (fst p))];
     (if outputValue \<noteq> JNULL then do {
        onnxValue \<leftarrow> convertOrtValueToONNXValue E allocator outputValue;
        run E SetObjectArrayElement [outputArray, jint (int (fst p)), onnxValue]
      }
      else State_Monad.return ());
     run E ReleaseStringUTFChars [fst (snd p), snd (snd p)]
   }"

definition OrtSession_run ::
    "env \<Rightarrow> jval \<Rightarrow> jval \<Rightarrow> jval \<Rightarrow> jval \<Rightarrow> int \<Rightarrow> jval \<Rightarrow> int \<Rightarrow> jval \<Rightarrow> jval jni" where
  "OrtSession_run E session allocator inputNamesArr tensorArr numInputs outputNamesArr numOutputs runOptions = do {
     inputNames \<leftarrow> checked E AllocatorAlloc [allocator, usize (8 * numInputs)];
     outputNames \<leftarrow> checked E AllocatorAlloc [allocator, usize (8 * numOutputs)];
     javaInputStrings \<leftarrow> checked E AllocatorAlloc [allocator, usize (8 * numInputs)];
     javaOutputStrings \<leftarrow> checked E AllocatorAlloc [allocator, usize (8 * numOutputs)];
     inputs \<leftarrow> get_strings E inputNamesArr javaInputStrings inputNames (nat numInputs);
     inputTensors \<leftarrow> ret E GetLongArrayElements [tensorArr, JNULL];
     outputValues \<leftarrow> checked E AllocatorAlloc [allocator, usize (8 * numOutputs)];
     outputs \<leftarrow> get_output_strings E outputNamesArr javaOutputStrings outputNames outputValues (nat numOutputs);
     check E Run [session, runOptions, inputNames, inputTensors, usize numInputs, outputNames,
       usize numOutputs, outputValues];
     run E ReleaseLongArrayElements [tensorArr, inputTensors, JNI_ABORT];
     onnxValueClass \<leftarrow> ret E FindClass [JCStr ''ai/onnxruntime/OnnxValue''];
     outputArray \<leftarrow> ret E NewObjectArray [jint numOutputs, onnxValueClass, JNULL];
     for_list (zip [0..<length outputs] outputs) (convert_output E allocator outputValues outputArray);
     check E AllocatorFree [allocator, outputValues];
     release_strings E inputs;
     check E AllocatorFree [allocator, inputNames];
     check E AllocatorFree [allocator, outputNames];
     check E AllocatorFree [allocator, javaInputStrings];
     check E AllocatorFree [allocator, javaOutputStrings];
     State_Monad.return outputArray
   }"

definition OrtSession_getProfilingStartTimeInNs :: "env \<Rightarrow> jval \<Rightarrow> jval jni" where
  "OrtSession_getProfilingStartTimeInNs E session = do {
     timestamp \<leftarrow> checked E SessionGetProfilingStartTimeNs [session];
     State_Monad.return (jlong (int_of timestamp))
   }"

definition OrtSession_endProfiling :: "env \<Rightarrow> jval \<Rightarrow> jval \<Rightarrow> jval jni" where
  "OrtSession_endProfiling E handle allocator = do {
     profileStr \<leftarrow> checked E SessionEndProfiling [handle, allocator];
     profileOutput \<leftarrow> ret E NewStringUTF [profileStr];
     check E AllocatorFree [allocator, profileStr];
     State_Monad.return profileOutput
   }"

definition OrtSession_closeSession :: "env \<Rightarrow> jval \<Rightarrow> unit jni" where
  "OrtSession_closeSession E handle = run E ReleaseSession [handle]"

text \<open>One metadata string, and the array of the custom metadata.\<close>

definition metadata_string :: "env \<Rightarrow> jval \<Rightarrow> cfun \<Rightarrow> jval \<Rightarrow> jval jni" where
  "metadata_string E allocator f metadata = do {
     charBuffer \<leftarrow> checked E f [metadata, allocator];
     str \<leftarrow> ret E NewStringUTF [charBuffer];
     check E AllocatorFree [allocator, charBuffer];
     State_Monad.return str
   }"

definition custom_metadata :: "env \<Rightarrow> jval \<Rightarrow> jval \<Rightarrow> jval \<Rightarrow> jval \<Rightarrow> int \<Rightarrow> jval jni" where
  "custom_metadata E allocator metadata stringClazz keys numKeys =
     (if numKeys > 0 then do {
        customArray \<leftarrow> ret E NewObjectArray [jint (numKeys * 2), stringClazz, JNULL];
        for_range 0 (nat numKeys) (\<lambda>i. do {
          key \<leftarrow> ret E load [keys, JInt (int i)];
          keyJava \<leftarrow> ret E NewStringUTF [key];
          key' \<leftarrow> ret E load [keys, JInt (int i)];
          charBuffer \<leftarrow> checked E ModelMetadataLookupCustomMetadataMap [metadata, allocator, key'];
          valueJava \<leftarrow> ret E NewStringUTF [charBuffer];
          check E AllocatorFree [allocator, charBuffer];
          run E SetObjectArrayElement [customArray, jint (int i * 2), keyJava];
          run E SetObjectArrayElement [customArray, jint (int i * 2 + 1), valueJava]
        });
        for_range 0 (nat numKeys) (\<lambda>i. do {
          key \<leftarrow> ret E load [keys, JInt (int i)];
          check E AllocatorFree [allocator, key]
        });
        check E AllocatorFree [allocator, keys];
        State_Monad.return customArray
      }
      else ret E NewObjectArray [JInt 0, stringClazz, JNULL])"

definition OrtSession_constructMetadata :: "env \<Rightarrow> jval \<Rightarrow> jval \<Rightarrow> jval jni" where
  "OrtSession_constructMetadata E session allocator = do {
     stringClazz \<leftarrow> ret E FindClass [JCStr ''java/lang/String''];
     metadataClazz \<leftarrow> ret E FindClass [JCStr ''ai/onnxruntime/OnnxModelMetadata''];
     ctor \<leftarrow> ret E GetMethodID [metadataClazz, JCStr ''<init>'',
       JCStr ''(Ljava/lang/String;Ljava/lang/String;Ljava/lang/String;Ljava/lang/String;J[Ljava/lang/String;)V''];
     metadata \<leftarrow> checked E SessionGetModelMetadata [session];
     producerStr \<leftarrow> metadata_string E allocator ModelMetadataGetProducerName metadata;
     graphStr \<leftarrow> metadata_string E allocator ModelMetadataGetGraphName metadata;
     domainStr \<leftarrow> metadata_string E allocator ModelMetadataGetDomain metadata;
     descriptionStr \<leftarrow> metadata_string E allocator ModelMetadataGetDescription metadata;
     version \<leftarrow> checked E ModelMetadataGetVersion [metadata];
     (keys, numKeys) \<leftarrow> checked2 E ModelMetadataGetCustomMetadataMapKeys [metadata, allocator];
     customArray \<leftarrow> custom_metadata E allocator metadata stringClazz keys (int_of numKeys);
     metadataJava \<leftarrow> ret E NewObject
       [metadataClazz, ctor, producerStr, graphStr, domainStr, descriptionStr, version, customArray];
     run E ReleaseModelMetadata [metadata];
     State_Monad.return metadataJava
   }"

section \<open>Ownership\<close>

lemma createSession_owns: "owns R_Session (OrtSession_createSession E envHandle modelPath opts)"
  unfolding OrtSession_createSession_def by (intro ownsI handle_rules) simp

lemma createSession_bytes_owns: "owns R_Session (OrtSession_createSession_bytes E envHandle arr opts)"
  unfolding OrtSession_createSession_bytes_def by (intro ownsI handle_rules) simp

lemma getInputNames_leak_free: "leak_free (OrtSession_getInputNames E session allocator)"
  unfolding OrtSession_getInputNames_def OrtSession_getNumInputs_def
  by (intro leak_freeI handle_rules net_bind_0 [OF net_for]) simp_all

lemma getOutputNames_leak_free: "leak_free (OrtSession_getOutputNames E session allocator)"
  unfolding OrtSession_getOutputNames_def OrtSession_getNumOutputs_def
  by (intro leak_freeI handle_rules net_bind_0 [OF net_for]) simp_all

lemma getInputInfo_leak_free: "leak_free (OrtSession_getInputInfo E session allocator)"
  unfolding OrtSession_getInputInfo_def OrtSession_getNumInputs_def
  by (intro leak_freeI handle_rules net_bind_0 [OF net_for]
      convertToValueInfo_leak_free [THEN leak_freeD, THEN net_bind_0]) simp_all

lemma getOutputInfo_leak_free: "leak_free (OrtSession_getOutputInfo E session allocator)"
  unfolding OrtSession_getOutputInfo_def OrtSession_getNumOutputs_def
  by (intro leak_freeI handle_rules net_bind_0 [OF net_for]
      convertToValueInfo_leak_free [THEN leak_freeD, THEN net_bind_0]) simp_all

lemma endProfiling_leak_free: "leak_free (OrtSession_endProfiling E handle allocator)"
  unfolding OrtSession_endProfiling_def by (intro leak_freeI handle_rules) simp

text \<open>
  Creating a session hands exactly the session to Java and gives back the path or the
  model bytes; describing its inputs and outputs, their names, and ending the profiling
  take nothing they do not give back; closing releases the session.
\<close>
theorem session_handles:
  "owns R_Session (OrtSession_createSession E envHandle modelPath opts)
   \<and> owns R_Session (OrtSession_createSession_bytes E envHandle arr opts)
   \<and> leak_free (OrtSession_getInputNames E session allocator)
   \<and> leak_free (OrtSession_getOutputNames E session allocator)
   \<and> leak_free (OrtSession_getInputInfo E session allocator)
   \<and> leak_free (OrtSession_getOutputInfo E session allocator)
   \<and> leak_free (OrtSession_endProfiling E session allocator)
   \<and> frees R_Session session (OrtSession_closeSession E session)"
  by (intro conjI createSession_owns createSession_bytes_owns getInputNames_leak_free
      getOutputNames_leak_free getInputInfo_leak_free getOutputInfo_leak_free endProfiling_leak_free)
    (unfold OrtSession_closeSession_def, intro freesI handle_rules, simp)

subsection \<open>The run\<close>

lemma get_output_strings_net:
  "net (handle_weight r v) (get_output_strings E stringArr javaStrings strings outputValues n)
    (\<lambda>pairs. sum_list (map (\<lambda>p. of_bool (r = R_Chars \<and> v \<noteq> JNULL \<and> snd p = v)) pairs))"
  unfolding get_output_strings_def by (rule net_map_range) (intro handle_rules, simp)

lemma convert_output_net:
  assumes conv: "\<And>x. net (handle_weight r v) (convertOrtValueToONNXValue E allocator x) (\<lambda>_. 0)"
  shows "net (handle_weight r v) (convert_output E allocator outputValues outputArray p)
    (\<lambda>_. - of_bool (r = R_Chars \<and> v \<noteq> JNULL \<and> snd (snd p) = v))"
  unfolding convert_output_def by (intro handle_rules net_bind_0 [OF conv]) simp_all

lemma run_net:
  assumes conv: "\<And>x. net (handle_weight r v) (convertOrtValueToONNXValue E allocator x) (\<lambda>_. 0)"
  shows "net (handle_weight r v)
    (OrtSession_run E session allocator inputNamesArr tensorArr numInputs outputNamesArr numOutputs opts) (\<lambda>_. 0)"
proof -
  have zip: "(\<Sum>p\<leftarrow>zip [0..<length ps] ps. of_bool (r = R_Chars \<and> v \<noteq> JNULL \<and> snd (snd p) = v))
      = (\<Sum>p\<leftarrow>ps. of_bool (r = R_Chars \<and> v \<noteq> JNULL \<and> snd p = v) :: int)" for ps :: "(jval \<times> jval) list"
    by (rule arg_cong [where f = sum_list], rule nth_equalityI) simp_all
  have outputs: "net (handle_weight r v)
      (for_list (zip [0..<length ps] ps) (convert_output E allocator outputValues outputArray))
      (\<lambda>_. - (\<Sum>p\<leftarrow>ps. of_bool (r = R_Chars \<and> v \<noteq> JNULL \<and> snd p = v)))" for ps outputValues outputArray
    by (rule net_cong [OF net_for_list [OF convert_output_net [OF conv]]])
      (simp add: zip [symmetric] uminus_sum_list_map o_def)
  show ?thesis
    unfolding OrtSession_run_def
    by (intro handle_rules net_bind [OF get_strings_net] net_bind [OF get_output_strings_net]
        net_bind [OF release_strings_net] net_bind [OF outputs]) simp
qed

text \<open>
  A run gives back all characters of the input and output names, the elements of the
  array of tensors and all shape information, whatever the runtime answers and whether
  the run fails or not.
\<close>
theorem session_run_balanced:
  "net (handle_weight R_Chars v)
     (OrtSession_run E session allocator inputNamesArr tensorArr numInputs outputNamesArr numOutputs opts) (\<lambda>_. 0)
   \<and> net (handle_weight R_Elements v)
     (OrtSession_run E session allocator inputNamesArr tensorArr numInputs outputNamesArr numOutputs opts) (\<lambda>_. 0)
   \<and> net (handle_weight R_ShapeInfo v)
     (OrtSession_run E session allocator inputNamesArr tensorArr numInputs outputNamesArr numOutputs opts) (\<lambda>_. 0)"
  by (intro conjI run_net convertOrtValueToONNXValue_handles) simp_all

text \<open>The value type that decides the conversion is the runtime's answer.\<close>

lemma run_state_checked: "fst (run_state (checked E f xs) t) = out 0 (E t f xs)"
  by (simp add: checked_def case_prod_unfold)

lemma convertOrtValueToONNXValue_no_map:
  assumes "\<And>t xs. onnx_type_of (out 0 (E t GetValueType xs)) \<noteq> Some ONNX_TYPE_MAP"
  shows "net (handle_weight r v) (convertOrtValueToONNXValue E allocator x) (\<lambda>_. 0)"
  unfolding convertOrtValueToONNXValue_def
proof (rule net_bind_where [where P = "\<lambda>y. onnx_type_of y \<noteq> Some ONNX_TYPE_MAP"])
  show "net (handle_weight r v) (checked E GetValueType [x]) (\<lambda>_. 0)"
    by (intro handle_rules) simp
  show "onnx_type_of (fst (run_state (checked E GetValueType [x]) t)) \<noteq> Some ONNX_TYPE_MAP" for t
    using assms by (simp add: run_state_checked)
qed (intro handle_rules createJavaTensorFromONNX_leak_free [THEN leak_freeD, THEN net_cong]
    createJavaSequenceFromONNX_leak_free [THEN leak_freeD, THEN net_cong], simp_all)



section \<open>Metadata\<close>

lemma metadata_string_leak_free:
  "leak_free (metadata_string E allocator (Take R_Alloc f) metadata)"
  unfolding metadata_string_def by (intro leak_freeI handle_rules) simp

text \<open>The strings of the keys were allocated together with the array of keys.\<close>

lemma custom_metadata_net:
  assumes "r \<noteq> R_Alloc"
  shows "net (handle_weight r v) (custom_metadata E allocator metadata cls keys n) (\<lambda>_. 0)"
  unfolding custom_metadata_def using assms
  by (intro handle_rules net_bind_0 [OF net_for]) simp_all

lemma constructMetadata_handles:
  assumes "r \<noteq> R_Alloc"
  shows "net (handle_weight r v) (OrtSession_constructMetadata E session allocator) (\<lambda>_. 0)"
  unfolding OrtSession_constructMetadata_def using assms
  by (intro handle_rules metadata_string_leak_free [THEN leak_freeD, THEN net_bind_0]
      net_bind_0 [OF custom_metadata_net [OF assms]]) simp

end
