(* ===== verification/JniOptions.thy ===== *)
theory JniOptions
  imports JniSession
begin

text \<open>
  The native methods that set up the runtime: OrtSession.SessionOptions, OrtSession.RunOptions,
  OrtEnvironment, OnnxRuntime and OrtAllocator (java/src/main/native/ai_onnxruntime_*.c).
  The execution providers that a build leaves out (\<open>#ifdef USE_CUDA\<close> and so on) are a
  parameter: \<open>built\<close> says whether the provider was compiled in. Of the platform branches the
  model has the one without \<open>_WIN32\<close>.
\<close>

section \<open>Numbers of the enumerators\<close>

fun execution_mode_number :: "ExecutionMode \<Rightarrow> int" where
  "execution_mode_number ORT_SEQUENTIAL = 0"
| "execution_mode_number ORT_PARALLEL = 1"

fun optimization_level_number :: "GraphOptimizationLevel \<Rightarrow> int" where
  "optimization_level_number ORT_DISABLE_ALL = 0"
| "optimization_level_number ORT_ENABLE_BASIC = 1"
| "optimization_level_number ORT_ENABLE_EXTENDED = 2"
| "optimization_level_number ORT_ENABLE_ALL = 99"

fun logging_level_number :: "OrtLoggingLevel \<Rightarrow> int" where
  "logging_level_number ORT_LOGGING_LEVEL_VERBOSE = 0"
| "logging_level_number ORT_LOGGING_LEVEL_INFO = 1"
| "logging_level_number ORT_LOGGING_LEVEL_WARNING = 2"
| "logging_level_number ORT_LOGGING_LEVEL_ERROR = 3"
| "logging_level_number ORT_LOGGING_LEVEL_FATAL = 4"

section \<open>Session options\<close>

definition SessionOptions_setExecutionMode :: "env \<Rightarrow> jval \<Rightarrow> int \<Rightarrow> unit jni" where
  "SessionOptions_setExecutionMode E handle mode =
     check E SetSessionExecutionMode [handle, JInt (execution_mode_number (convertExecutionMode mode))]"

definition SessionOptions_setOptimizationLevel :: "env \<Rightarrow> jval \<Rightarrow> int \<Rightarrow> unit jni" where
  "SessionOptions_setOptimizationLevel E handle optLevel =
     check E SetSessionGraphOptimizationLevel
       [handle, JInt (optimization_level_number (convertOptimizationLevel optLevel))]"

definition SessionOptions_setIntraOpNumThreads :: "env \<Rightarrow> jval \<Rightarrow> jval \<Rightarrow> unit jni" where
  "SessionOptions_setIntraOpNumThreads E handle numThreads = check E SetIntraOpNumThreads [handle, numThreads]"

definition SessionOptions_setInterOpNumThreads :: "env \<Rightarrow> jval \<Rightarrow> jval \<Rightarrow> unit jni" where
  "SessionOptions_setInterOpNumThreads E handle numThreads = check E SetInterOpNumThreads [handle, numThreads]"

definition SessionOptions_setOptimizationModelFilePath :: "env \<Rightarrow> jval \<Rightarrow> jval \<Rightarrow> unit jni" where
  "SessionOptions_setOptimizationModelFilePath E handle pathString = do {
     chars \<leftarrow> ret E GetStringUTFChars [pathString, JNULL];
     check E SetOptimizedModelFilePath [handle, chars];
     run E ReleaseStringUTFChars [pathString, chars]
   }"

definition SessionOptions_createOptions :: "env \<Rightarrow> jval jni" where
  "SessionOptions_createOptions E = do {
     opts \<leftarrow> checked E CreateSessionOptions [];
     check E SetInterOpNumThreads [opts, JInt 1];
     State_Monad.return opts
   }"

definition SessionOptions_closeOptions :: "env \<Rightarrow> jval \<Rightarrow> unit jni" where
  "SessionOptions_closeOptions E handle = run E ReleaseSessionOptions [handle]"

definition SessionOptions_setLoggerId :: "env \<Rightarrow> jval \<Rightarrow> jval \<Rightarrow> unit jni" where
  "SessionOptions_setLoggerId E handle loggerId = do {
     chars \<leftarrow> ret E GetStringUTFChars [loggerId, JNULL];
     check E SetSessionLogId [handle, chars];
     run E ReleaseStringUTFChars [loggerId, chars]
   }"

definition SessionOptions_enableProfiling :: "env \<Rightarrow> jval \<Rightarrow> jval \<Rightarrow> unit jni" where
  "SessionOptions_enableProfiling E handle pathString = do {
     chars \<leftarrow> ret E GetStringUTFChars [pathString, JNULL];
     check E EnableProfiling [handle, chars];
     run E ReleaseStringUTFChars [pathString, chars]
   }"

definition SessionOptions_disableProfiling :: "env \<Rightarrow> jval \<Rightarrow> unit jni" where
  "SessionOptions_disableProfiling E handle = check E DisableProfiling [handle]"

definition SessionOptions_setMemoryPatternOptimization :: "env \<Rightarrow> jval \<Rightarrow> bool \<Rightarrow> unit jni" where
  "SessionOptions_setMemoryPatternOptimization E handle memPattern =
     (if memPattern then check E EnableMemPattern [handle] else check E DisableMemPattern [handle])"

definition SessionOptions_setCPUArenaAllocator :: "env \<Rightarrow> jval \<Rightarrow> bool \<Rightarrow> unit jni" where
  "SessionOptions_setCPUArenaAllocator E handle useArena =
     (if useArena then check E EnableCpuMemArena [handle] else check E DisableCpuMemArena [handle])"

definition SessionOptions_setSessionLogLevel :: "env \<Rightarrow> jval \<Rightarrow> jval \<Rightarrow> unit jni" where
  "SessionOptions_setSessionLogLevel E handle logLevel = check E SetSessionLogSeverityLevel [handle, logLevel]"

definition SessionOptions_setSessionLogVerbosityLevel :: "env \<Rightarrow> jval \<Rightarrow> jval \<Rightarrow> unit jni" where
  "SessionOptions_setSessionLogVerbosityLevel E handle logLevel = check E SetSessionLogVerbosityLevel [handle, logLevel]"

definition SessionOptions_registerCustomOpLibrary :: "env \<Rightarrow> jval \<Rightarrow> jval \<Rightarrow> jval jni" where
  "SessionOptions_registerCustomOpLibrary E handle libraryPath = do {
     cPath \<leftarrow> ret E GetStringUTFChars [libraryPath, JNULL];
     libraryHandle \<leftarrow> checked E RegisterCustomOpsLibrary [handle, cPath];
     run E ReleaseStringUTFChars [libraryPath, cPath];
     State_Monad.return libraryHandle
   }"

definition SessionOptions_closeCustomLibraries :: "env \<Rightarrow> jval \<Rightarrow> unit jni" where
  "SessionOptions_closeCustomLibraries E libraryHandles = do {
     numHandles \<leftarrow> ret E GetArrayLength [libraryHandles];
     handles \<leftarrow> ret E GetLongArrayElements [libraryHandles, JNULL];
     for_range 0 (nat (int_of numHandles)) (\<lambda>i. do {
       h \<leftarrow> ret E load [handles, JInt (int i)];
       run E dlclose [h]
     });
     run E ReleaseLongArrayElements [libraryHandles, handles, JNI_ABORT]
   }"

definition SessionOptions_addFreeDimensionOverrideByName :: "env \<Rightarrow> jval \<Rightarrow> jval \<Rightarrow> jval \<Rightarrow> unit jni" where
  "SessionOptions_addFreeDimensionOverrideByName E handle dimensionName dimensionValue = do {
     chars \<leftarrow> ret E GetStringUTFChars [dimensionName, JNULL];
     check E AddFreeDimensionOverrideByName [handle, chars, dimensionValue];
     run E ReleaseStringUTFChars [dimensionName, chars]
   }"

definition SessionOptions_disablePerSessionThreads :: "env \<Rightarrow> jval \<Rightarrow> unit jni" where
  "SessionOptions_disablePerSessionThreads E handle = check E DisablePerSessionThreads [handle]"

definition SessionOptions_addConfigEntry :: "env \<Rightarrow> jval \<Rightarrow> jval \<Rightarrow> jval \<Rightarrow> unit jni" where
  "SessionOptions_addConfigEntry E handle configKey configValue = do {
     configKeyStr \<leftarrow> ret E GetStringUTFChars [configKey, JNULL];
     configValueStr \<leftarrow> ret E GetStringUTFChars [configValue, JNULL];
     check E AddSessionConfigEntry [handle, configKeyStr, configValueStr];
     run E ReleaseStringUTFChars [configKey, configKeyStr];
     run E ReleaseStringUTFChars [configValue, configValueStr]
   }"

section \<open>Execution providers\<close>

definition SessionOptions_addCPU :: "env \<Rightarrow> jval \<Rightarrow> jval \<Rightarrow> unit jni" where
  "SessionOptions_addCPU E handle useArena = check E AppendExecutionProvider_CPU [handle, useArena]"

definition SessionOptions_addCUDA :: "bool \<Rightarrow> env \<Rightarrow> jval \<Rightarrow> jval \<Rightarrow> unit jni" where
  "SessionOptions_addCUDA built E handle deviceID =
     (if built then check E AppendExecutionProvider_CUDA [handle, deviceID]
      else throw_code E ORT_INVALID_ARGUMENT ''This binary was not compiled with CUDA support.'')"

definition SessionOptions_addDnnl :: "bool \<Rightarrow> env \<Rightarrow> jval \<Rightarrow> jval \<Rightarrow> unit jni" where
  "SessionOptions_addDnnl built E handle useArena =
     (if built then check E AppendExecutionProvider_Dnnl [handle, useArena]
      else throw_code E ORT_INVALID_ARGUMENT ''This binary was not compiled with DNNL support.'')"

definition SessionOptions_addTensorrt :: "bool \<Rightarrow> env \<Rightarrow> jval \<Rightarrow> jval \<Rightarrow> unit jni" where
  "SessionOptions_addTensorrt built E handle deviceNum =
     (if built then check E AppendExecutionProvider_Tensorrt [handle, deviceNum]
      else throw_code E ORT_INVALID_ARGUMENT ''This binary was not compiled with TensorRT support.'')"

definition SessionOptions_addNnapi :: "bool \<Rightarrow> env \<Rightarrow> jval \<Rightarrow> jval \<Rightarrow> unit jni" where
  "SessionOptions_addNnapi built E handle nnapiFlags =
     (if built then check E AppendExecutionProvider_Nnapi [handle, JInt (int_of nnapiFlags mod 2 ^ 32)]
      else throw_code E ORT_INVALID_ARGUMENT ''This binary was not compiled with NNAPI support.'')"

definition SessionOptions_addMIGraphX :: "bool \<Rightarrow> env \<Rightarrow> jval \<Rightarrow> jval \<Rightarrow> unit jni" where
  "SessionOptions_addMIGraphX built E handle deviceNum =
     (if built then check E AppendExecutionProvider_MIGraphX [handle, deviceNum]
      else throw_code E ORT_INVALID_ARGUMENT ''This binary was not compiled with MIGraphX support.'')"

definition SessionOptions_addDirectML :: "bool \<Rightarrow> env \<Rightarrow> jval \<Rightarrow> jval \<Rightarrow> unit jni" where
  "SessionOptions_addDirectML built E handle deviceID =
     (if built then check E AppendExecutionProvider_DML [handle, deviceID]
      else throw_code E ORT_INVALID_ARGUMENT ''This binary was not compiled with DirectML support.'')"

definition SessionOptions_addACL :: "bool \<Rightarrow> env \<Rightarrow> jval \<Rightarrow> jval \<Rightarrow> unit jni" where
  "SessionOptions_addACL built E handle useArena =
     (if built then check E AppendExecutionProvider_ACL [handle, useArena]
      else throw_code E ORT_INVALID_ARGUMENT ''This binary was not compiled with ACL support.'')"

definition SessionOptions_addOpenVINO :: "bool \<Rightarrow> env \<Rightarrow> jval \<Rightarrow> jval \<Rightarrow> unit jni" where
  "SessionOptions_addOpenVINO built E handle deviceIDString =
     (if built then do {
        deviceID \<leftarrow> ret E GetStringUTFChars [deviceIDString, JNULL];
        check E AppendExecutionProvider_OpenVINO [handle, deviceID];
        run E ReleaseStringUTFChars [deviceIDString, deviceID]
      }
      else throw_code E ORT_INVALID_ARGUMENT ''This binary was not compiled with OpenVINO support.'')"

definition SessionOptions_addNuphar :: "bool \<Rightarrow> env \<Rightarrow> jval \<Rightarrow> jval \<Rightarrow> jval \<Rightarrow> unit jni" where
  "SessionOptions_addNuphar built E handle allowUnalignedBuffers settingsString =
     (if built then do {
        settings \<leftarrow> ret E GetStringUTFChars [settingsString, JNULL];
        check E AppendExecutionProvider_Nuphar [handle, allowUnalignedBuffers, settings];
        run E ReleaseStringUTFChars [settingsString, settings]
      }
      else throw_code E ORT_INVALID_ARGUMENT ''This binary was not compiled with Nuphar support.'')"

section \<open>Run options\<close>

definition RunOptions_createRunOptions :: "env \<Rightarrow> jval jni" where
  "RunOptions_createRunOptions E = checked E CreateRunOptions []"

definition RunOptions_setLogLevel :: "env \<Rightarrow> jval \<Rightarrow> jval \<Rightarrow> unit jni" where
  "RunOptions_setLogLevel E handle logLevel = check E RunOptionsSetRunLogSeverityLevel [handle, logLevel]"

definition RunOptions_getLogLevel :: "env \<Rightarrow> jval \<Rightarrow> jval jni" where
  "RunOptions_getLogLevel E handle = checked E RunOptionsGetRunLogSeverityLevel [handle]"

definition RunOptions_setLogVerbosityLevel :: "env \<Rightarrow> jval \<Rightarrow> jval \<Rightarrow> unit jni" where
  "RunOptions_setLogVerbosityLevel E handle logLevel = check E RunOptionsSetRunLogVerbosityLevel [handle, logLevel]"

definition RunOptions_getLogVerbosityLevel :: "env \<Rightarrow> jval \<Rightarrow> jval jni" where
  "RunOptions_getLogVerbosityLevel E handle = checked E RunOptionsGetRunLogVerbosityLevel [handle]"

definition RunOptions_setRunTag :: "env \<Rightarrow> jval \<Rightarrow> jval \<Rightarrow> unit jni" where
  "RunOptions_setRunTag E handle runTag = do {
     chars \<leftarrow> ret E GetStringUTFChars [runTag, JNULL];
     check E RunOptionsSetRunTag [handle, chars];
     run E ReleaseStringUTFChars [runTag, chars]
   }"

definition RunOptions_getRunTag :: "env \<Rightarrow> jval \<Rightarrow> jval jni" where
  "RunOptions_getRunTag E handle = do {
     runTagStr \<leftarrow> checked E RunOptionsGetRunTag [handle];
     ret E NewStringUTF [runTagStr]
   }"

definition RunOptions_setTerminate :: "env \<Rightarrow> jval \<Rightarrow> bool \<Rightarrow> unit jni" where
  "RunOptions_setTerminate E handle terminate =
     (if terminate then check E RunOptionsSetTerminate [handle] else check E RunOptionsUnsetTerminate [handle])"

definition RunOptions_close :: "env \<Rightarrow> jval \<Rightarrow> unit jni" where
  "RunOptions_close E handle = run E ReleaseRunOptions [handle]"

section \<open>Environment, API and allocator\<close>

definition ORT_PROJECTION_JAVA :: jval where "ORT_PROJECTION_JAVA = JInt 4"

definition OrtEnvironment_createHandle :: "env \<Rightarrow> int \<Rightarrow> jval \<Rightarrow> jval jni" where
  "OrtEnvironment_createHandle E loggingLevel name = do {
     cName \<leftarrow> ret E GetStringUTFChars [name];
     ort_env \<leftarrow> checked E CreateEnv [JInt (logging_level_number (convertLoggingLevel loggingLevel)), cName];
     run E ReleaseStringUTFChars [name, cName];
     check E SetLanguageProjection [ort_env, ORT_PROJECTION_JAVA];
     State_Monad.return ort_env
   }"

definition OrtEnvironment_getDefaultAllocator :: "env \<Rightarrow> jval jni" where
  "OrtEnvironment_getDefaultAllocator E = checked E GetAllocatorWithDefaultOptions []"

definition OrtEnvironment_close :: "env \<Rightarrow> jval \<Rightarrow> unit jni" where
  "OrtEnvironment_close E handle = run E ReleaseEnv [handle]"

definition OrtEnvironment_setTelemetry :: "env \<Rightarrow> jval \<Rightarrow> bool \<Rightarrow> unit jni" where
  "OrtEnvironment_setTelemetry E handle sendTelemetry =
     (if sendTelemetry then check E EnableTelemetryEvents [handle] else check E DisableTelemetryEvents [handle])"

definition OnnxRuntime_initialiseAPIBase :: "env \<Rightarrow> int \<Rightarrow> jval jni" where
  "OnnxRuntime_initialiseAPIBase E apiVersion = do {
     base \<leftarrow> ret E OrtGetApiBase [];
     ret E GetApi [base, JInt (apiVersion mod 2 ^ 32)]
   }"

definition OnnxRuntime_getAvailableProviders :: "env \<Rightarrow> jval jni" where
  "OnnxRuntime_getAvailableProviders E = do {
     (providers, numProviders) \<leftarrow> checked2 E GetAvailableProviders [];
     stringClazz \<leftarrow> ret E FindClass [JCStr ''java/lang/String''];
     providerArray \<leftarrow> ret E NewObjectArray [numProviders, stringClazz, JNULL];
     for_range 0 (nat (int_of numProviders)) (\<lambda>i. do {
       name \<leftarrow> ret E load [providers, JInt (int i)];
       provider \<leftarrow> ret E NewStringUTF [name];
       run E SetObjectArrayElement [providerArray, jint (int i), provider]
     });
     check E ReleaseAvailableProviders [providers, numProviders];
     State_Monad.return providerArray
   }"

definition OrtAllocator_closeAllocator :: "env \<Rightarrow> jval \<Rightarrow> unit jni" where
  "OrtAllocator_closeAllocator E allocator = State_Monad.return ()"

section \<open>Ownership\<close>

lemma setOptimizationModelFilePath_leak_free: "leak_free (SessionOptions_setOptimizationModelFilePath E opts s)"
  unfolding SessionOptions_setOptimizationModelFilePath_def by (intro leak_freeI handle_rules net_bind_0 [OF net_for]) simp_all

lemma setLoggerId_leak_free: "leak_free (SessionOptions_setLoggerId E opts s)"
  unfolding SessionOptions_setLoggerId_def by (intro leak_freeI handle_rules net_bind_0 [OF net_for]) simp_all

lemma enableProfiling_leak_free: "leak_free (SessionOptions_enableProfiling E opts s)"
  unfolding SessionOptions_enableProfiling_def by (intro leak_freeI handle_rules net_bind_0 [OF net_for]) simp_all

lemma registerCustomOpLibrary_leak_free: "leak_free (SessionOptions_registerCustomOpLibrary E opts s)"
  unfolding SessionOptions_registerCustomOpLibrary_def by (intro leak_freeI handle_rules net_bind_0 [OF net_for]) simp_all

lemma closeCustomLibraries_leak_free: "leak_free (SessionOptions_closeCustomLibraries E s)"
  unfolding SessionOptions_closeCustomLibraries_def by (intro leak_freeI handle_rules net_bind_0 [OF net_for]) simp_all

lemma addFreeDimensionOverrideByName_leak_free: "leak_free (SessionOptions_addFreeDimensionOverrideByName E opts s d)"
  unfolding SessionOptions_addFreeDimensionOverrideByName_def by (intro leak_freeI handle_rules net_bind_0 [OF net_for]) simp_all

lemma addConfigEntry_leak_free: "leak_free (SessionOptions_addConfigEntry E opts s s2)"
  unfolding SessionOptions_addConfigEntry_def by (intro leak_freeI handle_rules net_bind_0 [OF net_for]) simp_all

lemma addOpenVINO_leak_free: "leak_free (SessionOptions_addOpenVINO built E opts s)"
  unfolding SessionOptions_addOpenVINO_def by (intro leak_freeI handle_rules net_bind_0 [OF net_for]) simp_all

lemma addNuphar_leak_free: "leak_free (SessionOptions_addNuphar built E opts d s)"
  unfolding SessionOptions_addNuphar_def by (intro leak_freeI handle_rules net_bind_0 [OF net_for]) simp_all

lemma setRunTag_leak_free: "leak_free (RunOptions_setRunTag E opts s)"
  unfolding RunOptions_setRunTag_def by (intro leak_freeI handle_rules net_bind_0 [OF net_for]) simp_all

lemma getAvailableProviders_leak_free: "leak_free (OnnxRuntime_getAvailableProviders E)"
  unfolding OnnxRuntime_getAvailableProviders_def by (intro leak_freeI handle_rules net_bind_0 [OF net_for]) simp_all

lemma createOptions_owns: "owns R_Options (SessionOptions_createOptions E)"
  unfolding SessionOptions_createOptions_def by (intro ownsI handle_rules) simp_all

lemma SessionOptions_closeOptions_frees: "frees R_Options handle (SessionOptions_closeOptions E handle)"
  unfolding SessionOptions_closeOptions_def by (intro freesI handle_rules) simp_all

lemma createRunOptions_owns: "owns R_RunOptions (RunOptions_createRunOptions E)"
  unfolding RunOptions_createRunOptions_def by (intro ownsI handle_rules) simp_all

lemma RunOptions_close_frees: "frees R_RunOptions handle (RunOptions_close E handle)"
  unfolding RunOptions_close_def by (intro freesI handle_rules) simp_all

lemma createHandle_owns: "owns R_Env (OrtEnvironment_createHandle E level s)"
  unfolding OrtEnvironment_createHandle_def by (intro ownsI handle_rules) simp_all

lemma OrtEnvironment_close_frees: "frees R_Env handle (OrtEnvironment_close E handle)"
  unfolding OrtEnvironment_close_def by (intro freesI handle_rules) simp_all

text \<open>
  Session options, run options and the environment: the constructor hands exactly the new
  object to Java and the destructor gives it back; every setter with string or array arguments
  releases the characters or elements of each of them, also when the runtime refuses the value.
\<close>
theorem options_leak_free:
  "owns R_Options (SessionOptions_createOptions E) \<and> frees R_Options handle (SessionOptions_closeOptions E handle)
   \<and> owns R_RunOptions (RunOptions_createRunOptions E) \<and> frees R_RunOptions handle (RunOptions_close E handle)
   \<and> owns R_Env (OrtEnvironment_createHandle E level s) \<and> frees R_Env handle (OrtEnvironment_close E handle)
   \<and> leak_free (SessionOptions_setOptimizationModelFilePath E opts s)
   \<and> leak_free (SessionOptions_setLoggerId E opts s)
   \<and> leak_free (SessionOptions_enableProfiling E opts s)
   \<and> leak_free (SessionOptions_registerCustomOpLibrary E opts s)
   \<and> leak_free (SessionOptions_closeCustomLibraries E s)
   \<and> leak_free (SessionOptions_addFreeDimensionOverrideByName E opts s d)
   \<and> leak_free (SessionOptions_addConfigEntry E opts s s2)
   \<and> leak_free (SessionOptions_addOpenVINO built E opts s)
   \<and> leak_free (SessionOptions_addNuphar built E opts d s)
   \<and> leak_free (RunOptions_setRunTag E opts s)
   \<and> leak_free (OnnxRuntime_getAvailableProviders E)"
  by (intro conjI createOptions_owns SessionOptions_closeOptions_frees createRunOptions_owns RunOptions_close_frees createHandle_owns OrtEnvironment_close_frees setOptimizationModelFilePath_leak_free
      setLoggerId_leak_free
      enableProfiling_leak_free
      registerCustomOpLibrary_leak_free
      closeCustomLibraries_leak_free
      addFreeDimensionOverrideByName_leak_free
      addConfigEntry_leak_free
      addOpenVINO_leak_free
      addNuphar_leak_free
      setRunTag_leak_free
      getAvailableProviders_leak_free)

end
