(* ===== verification/JniErrors.thy ===== *)
theory JniErrors
  imports JniOptions
begin

text \<open>
  The error path: what \<open>checkOrtStatus\<close> does with a status, and that every native method
  hands each status it gets from the runtime to it exactly once.
\<close>

section \<open>One status\<close>

text \<open>
  A status other than NULL is released exactly once and becomes one Java exception,
  built from the code and the copied message of that status; a NULL status makes no call. The
  copy of the message, made with malloc, is never freed.
\<close>
theorem checkOrtStatus_exception:
  "run_state (checkOrtStatus E JNULL) t = ((), t)
   \<and> (s \<noteq> JNULL \<longrightarrow> emits (checkOrtStatus E s) (\<lambda>u _. \<exists>msg len copy code str cls ctor ex r1 r2 r3.
      u = [Call GetErrorMessage [s] msg, Call strlen [out 0 msg] len,
          Call malloc [JInt (int_of (out 0 len) + 1)] copy,
          Call memcpy [out 0 copy, out 0 msg, JInt (int_of (out 0 len) + 1)] r1,
          Call GetErrorCode [s] code, Call ReleaseStatus [s] r2,
          Call NewStringUTF [out 0 copy] str,
          Call FindClass [JCStr ''ai/onnxruntime/OrtException''] cls,
          Call GetMethodID [out 0 cls, JCStr ''<init>'', JCStr ''(ILjava/lang/String;)V''] ctor,
          Call NewObject [out 0 cls, out 0 ctor, JInt (message_id (int_of (out 0 code))), out 0 str] ex,
          Call Throw [out 0 ex] r3]))"
proof (intro conjI impI)
  show "run_state (checkOrtStatus E JNULL) t = ((), t)" by (simp add: checkOrtStatus_def)
qed (unfold checkOrtStatus_def throwOrtException_def, intro emits_rules, simp_all)

theorem checkOrtStatus_exception_witness:
  "emits (checkOrtStatus (\<lambda>t f xs. (JNULL, [JInt 2])) (JPtr 7)) (\<lambda>u _. length u = 11)"
proof -
  have "\<exists>u. snd (run_state (checkOrtStatus (\<lambda>t f xs. (JNULL, [JInt 2])) (JPtr 7)) t) = t @ u
      \<and> length u = 11" for t
    using checkOrtStatus_exception [of "\<lambda>t f xs. (JNULL, [JInt 2])" t "JPtr 7"]
    unfolding emits_def by fastforce
  then show ?thesis by (simp add: emits_def)
qed

section \<open>All statuses\<close>

lemma get_strings_cleared: "cleared (get_strings E stringArr javaStrings strings n)"
  unfolding get_strings_def by (intro cleared_rules) simp_all

lemma get_output_strings_cleared: "cleared (get_output_strings E stringArr javaStrings strings outs n)"
  unfolding get_output_strings_def by (intro cleared_rules) simp_all

lemma release_strings_cleared: "cleared (release_strings E pairs)"
  unfolding release_strings_def by (intro cleared_rules) simp_all

lemma convert_output_cleared: "cleared (convert_output E allocator outs arr p)"
  unfolding convert_output_def by (intro util_cleared cleared_rules) simp_all

lemma metadata_string_cleared: "f \<noteq> ReleaseStatus \<Longrightarrow> cleared (metadata_string E allocator f metadata)"
  unfolding metadata_string_def by (intro cleared_rules) simp_all

lemma custom_metadata_cleared: "cleared (custom_metadata E allocator metadata cls keys n)"
  unfolding custom_metadata_def by (intro cleared_rules) simp_all

lemmas part_cleared =
  util_cleared get_strings_cleared get_output_strings_cleared release_strings_cleared
  convert_output_cleared metadata_string_cleared custom_metadata_cleared

lemma OnnxTensor_createTensor_cleared: "cleared (OnnxTensor_createTensor E allocator dataObj shape onnxTypeJava_num)"
  unfolding OnnxTensor_createTensor_def Let_def case_prod_unfold by (intro part_cleared cleared_rules) simp_all

lemma OnnxTensor_createTensorFromBuffer_cleared: "cleared (OnnxTensor_createTensorFromBuffer E allocator buffer bufferPos_num bufferSize shape onnxTypeJava_num)"
  unfolding OnnxTensor_createTensorFromBuffer_def Let_def case_prod_unfold by (intro part_cleared cleared_rules) simp_all

lemma OnnxTensor_createString_cleared: "cleared (OnnxTensor_createString E allocator input)"
  unfolding OnnxTensor_createString_def Let_def case_prod_unfold by (intro part_cleared cleared_rules) simp_all

lemma OnnxTensor_createStringTensor_cleared: "cleared (OnnxTensor_createStringTensor E allocator stringArr shape)"
  unfolding OnnxTensor_createStringTensor_def Let_def case_prod_unfold by (intro part_cleared cleared_rules) simp_all

lemma OnnxTensor_getBuffer_cleared: "cleared (OnnxTensor_getBuffer E handle)"
  unfolding OnnxTensor_getBuffer_def Let_def case_prod_unfold by (intro part_cleared cleared_rules) simp_all

lemma OnnxTensor_getFloat_cleared: "cleared (OnnxTensor_getFloat E handle onnxType_num)"
  unfolding OnnxTensor_getFloat_def Let_def case_prod_unfold by (intro part_cleared cleared_rules) simp_all

lemma OnnxTensor_getDouble_cleared: "cleared (OnnxTensor_getDouble E handle)"
  unfolding OnnxTensor_getDouble_def Let_def case_prod_unfold by (intro part_cleared cleared_rules) simp_all

lemma OnnxTensor_getByte_cleared: "cleared (OnnxTensor_getByte E handle onnxType_num)"
  unfolding OnnxTensor_getByte_def Let_def case_prod_unfold by (intro part_cleared cleared_rules) simp_all

lemma OnnxTensor_getShort_cleared: "cleared (OnnxTensor_getShort E handle onnxType_num)"
  unfolding OnnxTensor_getShort_def Let_def case_prod_unfold by (intro part_cleared cleared_rules) simp_all

lemma OnnxTensor_getInt_cleared: "cleared (OnnxTensor_getInt E handle onnxType_num)"
  unfolding OnnxTensor_getInt_def Let_def case_prod_unfold by (intro part_cleared cleared_rules) simp_all

lemma OnnxTensor_getLong_cleared: "cleared (OnnxTensor_getLong E handle onnxType_num)"
  unfolding OnnxTensor_getLong_def Let_def case_prod_unfold by (intro part_cleared cleared_rules) simp_all

lemma OnnxTensor_getString_cleared: "cleared (OnnxTensor_getString E handle allocator)"
  unfolding OnnxTensor_getString_def Let_def case_prod_unfold by (intro part_cleared cleared_rules) simp_all

lemma OnnxTensor_getBool_cleared: "cleared (OnnxTensor_getBool E handle)"
  unfolding OnnxTensor_getBool_def Let_def case_prod_unfold by (intro part_cleared cleared_rules) simp_all

lemma OnnxTensor_getArray_cleared: "cleared (OnnxTensor_getArray E handle allocator carrier)"
  unfolding OnnxTensor_getArray_def Let_def case_prod_unfold by (intro part_cleared cleared_rules) simp_all

lemma OnnxTensor_close_cleared: "cleared (OnnxTensor_close E handle)"
  unfolding OnnxTensor_close_def Let_def case_prod_unfold by (intro part_cleared cleared_rules) simp_all

lemma OnnxMap_getStringKeys_cleared: "cleared (OnnxMap_getStringKeys E handle allocator)"
  unfolding OnnxMap_getStringKeys_def Let_def case_prod_unfold by (intro part_cleared cleared_rules) simp_all

lemma OnnxMap_getLongKeys_cleared: "cleared (OnnxMap_getLongKeys E handle allocator)"
  unfolding OnnxMap_getLongKeys_def Let_def case_prod_unfold by (intro part_cleared cleared_rules) simp_all

lemma OnnxMap_getStringValues_cleared: "cleared (OnnxMap_getStringValues E handle allocator)"
  unfolding OnnxMap_getStringValues_def Let_def case_prod_unfold by (intro part_cleared cleared_rules) simp_all

lemma OnnxMap_getLongValues_cleared: "cleared (OnnxMap_getLongValues E handle allocator)"
  unfolding OnnxMap_getLongValues_def Let_def case_prod_unfold by (intro part_cleared cleared_rules) simp_all

lemma OnnxMap_getFloatValues_cleared: "cleared (OnnxMap_getFloatValues E handle allocator)"
  unfolding OnnxMap_getFloatValues_def Let_def case_prod_unfold by (intro part_cleared cleared_rules) simp_all

lemma OnnxMap_getDoubleValues_cleared: "cleared (OnnxMap_getDoubleValues E handle allocator)"
  unfolding OnnxMap_getDoubleValues_def Let_def case_prod_unfold by (intro part_cleared cleared_rules) simp_all

lemma OnnxMap_close_cleared: "cleared (OnnxMap_close E handle)"
  unfolding OnnxMap_close_def Let_def case_prod_unfold by (intro part_cleared cleared_rules) simp_all

lemma OnnxSequence_getStringKeys_cleared: "cleared (OnnxSequence_getStringKeys E handle allocator index_num)"
  unfolding OnnxSequence_getStringKeys_def Let_def case_prod_unfold by (intro part_cleared cleared_rules) simp_all

lemma OnnxSequence_getLongKeys_cleared: "cleared (OnnxSequence_getLongKeys E handle allocator index_num)"
  unfolding OnnxSequence_getLongKeys_def Let_def case_prod_unfold by (intro part_cleared cleared_rules) simp_all

lemma OnnxSequence_getStringValues_cleared: "cleared (OnnxSequence_getStringValues E handle allocator index_num)"
  unfolding OnnxSequence_getStringValues_def Let_def case_prod_unfold by (intro part_cleared cleared_rules) simp_all

lemma OnnxSequence_getLongValues_cleared: "cleared (OnnxSequence_getLongValues E handle allocator index_num)"
  unfolding OnnxSequence_getLongValues_def Let_def case_prod_unfold by (intro part_cleared cleared_rules) simp_all

lemma OnnxSequence_getFloatValues_cleared: "cleared (OnnxSequence_getFloatValues E handle allocator index_num)"
  unfolding OnnxSequence_getFloatValues_def Let_def case_prod_unfold by (intro part_cleared cleared_rules) simp_all

lemma OnnxSequence_getDoubleValues_cleared: "cleared (OnnxSequence_getDoubleValues E handle allocator index_num)"
  unfolding OnnxSequence_getDoubleValues_def Let_def case_prod_unfold by (intro part_cleared cleared_rules) simp_all

lemma OnnxSequence_getStrings_cleared: "cleared (OnnxSequence_getStrings E sequence allocator)"
  unfolding OnnxSequence_getStrings_def Let_def case_prod_unfold by (intro part_cleared cleared_rules) simp_all

lemma OnnxSequence_getLongs_cleared: "cleared (OnnxSequence_getLongs E sequence allocator)"
  unfolding OnnxSequence_getLongs_def Let_def case_prod_unfold by (intro part_cleared cleared_rules) simp_all

lemma OnnxSequence_getFloats_cleared: "cleared (OnnxSequence_getFloats E sequence allocator)"
  unfolding OnnxSequence_getFloats_def Let_def case_prod_unfold by (intro part_cleared cleared_rules) simp_all

lemma OnnxSequence_getDoubles_cleared: "cleared (OnnxSequence_getDoubles E sequence allocator)"
  unfolding OnnxSequence_getDoubles_def Let_def case_prod_unfold by (intro part_cleared cleared_rules) simp_all

lemma OnnxSequence_close_cleared: "cleared (OnnxSequence_close E handle)"
  unfolding OnnxSequence_close_def Let_def case_prod_unfold by (intro part_cleared cleared_rules) simp_all

lemma OrtSession_createSession_cleared: "cleared (OrtSession_createSession E envHandle modelPath opts)"
  unfolding OrtSession_createSession_def Let_def case_prod_unfold by (intro part_cleared cleared_rules) simp_all

lemma OrtSession_createSession_bytes_cleared: "cleared (OrtSession_createSession_bytes E envHandle modelArray opts)"
  unfolding OrtSession_createSession_bytes_def Let_def case_prod_unfold by (intro part_cleared cleared_rules) simp_all

lemma OrtSession_getNumInputs_cleared: "cleared (OrtSession_getNumInputs E session)"
  unfolding OrtSession_getNumInputs_def Let_def case_prod_unfold by (intro part_cleared cleared_rules) simp_all

lemma OrtSession_getInputNames_cleared: "cleared (OrtSession_getInputNames E session allocator)"
  unfolding OrtSession_getInputNames_def OrtSession_getNumInputs_def OrtSession_getNumOutputs_def Let_def case_prod_unfold by (intro part_cleared cleared_rules) simp_all

lemma OrtSession_getNumOutputs_cleared: "cleared (OrtSession_getNumOutputs E session)"
  unfolding OrtSession_getNumOutputs_def Let_def case_prod_unfold by (intro part_cleared cleared_rules) simp_all

lemma OrtSession_getOutputNames_cleared: "cleared (OrtSession_getOutputNames E session allocator)"
  unfolding OrtSession_getOutputNames_def OrtSession_getNumInputs_def OrtSession_getNumOutputs_def Let_def case_prod_unfold by (intro part_cleared cleared_rules) simp_all

lemma OrtSession_getInputInfo_cleared: "cleared (OrtSession_getInputInfo E session allocator)"
  unfolding OrtSession_getInputInfo_def OrtSession_getNumInputs_def OrtSession_getNumOutputs_def Let_def case_prod_unfold by (intro part_cleared cleared_rules) simp_all

lemma OrtSession_getOutputInfo_cleared: "cleared (OrtSession_getOutputInfo E session allocator)"
  unfolding OrtSession_getOutputInfo_def OrtSession_getNumInputs_def OrtSession_getNumOutputs_def Let_def case_prod_unfold by (intro part_cleared cleared_rules) simp_all

lemma OrtSession_run_cleared: "cleared (OrtSession_run E session allocator inputNamesArr tensorArr numInputs_num outputNamesArr numOutputs_num runOptions)"
  unfolding OrtSession_run_def Let_def case_prod_unfold by (intro part_cleared cleared_rules) simp_all

lemma OrtSession_getProfilingStartTimeInNs_cleared: "cleared (OrtSession_getProfilingStartTimeInNs E session)"
  unfolding OrtSession_getProfilingStartTimeInNs_def Let_def case_prod_unfold by (intro part_cleared cleared_rules) simp_all

lemma OrtSession_endProfiling_cleared: "cleared (OrtSession_endProfiling E handle allocator)"
  unfolding OrtSession_endProfiling_def Let_def case_prod_unfold by (intro part_cleared cleared_rules) simp_all

lemma OrtSession_closeSession_cleared: "cleared (OrtSession_closeSession E handle)"
  unfolding OrtSession_closeSession_def Let_def case_prod_unfold by (intro part_cleared cleared_rules) simp_all

lemma OrtSession_constructMetadata_cleared: "cleared (OrtSession_constructMetadata E session allocator)"
  unfolding OrtSession_constructMetadata_def Let_def case_prod_unfold by (intro part_cleared cleared_rules) simp_all

lemma SessionOptions_setExecutionMode_cleared: "cleared (SessionOptions_setExecutionMode E handle mode_num)"
  unfolding SessionOptions_setExecutionMode_def Let_def case_prod_unfold by (intro part_cleared cleared_rules) simp_all

lemma SessionOptions_setOptimizationLevel_cleared: "cleared (SessionOptions_setOptimizationLevel E handle optLevel_num)"
  unfolding SessionOptions_setOptimizationLevel_def Let_def case_prod_unfold by (intro part_cleared cleared_rules) simp_all

lemma SessionOptions_setIntraOpNumThreads_cleared: "cleared (SessionOptions_setIntraOpNumThreads E handle numThreads)"
  unfolding SessionOptions_setIntraOpNumThreads_def Let_def case_prod_unfold by (intro part_cleared cleared_rules) simp_all

lemma SessionOptions_setInterOpNumThreads_cleared: "cleared (SessionOptions_setInterOpNumThreads E handle numThreads)"
  unfolding SessionOptions_setInterOpNumThreads_def Let_def case_prod_unfold by (intro part_cleared cleared_rules) simp_all

lemma SessionOptions_setOptimizationModelFilePath_cleared: "cleared (SessionOptions_setOptimizationModelFilePath E handle pathString)"
  unfolding SessionOptions_setOptimizationModelFilePath_def Let_def case_prod_unfold by (intro part_cleared cleared_rules) simp_all

lemma SessionOptions_createOptions_cleared: "cleared (SessionOptions_createOptions E)"
  unfolding SessionOptions_createOptions_def Let_def case_prod_unfold by (intro part_cleared cleared_rules) simp_all

lemma SessionOptions_closeOptions_cleared: "cleared (SessionOptions_closeOptions E handle)"
  unfolding SessionOptions_closeOptions_def Let_def case_prod_unfold by (intro part_cleared cleared_rules) simp_all

lemma SessionOptions_setLoggerId_cleared: "cleared (SessionOptions_setLoggerId E handle loggerId)"
  unfolding SessionOptions_setLoggerId_def Let_def case_prod_unfold by (intro part_cleared cleared_rules) simp_all

lemma SessionOptions_enableProfiling_cleared: "cleared (SessionOptions_enableProfiling E handle pathString)"
  unfolding SessionOptions_enableProfiling_def Let_def case_prod_unfold by (intro part_cleared cleared_rules) simp_all

lemma SessionOptions_disableProfiling_cleared: "cleared (SessionOptions_disableProfiling E handle)"
  unfolding SessionOptions_disableProfiling_def Let_def case_prod_unfold by (intro part_cleared cleared_rules) simp_all

lemma SessionOptions_setMemoryPatternOptimization_cleared: "cleared (SessionOptions_setMemoryPatternOptimization E handle memPattern_flag)"
  unfolding SessionOptions_setMemoryPatternOptimization_def Let_def case_prod_unfold by (intro part_cleared cleared_rules) simp_all

lemma SessionOptions_setCPUArenaAllocator_cleared: "cleared (SessionOptions_setCPUArenaAllocator E handle useArena_flag)"
  unfolding SessionOptions_setCPUArenaAllocator_def Let_def case_prod_unfold by (intro part_cleared cleared_rules) simp_all

lemma SessionOptions_setSessionLogLevel_cleared: "cleared (SessionOptions_setSessionLogLevel E handle logLevel)"
  unfolding SessionOptions_setSessionLogLevel_def Let_def case_prod_unfold by (intro part_cleared cleared_rules) simp_all

lemma SessionOptions_setSessionLogVerbosityLevel_cleared: "cleared (SessionOptions_setSessionLogVerbosityLevel E handle logLevel)"
  unfolding SessionOptions_setSessionLogVerbosityLevel_def Let_def case_prod_unfold by (intro part_cleared cleared_rules) simp_all

lemma SessionOptions_registerCustomOpLibrary_cleared: "cleared (SessionOptions_registerCustomOpLibrary E handle libraryPath)"
  unfolding SessionOptions_registerCustomOpLibrary_def Let_def case_prod_unfold by (intro part_cleared cleared_rules) simp_all

lemma SessionOptions_closeCustomLibraries_cleared: "cleared (SessionOptions_closeCustomLibraries E libraryHandles)"
  unfolding SessionOptions_closeCustomLibraries_def Let_def case_prod_unfold by (intro part_cleared cleared_rules) simp_all

lemma SessionOptions_addFreeDimensionOverrideByName_cleared: "cleared (SessionOptions_addFreeDimensionOverrideByName E handle dimensionName dimensionValue)"
  unfolding SessionOptions_addFreeDimensionOverrideByName_def Let_def case_prod_unfold by (intro part_cleared cleared_rules) simp_all

lemma SessionOptions_disablePerSessionThreads_cleared: "cleared (SessionOptions_disablePerSessionThreads E handle)"
  unfolding SessionOptions_disablePerSessionThreads_def Let_def case_prod_unfold by (intro part_cleared cleared_rules) simp_all

lemma SessionOptions_addConfigEntry_cleared: "cleared (SessionOptions_addConfigEntry E handle configKey configValue)"
  unfolding SessionOptions_addConfigEntry_def Let_def case_prod_unfold by (intro part_cleared cleared_rules) simp_all

lemma SessionOptions_addCPU_cleared: "cleared (SessionOptions_addCPU E handle useArena)"
  unfolding SessionOptions_addCPU_def Let_def case_prod_unfold by (intro part_cleared cleared_rules) simp_all

lemma SessionOptions_addCUDA_cleared: "cleared (SessionOptions_addCUDA built_flag E handle deviceID)"
  unfolding SessionOptions_addCUDA_def Let_def case_prod_unfold by (intro part_cleared cleared_rules) simp_all

lemma SessionOptions_addDnnl_cleared: "cleared (SessionOptions_addDnnl built_flag E handle useArena)"
  unfolding SessionOptions_addDnnl_def Let_def case_prod_unfold by (intro part_cleared cleared_rules) simp_all

lemma SessionOptions_addTensorrt_cleared: "cleared (SessionOptions_addTensorrt built_flag E handle deviceNum)"
  unfolding SessionOptions_addTensorrt_def Let_def case_prod_unfold by (intro part_cleared cleared_rules) simp_all

lemma SessionOptions_addNnapi_cleared: "cleared (SessionOptions_addNnapi built_flag E handle nnapiFlags)"
  unfolding SessionOptions_addNnapi_def Let_def case_prod_unfold by (intro part_cleared cleared_rules) simp_all

lemma SessionOptions_addMIGraphX_cleared: "cleared (SessionOptions_addMIGraphX built_flag E handle deviceNum)"
  unfolding SessionOptions_addMIGraphX_def Let_def case_prod_unfold by (intro part_cleared cleared_rules) simp_all

lemma SessionOptions_addDirectML_cleared: "cleared (SessionOptions_addDirectML built_flag E handle deviceID)"
  unfolding SessionOptions_addDirectML_def Let_def case_prod_unfold by (intro part_cleared cleared_rules) simp_all

lemma SessionOptions_addACL_cleared: "cleared (SessionOptions_addACL built_flag E handle useArena)"
  unfolding SessionOptions_addACL_def Let_def case_prod_unfold by (intro part_cleared cleared_rules) simp_all

lemma SessionOptions_addOpenVINO_cleared: "cleared (SessionOptions_addOpenVINO built_flag E handle deviceIDString)"
  unfolding SessionOptions_addOpenVINO_def Let_def case_prod_unfold by (intro part_cleared cleared_rules) simp_all

lemma SessionOptions_addNuphar_cleared: "cleared (SessionOptions_addNuphar built_flag E handle allowUnalignedBuffers settingsString)"
  unfolding SessionOptions_addNuphar_def Let_def case_prod_unfold by (intro part_cleared cleared_rules) simp_all

lemma RunOptions_createRunOptions_cleared: "cleared (RunOptions_createRunOptions E)"
  unfolding RunOptions_createRunOptions_def Let_def case_prod_unfold by (intro part_cleared cleared_rules) simp_all

lemma RunOptions_setLogLevel_cleared: "cleared (RunOptions_setLogLevel E handle logLevel)"
  unfolding RunOptions_setLogLevel_def Let_def case_prod_unfold by (intro part_cleared cleared_rules) simp_all

lemma RunOptions_getLogLevel_cleared: "cleared (RunOptions_getLogLevel E handle)"
  unfolding RunOptions_getLogLevel_def Let_def case_prod_unfold by (intro part_cleared cleared_rules) simp_all

lemma RunOptions_setLogVerbosityLevel_cleared: "cleared (RunOptions_setLogVerbosityLevel E handle logLevel)"
  unfolding RunOptions_setLogVerbosityLevel_def Let_def case_prod_unfold by (intro part_cleared cleared_rules) simp_all

lemma RunOptions_getLogVerbosityLevel_cleared: "cleared (RunOptions_getLogVerbosityLevel E handle)"
  unfolding RunOptions_getLogVerbosityLevel_def Let_def case_prod_unfold by (intro part_cleared cleared_rules) simp_all

lemma RunOptions_setRunTag_cleared: "cleared (RunOptions_setRunTag E handle runTag)"
  unfolding RunOptions_setRunTag_def Let_def case_prod_unfold by (intro part_cleared cleared_rules) simp_all

lemma RunOptions_getRunTag_cleared: "cleared (RunOptions_getRunTag E handle)"
  unfolding RunOptions_getRunTag_def Let_def case_prod_unfold by (intro part_cleared cleared_rules) simp_all

lemma RunOptions_setTerminate_cleared: "cleared (RunOptions_setTerminate E handle terminate_flag)"
  unfolding RunOptions_setTerminate_def Let_def case_prod_unfold by (intro part_cleared cleared_rules) simp_all

lemma RunOptions_close_cleared: "cleared (RunOptions_close E handle)"
  unfolding RunOptions_close_def Let_def case_prod_unfold by (intro part_cleared cleared_rules) simp_all

lemma OrtEnvironment_createHandle_cleared: "cleared (OrtEnvironment_createHandle E loggingLevel_num name)"
  unfolding OrtEnvironment_createHandle_def Let_def case_prod_unfold by (intro part_cleared cleared_rules) simp_all

lemma OrtEnvironment_getDefaultAllocator_cleared: "cleared (OrtEnvironment_getDefaultAllocator E)"
  unfolding OrtEnvironment_getDefaultAllocator_def Let_def case_prod_unfold by (intro part_cleared cleared_rules) simp_all

lemma OrtEnvironment_close_cleared: "cleared (OrtEnvironment_close E handle)"
  unfolding OrtEnvironment_close_def Let_def case_prod_unfold by (intro part_cleared cleared_rules) simp_all

lemma OrtEnvironment_setTelemetry_cleared: "cleared (OrtEnvironment_setTelemetry E handle sendTelemetry_flag)"
  unfolding OrtEnvironment_setTelemetry_def Let_def case_prod_unfold by (intro part_cleared cleared_rules) simp_all

lemma OnnxRuntime_initialiseAPIBase_cleared: "cleared (OnnxRuntime_initialiseAPIBase E apiVersion_num)"
  unfolding OnnxRuntime_initialiseAPIBase_def Let_def case_prod_unfold by (intro part_cleared cleared_rules) simp_all

lemma OnnxRuntime_getAvailableProviders_cleared: "cleared (OnnxRuntime_getAvailableProviders E)"
  unfolding OnnxRuntime_getAvailableProviders_def Let_def case_prod_unfold by (intro part_cleared cleared_rules) simp_all

lemma OrtAllocator_closeAllocator_cleared: "cleared (OrtAllocator_closeAllocator E allocator)"
  unfolding OrtAllocator_closeAllocator_def by (rule cleared_return)





text \<open>
  C36. The methods that do not: the string accessors of a sequence of maps leave one OrtValue per call unreleased, and
  describing a map leaves its keys and values unreleased and gives two handles to the allocator that it did not
  hand out.
\<close>

theorem bindings_misfree:
  "(net (kind_weight R_Value) (OnnxSequence_getStringKeys E handle allocator i) (\<lambda>_. 1)
   \<and> net (kind_weight R_Value) (OnnxSequence_getStringValues E handle allocator i) (\<lambda>_. 1))
   \<and> (net (kind_weight R_Value) (createJavaMapFromONNX E allocator m) (\<lambda>_. 2)
   \<and> net (kind_weight R_Alloc) (createJavaMapFromONNX E allocator m) (\<lambda>_. - 2)
   \<and> net (kind_weight R_ShapeInfo) (createJavaMapFromONNX E allocator m) (\<lambda>_. 0))"
  by (rule conjI [OF sequence_strings_leak map_values_misfreed])

end
