(* ===== verification/MemPattern.thy ===== *)
theory MemPattern
  imports Prelude
begin

text \<open>
  The planner of the memory pattern (onnxruntime/core/framework/mem_pattern_planner.h and
  mem_pattern.h): it places every value of one traced execution in one buffer, so that the
  buffer can be allocated at once next time. \<open>pl_allocs\<close> has all placements in the order they
  were made, \<open>pl_blocks\<close> the indices of the live ones, ordered by offset. A program counter
  (core/framework/sequential_execution_plan.h) is the list of intervals in which a value is
  needed; with counters, a value may share memory with one needed at other times. The
  lock is left out: every operation holds it from start to end. A \<open>size_t\<close> is a \<open>nat\<close>; a
  \<open>SafeInt\<close> addition throws past \<open>2 ^ 64\<close> and the others wrap around.
\<close>

section \<open>Program counters\<close>

record program_counter =
  pc_starts :: "nat list"
  pc_ends :: "nat list"

definition AddStart :: "program_counter \<Rightarrow> nat \<Rightarrow> program_counter res" where
  "AddStart c start = bindE (enforce (length (pc_starts c) = length (pc_ends c))) (\<lambda>_.
     bindE (enforce (pc_starts c = [] \<or> last (pc_ends c) < start)) (\<lambda>_.
     Inr (c\<lparr>pc_starts := pc_starts c @ [start]\<rparr>)))"

definition AddEnd :: "program_counter \<Rightarrow> nat \<Rightarrow> program_counter res" where
  "AddEnd c stop = bindE (enforce (length (pc_starts c) = length (pc_ends c) + 1)) (\<lambda>_.
     bindE (enforce (last (pc_starts c) \<le> stop)) (\<lambda>_.
     Inr (c\<lparr>pc_ends := pc_ends c @ [stop]\<rparr>)))"

definition HasValidEntries :: "program_counter \<Rightarrow> bool" where
  "HasValidEntries c \<longleftrightarrow> pc_starts c \<noteq> [] \<and> length (pc_starts c) = length (pc_ends c)"

text \<open>The loop of \<open>OverlappingTimeSchedules\<close> with its two indices.\<close>

function overlap_loop :: "program_counter \<Rightarrow> program_counter \<Rightarrow> nat \<Rightarrow> nat \<Rightarrow> bool" where
  "overlap_loop c1 c2 i j =
     (if i < length (pc_starts c1) \<and> j < length (pc_starts c2) then
        if pc_starts c1 ! i \<le> pc_starts c2 ! j then
          if pc_starts c2 ! j \<le> pc_ends c1 ! i then True else overlap_loop c1 c2 (Suc i) j
        else if pc_starts c1 ! i \<le> pc_ends c2 ! j then True else overlap_loop c1 c2 i (Suc j)
      else False)"
  by pat_completeness auto

termination
  by (relation "measure (\<lambda>(c1, c2, i, j). length (pc_starts c1) - i + (length (pc_starts c2) - j))") auto

declare overlap_loop.simps [simp del]

definition OverlappingTimeSchedules :: "program_counter \<Rightarrow> program_counter \<Rightarrow> bool" where
  "OverlappingTimeSchedules c1 c2 = overlap_loop c1 c2 0 0"

section \<open>The planner\<close>

record memory_block =
  mb_offset :: nat
  mb_size :: nat

record alloc_block =
  al_index :: int
  al_block :: memory_block
  al_counter :: "program_counter option"
  al_reuse :: bool

record planner =
  pl_allocs :: "alloc_block list"
  pl_blocks :: "nat list"
  pl_buffer_size :: nat
  pl_using_counters :: bool

definition MemPatternPlanner :: "bool \<Rightarrow> planner" where
  "MemPatternPlanner using_counters =
     \<lparr>pl_allocs = [], pl_blocks = [], pl_buffer_size = 0, pl_using_counters = using_counters\<rparr>"

definition mk_block :: "nat \<Rightarrow> nat \<Rightarrow> memory_block" where
  "mk_block off sz = \<lparr>mb_offset = off, mb_size = sz\<rparr>"

definition plain_alloc :: "int \<Rightarrow> memory_block \<Rightarrow> alloc_block" where
  "plain_alloc idx b = \<lparr>al_index = idx, al_block = b, al_counter = None, al_reuse = False\<rparr>"

definition counter_alloc :: "int \<Rightarrow> program_counter \<Rightarrow> memory_block \<Rightarrow> alloc_block" where
  "counter_alloc idx c b = \<lparr>al_index = idx, al_block = b, al_counter = Some c, al_reuse = True\<rparr>"

text \<open>
  One step of the search: \<open>(current, waste, best, found)\<close> are the end of the blocks seen so
  far, the waste of the best gap so far, its offset, and whether there is one.
\<close>

definition gap_step :: "nat \<Rightarrow> memory_block \<Rightarrow> nat \<times> nat \<times> nat \<times> bool \<Rightarrow> nat \<times> nat \<times> nat \<times> bool" where
  "gap_step bytes b st = (case st of (current, waste, best, found) \<Rightarrow>
     let gap = mb_offset b - current;
         stop = (mb_offset b + mb_size b) mod 2 ^ 64 in
     if current \<le> mb_offset b \<and> bytes \<le> gap \<and> gap - bytes < waste
     then (max current stop, gap - bytes, current, True)
     else (max current stop, waste, best, found))"

text \<open>The loop over the live blocks; \<open>skip\<close> says which ones are no obstacle.\<close>

fun gap_scan :: "(alloc_block \<Rightarrow> bool) \<Rightarrow> alloc_block list \<Rightarrow> nat \<Rightarrow> nat list \<Rightarrow>
    nat \<times> nat \<times> nat \<times> bool \<Rightarrow> nat \<times> nat \<times> nat \<times> bool" where
  "gap_scan skip allocs bytes [] st = st"
| "gap_scan skip allocs bytes (i # is) st =
     gap_scan skip allocs bytes is
       (if skip (allocs ! i) then st else gap_step bytes (al_block (allocs ! i)) st)"

text \<open>The offset for a new block of \<open>bytes\<close> bytes: the best gap, the last gap included, or the end.\<close>

definition best_fit :: "(alloc_block \<Rightarrow> bool) \<Rightarrow> planner \<Rightarrow> nat \<Rightarrow> nat res" where
  "best_fit skip p bytes =
     (case gap_scan skip (pl_allocs p) bytes (pl_blocks p) (0, 2 ^ 64 - 1, 0, False) of
        (current, waste, best, found) \<Rightarrow>
          bindE (enforce (current \<le> pl_buffer_size p)) (\<lambda>_.
          let gap = pl_buffer_size p - current in
          if current < pl_buffer_size p \<and> bytes \<le> gap \<and> gap - bytes < waste then Inr current
          else if found then Inr best
          else Inr current))"

text \<open>The position of the new block in the list: before the first block behind it.\<close>

fun insert_block :: "alloc_block list \<Rightarrow> nat \<Rightarrow> nat \<Rightarrow> nat \<Rightarrow> nat list \<Rightarrow> nat list" where
  "insert_block allocs best bytes new [] = [new]"
| "insert_block allocs best bytes new (i # is) =
     (let b = al_block (allocs ! i) in
      if mb_offset b < best then i # insert_block allocs best bytes new is
      else if best < mb_offset b \<or> bytes \<le> mb_size b then new # i # is
      else i # insert_block allocs best bytes new is)"

definition place :: "planner \<Rightarrow> alloc_block \<Rightarrow> planner res" where
  "place p a =
     (let best = mb_offset (al_block a); bytes = mb_size (al_block a) in
      if 2 ^ 64 \<le> best + bytes then Inl Thrown
      else Inr (p\<lparr>pl_buffer_size := max (pl_buffer_size p) (best + bytes),
        pl_allocs := pl_allocs p @ [a],
        pl_blocks := insert_block (pl_allocs p @ [a]) best bytes (length (pl_allocs p)) (pl_blocks p)\<rparr>))"

definition TraceAllocation :: "planner \<Rightarrow> int \<Rightarrow> nat \<Rightarrow> planner res" where
  "TraceAllocation p idx bytes = bindE (enforce (\<not> pl_using_counters p)) (\<lambda>_.
     if bytes = 0 then Inr (p\<lparr>pl_allocs := pl_allocs p @ [plain_alloc idx (mk_block 0 0)]\<rparr>)
     else bindE (best_fit (\<lambda>_. False) p bytes) (\<lambda>best. place p (plain_alloc idx (mk_block best bytes))))"

definition time_disjoint :: "program_counter \<Rightarrow> alloc_block \<Rightarrow> bool" where
  "time_disjoint c a \<longleftrightarrow> al_reuse a \<and> \<not> OverlappingTimeSchedules c (the (al_counter a))"

definition TraceAllocation_counter :: "planner \<Rightarrow> int \<Rightarrow> program_counter \<Rightarrow> nat \<Rightarrow> planner res" where
  "TraceAllocation_counter p idx c bytes = bindE (enforce (pl_using_counters p)) (\<lambda>_.
     if bytes = 0 then Inr (p\<lparr>pl_allocs := pl_allocs p @ [plain_alloc idx (mk_block 0 0)]\<rparr>)
     else bindE (best_fit (time_disjoint c) p bytes) (\<lambda>best. place p (counter_alloc idx c (mk_block best bytes))))"

fun erase_first :: "alloc_block list \<Rightarrow> int \<Rightarrow> nat list \<Rightarrow> nat list" where
  "erase_first allocs idx [] = []"
| "erase_first allocs idx (i # is) = (if al_index (allocs ! i) = idx then is else i # erase_first allocs idx is)"

definition TraceFree :: "planner \<Rightarrow> int \<Rightarrow> planner" where
  "TraceFree p idx = p\<lparr>pl_blocks := erase_first (pl_allocs p) idx (pl_blocks p)\<rparr>"

section \<open>The pattern\<close>

record memory_pattern =
  mp_patterns :: "int \<rightharpoonup> memory_block"
  mp_peak_size :: nat

definition GetBlock :: "memory_pattern \<Rightarrow> int \<Rightarrow> memory_block option" where
  "GetBlock m idx = mp_patterns m idx"

text \<open>The check of one pair, as in the loop of \<open>GenerateMemPattern\<close> (built with training).\<close>

definition pair_ok :: "alloc_block \<Rightarrow> alloc_block \<Rightarrow> unit res" where
  "pair_ok a b =
     (let s1 = mb_offset (al_block a); e1 = (s1 + mb_size (al_block a) + (2 ^ 64 - 1)) mod 2 ^ 64;
          s2 = mb_offset (al_block b); e2 = (s2 + mb_size (al_block b) + (2 ^ 64 - 1)) mod 2 ^ 64 in
      bindE (enforce (s1 \<le> e1)) (\<lambda>_. bindE (enforce (s2 \<le> e2)) (\<lambda>_.
      if s2 \<le> s1 \<and> s1 \<le> e2 \<or> s1 \<le> s2 \<and> s2 \<le> e1
      then enforce (\<not> OverlappingTimeSchedules (the (al_counter a)) (the (al_counter b)))
      else Inr ())))"

definition check_pairs :: "alloc_block list \<Rightarrow> unit res" where
  "check_pairs as = foldE (\<lambda>i _.
     if \<not> al_reuse (as ! i) then Inr ()
     else foldE (\<lambda>j _. if \<not> al_reuse (as ! j) then Inr () else pair_ok (as ! i) (as ! j))
       [i + 1..<length as] ()) [0..<length as] ()"

definition collect :: "alloc_block list \<Rightarrow> int \<rightharpoonup> memory_block" where
  "collect as = fold (\<lambda>a m. m(al_index a \<mapsto> al_block a)) as Map.empty"

definition GenerateMemPattern :: "planner \<Rightarrow> memory_pattern res" where
  "GenerateMemPattern p =
     bindE (if pl_using_counters p then check_pairs (pl_allocs p) else Inr ()) (\<lambda>_.
     Inr \<lparr>mp_patterns = collect (pl_allocs p), mp_peak_size = pl_buffer_size p\<rparr>)"

section \<open>Schedules\<close>

text \<open>The intervals of a counter are well-formed and in order; a counter may have a start pending.\<close>

definition wf_counter :: "program_counter \<Rightarrow> bool" where
  "wf_counter c \<longleftrightarrow>
     (length (pc_starts c) = length (pc_ends c) \<or> length (pc_starts c) = length (pc_ends c) + 1)
     \<and> (\<forall>k < length (pc_ends c). pc_starts c ! k \<le> pc_ends c ! k)
     \<and> (\<forall>k. Suc k < length (pc_starts c) \<longrightarrow> pc_ends c ! k < pc_starts c ! Suc k)"

lemma wf_counter_empty: "wf_counter \<lparr>pc_starts = [], pc_ends = []\<rparr>"
  by (simp add: wf_counter_def)

lemma AddStart_wf:
  assumes wf: "wf_counter c" and ok: "AddStart c s = Inr c'"
  shows "wf_counter c'"
proof -
  from ok have len: "length (pc_starts c) = length (pc_ends c)"
    and s: "pc_starts c = [] \<or> last (pc_ends c) < s" and c': "c' = c\<lparr>pc_starts := pc_starts c @ [s]\<rparr>"
    unfolding AddStart_def by (auto elim!: bindE_InrE)
  have "pc_ends c ! k < s" if "Suc k = length (pc_ends c)" for k
    using s len that by (cases "pc_ends c" rule: rev_cases) (auto simp: nth_append)
  then show ?thesis
    using wf len unfolding wf_counter_def c' by (auto simp: nth_append less_Suc_eq)
qed

lemma AddEnd_wf:
  assumes wf: "wf_counter c" and ok: "AddEnd c e = Inr c'"
  shows "wf_counter c'"
proof -
  from ok have len: "length (pc_starts c) = Suc (length (pc_ends c))"
    and e: "last (pc_starts c) \<le> e" and c': "c' = c\<lparr>pc_ends := pc_ends c @ [e]\<rparr>"
    unfolding AddEnd_def by (auto elim!: bindE_InrE)
  have "pc_starts c ! length (pc_ends c) \<le> e"
    using e len by (metis diff_Suc_1 last_conv_nth length_0_conv nat.distinct(1))
  then show ?thesis
    using wf len unfolding wf_counter_def c' by (auto simp: nth_append less_Suc_eq)
qed

text \<open>A counter is complete when no start is pending (\<open>HasValidEntries\<close> asks that it is not empty, too).\<close>

definition complete :: "program_counter \<Rightarrow> bool" where
  "complete c \<longleftrightarrow> wf_counter c \<and> length (pc_starts c) = length (pc_ends c)"

lemma complete_valid: "wf_counter c \<Longrightarrow> HasValidEntries c \<Longrightarrow> complete c"
  by (simp add: complete_def HasValidEntries_def)

lemma complete_interval: "complete c \<Longrightarrow> k < length (pc_starts c) \<Longrightarrow> pc_starts c ! k \<le> pc_ends c ! k"
  by (simp add: complete_def wf_counter_def)

lemma complete_sorted:
  assumes "complete c" "i < j" "j < length (pc_starts c)"
  shows "pc_ends c ! i < pc_starts c ! j"
  using assms(2,3)
proof (induction j)
  case (Suc j)
  have step: "pc_ends c ! j < pc_starts c ! Suc j"
    using assms(1) Suc.prems by (simp add: complete_def wf_counter_def)
  show ?case
  proof (cases "i = j")
    case False
    then have "pc_ends c ! i < pc_starts c ! j" using Suc by simp
    also have "\<dots> \<le> pc_ends c ! j" using assms(1) Suc.prems by (simp add: complete_interval)
    finally show ?thesis using step by simp
  qed (use step in simp)
qed simp

lemma complete_starts_mono:
  assumes "complete c" "i \<le> j" "j < length (pc_starts c)"
  shows "pc_starts c ! i \<le> pc_starts c ! j"
proof (cases "i = j")
  case False
  then have "pc_ends c ! i < pc_starts c ! j" using complete_sorted assms by simp
  moreover have "pc_starts c ! i \<le> pc_ends c ! i" using assms by (simp add: complete_interval)
  ultimately show ?thesis by simp
qed simp

text \<open>Interval \<open>i\<close> of one counter and interval \<open>j\<close> of another have a step in common.\<close>

definition meet :: "program_counter \<Rightarrow> program_counter \<Rightarrow> nat \<Rightarrow> nat \<Rightarrow> bool" where
  "meet c1 c2 i j \<longleftrightarrow> (\<exists>t. pc_starts c1 ! i \<le> t \<and> t \<le> pc_ends c1 ! i \<and> pc_starts c2 ! j \<le> t \<and> t \<le> pc_ends c2 ! j)"

lemma meet_iff:
  assumes "complete c1" "complete c2" "i < length (pc_starts c1)" "j < length (pc_starts c2)"
  shows "meet c1 c2 i j \<longleftrightarrow> pc_starts c1 ! i \<le> pc_ends c2 ! j \<and> pc_starts c2 ! j \<le> pc_ends c1 ! i"
proof
  assume r: "pc_starts c1 ! i \<le> pc_ends c2 ! j \<and> pc_starts c2 ! j \<le> pc_ends c1 ! i"
  have "pc_starts c1 ! i \<le> pc_ends c1 ! i" "pc_starts c2 ! j \<le> pc_ends c2 ! j"
    using assms by (simp_all add: complete_interval)
  with r show "meet c1 c2 i j"
    unfolding meet_def by (intro exI [of _ "max (pc_starts c1 ! i) (pc_starts c2 ! j)"]) auto
qed (auto simp: meet_def)

lemma overlap_loop_iff:
  assumes "complete c1" "complete c2"
    and "\<forall>i' < i. \<forall>j' < length (pc_starts c2). i' < length (pc_starts c1) \<longrightarrow> \<not> meet c1 c2 i' j'"
    and "\<forall>j' < j. \<forall>i' < length (pc_starts c1). j' < length (pc_starts c2) \<longrightarrow> \<not> meet c1 c2 i' j'"
  shows "overlap_loop c1 c2 i j \<longleftrightarrow>
    (\<exists>i' < length (pc_starts c1). \<exists>j' < length (pc_starts c2). meet c1 c2 i' j')"
  using assms
proof (induction c1 c2 i j rule: overlap_loop.induct)
  case (1 c1 c2 i j)
  note c = "1.prems"(1,2)
  show ?case
  proof (cases "i < length (pc_starts c1) \<and> j < length (pc_starts c2)")
    case False
    then have "\<not> (\<exists>i' < length (pc_starts c1). \<exists>j' < length (pc_starts c2). meet c1 c2 i' j')"
      using "1.prems"(3,4) by (meson leI le_trans less_le_trans)
    with False show ?thesis by (subst overlap_loop.simps) auto
  next
    case True
    show ?thesis
    proof (cases "meet c1 c2 i j")
      case meet: True
      then have "overlap_loop c1 c2 i j"
        using True c by (subst overlap_loop.simps) (auto simp: meet_iff)
      with meet True show ?thesis by blast
    next
      case False
      show ?thesis
      proof (cases "pc_starts c1 ! i \<le> pc_starts c2 ! j")
        case le: True
        from False True c have gap: "pc_ends c1 ! i < pc_starts c2 ! j"
          using le complete_interval [of c2 j] by (auto simp: meet_iff)
        have none: "\<not> meet c1 c2 i j'" if "j' < length (pc_starts c2)" for j'
        proof (cases "j' < j")
          case False
          then have "pc_starts c2 ! j \<le> pc_starts c2 ! j'" using complete_starts_mono c that by simp
          then show ?thesis using gap c True that by (simp add: meet_iff)
        qed (use "1.prems"(4) True that in blast)
        have "overlap_loop c1 c2 i j = overlap_loop c1 c2 (Suc i) j"
          using True le gap by (subst overlap_loop.simps) auto
        also have "\<dots> \<longleftrightarrow> (\<exists>i' < length (pc_starts c1). \<exists>j' < length (pc_starts c2). meet c1 c2 i' j')"
          using True le gap none "1.prems" by (intro "1.IH"(1)) (auto simp: less_Suc_eq)
        finally show ?thesis .
      next
        case gt: False
        from False True c have gap: "pc_ends c2 ! j < pc_starts c1 ! i"
          using gt complete_interval [of c1 i] by (auto simp: meet_iff)
        have none: "\<not> meet c1 c2 i' j" if "i' < length (pc_starts c1)" for i'
        proof (cases "i' < i")
          case False
          then have "pc_starts c1 ! i \<le> pc_starts c1 ! i'" using complete_starts_mono c that by simp
          then show ?thesis using gap c True that by (simp add: meet_iff)
        qed (use "1.prems"(3) True that in blast)
        have "overlap_loop c1 c2 i j = overlap_loop c1 c2 i (Suc j)"
          using True gt gap by (subst overlap_loop.simps) auto
        also have "\<dots> \<longleftrightarrow> (\<exists>i' < length (pc_starts c1). \<exists>j' < length (pc_starts c2). meet c1 c2 i' j')"
          using True gt gap none "1.prems" by (intro "1.IH"(2)) (auto simp: less_Suc_eq)
        finally show ?thesis .
      qed
    qed
  qed
qed

lemma overlap_iff:
  "complete c \<Longrightarrow> complete d \<Longrightarrow> OverlappingTimeSchedules c d \<longleftrightarrow>
    (\<exists>i < length (pc_starts c). \<exists>j < length (pc_starts d). meet c d i j)"
  unfolding OverlappingTimeSchedules_def by (intro overlap_loop_iff) auto

lemma overlap_sym:
  "complete c \<Longrightarrow> complete d \<Longrightarrow> OverlappingTimeSchedules c d = OverlappingTimeSchedules d c"
  by (auto simp: overlap_iff meet_def)

text \<open>
  OverlappingTimeSchedules, a walk over two lists with one index each, says whether any
  interval of the first counter and any interval of the second have a step in common; the
  answer does not depend on the order of its arguments.
\<close>
theorem overlapping_schedules:
  assumes "complete c1" "complete c2"
  shows "(OverlappingTimeSchedules c1 c2 \<longleftrightarrow>
      (\<exists>i < length (pc_starts c1). \<exists>j < length (pc_starts c2). \<exists>t.
        pc_starts c1 ! i \<le> t \<and> t \<le> pc_ends c1 ! i \<and> pc_starts c2 ! j \<le> t \<and> t \<le> pc_ends c2 ! j))
    \<and> OverlappingTimeSchedules c1 c2 = OverlappingTimeSchedules c2 c1"
  unfolding overlap_iff [OF assms] overlap_iff [OF assms(2,1)] by (auto simp: meet_def)

theorem overlapping_schedules_witness:
  "\<not> OverlappingTimeSchedules \<lparr>pc_starts = [0, 6], pc_ends = [2, 7]\<rparr> \<lparr>pc_starts = [3], pc_ends = [5]\<rparr>"
proof -
  have c: "complete \<lparr>pc_starts = [0, 6], pc_ends = [2, 7]\<rparr>" "complete \<lparr>pc_starts = [3], pc_ends = [5]\<rparr>"
    by (auto simp: complete_def wf_counter_def less_Suc_eq nth_Cons')
  show ?thesis using overlapping_schedules [OF c] by (auto simp: less_Suc_eq)
qed

section \<open>The search\<close>

abbreviation block_end :: "memory_block \<Rightarrow> nat" where
  "block_end b \<equiv> mb_offset b + mb_size b"

definition clear_of :: "nat \<Rightarrow> nat \<Rightarrow> memory_block \<Rightarrow> bool" where
  "clear_of y n b \<longleftrightarrow> block_end b \<le> y \<or> y + n \<le> mb_offset b"

lemma gap_scan_fold:
  "gap_scan skip allocs n is st =
     fold (gap_step n) (map (\<lambda>i. al_block (allocs ! i)) (filter (\<lambda>i. \<not> skip (allocs ! i)) is)) st"
  by (induction "is" arbitrary: st) simp_all

text \<open>The search after the blocks \<open>ps\<close>.\<close>

definition gap_inv :: "nat \<Rightarrow> memory_block list \<Rightarrow> nat \<times> nat \<times> nat \<times> bool \<Rightarrow> bool" where
  "gap_inv n ps st = (case st of (current, waste, best, found) \<Rightarrow>
     (\<forall>b \<in> set ps. block_end b \<le> current) \<and> (current = 0 \<or> (\<exists>b \<in> set ps. current = block_end b))
     \<and> (found \<longrightarrow> (\<forall>b \<in> set ps. clear_of best n b) \<and> (\<exists>b \<in> set ps. best + n \<le> mb_offset b))
     \<and> (\<not> found \<longrightarrow> waste = 2 ^ 64 - 1 \<and> (\<forall>y. (\<forall>b \<in> set ps. clear_of y n b) \<longrightarrow> current \<le> y)))"

lemma gap_step_inv:
  assumes inv: "gap_inv n ps st" and n: "0 < n"
    and sorted: "\<forall>b' \<in> set ps. mb_offset b' \<le> mb_offset b" and fit: "block_end b < 2 ^ 64"
  shows "gap_inv n (ps @ [b]) (gap_step n b st)"
proof -
  obtain current waste best found where st: "st = (current, waste, best, found)" by (cases st)
  note i = inv [unfolded gap_inv_def st prod.case]
  show ?thesis
  proof (cases "current \<le> mb_offset b \<and> n \<le> mb_offset b - current \<and> mb_offset b - current - n < waste")
    case True
    then have "gap_step n b st = (max current (block_end b), mb_offset b - current - n, current, True)"
      using fit by (simp add: gap_step_def st Let_def)
    moreover have "current + n \<le> mb_offset b" using True by auto
    ultimately show ?thesis
      using i unfolding gap_inv_def clear_of_def by (auto simp: max_def)
  next
    case False
    then have step: "gap_step n b st = (max current (block_end b), waste, best, found)"
      using fit by (auto simp: gap_step_def st Let_def)
    show ?thesis
    proof (cases found)
      case True
      with i obtain b' where b': "b' \<in> set ps" "best + n \<le> mb_offset b'" by blast
      then have "best + n \<le> mb_offset b" using sorted by force
      then show ?thesis
        using i True unfolding gap_inv_def step clear_of_def by (auto simp: max_def)
    next
      case not_found: False
      then have w: "waste = 2 ^ 64 - 1" using i by simp
      have "max current (block_end b) \<le> y" if y: "\<forall>b' \<in> set (ps @ [b]). clear_of y n b'" for y
      proof -
        have cy: "current \<le> y" using i not_found y by auto
        have "block_end b \<le> y \<or> y + n \<le> mb_offset b" using y by (simp add: clear_of_def)
        then show ?thesis
        proof
          assume "y + n \<le> mb_offset b"
          then have "current \<le> mb_offset b" "n \<le> mb_offset b - current" using cy by simp_all
          moreover have "mb_offset b - current - n < waste" using n fit w by simp
          ultimately show ?thesis using False by simp
        qed (use cy in simp)
      qed
      then show ?thesis
        using i not_found unfolding gap_inv_def step by (auto simp: max_def)
    qed
  qed
qed

lemma gap_fold_inv:
  assumes "gap_inv n ps st" "0 < n" "sorted (map mb_offset (ps @ bs))" "\<forall>b \<in> set bs. block_end b < 2 ^ 64"
  shows "gap_inv n (ps @ bs) (fold (gap_step n) bs st)"
  using assms
proof (induction bs arbitrary: ps st)
  case (Cons b bs)
  have "gap_inv n (ps @ [b]) (gap_step n b st)"
    using Cons.prems by (intro gap_step_inv) (auto simp: sorted_append)
  then show ?case using Cons.IH [of "ps @ [b]"] Cons.prems by simp
qed simp

text \<open>What the search returns, on the blocks that are in the way.\<close>

lemma best_fit_spec:
  fixes skip p
  defines "bs \<equiv> map (\<lambda>i. al_block (pl_allocs p ! i)) (filter (\<lambda>i. \<not> skip (pl_allocs p ! i)) (pl_blocks p))"
  assumes n: "0 < n" and sorted: "sorted (map mb_offset bs)" and size: "pl_buffer_size p < 2 ^ 64"
    and fit: "\<forall>b \<in> set bs. block_end b \<le> pl_buffer_size p"
  obtains best where "best_fit skip p n = Inr best" "\<forall>b \<in> set bs. clear_of best n b"
    "best \<le> pl_buffer_size p"
    "best + n \<le> pl_buffer_size p \<or>
      (\<forall>b \<in> set bs. block_end b \<le> best) \<and> (best = 0 \<or> (\<exists>b \<in> set bs. best = block_end b))
      \<and> (\<forall>y. (\<forall>b \<in> set bs. clear_of y n b) \<longrightarrow> pl_buffer_size p < y + n)"
proof -
  obtain current waste best found where scan:
    "gap_scan skip (pl_allocs p) n (pl_blocks p) (0, 2 ^ 64 - 1, 0, False) = (current, waste, best, found)"
    by (metis prod_cases4)
  have "gap_inv n [] (0, 2 ^ 64 - 1, 0, False)" by (auto simp: gap_inv_def)
  then have "gap_inv n ([] @ bs) (fold (gap_step n) bs (0, 2 ^ 64 - 1, 0, False))"
    using n sorted fit size by (intro gap_fold_inv) auto
  then have i: "gap_inv n bs (current, waste, best, found)"
    using scan by (simp add: gap_scan_fold bs_def)
  note i' = i [unfolded gap_inv_def prod.case]
  have current: "current \<le> pl_buffer_size p" using i' fit by auto
  let ?last = "current < pl_buffer_size p \<and> n \<le> pl_buffer_size p - current \<and> pl_buffer_size p - current - n < waste"
  have result: "best_fit skip p n = Inr (if ?last then current else if found then best else current)"
    using current unfolding best_fit_def scan prod.case by (simp add: Let_def)
  have after: "\<forall>b \<in> set bs. clear_of current n b" using i' by (simp add: clear_of_def)
  show ?thesis
  proof (cases ?last)
    case True
    then have "best_fit skip p n = Inr current" using True by (simp add: result)
    then show ?thesis by (rule that) (use True after current in auto)
  next
    case no_last: False
    show ?thesis
    proof (cases found)
      case True
      then obtain b where "b \<in> set bs" "best + n \<le> mb_offset b" using i' by blast
      then have "best + n \<le> pl_buffer_size p" using fit by force
      moreover have "best_fit skip p n = Inr best" using no_last True by (simp only: result if_True if_False refl)
      ultimately show ?thesis using that i' True by auto
    next
      case False
      have none: "pl_buffer_size p < y + n" if "\<forall>b \<in> set bs. clear_of y n b" for y
      proof -
        have "current \<le> y" "waste = 2 ^ 64 - 1" using i' False that by auto
        then show ?thesis using no_last n size by (auto simp: not_less)
      qed
      have "best_fit skip p n = Inr current" using no_last False by (simp only: result if_False)
      then show ?thesis by (rule that) (use after current none i' in auto)
    qed
  qed
qed

section \<open>The invariant\<close>

abbreviation blk :: "planner \<Rightarrow> nat \<Rightarrow> memory_block" where
  "blk p i \<equiv> al_block (pl_allocs p ! i)"

definition separate :: "memory_block \<Rightarrow> memory_block \<Rightarrow> bool" where
  "separate b b' \<longleftrightarrow> block_end b \<le> mb_offset b' \<or> block_end b' \<le> mb_offset b"

text \<open>Two values whose schedules are known not to overlap are no conflict.\<close>

definition conflict :: "alloc_block \<Rightarrow> alloc_block \<Rightarrow> bool" where
  "conflict a b \<longleftrightarrow>
     \<not> (al_reuse a \<and> al_reuse b \<and> \<not> OverlappingTimeSchedules (the (al_counter a)) (the (al_counter b)))"

definition alloc_ok :: "bool \<Rightarrow> alloc_block \<Rightarrow> bool" where
  "alloc_ok uc a \<longleftrightarrow> (al_reuse a \<longrightarrow> uc \<and> 0 < mb_size (al_block a) \<and> (\<exists>c. al_counter a = Some c \<and> complete c))"

definition planner_inv :: "planner \<Rightarrow> bool" where
  "planner_inv p \<longleftrightarrow>
     distinct (pl_blocks p) \<and> sorted (map (\<lambda>i. mb_offset (blk p i)) (pl_blocks p))
     \<and> (\<forall>i \<in> set (pl_blocks p). i < length (pl_allocs p) \<and> 0 < mb_size (blk p i)
          \<and> al_reuse (pl_allocs p ! i) = pl_using_counters p)
     \<and> (\<forall>a \<in> set (pl_allocs p). alloc_ok (pl_using_counters p) a \<and> block_end (al_block a) \<le> pl_buffer_size p)
     \<and> pl_buffer_size p < 2 ^ 64
     \<and> (\<forall>i \<in> set (pl_blocks p). \<forall>j \<in> set (pl_blocks p).
          i \<noteq> j \<longrightarrow> conflict (pl_allocs p ! i) (pl_allocs p ! j) \<longrightarrow> separate (blk p i) (blk p j))"

lemma planner_invD:
  assumes "planner_inv p"
  shows "distinct (pl_blocks p)" "sorted (map (\<lambda>i. mb_offset (blk p i)) (pl_blocks p))"
    "i \<in> set (pl_blocks p) \<Longrightarrow> i < length (pl_allocs p)"
    "i \<in> set (pl_blocks p) \<Longrightarrow> 0 < mb_size (blk p i)"
    "i \<in> set (pl_blocks p) \<Longrightarrow> al_reuse (pl_allocs p ! i) = pl_using_counters p"
    "a \<in> set (pl_allocs p) \<Longrightarrow> alloc_ok (pl_using_counters p) a"
    "a \<in> set (pl_allocs p) \<Longrightarrow> block_end (al_block a) \<le> pl_buffer_size p"
    "pl_buffer_size p < 2 ^ 64"
    "i \<in> set (pl_blocks p) \<Longrightarrow> j \<in> set (pl_blocks p) \<Longrightarrow> i \<noteq> j \<Longrightarrow>
      conflict (pl_allocs p ! i) (pl_allocs p ! j) \<Longrightarrow> separate (blk p i) (blk p j)"
  using assms unfolding planner_inv_def by blast+

lemma separate_sym: "separate a b \<longleftrightarrow> separate b a"
  by (auto simp: separate_def)

lemma conflict_sym: "alloc_ok uc a \<Longrightarrow> alloc_ok uc b \<Longrightarrow> conflict a b \<longleftrightarrow> conflict b a"
  unfolding conflict_def alloc_ok_def using overlap_sym by fastforce

lemma set_insert_block [simp]: "set (insert_block allocs best n new is) = insert new (set is)"
  by (induction "is") (auto simp: Let_def)

lemma distinct_insert_block: "distinct is \<Longrightarrow> new \<notin> set is \<Longrightarrow> distinct (insert_block allocs best n new is)"
  by (induction "is") (auto simp: Let_def)

lemma sorted_insert_block:
  assumes "sorted (map (\<lambda>i. mb_offset (al_block (allocs ! i))) is)" "mb_offset (al_block (allocs ! new)) = best"
  shows "sorted (map (\<lambda>i. mb_offset (al_block (allocs ! i))) (insert_block allocs best n new is))"
  using assms by (induction "is") (auto simp: Let_def)

lemma place_inv:
  assumes inv: "planner_inv p" and ok: "alloc_ok (pl_using_counters p) a" "0 < mb_size (al_block a)"
    "al_reuse a = pl_using_counters p"
    and free: "\<And>i. i \<in> set (pl_blocks p) \<Longrightarrow> conflict a (pl_allocs p ! i) \<Longrightarrow> separate (blk p i) (al_block a)"
    and placed: "place p a = Inr p'"
  shows "planner_inv p'"
proof -
  note I = planner_invD [OF inv]
  let ?new = "length (pl_allocs p)" and ?as = "pl_allocs p @ [a]"
  have size: "block_end (al_block a) < 2 ^ 64" and p': "p' = p\<lparr>pl_buffer_size := max (pl_buffer_size p) (block_end (al_block a)),
      pl_allocs := ?as, pl_blocks := insert_block ?as (mb_offset (al_block a)) (mb_size (al_block a)) ?new (pl_blocks p)\<rparr>"
    using placed by (auto simp: place_def Let_def split: if_splits)
  have old: "?as ! i = pl_allocs p ! i" if "i \<in> set (pl_blocks p)" for i
    using I(3) [OF that] by (simp add: nth_append)
  have conf: "conflict (pl_allocs p ! i) a \<longleftrightarrow> conflict a (pl_allocs p ! i)" if "i \<in> set (pl_blocks p)" for i
    using I(3) [OF that] by (intro conflict_sym [OF I(6) ok(1)]) simp
  have new: "?new \<notin> set (pl_blocks p)" using I(3) by blast
  have "sorted (map (\<lambda>i. mb_offset (al_block (?as ! i))) (pl_blocks p))"
    using I(2) by (simp add: old cong: map_cong)
  then have sorted: "sorted (map (\<lambda>i. mb_offset (blk p' i)) (pl_blocks p'))"
    unfolding p' by simp (rule sorted_insert_block, simp_all)
  have pairs: "separate (al_block (?as ! i)) (al_block (?as ! j))"
    if "i \<in> insert ?new (set (pl_blocks p))" "j \<in> insert ?new (set (pl_blocks p))" "i \<noteq> j"
      "conflict (?as ! i) (?as ! j)" for i j
  proof (cases "i = ?new")
    case True
    then have j: "j \<in> set (pl_blocks p)" using that by simp
    then show ?thesis using that free [OF j] True by (simp add: old separate_sym)
  next
    case i: False
    then have i': "i \<in> set (pl_blocks p)" using that by simp
    show ?thesis
    proof (cases "j = ?new")
      case True
      then show ?thesis using that free [OF i'] i' by (simp add: old conf)
    next
      case False
      then have "j \<in> set (pl_blocks p)" using that by simp
      then show ?thesis using that I(9) [OF i'] i' by (simp add: old)
    qed
  qed
  have sizes: "max (pl_buffer_size p) (block_end (al_block a)) < 2 ^ 64" using size I(8) by simp
  have live: "i < Suc ?new \<and> 0 < mb_size (al_block (?as ! i)) \<and> al_reuse (?as ! i) = pl_using_counters p"
    if "i \<in> insert ?new (set (pl_blocks p))" for i
    using that I(3-5) ok by (cases "i = ?new") (auto simp: old less_SucI)
  have all: "alloc_ok (pl_using_counters p) b \<and> block_end (al_block b) \<le> max (pl_buffer_size p) (block_end (al_block a))"
    if "b \<in> set ?as" for b
    using that I(6,7) ok(1) by (auto simp: le_max_iff_disj)
  show ?thesis
    unfolding planner_inv_def using sorted pairs sizes live all distinct_insert_block [OF I(1) new]
    by (simp add: p')
qed

lemma zero_size_inv:
  assumes "planner_inv p"
  shows "planner_inv (p\<lparr>pl_allocs := pl_allocs p @ [plain_alloc idx (mk_block 0 0)]\<rparr>)"
proof -
  note I = planner_invD [OF assms]
  let ?as = "pl_allocs p @ [plain_alloc idx (mk_block 0 0)]"
  have old: "?as ! i = pl_allocs p ! i" if "i \<in> set (pl_blocks p)" for i
    using I(3) [OF that] by (simp add: nth_append)
  have sorted: "sorted (map (\<lambda>i. mb_offset (al_block (?as ! i))) (pl_blocks p))"
    using I(2) by (simp add: old cong: map_cong)
  have pairs: "separate (al_block (?as ! i)) (al_block (?as ! j))"
    if "i \<in> set (pl_blocks p)" "j \<in> set (pl_blocks p)" "i \<noteq> j" "conflict (?as ! i) (?as ! j)" for i j
    using I(9) [OF that(1-3)] that by (simp add: old)
  have live: "i < Suc (length (pl_allocs p)) \<and> 0 < mb_size (al_block (?as ! i)) \<and> al_reuse (?as ! i) = pl_using_counters p"
    if "i \<in> set (pl_blocks p)" for i
    using that I(3-5) [OF that] by (simp add: old)
  have all: "alloc_ok (pl_using_counters p) b \<and> block_end (al_block b) \<le> pl_buffer_size p" if "b \<in> set ?as" for b
    using that I(6,7) by (auto simp: alloc_ok_def plain_alloc_def mk_block_def)
  show ?thesis
    unfolding planner_inv_def using sorted pairs live all I(1,8) by simp
qed

lemma set_erase_first: "set (erase_first allocs idx is) \<subseteq> set is"
  by (induction "is") auto

lemma erase_first_inv:
  "distinct is \<Longrightarrow> sorted (map f is) \<Longrightarrow>
    distinct (erase_first allocs idx is) \<and> sorted (map f (erase_first allocs idx is))"
proof (induction "is")
  case (Cons i "is")
  then show ?case using set_erase_first [of allocs idx "is"] by auto
qed simp

lemma TraceFree_inv:
  assumes "planner_inv p"
  shows "planner_inv (TraceFree p idx)"
proof -
  note I = planner_invD [OF assms]
  have sub: "i \<in> set (pl_blocks p)" if "i \<in> set (erase_first (pl_allocs p) idx (pl_blocks p))" for i
    using that set_erase_first by blast
  show ?thesis
    unfolding planner_inv_def
  proof (intro conjI ballI impI)
    fix i j
    assume "i \<in> set (pl_blocks (TraceFree p idx))" "j \<in> set (pl_blocks (TraceFree p idx))" "i \<noteq> j"
      "conflict (pl_allocs (TraceFree p idx) ! i) (pl_allocs (TraceFree p idx) ! j)"
    then show "separate (blk (TraceFree p idx) i) (blk (TraceFree p idx) j)"
      using I(9) sub by (simp add: TraceFree_def)
  qed (use I(1-8) sub erase_first_inv [OF I(1,2)] in \<open>auto simp: TraceFree_def\<close>)
qed

section \<open>Allocation\<close>

definition obstacles :: "(alloc_block \<Rightarrow> bool) \<Rightarrow> planner \<Rightarrow> memory_block set" where
  "obstacles skip p = (\<lambda>i. blk p i) ` {i \<in> set (pl_blocks p). \<not> skip (pl_allocs p ! i)}"

lemma fit_spec:
  assumes inv: "planner_inv p" and n: "0 < n"
  obtains best where "best_fit skip p n = Inr best" "\<forall>b \<in> obstacles skip p. clear_of best n b"
    "best \<le> pl_buffer_size p"
    "best + n \<le> pl_buffer_size p \<or>
      (\<forall>b \<in> obstacles skip p. block_end b \<le> best) \<and> (best = 0 \<or> (\<exists>b \<in> obstacles skip p. best = block_end b))
      \<and> (\<forall>y. (\<forall>b \<in> obstacles skip p. clear_of y n b) \<longrightarrow> pl_buffer_size p < y + n)"
proof -
  note I = planner_invD [OF inv]
  let ?bs = "map (\<lambda>i. blk p i) (filter (\<lambda>i. \<not> skip (pl_allocs p ! i)) (pl_blocks p))"
  have set: "set ?bs = obstacles skip p" by (auto simp: obstacles_def)
  have "sorted (map mb_offset ?bs)"
    using I(2) by (auto simp: comp_def intro: sorted_filter)
  moreover have "\<forall>b \<in> set ?bs. block_end b \<le> pl_buffer_size p"
    using I(3,7) by auto
  ultimately show ?thesis
    using that by (rule best_fit_spec [OF n _ I(8)]) (simp_all only: set)
qed

lemma best_fit_place_inv:
  assumes inv: "planner_inv p" and n: "0 < n" and fit: "best_fit skip p n = Inr best"
    and a: "al_block a = mk_block best n" "alloc_ok (pl_using_counters p) a" "al_reuse a = pl_using_counters p"
    and skip: "\<And>i. i \<in> set (pl_blocks p) \<Longrightarrow> conflict a (pl_allocs p ! i) \<Longrightarrow> \<not> skip (pl_allocs p ! i)"
    and placed: "place p a = Inr p'"
  shows "planner_inv p'"
proof -
  obtain best' where "best_fit skip p n = Inr best'" and clear: "\<forall>b \<in> obstacles skip p. clear_of best' n b"
    by (rule fit_spec [OF inv n, of skip])
  then have "best' = best" using fit by simp
  then have "separate (blk p i) (al_block a)"
    if "i \<in> set (pl_blocks p)" "conflict a (pl_allocs p ! i)" for i
    using clear that skip [OF that]
    by (auto simp: obstacles_def clear_of_def separate_def a mk_block_def)
  then show ?thesis
    using placed n a by (intro place_inv [OF inv]) (auto simp: mk_block_def)
qed

lemma TraceAllocation_inv:
  assumes inv: "planner_inv p" and ok: "TraceAllocation p idx n = Inr p'"
  shows "planner_inv p'"
proof (cases "n = 0")
  case True
  then show ?thesis using ok zero_size_inv [OF inv] by (auto simp: TraceAllocation_def elim!: bindE_InrE)
next
  case False
  then obtain best where "\<not> pl_using_counters p" "best_fit (\<lambda>_. False) p n = Inr best"
    "place p (plain_alloc idx (mk_block best n)) = Inr p'"
    using ok by (auto simp: TraceAllocation_def elim!: bindE_InrE)
  then show ?thesis
    using False by (intro best_fit_place_inv [OF inv]) (auto simp: plain_alloc_def alloc_ok_def)
qed

lemma TraceAllocation_counter_inv:
  assumes inv: "planner_inv p" and c: "complete c" and ok: "TraceAllocation_counter p idx c n = Inr p'"
  shows "planner_inv p'"
proof (cases "n = 0")
  case True
  then show ?thesis using ok zero_size_inv [OF inv] by (auto simp: TraceAllocation_counter_def elim!: bindE_InrE)
next
  case False
  then obtain best where "pl_using_counters p" "best_fit (time_disjoint c) p n = Inr best"
    "place p (counter_alloc idx c (mk_block best n)) = Inr p'"
    using ok by (auto simp: TraceAllocation_counter_def elim!: bindE_InrE)
  then show ?thesis
    using False c
    by (intro best_fit_place_inv [OF inv])
      (auto simp: counter_alloc_def alloc_ok_def mk_block_def conflict_def time_disjoint_def)
qed

section \<open>Reachable planners\<close>

text \<open>The flag says whether values are freed, too.\<close>

inductive traced :: "bool \<Rightarrow> bool \<Rightarrow> planner \<Rightarrow> bool" for uc frees where
  start: "traced uc frees (MemPatternPlanner uc)"
| alloc: "traced uc frees p \<Longrightarrow> TraceAllocation p idx n = Inr p' \<Longrightarrow> traced uc frees p'"
| alloc_counter: "traced uc frees p \<Longrightarrow> complete c \<Longrightarrow> TraceAllocation_counter p idx c n = Inr p' \<Longrightarrow>
    traced uc frees p'"
| free: "traced uc frees p \<Longrightarrow> frees \<Longrightarrow> traced uc frees (TraceFree p idx)"

lemma traced_inv: "traced uc frees p \<Longrightarrow> planner_inv p"
proof (induction rule: traced.induct)
  case start
  then show ?case by (simp add: MemPatternPlanner_def planner_inv_def)
qed (auto intro: TraceAllocation_inv TraceAllocation_counter_inv TraceFree_inv)

lemma place_counters: "place p a = Inr p' \<Longrightarrow> pl_using_counters p' = pl_using_counters p"
  by (auto simp: place_def Let_def split: if_splits)

lemma traced_counters: "traced uc frees p \<Longrightarrow> pl_using_counters p = uc"
  by (induction rule: traced.induct)
    (auto simp: MemPatternPlanner_def TraceAllocation_def TraceAllocation_counter_def TraceFree_def
      place_counters elim!: bindE_InrE split: if_splits)

text \<open>
  C3. In every planner that can be reached, the live blocks are listed by ascending
  offset, every block ever placed lies inside the buffer, and no byte belongs to two live
  values, unless their schedules are recorded and no step needs both.
\<close>
theorem planner_no_sharing:
  assumes "traced uc frees p"
  shows "sorted (map (\<lambda>i. mb_offset (al_block (pl_allocs p ! i))) (pl_blocks p))
    \<and> (\<forall>a \<in> set (pl_allocs p). mb_offset (al_block a) + mb_size (al_block a) \<le> pl_buffer_size p)
    \<and> (\<forall>i \<in> set (pl_blocks p). \<forall>j \<in> set (pl_blocks p). \<forall>x. i \<noteq> j
        \<and> mb_offset (al_block (pl_allocs p ! i)) \<le> x
        \<and> x < mb_offset (al_block (pl_allocs p ! i)) + mb_size (al_block (pl_allocs p ! i))
        \<and> mb_offset (al_block (pl_allocs p ! j)) \<le> x
        \<and> x < mb_offset (al_block (pl_allocs p ! j)) + mb_size (al_block (pl_allocs p ! j)) \<longrightarrow>
        uc \<and> (\<exists>c d. al_counter (pl_allocs p ! i) = Some c \<and> al_counter (pl_allocs p ! j) = Some d
          \<and> \<not> OverlappingTimeSchedules c d))"
proof -
  note I = planner_invD [OF traced_inv [OF assms]]
  have "uc \<and> (\<exists>c d. al_counter (pl_allocs p ! i) = Some c \<and> al_counter (pl_allocs p ! j) = Some d
      \<and> \<not> OverlappingTimeSchedules c d)"
    if ij: "i \<in> set (pl_blocks p)" "j \<in> set (pl_blocks p)" "i \<noteq> j" and "\<not> separate (blk p i) (blk p j)" for i j
  proof -
    have "\<not> conflict (pl_allocs p ! i) (pl_allocs p ! j)" using that I(9) by blast
    moreover have "alloc_ok uc (pl_allocs p ! i)" "alloc_ok uc (pl_allocs p ! j)"
      using I(3,6) ij traced_counters [OF assms] by auto
    ultimately show ?thesis by (auto simp: conflict_def alloc_ok_def)
  qed
  moreover have "\<not> separate b b'" if "mb_offset b \<le> x" "x < block_end b" "mb_offset b' \<le> x" "x < block_end b'" for b b' x
    using that by (auto simp: separate_def)
  ultimately show ?thesis using I(2,7) by blast
qed

text \<open>A trace for the witnesses: two values, the first one freed, and a third one in its place.\<close>

definition sample :: planner where
  "sample = \<lparr>pl_allocs = [plain_alloc 0 (mk_block 0 64), plain_alloc 1 (mk_block 64 32), plain_alloc 2 (mk_block 0 16)],
     pl_blocks = [2, 1], pl_buffer_size = 96, pl_using_counters = False\<rparr>"

lemmas planner_eval =
  TraceAllocation_def TraceAllocation_counter_def TraceFree_def MemPatternPlanner_def best_fit_def
  gap_step_def place_def plain_alloc_def mk_block_def Let_def

lemma sample_traced: "traced False True sample"
proof -
  have "traced False True (MemPatternPlanner False)" by (rule traced.start)
  then have "traced False True (MemPatternPlanner False
      \<lparr>pl_allocs := [plain_alloc 0 (mk_block 0 64)], pl_blocks := [0], pl_buffer_size := 64\<rparr>)"
    by (rule traced.alloc [where idx = 0 and n = 64]) (simp add: planner_eval)
  then have "traced False True (MemPatternPlanner False\<lparr>pl_allocs :=
      [plain_alloc 0 (mk_block 0 64), plain_alloc 1 (mk_block 64 32)], pl_blocks := [0, 1], pl_buffer_size := 96\<rparr>)"
    by (rule traced.alloc [where idx = 1 and n = 32]) (simp add: planner_eval)
  then have "traced False True (TraceFree (MemPatternPlanner False\<lparr>pl_allocs :=
      [plain_alloc 0 (mk_block 0 64), plain_alloc 1 (mk_block 64 32)], pl_blocks := [0, 1], pl_buffer_size := 96\<rparr>) 0)"
    by (rule traced.free) simp
  then show ?thesis
    by (rule traced.alloc [where idx = 2 and n = 16]) (simp add: planner_eval sample_def)
qed

theorem planner_no_sharing_witness:
  "list_all (\<lambda>a. mb_offset (al_block a) + mb_size (al_block a) \<le> 96) (pl_allocs sample)
    \<and> sorted (map (\<lambda>i. mb_offset (al_block (pl_allocs sample ! i))) (pl_blocks sample))"
proof -
  have "pl_buffer_size sample = 96" by (simp add: sample_def)
  then show ?thesis using planner_no_sharing [OF sample_traced] by (simp add: list_all_iff)
qed

text \<open>
  Allocation without counters never fails but by overflow, and never grows the buffer
  needlessly: when some free range of the buffer is large enough, the value is placed in
  the buffer; otherwise it goes behind the last live block and the buffer ends where it
  ends.
\<close>
theorem allocation_reuses:
  assumes "traced False frees p" "0 < n"
  shows "\<exists>best p'.
    TraceAllocation p idx n = (if 2 ^ 64 \<le> best + n then Inl Thrown else Inr p')
    \<and> pl_allocs p' = pl_allocs p @ [plain_alloc idx (mk_block best n)]
    \<and> pl_buffer_size p' = max (pl_buffer_size p) (best + n)
    \<and> set (pl_blocks p') = insert (length (pl_allocs p)) (set (pl_blocks p))
    \<and> (\<forall>i \<in> set (pl_blocks p). clear_of best n (al_block (pl_allocs p ! i)))
    \<and> (if \<exists>y. y + n \<le> pl_buffer_size p \<and> (\<forall>i \<in> set (pl_blocks p). clear_of y n (al_block (pl_allocs p ! i)))
       then best + n \<le> pl_buffer_size p
       else (\<forall>i \<in> set (pl_blocks p). block_end (al_block (pl_allocs p ! i)) \<le> best)
         \<and> (best = 0 \<or> (\<exists>i \<in> set (pl_blocks p). best = block_end (al_block (pl_allocs p ! i)))))"
proof -
  have obst: "obstacles (\<lambda>_. False) p = (\<lambda>i. blk p i) ` set (pl_blocks p)" by (simp add: obstacles_def)
  obtain best where fit: "best_fit (\<lambda>_. False) p n = Inr best"
    and clear: "\<forall>b \<in> obstacles (\<lambda>_. False) p. clear_of best n b"
    and place: "best + n \<le> pl_buffer_size p \<or>
      (\<forall>b \<in> obstacles (\<lambda>_. False) p. block_end b \<le> best)
      \<and> (best = 0 \<or> (\<exists>b \<in> obstacles (\<lambda>_. False) p. best = block_end b))
      \<and> (\<forall>y. (\<forall>b \<in> obstacles (\<lambda>_. False) p. clear_of y n b) \<longrightarrow> pl_buffer_size p < y + n)"
    by (rule fit_spec [OF traced_inv [OF assms(1)] assms(2), of "\<lambda>_. False"])
  note clear' = clear [unfolded obst ball_simps bex_simps] and place' = place [unfolded obst ball_simps bex_simps]
  let ?a = "plain_alloc idx (mk_block best n)"
  let ?p' = "p\<lparr>pl_buffer_size := max (pl_buffer_size p) (best + n), pl_allocs := pl_allocs p @ [?a],
    pl_blocks := insert_block (pl_allocs p @ [?a]) best n (length (pl_allocs p)) (pl_blocks p)\<rparr>"
  have "TraceAllocation p idx n = (if 2 ^ 64 \<le> best + n then Inl Thrown else Inr ?p')"
    using assms traced_counters [OF assms(1)] fit
    by (simp add: TraceAllocation_def place_def plain_alloc_def mk_block_def Let_def)
  moreover have "if \<exists>y. y + n \<le> pl_buffer_size p \<and> (\<forall>i \<in> set (pl_blocks p). clear_of y n (blk p i))
       then best + n \<le> pl_buffer_size p
       else (\<forall>i \<in> set (pl_blocks p). block_end (blk p i) \<le> best)
         \<and> (best = 0 \<or> (\<exists>i \<in> set (pl_blocks p). best = block_end (blk p i)))"
  proof (cases "best + n \<le> pl_buffer_size p")
    case True
    then have "\<exists>y. y + n \<le> pl_buffer_size p \<and> (\<forall>i \<in> set (pl_blocks p). clear_of y n (blk p i))"
      using clear' by blast
    then show ?thesis using True by (simp only: if_True)
  next
    case False
    then show ?thesis using place' by (simp only: not_le) (metis leD)
  qed
  ultimately show ?thesis
    using clear' by (intro exI [of _ best] exI [of _ ?p'] conjI) simp_all
qed

theorem allocation_reuses_witness:
  "\<exists>p'. TraceAllocation sample 3 48 = Inr p' \<and> pl_buffer_size p' = 96"
  using allocation_reuses [OF sample_traced, of "48", OF zero_less_numeral, of 3]
proof (elim exE conjE)
  fix best p'
  assume r: "TraceAllocation sample 3 48 = (if 2 ^ 64 \<le> best + 48 then Inl Thrown else Inr p')"
    and b: "pl_buffer_size p' = max (pl_buffer_size sample) (best + 48)"
    and w: "if \<exists>y. y + 48 \<le> pl_buffer_size sample \<and>
        (\<forall>i \<in> set (pl_blocks sample). clear_of y 48 (al_block (pl_allocs sample ! i)))
      then best + 48 \<le> pl_buffer_size sample
      else (\<forall>i \<in> set (pl_blocks sample). block_end (al_block (pl_allocs sample ! i)) \<le> best) \<and>
        (best = 0 \<or> (\<exists>i \<in> set (pl_blocks sample). best = block_end (al_block (pl_allocs sample ! i))))"
  have "16 + 48 \<le> pl_buffer_size sample \<and>
      (\<forall>i \<in> set (pl_blocks sample). clear_of 16 48 (al_block (pl_allocs sample ! i)))"
    by (simp add: sample_def clear_of_def plain_alloc_def mk_block_def)
  then have "best + 48 \<le> pl_buffer_size sample" using w by meson
  then show ?thesis using r b by (simp add: sample_def)
qed

section \<open>The generated pattern\<close>

lemma collect_find: "collect as idx = map_option al_block (find (\<lambda>a. al_index a = idx) (rev as))"
  by (induction as rule: rev_induct) (auto simp: collect_def)

lemma foldE_unit: "(\<And>x. x \<in> set xs \<Longrightarrow> f x () = Inr ()) \<Longrightarrow> foldE f xs () = Inr ()"
  by (induction xs) simp_all

lemma place_live: "place p a = Inr p' \<Longrightarrow> pl_allocs p' = pl_allocs p @ [a]
    \<and> set (pl_blocks p') = insert (length (pl_allocs p)) (set (pl_blocks p))"
  by (auto simp: place_def Let_def split: if_splits)

text \<open>When nothing is freed, every value with a schedule is live.\<close>

lemma traced_live:
  "traced uc frees p \<Longrightarrow> \<not> frees \<Longrightarrow> \<forall>i < length (pl_allocs p). al_reuse (pl_allocs p ! i) \<longrightarrow> i \<in> set (pl_blocks p)"
proof (induction rule: traced.induct)
  case (alloc p idx n p')
  then show ?case
    by (cases "n = 0")
      (auto simp: TraceAllocation_def plain_alloc_def nth_append less_Suc_eq dest!: place_live elim!: bindE_InrE
        split: if_splits)
next
  case (alloc_counter p c idx n p')
  then show ?case
    by (cases "n = 0")
      (auto simp: TraceAllocation_counter_def plain_alloc_def nth_append less_Suc_eq dest!: place_live
        elim!: bindE_InrE split: if_splits)
qed (simp_all add: MemPatternPlanner_def)

lemma mod_wrap:
  assumes "s + k < M" "0 < k"
  shows "(s + k + (M - 1)) mod M = s + k - (1 :: nat)"
proof -
  have "s + k + (M - 1) = (s + k - 1) + M" using assms by simp
  then show ?thesis using assms by (simp only: mod_add_self2) simp
qed

lemma pair_ok_separate:
  assumes "block_end (al_block a) < 2 ^ 64" "0 < mb_size (al_block a)"
    "block_end (al_block b) < 2 ^ 64" "0 < mb_size (al_block b)"
    and "\<not> separate (al_block a) (al_block b) \<longrightarrow>
      \<not> OverlappingTimeSchedules (the (al_counter a)) (the (al_counter b))"
  shows "pair_ok a b = Inr ()"
proof -
  have "mb_offset (al_block a) \<le> block_end (al_block a) - 1" "mb_offset (al_block b) \<le> block_end (al_block b) - 1"
    using assms(2,4) by simp_all
  then show ?thesis
    using assms(2,4,5) unfolding pair_ok_def Let_def mod_wrap [OF assms(1,2)] mod_wrap [OF assms(3,4)]
    by (auto simp: separate_def)
qed

lemma check_pairs_ok:
  assumes t: "traced uc False p"
  shows "check_pairs (pl_allocs p) = Inr ()"
  unfolding check_pairs_def
proof (rule foldE_unit)
  note I = planner_invD [OF traced_inv [OF t]]
  note live = traced_live [OF t, simplified]
  fix i
  assume i: "i \<in> set [0..<length (pl_allocs p)]"
  have "pair_ok (pl_allocs p ! i) (pl_allocs p ! j) = Inr ()"
    if ij: "i < j" "j < length (pl_allocs p)" "al_reuse (pl_allocs p ! i)" "al_reuse (pl_allocs p ! j)" for j
  proof (rule pair_ok_separate)
    have "i \<in> set (pl_blocks p)" "j \<in> set (pl_blocks p)" using live ij by simp_all
    then show "\<not> separate (blk p i) (blk p j) \<longrightarrow>
        \<not> OverlappingTimeSchedules (the (al_counter (pl_allocs p ! i))) (the (al_counter (pl_allocs p ! j)))"
      "0 < mb_size (blk p i)" "0 < mb_size (blk p j)"
      using I(4,9) ij(1) by (auto simp: conflict_def)
    show "block_end (blk p i) < 2 ^ 64" "block_end (blk p j) < 2 ^ 64"
      using I(7) [of "pl_allocs p ! i"] I(7) [of "pl_allocs p ! j"] I(8) ij by (simp_all add: le_less_trans)
  qed
  then show "(if \<not> al_reuse (pl_allocs p ! i) then Inr ()
      else foldE (\<lambda>j _. if \<not> al_reuse (pl_allocs p ! j) then Inr () else pair_ok (pl_allocs p ! i) (pl_allocs p ! j))
        [i + 1..<length (pl_allocs p)] ()) = Inr ()"
    by (auto intro!: foldE_unit)
qed

text \<open>
  For a trace without counters, or one in which nothing is freed, the pattern is
  generated without tripping its checks: it maps every value index to the last block
  recorded for it, every block lies below the peak size, and the peak is the buffer size.
\<close>
theorem pattern_generated:
  assumes "traced uc frees p" "\<not> uc \<or> \<not> frees"
  shows "\<exists>m. GenerateMemPattern p = Inr m \<and> mp_peak_size m = pl_buffer_size p
    \<and> (\<forall>idx. GetBlock m idx = map_option al_block (find (\<lambda>a. al_index a = idx) (rev (pl_allocs p))))
    \<and> (\<forall>idx b. GetBlock m idx = Some b \<longrightarrow> mb_offset b + mb_size b \<le> mp_peak_size m)"
proof -
  have "(if pl_using_counters p then check_pairs (pl_allocs p) else Inr ()) = Inr ()"
    using assms check_pairs_ok traced_counters [OF assms(1)] by (cases frees) auto
  then have m: "GenerateMemPattern p = Inr \<lparr>mp_patterns = collect (pl_allocs p), mp_peak_size = pl_buffer_size p\<rparr>"
    by (simp add: GenerateMemPattern_def)
  have "block_end b \<le> pl_buffer_size p" if "collect (pl_allocs p) idx = Some b" for idx b
    using that planner_invD(7) [OF traced_inv [OF assms(1)]]
    by (auto simp: collect_find find_Some_iff) (metis length_rev nth_mem set_rev)
  then show ?thesis
    by (simp add: m GetBlock_def collect_find)
qed

theorem pattern_generated_witness:
  "\<exists>m. GenerateMemPattern sample = Inr m \<and> mp_peak_size m = 96 \<and> GetBlock m 2 = Some (mk_block 0 16)"
  using pattern_generated [OF sample_traced] by (auto simp: sample_def plain_alloc_def)

end
