(* ===== verification/Arena.thy ===== *)
theory Arena
  imports Prelude
begin

text \<open>
  The parts of the memory arena whose code is in core/framework/bfc_arena.h: the sizes of the bins for free chunks, the
  order of the chunks in a bin, and the regions, which map pointers to the handles of chunks. Allocation itself is only
  declared there. Pointers, sizes and handles are 64-bit words; \<open>std::upper_bound\<close> on a vector that its test partitions is
  the first element that passes the test.
\<close>

unbundle bit_operations_syntax

section \<open>Bins\<close>

definition kMinAllocationBits :: nat where "kMinAllocationBits = 8"

definition kMinAllocationSize :: "64 word" where "kMinAllocationSize = push_bit kMinAllocationBits 1"

definition kNumBins :: int where "kNumBins = 21"

text \<open>\<open>__builtin_clzll\<close>: the number of zeros before the highest one.\<close>

definition clzll :: "64 word \<Rightarrow> int" where
  "clzll n = int (length (takeWhile (\<lambda>i. \<not> bit n i) (rev [0..<64])))"

definition Log2FloorNonZero :: "64 word \<Rightarrow> int" where
  "Log2FloorNonZero n = 63 XOR clzll n"

function log2_loop :: "64 word \<Rightarrow> int \<Rightarrow> int" where
  "log2_loop n r = (if n > 0 then log2_loop (drop_bit 1 n) (r + 1) else r)"
  by pat_completeness auto

lemma unat_half: "unat (drop_bit 1 n) = unat (n :: 64 word) div 2"
  by (simp add: drop_bit_eq_div unat_div_distrib)

lemma drop_bit_less: "n > 0 \<Longrightarrow> unat (drop_bit 1 (n :: 64 word)) < unat n"
  unfolding unat_half by (simp add: word_greater_zero_iff unat_gt_0)

termination log2_loop
  by (relation "measure (\<lambda>(n, r). unat n)") (auto simp: drop_bit_less simp del: One_nat_def)

declare log2_loop.simps [simp del]

definition Log2FloorNonZeroSlow :: "64 word \<Rightarrow> int" where
  "Log2FloorNonZeroSlow n = log2_loop n 0 - 1"

definition BinNumToSize :: "int \<Rightarrow> 64 word" where
  "BinNumToSize index = push_bit (nat index) 256"

definition BinNumForSize :: "64 word \<Rightarrow> int" where
  "BinNumForSize bytes = min (kNumBins - 1) (Log2FloorNonZero (drop_bit kMinAllocationBits (max bytes 256)))"

lemma log2_loop_bounds:
  "n > 0 \<Longrightarrow> \<exists>i. log2_loop n r = r + int i + 1 \<and> 2 ^ i \<le> unat n \<and> unat n < 2 ^ Suc i"
proof (induction n r rule: log2_loop.induct)
  case (1 n r)
  let ?m = "drop_bit 1 n :: 64 word"
  have m: "unat ?m = unat n div 2" by (rule unat_half)
  have n: "0 < unat n" using 1(2) by (simp add: unat_gt_0 word_greater_zero_iff)
  show ?case
  proof (cases "?m > 0")
    case True
    from 1(1) [OF 1(2) True] obtain i where i: "log2_loop ?m (r + 1) = r + 1 + int i + 1" "2 ^ i \<le> unat ?m" "unat ?m < 2 ^ Suc i"
      by blast
    show ?thesis
      by (rule exI [of _ "Suc i"]) (use i 1(2) m in \<open>subst log2_loop.simps, auto\<close>)
  next
    case False
    then have "unat n div 2 = 0" using m by (simp add: word_greater_zero_iff)
    then have "unat n = 1" using n by auto
    moreover have "log2_loop n r = r + 1"
      using 1(2) False by (subst log2_loop.simps) (simp, subst log2_loop.simps, simp)
    ultimately show ?thesis by (intro exI [of _ 0]) simp
  qed
qed

lemma clzll_bounds:
  assumes "n > 0"
  obtains i where "i < 64" "clzll n = 63 - int i" "2 ^ i \<le> unat n" "unat n < 2 ^ Suc i"
proof -
  let ?B = "{i. i < 64 \<and> bit n i}"
  have fin: "finite ?B" by simp
  have ne: "?B \<noteq> {}"
  proof
    assume "?B = {}"
    then have "n = 0" by (intro bit_word_eqI) auto
    with assms show False by simp
  qed
  define i where "i = Max ?B"
  have i: "i < 64" "bit n i" using Max_in [OF fin ne] by (simp_all add: i_def)
  have above: "\<not> bit n j" if "i < j" "j < 64" for j
  proof
    assume "bit n j"
    then have "j \<le> i" using Max_ge [OF fin, of j] that by (simp add: i_def)
    with that show False by simp
  qed
  have "[0..<64] = [0..<i] @ i # [Suc i..<64]" 
    using upt_add_eq_append [of 0 i "64 - i"] upt_conv_Cons [OF i(1)] i(1) by simp
  then have "rev [0..<64] = rev [Suc i..<64] @ i # rev [0..<i]" by simp
  moreover have "takeWhile (\<lambda>i. \<not> bit n i) (rev [Suc i..<64] @ i # rev [0..<i]) = rev [Suc i..<64]"
    using i above by (subst takeWhile_append2) auto
  ultimately have c: "clzll n = 63 - int i" using i(1) by (simp add: clzll_def)
  have "bit (unat n) i" using i by (simp add: bit_unsigned_iff)
  then have "odd (unat n div 2 ^ i)" by (simp add: bit_iff_odd)
  then have "unat n div 2 ^ i \<noteq> 0" by (metis even_zero)
  then have lo: "2 ^ i \<le> unat n" by (simp add: div_eq_0_iff)
  have "take_bit (Suc i) n = n" using above by (intro bit_word_eqI) (auto simp: bit_simps, metis not_less_eq)
  then have "unat n = take_bit (Suc i) (unat n)" using i(1) by (metis unsigned_take_bit_eq)
  then have "unat n < 2 ^ Suc i" by (metis take_bit_nat_less_exp)
  with i(1) c lo show thesis by (rule that)
qed

lemma xor_63: "i < 64 \<Longrightarrow> 63 XOR (63 - int i) = int i"
proof -
  have "list_all (\<lambda>i. 63 XOR (63 - int i) = int i) [0..<64]" by code_simp
  then show "i < 64 \<Longrightarrow> ?thesis" by (simp only: list_all_iff set_upt atLeast0LessThan lessThan_iff)
qed

lemma log2_unique: "2 ^ i \<le> u \<Longrightarrow> u < 2 ^ Suc i \<Longrightarrow> 2 ^ j \<le> u \<Longrightarrow> u < (2 :: nat) ^ Suc j \<Longrightarrow> i = j"
  by (metis Suc_leI le_less_trans less_antisym less_imp_not_less linorder_neqE_nat not_less_eq power_less_imp_less_exp
      one_less_numeral_iff semiring_norm(76))

lemma Log2Floor:
  assumes "n > 0"
  obtains i where "i < 64" "Log2FloorNonZero n = int i" "Log2FloorNonZeroSlow n = int i" "2 ^ i \<le> unat n" "unat n < 2 ^ Suc i"
proof -
  from assms obtain i where i: "i < 64" "clzll n = 63 - int i" "2 ^ i \<le> unat n" "unat n < 2 ^ Suc i" by (rule clzll_bounds)
  from log2_loop_bounds [OF assms, of 0] obtain j where j: "log2_loop n 0 = int j + 1" "2 ^ j \<le> unat n" "unat n < 2 ^ Suc j"
    by auto
  have "i = j" by (rule log2_unique) (rule i j)+
  with i j show thesis using that [of i] by (simp add: Log2FloorNonZero_def Log2FloorNonZeroSlow_def xor_63)
qed

text \<open>What the number of a bin says, with \<open>u\<close> units of 256 bytes.\<close>

lemma unat_units: "unat (drop_bit kMinAllocationBits (max (bytes :: 64 word) 256)) = max (unat bytes) 256 div 256"
proof -
  have "unat (max bytes 256) = max (unat bytes) 256" by (simp add: max_def word_le_nat_alt)
  then show ?thesis by (simp add: kMinAllocationBits_def drop_bit_eq_div unat_div_distrib)
qed

lemma BinNumForSize_iff:
  obtains i where "BinNumForSize bytes = min 20 (int i)" "2 ^ i \<le> max (unat bytes) 256 div 256" "max (unat bytes) 256 div 256 < 2 ^ Suc i"
proof -
  let ?v = "drop_bit kMinAllocationBits (max bytes 256) :: 64 word"
  have "0 < unat ?v" unfolding unat_units by (simp add: div_greater_zero_iff)
  then have "?v > 0" by (simp add: word_greater_zero_iff unat_gt_0)
  then obtain i where "Log2FloorNonZero ?v = int i" "2 ^ i \<le> unat ?v" "unat ?v < 2 ^ Suc i" by (rule Log2Floor)
  then show thesis using that [of i] by (simp add: BinNumForSize_def kNumBins_def unat_units)
qed

lemma unat_BinNumToSize: "j \<le> 20 \<Longrightarrow> unat (BinNumToSize (int j)) = 256 * 2 ^ j"
proof -
  assume j: "j \<le> 20"
  have "(2 :: nat) ^ j \<le> 2 ^ 20" using j by (intro power_increasing) simp_all
  then have "256 * (2 :: nat) ^ j < 2 ^ 64" by simp
  then have "unat (of_nat (256 * 2 ^ j) :: 64 word) = 256 * 2 ^ j"
    by (simp only: unat_of_nat take_bit_eq_mod) simp
  then show ?thesis by (simp add: BinNumToSize_def push_bit_eq_mult mult.commute)
qed

lemma bin_le_iff:
  assumes "j \<le> 20"
  shows "int j \<le> BinNumForSize bytes \<longleftrightarrow> j = 0 \<or> unat (BinNumToSize (int j)) \<le> unat bytes"
proof -
  obtain i where i: "BinNumForSize bytes = min 20 (int i)" "2 ^ i \<le> max (unat bytes) 256 div 256" "max (unat bytes) 256 div 256 < 2 ^ Suc i"
    by (rule BinNumForSize_iff)
  have "int j \<le> BinNumForSize bytes \<longleftrightarrow> j \<le> i" using i(1) assms by auto
  also have "\<dots> \<longleftrightarrow> 2 ^ j \<le> max (unat bytes) 256 div 256"
  proof
    assume "j \<le> i"
    then have "(2 :: nat) ^ j \<le> 2 ^ i" by (intro power_increasing) simp_all
    then show "2 ^ j \<le> max (unat bytes) 256 div 256" using i(2) by (rule order_trans)
  next
    assume "2 ^ j \<le> max (unat bytes) 256 div 256"
    then have "(2 :: nat) ^ j < 2 ^ Suc i" using i(3) by simp
    then show "j \<le> i" using power_less_imp_less_exp [of "2 :: nat" j "Suc i"] by simp
  qed
  also have "\<dots> \<longleftrightarrow> 256 * 2 ^ j \<le> max (unat bytes) 256"
    by (simp add: less_eq_div_iff_mult_less_eq mult.commute)
  also have "\<dots> \<longleftrightarrow> j = 0 \<or> 256 * 2 ^ j \<le> unat bytes"
  proof (cases j)
    case (Suc n)
    have "(1 :: nat) \<le> 2 ^ n" by simp
    then have "256 < 256 * (2 :: nat) ^ j" unfolding Suc power_Suc by linarith
    then show ?thesis using Suc by (auto simp: le_max_iff_disj simp del: power_Suc)
  qed simp
  finally show ?thesis using unat_BinNumToSize [OF assms] by simp
qed

section \<open>Regions\<close>

definition kInvalidChunkHandle :: "64 word" where "kInvalidChunkHandle = -1"

record region =
  reg_ptr :: "64 word"
  reg_size :: "64 word"
  reg_end :: "64 word"
  reg_handles :: "64 word list"

definition AllocationRegion :: "64 word \<Rightarrow> 64 word \<Rightarrow> region res" where
  "AllocationRegion p memory_size =
     bindE (enforce (memory_size mod kMinAllocationSize = 0)) (\<lambda>_.
     Inr \<lparr>reg_ptr = p, reg_size = memory_size, reg_end = p + memory_size,
       reg_handles = replicate (unat ((memory_size + kMinAllocationSize - 1) div kMinAllocationSize)) kInvalidChunkHandle\<rparr>)"

text \<open>The index goes through an \<open>int\<close>.\<close>

definition IndexFor :: "region \<Rightarrow> 64 word \<Rightarrow> int res" where
  "IndexFor r p =
     bindE (enforce (reg_ptr r \<le> p)) (\<lambda>_.
     bindE (enforce (p < reg_ptr r + reg_size r)) (\<lambda>_.
     Inr (sint (ucast (drop_bit kMinAllocationBits (p - reg_ptr r)) :: 32 word))))"

definition region_get :: "region \<Rightarrow> 64 word \<Rightarrow> 64 word res" where
  "region_get r p = bindE (IndexFor r p) (\<lambda>i.
     if 0 \<le> i \<and> nat i < length (reg_handles r) then Inr (reg_handles r ! nat i) else Inl Undefined)"

definition region_set :: "region \<Rightarrow> 64 word \<Rightarrow> 64 word \<Rightarrow> region res" where
  "region_set r p h = bindE (IndexFor r p) (\<lambda>i.
     if 0 \<le> i \<and> nat i < length (reg_handles r) then Inr (r\<lparr>reg_handles := (reg_handles r)[nat i := h]\<rparr>) else Inl Undefined)"

definition upper_bound :: "64 word \<Rightarrow> region list \<Rightarrow> nat" where
  "upper_bound p rs = length (takeWhile (\<lambda>r. \<not> p < reg_end r) rs)"

definition AddAllocationRegion :: "64 word \<Rightarrow> 64 word \<Rightarrow> region list \<Rightarrow> region list res" where
  "AddAllocationRegion p memory_size rs = (let n = upper_bound p rs in
     bindE (AllocationRegion p memory_size) (\<lambda>r. Inr (take n rs @ r # drop n rs)))"

text \<open>Behind the last region the null pointer is returned, and its fields are read.\<close>

definition RegionFor :: "64 word \<Rightarrow> region list \<Rightarrow> nat res" where
  "RegionFor p rs = (let n = upper_bound p rs in if n < length rs then Inr n else Inl Undefined)"

definition get_handle :: "64 word \<Rightarrow> region list \<Rightarrow> 64 word res" where
  "get_handle p rs = bindE (RegionFor p rs) (\<lambda>n. region_get (rs ! n) p)"

definition set_handle :: "64 word \<Rightarrow> 64 word \<Rightarrow> region list \<Rightarrow> region list res" where
  "set_handle p h rs = bindE (RegionFor p rs) (\<lambda>n. bindE (region_set (rs ! n) p h) (\<lambda>r. Inr (rs[n := r])))"

definition erase_handle :: "64 word \<Rightarrow> region list \<Rightarrow> region list res" where
  "erase_handle p rs = set_handle p kInvalidChunkHandle rs"

section \<open>What the regions keep\<close>

text \<open>A region ends before the last address and has at most 512 GB, so that its blocks of 256 bytes are counted by an \<open>int\<close>.\<close>

definition region_ok :: "region \<Rightarrow> bool" where
  "region_ok r \<longleftrightarrow> unat (reg_ptr r) + unat (reg_size r) < 2 ^ 64 \<and> unat (reg_size r) \<le> 2 ^ 39
     \<and> 256 dvd unat (reg_size r) \<and> reg_end r = reg_ptr r + reg_size r \<and> length (reg_handles r) = unat (reg_size r) div 256"

definition regions_ok :: "region list \<Rightarrow> bool" where
  "regions_ok rs \<longleftrightarrow> list_all region_ok rs \<and> sorted_wrt (\<lambda>r r'. reg_end r \<le> reg_ptr r') rs"

definition in_region :: "region \<Rightarrow> 64 word \<Rightarrow> bool" where
  "in_region r p \<longleftrightarrow> reg_ptr r \<le> p \<and> p < reg_end r"

definition block :: "region \<Rightarrow> 64 word \<Rightarrow> nat" where
  "block r p = unat (p - reg_ptr r) div 256"

definition handles_of :: "region list \<Rightarrow> 64 word \<Rightarrow> 64 word option" where
  "handles_of rs p = (case get_handle p rs of Inl e \<Rightarrow> None | Inr h \<Rightarrow> Some h)"

definition same_block :: "region list \<Rightarrow> 64 word \<Rightarrow> 64 word \<Rightarrow> bool" where
  "same_block rs p q \<longleftrightarrow> list_ex (\<lambda>r. in_region r p \<and> in_region r q \<and> block r p = block r q) rs"

lemma end_unat: "region_ok r \<Longrightarrow> unat (reg_end r) = unat (reg_ptr r) + unat (reg_size r)"
  by (simp add: region_ok_def unat_word_ariths)

lemma in_region_iff: "region_ok r \<Longrightarrow> in_region r p \<longleftrightarrow> unat (reg_ptr r) \<le> unat p \<and> unat p < unat (reg_ptr r) + unat (reg_size r)"
  by (simp add: in_region_def word_le_nat_alt word_less_nat_alt end_unat)

lemma block_less:
  assumes "region_ok r" "in_region r p"
  shows "block r p < length (reg_handles r)" "block r p < 2 ^ 31"
proof -
  have "reg_ptr r \<le> p" using assms(2) by (simp add: in_region_def)
  then have d: "unat (p - reg_ptr r) = unat p - unat (reg_ptr r)" by (rule unat_sub)
  moreover have "unat (reg_ptr r) \<le> unat p \<and> unat p < unat (reg_ptr r) + unat (reg_size r)"
    using in_region_iff [OF assms(1)] assms(2) by simp
  ultimately have l: "unat (p - reg_ptr r) < unat (reg_size r)" by linarith
  have s: "256 * (unat (reg_size r) div 256) = unat (reg_size r)" using assms(1) by (simp add: region_ok_def)
  show "block r p < length (reg_handles r)"
    using assms(1) l s by (simp add: block_def region_ok_def div_less_iff_less_mult mult.commute)
  have "unat (p - reg_ptr r) < 2 ^ 31 * 256" using l assms(1) by (simp add: region_ok_def)
  then show "block r p < 2 ^ 31" by (simp add: block_def div_less_iff_less_mult)
qed

lemma IndexFor_in:
  assumes ok: "region_ok r" and p: "in_region r p"
  shows "IndexFor r p = Inr (int (block r p))"
proof -
  let ?x = "drop_bit kMinAllocationBits (p - reg_ptr r) :: 64 word"
  have x: "unat ?x = block r p" by (simp add: kMinAllocationBits_def drop_bit_eq_div unat_div_distrib block_def)
  have small: "block r p < 2 ^ 31" by (rule block_less [OF ok p])
  have "uint (ucast ?x :: 32 word) = int (block r p)"
  proof -
    have "unat (ucast ?x :: 32 word) = block r p" using small by (simp add: unsigned_ucast_eq x take_bit_nat_eq_self)
    then show ?thesis by (simp add: uint_nat)
  qed
  moreover have "sint (ucast ?x :: 32 word) = signed_take_bit 31 (uint (ucast ?x :: 32 word))"
    by (simp add: sint_uint)
  moreover have "signed_take_bit 31 (int (block r p)) = int (block r p)"
  proof (rule signed_take_bit_int_eq_self)
    have "int (block r p) < int (2 ^ 31)" using small by (simp only: of_nat_less_iff)
    then show "int (block r p) < 2 ^ 31" by simp
  qed simp
  ultimately show ?thesis using p ok by (simp add: IndexFor_def in_region_def region_ok_def)
qed

lemma IndexFor_out: "region_ok r \<Longrightarrow> \<not> in_region r p \<Longrightarrow> IndexFor r p = Inl EnforceFailed"
  by (auto simp: IndexFor_def in_region_def region_ok_def enforce_def)

lemma regions_nth:
  assumes "regions_ok rs" "i < length rs"
  shows "region_ok (rs ! i)"
  using assms by (simp add: regions_ok_def list_all_length)

lemma regions_sorted: "regions_ok rs \<Longrightarrow> i < j \<Longrightarrow> j < length rs \<Longrightarrow> reg_end (rs ! i) \<le> reg_ptr (rs ! j)"
  by (simp add: regions_ok_def sorted_wrt_iff_nth_less)

lemma ptr_le_end: "region_ok r \<Longrightarrow> reg_ptr r \<le> reg_end r"
  by (simp add: word_le_nat_alt end_unat)

lemma upper_bound_eq:
  assumes "n \<le> length rs" "\<And>i. i < n \<Longrightarrow> reg_end (rs ! i) \<le> p" "n < length rs \<Longrightarrow> p < reg_end (rs ! n)"
  shows "upper_bound p rs = n"
proof -
  have "takeWhile (\<lambda>r. \<not> p < reg_end r) rs = take n rs"
    by (rule takeWhile_eq_take_P_nth) (use assms in \<open>auto simp: not_less\<close>)
  then show ?thesis using assms(1) by (simp add: upper_bound_def)
qed

lemma upper_bound_props:
  shows "upper_bound p rs \<le> length rs" "i < upper_bound p rs \<Longrightarrow> reg_end (rs ! i) \<le> p"
    "upper_bound p rs < length rs \<Longrightarrow> p < reg_end (rs ! upper_bound p rs)"
proof -
  show "upper_bound p rs \<le> length rs" unfolding upper_bound_def by (rule length_takeWhile_le)
  show "reg_end (rs ! i) \<le> p" if "i < upper_bound p rs"
  proof -
    have i: "i < length (takeWhile (\<lambda>r. \<not> p < reg_end r) rs)" using that by (simp add: upper_bound_def)
    from nth_mem [OF this] have "rs ! i \<in> set (takeWhile (\<lambda>r. \<not> p < reg_end r) rs)" by (simp add: takeWhile_nth [OF i])
    then show ?thesis by (metis not_less set_takeWhileD)
  qed
  show "p < reg_end (rs ! upper_bound p rs)" if "upper_bound p rs < length rs"
    using nth_length_takeWhile [of "\<lambda>r. \<not> p < reg_end r" rs] that by (simp add: upper_bound_def)
qed

lemma RegionFor_in:
  assumes "regions_ok rs" "n < length rs" "in_region (rs ! n) p"
  shows "RegionFor p rs = Inr n"
proof -
  have "upper_bound p rs = n"
  proof (rule upper_bound_eq)
    fix i assume "i < n"
    then have "reg_end (rs ! i) \<le> reg_ptr (rs ! n)" using regions_sorted assms by blast
    then show "reg_end (rs ! i) \<le> p" using assms(3) unfolding in_region_def by (auto intro: order_trans)
  qed (use assms in \<open>simp_all add: in_region_def\<close>)
  then show ?thesis using assms(2) by (simp add: RegionFor_def)
qed

lemma get_handle_in:
  assumes "regions_ok rs" "n < length rs" "in_region (rs ! n) p"
  shows "get_handle p rs = Inr (reg_handles (rs ! n) ! block (rs ! n) p)"
  using RegionFor_in [OF assms] IndexFor_in [OF regions_nth assms(3)] block_less [OF regions_nth assms(3)] assms
  by (simp add: get_handle_def region_get_def)

lemma get_handle_out:
  assumes "regions_ok rs" "\<not> list_ex (\<lambda>r. in_region r p) rs"
  shows "\<exists>e. get_handle p rs = Inl e"
proof (cases "RegionFor p rs")
  case (Inr n)
  then have n: "n < length rs" by (auto simp: RegionFor_def Let_def split: if_splits)
  then have "\<not> in_region (rs ! n) p" using assms(2) by (simp add: list_ex_length)
  then show ?thesis using Inr IndexFor_out [OF regions_nth [OF assms(1) n]] by (simp add: get_handle_def region_get_def)
qed (simp add: get_handle_def)

lemma set_handle_out:
  assumes "regions_ok rs" "\<not> list_ex (\<lambda>r. in_region r p) rs"
  shows "\<exists>e. set_handle p h rs = Inl e"
proof (cases "RegionFor p rs")
  case (Inr n)
  then have n: "n < length rs" by (auto simp: RegionFor_def Let_def split: if_splits)
  then have "\<not> in_region (rs ! n) p" using assms(2) by (simp add: list_ex_length)
  then show ?thesis using Inr IndexFor_out [OF regions_nth [OF assms(1) n]] by (simp add: set_handle_def region_set_def)
qed (simp add: set_handle_def)

lemma handles_of_in:
  "regions_ok rs \<Longrightarrow> n < length rs \<Longrightarrow> in_region (rs ! n) p \<Longrightarrow> handles_of rs p = Some (reg_handles (rs ! n) ! block (rs ! n) p)"
  by (simp add: handles_of_def get_handle_in)

lemma handles_of_out: "regions_ok rs \<Longrightarrow> \<not> list_ex (\<lambda>r. in_region r p) rs \<Longrightarrow> handles_of rs p = None"
  using get_handle_out by (fastforce simp: handles_of_def)

lemma region_unique:
  assumes "regions_ok rs" "n < length rs" "m < length rs" "in_region (rs ! n) p" "in_region (rs ! m) p"
  shows "n = m"
  using RegionFor_in [OF assms(1,2,4)] RegionFor_in [OF assms(1,3,5)] by simp

section \<open>Setting and adding\<close>

lemma set_handle_in:
  assumes ok: "regions_ok rs" and n: "n < length rs" "in_region (rs ! n) p"
  shows "set_handle p h rs = Inr (rs[n := (rs ! n)\<lparr>reg_handles := (reg_handles (rs ! n))[block (rs ! n) p := h]\<rparr>])"
  using RegionFor_in [OF assms] IndexFor_in [OF regions_nth n(2)] block_less [OF regions_nth n(2)] assms
  by (simp add: set_handle_def region_set_def)

lemma regions_ok_set:
  assumes ok: "regions_ok rs" and n: "n < length rs" and len: "length hs = length (reg_handles (rs ! n))"
  shows "regions_ok (rs[n := (rs ! n)\<lparr>reg_handles := hs\<rparr>])"
proof -
  let ?rs = "rs[n := (rs ! n)\<lparr>reg_handles := hs\<rparr>]"
  have ends: "reg_end (?rs ! i) = reg_end (rs ! i)" "reg_ptr (?rs ! i) = reg_ptr (rs ! i)" if "i < length rs" for i
    using that by (cases "i = n"; simp)+
  have "region_ok (?rs ! i)" if "i < length rs" for i
    using regions_nth [OF ok that] len that by (cases "i = n") (simp_all add: region_ok_def)
  then show ?thesis using ends regions_sorted [OF ok]
    by (simp add: regions_ok_def list_all_length sorted_wrt_iff_nth_less)
qed

lemma set_handle_map:
  assumes ok: "regions_ok rs" and p: "list_ex (\<lambda>r. in_region r p) rs"
  shows "\<exists>rs'. set_handle p h rs = Inr rs' \<and> regions_ok rs' \<and>
    handles_of rs' = (\<lambda>q. if same_block rs p q then Some h else handles_of rs q)"
proof -
  obtain n where n: "n < length rs" "in_region (rs ! n) p" using p by (auto simp: list_ex_length)
  let ?r = "(rs ! n)\<lparr>reg_handles := (reg_handles (rs ! n))[block (rs ! n) p := h]\<rparr>"
  let ?rs = "rs[n := ?r]"
  have ok': "regions_ok ?rs" by (rule regions_ok_set [OF ok n(1)]) simp
  have same_in: "in_region (?rs ! m) q \<longleftrightarrow> in_region (rs ! m) q" "block (?rs ! m) q = block (rs ! m) q" if "m < length rs" for m q
    using that by (cases "m = n"; simp add: in_region_def block_def)+
  have "handles_of ?rs q = (if same_block rs p q then Some h else handles_of rs q)" for q
  proof (cases "\<exists>m < length rs. in_region (rs ! m) q")
    case True
    then obtain m where m: "m < length rs" "in_region (rs ! m) q" by blast
    then have h: "handles_of ?rs q = Some (reg_handles (?rs ! m) ! block (rs ! m) q)"
      using handles_of_in [OF ok', of m q] same_in by simp
    have "same_block rs p q \<longleftrightarrow> m = n \<and> block (rs ! n) p = block (rs ! n) q"
    proof
      assume "same_block rs p q"
      then obtain l where l: "l < length rs" "in_region (rs ! l) p" "in_region (rs ! l) q" "block (rs ! l) p = block (rs ! l) q"
        by (auto simp: same_block_def list_ex_length)
      have "l = n" by (rule region_unique [OF ok l(1) n(1) l(2) n(2)])
      moreover have "l = m" by (rule region_unique [OF ok l(1) m(1) l(3) m(2)])
      ultimately show "m = n \<and> block (rs ! n) p = block (rs ! n) q" using l(4) by simp
    next
      assume "m = n \<and> block (rs ! n) p = block (rs ! n) q"
      then show "same_block rs p q" using n m by (auto simp: same_block_def list_ex_length)
    qed
    then show ?thesis using h handles_of_in [OF ok m] block_less(1) [OF regions_nth [OF ok m(1)] m(2)] m
      by (cases "m = n") (auto simp: nth_list_update)
  next
    case False
    then have "\<not> list_ex (\<lambda>r. in_region r q) rs" "\<not> list_ex (\<lambda>r. in_region r q) ?rs"
      using same_in(1) by (simp_all add: list_ex_length)
    moreover from this have "\<not> same_block rs p q" by (auto simp: same_block_def list_ex_iff)
    ultimately show ?thesis using handles_of_out ok ok' by simp
  qed
  then show ?thesis using set_handle_in [OF ok n] ok' by (intro exI [of _ ?rs]) (simp add: fun_eq_iff)
qed

text \<open>The room for a new region.\<close>

definition room_for :: "64 word \<Rightarrow> 64 word \<Rightarrow> region list \<Rightarrow> bool" where
  "room_for p memory_size rs \<longleftrightarrow> unat p + unat memory_size < 2 ^ 64 \<and> 0 < memory_size \<and> unat memory_size \<le> 2 ^ 39
     \<and> 256 dvd unat memory_size \<and> list_all (\<lambda>r. reg_end r \<le> p \<or> p + memory_size \<le> reg_ptr r) rs"

lemma units_up: "n mod 256 = 0 \<Longrightarrow> (n + 255) div 256 = n div (256 :: nat)"
  by (simp add: div_add1_eq [of n 255])

lemma word_256: "unat ((x :: 64 word) mod 256) = unat x mod 256" "unat (x div 256) = unat x div 256"
  "unat x + 255 < 2 ^ 64 \<Longrightarrow> unat (x + 255) = unat x + 255"
  by (simp_all add: unat_mod_distrib unat_div_distrib unat_word_ariths)

lemma AllocationRegion_ok:
  assumes "room_for p memory_size rs"
  obtains r where "AllocationRegion p memory_size = Inr r" "region_ok r" "reg_ptr r = p" "reg_end r = p + memory_size"
    "\<And>i. i < length (reg_handles r) \<Longrightarrow> reg_handles r ! i = kInvalidChunkHandle"
proof -
  have k: "kMinAllocationSize = 256" by (simp add: kMinAllocationSize_def kMinAllocationBits_def push_bit_eq_mult)
  have m: "unat memory_size mod 256 = 0" using assms by (simp add: room_for_def)
  have e: "memory_size mod 256 = 0" using m word_256(1) [of memory_size] by (simp only: unat_eq_zero [symmetric])
  have "unat memory_size + 255 < 2 ^ 64" using assms by (simp add: room_for_def)
  then have "unat ((memory_size + 255) div 256) = (unat memory_size + 255) div 256" by (simp only: word_256)
  also have "\<dots> = unat memory_size div 256" using units_up [OF m] by simp
  finally have l: "unat ((memory_size + 255) div 256) = unat memory_size div 256" .
  then have "unat ((255 + memory_size) div 256) = unat memory_size div 256" by (simp only: add.commute)
  then show thesis by (intro that) (use assms e in \<open>auto simp: AllocationRegion_def k region_ok_def room_for_def\<close>)
qed

lemma AddAllocationRegion_map:
  assumes ok: "regions_ok rs" and room: "room_for p memory_size rs"
  shows "\<exists>rs'. AddAllocationRegion p memory_size rs = Inr rs' \<and> regions_ok rs' \<and>
    handles_of rs' = (\<lambda>q. if p \<le> q \<and> q < p + memory_size then Some kInvalidChunkHandle else handles_of rs q)"
proof -
  from room obtain r where r: "AllocationRegion p memory_size = Inr r" "region_ok r" "reg_ptr r = p" "reg_end r = p + memory_size"
    "\<And>i. i < length (reg_handles r) \<Longrightarrow> reg_handles r ! i = kInvalidChunkHandle"
    using AllocationRegion_ok by blast
  let ?n = "upper_bound p rs"
  let ?rs = "take ?n rs @ r # drop ?n rs"
  note n = upper_bound_props [where p = p and rs = rs]
  have before: "reg_end x \<le> reg_ptr r" if "x \<in> set (take ?n rs)" for x
    using that n(2) r(3) by (auto simp: in_set_conv_nth)
  have after: "reg_end r \<le> reg_ptr (rs ! i)" if i: "?n \<le> i" "i < length rs" for i
  proof -
    have "reg_end (rs ! ?n) \<le> reg_end (rs ! i)"
    proof (cases "i = ?n")
      case False
      then have "reg_end (rs ! ?n) \<le> reg_ptr (rs ! i)" using regions_sorted [OF ok, of ?n i] i by simp
      then show ?thesis using ptr_le_end [OF regions_nth [OF ok i(2)]] by (rule order_trans)
    qed simp
    moreover have "p < reg_end (rs ! ?n)" by (rule n(3)) (use i in simp)
    ultimately have "\<not> reg_end (rs ! i) \<le> p" by auto
    then show ?thesis using room i(2) r(4) by (auto simp: room_for_def list_all_length)
  qed
  have "reg_end r \<le> reg_ptr x" if "x \<in> set (drop ?n rs)" for x
  proof -
    from that obtain i where "x = rs ! (?n + i)" "?n + i < length rs" by (auto simp: in_set_conv_nth)
    then show ?thesis using after [of "?n + i"] by simp
  qed
  moreover have "sorted_wrt (\<lambda>r r'. reg_end r \<le> reg_ptr r') (take ?n rs @ drop ?n rs)"
    using ok by (simp add: regions_ok_def)
  moreover have "list_all region_ok (take ?n rs)" "list_all region_ok (drop ?n rs)"
    using ok by (auto simp: regions_ok_def list_all_iff dest: in_set_takeD in_set_dropD)
  ultimately have ok': "regions_ok ?rs"
    using before r(2) unfolding regions_ok_def sorted_wrt_append by simp
  have at: "?rs ! m = rs ! m" if "m < ?n" for m using that n(1) by (simp add: nth_append)
  have new: "?rs ! ?n = r" "?n < length ?rs" using n(1) by (simp_all add: nth_append)
  have at': "?rs ! Suc m = rs ! m" if "?n \<le> m" "m < length rs" for m
    using that n(1) by (simp add: nth_append Suc_diff_le)
  have "handles_of ?rs q = (if in_region r q then Some kInvalidChunkHandle else handles_of rs q)" for q
  proof (cases "in_region r q")
    case True
    then have "handles_of ?rs q = Some (reg_handles (?rs ! ?n) ! block (?rs ! ?n) q)"
      by (intro handles_of_in [OF ok' new(2)]) (simp only: new(1))
    then show ?thesis using r(5) [OF block_less(1) [OF r(2) True]] True by (simp only: new(1)) simp
  next
    case False
    show ?thesis
    proof (cases "\<exists>m < length rs. in_region (rs ! m) q")
      case True
      then obtain m where m: "m < length rs" "in_region (rs ! m) q" by blast
      define m' where "m' = (if m < ?n then m else Suc m)"
      have m': "?rs ! m' = rs ! m" "m' < length ?rs" using at at' m(1) n(1) by (auto simp: m'_def)
      have "handles_of ?rs q = Some (reg_handles (rs ! m) ! block (rs ! m) q)"
        using handles_of_in [OF ok' m'(2)] m(2) by (simp only: m'(1))
      then show ?thesis using False handles_of_in [OF ok m] by simp
    next
      case none: False
      then have "\<not> list_ex (\<lambda>r. in_region r q) rs" by (simp add: list_ex_length)
      moreover from this have "\<not> list_ex (\<lambda>r. in_region r q) ?rs"
        using False by (auto simp: list_ex_iff dest: in_set_takeD in_set_dropD)
      ultimately show ?thesis using False handles_of_out ok ok' by simp
    qed
  qed
  then have "handles_of ?rs = (\<lambda>q. if p \<le> q \<and> q < p + memory_size then Some kInvalidChunkHandle else handles_of rs q)"
    using r(3,4) by (simp add: fun_eq_iff in_region_def)
  then show ?thesis using ok' r(1) by (simp add: AddAllocationRegion_def Let_def)
qed

text \<open>
  C33. The bins. The number of the bin of a size is between 0 and 20; a bin from 1 on has the sizes from its own size up to
  the next one's, bin 0 all below 512 bytes and bin 20 all from 256 MB; the bin of a bin's size is that bin; and the logarithm
  taken from the count of leading zeros is that of the loop.
\<close>
theorem bins_partition_sizes:
  "0 \<le> BinNumForSize bytes \<and> BinNumForSize bytes < kNumBins
    \<and> (0 < BinNumForSize bytes \<longrightarrow> BinNumToSize (BinNumForSize bytes) \<le> bytes)
    \<and> (BinNumForSize bytes < kNumBins - 1 \<longrightarrow> bytes < BinNumToSize (BinNumForSize bytes + 1))
    \<and> (0 \<le> j \<and> j < kNumBins \<longrightarrow> BinNumForSize (BinNumToSize j) = j)
    \<and> (0 < bytes \<longrightarrow> Log2FloorNonZero bytes = Log2FloorNonZeroSlow bytes)"
proof -
  obtain i where i: "BinNumForSize bytes = min 20 (int i)" by (rule BinNumForSize_iff)
  have range: "0 \<le> BinNumForSize bytes" "BinNumForSize bytes < kNumBins" by (simp_all add: i kNumBins_def)
  have "BinNumToSize (BinNumForSize bytes) \<le> bytes" if "0 < BinNumForSize bytes"
    using bin_le_iff [of "nat (BinNumForSize bytes)" bytes] that range by (simp add: kNumBins_def word_le_nat_alt)
  moreover have "bytes < BinNumToSize (BinNumForSize bytes + 1)" if "BinNumForSize bytes < kNumBins - 1"
  proof -
    have "nat (BinNumForSize bytes + 1) \<le> 20" using that range by (simp add: kNumBins_def)
    from bin_le_iff [OF this, of bytes] show ?thesis using range by (simp add: word_less_nat_alt)
  qed
  moreover have "BinNumForSize (BinNumToSize j) = j" if "0 \<le> j \<and> j < kNumBins"
  proof -
    obtain m where m: "j = int m" "m \<le> 20"
      using \<open>0 \<le> j \<and> j < kNumBins\<close> by (cases j) (simp_all add: kNumBins_def)
    have "j \<le> BinNumForSize (BinNumToSize j)" using bin_le_iff [OF m(2), of "BinNumToSize j"] m(1) by simp
    moreover have "\<not> j + 1 \<le> BinNumForSize (BinNumToSize j)"
    proof (cases "m = 20")
      case False
      then have s: "Suc m \<le> 20" using m(2) by simp
      from bin_le_iff [OF s, of "BinNumToSize j"] show ?thesis
        using unat_BinNumToSize [OF s] unat_BinNumToSize [OF m(2)] m(1) by (simp add: add.commute)
    next
      case True
      obtain i where "BinNumForSize (BinNumToSize j) = min 20 (int i)" by (rule BinNumForSize_iff)
      with True m(1) show ?thesis by simp
    qed
    ultimately show ?thesis by simp
  qed
  moreover have "Log2FloorNonZero bytes = Log2FloorNonZeroSlow bytes" if "0 < bytes" using Log2Floor [OF that] by metis
  ultimately show ?thesis using range by blast
qed




theorem bins_partition_sizes_witness:
  "BinNumForSize 1000 = 1 \<and> BinNumToSize 1 \<le> 1000 \<and> (1000 :: 64 word) < BinNumToSize 2"
proof -
  have "BinNumForSize 1000 = 1" by code_simp
  then show ?thesis using bins_partition_sizes [of 1000 0] by (simp add: kNumBins_def)
qed

end
