(* ===== verification/RunQueue.thy ===== *)
theory RunQueue
  imports Prelude
begin

text \<open>
  The work queue of one worker of the thread pool (class \<open>RunQueue\<close> in
  include/onnxruntime/core/platform/EigenNonBlockingThreadPool.h): a ring of \<open>kSize = 2 ^ k\<close>
  slots, whose front is pushed and popped by its owner and whose back by everyone else.
  \<open>front_\<close> and \<open>back_\<close> are 32-bit words: a rolling index in the low \<open>k + 1\<close> bits and a
  modification counter above. Here the operations are modelled one at a time, so that an atomic
  compare-and-exchange succeeds and the state \<open>kBusy\<close> is never seen between operations (ConcurrentQueue
  has their interleaving); what the words, the masks and the states of the slots do is kept. \<open>Work()\<close>, the empty
  function, is \<open>None\<close>. The end of the theory has an abstract bounded deque with revocation
  and the proof that the queue implements it.
\<close>

unbundle bit_operations_syntax

section \<open>The queue\<close>

datatype elem_state = kEmpty | kBusy | kReady | kRevoked

record 'w elem =
  el_state :: elem_state
  el_tag :: nat
  el_w :: "'w option"

record 'w run_queue =
  rq_front :: "32 word"
  rq_back :: "32 word"
  rq_array :: "'w elem list"

definition kSize :: "nat \<Rightarrow> 32 word" where
  "kSize k = push_bit k 1"

definition kMask :: "nat \<Rightarrow> 32 word" where
  "kMask k = kSize k - 1"

definition kMask2 :: "nat \<Rightarrow> 32 word" where
  "kMask2 k = push_bit 1 (kSize k) - 1"

definition RunQueue :: "nat \<Rightarrow> 'w run_queue" where
  "RunQueue k = \<lparr>rq_front = 0, rq_back = 0,
     rq_array = replicate (unat (kSize k)) \<lparr>el_state = kEmpty, el_tag = 0, el_w = None\<rparr>\<rparr>"

text \<open>The two ways an index moves: forwards with the counter, backwards without.\<close>

definition bump :: "nat \<Rightarrow> 32 word \<Rightarrow> 32 word" where
  "bump k x = x + 1 + push_bit 1 (kSize k)"

definition retreat :: "nat \<Rightarrow> 32 word \<Rightarrow> 32 word" where
  "retreat k x = ((x - 1) AND kMask2 k) OR (x AND NOT (kMask2 k))"

definition ready_elem :: "'w \<Rightarrow> nat \<Rightarrow> 'w elem" where
  "ready_elem w tag = \<lparr>el_state = kReady, el_tag = tag, el_w = Some w\<rparr>"

definition PushFront :: "nat \<Rightarrow> 'w run_queue \<Rightarrow> 'w \<Rightarrow> 'w run_queue \<times> 'w option" where
  "PushFront k q w =
     (let front = rq_front q; i = unat (front AND kMask k) in
      if el_state (rq_array q ! i) \<noteq> kEmpty then (q, Some w)
      else (q\<lparr>rq_front := bump k front, rq_array := (rq_array q)[i := ready_elem w 0]\<rparr>, None))"

text \<open>The loop that drains revoked items from the front.\<close>

function drain_front :: "nat \<Rightarrow> 'w run_queue \<Rightarrow> 'w run_queue" where
  "drain_front k q =
     (let front = rq_front q; i = unat ((front - 1) AND kMask k) in
      if i < length (rq_array q) \<and> el_state (rq_array q ! i) = kRevoked then
        drain_front k (q\<lparr>rq_array := (rq_array q)[i := (rq_array q ! i)\<lparr>el_state := kEmpty\<rparr>],
          rq_front := retreat k front\<rparr>)
      else q)"
  by pat_completeness auto

definition revoked_count :: "'w elem list \<Rightarrow> nat" where
  "revoked_count es = length (filter (\<lambda>e. el_state e = kRevoked) es)"

lemma revoked_count_update:
  assumes "i < length es" "el_state (es ! i) = kRevoked" "el_state e \<noteq> kRevoked"
  shows "revoked_count (es[i := e]) < revoked_count es"
proof -
  have "revoked_count es = revoked_count (take i es) + 1 + revoked_count (drop (Suc i) es)"
    using assms(1,2) by (subst id_take_nth_drop [OF assms(1)]) (simp add: revoked_count_def)
  moreover have "revoked_count (es[i := e]) = revoked_count (take i es) + revoked_count (drop (Suc i) es)"
    using assms(1,3) by (simp add: upd_conv_take_nth_drop revoked_count_def)
  ultimately show ?thesis by simp
qed

termination drain_front
  by (relation "measure (\<lambda>(k, q). revoked_count (rq_array q))") (auto intro: revoked_count_update)

declare drain_front.simps [simp del]

definition PopFront :: "nat \<Rightarrow> 'w run_queue \<Rightarrow> 'w run_queue \<times> 'w option" where
  "PopFront k q =
     (let q = drain_front k q; front = rq_front q; i = unat ((front - 1) AND kMask k); e = rq_array q ! i in
      if el_state e \<noteq> kReady then (q, None)
      else (q\<lparr>rq_array := (rq_array q)[i := \<lparr>el_state = kEmpty, el_tag = 0, el_w = None\<rparr>],
          rq_front := retreat k front\<rparr>, el_w e))"

definition PushBackWithTag :: "nat \<Rightarrow> 'w run_queue \<Rightarrow> 'w \<Rightarrow> nat \<Rightarrow> 'w run_queue \<times> 'w option \<times> nat" where
  "PushBackWithTag k q w tag =
     (let back = rq_back q; w_idx = unat ((back - 1) AND kMask k) in
      if el_state (rq_array q ! w_idx) \<noteq> kEmpty then (q, Some w, w_idx)
      else (q\<lparr>rq_back := retreat k back, rq_array := (rq_array q)[w_idx := ready_elem w tag]\<rparr>, None, w_idx))"

definition PushBack :: "nat \<Rightarrow> 'w run_queue \<Rightarrow> 'w \<Rightarrow> 'w run_queue \<times> 'w option" where
  "PushBack k q w =
     (let back = rq_back q; i = unat ((back - 1) AND kMask k) in
      if el_state (rq_array q ! i) \<noteq> kEmpty then (q, Some w)
      else (q\<lparr>rq_back := retreat k back, rq_array := (rq_array q)[i := ready_elem w 0]\<rparr>, None))"

definition CalculateSize :: "nat \<Rightarrow> 32 word \<Rightarrow> 32 word \<Rightarrow> int" where
  "CalculateSize k front back =
     (let size0 = sint ((front AND kMask2 k) - (back AND kMask2 k));
          size1 = (if size0 < 0 then size0 + 2 * uint (kSize k) else size0) in
      if size1 > uint (kSize k) then uint (kSize k) else size1)"

text \<open>\<open>SizeOrNotEmpty\<close> with its template argument; no one else moves \<open>front_\<close> meanwhile.\<close>

definition SizeOrNotEmpty :: "bool \<Rightarrow> nat \<Rightarrow> 'w run_queue \<Rightarrow> int" where
  "SizeOrNotEmpty need_estimate k q =
     (if need_estimate then CalculateSize k (rq_front q) (rq_back q)
      else uint ((rq_front q XOR rq_back q) AND kMask2 k))"

definition rq_Size :: "nat \<Rightarrow> 'w run_queue \<Rightarrow> int" where
  "rq_Size k q = SizeOrNotEmpty True k q"

definition rq_Empty :: "nat \<Rightarrow> 'w run_queue \<Rightarrow> bool" where
  "rq_Empty k q \<longleftrightarrow> SizeOrNotEmpty False k q = 0"

function drain_back :: "nat \<Rightarrow> 'w run_queue \<Rightarrow> 'w run_queue" where
  "drain_back k q =
     (let back = rq_back q; i = unat (back AND kMask k) in
      if i < length (rq_array q) \<and> el_state (rq_array q ! i) = kRevoked then
        drain_back k (q\<lparr>rq_array := (rq_array q)[i := (rq_array q ! i)\<lparr>el_state := kEmpty\<rparr>],
          rq_back := bump k back\<rparr>)
      else q)"
  by pat_completeness auto

termination drain_back
  by (relation "measure (\<lambda>(k, q). revoked_count (rq_array q))") (auto intro: revoked_count_update)

declare drain_back.simps [simp del]

definition PopBack :: "nat \<Rightarrow> 'w run_queue \<Rightarrow> 'w run_queue \<times> 'w option" where
  "PopBack k q =
     (if rq_Empty k q then (q, None)
      else let q = drain_back k q; back = rq_back q; i = unat (back AND kMask k); e = rq_array q ! i in
        if el_state e \<noteq> kReady then (q, None)
        else (q\<lparr>rq_array := (rq_array q)[i := \<lparr>el_state = kEmpty, el_tag = 0, el_w = None\<rparr>],
            rq_back := bump k back\<rparr>, el_w e))"

definition RevokeWithTag :: "nat \<Rightarrow> 'w run_queue \<Rightarrow> nat \<Rightarrow> nat \<Rightarrow> 'w run_queue \<times> bool" where
  "RevokeWithTag k q tag w_idx =
     (let e = rq_array q ! w_idx in
      if el_state e = kReady \<and> el_tag e = tag then
        let back = rq_back q; back_idx = unat (back AND kMask k) in
        if back_idx \<noteq> w_idx then
          (q\<lparr>rq_array := (rq_array q)[w_idx := \<lparr>el_state = kRevoked, el_tag = 0, el_w = None\<rparr>]\<rparr>, True)
        else
          (q\<lparr>rq_array := (rq_array q)[w_idx := \<lparr>el_state = kEmpty, el_tag = 0, el_w = None\<rparr>],
            rq_back := bump k back\<rparr>, True)
      else (q, False))"

text \<open>\<open>Flush\<close>, with fuel for its loop; None when the fuel does not suffice.\<close>

fun Flush :: "nat \<Rightarrow> nat \<Rightarrow> 'w run_queue \<Rightarrow> 'w run_queue option" where
  "Flush 0 k q = (if rq_Empty k q then Some q else None)"
| "Flush (Suc fuel) k q = (if rq_Empty k q then Some q else Flush fuel k (fst (PopFront k q)))"

section \<open>Words and masks\<close>

definition size_ok :: "nat \<Rightarrow> bool" where
  "size_ok k \<longleftrightarrow> 1 < k \<and> k \<le> 16"

lemma kMask_mask: "kMask k = mask k"
  by (simp add: kMask_def kSize_def mask_eq_decr_exp push_bit_eq_mult)

lemma kMask2_mask: "kMask2 k = mask (Suc k)"
  by (simp add: kMask2_def kSize_def mask_eq_decr_exp push_bit_eq_mult)

lemma unat_and_mask: "unat (x AND mask m :: 32 word) = unat x mod 2 ^ m"
  by (simp only: take_bit_eq_mask [symmetric] unsigned_take_bit_eq) (simp only: take_bit_eq_mod)

lemma unat_kMask: "unat (x AND kMask k) = unat x mod 2 ^ k"
  by (simp add: kMask_mask unat_and_mask)

lemma unat_kMask2: "unat (x AND kMask2 k) = unat x mod 2 ^ Suc k"
  by (simp add: kMask2_mask unat_and_mask del: power_Suc)

lemma mod_power_32: "m \<le> 32 \<Longrightarrow> n mod 2 ^ 32 mod 2 ^ m = n mod (2 :: nat) ^ m"
  by (rule mod_mod_cancel) (rule le_imp_power_dvd)

lemma unat_kSize: "k < 32 \<Longrightarrow> unat (kSize k) = 2 ^ k"
proof -
  assume k: "k < 32"
  then have "(2 :: nat) ^ k < 2 ^ 32" by (intro power_strict_increasing) simp_all
  then have "unat (of_nat (2 ^ k) :: 32 word) = 2 ^ k"
    by (simp only: unat_of_nat take_bit_eq_mod) simp
  then show ?thesis by (simp add: kSize_def push_bit_eq_mult)
qed

lemma bump_mod:
  assumes "size_ok k"
  shows "unat (bump k x) mod 2 ^ Suc k = (unat x + 1) mod 2 ^ Suc k"
proof -
  have m: "Suc k \<le> 32" using assms by (simp add: size_ok_def)
  have two: "push_bit 1 (kSize k) = kSize (Suc k)" by (simp add: kSize_def push_bit_eq_mult)
  have "unat (bump k x) = (unat x + 1 + 2 ^ Suc k) mod 2 ^ 32"
    using assms unfolding bump_def two
    by (simp only: unat_word_ariths size_ok_def unat_kSize) (simp add: mod_simps unat_kSize)
  then have "unat (bump k x) mod 2 ^ Suc k = (unat x + 1 + 2 ^ Suc k) mod 2 ^ Suc k"
    by (simp only: mod_power_32 [OF m])
  then show ?thesis by (simp only: mod_add_self2)
qed

lemma retreat_mod:
  assumes "size_ok k"
  shows "(unat (retreat k x) + 1) mod 2 ^ Suc k = unat x mod 2 ^ Suc k"
proof -
  have m: "Suc k \<le> 32" using assms by (simp add: size_ok_def)
  have "retreat k x AND mask (Suc k) = (x - 1) AND mask (Suc k)"
    unfolding retreat_def kMask2_mask by (rule bit_word_eqI) (auto simp: bit_simps)
  then have "unat (retreat k x) mod 2 ^ Suc k = unat (x - 1) mod 2 ^ Suc k"
    by (metis unat_and_mask)
  then have "(unat (retreat k x) + 1) mod 2 ^ Suc k = (unat (x - 1) + 1) mod 2 ^ Suc k"
    by (metis mod_add_left_eq)
  also have "\<dots> = (unat (x - 1) + 1) mod 2 ^ 32 mod 2 ^ Suc k"
    by (simp only: mod_power_32 [OF m])
  also have "(unat (x - 1) + 1) mod 2 ^ 32 = unat (x - 1 + 1)"
    using unat_word_ariths(1) [of "x - 1" 1] by simp
  finally show ?thesis by simp
qed


lemma Suc_mod_cancel:
  assumes "(x + 1) mod M = (y + 1) mod (M :: nat)"
  shows "x mod M = y mod M"
proof (cases "M = 0")
  case False
  have "(x + 1 + (M - 1)) mod M = (y + 1 + (M - 1)) mod M"
    using assms by (rule mod_add_cong) simp
  moreover have "x + 1 + (M - 1) = x + M" "y + 1 + (M - 1) = y + M" using False by simp_all
  ultimately show ?thesis by simp
qed (use assms in simp)

lemma add_mod_cancel: "(b + x) mod n = (b + y) mod n \<Longrightarrow> x mod n = y mod (n :: nat)"
proof (induction b)
  case (Suc b)
  have "(b + x) mod n = (b + y) mod n"
    by (rule Suc_mod_cancel) (use Suc.prems in simp)
  then show ?case by (rule Suc.IH)
qed simp

text \<open>The same indices modulo \<open>kSize\<close>.\<close>

lemma mod_down: "x mod 2 ^ Suc k = y mod 2 ^ Suc k \<Longrightarrow> x mod 2 ^ k = y mod (2 :: nat) ^ k"
proof -
  assume a: "x mod 2 ^ Suc k = y mod 2 ^ Suc k"
  have "(2 :: nat) ^ k dvd 2 ^ Suc k" by simp
  then show ?thesis using a by (metis mod_mod_cancel)
qed

lemma dec_mod:
  assumes "m \<le> 32"
  shows "(unat (x - 1 :: 32 word) + 1) mod 2 ^ m = unat x mod 2 ^ m"
proof -
  have "(unat (x - 1 :: 32 word) + 1) mod 2 ^ 32 = unat (x - 1 + 1)"
    using unat_word_ariths(1) [of "x - 1" 1] by simp
  then show ?thesis using mod_power_32 [OF assms, of "unat (x - 1) + 1"] by simp
qed

section \<open>The abstract deque\<close>

datatype 'w item = Revoked | Ready (item_tag: nat) (item_work: 'w)

text \<open>The items from the back of the queue to its front; a revoked one stays in its place until a
  pop drains it, unless it was the item at the back.\<close>

type_synonym 'w deque = "'w item list"

definition d_push_front :: "nat \<Rightarrow> 'w \<Rightarrow> 'w deque \<Rightarrow> 'w deque \<times> 'w option" where
  "d_push_front n w xs = (if length xs < n then (xs @ [Ready 0 w], None) else (xs, Some w))"

definition d_push_back :: "nat \<Rightarrow> nat \<Rightarrow> 'w \<Rightarrow> 'w deque \<Rightarrow> 'w deque \<times> 'w option" where
  "d_push_back n tag w xs = (if length xs < n then (Ready tag w # xs, None) else (xs, Some w))"

fun d_pop_back :: "'w deque \<Rightarrow> 'w deque \<times> 'w option" where
  "d_pop_back [] = ([], None)"
| "d_pop_back (Revoked # xs) = d_pop_back xs"
| "d_pop_back (Ready tag w # xs) = (xs, Some w)"

definition d_pop_front :: "'w deque \<Rightarrow> 'w deque \<times> 'w option" where
  "d_pop_front xs = (let (ys, r) = d_pop_back (rev xs) in (rev ys, r))"

definition d_revoke :: "nat \<Rightarrow> nat \<Rightarrow> 'w deque \<Rightarrow> 'w deque \<times> bool" where
  "d_revoke tag i xs =
     (if i < length xs \<and> xs ! i \<noteq> Revoked \<and> item_tag (xs ! i) = tag then
        ((if i = 0 then tl xs else xs[i := Revoked]), True)
      else (xs, False))"

text \<open>The work that can still be popped, with its tags.\<close>

definition live :: "'w deque \<Rightarrow> (nat \<times> 'w) list" where
  "live xs = map (\<lambda>x. (item_tag x, item_work x)) (filter (\<lambda>x. x \<noteq> Revoked) xs)"

lemma live_simps [simp]:
  "live [] = []" "live (Revoked # xs) = live xs" "live (Ready tag w # xs) = (tag, w) # live xs"
  "live (xs @ ys) = live xs @ live ys" "live (rev xs) = rev (live xs)"
  by (simp_all add: live_def rev_map rev_filter)

lemma d_pop_back_live:
  "d_pop_back xs = (ys, r) \<Longrightarrow>
     (case live xs of [] \<Rightarrow> ys = [] \<and> r = None | (tag, w) # rest \<Rightarrow> live ys = rest \<and> r = Some w)"
  by (induction xs rule: d_pop_back.induct) auto

section \<open>Slots\<close>

fun holds :: "'w elem \<Rightarrow> 'w item option \<Rightarrow> bool" where
  "holds e None \<longleftrightarrow> el_state e = kEmpty"
| "holds e (Some Revoked) \<longleftrightarrow> el_state e = kRevoked"
| "holds e (Some (Ready tag w)) \<longleftrightarrow> e = ready_elem w tag"

text \<open>\<open>slots h n b arr v\<close>: the ring \<open>arr\<close> of \<open>n\<close> slots, read from position \<open>b\<close> on, holds \<open>v\<close> in
  the sense of \<open>h\<close>.\<close>

definition slots :: "('e \<Rightarrow> 'x option \<Rightarrow> bool) \<Rightarrow> nat \<Rightarrow> nat \<Rightarrow> 'e list \<Rightarrow> (nat \<Rightarrow> 'x option) \<Rightarrow> bool" where
  "slots h n b arr v \<longleftrightarrow> length arr = n \<and> (\<forall>i<n. h (arr ! ((b + i) mod n)) (v i))"

definition item_at :: "'x list \<Rightarrow> nat \<Rightarrow> 'x option" where
  "item_at xs i = (if i < length xs then Some (xs ! i) else None)"

lemma slots_cong: "slots h n b arr v \<Longrightarrow> (\<And>i. i < n \<Longrightarrow> v' i = v i) \<Longrightarrow> slots h n b arr v'"
  by (simp add: slots_def)

lemma slot_inj: "i < n \<Longrightarrow> j < n \<Longrightarrow> (b + i) mod n = (b + j) mod n \<Longrightarrow> i = (j :: nat)"
  using add_mod_cancel [of b i n j] by simp

lemma slots_update:
  assumes s: "slots h n b arr v" and j: "j < n" "p = (b + j) mod n" and e: "h e x"
  shows "slots h n b (arr[p := e]) (v(j := x))"
proof -
  have len: "length arr = n" using s by (simp add: slots_def)
  have "h (arr[p := e] ! ((b + i) mod n)) ((v(j := x)) i)" if i: "i < n" for i
  proof (cases "i = j")
    case True
    have "p < n" using i j by simp
    with True show ?thesis using len e j by simp
  next
    case False
    then have "(b + i) mod n \<noteq> p" using slot_inj i j by blast
    with False show ?thesis using s i by (simp add: slots_def)
  qed
  then show ?thesis using len by (simp add: slots_def)
qed

lemma slots_shift:
  assumes "slots h n b arr v" and "b' mod n = (b + 1) mod n"
  shows "slots h n b' arr (\<lambda>i. v ((i + 1) mod n))"
proof -
  have "(b' + i) mod n = (b + (i + 1) mod n) mod n" for i
    using assms(2) by (metis (no_types, opaque_lifting) add.assoc add.commute mod_add_left_eq mod_add_right_eq)
  then show ?thesis using assms(1) by (simp add: slots_def)
qed

lemma slots_unshift:
  assumes "slots h n b arr v" and "b mod n = (b' + 1) mod n"
  shows "slots h n b' arr (\<lambda>i. v ((i + n - 1) mod n))"
proof -
  have "(b' + i) mod n = (b + (i + n - 1) mod n) mod n" if "i < n" for i
  proof -
    have "(b + (i + n - 1) mod n) mod n = (b' + 1 + (i + n - 1)) mod n"
      using assms(2) by (metis mod_add_left_eq mod_add_right_eq)
    also have "b' + 1 + (i + n - 1) = b' + i + n" using that by simp
    finally show ?thesis by simp
  qed
  then show ?thesis using assms(1) by (simp add: slots_def)
qed

section \<open>The simulation relation\<close>

text \<open>For any sense \<open>h\<close> of what an element of the ring stands for; \<open>rep\<close> is the case of the deque.\<close>

definition rep_by :: "('w elem \<Rightarrow> 'x option \<Rightarrow> bool) \<Rightarrow> nat \<Rightarrow> 'w run_queue \<Rightarrow> 'x list \<Rightarrow> bool" where
  "rep_by h k q xs \<longleftrightarrow> size_ok k \<and> length xs \<le> 2 ^ k \<and>
     unat (rq_front q) mod 2 ^ Suc k = (unat (rq_back q) + length xs) mod 2 ^ Suc k \<and>
     slots h (2 ^ k) (unat (rq_back q)) (rq_array q) (item_at xs)"

abbreviation rep :: "nat \<Rightarrow> 'w run_queue \<Rightarrow> 'w deque \<Rightarrow> bool" where
  "rep \<equiv> rep_by holds"

lemma rep_new: "size_ok k \<Longrightarrow> rep k (RunQueue k) []"
  by (simp add: rep_by_def RunQueue_def slots_def item_at_def unat_kSize size_ok_def)



lemma repD:
  assumes "rep_by h k q xs"
  shows "size_ok k" "length xs \<le> 2 ^ k" "k \<le> 32" "Suc k \<le> 32"
    "unat (rq_front q) mod 2 ^ Suc k = (unat (rq_back q) + length xs) mod 2 ^ Suc k"
    "slots h (2 ^ k) (unat (rq_back q)) (rq_array q) (item_at xs)"
  using assms by (simp_all add: rep_by_def size_ok_def)

text \<open>The slots an operation looks at: the free one in front, the last one, the first one and the
  free one at the back.\<close>

lemma front_slot: "rep_by h k q xs \<Longrightarrow> unat (rq_front q AND kMask k) = (unat (rq_back q) + length xs) mod 2 ^ k"
  unfolding unat_kMask by (rule mod_down) (rule repD)

lemma last_slot:
  assumes "rep_by h k q xs"
  shows "unat ((rq_front q - 1) AND kMask k) = (unat (rq_back q) + (length xs + 2 ^ k - 1)) mod 2 ^ k"
  unfolding unat_kMask
proof (rule Suc_mod_cancel)
  have "(unat (rq_front q - 1) + 1) mod 2 ^ k = unat (rq_front q) mod 2 ^ k"
    by (rule dec_mod) (rule repD [OF assms])
  also have "\<dots> = (unat (rq_back q) + length xs) mod 2 ^ k"
    by (rule mod_down) (rule repD [OF assms])
  also have "\<dots> = (unat (rq_back q) + length xs + 2 ^ k) mod 2 ^ k" by simp
  also have "unat (rq_back q) + length xs + 2 ^ k = unat (rq_back q) + (length xs + 2 ^ k - 1) + 1" by simp
  finally show "(unat (rq_front q - 1) + 1) mod 2 ^ k = (unat (rq_back q) + (length xs + 2 ^ k - 1) + 1) mod 2 ^ k" .
qed

lemma back_slot: "unat (rq_back q AND kMask k) = (unat (rq_back q) + 0) mod 2 ^ k"
  by (simp add: unat_kMask)

lemma before_back_slot:
  assumes "rep_by h k q xs"
  shows "unat ((rq_back q - 1) AND kMask k) = (unat (rq_back q) + (2 ^ k - 1)) mod 2 ^ k"
  unfolding unat_kMask
proof (rule Suc_mod_cancel)
  have "(unat (rq_back q - 1) + 1) mod 2 ^ k = unat (rq_back q) mod 2 ^ k"
    by (rule dec_mod) (rule repD [OF assms])
  also have "\<dots> = (unat (rq_back q) + 2 ^ k) mod 2 ^ k" by simp
  also have "unat (rq_back q) + 2 ^ k = unat (rq_back q) + (2 ^ k - 1) + 1" by simp
  finally show "(unat (rq_back q - 1) + 1) mod 2 ^ k = (unat (rq_back q) + (2 ^ k - 1) + 1) mod 2 ^ k" .
qed

text \<open>What a slot's state says about the deque.\<close>

lemma slot_holds:
  "slots h n b arr v \<Longrightarrow> h (arr ! ((b + i) mod n)) (v (i mod n))" if "0 < n"
proof -
  assume s: "slots h n b arr v"
  have "(b + i) mod n = (b + i mod n) mod n" by (simp add: mod_simps)
  with s that show ?thesis by (simp add: slots_def)
qed

lemma holds_state:
  "holds e x \<Longrightarrow> (el_state e = kEmpty \<longleftrightarrow> x = None) \<and> (el_state e = kRevoked \<longleftrightarrow> x = Some Revoked) \<and>
     (el_state e = kReady \<longleftrightarrow> (\<exists>tag w. x = Some (Ready tag w))) \<and>
     (\<forall>tag w. x = Some (Ready tag w) \<longrightarrow> el_tag e = tag \<and> el_w e = Some w)"
  by (cases "(e, x)" rule: holds.cases) (auto simp: ready_elem_def)

lemma array_length: "rep_by h k q xs \<Longrightarrow> length (rq_array q) = 2 ^ k"
  by (simp add: rep_by_def slots_def)

lemma front_item:
  "rep_by h k q xs \<Longrightarrow> h (rq_array q ! unat (rq_front q AND kMask k))
     (if length xs < 2 ^ k then None else item_at xs 0)"
proof -
  assume r: "rep_by h k q xs"
  have "length xs = 2 ^ k" if "\<not> length xs < 2 ^ k" using repD(2) [OF r] that by simp
  then show ?thesis
    using slot_holds [OF _ repD(6) [OF r], of "length xs"] by (auto simp: front_slot [OF r] item_at_def)
qed

lemma last_item:
  assumes r: "rep_by h k q xs"
  shows "h (rq_array q ! unat ((rq_front q - 1) AND kMask k)) (if xs = [] then None else Some (last xs))"
proof -
  let ?i = "length xs + 2 ^ k - 1"
  have "h (rq_array q ! unat ((rq_front q - 1) AND kMask k)) (item_at xs (?i mod 2 ^ k))"
    unfolding last_slot [OF r] by (rule slot_holds) (use repD [OF r] in auto)
  moreover have "item_at xs (?i mod 2 ^ k) = (if xs = [] then None else Some (last xs))"
  proof (cases "xs = []")
    case False
    then have "?i = length xs - 1 + 2 ^ k" by (cases xs) auto
    moreover have "length xs - 1 < 2 ^ k" using repD(2) [OF r] False by (cases xs) auto
    ultimately have "?i mod 2 ^ k = length xs - 1" by (simp only: mod_add_self2 mod_less)
    then show ?thesis using False by (simp add: item_at_def last_conv_nth)
  qed (simp add: item_at_def)
  ultimately show ?thesis by simp
qed

lemma back_item: "rep_by h k q xs \<Longrightarrow> h (rq_array q ! unat (rq_back q AND kMask k)) (item_at xs 0)"
  unfolding back_slot by (drule repD(6), drule slot_holds [where i = 0, rotated]) simp_all

lemma before_back_item:
  assumes r: "rep_by h k q xs"
  shows "h (rq_array q ! unat ((rq_back q - 1) AND kMask k)) (item_at xs (2 ^ k - 1))"
  unfolding before_back_slot [OF r]
  using slot_holds [of "2 ^ k" h "unat (rq_back q)" "rq_array q" "item_at xs" "2 ^ k - 1"] repD(6) [OF r]
  by simp

lemma before_back_item_None: "rep_by h k q xs \<Longrightarrow> item_at xs (2 ^ k - 1) = None \<longleftrightarrow> length xs < 2 ^ k"
  using repD(2) [of h k q xs] by (cases "(2 :: nat) ^ k") (auto simp: item_at_def)


section \<open>One step at each end\<close>

lemma rep_add_front:
  assumes r: "rep_by h k q xs" and len: "length xs < 2 ^ k" and e: "h e (Some x)"
  shows "rep_by h k (q\<lparr>rq_front := bump k (rq_front q),
           rq_array := (rq_array q)[unat (rq_front q AND kMask k) := e]\<rparr>) (xs @ [x])"
proof -
  have "slots h (2 ^ k) (unat (rq_back q)) ((rq_array q)[unat (rq_front q AND kMask k) := e])
          ((item_at xs)(length xs := Some x))"
    by (rule slots_update) (use r len e in \<open>simp_all add: repD front_slot\<close>)
  then have "slots h (2 ^ k) (unat (rq_back q)) ((rq_array q)[unat (rq_front q AND kMask k) := e])
          (item_at (xs @ [x]))"
    by (rule slots_cong) (auto simp: item_at_def nth_append)
  moreover have "unat (bump k (rq_front q)) mod 2 ^ Suc k = (unat (rq_back q) + length xs + 1) mod 2 ^ Suc k"
    unfolding bump_mod [OF repD(1) [OF r]] by (rule mod_add_cong) (use repD(5) [OF r] in simp_all)
  ultimately show ?thesis using r len by (simp add: rep_by_def)
qed

lemma rep_add_back:
  assumes r: "rep_by h k q xs" and len: "length xs < 2 ^ k" and e: "h e (Some x)"
  shows "rep_by h k (q\<lparr>rq_back := retreat k (rq_back q),
           rq_array := (rq_array q)[unat ((rq_back q - 1) AND kMask k) := e]\<rparr>) (x # xs)"
proof -
  let ?arr = "(rq_array q)[unat ((rq_back q - 1) AND kMask k) := e]"
  let ?b = "unat (retreat k (rq_back q))"
  have b: "unat (rq_back q) mod 2 ^ Suc k = (?b + 1) mod 2 ^ Suc k"
    using retreat_mod [OF repD(1) [OF r]] by simp
  have "slots h (2 ^ k) (unat (rq_back q)) ?arr ((item_at xs)(2 ^ k - 1 := Some x))"
    by (rule slots_update) (use r e in \<open>simp_all add: repD before_back_slot\<close>)
  then have "slots h (2 ^ k) ?b ?arr (\<lambda>i. ((item_at xs)(2 ^ k - 1 := Some x)) ((i + 2 ^ k - 1) mod 2 ^ k))"
    by (rule slots_unshift) (rule mod_down [OF b])
  then have "slots h (2 ^ k) ?b ?arr (item_at (x # xs))"
  proof (rule slots_cong)
    fix i :: nat assume i: "i < 2 ^ k"
    show "item_at (x # xs) i = ((item_at xs)(2 ^ k - 1 := Some x)) ((i + 2 ^ k - 1) mod 2 ^ k)"
    proof (cases i)
      case (Suc j)
      then have "(i + 2 ^ k - 1) mod 2 ^ k = j" using i by simp
      moreover have "j \<noteq> 2 ^ k - 1" using Suc i by linarith
      ultimately show ?thesis using Suc by (simp add: item_at_def)
    qed (simp add: item_at_def)
  qed
  moreover have "unat (rq_front q) mod 2 ^ Suc k = (?b + length (x # xs)) mod 2 ^ Suc k"
  proof -
    have "(unat (rq_back q) + length xs) mod 2 ^ Suc k = (?b + 1 + length xs) mod 2 ^ Suc k"
      by (rule mod_add_cong) (simp_all only: b)
    then show ?thesis using repD(5) [OF r] by simp
  qed
  ultimately show ?thesis using r len by (simp add: rep_by_def)
qed

lemma rep_drop_back:
  assumes r: "rep_by h k q (x # xs)" and e: "h e None"
  shows "rep_by h k (q\<lparr>rq_array := (rq_array q)[unat (rq_back q AND kMask k) := e], rq_back := bump k (rq_back q)\<rparr>) xs"
proof -
  let ?arr = "(rq_array q)[unat (rq_back q AND kMask k) := e]"
  let ?b = "unat (bump k (rq_back q))"
  have b: "?b mod 2 ^ Suc k = (unat (rq_back q) + 1) mod 2 ^ Suc k"
    by (rule bump_mod) (rule repD [OF r])
  have "slots h (2 ^ k) (unat (rq_back q)) ?arr ((item_at (x # xs))(0 := None))"
    by (rule slots_update) (use r e in \<open>simp_all add: repD back_slot del: add_0_right\<close>)
  then have "slots h (2 ^ k) ?b ?arr (\<lambda>i. ((item_at (x # xs))(0 := None)) ((i + 1) mod 2 ^ k))"
    by (rule slots_shift) (rule mod_down [OF b])
  then have "slots h (2 ^ k) ?b ?arr (item_at xs)"
  proof (rule slots_cong)
    fix i :: nat assume i: "i < 2 ^ k"
    show "item_at xs i = ((item_at (x # xs))(0 := None)) ((i + 1) mod 2 ^ k)"
    proof (cases "i + 1 < 2 ^ k")
      case False
      with i have "i + 1 = 2 ^ k" by simp
      then show ?thesis using repD(2) [OF r] by (auto simp: item_at_def)
    qed (simp add: item_at_def)
  qed
  moreover have "unat (rq_front q) mod 2 ^ Suc k = (?b + length xs) mod 2 ^ Suc k"
  proof -
    have "(?b + length xs) mod 2 ^ Suc k = (unat (rq_back q) + 1 + length xs) mod 2 ^ Suc k"
      by (rule mod_add_cong) (simp_all only: b)
    then show ?thesis using repD(5) [OF r] by simp
  qed
  ultimately show ?thesis using r by (simp add: rep_by_def)
qed

lemma rep_drop_front:
  assumes r: "rep_by h k q (xs @ [x])" and e: "h e None"
  shows "rep_by h k (q\<lparr>rq_array := (rq_array q)[unat ((rq_front q - 1) AND kMask k) := e],
           rq_front := retreat k (rq_front q)\<rparr>) xs"
proof -
  let ?p = "unat ((rq_front q - 1) AND kMask k)"
  have p: "?p = (unat (rq_back q) + length xs) mod 2 ^ k"
    using last_slot [OF r] by (simp add: add.assoc [symmetric])
  have "slots h (2 ^ k) (unat (rq_back q)) ((rq_array q)[?p := e]) ((item_at (xs @ [x]))(length xs := None))"
    by (rule slots_update) (use r e p repD(2) [OF r] in \<open>simp_all add: repD\<close>)
  then have "slots h (2 ^ k) (unat (rq_back q)) ((rq_array q)[?p := e]) (item_at xs)"
    by (rule slots_cong) (auto simp: item_at_def nth_append)
  moreover have "unat (retreat k (rq_front q)) mod 2 ^ Suc k = (unat (rq_back q) + length xs) mod 2 ^ Suc k"
    by (rule Suc_mod_cancel) (use retreat_mod [OF repD(1) [OF r]] repD(5) [OF r] in simp)
  ultimately show ?thesis using r by (simp add: rep_by_def)
qed

lemma rep_set:
  assumes r: "rep_by h k q xs" and i: "i < length xs" "p = (unat (rq_back q) + i) mod 2 ^ k" and e: "h e (Some x)"
  shows "rep_by h k (q\<lparr>rq_array := (rq_array q)[p := e]\<rparr>) (xs[i := x])"
proof -
  have "slots h (2 ^ k) (unat (rq_back q)) ((rq_array q)[p := e]) ((item_at xs)(i := Some x))"
    by (rule slots_update) (use r i e less_le_trans [OF i(1) repD(2) [OF r]] in \<open>simp_all add: repD(6)\<close>)
  then have "slots h (2 ^ k) (unat (rq_back q)) ((rq_array q)[p := e]) (item_at (xs[i := x]))"
    by (rule slots_cong) (use i in \<open>auto simp: item_at_def nth_list_update\<close>)
  then show ?thesis using r by (simp add: rep_by_def)
qed

lemma rep_set_last:
  assumes "rep_by h k q (xs @ [y])" and "h e (Some x)"
  shows "rep_by h k (q\<lparr>rq_array := (rq_array q)[unat ((rq_front q - 1) AND kMask k) := e]\<rparr>) (xs @ [x])"
  using rep_set [OF assms(1), of "length xs" _ e x] assms(2) last_slot [OF assms(1)]
  by (simp add: add.assoc [symmetric])

lemma rep_set_at:
  assumes "rep_by h k q (xs @ y # ys)" and "p = (unat (rq_back q) + length xs) mod 2 ^ k" and "h e (Some x)"
  shows "rep_by h k (q\<lparr>rq_array := (rq_array q)[p := e]\<rparr>) (xs @ x # ys)"
  using rep_set [OF assms(1) _ assms(2), of e x] assms(3) by simp


section \<open>The drains\<close>

definition drained :: "'w deque \<Rightarrow> 'w deque" where
  "drained xs = dropWhile (\<lambda>x. x = Revoked) xs"

lemma drained_simps [simp]:
  "drained [] = []" "drained (Revoked # xs) = drained xs" "drained (Ready tag w # xs) = Ready tag w # xs"
  by (simp_all add: drained_def)

lemma d_pop_back_drained:
  "d_pop_back xs = (case drained xs of [] \<Rightarrow> ([], None) | x # ys \<Rightarrow> (ys, Some (item_work x)))"
  by (induction xs rule: d_pop_back.induct) auto

lemma slot_in_range: "rep_by h k q xs \<Longrightarrow> unat (x AND kMask k) < length (rq_array q)"
  by (simp add: array_length unat_kMask)

lemma rep_drain_back: "rep k q xs \<Longrightarrow> rep k (drain_back k q) (drained xs)"
proof (induction xs arbitrary: q)
  case (Cons x xs)
  note e = back_item [OF Cons.prems]
  show ?case
  proof (cases x)
    case Revoked
    then have "el_state (rq_array q ! unat (rq_back q AND kMask k)) = kRevoked"
      using e by (simp add: item_at_def)
    then show ?thesis
      using Revoked Cons.IH [OF rep_drop_back [OF Cons.prems]] slot_in_range [OF Cons.prems]
      by (subst drain_back.simps) (simp add: Let_def)
  next
    case (Ready tag w)
    then have "el_state (rq_array q ! unat (rq_back q AND kMask k)) = kReady"
      using e by (simp add: item_at_def ready_elem_def)
    then show ?thesis using Ready Cons.prems by (subst drain_back.simps) (simp add: Let_def)
  qed
next
  case Nil
  then show ?case using back_item [OF Nil] by (subst drain_back.simps) (simp add: Let_def item_at_def)
qed

lemma rep_drain_front: "rep k q xs \<Longrightarrow> rep k (drain_front k q) (rev (drained (rev xs)))"
proof (induction xs arbitrary: q rule: rev_induct)
  case (snoc x xs)
  note e = last_item [OF snoc.prems]
  show ?case
  proof (cases x)
    case Revoked
    then have "el_state (rq_array q ! unat ((rq_front q - 1) AND kMask k)) = kRevoked"
      using e by simp
    then show ?thesis
      using Revoked snoc.IH [OF rep_drop_front [OF snoc.prems]] slot_in_range [OF snoc.prems]
      by (subst drain_front.simps) (simp add: Let_def)
  next
    case (Ready tag w)
    then have "el_state (rq_array q ! unat ((rq_front q - 1) AND kMask k)) = kReady"
      using e by (simp add: ready_elem_def)
    then show ?thesis using Ready snoc.prems by (subst drain_front.simps) (simp add: Let_def)
  qed
next
  case Nil
  then show ?case using last_item [OF Nil] by (subst drain_front.simps) (simp add: Let_def)
qed

section \<open>Size\<close>

lemma signed_take_bit_diff:
  fixes x y :: int
  assumes "0 \<le> x" "x < 2147483648" "0 \<le> y" "y < 2147483648"
  shows "signed_take_bit 31 (x - y) = x - y"
  by (rule signed_take_bit_int_eq_self) (use assms in simp_all)

lemma sint_diff:
  assumes "unat a < 2 ^ 31" "unat b < 2 ^ 31"
  shows "sint (a - b :: 32 word) = int (unat a) - int (unat b)"
proof -
  have "int (unat a) < int (2 ^ 31)" "int (unat b) < int (2 ^ 31)"
    using assms by (simp_all only: of_nat_less_iff)
  then have ab: "uint a < 2147483648" "uint b < 2147483648" by simp_all
  have "sint (a - b) = sint (word_of_int (uint a - uint b) :: 32 word)" by simp
  also have "\<dots> = signed_take_bit 31 (uint a - uint b)" unfolding sint_sbintrunc' by simp
  also have "\<dots> = uint a - uint b" by (rule signed_take_bit_diff) (rule ab uint_ge_0)+
  finally show ?thesis by (simp only: uint_nat)
qed

lemma masked_small: "size_ok k \<Longrightarrow> unat (x AND kMask2 k) < 2 ^ 31"
proof -
  assume k: "size_ok k"
  have "unat (x AND kMask2 k) < 2 ^ Suc k" unfolding unat_kMask2 by simp
  also have "\<dots> \<le> 2 ^ 31" using k by (intro power_increasing) (simp_all add: size_ok_def)
  finally show ?thesis .
qed

lemma ring_distance:
  assumes "F = (B + n) mod M" "B < M" "n < (M :: nat)"
  shows "(if int F - int B < 0 then int F - int B + int M else int F - int B) = int n"
  using assms by (simp add: mod_if split: if_splits)

lemma rq_Size_length:
  assumes r: "rep k q xs"
  shows "rq_Size k q = int (length xs)"
proof -
  let ?F = "unat (rq_front q AND kMask2 k)" and ?B = "unat (rq_back q AND kMask2 k)"
  note k = repD(1) [OF r]
  have F: "?F = (?B + length xs) mod 2 ^ Suc k"
    unfolding unat_kMask2 using repD(5) [OF r] by (simp only: mod_add_left_eq)
  have B: "?B < 2 ^ Suc k" unfolding unat_kMask2 by simp
  have n: "length xs < 2 ^ Suc k" using repD(2) [OF r] by (rule le_less_trans) simp
  have d: "sint ((rq_front q AND kMask2 k) - (rq_back q AND kMask2 k)) = int ?F - int ?B"
    by (rule sint_diff) (rule masked_small [OF k])+
  have s: "uint (kSize k) = 2 ^ k" using k by (simp add: uint_nat unat_kSize size_ok_def)
  have "(if int ?F - int ?B < 0 then int ?F - int ?B + 2 * 2 ^ k else int ?F - int ?B) = int (length xs)"
    using ring_distance [OF F B n] by (simp only: power_Suc of_nat_mult of_nat_power of_nat_numeral)
  moreover have "\<not> int (length xs) > 2 ^ k" using repD(2) [OF r] by (metis not_less of_nat_le_iff of_nat_numeral of_nat_power)
  ultimately show ?thesis
    by (simp only: rq_Size_def SizeOrNotEmpty_def CalculateSize_def d s Let_def if_True if_False)
qed

lemma rq_Empty_mod: "rq_Empty k q \<longleftrightarrow> unat (rq_front q) mod 2 ^ Suc k = unat (rq_back q) mod 2 ^ Suc k"
proof -
  have "rq_Empty k q \<longleftrightarrow> (rq_front q XOR rq_back q) AND kMask2 k = 0"
    by (simp only: rq_Empty_def SizeOrNotEmpty_def if_False uint_0_iff)
  also have "\<dots> \<longleftrightarrow> rq_front q AND kMask2 k = rq_back q AND kMask2 k"
    by (auto simp: bit_eq_iff bit_simps)
  also have "\<dots> \<longleftrightarrow> unat (rq_front q) mod 2 ^ Suc k = unat (rq_back q) mod 2 ^ Suc k"
    by (simp only: unat_kMask2 [symmetric] word_unat_eq_iff)
  finally show ?thesis .
qed

lemma rq_Empty_iff:
  assumes r: "rep k q xs"
  shows "rq_Empty k q \<longleftrightarrow> xs = []"
proof -
  have "rq_Empty k q \<longleftrightarrow> unat (rq_front q) mod 2 ^ Suc k = unat (rq_back q) mod 2 ^ Suc k" by (rule rq_Empty_mod)
  also have "\<dots> \<longleftrightarrow> length xs = 0"
  proof
    assume "unat (rq_front q) mod 2 ^ Suc k = unat (rq_back q) mod 2 ^ Suc k"
    then have "(unat (rq_back q) + length xs) mod 2 ^ Suc k = (unat (rq_back q) + 0) mod 2 ^ Suc k"
      using repD(5) [OF r] by simp
    from add_mod_cancel [OF this] have "length xs mod 2 ^ Suc k = 0" by simp
    moreover have "length xs < 2 ^ Suc k" using repD(2) [OF r] by (rule le_less_trans) simp
    ultimately show "length xs = 0" by simp
  qed (use repD(5) [OF r] in simp)
  finally show ?thesis by simp
qed


section \<open>The operations\<close>

text \<open>\<open>sim k c a\<close>: the concrete result \<open>c\<close> of an operation implements the abstract one \<open>a\<close>.\<close>

definition sim :: "nat \<Rightarrow> 'w run_queue \<times> 'r \<Rightarrow> 'w deque \<times> 'r \<Rightarrow> bool" where
  "sim k c a \<longleftrightarrow> rep k (fst c) (fst a) \<and> snd c = snd a"

lemma PushFront_sim:
  assumes r: "rep k q xs"
  shows "sim k (PushFront k q w) (d_push_front (2 ^ k) w xs)"
proof (cases "length xs < 2 ^ k")
  case True
  then show ?thesis using front_item [OF r] rep_add_front [OF r True, of "ready_elem w 0" "Ready 0 w"]
    by (simp add: sim_def PushFront_def d_push_front_def Let_def)
next
  case False
  then have "item_at xs 0 \<noteq> None" by (cases xs) (auto simp: item_at_def)
  then have "el_state (rq_array q ! unat (rq_front q AND kMask k)) \<noteq> kEmpty"
    using front_item [OF r] False holds_state by (metis (full_types))
  then show ?thesis using r False
    by (simp add: sim_def PushFront_def d_push_front_def Let_def)
qed

lemma PushBackWithTag_sim:
  assumes r: "rep k q xs"
  shows "case PushBackWithTag k q w tag of (q', x, i) \<Rightarrow>
     sim k (q', x) (d_push_back (2 ^ k) tag w xs) \<and> i = unat ((rq_back q - 1) AND kMask k)"
  using before_back_item [OF r] before_back_item_None [OF r] rep_add_back [OF r, of "ready_elem w tag" "Ready tag w"] r
    holds_state [of "rq_array q ! unat ((rq_back q - 1) AND kMask k)" "item_at xs (2 ^ k - 1)"]
  by (simp add: sim_def PushBackWithTag_def d_push_back_def Let_def del: One_nat_def)

lemma PushBack_sim:
  assumes r: "rep k q xs"
  shows "sim k (PushBack k q w) (d_push_back (2 ^ k) 0 w xs)"
  using before_back_item [OF r] before_back_item_None [OF r] rep_add_back [OF r, of "ready_elem w 0" "Ready 0 w"] r
    holds_state [of "rq_array q ! unat ((rq_back q - 1) AND kMask k)" "item_at xs (2 ^ k - 1)"]
  by (simp add: sim_def PushBack_def d_push_back_def Let_def del: One_nat_def)

lemma drained_cases:
  obtains "drained xs = []" | tag w ys where "drained xs = Ready tag w # ys"
  by (induction xs rule: d_pop_back.induct) auto

lemma PopBack_sim:
  assumes r: "rep k q xs"
  shows "sim k (PopBack k q) (d_pop_back xs)"
proof (cases "xs = []")
  case True
  then show ?thesis using r by (simp add: sim_def PopBack_def rq_Empty_iff)
next
  case False
  let ?q = "drain_back k q"
  have d: "rep k ?q (drained xs)" by (rule rep_drain_back [OF r])
  note e = back_item [OF d]
  show ?thesis
  proof (cases rule: drained_cases [of xs])
    case 1
    then show ?thesis using d e rq_Empty_iff [OF r] False
      by (simp add: sim_def PopBack_def d_pop_back_drained item_at_def Let_def)
  next
    case (2 tag w ys)
    then show ?thesis using rep_drop_back [OF d [unfolded 2]] e rq_Empty_iff [OF r] False
      by (simp add: sim_def PopBack_def d_pop_back_drained item_at_def Let_def ready_elem_def)
  qed
qed

lemma PopFront_sim:
  assumes r: "rep k q xs"
  shows "sim k (PopFront k q) (d_pop_front xs)"
proof -
  let ?q = "drain_front k q"
  have d: "rep k ?q (rev (drained (rev xs)))" by (rule rep_drain_front [OF r])
  note e = last_item [OF d]
  show ?thesis
  proof (cases rule: drained_cases [of "rev xs"])
    case 1
    then show ?thesis using d e
      by (simp add: sim_def PopFront_def d_pop_front_def d_pop_back_drained Let_def)
  next
    case (2 tag w ys)
    then have d2: "rep k ?q (rev ys @ [Ready tag w])" using d by simp
    show ?thesis using 2 rep_drop_front [OF d2] e
      by (simp add: sim_def PopFront_def d_pop_front_def d_pop_back_drained Let_def ready_elem_def)
  qed
qed

text \<open>Revoking names its item by slot; \<open>place\<close> is where the slot is in the deque.\<close>

definition place_of :: "nat \<Rightarrow> 'w run_queue \<Rightarrow> nat \<Rightarrow> nat" where
  "place_of k q w_idx = nat ((int w_idx - int (unat (rq_back q))) mod 2 ^ k)"

lemma place_of:
  assumes "w_idx < 2 ^ k"
  shows "place_of k q w_idx < 2 ^ k" "(unat (rq_back q) + place_of k q w_idx) mod 2 ^ k = w_idx"
proof -
  let ?d = "(int w_idx - int (unat (rq_back q))) mod 2 ^ k"
  have d: "0 \<le> ?d" "?d < 2 ^ k" by simp_all
  then show "place_of k q w_idx < 2 ^ k" unfolding place_of_def by (simp add: nat_less_iff)
  have "int ((unat (rq_back q) + place_of k q w_idx) mod 2 ^ k) = (int (unat (rq_back q)) + ?d) mod 2 ^ k"
    unfolding place_of_def using d by (simp add: zmod_int)
  also have "\<dots> = int w_idx mod 2 ^ k" by (simp add: mod_simps)
  also have "\<dots> = int (w_idx mod 2 ^ k)" by (simp add: zmod_int)
  finally show "(unat (rq_back q) + place_of k q w_idx) mod 2 ^ k = w_idx" using assms by simp
qed

lemma RevokeWithTag_sim:
  assumes r: "rep k q xs" and w: "w_idx < 2 ^ k"
  shows "sim k (RevokeWithTag k q tag w_idx) (d_revoke tag (place_of k q w_idx) xs)"
proof -
  let ?i = "place_of k q w_idx" and ?e = "rq_array q ! w_idx"
  note i = place_of [OF w, of q]
  have h: "holds ?e (item_at xs ?i)"
    using slot_holds [OF _ repD(6) [OF r], of ?i] i by simp
  show ?thesis
  proof (cases "?i < length xs \<and> (\<exists>v. xs ! ?i = Ready tag v)")
    case False
    then have "\<not> (el_state ?e = kReady \<and> el_tag ?e = tag)"
      using holds_state [OF h] by (auto simp: item_at_def split: if_splits)
    moreover have "d_revoke tag ?i xs = (xs, False)"
      using False by (cases "xs ! ?i") (auto simp: d_revoke_def)
    ultimately show ?thesis using r by (auto simp: sim_def RevokeWithTag_def)
  next
    case True
    then obtain v where len: "?i < length xs" and v: "xs ! ?i = Ready tag v" by blast
    then have e: "el_state ?e = kReady" "el_tag ?e = tag"
      using h by (simp_all add: item_at_def ready_elem_def)
    have bk: "unat (rq_back q AND kMask k) = w_idx \<longleftrightarrow> ?i = 0"
      using slot_inj [of ?i "2 ^ k" 0 "unat (rq_back q)"] i by (auto simp: unat_kMask)
    show ?thesis
    proof (cases "?i = 0")
      case True
      then obtain ys where xs: "xs = Ready tag v # ys" using len v by (cases xs) auto
      show ?thesis
        using rep_drop_back [OF r [unfolded xs]] e bk True xs
        by (simp add: sim_def RevokeWithTag_def d_revoke_def Let_def)
    next
      case False
      have "rep k (q\<lparr>rq_array := (rq_array q)[w_idx := \<lparr>el_state = kRevoked, el_tag = 0, el_w = None\<rparr>]\<rparr>)
          (xs[?i := Revoked])"
        by (rule rep_set [OF r len]) (use i in simp_all)
      then show ?thesis using r e bk False len v
        by (simp add: sim_def RevokeWithTag_def d_revoke_def Let_def)
    qed
  qed
qed


section \<open>The queue as an interface\<close>

text \<open>
  What the thread pool relies on: a representation relation to the deque, the operations at
  both ends, the size and the emptiness test. The lemmas of the locale say what a client sees,
  in terms of the live items only.
\<close>

locale work_queue =
  fixes R :: "'q \<Rightarrow> 'w deque \<Rightarrow> bool"
    and cap :: nat
    and pushf pushb :: "'q \<Rightarrow> 'w \<Rightarrow> 'q \<times> 'w option"
    and popf popb :: "'q \<Rightarrow> 'q \<times> 'w option"
    and isempty :: "'q \<Rightarrow> bool"
  assumes bounded: "R q xs \<Longrightarrow> length xs \<le> cap"
    and pushf: "R q xs \<Longrightarrow> R (fst (pushf q w)) (fst (d_push_front cap w xs)) \<and> snd (pushf q w) = snd (d_push_front cap w xs)"
    and pushb: "R q xs \<Longrightarrow> R (fst (pushb q w)) (fst (d_push_back cap 0 w xs)) \<and> snd (pushb q w) = snd (d_push_back cap 0 w xs)"
    and popf: "R q xs \<Longrightarrow> R (fst (popf q)) (fst (d_pop_front xs)) \<and> snd (popf q) = snd (d_pop_front xs)"
    and popb: "R q xs \<Longrightarrow> R (fst (popb q)) (fst (d_pop_back xs)) \<and> snd (popb q) = snd (d_pop_back xs)"
    and isempty: "R q xs \<Longrightarrow> isempty q \<longleftrightarrow> xs = []"
begin

lemma popb_live:
  assumes "R q xs"
  shows "\<exists>ys. R (fst (popb q)) ys \<and>
     (case live xs of [] \<Rightarrow> ys = [] \<and> snd (popb q) = None
      | (tag, w) # rest \<Rightarrow> live ys = rest \<and> snd (popb q) = Some w)"
  using popb [OF assms] d_pop_back_live [of xs "fst (d_pop_back xs)" "snd (d_pop_back xs)"]
  by (intro exI [where x = "fst (d_pop_back xs)"]) (auto split: list.splits prod.splits)

lemma popf_live:
  assumes "R q xs"
  shows "\<exists>ys. R (fst (popf q)) ys \<and>
     (case rev (live xs) of [] \<Rightarrow> ys = [] \<and> snd (popf q) = None
      | (tag, w) # rest \<Rightarrow> live ys = rev rest \<and> snd (popf q) = Some w)"
  using popf [OF assms] d_pop_back_live [of "rev xs" "fst (d_pop_back (rev xs))" "snd (d_pop_back (rev xs))"]
  by (intro exI [where x = "fst (d_pop_front xs)"])
    (auto simp: d_pop_front_def split: list.splits prod.splits)

text \<open>First in, first out from the two ends, last in, first out at one end.\<close>

lemma push_then_pop:
  assumes "R q xs" "length xs < cap"
  shows "snd (pushf q w) = None" "snd (popf (fst (pushf q w))) = Some w"
    "snd (pushb q w) = None" "snd (popb (fst (pushb q w))) = Some w"
proof -
  have f: "R (fst (pushf q w)) (xs @ [Ready 0 w])" "snd (pushf q w) = None"
    using pushf [OF assms(1), of w] assms(2) by (simp_all add: d_push_front_def)
  have b: "R (fst (pushb q w)) (Ready 0 w # xs)" "snd (pushb q w) = None"
    using pushb [OF assms(1), of w] assms(2) by (simp_all add: d_push_back_def)
  show "snd (pushf q w) = None" "snd (pushb q w) = None" by (fact f b)+
  show "snd (popf (fst (pushf q w))) = Some w" using popf [OF f(1)] by (simp add: d_pop_front_def)
  show "snd (popb (fst (pushb q w))) = Some w" using popb [OF b(1)] by simp
qed

text \<open>Popping until empty ends: each pop of a non-empty queue shortens it.\<close>

primrec drain_all :: "nat \<Rightarrow> 'q \<Rightarrow> 'q option" where
  "drain_all 0 q = (if isempty q then Some q else None)"
| "drain_all (Suc fuel) q = (if isempty q then Some q else drain_all fuel (fst (popf q)))"

lemma d_pop_back_shorter: "xs \<noteq> [] \<Longrightarrow> length (fst (d_pop_back xs)) < length xs"
  by (induction xs rule: d_pop_back.induct) (auto simp: less_Suc_eq dest: length_greater_0_conv [THEN iffD2], metis d_pop_back.simps(1) fst_conv less_Suc_eq list.size(3) zero_less_Suc)

lemma drain_all_ends:
  "R q xs \<Longrightarrow> length xs \<le> fuel \<Longrightarrow> \<exists>q'. drain_all fuel q = Some q' \<and> R q' []"
proof (induction fuel arbitrary: q xs)
  case (Suc fuel)
  show ?case
  proof (cases "xs = []")
    case False
    have "R (fst (popf q)) (fst (d_pop_front xs))" using popf Suc.prems(1) by blast
    moreover have "length (fst (d_pop_front xs)) \<le> fuel"
      using d_pop_back_shorter [of "rev xs"] False Suc.prems(2)
      by (auto simp: d_pop_front_def split: prod.splits)
    ultimately show ?thesis using Suc.IH isempty [OF Suc.prems(1)] False by simp
  qed (use Suc.prems isempty in auto)
qed (use isempty in auto)

end


interpretation rq: work_queue "rep k" "2 ^ k" "PushFront k" "PushBack k" "PopFront k" "PopBack k" "rq_Empty k"
  by unfold_locales
    (assumption | rule repD(2) rq_Empty_iff PushFront_sim [unfolded sim_def] PushBack_sim [unfolded sim_def]
       PopFront_sim [unfolded sim_def] PopBack_sim [unfolded sim_def])+

lemma Flush_drain_all: "Flush fuel k q = rq.drain_all k fuel q"
  by (induction fuel arbitrary: q) simp_all

lemma live_nth:
  "i < length xs \<Longrightarrow> xs ! i = Ready tag w \<Longrightarrow> live xs = live (take i xs) @ (tag, w) # live (drop (Suc i) xs)"
  by (subst id_take_nth_drop [of i xs]) simp_all

lemma d_revoke_live:
  assumes "d_revoke tag i xs = (ys, True)"
  shows "\<exists>before w after. live xs = before @ (tag, w) # after \<and> live ys = before @ after"
proof -
  from assms have i: "i < length xs" and y: "ys = (if i = 0 then tl xs else xs[i := Revoked])"
    and ex: "\<exists>w. xs ! i = Ready tag w"
    by (cases "xs ! i"; auto simp: d_revoke_def split: if_splits)+
  from ex obtain w where w: "xs ! i = Ready tag w" by blast
  have "live ys = live (take i xs) @ live (drop (Suc i) xs)"
    using i y by (cases "i = 0") (simp_all add: upd_conv_take_nth_drop drop_Suc)
  with live_nth [OF i w] show ?thesis by blast
qed

lemma offer_place:
  assumes r: "rep k q xs"
  shows "place_of k (q\<lparr>rq_back := retreat k (rq_back q), rq_array := arr\<rparr>)
           (unat ((rq_back q - 1) AND kMask k)) = 0"
proof -
  let ?b = "unat (retreat k (rq_back q))" and ?p = "unat ((rq_back q - 1) AND kMask k)"
  have "?p mod 2 ^ k = ?b mod 2 ^ k"
  proof (rule Suc_mod_cancel)
    have "(?p + 1) mod 2 ^ k = (unat (rq_back q - 1) + 1) mod 2 ^ k"
      unfolding unat_kMask by (simp only: mod_add_left_eq)
    also have "\<dots> = unat (rq_back q) mod 2 ^ k" by (rule dec_mod) (rule repD [OF r])
    also have "\<dots> = (?b + 1) mod 2 ^ k"
      by (rule mod_down) (rule retreat_mod [OF repD(1) [OF r], symmetric])
    finally show "(?p + 1) mod 2 ^ k = (?b + 1) mod 2 ^ k" .
  qed
  then have "int ?p mod 2 ^ k = int ?b mod 2 ^ k"
    by (simp only: zmod_int [of _ "2 ^ k", simplified, symmetric])
  then have "(int ?p - int ?b) mod 2 ^ k = 0" by (simp add: mod_eq_dvd_iff dvd_eq_mod_eq_0)
  then show ?thesis by (simp add: place_of_def)
qed

section \<open>Properties\<close>

text \<open>
  C4. The queue implements the bounded deque with revocation: on a queue that represents
  \<open>xs\<close>, each of the pushes and pops at either end, and the revocation of any slot,
  returns what the deque's operation returns and leaves a queue that represents its result;
  a full deque gives the work back, a pop skips and removes revoked items.
\<close>
theorem run_queue_refines:
  assumes "rep k q xs" and "w_idx < 2 ^ k"
  shows "sim k (PushFront k q w) (d_push_front (2 ^ k) w xs)
    \<and> sim k (PushBack k q w) (d_push_back (2 ^ k) 0 w xs)
    \<and> (case PushBackWithTag k q w tag of (q', x, i) \<Rightarrow> sim k (q', x) (d_push_back (2 ^ k) tag w xs))
    \<and> sim k (PopFront k q) (d_pop_front xs) \<and> sim k (PopBack k q) (d_pop_back xs)
    \<and> sim k (RevokeWithTag k q tag w_idx) (d_revoke tag (place_of k q w_idx) xs)"
  using PushFront_sim PushBack_sim PushBackWithTag_sim [OF assms(1), where w = w and tag = tag] PopFront_sim PopBack_sim
    RevokeWithTag_sim assms
  by (auto split: prod.splits)

theorem run_queue_refines_witness:
  "sim 2 (PushFront 2 (RunQueue 2) ''a'') (d_push_front 4 ''a'' [])"
  using run_queue_refines [OF rep_new, of 2 0, where w = "''a''" and tag = 0] by (simp add: size_ok_def)

text \<open>
  On a queue that represents \<open>xs\<close>, \<open>Size\<close> is the number of its items, revoked
  ones counted, and \<open>Empty\<close> holds exactly when there is none: the low bits of the two
  indices tell a full ring from an empty one. \<open>Flush\<close> ends, after at most \<open>kSize\<close> turns of its
  loop, and leaves the queue empty.
\<close>
theorem run_queue_size_flush:
  assumes "rep k q xs"
  shows "rq_Size k q = int (length xs) \<and> (rq_Empty k q \<longleftrightarrow> xs = [])
    \<and> (\<exists>q'. Flush (2 ^ k) k q = Some q' \<and> rep k q' [])"
  using rq_Size_length [OF assms] rq_Empty_iff [OF assms] rq.drain_all_ends [OF assms repD(2) [OF assms]]
  by (simp add: Flush_drain_all)

theorem run_queue_size_flush_witness:
  "rq_Size 2 (RunQueue 2 :: nat run_queue) = 0 \<and> rq_Empty 2 (RunQueue 2 :: nat run_queue)"
  using run_queue_size_flush [OF rep_new, of 2, where 'a = nat] by (simp add: size_ok_def)

text \<open>
  A successful revocation takes exactly one live item out of the queue, one that carries
  the given tag, and keeps all others in order, so that no pop returns it afterwards; a failed one
  changes nothing. In particular work offered at the back and revoked before anything else
  happens is revoked, and the queue represents what it did before the offer.
\<close>
theorem revoke_removes:
  assumes "rep k q xs" and "w_idx < 2 ^ k"
  shows "(case RevokeWithTag k q tag w_idx of (q', revoked) \<Rightarrow>
      if revoked then \<exists>ys before w after. rep k q' ys \<and> live xs = before @ (tag, w) # after \<and> live ys = before @ after
      else q' = q)
    \<and> (case PushBackWithTag k q w tag of (q1, x, i) \<Rightarrow>
      (if x = None then rep k (fst (RevokeWithTag k q1 tag i)) xs \<and> snd (RevokeWithTag k q1 tag i) else q1 = q))"
proof
  obtain ys b where d: "d_revoke tag (place_of k q w_idx) xs = (ys, b)" by fastforce
  have s: "sim k (RevokeWithTag k q tag w_idx) (ys, b)" using RevokeWithTag_sim [OF assms, of tag] d by simp
  have "\<not> snd (RevokeWithTag k q tag w_idx) \<Longrightarrow> fst (RevokeWithTag k q tag w_idx) = q"
    by (auto simp: RevokeWithTag_def Let_def split: if_splits)
  with s d_revoke_live [of tag "place_of k q w_idx" xs ys] d
  show "case RevokeWithTag k q tag w_idx of (q', revoked) \<Rightarrow>
      if revoked then \<exists>ys before w after. rep k q' ys \<and> live xs = before @ (tag, w) # after \<and> live ys = before @ after
      else q' = q"
    by (auto simp: sim_def split: prod.splits)
next
  obtain q1 x i where p: "PushBackWithTag k q w tag = (q1, x, i)" by (metis prod_cases3)
  have "rep k (fst (RevokeWithTag k q1 tag i)) xs \<and> snd (RevokeWithTag k q1 tag i)" if "x = None"
  proof -
    have i: "i = unat ((rq_back q - 1) AND kMask k)" "i < 2 ^ k"
      and q1: "q1 = q\<lparr>rq_back := retreat k (rq_back q), rq_array := (rq_array q)[i := ready_elem w tag]\<rparr>"
      using p that by (auto simp: PushBackWithTag_def Let_def unat_kMask split: if_splits)
    have "rep k q1 (Ready tag w # xs)"
      using PushBackWithTag_sim [OF assms(1), where w = w and tag = tag] p that
      by (auto simp: sim_def d_push_back_def split: if_splits)
    then have "sim k (RevokeWithTag k q1 tag i) (d_revoke tag (place_of k q1 i) (Ready tag w # xs))"
      using i(2) by (rule RevokeWithTag_sim)
    moreover have "place_of k q1 i = 0" unfolding q1 i(1) by (rule offer_place [OF assms(1)])
    ultimately show ?thesis by (simp add: sim_def d_revoke_def)
  qed
  moreover have "q1 = q" if "x \<noteq> None"
    using p that by (auto simp: PushBackWithTag_def Let_def split: if_splits)
  ultimately show "case PushBackWithTag k q w tag of (q1, x, i) \<Rightarrow>
      (if x = None then rep k (fst (RevokeWithTag k q1 tag i)) xs \<and> snd (RevokeWithTag k q1 tag i) else q1 = q)"
    using p by simp
qed

theorem revoke_removes_witness:
  "case PushBackWithTag 2 (RunQueue 2) ''a'' 7 of (q1, x, i) \<Rightarrow>
     (if x = None then rep 2 (fst (RevokeWithTag 2 q1 7 i)) [] \<and> snd (RevokeWithTag 2 q1 7 i) else q1 = RunQueue 2)"
  using revoke_removes [OF rep_new, of 2 0, where w = "''a''" and tag = 7] by (simp add: size_ok_def)

end
