(* ===== verification/Stealing.thy ===== *)
theory Stealing
  imports RunQueue "HOL-Library.Multiset"
begin

text \<open>
  How the threads of the pool choose each other (class \<open>ThreadPoolTempl\<close> in
  include/onnxruntime/core/platform/EigenNonBlockingThreadPool.h): the walk with a random start
  and a stride without common divisor, over which \<open>Steal\<close> and \<open>NonEmptyQueueIndex\<close> look through the queues, the
  hints about threads that are spinning, and where \<open>SummonWorkers\<close> pushes its tasks. The
  operations are modelled one at a time, like those of the queue.
\<close>

unbundle bit_operations_syntax

section \<open>The walk\<close>

definition Rand :: "64 word \<Rightarrow> 64 word \<times> 32 word" where
  "Rand current =
     (current * 6364136223846793005 + 0xda3e39cb94b95bdb,
      ucast (drop_bit (unat (22 + drop_bit 61 current)) (current XOR drop_bit 22 current)))"

function gcd_loop :: "nat \<Rightarrow> nat \<Rightarrow> nat" where
  "gcd_loop a b = (if b = 0 then a else gcd_loop b (a mod b))"
  by pat_completeness auto
termination by (relation "measure snd") auto

declare gcd_loop.simps [simp del]

definition ComputeCoprimes :: "nat \<Rightarrow> nat list" where
  "ComputeCoprimes N = filter (\<lambda>i. gcd_loop i N = 1) [1..<Suc N]"

definition all_coprimes :: "nat \<Rightarrow> nat list list" where
  "all_coprimes num_threads = map ComputeCoprimes [1..<Suc num_threads]"

text \<open>The start and the stride of a walk over \<open>n\<close> threads, and the threads it visits.\<close>

definition start_walk :: "nat \<Rightarrow> 64 word \<Rightarrow> 64 word \<times> nat \<times> nat" where
  "start_walk n rand =
     (let (rand, r) = Rand rand; cs = all_coprimes n ! (n - 1); inc = cs ! (unat r mod length cs) in
      (rand, unat r mod n, inc))"

fun victims :: "nat \<Rightarrow> nat \<Rightarrow> nat \<Rightarrow> nat \<Rightarrow> nat list" where
  "victims n inc 0 victim = []"
| "victims n inc (Suc k) victim =
     victim # victims n inc k (let victim = victim + inc in if victim \<ge> n then victim - n else victim)"

fun first_nonempty :: "('q \<Rightarrow> bool) \<Rightarrow> 'q list \<Rightarrow> nat list \<Rightarrow> int" where
  "first_nonempty isempty qs [] = -1"
| "first_nonempty isempty qs (v # vs) = (if \<not> isempty (qs ! v) then int v else first_nonempty isempty qs vs)"

definition NonEmptyQueueIndex :: "('q \<Rightarrow> bool) \<Rightarrow> 'q list \<Rightarrow> 64 word \<Rightarrow> 64 word \<times> int" where
  "NonEmptyQueueIndex isempty qs rand =
     (case start_walk (length qs) rand of (rand, victim, inc) \<Rightarrow>
      (rand, first_nonempty isempty qs (victims (length qs) inc (length qs) victim)))"

section \<open>Stealing\<close>

text \<open>One round; the flag says that \<open>Steal\<close> returns. \<open>tried\<close> is the test of the status in round 0.\<close>

fun steal_round :: "('q \<Rightarrow> 'q \<times> 'w option) \<Rightarrow> (nat \<Rightarrow> bool) \<Rightarrow> bool \<Rightarrow> nat list \<Rightarrow> 'q list \<Rightarrow> 'q list \<times> 'w option \<times> bool" where
  "steal_round popb tried check_all [] qs = (qs, None, False)"
| "steal_round popb tried check_all (v # vs) qs =
     (let (qs', t) = (if tried v then (case popb (qs ! v) of (q, t) \<Rightarrow> (qs[v := q], t)) else (qs, None)) in
      case t of
        Some w \<Rightarrow> (qs', Some w, True)
      | None \<Rightarrow> if \<not> check_all then (qs', None, True) else steal_round popb tried check_all vs qs')"

definition Steal :: "('q \<Rightarrow> 'q \<times> 'w option) \<Rightarrow> (nat \<Rightarrow> bool) \<Rightarrow> bool \<Rightarrow> 'q list \<Rightarrow> 64 word \<Rightarrow> 64 word \<times> 'q list \<times> 'w option" where
  "Steal popb is_active check_all qs rand =
     (case start_walk (length qs) rand of (rand, victim, inc) \<Rightarrow>
      let vs = victims (length qs) inc (length qs) victim in
      case steal_round popb is_active check_all vs qs of (qs, t, returned) \<Rightarrow>
      if returned then (rand, qs, t)
      else (case steal_round popb (\<lambda>_. True) check_all vs qs of (qs, t, _) \<Rightarrow> (rand, qs, t)))"

definition TrySteal :: "('q \<Rightarrow> 'q \<times> 'w option) \<Rightarrow> (nat \<Rightarrow> bool) \<Rightarrow> 'q list \<Rightarrow> 64 word \<Rightarrow> 64 word \<times> 'q list \<times> 'w option" where
  "TrySteal popb is_active qs rand = Steal popb is_active False qs rand"

section \<open>A walk visits every thread once\<close>

lemma gcd_loop_gcd: "gcd_loop a b = gcd a b"
proof (induction a b rule: gcd_loop.induct)
  case (1 a b)
  show ?case
  proof (cases "b = 0")
    case False
    then have "gcd_loop a b = gcd b (a mod b)" using 1 gcd_loop.simps [of a b] by simp
    then show ?thesis by (simp only: gcd_red_nat [of a b])
  qed (simp add: gcd_loop.simps)
qed

lemma coprimes_at:
  assumes "0 < n"
  shows "all_coprimes n ! (n - 1) = filter (\<lambda>i. coprime i n) [1..<Suc n]"
  using assms by (simp add: all_coprimes_def ComputeCoprimes_def gcd_loop_gcd coprime_iff_gcd_eq_1 del: upt_Suc)

lemma start_walk_stride:
  assumes "0 < n" "start_walk n rand = (rand', victim, inc)"
  shows "victim < n" "coprime inc n" "inc \<le> n"
proof -
  let ?cs = "filter (\<lambda>i. coprime i n) [1..<Suc n]"
  have "1 \<in> set ?cs" using assms(1) by simp
  then have "0 < length ?cs" by (rule length_pos_if_in_set)
  then have "?cs ! (r mod length ?cs) \<in> set ?cs" for r by (intro nth_mem mod_less_divisor)
  moreover have "inc = ?cs ! (unat (snd (Rand rand)) mod length ?cs)"
    using assms(2) unfolding start_walk_def coprimes_at [OF assms(1)] Let_def by (simp only: prod.case_eq_if prod.inject)
  ultimately have "inc \<in> set ?cs" by (simp only:)
  then show "coprime inc n" "inc \<le> n" by auto
  show "victim < n" using assms by (auto simp: start_walk_def Let_def split: prod.splits)
qed

lemma victims_mod:
  assumes "inc \<le> n"
  shows "victim < n \<Longrightarrow> victims n inc k victim = map (\<lambda>i. (victim + i * inc) mod n) [0..<k]"
proof (induction k arbitrary: victim)
  case (Suc k)
  let ?v = "if victim + inc \<ge> n then victim + inc - n else victim + inc"
  have v: "?v < n" "?v = (victim + inc) mod n" using Suc.prems assms by (auto simp: mod_if)
  have "(?v + i * inc) mod n = (victim + Suc i * inc) mod n" for i
    unfolding v(2) by (simp add: mod_add_left_eq add.assoc)
  then have "map (\<lambda>i. (?v + i * inc) mod n) [0..<k] = map (\<lambda>i. (victim + Suc i * inc) mod n) [0..<k]" by simp
  moreover have "[0..<Suc k] = 0 # map Suc [0..<k]" by (simp add: upt_conv_Cons map_Suc_upt del: upt_Suc)
  ultimately show ?case using Suc.IH [OF v(1)] Suc.prems by (simp add: Let_def comp_def)
qed simp

lemma victims_all:
  assumes "inc \<le> n" "coprime inc n" "victim < n"
  shows "distinct (victims n inc n victim)" "set (victims n inc n victim) = {..<n}"
proof -
  have below: "i = j" if "i \<le> j" "j < n" "(victim + i * inc) mod n = (victim + j * inc) mod n" for i j
  proof -
    have "n dvd (victim + j * inc) - (victim + i * inc)"
      using that by (subst mod_eq_dvd_iff_nat [symmetric]) (auto intro: mult_le_mono1)
    moreover have "(victim + j * inc) - (victim + i * inc) = (j - i) * inc" by (simp add: diff_mult_distrib)
    ultimately have "n dvd j - i" using assms(2) by (simp add: coprime_dvd_mult_left_iff coprime_commute)
    then show "i = j" using that by (auto dest: dvd_imp_le)
  qed
  have inj: "inj_on (\<lambda>i. (victim + i * inc) mod n) {0..<n}"
  proof (rule inj_onI)
    fix i j assume "i \<in> {0..<n}" "j \<in> {0..<n}" "(victim + i * inc) mod n = (victim + j * inc) mod n"
    then show "i = j" using below [of i j] below [of j i] by (cases "i \<le> j") auto
  qed
  then show d: "distinct (victims n inc n victim)"
    unfolding victims_mod [OF assms(1,3)] by (simp add: distinct_map)
  have "set (victims n inc n victim) \<subseteq> {..<n}" unfolding victims_mod [OF assms(1,3)] using assms(3) by auto
  moreover have "card (set (victims n inc n victim)) = n"
    using distinct_card [OF d] by (simp add: victims_mod [OF assms(1,3)])
  ultimately show "set (victims n inc n victim) = {..<n}" by (simp add: card_subset_eq)
qed

section \<open>What stealing finds\<close>

lemma first_nonempty_result:
  "first_nonempty isempty qs vs = -1 \<and> list_all (\<lambda>v. isempty (qs ! v)) vs
   \<or> (\<exists>v \<in> set vs. first_nonempty isempty qs vs = int v \<and> \<not> isempty (qs ! v))"
  by (induction vs) auto

text \<open>\<open>taken v w xss yss\<close>: the work \<open>w\<close> at the back of queue \<open>v\<close> is gone, the live items of all other queues are as before.\<close>

definition same_live :: "'w deque list \<Rightarrow> 'w deque list \<Rightarrow> bool" where
  "same_live xss yss \<longleftrightarrow> map live yss = map live xss"

definition taken :: "nat \<Rightarrow> 'w \<Rightarrow> 'w deque list \<Rightarrow> 'w deque list \<Rightarrow> bool" where
  "taken v w xss yss \<longleftrightarrow> v < length xss \<and> (\<exists>tag rest. live (xss ! v) = (tag, w) # rest \<and> map live yss = (map live xss)[v := rest])"

context work_queue
begin

lemma pop_one:
  assumes "list_all2 R qs xss" "v < length qs" "popb (qs ! v) = (q, t)"
  shows "\<exists>yss. list_all2 R (qs[v := q]) yss \<and>
    (case t of None \<Rightarrow> same_live xss yss \<and> live (xss ! v) = [] | Some w \<Rightarrow> taken v w xss yss)"
proof -
  have len: "length xss = length qs" using list_all2_lengthD [OF assms(1)] by simp
  have "R (qs ! v) (xss ! v)" using list_all2_nthD [OF assms(1,2)] .
  then have "\<exists>ys. R q ys \<and> (case live (xss ! v) of [] \<Rightarrow> ys = [] \<and> t = None
      | (tag, w) # rest \<Rightarrow> live ys = rest \<and> t = Some w)"
    using popb_live [of "qs ! v" "xss ! v"] unfolding assms(3) fst_conv snd_conv by blast
  then obtain ys where ys: "R q ys" "case live (xss ! v) of [] \<Rightarrow> ys = [] \<and> t = None
      | (tag, w) # rest \<Rightarrow> live ys = rest \<and> t = Some w"
    by (elim exE conjE)
  have "list_all2 R (qs[v := q]) (xss[v := ys])" by (rule list_all2_update_cong [OF assms(1) ys(1)])
  moreover have "case t of None \<Rightarrow> same_live xss (xss[v := ys]) \<and> live (xss ! v) = [] | Some w \<Rightarrow> taken v w xss (xss[v := ys])"
  proof (cases "live (xss ! v)")
    case Nil
    then have "map live (xss[v := ys]) = map live xss"
      using ys(2) assms(2) len by (simp add: map_update list_update_same_conv)
    then show ?thesis using Nil ys(2) by (simp add: same_live_def)
  next
    case (Cons p rest)
    then show ?thesis using ys(2) assms(2) len by (auto simp: taken_def map_update split: prod.splits)
  qed
  ultimately show ?thesis by blast
qed

lemma same_live_trans: "same_live xss yss \<Longrightarrow> same_live yss zss \<Longrightarrow> same_live xss zss"
  by (simp add: same_live_def)

lemma same_live_nth: "same_live xss yss \<Longrightarrow> length xss = length yss \<and> (v < length xss \<longrightarrow> live (yss ! v) = live (xss ! v))"
  unfolding same_live_def by (metis length_map nth_map)

lemma same_live_taken: "same_live xss yss \<Longrightarrow> taken v w yss zss \<Longrightarrow> taken v w xss zss"
  unfolding taken_def using same_live_nth [of xss yss] by (auto simp: same_live_def)

text \<open>The outcome of a round over \<open>vs\<close>.\<close>

lemma steal_round_result:
  assumes "list_all2 R qs xss" "set vs \<subseteq> {..<length qs}" "steal_round popb tried check_all vs qs = (qs', t, returned)"
  shows "\<exists>yss. list_all2 R qs' yss \<and> length qs' = length qs \<and>
    (case t of
       None \<Rightarrow> same_live xss yss \<and> (check_all \<longrightarrow> \<not> returned \<and> (\<forall>v \<in> set vs. tried v \<longrightarrow> live (xss ! v) = []))
         \<and> (\<not> check_all \<longrightarrow> returned = (vs \<noteq> []))
     | Some w \<Rightarrow> returned \<and> (\<exists>v \<in> set vs. tried v \<and> (\<not> check_all \<longrightarrow> v = hd vs) \<and> taken v w xss yss))"
  using assms
proof (induction vs arbitrary: qs xss)
  case Nil
  then show ?case by (auto simp: same_live_def)
next
  case (Cons v vs)
  have v: "v < length qs" using Cons.prems(2) by simp
  obtain q r where q: "popb (qs ! v) = (q, r)" by fastforce
  obtain yss where yss: "list_all2 R (qs[v := q]) yss"
    "case r of None \<Rightarrow> same_live xss yss \<and> live (xss ! v) = [] | Some w \<Rightarrow> taken v w xss yss"
    using pop_one [OF Cons.prems(1) v q] by blast
  show ?case
  proof (cases "tried v \<and> r \<noteq> None")
    case True
    then show ?thesis using Cons.prems(3) q yss by (intro exI [of _ yss]) (auto split: option.splits)
  next
    case False
    define qs1 where "qs1 = (if tried v then qs[v := q] else qs)"
    define xs1 where "xs1 = (if tried v then yss else xss)"
    have one: "list_all2 R qs1 xs1" "same_live xss xs1" "length qs1 = length qs" "tried v \<longrightarrow> live (xss ! v) = []"
      using False yss Cons.prems(1) by (auto simp: qs1_def xs1_def same_live_def split: option.splits)
    have eq: "steal_round popb tried check_all (v # vs) qs
        = (if \<not> check_all then (qs1, None, True) else steal_round popb tried check_all vs qs1)"
      using False q by (auto simp: qs1_def)
    show ?thesis
    proof (cases check_all)
      case False
      then show ?thesis using eq one Cons.prems(3) by (intro exI [of _ xs1]) auto
    next
      case True
      have "\<exists>yss. list_all2 R qs' yss \<and> length qs' = length qs1 \<and>
        (case t of
           None \<Rightarrow> same_live xs1 yss \<and> (check_all \<longrightarrow> \<not> returned \<and> (\<forall>v \<in> set vs. tried v \<longrightarrow> live (xs1 ! v) = []))
             \<and> (\<not> check_all \<longrightarrow> returned = (vs \<noteq> []))
         | Some w \<Rightarrow> returned \<and> (\<exists>v \<in> set vs. tried v \<and> (\<not> check_all \<longrightarrow> v = hd vs) \<and> taken v w xs1 yss))"
        by (rule Cons.IH [OF one(1)]) (use Cons.prems(2,3) one(3) eq True in auto)
      then obtain zss where zss: "list_all2 R qs' zss" "length qs' = length qs1"
        "case t of
           None \<Rightarrow> same_live xs1 zss \<and> (check_all \<longrightarrow> \<not> returned \<and> (\<forall>v \<in> set vs. tried v \<longrightarrow> live (xs1 ! v) = []))
             \<and> (\<not> check_all \<longrightarrow> returned = (vs \<noteq> []))
         | Some w \<Rightarrow> returned \<and> (\<exists>v \<in> set vs. tried v \<and> (\<not> check_all \<longrightarrow> v = hd vs) \<and> taken v w xs1 zss)"
        by (elim exE conjE)
      have len: "length xss = length qs" using list_all2_lengthD [OF Cons.prems(1)] by simp
      show ?thesis
      proof (cases t)
        case None
        have "live (xss ! u) = []" if "u \<in> set (v # vs)" "tried u" for u
        proof (cases "u = v")
          case False
          then have "live (xs1 ! u) = []" using zss(3) None True that by auto
          moreover have "u < length xss" using that(1) Cons.prems(2) len by auto
          ultimately show ?thesis using same_live_nth [OF one(2), of u] by simp
        qed (use one(4) that(2) in simp)
        then show ?thesis using zss None one(3) True same_live_trans [OF one(2)] by (intro exI [of _ zss]) auto
      next
        case (Some w)
        then show ?thesis using zss one(3) True same_live_taken [OF one(2)] by (intro exI [of _ zss]) auto
      qed
    qed
  qed
qed

lemma Steal_all:
  assumes qs: "list_all2 R qs xss" "qs \<noteq> []" and r: "Steal popb is_active True qs rand = (rand', qs', t)"
  shows "\<exists>yss. list_all2 R qs' yss \<and>
    (case t of None \<Rightarrow> same_live xss yss \<and> (\<forall>v < length xss. live (xss ! v) = []) | Some w \<Rightarrow> \<exists>v. taken v w xss yss)"
proof -
  obtain rnd victim inc where w: "start_walk (length qs) rand = (rnd, victim, inc)" by (cases "start_walk (length qs) rand")
  define vs where "vs = victims (length qs) inc (length qs) victim"
  have vs: "set vs = {..<length qs}"
    using start_walk_stride [OF _ w] victims_all [of inc "length qs" victim] qs(2) by (simp add: vs_def)
  have len: "length xss = length qs" using list_all2_lengthD [OF qs(1)] by simp
  obtain qs1 t1 ret1 where r1: "steal_round popb is_active True vs qs = (qs1, t1, ret1)"
    by (cases "steal_round popb is_active True vs qs") auto
  obtain yss where yss: "list_all2 R qs1 yss" "length qs1 = length qs"
    "case t1 of
       None \<Rightarrow> same_live xss yss \<and> (True \<longrightarrow> \<not> ret1 \<and> (\<forall>v \<in> set vs. is_active v \<longrightarrow> live (xss ! v) = []))
         \<and> (\<not> True \<longrightarrow> ret1 = (vs \<noteq> []))
     | Some w \<Rightarrow> ret1 \<and> (\<exists>v \<in> set vs. is_active v \<and> (\<not> True \<longrightarrow> v = hd vs) \<and> taken v w xss yss)"
    using steal_round_result [OF qs(1) equalityD1 [OF vs] r1] by (elim exE conjE)
  show ?thesis
  proof (cases t1)
    case (Some w)
    then have "qs' = qs1" "t = Some w" using r r1 w yss(3) unfolding Steal_def by (simp_all add: Let_def vs_def [symmetric])
    then show ?thesis using Some yss by auto
  next
    case None
    obtain qs2 t2 ret2 where r2: "steal_round popb (\<lambda>_. True) True vs qs1 = (qs2, t2, ret2)"
      by (cases "steal_round popb (\<lambda>_. True) True vs qs1") auto
    have eq: "qs' = qs2" "t = t2" using r r1 r2 w yss(3) None unfolding Steal_def by (simp_all add: Let_def vs_def [symmetric])
    obtain zss where zss: "list_all2 R qs2 zss"
      "case t2 of
         None \<Rightarrow> same_live yss zss \<and> (True \<longrightarrow> \<not> ret2 \<and> (\<forall>v \<in> set vs. True \<longrightarrow> live (yss ! v) = []))
           \<and> (\<not> True \<longrightarrow> ret2 = (vs \<noteq> []))
       | Some w \<Rightarrow> ret2 \<and> (\<exists>v \<in> set vs. True \<and> (\<not> True \<longrightarrow> v = hd vs) \<and> taken v w yss zss)"
      using steal_round_result [OF yss(1) equalityD1 [OF vs [folded yss(2)]] r2] by (elim exE conjE)
    have s: "same_live xss yss" using yss(3) None by simp
    show ?thesis
    proof (cases t2)
      case None
      then show ?thesis using zss eq vs len same_live_trans [OF s] same_live_nth [OF s] by (intro exI [of _ zss]) auto
    next
      case (Some w)
      then show ?thesis using zss eq same_live_taken [OF s] by (intro exI [of _ zss]) auto
    qed
  qed
qed

lemma TrySteal_one:
  assumes qs: "list_all2 R qs xss" "qs \<noteq> []" and r: "TrySteal popb is_active qs rand = (rand', qs', t)"
  shows "\<exists>yss. list_all2 R qs' yss \<and>
    (case t of None \<Rightarrow> same_live xss yss | Some w \<Rightarrow> \<exists>v. is_active v \<and> taken v w xss yss)"
proof -
  obtain rnd victim inc where w: "start_walk (length qs) rand = (rnd, victim, inc)" by (cases "start_walk (length qs) rand")
  define vs where "vs = victims (length qs) inc (length qs) victim"
  have vs: "set vs = {..<length qs}"
    using start_walk_stride [OF _ w] victims_all [of inc "length qs" victim] qs(2) by (simp add: vs_def)
  then have ne: "vs \<noteq> []" using qs(2) by (metis empty_iff empty_set length_greater_0_conv lessThan_iff)
  obtain qs1 t1 ret1 where r1: "steal_round popb is_active False vs qs = (qs1, t1, ret1)"
    by (cases "steal_round popb is_active False vs qs") auto
  obtain yss where yss: "list_all2 R qs1 yss"
    "case t1 of
       None \<Rightarrow> same_live xss yss \<and> (False \<longrightarrow> \<not> ret1 \<and> (\<forall>v \<in> set vs. is_active v \<longrightarrow> live (xss ! v) = []))
         \<and> (\<not> False \<longrightarrow> ret1 = (vs \<noteq> []))
     | Some w \<Rightarrow> ret1 \<and> (\<exists>v \<in> set vs. is_active v \<and> (\<not> False \<longrightarrow> v = hd vs) \<and> taken v w xss yss)"
    using steal_round_result [OF qs(1) equalityD1 [OF vs] r1] by (elim exE conjE)
  have "ret1" using yss(2) ne by (cases t1) auto
  then have "qs' = qs1" "t = t1" using r r1 w unfolding TrySteal_def Steal_def by (simp_all add: Let_def vs_def [symmetric])
  then show ?thesis using yss by (cases t1) auto
qed

lemma NonEmptyQueueIndex_result:
  assumes qs: "list_all2 R qs xss" "qs \<noteq> []" and r: "NonEmptyQueueIndex isempty qs rand = (rand', j)"
  shows "if list_all (\<lambda>xs. xs = []) xss then j = -1 else 0 \<le> j \<and> nat j < length xss \<and> xss ! nat j \<noteq> []"
proof -
  obtain rnd victim inc where w: "start_walk (length qs) rand = (rnd, victim, inc)" by (cases "start_walk (length qs) rand")
  define vs where "vs = victims (length qs) inc (length qs) victim"
  have vs: "set vs = {..<length qs}"
    using start_walk_stride [OF _ w] victims_all [of inc "length qs" victim] qs(2) by (simp add: vs_def)
  have j: "j = first_nonempty isempty qs vs" using r w by (simp add: NonEmptyQueueIndex_def vs_def)
  have len: "length xss = length qs" using list_all2_lengthD [OF qs(1)] by simp
  have e: "isempty (qs ! v) \<longleftrightarrow> xss ! v = []" if "v < length qs" for v using isempty [OF list_all2_nthD [OF qs(1) that]] .
  show ?thesis
  proof (cases "list_all (\<lambda>xs. xs = []) xss")
    case True
    then show ?thesis using first_nonempty_result [of isempty qs vs] j vs e len by (auto simp: list_all_length)
  next
    case False
    then obtain v where "v < length xss" "xss ! v \<noteq> []" by (auto simp: list_all_length)
    then show ?thesis using first_nonempty_result [of isempty qs vs] j vs e len False by (auto simp: list_all_iff)
  qed
qed

end

section \<open>Hints\<close>

text \<open>A bit for each thread, four to a word (\<open>bits_per_hint_word_\<close>).\<close>

definition num_hint_words :: "nat \<Rightarrow> nat" where
  "num_hint_words num_threads = (num_threads + 4 - 1) div 4"

definition SetGoodWorkerHint :: "nat \<Rightarrow> bool \<Rightarrow> 64 word list \<Rightarrow> 64 word list" where
  "SetGoodWorkerHint idx is_good ws =
     (let u64 = idx div 4; bit = push_bit (idx mod 4) 1; saw = ws ! u64 in
      ws[u64 := if is_good then saw OR bit else saw AND NOT bit])"

record hint_search =
  hs_n :: nat
  hs_need_alt :: nat
  hs_good :: "nat list"
  hs_alt :: "nat list"

definition hint_bit :: "nat \<Rightarrow> 64 word \<Rightarrow> nat \<Rightarrow> nat \<Rightarrow> 64 word \<times> hint_search \<Rightarrow> 64 word \<times> hint_search" where
  "hint_bit num_threads saw u64 j st =
     (case st of (want, h) \<Rightarrow>
      if hs_n h = 0 then (want, h)
      else let bit = push_bit j 1; thread = u64 * 4 + j in
        if saw AND bit \<noteq> 0 then (want AND NOT bit, h\<lparr>hs_n := hs_n h - 1, hs_good := hs_good h @ [thread]\<rparr>)
        else if hs_need_alt h > 0 \<and> thread < num_threads then
          (want, h\<lparr>hs_need_alt := hs_need_alt h - 1, hs_alt := hs_alt h @ [thread]\<rparr>)
        else (want, h))"

definition hint_word :: "nat \<Rightarrow> nat \<Rightarrow> 64 word list \<times> hint_search \<Rightarrow> 64 word list \<times> hint_search" where
  "hint_word num_threads u64 st =
     (case st of (ws, h) \<Rightarrow>
      if hs_n h = 0 then (ws, h)
      else case fold (hint_bit num_threads (ws ! u64) u64) [0..<4] (ws ! u64, h) of (want, h) \<Rightarrow> (ws[u64 := want], h))"

definition GetGoodWorkerHints :: "nat \<Rightarrow> nat \<Rightarrow> 64 word \<Rightarrow> 64 word list \<Rightarrow> 64 word \<times> 64 word list \<times> nat list \<times> nat list" where
  "GetGoodWorkerHints num_threads n rand ws =
     (case Rand rand of (rand, r) \<Rightarrow>
      let words = num_hint_words num_threads; base = unat r mod words in
      case fold (\<lambda>i. hint_word num_threads ((base + i) mod words)) [0..<words]
          (ws, \<lparr>hs_n = n, hs_need_alt = n, hs_good = [], hs_alt = []\<rparr>) of
        (ws, h) \<Rightarrow> (rand, ws, hs_good h, hs_alt h))"

text \<open>The queue that task \<open>i\<close> of \<open>SummonWorkers\<close> is pushed to; a random one when there is no hint.\<close>

definition task_target :: "nat \<Rightarrow> nat list \<Rightarrow> nat list \<Rightarrow> nat \<Rightarrow> 64 word \<Rightarrow> 64 word \<times> nat" where
  "task_target num_threads good_hints alt_hints i rand =
     (if i < length good_hints then (rand, good_hints ! i)
      else let alt_i = i - length good_hints in
        if alt_i < length alt_hints then (rand, alt_hints ! alt_i)
        else case Rand rand of (rand, r) \<Rightarrow> (rand, unat r mod num_threads))"

definition hinted :: "64 word list \<Rightarrow> nat \<Rightarrow> bool" where
  "hinted ws t \<longleftrightarrow> t div 4 < length ws \<and> bit (ws ! (t div 4)) (t mod 4)"

definition hints_wf :: "nat \<Rightarrow> 64 word list \<Rightarrow> bool" where
  "hints_wf num_threads ws \<longleftrightarrow> length ws = num_hint_words num_threads \<and> (\<forall>t. hinted ws t \<longrightarrow> t < num_threads)"

lemma word_of_thread: "t < num \<Longrightarrow> t div 4 < num_hint_words num"
  by (simp add: num_hint_words_def)

lemma bit_pushed: "bit (2 ^ j :: 64 word) b \<longleftrightarrow> b = j \<and> j < 64"
  by (auto simp: bit_exp_iff)

lemma SetGoodWorkerHint_hinted:
  assumes "hints_wf num ws" "idx < num"
  shows "hints_wf num (SetGoodWorkerHint idx is_good ws)"
    "hinted (SetGoodWorkerHint idx is_good ws) t = (if t = idx then is_good else hinted ws t)"
proof -
  have u: "idx div 4 < length ws" using assms word_of_thread by (simp add: hints_wf_def)
  have same: "t = idx \<longleftrightarrow> t div 4 = idx div 4 \<and> t mod 4 = idx mod 4" for t
    using div_mult_mod_eq [of t 4] div_mult_mod_eq [of idx 4] by metis
  have h: "hinted (SetGoodWorkerHint idx is_good ws) t = (if t = idx then is_good else hinted ws t)" for t
  proof (cases "t div 4 = idx div 4")
    case True
    have "idx mod 4 < 64" "t mod 4 < 64" using pos_mod_bound by (simp_all add: less_trans [of _ 4])
    then show ?thesis using u True same [of t]
      by (auto simp: hinted_def SetGoodWorkerHint_def Let_def bit_or_iff bit_and_iff bit_not_iff bit_pushed)
  next
    case False
    then show ?thesis using same [of t] by (auto simp: hinted_def SetGoodWorkerHint_def Let_def)
  qed
  then show "hinted (SetGoodWorkerHint idx is_good ws) t = (if t = idx then is_good else hinted ws t)" .
  show "hints_wf num (SetGoodWorkerHint idx is_good ws)"
    using assms h by (auto simp: hints_wf_def SetGoodWorkerHint_def Let_def split: if_splits)
qed

text \<open>The search, thread by thread, in terms of the bits there were.\<close>

definition hint_thread :: "nat \<Rightarrow> (nat \<Rightarrow> bool) \<Rightarrow> nat \<Rightarrow> hint_search \<Rightarrow> hint_search" where
  "hint_thread num_threads marked thread h =
     (if hs_n h = 0 then h
      else if marked thread then h\<lparr>hs_n := hs_n h - 1, hs_good := hs_good h @ [thread]\<rparr>
      else if hs_need_alt h > 0 \<and> thread < num_threads then h\<lparr>hs_need_alt := hs_need_alt h - 1, hs_alt := hs_alt h @ [thread]\<rparr>
      else h)"

text \<open>What holds after the threads of \<open>seen\<close>.\<close>

definition search_inv :: "nat \<Rightarrow> nat \<Rightarrow> (nat \<Rightarrow> bool) \<Rightarrow> nat set \<Rightarrow> hint_search \<Rightarrow> bool" where
  "search_inv num n marked seen h \<longleftrightarrow>
     distinct (hs_good h) \<and> distinct (hs_alt h) \<and> set (hs_good h) \<subseteq> seen \<inter> Collect marked
     \<and> set (hs_alt h) \<subseteq> (seen \<inter> {..<num}) - Collect marked
     \<and> length (hs_good h) + hs_n h = n \<and> length (hs_alt h) + hs_need_alt h = n
     \<and> (0 < hs_n h \<longrightarrow> seen \<inter> Collect marked \<subseteq> set (hs_good h)
        \<and> (0 < hs_need_alt h \<longrightarrow> (seen \<inter> {..<num}) - Collect marked \<subseteq> set (hs_alt h)))"

lemma search_step:
  assumes "search_inv num n marked seen h" "t \<notin> seen"
  shows "search_inv num n marked (insert t seen) (hint_thread num marked t h)"
  using assms by (auto simp: search_inv_def hint_thread_def)

lemma search_all:
  "search_inv num n marked seen h \<Longrightarrow> distinct ts \<Longrightarrow> set ts \<inter> seen = {} \<Longrightarrow>
     search_inv num n marked (set ts \<union> seen) (fold (hint_thread num marked) ts h)"
proof (induction ts arbitrary: seen h)
  case (Cons t ts)
  have "search_inv num n marked (set ts \<union> insert t seen) (fold (hint_thread num marked) ts (hint_thread num marked t h))"
    by (rule Cons.IH) (use Cons.prems search_step in auto)
  then show ?case by simp
qed simp

text \<open>Words and threads: the bits of \<open>want\<close> are those of the word without the hints taken.\<close>

definition without :: "64 word \<Rightarrow> nat \<Rightarrow> nat list \<Rightarrow> 64 word \<Rightarrow> bool" where
  "without saw u64 good want \<longleftrightarrow> (\<forall>b. bit want b \<longleftrightarrow> bit saw b \<and> \<not> (b < 4 \<and> u64 * 4 + b \<in> set good))"

lemma hint_bit_step:
  assumes j: "j < 4" and w: "without saw u64 (hs_good h) want" and m: "marked (u64 * 4 + j) \<longleftrightarrow> bit saw j"
  shows "\<exists>want'. hint_bit num saw u64 j (want, h) = (want', hint_thread num marked (u64 * 4 + j) h)
    \<and> without saw u64 (hs_good (hint_thread num marked (u64 * 4 + j) h)) want'"
proof -
  have t: "saw AND push_bit j 1 \<noteq> 0 \<longleftrightarrow> bit saw j" by (simp add: and_exp_eq_0_iff_not_bit)
  show ?thesis
  proof (cases "0 < hs_n h \<and> bit saw j")
    case True
    have "bit (want AND NOT (push_bit j 1)) b \<longleftrightarrow> bit saw b \<and> \<not> (b < 4 \<and> u64 * 4 + b \<in> set (hs_good h @ [u64 * 4 + j]))" for b
      using w j by (auto simp: without_def bit_and_iff bit_not_iff bit_pushed dest: bit_imp_possible_bit)
    then show ?thesis using True t m by (simp add: hint_bit_def hint_thread_def without_def Let_def)
  next
    case False
    then show ?thesis using t m w by (auto simp: hint_bit_def hint_thread_def Let_def)
  qed
qed

lemma hint_bits_run:
  assumes "set js \<subseteq> {..<4}" "without saw u64 (hs_good h) want" "\<And>j. j < 4 \<Longrightarrow> marked (u64 * 4 + j) \<longleftrightarrow> bit saw j"
  shows "\<exists>want'. fold (hint_bit num saw u64) js (want, h) = (want', fold (hint_thread num marked) (map (\<lambda>j. u64 * 4 + j) js) h)
    \<and> without saw u64 (hs_good (fold (hint_thread num marked) (map (\<lambda>j. u64 * 4 + j) js) h)) want'"
  using assms(1,2)
proof (induction js arbitrary: want h)
  case Nil
  then show ?case by simp
next
  case (Cons j js)
  have j: "j < 4" "set js \<subseteq> {..<4}" using Cons.prems(1) by auto
  obtain want' where w: "hint_bit num saw u64 j (want, h) = (want', hint_thread num marked (u64 * 4 + j) h)"
    "without saw u64 (hs_good (hint_thread num marked (u64 * 4 + j) h)) want'"
    using hint_bit_step [of j saw u64 h want marked num, OF j(1) Cons.prems(2) assms(3) [OF j(1)]] by (elim exE conjE)
  show ?case using Cons.IH [OF j(2) w(2)] w(1) by simp
qed

definition threads_of :: "nat \<Rightarrow> nat list" where
  "threads_of u64 = map (\<lambda>j. u64 * 4 + j) [0..<4]"

lemma threads_of_word: "t \<in> set (threads_of u) \<longleftrightarrow> t div 4 = u"
proof
  assume "t div 4 = u"
  then have "t = u * 4 + t mod 4" using div_mult_mod_eq [of t 4] by simp
  then show "t \<in> set (threads_of u)" unfolding threads_of_def by (metis atLeastLessThan_iff image_eqI list.set_map mod_less_divisor set_upt zero_le zero_less_numeral)
qed (auto simp: threads_of_def)

text \<open>The words after the words \<open>us\<close> have been searched.\<close>

definition words_inv :: "64 word list \<Rightarrow> nat set \<Rightarrow> 64 word list \<Rightarrow> hint_search \<Rightarrow> bool" where
  "words_inv ws0 us ws h \<longleftrightarrow> length ws = length ws0 \<and> (\<forall>u < length ws0. without (ws0 ! u) u (hs_good h) (ws ! u))
     \<and> (\<forall>t \<in> set (hs_good h). t div 4 \<in> us)"

lemma hint_thread_good: "set (hs_good (fold (hint_thread num marked) ts h)) \<subseteq> set (hs_good h) \<union> set ts"
proof (induction ts arbitrary: h)
  case (Cons t ts)
  have "set (hs_good (hint_thread num marked t h)) \<subseteq> insert t (set (hs_good h))" by (auto simp: hint_thread_def)
  then show ?case using Cons [of "hint_thread num marked t h"] by auto
qed simp

lemma hint_thread_done: "hs_n h = 0 \<Longrightarrow> fold (hint_thread num marked) ts h = h"
  by (induction ts) (simp_all add: hint_thread_def)

lemma hint_word_run:
  assumes inv: "words_inv ws0 us ws h" and u: "u < length ws0" "u \<notin> us"
  shows "\<exists>ws'. hint_word num u (ws, h) = (ws', fold (hint_thread num (hinted ws0)) (threads_of u) h)
    \<and> words_inv ws0 (insert u us) ws' (fold (hint_thread num (hinted ws0)) (threads_of u) h)"
proof (cases "hs_n h = 0")
  case True
  then show ?thesis using inv by (auto simp: hint_word_def hint_thread_done words_inv_def)
next
  case False
  let ?h = "fold (hint_thread num (hinted ws0)) (threads_of u) h"
  have fresh: "u * 4 + b \<notin> set (hs_good h)" if "b < 4" for b
    using inv u(2) that by (force simp: words_inv_def)
  have len: "length ws = length ws0" and w: "without (ws0 ! v) v (hs_good h) (ws ! v)" if "v < length ws0" for v
    using inv that by (simp_all add: words_inv_def)
  have "bit (ws ! u) b \<longleftrightarrow> bit (ws0 ! u) b" for b using w [OF u(1)] fresh by (auto simp: without_def)
  then have same: "ws ! u = ws0 ! u" by (intro bit_eqI) simp
  have start: "without (ws0 ! u) u (hs_good h) (ws0 ! u)" using w [OF u(1)] same by simp
  have m: "hinted ws0 (u * 4 + j) \<longleftrightarrow> bit (ws0 ! u) j" if "j < 4" for j using u(1) that by (simp add: hinted_def)
  have "set [0..<4] \<subseteq> {..<4::nat}" by auto
  then have "\<exists>want. fold (hint_bit num (ws0 ! u) u) [0..<4] (ws0 ! u, h) = (want, ?h) \<and> without (ws0 ! u) u (hs_good ?h) want"
    unfolding threads_of_def by (rule hint_bits_run [OF _ start]) (rule m)
  then obtain want where want: "fold (hint_bit num (ws0 ! u) u) [0..<4] (ws0 ! u, h) = (want, ?h)" "without (ws0 ! u) u (hs_good ?h) want"
    by (elim exE conjE)
  have good: "t \<in> set (hs_good h) \<or> t div 4 = u" if "t \<in> set (hs_good ?h)" for t
    using hint_thread_good [of num "hinted ws0" "threads_of u" h] that threads_of_word [of t u] by blast
  have others: "without (ws0 ! v) v (hs_good ?h) (ws ! v)" if "v < length ws0" "v \<noteq> u" for v
  proof -
    have more: "set (hs_good h) \<subseteq> set (hs_good ?h)"
    proof -
      have "set (hs_good g) \<subseteq> set (hs_good (fold (hint_thread num marked) ts g))" for marked ts and g :: hint_search
      proof (induction ts arbitrary: g)
        case (Cons t ts)
        have "set (hs_good g) \<subseteq> set (hs_good (hint_thread num marked t g))" by (auto simp: hint_thread_def)
        then show ?case using Cons [of "hint_thread num marked t g"] by auto
      qed simp
      then show ?thesis .
    qed
    have "v * 4 + b \<in> set (hs_good ?h) \<longleftrightarrow> v * 4 + b \<in> set (hs_good h)" if "b < 4" for b
    proof
      assume "v * 4 + b \<in> set (hs_good ?h)"
      then show "v * 4 + b \<in> set (hs_good h)" using good [of "v * 4 + b"] \<open>b < 4\<close> \<open>v \<noteq> u\<close> by simp
    qed (use more in auto)
    then show ?thesis using w [OF that(1)] by (simp add: without_def)
  qed
  have run: "hint_word num u (ws, h) = (ws[u := want], ?h)"
    using False want(1) same by (simp add: hint_word_def)
  have div: "t div 4 \<in> insert u us" if "t \<in> set (hs_good ?h)" for t
    using that good inv by (auto simp: words_inv_def)
  have "words_inv ws0 (insert u us) (ws[u := want]) ?h"
    unfolding words_inv_def using len u(1) want(2) others div by (auto simp: nth_list_update)
  then show ?thesis using run by blast
qed

lemma hint_words_run:
  assumes "words_inv ws0 us ws h" "distinct vs" "set vs \<subseteq> {..<length ws0}" "set vs \<inter> us = {}"
  shows "\<exists>ws'. fold (hint_word num) vs (ws, h) = (ws', fold (hint_thread num (hinted ws0)) (concat (map threads_of vs)) h)
    \<and> words_inv ws0 (set vs \<union> us) ws' (fold (hint_thread num (hinted ws0)) (concat (map threads_of vs)) h)"
  using assms
proof (induction vs arbitrary: us ws h)
  case Nil
  then show ?case by simp
next
  case (Cons u vs)
  have u: "u < length ws0" "u \<notin> us" using Cons.prems(3,4) by auto
  obtain ws1 where ws1: "hint_word num u (ws, h) = (ws1, fold (hint_thread num (hinted ws0)) (threads_of u) h)"
    "words_inv ws0 (insert u us) ws1 (fold (hint_thread num (hinted ws0)) (threads_of u) h)"
    using hint_word_run [OF Cons.prems(1) u, of num] by (elim exE conjE)
  have "distinct vs" "set vs \<subseteq> {..<length ws0}" "set vs \<inter> insert u us = {}" using Cons.prems by auto
  then show ?case using Cons.IH [OF ws1(2)] ws1(1) by simp
qed

lemma hint_words_walk:
  assumes "0 < words"
  shows "distinct (map (\<lambda>i. (base + i) mod words) [0..<words])" "set (map (\<lambda>i. (base + i) mod words) [0..<words]) = {..<words}"
proof -
  have "inj_on (\<lambda>i. (base + i) mod words) {0..<words}"
    by (rule inj_onI) (auto dest: add_mod_cancel)
  then show d: "distinct (map (\<lambda>i. (base + i) mod words) [0..<words])" by (simp add: distinct_map)
  have "set (map (\<lambda>i. (base + i) mod words) [0..<words]) \<subseteq> {..<words}" using assms by auto
  moreover have "card (set (map (\<lambda>i. (base + i) mod words) [0..<words])) = words"
    using distinct_card [OF d] by simp
  ultimately show "set (map (\<lambda>i. (base + i) mod words) [0..<words]) = {..<words}" by (simp add: card_subset_eq)
qed

lemma threads_of_distinct: "distinct vs \<Longrightarrow> distinct (concat (map threads_of vs))"
proof (induction vs)
  case (Cons u vs)
  then show ?case by (auto simp: threads_of_word) (simp add: threads_of_def distinct_map inj_on_def)
qed simp

lemma search_inv_start: "search_inv num n marked {} \<lparr>hs_n = n, hs_need_alt = n, hs_good = [], hs_alt = []\<rparr>"
  by (simp add: search_inv_def)

text \<open>What a search over all threads leaves.\<close>

definition hints_found :: "nat \<Rightarrow> nat \<Rightarrow> 64 word list \<Rightarrow> nat list \<Rightarrow> nat list \<Rightarrow> bool" where
  "hints_found num n ws good alt \<longleftrightarrow>
     distinct (good @ alt) \<and> set (good @ alt) \<subseteq> {..<num} \<and> length good \<le> n \<and> length alt \<le> n
     \<and> list_all (hinted ws) good \<and> \<not> list_ex (hinted ws) alt
     \<and> (length good < n \<longrightarrow> Collect (hinted ws) \<subseteq> set good)
     \<and> min n num \<le> length good + length alt"

lemma search_found:
  assumes inv: "search_inv num n (hinted ws) seen h" and wf: "hints_wf num ws" and seen: "{..<num} \<subseteq> seen"
  shows "hints_found num n ws (hs_good h) (hs_alt h)"
proof -
  have lt: "Collect (hinted ws) \<subseteq> {..<num}" using wf by (auto simp: hints_wf_def)
  have "min n num \<le> length (hs_good h) + length (hs_alt h)"
  proof (cases "0 < hs_n h \<and> 0 < hs_need_alt h")
    case True
    then have "seen \<inter> Collect (hinted ws) \<subseteq> set (hs_good h)" "(seen \<inter> {..<num}) - Collect (hinted ws) \<subseteq> set (hs_alt h)"
      using inv unfolding search_inv_def by blast+
    then have "{..<num} \<subseteq> set (hs_good h @ hs_alt h)" using seen unfolding set_append by blast
    then have "card {..<num} \<le> card (set (hs_good h @ hs_alt h))" by (rule card_mono [rotated]) simp
    also have "\<dots> \<le> length (hs_good h @ hs_alt h)" by (rule card_length)
    finally show ?thesis by simp
  next
    case False
    then show ?thesis using inv unfolding search_inv_def by auto
  qed
  then show ?thesis
    using inv lt seen unfolding hints_found_def search_inv_def by (auto simp: list_all_iff list_ex_iff)
qed

lemma GetGoodWorkerHints_result:
  assumes wf: "hints_wf num ws" and num: "0 < num" and r: "GetGoodWorkerHints num n rand ws = (rand', ws', good, alt)"
  shows "hints_found num n ws good alt" "hints_wf num ws'" "hinted ws' t \<longleftrightarrow> hinted ws t \<and> t \<notin> set good"
proof -
  define words where "words = num_hint_words num"
  define vs where "vs = map (\<lambda>i. (unat (snd (Rand rand)) mod words + i) mod words) [0..<words]"
  let ?init = "\<lparr>hs_n = n, hs_need_alt = n, hs_good = [], hs_alt = []\<rparr>"
  let ?h = "fold (hint_thread num (hinted ws)) (concat (map threads_of vs)) ?init"
  have words: "0 < words" "length ws = words" using num wf by (simp_all add: words_def num_hint_words_def hints_wf_def)
  have vs: "distinct vs" "set vs = {..<words}" unfolding vs_def using hint_words_walk [OF words(1)] by blast+
  have start: "words_inv ws {} ws ?init" by (simp add: words_inv_def without_def)
  obtain ws1 where run: "fold (hint_word num) vs (ws, ?init) = (ws1, ?h)" "words_inv ws (set vs \<union> {}) ws1 ?h"
    by (rule exE [OF hint_words_run [OF start vs(1), of num]]) (simp_all add: vs(2) words(2))
  have f: "fold (\<lambda>i. hint_word num ((unat (snd (Rand rand)) mod words + i) mod words)) [0..<words] (ws, ?init) = (ws1, ?h)"
    using run(1) unfolding vs_def by (simp add: fold_map comp_def)
  have res: "ws' = ws1" "good = hs_good ?h" "alt = hs_alt ?h"
    using r f unfolding GetGoodWorkerHints_def words_def [symmetric] by (simp_all add: Let_def case_prod_beta)
  have all: "{..<num} \<subseteq> set (concat (map threads_of vs)) \<union> {}"
    using word_of_thread [of _ num] by (auto simp: threads_of_word vs(2) words_def)
  have inv: "search_inv num n (hinted ws) (set (concat (map threads_of vs)) \<union> {}) ?h"
    by (rule search_all [OF search_inv_start threads_of_distinct [OF vs(1)]]) simp
  show found: "hints_found num n ws good alt" unfolding res by (rule search_found [OF inv wf all])
  have w: "length ws1 = words" "u < words \<Longrightarrow> without (ws ! u) u (hs_good ?h) (ws1 ! u)" for u
    using run(2) words(2) unfolding words_inv_def by simp_all
  have h: "hinted ws' t \<longleftrightarrow> hinted ws t \<and> t \<notin> set good" for t
  proof (cases "t div 4 < words")
    case True
    have "t div 4 * 4 + t mod 4 = t" "t mod 4 < 4" by simp_all
    then show ?thesis using w(2) [OF True] w(1) words(2) True unfolding hinted_def res without_def by simp
  qed (simp add: hinted_def res(1) w(1) words(2))
  then show "hinted ws' t \<longleftrightarrow> hinted ws t \<and> t \<notin> set good" .
  show "hints_wf num ws'" using h wf w(1) words(2) unfolding hints_wf_def res by simp
qed

lemma task_target_found:
  assumes "hints_found num n ws good alt" "n \<le> num" "i < n"
  shows "snd (task_target num good alt i rand) = (good @ alt) ! i" "i < length (good @ alt)"
  using assms by (auto simp: hints_found_def task_target_def nth_append Let_def)

lemma task_targets_distinct:
  assumes "hints_found num n ws good alt" "n \<le> num"
  shows "distinct (map (\<lambda>i. snd (task_target num good alt i rand)) [0..<n])"
proof -
  have "map (\<lambda>i. snd (task_target num good alt i rand)) [0..<n] = take n (good @ alt)"
    using task_target_found(1) [OF assms, of _ rand]
    by (intro nth_equalityI) (simp_all del: take_append length_append add: less_imp_le_nat min_def, use assms in \<open>auto simp: hints_found_def\<close>)
  then show ?thesis using assms(1) by (metis distinct_take hints_found_def)
qed

section \<open>Properties\<close>

text \<open>
  C17. The walk visits each thread of the pool exactly once, whatever the random number. So the full attempt to
  steal fails only when no queue has live work, and then changes none; otherwise it takes the item at the back
  of one queue and nothing else. The quick attempt takes work only from a thread
  that is running user code, and \<open>NonEmptyQueueIndex\<close> is -1 exactly when all queues are empty.
\<close>

theorem steal_finds_work:
  assumes "list_all2 (rep k) qs xss" "qs \<noteq> []"
  shows "(case start_walk (length qs) rand of (_, victim, inc) \<Rightarrow>
      mset (victims (length qs) inc (length qs) victim) = mset [0..<length qs])
    \<and> (case Steal (PopBack k) is_active True qs rand of (_, qs', t) \<Rightarrow> \<exists>yss. list_all2 (rep k) qs' yss \<and>
        (case t of None \<Rightarrow> same_live xss yss \<and> list_all (\<lambda>xs. live xs = []) xss | Some w \<Rightarrow> \<exists>v. taken v w xss yss))
    \<and> (case TrySteal (PopBack k) is_active qs rand of (_, qs', t) \<Rightarrow> \<exists>yss. list_all2 (rep k) qs' yss \<and>
        (case t of None \<Rightarrow> same_live xss yss | Some w \<Rightarrow> \<exists>v. is_active v \<and> taken v w xss yss))
    \<and> (case NonEmptyQueueIndex (rq_Empty k) qs rand of (_, j) \<Rightarrow>
        if list_all (\<lambda>xs. xs = []) xss then j = -1 else 0 \<le> j \<and> nat j < length xss \<and> xss ! nat j \<noteq> [])"
proof (intro conjI)
  obtain rnd victim inc where w: "start_walk (length qs) rand = (rnd, victim, inc)" by (cases "start_walk (length qs) rand")
  have "distinct (victims (length qs) inc (length qs) victim)" "set (victims (length qs) inc (length qs) victim) = {..<length qs}"
    using start_walk_stride [OF _ w] victims_all [of inc "length qs" victim] assms(2) by simp_all
  then show "case start_walk (length qs) rand of (_, victim, inc) \<Rightarrow>
      mset (victims (length qs) inc (length qs) victim) = mset [0..<length qs]"
    using w by (simp add: set_eq_iff_mset_eq_distinct [symmetric] atLeast0LessThan del: mset_upt)
next
  obtain rand' qs' t where r: "Steal (PopBack k) is_active True qs rand = (rand', qs', t)" by (rule prod_cases3)
  show "case Steal (PopBack k) is_active True qs rand of (_, qs', t) \<Rightarrow> \<exists>yss. list_all2 (rep k) qs' yss \<and>
        (case t of None \<Rightarrow> same_live xss yss \<and> list_all (\<lambda>xs. live xs = []) xss | Some w \<Rightarrow> \<exists>v. taken v w xss yss)"
    using rq.Steal_all [OF assms r] unfolding r list_all_length by simp
next
  obtain rand' qs' t where r: "TrySteal (PopBack k) is_active qs rand = (rand', qs', t)" by (rule prod_cases3)
  show "case TrySteal (PopBack k) is_active qs rand of (_, qs', t) \<Rightarrow> \<exists>yss. list_all2 (rep k) qs' yss \<and>
        (case t of None \<Rightarrow> same_live xss yss | Some w \<Rightarrow> \<exists>v. is_active v \<and> taken v w xss yss)"
    using rq.TrySteal_one [OF assms r] by (simp add: r)
next
  obtain rand' j where r: "NonEmptyQueueIndex (rq_Empty k) qs rand = (rand', j)" by (rule prod.exhaust)
  show "case NonEmptyQueueIndex (rq_Empty k) qs rand of (_, j) \<Rightarrow>
        if list_all (\<lambda>xs. xs = []) xss then j = -1 else 0 \<le> j \<and> nat j < length xss \<and> xss ! nat j \<noteq> []"
    using rq.NonEmptyQueueIndex_result [OF assms r] by (simp add: r)
qed

text \<open>
  A worker's hint is set and cleared without touching the others'. A request for \<open>n\<close> threads gives good ones, which
  were marked (all marked ones, when there are fewer than \<open>n\<close>) and are unmarked afterwards,
  and others that were not marked, all distinct and in the pool, together at least \<open>n\<close> if the pool has as many: so
  the tasks of \<open>SummonWorkers\<close> go to different threads, and no random queue is used.
\<close>

theorem hints_good_workers:
  assumes "hints_wf num ws" "idx < num" "n \<le> num"
  shows "hints_wf num (SetGoodWorkerHint idx is_good ws)
    \<and> (hinted (SetGoodWorkerHint idx is_good ws) t = (if t = idx then is_good else hinted ws t))
    \<and> (case GetGoodWorkerHints num n rand ws of (rand', ws', good, alt) \<Rightarrow>
        hints_found num n ws good alt \<and> hints_wf num ws' \<and> (hinted ws' t \<longleftrightarrow> hinted ws t \<and> t \<notin> set good)
        \<and> distinct (map (\<lambda>i. snd (task_target num good alt i rand')) [0..<n]))"
proof -
  obtain rand' ws' good alt where r: "GetGoodWorkerHints num n rand ws = (rand', ws', good, alt)" by (rule prod_cases4)
  have "0 < num" using assms(2) by simp
  note g = GetGoodWorkerHints_result [OF assms(1) this r]
  show ?thesis
    using SetGoodWorkerHint_hinted [OF assms(1,2), of is_good] g r task_targets_distinct [OF g(1) assms(3)] by simp
qed

text \<open>Three queues, one item; five threads, two of them spinning.\<close>

lemma new_queues: "list_all2 (rep 2) [RunQueue 2, fst (PushBack 2 (RunQueue 2) ''w''), RunQueue 2] [[], [Ready 0 ''w''], []]"
  using PushBack_sim [OF rep_new, of 2 "''w''"] rep_new [of 2, where 'a = "char list"]
  by (simp add: size_ok_def sim_def d_push_back_def)

theorem steal_finds_work_witness:
  "snd (snd (Steal (PopBack 2) (\<lambda>_. False) True [RunQueue 2, fst (PushBack 2 (RunQueue 2) ''w''), RunQueue 2] 5)) \<noteq> None"
proof
  assume "snd (snd (Steal (PopBack 2) (\<lambda>_. False) True [RunQueue 2, fst (PushBack 2 (RunQueue 2) ''w''), RunQueue 2] 5)) = None"
  then show False using steal_finds_work [OF new_queues, of 5 "\<lambda>_. False"] by (auto split: prod.splits)
qed

theorem hints_good_workers_witness:
  "case GetGoodWorkerHints 5 3 7 [4, 1] of (rand', ws', good, alt) \<Rightarrow> hints_found 5 3 [4, 1] good alt"
proof -
  have "t \<in> {2, 4}" if "hinted [4, 1] t" for t
  proof -
    have b: "t div 4 < 2" "bit ([4, 1 :: 64 word] ! (t div 4)) (t mod 4)" using that by (simp_all add: hinted_def)
    have four: "(4 :: 64 word) = 2 ^ 2" by simp
    have "t div 4 = 0 \<and> t mod 4 = 2 \<or> t div 4 = 1 \<and> t mod 4 = 0"
      using b unfolding four by (cases "t div 4 = 0") (auto simp: less_Suc_eq numeral_2_eq_2 bit_exp_iff bit_1_iff)
    then show ?thesis using div_mult_mod_eq [of t 4] by auto
  qed
  then have "t < 5" if "hinted [4, 1] t" for t using that by fastforce
  then have "hints_wf 5 [4, 1]" by (simp add: hints_wf_def num_hint_words_def)
  from hints_good_workers [OF this, of 0 3 True 0 7] show ?thesis by (auto split: prod.splits)
qed

end
