(* ===== verification/Interleaving.thy ===== *)
theory Interleaving
  imports Prelude
begin

text \<open>
  Threads as interleaved steps, shared by the components of the thread pool. A component has a state with the place of
  each thread in its code, and an inductive relation for the steps; here are the states that are
  reached, what it means that every run ends, sums over the places of threads, and the locales by which a component
  gets its properties from a step-wise invariant and a rank.
\<close>

section \<open>Runs\<close>

inductive reached :: "('s \<Rightarrow> bool) \<Rightarrow> ('s \<Rightarrow> 's \<Rightarrow> bool) \<Rightarrow> 's \<Rightarrow> bool" for start step where
  reached_start: "start s \<Longrightarrow> reached start step s"
| reached_step: "reached start step s \<Longrightarrow> step s s' \<Longrightarrow> reached start step s'"

text \<open>Every run of steps ends, after at most \<open>k\<close> of them, and where no step is possible \<open>P\<close> holds.\<close>

definition always_ends :: "('s \<Rightarrow> 's \<Rightarrow> bool) \<Rightarrow> nat \<Rightarrow> ('s \<Rightarrow> bool) \<Rightarrow> 's \<Rightarrow> bool" where
  "always_ends step k P s \<longleftrightarrow> (\<forall>m s'. (step ^^ m) s s' \<longrightarrow> m \<le> k \<and> ((\<forall>s''. \<not> step s' s'') \<longrightarrow> P s'))"

locale transitions =
  fixes start :: "'s \<Rightarrow> bool" and step :: "'s \<Rightarrow> 's \<Rightarrow> bool" and invariant :: "'s \<Rightarrow> bool"
  assumes invariant_start: "start s \<Longrightarrow> invariant s"
    and invariant_step: "step s s' \<Longrightarrow> invariant s \<Longrightarrow> invariant s'"
begin

lemma reached_invariant: "reached start step s \<Longrightarrow> invariant s"
  by (induction rule: reached.induct) (use invariant_start invariant_step in blast)+

end

text \<open>\<open>advance\<close> are the steps that make progress; \<open>goal\<close> is where they lead.\<close>

locale progress = transitions +
  fixes advance :: "'s \<Rightarrow> 's \<Rightarrow> bool" and rank :: "'s \<Rightarrow> nat" and goal :: "'s \<Rightarrow> bool"
  assumes advance_step: "advance s s' \<Longrightarrow> step s s'"
    and advance_rank: "advance s s' \<Longrightarrow> invariant s \<Longrightarrow> rank s' < rank s"
    and not_stuck: "invariant s \<Longrightarrow> \<not> goal s \<Longrightarrow> \<exists>s'. advance s s'"
begin

lemma advance_bounded:
  assumes "invariant s"
  shows "(advance ^^ m) s s' \<Longrightarrow> rank s' + m \<le> rank s \<and> invariant s'"
proof (induction m arbitrary: s')
  case (Suc m)
  then obtain u where u: "(advance ^^ m) s u" "advance u s'" by auto
  then show ?case
    using Suc.IH [OF u(1)] advance_rank [OF u(2)] invariant_step [OF advance_step [OF u(2)]] by simp
qed (use assms in simp)

lemma ends:
  assumes "invariant s"
  shows "always_ends advance (rank s) goal s"
  unfolding always_ends_def
proof (intro allI impI)
  fix m s' assume "(advance ^^ m) s s'"
  from advance_bounded [OF assms this] show "m \<le> rank s \<and> ((\<forall>s''. \<not> advance s' s'') \<longrightarrow> goal s')"
    using not_stuck [of s'] by auto
qed

lemma reached_ends: "reached start step s \<Longrightarrow> always_ends advance (rank s) goal s"
  by (intro ends reached_invariant)

end

text \<open>
  An infinite run in which thread \<open>who i\<close> makes step \<open>i\<close>, if any does, and in which no thread
  that could go on for ever is left out for ever (weak fairness).
\<close>

definition fair_run :: "('t \<Rightarrow> 's \<Rightarrow> 's \<Rightarrow> bool) \<Rightarrow> (nat \<Rightarrow> 's) \<Rightarrow> (nat \<Rightarrow> 't option) \<Rightarrow> bool" where
  "fair_run step run who \<longleftrightarrow>
     (\<forall>i. case who i of None \<Rightarrow> run (Suc i) = run i | Some t \<Rightarrow> step t (run i) (run (Suc i)))
     \<and> (\<forall>t i. \<exists>j \<ge> i. who j = Some t \<or> (\<forall>s'. \<not> step t (run j) s'))"

text \<open>
  In each state short of the goal one thread is helpful: it can make a step, which lowers the rank, and what the
  others do lowers the rank too or leaves the rank and the helpful thread as they are.
\<close>

locale fair_progress =
  fixes step :: "'t \<Rightarrow> 's \<Rightarrow> 's \<Rightarrow> bool" and invariant :: "'s \<Rightarrow> bool" and R :: "('r \<times> 'r) set" and rank :: "'s \<Rightarrow> 'r"
    and goal :: "'s \<Rightarrow> bool" and helpful :: "'s \<Rightarrow> 't"
  assumes step_keeps: "step t s s' \<Longrightarrow> invariant s \<Longrightarrow> invariant s'"
    and rank_wf: "wf R"
    and helpful_enabled: "invariant s \<Longrightarrow> \<not> goal s \<Longrightarrow> \<exists>s'. step (helpful s) s s'"
    and rank_step: "step t s s' \<Longrightarrow> invariant s \<Longrightarrow> \<not> goal s \<Longrightarrow> \<not> goal s' \<Longrightarrow>
      (rank s', rank s) \<in> R \<or> rank s' = rank s \<and> helpful s' = helpful s \<and> t \<noteq> helpful s"
begin

lemma fair_run_invariant: "fair_run step run who \<Longrightarrow> invariant (run 0) \<Longrightarrow> invariant (run i)"
proof (induction i)
  case (Suc i)
  have "case who i of None \<Rightarrow> run (Suc i) = run i | Some t \<Rightarrow> step t (run i) (run (Suc i))"
    using Suc.prems(1) unfolding fair_run_def by blast
  then show ?case using Suc step_keeps by (cases "who i") auto
qed

lemma fair_run_lower:
  assumes run: "fair_run step run who" "invariant (run 0)" and never: "\<And>i. \<not> goal (run i)"
  shows "\<exists>k. (rank (run k), rank (run i)) \<in> R"
proof (rule ccontr)
  assume "\<nexists>k. (rank (run k), rank (run i)) \<in> R"
  then have no: "(rank (run k), rank (run i)) \<notin> R" for k by blast
  have moves: "run (Suc k) = run k \<and> who k = None \<or> (\<exists>t. who k = Some t \<and> step t (run k) (run (Suc k)))" for k
    using run(1) unfolding fair_run_def by (cases "who k") (metis option.simps(4), metis option.simps(5))
  have inv: "invariant (run k)" for k by (rule fair_run_invariant [OF run])
  have same: "rank (run (i + k)) = rank (run i) \<and> helpful (run (i + k)) = helpful (run i)" for k
  proof (induction k)
    case (Suc k)
    then show ?case using moves [of "i + k"] rank_step [OF _ inv never never] no [of "Suc (i + k)"] by (metis add_Suc_right)
  qed simp
  obtain j where j: "i \<le> j" "who j = Some (helpful (run i)) \<or> (\<forall>s'. \<not> step (helpful (run i)) (run j) s')"
    using run(1) unfolding fair_run_def by blast
  have h: "rank (run j) = rank (run i)" "helpful (run j) = helpful (run i)" using same [of "j - i"] j(1) by simp_all
  then have "who j = Some (helpful (run j))" using j(2) helpful_enabled [OF inv never, of j] by metis
  then have "step (helpful (run j)) (run j) (run (Suc j))" using moves [of j] by auto
  from rank_step [OF this inv never never] show False using no [of "Suc j"] h(1) by simp
qed

lemma fair_goal:
  assumes "fair_run step run who" "invariant (run 0)"
  shows "\<exists>i. goal (run i)"
proof (rule ccontr)
  assume "\<nexists>i. goal (run i)"
  then have never: "\<not> goal (run i)" for i by blast
  have "\<forall>i. rank (run i) \<noteq> r" for r
  proof (induction r rule: wf_induct_rule [OF rank_wf])
    case (1 r)
    then show ?case using fair_run_lower [OF assms never] by blast
  qed
  then show False by blast
qed

end

section \<open>Runs with events\<close>

inductive run_of :: "('e \<Rightarrow> 's \<Rightarrow> 's \<Rightarrow> bool) \<Rightarrow> 's \<Rightarrow> 'e list \<Rightarrow> 's \<Rightarrow> bool" for step s0 where
  run_start: "run_of step s0 [] s0"
| run_step: "run_of step s0 es s \<Longrightarrow> step e s s' \<Longrightarrow> run_of step s0 (es @ [e]) s'"

text \<open>A forward simulation: whatever events the detailed steps have, the abstract ones can have.\<close>

locale simulation =
  fixes cstep :: "'e \<Rightarrow> 's \<Rightarrow> 's \<Rightarrow> bool" and astep :: "'e \<Rightarrow> 'a \<Rightarrow> 'a \<Rightarrow> bool" and related :: "'s \<Rightarrow> 'a \<Rightarrow> bool"
  assumes simulated: "related c a \<Longrightarrow> cstep e c c' \<Longrightarrow> \<exists>a'. related c' a' \<and> astep e a a'"
begin

lemma run_simulated:
  assumes "related c0 a0" "run_of cstep c0 es c"
  shows "\<exists>a. related c a \<and> run_of astep a0 es a"
  using assms(2)
proof induction
  case run_start
  show ?case using assms(1) run_of.run_start [of astep a0] by blast
next
  case (run_step es c e c')
  from run_step.IH obtain a where a: "related c a" "run_of astep a0 es a" by blast
  from simulated [OF a(1) run_step.hyps(2)] obtain a' where a': "related c' a'" "astep e a a'" by blast
  with run_of.run_step [OF a(2) a'(2)] show ?case by blast
qed

end

section \<open>Sums over threads\<close>

definition threads_sum :: "('p \<Rightarrow> nat) \<Rightarrow> nat \<Rightarrow> nat \<Rightarrow> (nat \<Rightarrow> 'p) \<Rightarrow> nat" where
  "threads_sum g lo hi place = (\<Sum>t = lo..<hi. g (place t))"

lemma threads_sum_move:
  assumes "lo \<le> t" "t < hi"
  shows "threads_sum g lo hi (place(t := p)) + g (place t) = threads_sum g lo hi place + g p"
proof -
  have t: "t \<in> {lo..<hi}" using assms by simp
  have "(\<Sum>u = lo..<hi. g (place u)) = g (place t) + (\<Sum>u \<in> {lo..<hi} - {t}. g (place u))"
    by (rule sum.remove) (use t in simp_all)
  moreover have "(\<Sum>u = lo..<hi. g ((place(t := p)) u)) = g p + (\<Sum>u \<in> {lo..<hi} - {t}. g (place u))"
    using sum.remove [of "{lo..<hi}" t "\<lambda>u. g ((place(t := p)) u)"] t by simp
  ultimately show ?thesis by (simp add: threads_sum_def)
qed

lemma threads_sum_same: "lo \<le> t \<Longrightarrow> t < hi \<Longrightarrow> g p = g (place t) \<Longrightarrow> threads_sum g lo hi (place(t := p)) = threads_sum g lo hi place"
  using threads_sum_move [of lo t hi g place p] by simp

lemma threads_sum_less: "lo \<le> t \<Longrightarrow> t < hi \<Longrightarrow> g p < g (place t) \<Longrightarrow> threads_sum g lo hi (place(t := p)) < threads_sum g lo hi place"
  using threads_sum_move [of lo t hi g place p] by simp

lemma threads_sum_up: "lo \<le> t \<Longrightarrow> t < hi \<Longrightarrow> g p = Suc (g (place t)) \<Longrightarrow>
    threads_sum g lo hi (place(t := p)) = Suc (threads_sum g lo hi place)"
  using threads_sum_move [of lo t hi g place p] by simp

lemma threads_sum_down: "lo \<le> t \<Longrightarrow> t < hi \<Longrightarrow> g (place t) = Suc (g p) \<Longrightarrow>
    threads_sum g lo hi place = Suc (threads_sum g lo hi (place(t := p)))"
  using threads_sum_move [of lo t hi g place p] by simp

lemma threads_sum_extend: "lo \<le> hi \<Longrightarrow> threads_sum g lo (Suc hi) (place(hi := p)) = threads_sum g lo hi place + g p"
proof -
  have "(\<Sum>t = lo..<hi. g ((place(hi := p)) t)) = (\<Sum>t = lo..<hi. g (place t))" by (rule sum.cong) simp_all
  then show "lo \<le> hi \<Longrightarrow> ?thesis" by (simp add: threads_sum_def)
qed

lemma threads_sum_member: "lo \<le> t \<Longrightarrow> t < hi \<Longrightarrow> g (place t) \<le> threads_sum g lo hi place"
  unfolding threads_sum_def using member_le_sum [of t "{lo..<hi}" "\<lambda>u. g (place u)"] by simp

lemma threads_sum_0: "threads_sum g lo hi place = 0 \<longleftrightarrow> (\<forall>t. lo \<le> t \<and> t < hi \<longrightarrow> g (place t) = 0)"
  by (auto simp: threads_sum_def)

lemma threads_sum_mono: "(\<And>t. lo \<le> t \<Longrightarrow> t < hi \<Longrightarrow> g (place t) \<le> h (place' t)) \<Longrightarrow> threads_sum g lo hi place \<le> threads_sum h lo hi place'"
  unfolding threads_sum_def by (rule sum_mono) simp

lemma threads_sum_const: "threads_sum (\<lambda>_. c) lo hi place = (hi - lo) * c"
  by (simp add: threads_sum_def)

lemma threads_sum_add: "threads_sum (\<lambda>p. g p + h p) lo hi place = threads_sum g lo hi place + threads_sum h lo hi place"
  by (simp add: threads_sum_def sum.distrib)

lemma threads_sum_empty [simp]: "threads_sum g lo lo place = 0"
  by (simp add: threads_sum_def)

lemma threads_sum_cong: "(\<And>t. lo \<le> t \<Longrightarrow> t < hi \<Longrightarrow> g (place t) = h (place' t)) \<Longrightarrow> threads_sum g lo hi place = threads_sum h lo hi place'"
  unfolding threads_sum_def by (rule sum.cong) simp_all

end
