(* ===== verification/ConcurrentQueue.thy ===== *)
theory ConcurrentQueue
  imports RunQueue Interleaving
begin

text \<open>
  The work queue of RunQueue in use by two threads at the same time: its owner, who pushes and pops at the front
  without a lock, and whoever holds \<open>mutex_\<close> and pushes, pops or revokes at the back. A step is one access to
  an atomic member (\<open>front_\<close>, \<open>back_\<close>, the state of an element; a compare-and-exchange is one access), or the
  accesses to the other members of an element between two of those. The threads see one order of all steps.
  The theory shows that the queue is linearizable: every run is one of the deque of live items in which each
  call takes effect at one moment between its call and its return, or not at all.
\<close>

section \<open>Calls, answers, events\<close>

datatype side = Front | Back

datatype 'w answer = Given "'w option" | Done bool

text \<open>What a thread is about: a call that has not had its effect, or the answer after it.\<close>

datatype 'w status = Resting | Push nat 'w | Pop | Revoke nat | Answer "'w answer"

datatype 'w event = Quiet | Call side "'w status" | Point side | Return side "'w answer"

section \<open>The owner\<close>

text \<open>The places in \<open>PushFront\<close> and \<open>PopFront\<close>, with the local variables that are still needed: the copy of
  \<open>front_\<close>, the work to push, the work taken. At each place stands what is done next.\<close>

datatype 'w front_pc =
    F_rest
  | F_push 'w
  | F_push_cas "32 word" 'w
  | F_push_index "32 word" 'w
  | F_push_fill "32 word" 'w
  | F_push_ready "32 word"
  | F_pop
  | F_drain_cas "32 word"
  | F_drain_empty "32 word"
  | F_drain_index "32 word"
  | F_take_cas "32 word"
  | F_take "32 word"
  | F_take_empty "32 word" "'w option"
  | F_take_index "32 word" "'w option"

definition slot :: "nat \<Rightarrow> 32 word \<Rightarrow> nat" where
  "slot k x = unat (x AND kMask k)"

definition set_elem :: "nat \<Rightarrow> ('w elem \<Rightarrow> 'w elem) \<Rightarrow> 'w run_queue \<Rightarrow> 'w run_queue" where
  "set_elem i f q = q\<lparr>rq_array := (rq_array q)[i := f (rq_array q ! i)]\<rparr>"

definition set_state :: "nat \<Rightarrow> elem_state \<Rightarrow> 'w run_queue \<Rightarrow> 'w run_queue" where
  "set_state i s = set_elem i (\<lambda>e. e\<lparr>el_state := s\<rparr>)"

definition state_at :: "nat \<Rightarrow> 'w run_queue \<Rightarrow> elem_state" where
  "state_at i q = el_state (rq_array q ! i)"

text \<open>After a pop has loaded the state of its element, or a failed exchange has: the end of the call, or the attempt to take it.\<close>

definition front_loaded :: "32 word \<Rightarrow> elem_state \<Rightarrow> 'w run_queue \<Rightarrow> 'w front_pc \<times> 'w run_queue \<times> 'w event" where
  "front_loaded front s q = (if s = kReady then (F_take_cas front, q, Quiet) else (F_rest, q, Return Front (Given None)))"

fun front_step :: "nat \<Rightarrow> 'w front_pc \<Rightarrow> 'w run_queue \<Rightarrow> 'w front_pc \<times> 'w run_queue \<times> 'w event" where
  "front_step k F_rest q = (F_rest, q, Quiet)"
| "front_step k (F_push w) q =
     (let front = rq_front q in
      if state_at (slot k front) q \<noteq> kEmpty then (F_rest, q, Return Front (Given (Some w)))
      else (F_push_cas front w, q, Quiet))"
| "front_step k (F_push_cas front w) q =
     (if state_at (slot k front) q = kEmpty then (F_push_index front w, set_state (slot k front) kBusy q, Quiet)
      else (F_rest, q, Return Front (Given (Some w))))"
| "front_step k (F_push_index front w) q = (F_push_fill front w, q\<lparr>rq_front := bump k front\<rparr>, Quiet)"
| "front_step k (F_push_fill front w) q =
     (F_push_ready front, set_elem (slot k front) (\<lambda>e. e\<lparr>el_w := Some w, el_tag := 0\<rparr>) q, Point Front)"
| "front_step k (F_push_ready front) q = (F_rest, set_state (slot k front) kReady q, Return Front (Given None))"
| "front_step k F_pop q =
     (let front = rq_front q; s = state_at (slot k (front - 1)) q in
      if s = kRevoked then (F_drain_cas front, q, Quiet) else front_loaded front s q)"
| "front_step k (F_drain_cas front) q =
     (let s = state_at (slot k (front - 1)) q in
      if s = kRevoked then (F_drain_empty front, set_state (slot k (front - 1)) kBusy q, Quiet)
      else front_loaded front s q)"
| "front_step k (F_drain_empty front) q = (F_drain_index front, set_state (slot k (front - 1)) kEmpty q, Quiet)"
| "front_step k (F_drain_index front) q = (F_pop, q\<lparr>rq_front := retreat k front\<rparr>, Quiet)"
| "front_step k (F_take_cas front) q =
     (if state_at (slot k (front - 1)) q = kReady then (F_take front, set_state (slot k (front - 1)) kBusy q, Quiet)
      else (F_rest, q, Return Front (Given None)))"
| "front_step k (F_take front) q =
     (F_take_empty front (el_w (rq_array q ! slot k (front - 1))),
      set_elem (slot k (front - 1)) (\<lambda>e. e\<lparr>el_w := None, el_tag := 0\<rparr>) q, Point Front)"
| "front_step k (F_take_empty front r) q = (F_take_index front r, set_state (slot k (front - 1)) kEmpty q, Quiet)"
| "front_step k (F_take_index front r) q = (F_rest, q\<lparr>rq_front := retreat k front\<rparr>, Return Front (Given r))"

section \<open>The holder of the mutex\<close>

text \<open>\<open>PushBack\<close> is \<open>PushBackWithTag\<close> with the default tag 0. \<open>PopBack\<close> tests \<open>Empty\<close> before it takes the
  mutex; from what the test has read nothing follows any more, so here it is a call that may as well not happen. The
  slot that \<open>PushBackWithTag\<close> reports in \<open>w_idx\<close> is in RunQueue; a revocation may name any slot.\<close>

datatype 'w back_pc =
    B_rest
  | B_push nat 'w
  | B_push_cas "32 word" nat 'w
  | B_push_index "32 word" nat 'w
  | B_push_fill "32 word" nat 'w
  | B_push_ready "32 word"
  | B_pop
  | B_drain_cas "32 word"
  | B_drain_empty "32 word"
  | B_drain_index "32 word"
  | B_take_cas "32 word"
  | B_take "32 word"
  | B_take_empty "32 word" "'w option"
  | B_take_index "32 word" "'w option"
  | B_revoke nat nat
  | B_revoke_cas nat nat
  | B_revoke_test nat nat
  | B_put_back nat nat
  | B_mark nat
  | B_revoke_empty "32 word" nat
  | B_revoke_index "32 word"

definition back_loaded :: "32 word \<Rightarrow> elem_state \<Rightarrow> 'w run_queue \<Rightarrow> 'w back_pc \<times> 'w run_queue \<times> 'w event" where
  "back_loaded back s q = (if s = kReady then (B_take_cas back, q, Quiet) else (B_rest, q, Return Back (Given None)))"

fun back_step :: "nat \<Rightarrow> 'w back_pc \<Rightarrow> 'w run_queue \<Rightarrow> 'w back_pc \<times> 'w run_queue \<times> 'w event" where
  "back_step k B_rest q = (B_rest, q, Quiet)"
| "back_step k (B_push tag w) q =
     (let back = rq_back q in
      if state_at (slot k (back - 1)) q \<noteq> kEmpty then (B_rest, q, Return Back (Given (Some w)))
      else (B_push_cas back tag w, q, Quiet))"
| "back_step k (B_push_cas back tag w) q =
     (if state_at (slot k (back - 1)) q = kEmpty then (B_push_index back tag w, set_state (slot k (back - 1)) kBusy q, Quiet)
      else (B_rest, q, Return Back (Given (Some w))))"
| "back_step k (B_push_index back tag w) q = (B_push_fill back tag w, q\<lparr>rq_back := retreat k back\<rparr>, Quiet)"
| "back_step k (B_push_fill back tag w) q =
     (B_push_ready back, set_elem (slot k (back - 1)) (\<lambda>e. e\<lparr>el_w := Some w, el_tag := tag\<rparr>) q, Point Back)"
| "back_step k (B_push_ready back) q = (B_rest, set_state (slot k (back - 1)) kReady q, Return Back (Given None))"
| "back_step k B_pop q =
     (let back = rq_back q; s = state_at (slot k back) q in
      if s = kRevoked then (B_drain_cas back, q, Quiet) else back_loaded back s q)"
| "back_step k (B_drain_cas back) q =
     (let s = state_at (slot k back) q in
      if s = kRevoked then (B_drain_empty back, set_state (slot k back) kBusy q, Quiet)
      else back_loaded back s q)"
| "back_step k (B_drain_empty back) q = (B_drain_index back, set_state (slot k back) kEmpty q, Quiet)"
| "back_step k (B_drain_index back) q = (B_pop, q\<lparr>rq_back := bump k back\<rparr>, Quiet)"
| "back_step k (B_take_cas back) q =
     (if state_at (slot k back) q = kReady then (B_take back, set_state (slot k back) kBusy q, Quiet)
      else (B_rest, q, Return Back (Given None)))"
| "back_step k (B_take back) q =
     (B_take_empty back (el_w (rq_array q ! slot k back)),
      set_elem (slot k back) (\<lambda>e. e\<lparr>el_w := None, el_tag := 0\<rparr>) q, Point Back)"
| "back_step k (B_take_empty back r) q = (B_take_index back r, set_state (slot k back) kEmpty q, Quiet)"
| "back_step k (B_take_index back r) q = (B_rest, q\<lparr>rq_back := bump k back\<rparr>, Return Back (Given r))"
| "back_step k (B_revoke tag w_idx) q =
     (if state_at w_idx q = kReady then (B_revoke_cas tag w_idx, q, Quiet) else (B_rest, q, Return Back (Done False)))"
| "back_step k (B_revoke_cas tag w_idx) q =
     (if state_at w_idx q = kReady then (B_revoke_test tag w_idx, set_state w_idx kBusy q, Quiet)
      else (B_rest, q, Return Back (Done False)))"
| "back_step k (B_revoke_test tag w_idx) q =
     (if el_tag (rq_array q ! w_idx) = tag then
        (if slot k (rq_back q) \<noteq> w_idx then B_mark w_idx else B_revoke_empty (rq_back q) w_idx,
         set_elem w_idx (\<lambda>e. e\<lparr>el_tag := 0, el_w := None\<rparr>) q, Point Back)
      else (B_put_back tag w_idx, q, Quiet))"
| "back_step k (B_put_back tag w_idx) q = (B_rest, set_state w_idx kReady q, Return Back (Done False))"
| "back_step k (B_mark w_idx) q = (B_rest, set_state w_idx kRevoked q, Return Back (Done True))"
| "back_step k (B_revoke_empty back w_idx) q = (B_revoke_index back, set_state w_idx kEmpty q, Quiet)"
| "back_step k (B_revoke_index back) q = (B_rest, q\<lparr>rq_back := bump k back\<rparr>, Return Back (Done True))"

section \<open>Both at once\<close>

record 'w shared =
  sh_queue :: "'w run_queue"
  sh_front :: "'w front_pc"
  sh_back :: "'w back_pc"

definition new_shared :: "nat \<Rightarrow> 'w shared" where
  "new_shared k = \<lparr>sh_queue = RunQueue k, sh_front = F_rest, sh_back = B_rest\<rparr>"

inductive shared_step :: "nat \<Rightarrow> 'w event \<Rightarrow> 'w shared \<Rightarrow> 'w shared \<Rightarrow> bool" for k where
  call_push_front: "sh_front s = F_rest \<Longrightarrow> shared_step k (Call Front (Push 0 w)) s (s\<lparr>sh_front := F_push w\<rparr>)"
| call_pop_front: "sh_front s = F_rest \<Longrightarrow> shared_step k (Call Front Pop) s (s\<lparr>sh_front := F_pop\<rparr>)"
| call_push_back: "sh_back s = B_rest \<Longrightarrow> shared_step k (Call Back (Push tag w)) s (s\<lparr>sh_back := B_push tag w\<rparr>)"
| call_pop_back: "sh_back s = B_rest \<Longrightarrow> shared_step k (Call Back Pop) s (s\<lparr>sh_back := B_pop\<rparr>)"
| call_revoke: "sh_back s = B_rest \<Longrightarrow> w_idx < 2 ^ k \<Longrightarrow>
    shared_step k (Call Back (Revoke tag)) s (s\<lparr>sh_back := B_revoke tag w_idx\<rparr>)"
| move_front: "front_step k (sh_front s) (sh_queue s) = (f, q, e) \<Longrightarrow> sh_front s \<noteq> F_rest \<Longrightarrow>
    shared_step k e s (s\<lparr>sh_front := f, sh_queue := q\<rparr>)"
| move_back: "back_step k (sh_back s) (sh_queue s) = (b, q, e) \<Longrightarrow> sh_back s \<noteq> B_rest \<Longrightarrow>
    shared_step k e s (s\<lparr>sh_back := b, sh_queue := q\<rparr>)"

section \<open>The deque used by two threads\<close>

text \<open>What the calls do to the live items, back first, at the moment they take effect, and what they answer.\<close>

fun effect :: "side \<Rightarrow> 'w status \<Rightarrow> (nat \<times> 'w) list \<Rightarrow> (nat \<times> 'w) list \<Rightarrow> 'w answer \<Rightarrow> bool" where
  "effect Front (Push tag w) xs ys a \<longleftrightarrow> ys = xs @ [(tag, w)] \<and> a = Given None"
| "effect Back (Push tag w) xs ys a \<longleftrightarrow> ys = (tag, w) # xs \<and> a = Given None"
| "effect Front Pop xs ys a \<longleftrightarrow> (\<exists>tag w. xs = ys @ [(tag, w)] \<and> a = Given (Some w))"
| "effect Back Pop xs ys a \<longleftrightarrow> (\<exists>tag w. xs = (tag, w) # ys \<and> a = Given (Some w))"
| "effect Back (Revoke tag) xs ys a \<longleftrightarrow>
     (\<exists>before w after. xs = before @ (tag, w) # after \<and> ys = before @ after) \<and> a = Done True"
| "effect _ _ xs ys a \<longleftrightarrow> False"

text \<open>The answers of a call that had no effect.\<close>

fun refused :: "'w status \<Rightarrow> 'w answer \<Rightarrow> bool" where
  "refused (Push tag w) a \<longleftrightarrow> a = Given (Some w)"
| "refused Pop a \<longleftrightarrow> a = Given None"
| "refused (Revoke tag) a \<longleftrightarrow> a = Done False"
| "refused _ a \<longleftrightarrow> False"

fun is_call :: "side \<Rightarrow> 'w status \<Rightarrow> bool" where
  "is_call sd (Push tag w) \<longleftrightarrow> sd = Back \<or> tag = 0"
| "is_call sd Pop \<longleftrightarrow> True"
| "is_call sd (Revoke tag) \<longleftrightarrow> sd = Back"
| "is_call sd _ \<longleftrightarrow> False"

inductive deque_step :: "'w event \<Rightarrow> (nat \<times> 'w) list \<times> (side \<Rightarrow> 'w status) \<Rightarrow> (nat \<times> 'w) list \<times> (side \<Rightarrow> 'w status) \<Rightarrow> bool"
  where
  dq_quiet: "deque_step Quiet (xs, st) (xs, st)"
| dq_call: "st sd = Resting \<Longrightarrow> is_call sd c \<Longrightarrow> deque_step (Call sd c) (xs, st) (xs, st(sd := c))"
| dq_point: "effect sd (st sd) xs ys a \<Longrightarrow> deque_step (Point sd) (xs, st) (ys, st(sd := Answer a))"
| dq_return: "st sd = Answer a \<or> refused (st sd) a \<Longrightarrow> deque_step (Return sd a) (xs, st) (xs, st(sd := Resting))"

section \<open>The cells of the ring\<close>

text \<open>A cell between the two ends: an item, in nobody's hands or in those of the owner or of the holder of the
  mutex, or an element in their hands with nothing in it.\<close>

datatype 'w cell = Free "'w item" | FHeld nat 'w | BHeld nat 'w | FBusy | BBusy

fun cell_holds :: "'w elem \<Rightarrow> 'w cell option \<Rightarrow> bool" where
  "cell_holds e None \<longleftrightarrow> el_state e = kEmpty"
| "cell_holds e (Some (Free x)) \<longleftrightarrow> holds e (Some x)"
| "cell_holds e (Some (FHeld tag w)) \<longleftrightarrow> el_state e = kBusy \<and> el_tag e = tag \<and> el_w e = Some w"
| "cell_holds e (Some (BHeld tag w)) \<longleftrightarrow> el_state e = kBusy \<and> el_tag e = tag \<and> el_w e = Some w"
| "cell_holds e (Some _) \<longleftrightarrow> el_state e = kBusy"

fun cell_live :: "'w cell \<Rightarrow> (nat \<times> 'w) list" where
  "cell_live (Free (Ready tag w)) = [(tag, w)]"
| "cell_live (FHeld tag w) = [(tag, w)]"
| "cell_live (BHeld tag w) = [(tag, w)]"
| "cell_live _ = []"

definition live_cells :: "'w cell list \<Rightarrow> (nat \<times> 'w) list" where
  "live_cells cs = concat (map cell_live cs)"

lemma live_cells_simps [simp]:
  "live_cells [] = []" "live_cells (c # cs) = cell_live c @ live_cells cs"
  "live_cells (cs @ ds) = live_cells cs @ live_cells ds"
  by (simp_all add: live_cells_def)

fun is_front :: "'w cell \<Rightarrow> bool" where
  "is_front (FHeld tag w) = True" | "is_front FBusy = True" | "is_front _ = False"

fun is_back :: "'w cell \<Rightarrow> bool" where
  "is_back (BHeld tag w) = True" | "is_back BBusy = True" | "is_back _ = False"

abbreviation no_front :: "'w cell list \<Rightarrow> bool" where
  "no_front cs \<equiv> \<forall>c \<in> set cs. \<not> is_front c"

abbreviation no_back :: "'w cell list \<Rightarrow> bool" where
  "no_back cs \<equiv> \<forall>c \<in> set cs. \<not> is_back c"

text \<open>The state of an element tells the kind of its cell.\<close>

lemma cell_state:
  "cell_holds e x \<Longrightarrow> (el_state e = kEmpty \<longleftrightarrow> x = None) \<and>
     (el_state e = kRevoked \<longleftrightarrow> x = Some (Free Revoked)) \<and>
     (el_state e = kReady \<longleftrightarrow> (\<exists>tag w. x = Some (Free (Ready tag w)))) \<and>
     (el_state e = kBusy \<longleftrightarrow> (\<exists>c. x = Some c \<and> (is_front c \<or> is_back c)))"
  by (cases "(e, x)" rule: cell_holds.cases; auto simp: ready_elem_def elim!: holds.elims)

lemma cell_holds_free: "cell_holds e (Some (Free (Ready tag w))) \<Longrightarrow> el_tag e = tag \<and> el_w e = Some w \<and> el_state e = kReady"
  by (simp add: ready_elem_def)

section \<open>What the threads hold\<close>

text \<open>The indices as they will be after the store that is still to be done, for an element that has been taken or
  given back already.\<close>

fun front_seen :: "nat \<Rightarrow> 'w front_pc \<Rightarrow> 32 word \<Rightarrow> 32 word" where
  "front_seen k (F_push_index front w) x = bump k x"
| "front_seen k (F_drain_index front) x = retreat k x"
| "front_seen k (F_take_index front r) x = retreat k x"
| "front_seen k _ x = x"

fun back_seen :: "nat \<Rightarrow> 'w back_pc \<Rightarrow> 32 word \<Rightarrow> 32 word" where
  "back_seen k (B_push_index back tag w) x = retreat k x"
| "back_seen k (B_drain_index back) x = bump k x"
| "back_seen k (B_take_index back r) x = bump k x"
| "back_seen k (B_revoke_index back) x = bump k x"
| "back_seen k _ x = x"

definition seen :: "nat \<Rightarrow> 'w shared \<Rightarrow> 'w run_queue" where
  "seen k s = (sh_queue s)\<lparr>rq_front := front_seen k (sh_front s) (rq_front (sh_queue s)),
     rq_back := back_seen k (sh_back s) (rq_back (sh_queue s))\<rparr>"

text \<open>The local copies of the indices.\<close>

fun front_copy :: "nat \<Rightarrow> 'w front_pc \<Rightarrow> 32 word \<Rightarrow> bool" where
  "front_copy k (F_push_cas front w) x \<longleftrightarrow> front = x"
| "front_copy k (F_push_index front w) x \<longleftrightarrow> front = x"
| "front_copy k (F_push_fill front w) x \<longleftrightarrow> bump k front = x"
| "front_copy k (F_push_ready front) x \<longleftrightarrow> bump k front = x"
| "front_copy k (F_drain_cas front) x \<longleftrightarrow> front = x"
| "front_copy k (F_drain_empty front) x \<longleftrightarrow> front = x"
| "front_copy k (F_drain_index front) x \<longleftrightarrow> front = x"
| "front_copy k (F_take_cas front) x \<longleftrightarrow> front = x"
| "front_copy k (F_take front) x \<longleftrightarrow> front = x"
| "front_copy k (F_take_empty front r) x \<longleftrightarrow> front = x"
| "front_copy k (F_take_index front r) x \<longleftrightarrow> front = x"
| "front_copy k _ x \<longleftrightarrow> True"

fun back_copy :: "nat \<Rightarrow> 'w back_pc \<Rightarrow> 32 word \<Rightarrow> bool" where
  "back_copy k (B_push_cas back tag w) x \<longleftrightarrow> back = x"
| "back_copy k (B_push_index back tag w) x \<longleftrightarrow> back = x"
| "back_copy k (B_push_fill back tag w) x \<longleftrightarrow> retreat k back = x"
| "back_copy k (B_push_ready back) x \<longleftrightarrow> retreat k back = x"
| "back_copy k (B_drain_cas back) x \<longleftrightarrow> back = x"
| "back_copy k (B_drain_empty back) x \<longleftrightarrow> back = x"
| "back_copy k (B_drain_index back) x \<longleftrightarrow> back = x"
| "back_copy k (B_take_cas back) x \<longleftrightarrow> back = x"
| "back_copy k (B_take back) x \<longleftrightarrow> back = x"
| "back_copy k (B_take_empty back r) x \<longleftrightarrow> back = x"
| "back_copy k (B_take_index back r) x \<longleftrightarrow> back = x"
| "back_copy k (B_revoke tag w_idx) x \<longleftrightarrow> w_idx < 2 ^ k"
| "back_copy k (B_revoke_cas tag w_idx) x \<longleftrightarrow> w_idx < 2 ^ k"
| "back_copy k (B_revoke_empty back w_idx) x \<longleftrightarrow> back = x \<and> w_idx = slot k back"
| "back_copy k (B_revoke_index back) x \<longleftrightarrow> back = x"
| "back_copy k _ x \<longleftrightarrow> True"

text \<open>The cells in the hands of each thread: at most one. The owner's is the last.\<close>

fun front_view :: "'w front_pc \<Rightarrow> 'w cell list \<Rightarrow> bool" where
  "front_view (F_push_index front w) cs \<longleftrightarrow> (\<exists>ds. cs = ds @ [FBusy] \<and> no_front ds)"
| "front_view (F_push_fill front w) cs \<longleftrightarrow> (\<exists>ds. cs = ds @ [FBusy] \<and> no_front ds)"
| "front_view (F_push_ready front) cs \<longleftrightarrow> (\<exists>w ds. cs = ds @ [FHeld 0 w] \<and> no_front ds)"
| "front_view (F_drain_empty front) cs \<longleftrightarrow> (\<exists>ds. cs = ds @ [FBusy] \<and> no_front ds)"
| "front_view (F_take front) cs \<longleftrightarrow> (\<exists>tag w ds. cs = ds @ [FHeld tag w] \<and> no_front ds)"
| "front_view (F_take_empty front r) cs \<longleftrightarrow> (\<exists>ds. cs = ds @ [FBusy] \<and> no_front ds)"
| "front_view _ cs \<longleftrightarrow> no_front cs"

text \<open>That of the holder of the mutex is the first, or has the slot it revokes.\<close>

fun back_view :: "nat \<Rightarrow> nat \<Rightarrow> 'w back_pc \<Rightarrow> 'w cell list \<Rightarrow> bool" where
  "back_view k b (B_push_index back tag w) cs \<longleftrightarrow> (\<exists>ds. cs = BBusy # ds \<and> no_back ds)"
| "back_view k b (B_push_fill back tag w) cs \<longleftrightarrow> (\<exists>ds. cs = BBusy # ds \<and> no_back ds)"
| "back_view k b (B_push_ready back) cs \<longleftrightarrow> (\<exists>tag w ds. cs = BHeld tag w # ds \<and> no_back ds)"
| "back_view k b (B_drain_empty back) cs \<longleftrightarrow> (\<exists>ds. cs = BBusy # ds \<and> no_back ds)"
| "back_view k b (B_take back) cs \<longleftrightarrow> (\<exists>tag w ds. cs = BHeld tag w # ds \<and> no_back ds)"
| "back_view k b (B_take_empty back r) cs \<longleftrightarrow> (\<exists>ds. cs = BBusy # ds \<and> no_back ds)"
| "back_view k b (B_revoke_test tag w_idx) cs \<longleftrightarrow> (\<exists>tag w ds es. cs = ds @ BHeld tag w # es \<and>
     w_idx = (b + length ds) mod 2 ^ k \<and> no_back ds \<and> no_back es)"
| "back_view k b (B_put_back tag w_idx) cs \<longleftrightarrow> (\<exists>tag w ds es. cs = ds @ BHeld tag w # es \<and>
     w_idx = (b + length ds) mod 2 ^ k \<and> no_back ds \<and> no_back es)"
| "back_view k b (B_mark w_idx) cs \<longleftrightarrow> (\<exists>ds es. cs = ds @ BBusy # es \<and>
     w_idx = (b + length ds) mod 2 ^ k \<and> no_back ds \<and> no_back es)"
| "back_view k b (B_revoke_empty back w_idx) cs \<longleftrightarrow> (\<exists>ds. cs = BBusy # ds \<and> no_back ds)"
| "back_view k b _ cs \<longleftrightarrow> no_back cs"

definition shared_rep :: "nat \<Rightarrow> 'w shared \<Rightarrow> 'w cell list \<Rightarrow> bool" where
  "shared_rep k s cs \<longleftrightarrow> rep_by cell_holds k (seen k s) cs
     \<and> front_copy k (sh_front s) (rq_front (sh_queue s)) \<and> back_copy k (sh_back s) (rq_back (sh_queue s))
     \<and> front_view (sh_front s) cs \<and> back_view k (unat (rq_back (seen k s))) (sh_back s) cs"

fun front_status :: "'w front_pc \<Rightarrow> 'w status" where
  "front_status F_rest = Resting"
| "front_status (F_push w) = Push 0 w"
| "front_status (F_push_cas front w) = Push 0 w"
| "front_status (F_push_index front w) = Push 0 w"
| "front_status (F_push_fill front w) = Push 0 w"
| "front_status (F_push_ready front) = Answer (Given None)"
| "front_status (F_take_empty front r) = Answer (Given r)"
| "front_status (F_take_index front r) = Answer (Given r)"
| "front_status _ = Pop"

fun back_status :: "'w back_pc \<Rightarrow> 'w status" where
  "back_status B_rest = Resting"
| "back_status (B_push tag w) = Push tag w"
| "back_status (B_push_cas back tag w) = Push tag w"
| "back_status (B_push_index back tag w) = Push tag w"
| "back_status (B_push_fill back tag w) = Push tag w"
| "back_status (B_push_ready back) = Answer (Given None)"
| "back_status (B_take_empty back r) = Answer (Given r)"
| "back_status (B_take_index back r) = Answer (Given r)"
| "back_status (B_revoke tag w_idx) = Revoke tag"
| "back_status (B_revoke_cas tag w_idx) = Revoke tag"
| "back_status (B_revoke_test tag w_idx) = Revoke tag"
| "back_status (B_put_back tag w_idx) = Revoke tag"
| "back_status (B_mark w_idx) = Answer (Done True)"
| "back_status (B_revoke_empty back w_idx) = Answer (Done True)"
| "back_status (B_revoke_index back) = Answer (Done True)"
| "back_status _ = Pop"

definition statuses :: "'w shared \<Rightarrow> side \<Rightarrow> 'w status" where
  "statuses s = (\<lambda>sd. case sd of Front \<Rightarrow> front_status (sh_front s) | Back \<Rightarrow> back_status (sh_back s))"

lemma statuses_simps [simp]: "statuses s Front = front_status (sh_front s)" "statuses s Back = back_status (sh_back s)"
  by (simp_all add: statuses_def)

lemma statuses_update:
  "statuses (s\<lparr>sh_front := f\<rparr>) = (statuses s)(Front := front_status f)"
  "statuses (s\<lparr>sh_back := b\<rparr>) = (statuses s)(Back := back_status b)"
  "statuses (s\<lparr>sh_queue := q\<rparr>) = statuses s"
  by (rule ext, simp add: statuses_def split: side.splits)+

section \<open>Cells that come and go at the two ends\<close>

lemma front_view_Cons: "\<not> is_front c \<Longrightarrow> front_view pc cs \<Longrightarrow> front_view pc (c # cs)"
  by (cases pc) (auto simp: Cons_eq_append_conv)

lemma front_view_tl: "\<not> is_front c \<Longrightarrow> front_view pc (c # cs) \<Longrightarrow> front_view pc cs"
  by (cases pc) (auto simp: Cons_eq_append_conv)

lemma front_view_app: "no_front cs \<Longrightarrow> front_view pc (cs @ ds) \<longleftrightarrow> front_view pc ds"
  by (induction cs) (auto intro: front_view_Cons dest: front_view_tl)

lemma front_view_snoc: "front_view pc (cs @ [c]) \<longleftrightarrow> no_front cs \<and> front_view pc [c]"
  by (cases pc) auto

lemma front_view_other: "front_view pc [c] \<Longrightarrow> \<not> is_front c \<Longrightarrow> \<not> is_front c' \<Longrightarrow> front_view pc [c']"
  by (cases pc) auto

lemma front_view_swap:
  assumes "front_view pc (cs @ c # ds)" "\<not> is_front c" "\<not> is_front c'"
  shows "front_view pc (cs @ c' # ds)"
proof (cases ds rule: rev_cases)
  case Nil
  then show ?thesis using assms front_view_other [of pc c c'] by (simp add: front_view_snoc)
next
  case (snoc es d)
  then show ?thesis
    using assms front_view_snoc [of pc "cs @ c # es" d] front_view_snoc [of pc "cs @ c' # es" d] by simp
qed

lemma back_held_snoc:
  assumes "\<not> is_back c" "is_back d"
  shows "(\<exists>ds es. cs @ [c] = ds @ d # es \<and> i = f (length ds) \<and> no_back ds \<and> no_back es) \<longleftrightarrow>
    (\<exists>ds es. cs = ds @ d # es \<and> i = f (length ds) \<and> no_back ds \<and> no_back es)"
proof
  assume "\<exists>ds es. cs @ [c] = ds @ d # es \<and> i = f (length ds) \<and> no_back ds \<and> no_back es"
  then obtain ds es where d: "cs @ [c] = ds @ d # es" "i = f (length ds)" "no_back ds" "no_back es" by blast
  obtain es' where "es = es' @ [c]" using d(1) assms by (cases es rule: rev_cases) auto
  with d show "\<exists>ds es. cs = ds @ d # es \<and> i = f (length ds) \<and> no_back ds \<and> no_back es" by auto
next
  assume "\<exists>ds es. cs = ds @ d # es \<and> i = f (length ds) \<and> no_back ds \<and> no_back es"
  then obtain ds es where d: "cs = ds @ d # es" "i = f (length ds)" "no_back ds" "no_back es" by blast
  then have "cs @ [c] = ds @ d # (es @ [c])" "no_back (es @ [c])" using assms by auto
  with d show "\<exists>ds es. cs @ [c] = ds @ d # es \<and> i = f (length ds) \<and> no_back ds \<and> no_back es" by blast
qed

lemma back_first_snoc:
  assumes "\<not> is_back c" "is_back d"
  shows "(\<exists>ds. cs @ [c] = d # ds \<and> no_back ds) \<longleftrightarrow> (\<exists>ds. cs = d # ds \<and> no_back ds)"
  using assms by (cases cs) auto

lemma back_view_snoc:
  assumes "\<not> is_back c"
  shows "back_view k b pc (cs @ [c]) \<longleftrightarrow> back_view k b pc cs"
  by (cases pc)
    (simp_all only: back_view.simps back_first_snoc [OF assms] is_back.simps
      back_held_snoc [OF assms, where f = "\<lambda>n. (b + n) mod 2 ^ k"], use assms in simp_all)

section \<open>What the states of the end elements say\<close>

lemma slot_bump: "size_ok k \<Longrightarrow> slot k (bump k x - 1) = slot k x"
  unfolding slot_def unat_kMask
proof (rule Suc_mod_cancel)
  assume k: "size_ok k"
  then have "k \<le> 32" by (simp add: size_ok_def)
  then have "(unat (bump k x - 1) + 1) mod 2 ^ k = unat (bump k x) mod 2 ^ k" by (rule dec_mod)
  also have "\<dots> = (unat x + 1) mod 2 ^ k" by (rule mod_down) (rule bump_mod [OF k])
  finally show "(unat (bump k x - 1) + 1) mod 2 ^ k = (unat x + 1) mod 2 ^ k" .
qed

lemma slot_retreat: "size_ok k \<Longrightarrow> slot k (retreat k x) = slot k (x - 1)"
  unfolding slot_def unat_kMask
proof (rule Suc_mod_cancel)
  assume k: "size_ok k"
  then have k': "k \<le> 32" by (simp add: size_ok_def)
  have "(unat (retreat k x) + 1) mod 2 ^ k = unat x mod 2 ^ k" by (rule mod_down) (rule retreat_mod [OF k])
  also have "\<dots> = (unat (x - 1) + 1) mod 2 ^ k" by (rule dec_mod [OF k', symmetric])
  finally show "(unat (retreat k x) + 1) mod 2 ^ k = (unat (x - 1) + 1) mod 2 ^ k" .
qed

lemma front_free:
  assumes r: "rep_by cell_holds k q cs"
  shows "state_at (slot k (rq_front q)) q = kEmpty \<longleftrightarrow> length cs < 2 ^ k"
proof -
  have "item_at cs 0 \<noteq> None" if "\<not> length cs < 2 ^ k" using that by (cases cs) (auto simp: item_at_def)
  then show ?thesis using cell_state [OF front_item [OF r]] by (auto simp: state_at_def slot_def)
qed

lemma before_back_free:
  assumes r: "rep_by cell_holds k q cs"
  shows "state_at (slot k (rq_back q - 1)) q = kEmpty \<longleftrightarrow> length cs < 2 ^ k"
  using cell_state [OF before_back_item [OF r]] before_back_item_None [OF r] by (simp add: state_at_def slot_def)

lemma last_state:
  assumes r: "rep_by cell_holds k q cs"
  shows "state_at (slot k (rq_front q - 1)) q = kEmpty \<longleftrightarrow> cs = []"
    "state_at (slot k (rq_front q - 1)) q = kRevoked \<longleftrightarrow> (\<exists>ds. cs = ds @ [Free Revoked])"
    "state_at (slot k (rq_front q - 1)) q = kReady \<longleftrightarrow> (\<exists>ds tag w. cs = ds @ [Free (Ready tag w)])"
    "state_at (slot k (rq_front q - 1)) q = kBusy \<longleftrightarrow> (\<exists>ds c. cs = ds @ [c] \<and> (is_front c \<or> is_back c))"
  using cell_state [OF last_item [OF r]] by (cases cs rule: rev_cases; auto simp: state_at_def slot_def)+

lemma first_state:
  assumes r: "rep_by cell_holds k q cs"
  shows "state_at (slot k (rq_back q)) q = kEmpty \<longleftrightarrow> cs = []"
    "state_at (slot k (rq_back q)) q = kRevoked \<longleftrightarrow> (\<exists>ds. cs = Free Revoked # ds)"
    "state_at (slot k (rq_back q)) q = kReady \<longleftrightarrow> (\<exists>tag w ds. cs = Free (Ready tag w) # ds)"
    "state_at (slot k (rq_back q)) q = kBusy \<longleftrightarrow> (\<exists>c ds. cs = c # ds \<and> (is_front c \<or> is_back c))"
  using cell_state [OF back_item [OF r]] by (cases cs; auto simp: state_at_def slot_def item_at_def)+

text \<open>What an element is after the accesses of its owner.\<close>

lemma cell_holds_update [simp]:
  "cell_holds (e\<lparr>el_state := kBusy\<rparr>) (Some FBusy)" "cell_holds (e\<lparr>el_state := kBusy\<rparr>) (Some BBusy)"
  "cell_holds (e\<lparr>el_state := kEmpty\<rparr>) None" "cell_holds (e\<lparr>el_state := kRevoked\<rparr>) (Some (Free Revoked))"
  by simp_all

lemma cell_holds_busy:
  "cell_holds e (Some (Free (Ready tag w))) \<Longrightarrow> cell_holds (e\<lparr>el_state := kBusy\<rparr>) (Some (FHeld tag w))"
  "cell_holds e (Some (Free (Ready tag w))) \<Longrightarrow> cell_holds (e\<lparr>el_state := kBusy\<rparr>) (Some (BHeld tag w))"
  by (simp_all add: ready_elem_def)

lemma cell_holds_ready:
  "cell_holds e (Some (FHeld tag w)) \<Longrightarrow> cell_holds (e\<lparr>el_state := kReady\<rparr>) (Some (Free (Ready tag w)))"
  "cell_holds e (Some (BHeld tag w)) \<Longrightarrow> cell_holds (e\<lparr>el_state := kReady\<rparr>) (Some (Free (Ready tag w)))"
  by (cases e, simp add: ready_elem_def)+

lemma cell_holds_fill:
  "cell_holds e (Some FBusy) \<Longrightarrow> cell_holds (e\<lparr>el_w := Some w, el_tag := tag\<rparr>) (Some (FHeld tag w))"
  "cell_holds e (Some BBusy) \<Longrightarrow> cell_holds (e\<lparr>el_w := Some w, el_tag := tag\<rparr>) (Some (BHeld tag w))"
  by simp_all

lemma cell_holds_clear:
  "cell_holds e (Some (FHeld tag w)) \<Longrightarrow> cell_holds (e\<lparr>el_w := x, el_tag := t\<rparr>) (Some FBusy)"
  "cell_holds e (Some (BHeld tag w)) \<Longrightarrow> cell_holds (e\<lparr>el_w := x, el_tag := t\<rparr>) (Some BBusy)"
  "cell_holds e (Some (BHeld tag w)) \<Longrightarrow> cell_holds (e\<lparr>el_tag := t, el_w := x\<rparr>) (Some BBusy)"
  by simp_all

lemma last_holds: "rep_by h k q (cs @ [c]) \<Longrightarrow> h (rq_array q ! slot k (rq_front q - 1)) (Some c)"
  using last_item [of h k q "cs @ [c]"] by (simp add: slot_def)

lemma first_holds: "rep_by h k q (c # cs) \<Longrightarrow> h (rq_array q ! slot k (rq_back q)) (Some c)"
  using back_item [of h k q "c # cs"] by (simp add: slot_def item_at_def)

section \<open>The steps of the owner\<close>

lemma seen_simps [simp]:
  "rq_array (seen k s) = rq_array (sh_queue s)"
  "rq_front (seen k s) = front_seen k (sh_front s) (rq_front (sh_queue s))"
  "rq_back (seen k s) = back_seen k (sh_back s) (rq_back (sh_queue s))"
  by (simp_all add: seen_def)

lemma state_at_seen [simp]: "state_at i (seen k s) = state_at i (sh_queue s)"
  by (simp add: state_at_def)

lemma shared_repD:
  assumes "shared_rep k s cs"
  shows "rep_by cell_holds k (seen k s) cs" "front_copy k (sh_front s) (rq_front (sh_queue s))"
    "back_copy k (sh_back s) (rq_back (sh_queue s))" "front_view (sh_front s) cs"
    "back_view k (unat (back_seen k (sh_back s) (rq_back (sh_queue s)))) (sh_back s) cs" "size_ok k"
  using assms repD(1) [of cell_holds k "seen k s" cs] by (simp_all add: shared_rep_def)

lemma set_elem_simps [simp]:
  "rq_array (set_elem i f q) = (rq_array q)[i := f (rq_array q ! i)]" "rq_front (set_elem i f q) = rq_front q"
  "rq_back (set_elem i f q) = rq_back q"
  by (simp_all add: set_elem_def)

text \<open>What is left to show of a step of the owner.\<close>

definition front_does :: "nat \<Rightarrow> 'w shared \<Rightarrow> 'w cell list \<Rightarrow> 'w front_pc \<times> 'w run_queue \<times> 'w event \<Rightarrow> bool" where
  "front_does k s cs r \<longleftrightarrow> (case r of (f, q, e) \<Rightarrow> \<exists>cs'. shared_rep k (s\<lparr>sh_front := f, sh_queue := q\<rparr>) cs' \<and>
     deque_step e (live_cells cs, statuses s) (live_cells cs', statuses (s\<lparr>sh_front := f, sh_queue := q\<rparr>)))"

text \<open>The event agrees with what became of the live items.\<close>

fun agrees :: "side \<Rightarrow> 'w status \<Rightarrow> 'w status \<Rightarrow> 'w event \<Rightarrow> (nat \<times> 'w) list \<Rightarrow> (nat \<times> 'w) list \<Rightarrow> bool" where
  "agrees sd c c' Quiet xs ys \<longleftrightarrow> ys = xs \<and> c' = c"
| "agrees sd c c' (Call sd' c1) xs ys \<longleftrightarrow> ys = xs \<and> sd' = sd \<and> c = Resting \<and> c' = c1 \<and> is_call sd c1"
| "agrees sd c c' (Point sd') xs ys \<longleftrightarrow> sd' = sd \<and> (\<exists>a. effect sd c xs ys a \<and> c' = Answer a)"
| "agrees sd c c' (Return sd' a) xs ys \<longleftrightarrow> ys = xs \<and> sd' = sd \<and> c' = Resting \<and> (c = Answer a \<or> refused c a)"

lemma agrees_step: "agrees sd (st sd) c' e xs ys \<Longrightarrow> deque_step e (xs, st) (ys, st(sd := c'))"
proof (cases e)
  case Quiet
  then show "agrees sd (st sd) c' e xs ys \<Longrightarrow> ?thesis" using dq_quiet [of xs st] by (simp add: fun_upd_idem)
qed (auto intro: dq_call dq_point dq_return)

lemma front_doesI:
  assumes "shared_rep k s cs" "rq_back q = rq_back (sh_queue s)"
    and "rep_by cell_holds k ((seen k s)\<lparr>rq_front := front_seen k f (rq_front q), rq_array := rq_array q\<rparr>) cs'"
    and "front_copy k f (rq_front q)" "front_view f cs'"
    and "back_view k (unat (back_seen k (sh_back s) (rq_back (sh_queue s)))) (sh_back s) cs'"
    and "agrees Front (front_status (sh_front s)) (front_status f) e (live_cells cs) (live_cells cs')"
  shows "front_does k s cs (f, q, e)"
proof -
  have eq: "seen k (s\<lparr>sh_front := f, sh_queue := q\<rparr>) = (seen k s)\<lparr>rq_front := front_seen k f (rq_front q), rq_array := rq_array q\<rparr>"
    using assms(2) by (simp add: seen_def)
  have "rep_by cell_holds k (seen k (s\<lparr>sh_front := f, sh_queue := q\<rparr>)) cs'" unfolding eq by (rule assms(3))
  then have "shared_rep k (s\<lparr>sh_front := f, sh_queue := q\<rparr>) cs'"
    using assms(2,4,5,6) shared_repD(3) [OF assms(1)] by (simp add: shared_rep_def)
  moreover have "deque_step e (live_cells cs, statuses s) (live_cells cs', (statuses s)(Front := front_status f))"
    by (rule agrees_step) (use assms(7) in simp)
  ultimately show ?thesis unfolding front_does_def by (auto simp: statuses_update)
qed

text \<open>A step that only moves the owner on.\<close>

lemma front_does_move:
  assumes "shared_rep k s cs" "front_seen k f (rq_front (sh_queue s)) = front_seen k (sh_front s) (rq_front (sh_queue s))"
    and "front_copy k f (rq_front (sh_queue s))" "front_view f cs"
    and "agrees Front (front_status (sh_front s)) (front_status f) e (live_cells cs) (live_cells cs)"
  shows "front_does k s cs (f, sh_queue s, e)"
proof (rule front_doesI [OF assms(1) refl _ assms(3,4) shared_repD(5) [OF assms(1)] assms(5)])
  have "(seen k s)\<lparr>rq_front := front_seen k f (rq_front (sh_queue s)), rq_array := rq_array (sh_queue s)\<rparr> = seen k s"
    using assms(2) by (simp add: seen_def)
  then show "rep_by cell_holds k ((seen k s)\<lparr>rq_front := front_seen k f (rq_front (sh_queue s)),
      rq_array := rq_array (sh_queue s)\<rparr>) cs"
    using shared_repD(1) [OF assms(1)] by simp
qed

text \<open>The last cell changes in its place; it goes; a new one comes.\<close>

lemma front_does_set:
  assumes r: "shared_rep k s (cs @ [c])" and pc: "front_seen k (sh_front s) (rq_front (sh_queue s)) = x"
    "front_seen k f (rq_front (sh_queue s)) = x" "i = slot k (x - 1)"
    and g: "cell_holds (rq_array (sh_queue s) ! i) (Some c) \<Longrightarrow> cell_holds (g (rq_array (sh_queue s) ! i)) (Some c')"
    and f: "front_copy k f (rq_front (sh_queue s))" "no_front cs \<Longrightarrow> front_view f (cs @ [c'])"
    and c: "\<not> is_back c" "\<not> is_back c'"
    and e: "agrees Front (front_status (sh_front s)) (front_status f) e (live_cells (cs @ [c])) (live_cells (cs @ [c']))"
  shows "front_does k s (cs @ [c]) (f, set_elem i g (sh_queue s), e)"
proof (rule front_doesI [OF r, where cs' = "cs @ [c']"])
  note rr = shared_repD(1) [OF r]
  have h: "cell_holds (g (rq_array (sh_queue s) ! i)) (Some c')"
    using last_holds [OF rr] pc by (intro g) simp
  have "(seen k s)\<lparr>rq_front := front_seen k f (rq_front (set_elem i g (sh_queue s))), rq_array := rq_array (set_elem i g (sh_queue s))\<rparr>
      = (seen k s)\<lparr>rq_array := (rq_array (seen k s))[unat ((rq_front (seen k s) - 1) AND kMask k) := g (rq_array (sh_queue s) ! i)]\<rparr>"
    using pc by (simp add: slot_def)
  with rep_set_last [OF rr h]
  show "rep_by cell_holds k ((seen k s)\<lparr>rq_front := front_seen k f (rq_front (set_elem i g (sh_queue s))),
      rq_array := rq_array (set_elem i g (sh_queue s))\<rparr>) (cs @ [c'])" by simp
  show "front_view f (cs @ [c'])" using f(2) shared_repD(4) [OF r] front_view_snoc by metis
  show "back_view k (unat (back_seen k (sh_back s) (rq_back (sh_queue s)))) (sh_back s) (cs @ [c'])"
    using shared_repD(5) [OF r] c by (simp add: back_view_snoc)
qed (use f e in simp_all)

lemma front_does_drop:
  assumes r: "shared_rep k s (cs @ [c])" and pc: "front_seen k (sh_front s) (rq_front (sh_queue s)) = x"
    "front_seen k f (rq_front (sh_queue s)) = retreat k x" "i = slot k (x - 1)"
    and f: "front_copy k f (rq_front (sh_queue s))" "no_front cs \<Longrightarrow> front_view f cs"
    and c: "\<not> is_back c"
    and e: "agrees Front (front_status (sh_front s)) (front_status f) e (live_cells (cs @ [c])) (live_cells cs)"
  shows "front_does k s (cs @ [c]) (f, set_state i kEmpty (sh_queue s), e)"
proof (rule front_doesI [OF r, where cs' = cs])
  note rr = shared_repD(1) [OF r]
  let ?e = "(rq_array (sh_queue s) ! i)\<lparr>el_state := kEmpty\<rparr>"
  have h: "cell_holds ?e None" by simp
  have "(seen k s)\<lparr>rq_front := front_seen k f (rq_front (set_state i kEmpty (sh_queue s))), rq_array := rq_array (set_state i kEmpty (sh_queue s))\<rparr>
      = (seen k s)\<lparr>rq_array := (rq_array (seen k s))[unat ((rq_front (seen k s) - 1) AND kMask k) := ?e],
          rq_front := retreat k (rq_front (seen k s))\<rparr>"
    using pc by (simp add: slot_def set_state_def)
  with rep_drop_front [OF rr h]
  show "rep_by cell_holds k ((seen k s)\<lparr>rq_front := front_seen k f (rq_front (set_state i kEmpty (sh_queue s))),
      rq_array := rq_array (set_state i kEmpty (sh_queue s))\<rparr>) cs" by simp
  show "front_view f cs" using f(2) shared_repD(4) [OF r] front_view_snoc by metis
  show "back_view k (unat (back_seen k (sh_back s) (rq_back (sh_queue s)))) (sh_back s) cs"
    using shared_repD(5) [OF r] c by (simp add: back_view_snoc)
qed (use f e in \<open>simp_all add: set_state_def\<close>)

lemma front_does_add:
  assumes r: "shared_rep k s cs" and pc: "front_seen k (sh_front s) (rq_front (sh_queue s)) = x"
    "front_seen k f (rq_front (sh_queue s)) = bump k x" "i = slot k x" and free: "state_at i (sh_queue s) = kEmpty"
    and f: "front_copy k f (rq_front (sh_queue s))" "front_view f (cs @ [FBusy])"
    and e: "agrees Front (front_status (sh_front s)) (front_status f) e (live_cells cs) (live_cells cs)"
  shows "front_does k s cs (f, set_state i kBusy (sh_queue s), e)"
proof (rule front_doesI [OF r, where cs' = "cs @ [FBusy]"])
  note rr = shared_repD(1) [OF r]
  let ?e = "(rq_array (sh_queue s) ! i)\<lparr>el_state := kBusy\<rparr>"
  have h: "cell_holds ?e (Some FBusy)" by simp
  have len: "length cs < 2 ^ k" using front_free [OF rr] pc free by simp
  have "(seen k s)\<lparr>rq_front := front_seen k f (rq_front (set_state i kBusy (sh_queue s))), rq_array := rq_array (set_state i kBusy (sh_queue s))\<rparr>
      = (seen k s)\<lparr>rq_front := bump k (rq_front (seen k s)), rq_array := (rq_array (seen k s))[unat (rq_front (seen k s) AND kMask k) := ?e]\<rparr>"
    using pc by (simp add: slot_def set_state_def)
  with rep_add_front [OF rr len h]
  show "rep_by cell_holds k ((seen k s)\<lparr>rq_front := front_seen k f (rq_front (set_state i kBusy (sh_queue s))),
      rq_array := rq_array (set_state i kBusy (sh_queue s))\<rparr>) (cs @ [FBusy])" by simp
  show "back_view k (unat (back_seen k (sh_back s) (rq_back (sh_queue s)))) (sh_back s) (cs @ [FBusy])"
    using shared_repD(5) [OF r] by (simp add: back_view_snoc)
qed (use f e in \<open>simp_all add: set_state_def\<close>)

text \<open>The store to \<open>front_\<close> that was seen ahead.\<close>

lemma front_does_index:
  assumes r: "shared_rep k s cs" and pc: "front_seen k (sh_front s) (rq_front (sh_queue s)) = x" "front_seen k f x = x"
    and f: "front_copy k f x" "front_view f cs"
    and e: "agrees Front (front_status (sh_front s)) (front_status f) e (live_cells cs) (live_cells cs)"
  shows "front_does k s cs (f, (sh_queue s)\<lparr>rq_front := x\<rparr>, e)"
proof (rule front_doesI [OF r, where cs' = cs])
  have "(seen k s)\<lparr>rq_front := front_seen k f (rq_front ((sh_queue s)\<lparr>rq_front := x\<rparr>)), rq_array := rq_array ((sh_queue s)\<lparr>rq_front := x\<rparr>)\<rparr> = seen k s"
    using pc by (simp add: seen_def)
  then show "rep_by cell_holds k ((seen k s)\<lparr>rq_front := front_seen k f (rq_front ((sh_queue s)\<lparr>rq_front := x\<rparr>)),
      rq_array := rq_array ((sh_queue s)\<lparr>rq_front := x\<rparr>)\<rparr>) cs"
    using shared_repD(1) [OF r] by simp
qed (use f e shared_repD(5) [OF r] in simp_all)

lemma front_does_step:
  assumes r: "shared_rep k s cs" and pc: "sh_front s \<noteq> F_rest"
  shows "front_does k s cs (front_step k (sh_front s) (sh_queue s))"
proof -
  note rr = shared_repD(1) [OF r] and copy = shared_repD(2) [OF r] and view = shared_repD(4) [OF r]
  note k = shared_repD(6) [OF r]
  let ?q = "sh_queue s"
  have free: "state_at (slot k (front_seen k (sh_front s) (rq_front ?q))) ?q = kEmpty \<longleftrightarrow> length cs < 2 ^ k"
    using front_free [OF rr] by simp
  note last = last_state [OF rr, simplified]
  show ?thesis
  proof (cases "sh_front s")
    case F_rest then show ?thesis using pc by simp
  next
    case (F_push w)
    then show ?thesis using view front_does_move [OF r] by (simp add: Let_def)
  next
    case (F_push_cas front w)
    then show ?thesis using view copy front_does_move [OF r]
        front_does_add [OF r, of front "F_push_index front w" "slot k front" Quiet] by auto
  next
    case (F_push_index front w)
    then show ?thesis using view copy front_does_index [OF r, of "bump k front" "F_push_fill front w" Quiet] by simp
  next
    case (F_push_fill front w)
    with view obtain ds where ds: "cs = ds @ [FBusy]" by auto
    show ?thesis unfolding F_push_fill front_step.simps ds
      by (rule front_does_set [OF r [unfolded ds], where c' = "FHeld 0 w" and x = "rq_front ?q"])
        (use F_push_fill copy slot_bump [OF k, of front] in auto)
  next
    case (F_push_ready front)
    with view obtain ds w where ds: "cs = ds @ [FHeld 0 w]" by auto
    show ?thesis unfolding F_push_ready front_step.simps ds set_state_def
      by (rule front_does_set [OF r [unfolded ds], where c' = "Free (Ready 0 w)" and x = "rq_front ?q"])
        (use F_push_ready copy slot_bump [OF k, of front] cell_holds_ready(1) [of "rq_array ?q ! slot k front" 0 w] in auto)
  next
    case F_pop
    then show ?thesis using view front_does_move [OF r] by (simp add: Let_def front_loaded_def)
  next
    case (F_drain_cas front)
    show ?thesis
    proof (cases "state_at (slot k (front - 1)) ?q = kRevoked")
      case True
      then obtain ds where ds: "cs = ds @ [Free Revoked]" using last(2) F_drain_cas copy by auto
      show ?thesis unfolding F_drain_cas front_step.simps Let_def ds if_P [OF True] set_state_def
        by (rule front_does_set [OF r [unfolded ds], where c' = FBusy and x = "rq_front ?q"])
          (use F_drain_cas copy in auto)
    next
      case False
      then show ?thesis using F_drain_cas view copy front_does_move [OF r] by (simp add: Let_def front_loaded_def)
    qed
  next
    case (F_drain_empty front)
    with view obtain ds where ds: "cs = ds @ [FBusy]" by auto
    show ?thesis unfolding F_drain_empty front_step.simps ds
      by (rule front_does_drop [OF r [unfolded ds], where x = "rq_front ?q"]) (use F_drain_empty copy in auto)
  next
    case (F_drain_index front)
    then show ?thesis using view copy front_does_index [OF r, of "retreat k front" F_pop Quiet] by simp
  next
    case (F_take_cas front)
    show ?thesis
    proof (cases "state_at (slot k (front - 1)) ?q = kReady")
      case True
      then obtain ds tag w where ds: "cs = ds @ [Free (Ready tag w)]" using last(3) F_take_cas copy by auto
      show ?thesis unfolding F_take_cas front_step.simps Let_def ds if_P [OF True] set_state_def
        by (rule front_does_set [OF r [unfolded ds], where c' = "FHeld tag w" and x = "rq_front ?q"])
          (use F_take_cas copy in \<open>auto simp: ready_elem_def\<close>)
    next
      case False
      then show ?thesis using F_take_cas view copy front_does_move [OF r] by simp
    qed
  next
    case (F_take front)
    with view obtain ds tag w where ds: "cs = ds @ [FHeld tag w]" by auto
    have w: "el_w (rq_array ?q ! slot k (front - 1)) = Some w"
      using last_holds [OF rr [unfolded ds]] F_take copy by simp
    show ?thesis unfolding F_take front_step.simps ds w
      by (rule front_does_set [OF r [unfolded ds], where c' = FBusy and x = "rq_front ?q"])
        (use F_take copy in auto)
  next
    case (F_take_empty front x)
    with view obtain ds where ds: "cs = ds @ [FBusy]" by auto
    show ?thesis unfolding F_take_empty front_step.simps ds
      by (rule front_does_drop [OF r [unfolded ds], where x = "rq_front ?q"]) (use F_take_empty copy in auto)
  next
    case (F_take_index front x)
    then show ?thesis using view copy front_does_index [OF r, of "retreat k front" F_rest "Return Front (Given x)"] by simp
  qed
qed

section \<open>The steps of the holder of the mutex\<close>

definition back_does :: "nat \<Rightarrow> 'w shared \<Rightarrow> 'w cell list \<Rightarrow> 'w back_pc \<times> 'w run_queue \<times> 'w event \<Rightarrow> bool" where
  "back_does k s cs r \<longleftrightarrow> (case r of (b, q, e) \<Rightarrow> \<exists>cs'. shared_rep k (s\<lparr>sh_back := b, sh_queue := q\<rparr>) cs' \<and>
     deque_step e (live_cells cs, statuses s) (live_cells cs', statuses (s\<lparr>sh_back := b, sh_queue := q\<rparr>)))"

lemma back_doesI:
  assumes "shared_rep k s cs" "rq_front q = rq_front (sh_queue s)"
    and "rep_by cell_holds k ((seen k s)\<lparr>rq_back := back_seen k b (rq_back q), rq_array := rq_array q\<rparr>) cs'"
    and "back_copy k b (rq_back q)" "front_view (sh_front s) cs'"
    and "back_view k (unat (back_seen k b (rq_back q))) b cs'"
    and "agrees Back (back_status (sh_back s)) (back_status b) e (live_cells cs) (live_cells cs')"
  shows "back_does k s cs (b, q, e)"
proof -
  have eq: "seen k (s\<lparr>sh_back := b, sh_queue := q\<rparr>) = (seen k s)\<lparr>rq_back := back_seen k b (rq_back q), rq_array := rq_array q\<rparr>"
    using assms(2) by (simp add: seen_def)
  have "rep_by cell_holds k (seen k (s\<lparr>sh_back := b, sh_queue := q\<rparr>)) cs'" unfolding eq by (rule assms(3))
  then have "shared_rep k (s\<lparr>sh_back := b, sh_queue := q\<rparr>) cs'"
    using assms(2,4,5,6) shared_repD(2) [OF assms(1)] by (simp add: shared_rep_def)
  moreover have "deque_step e (live_cells cs, statuses s) (live_cells cs', (statuses s)(Back := back_status b))"
    by (rule agrees_step) (use assms(7) in simp)
  ultimately show ?thesis unfolding back_does_def by (auto simp: statuses_update)
qed

lemma back_does_move:
  assumes "shared_rep k s cs" "back_seen k b (rq_back (sh_queue s)) = back_seen k (sh_back s) (rq_back (sh_queue s))"
    and "back_copy k b (rq_back (sh_queue s))" "back_view k (unat (back_seen k b (rq_back (sh_queue s)))) b cs"
    and "agrees Back (back_status (sh_back s)) (back_status b) e (live_cells cs) (live_cells cs)"
  shows "back_does k s cs (b, sh_queue s, e)"
proof (rule back_doesI [OF assms(1) refl _ assms(3) shared_repD(4) [OF assms(1)] assms(4,5)])
  have "(seen k s)\<lparr>rq_back := back_seen k b (rq_back (sh_queue s)), rq_array := rq_array (sh_queue s)\<rparr> = seen k s"
    using assms(2) by (simp add: seen_def)
  then show "rep_by cell_holds k ((seen k s)\<lparr>rq_back := back_seen k b (rq_back (sh_queue s)),
      rq_array := rq_array (sh_queue s)\<rparr>) cs"
    using shared_repD(1) [OF assms(1)] by simp
qed

lemma back_does_set:
  assumes r: "shared_rep k s (ds @ c # cs)" and pc: "back_seen k (sh_back s) (rq_back (sh_queue s)) = x"
    "back_seen k b (rq_back (sh_queue s)) = x" "i = (unat x + length ds) mod 2 ^ k"
    and g: "cell_holds (rq_array (sh_queue s) ! i) (Some c) \<Longrightarrow> cell_holds (g (rq_array (sh_queue s) ! i)) (Some c')"
    and b: "back_copy k b (rq_back (sh_queue s))" "back_view k (unat x) b (ds @ c' # cs)"
    and c: "\<not> is_front c" "\<not> is_front c'"
    and e: "agrees Back (back_status (sh_back s)) (back_status b) e (live_cells (ds @ c # cs)) (live_cells (ds @ c' # cs))"
  shows "back_does k s (ds @ c # cs) (b, set_elem i g (sh_queue s), e)"
proof (rule back_doesI [OF r, where cs' = "ds @ c' # cs"])
  note rr = shared_repD(1) [OF r]
  have "cell_holds (rq_array (sh_queue s) ! i) (item_at (ds @ c # cs) (length ds mod 2 ^ k))"
    using slot_holds [OF _ repD(6) [OF rr], of "length ds"] pc by simp
  moreover have "length ds mod 2 ^ k = length ds" using repD(2) [OF rr] by (intro mod_less) simp
  ultimately have h: "cell_holds (g (rq_array (sh_queue s) ! i)) (Some c')"
    by (intro g) (simp add: item_at_def)
  have i: "i = (unat (rq_back (seen k s)) + length ds) mod 2 ^ k" using pc by simp
  have "(seen k s)\<lparr>rq_back := back_seen k b (rq_back (set_elem i g (sh_queue s))), rq_array := rq_array (set_elem i g (sh_queue s))\<rparr>
      = (seen k s)\<lparr>rq_array := (rq_array (seen k s))[i := g (rq_array (sh_queue s) ! i)]\<rparr>"
    using pc by simp
  with rep_set_at [OF rr i h]
  show "rep_by cell_holds k ((seen k s)\<lparr>rq_back := back_seen k b (rq_back (set_elem i g (sh_queue s))),
      rq_array := rq_array (set_elem i g (sh_queue s))\<rparr>) (ds @ c' # cs)" by simp
  show "front_view (sh_front s) (ds @ c' # cs)" using shared_repD(4) [OF r] c by (rule front_view_swap)
qed (use b pc e in simp_all)

lemma back_does_first:
  assumes r: "shared_rep k s (c # cs)" and pc: "back_seen k (sh_back s) (rq_back (sh_queue s)) = x"
    "back_seen k b (rq_back (sh_queue s)) = x" "i = slot k x"
    and g: "cell_holds (rq_array (sh_queue s) ! i) (Some c) \<Longrightarrow> cell_holds (g (rq_array (sh_queue s) ! i)) (Some c')"
    and b: "back_copy k b (rq_back (sh_queue s))" "back_view k (unat x) b (c' # cs)"
    and c: "\<not> is_front c" "\<not> is_front c'"
    and e: "agrees Back (back_status (sh_back s)) (back_status b) e (live_cells (c # cs)) (live_cells (c' # cs))"
  shows "back_does k s (c # cs) (b, set_elem i g (sh_queue s), e)"
  using back_does_set [of k s "[]" c cs x b i g c' e] assms by (simp add: slot_def unat_kMask)

lemma back_does_drop:
  assumes r: "shared_rep k s (c # cs)" and pc: "back_seen k (sh_back s) (rq_back (sh_queue s)) = x"
    "back_seen k b (rq_back (sh_queue s)) = bump k x" "i = slot k x"
    and b: "back_copy k b (rq_back (sh_queue s))" "back_view k (unat (bump k x)) b cs"
    and c: "\<not> is_front c"
    and e: "agrees Back (back_status (sh_back s)) (back_status b) e (live_cells (c # cs)) (live_cells cs)"
  shows "back_does k s (c # cs) (b, set_state i kEmpty (sh_queue s), e)"
proof (rule back_doesI [OF r, where cs' = cs])
  note rr = shared_repD(1) [OF r]
  let ?e = "(rq_array (sh_queue s) ! i)\<lparr>el_state := kEmpty\<rparr>"
  have h: "cell_holds ?e None" by simp
  have "(seen k s)\<lparr>rq_back := back_seen k b (rq_back (set_state i kEmpty (sh_queue s))), rq_array := rq_array (set_state i kEmpty (sh_queue s))\<rparr>
      = (seen k s)\<lparr>rq_array := (rq_array (seen k s))[unat (rq_back (seen k s) AND kMask k) := ?e], rq_back := bump k (rq_back (seen k s))\<rparr>"
    using pc by (simp add: slot_def set_state_def)
  with rep_drop_back [OF rr h]
  show "rep_by cell_holds k ((seen k s)\<lparr>rq_back := back_seen k b (rq_back (set_state i kEmpty (sh_queue s))),
      rq_array := rq_array (set_state i kEmpty (sh_queue s))\<rparr>) cs" by simp
  show "front_view (sh_front s) cs" using c shared_repD(4) [OF r] by (rule front_view_tl)
qed (use b pc e in \<open>simp_all add: set_state_def\<close>)

lemma back_does_add:
  assumes r: "shared_rep k s cs" and pc: "back_seen k (sh_back s) (rq_back (sh_queue s)) = x"
    "back_seen k b (rq_back (sh_queue s)) = retreat k x" "i = slot k (x - 1)" and free: "state_at i (sh_queue s) = kEmpty"
    and b: "back_copy k b (rq_back (sh_queue s))" "back_view k (unat (retreat k x)) b (BBusy # cs)"
    and e: "agrees Back (back_status (sh_back s)) (back_status b) e (live_cells cs) (live_cells cs)"
  shows "back_does k s cs (b, set_state i kBusy (sh_queue s), e)"
proof (rule back_doesI [OF r, where cs' = "BBusy # cs"])
  note rr = shared_repD(1) [OF r]
  let ?e = "(rq_array (sh_queue s) ! i)\<lparr>el_state := kBusy\<rparr>"
  have h: "cell_holds ?e (Some BBusy)" by simp
  have len: "length cs < 2 ^ k" using before_back_free [OF rr] pc free by simp
  have "(seen k s)\<lparr>rq_back := back_seen k b (rq_back (set_state i kBusy (sh_queue s))), rq_array := rq_array (set_state i kBusy (sh_queue s))\<rparr>
      = (seen k s)\<lparr>rq_back := retreat k (rq_back (seen k s)), rq_array := (rq_array (seen k s))[unat ((rq_back (seen k s) - 1) AND kMask k) := ?e]\<rparr>"
    using pc by (simp add: slot_def set_state_def)
  with rep_add_back [OF rr len h]
  show "rep_by cell_holds k ((seen k s)\<lparr>rq_back := back_seen k b (rq_back (set_state i kBusy (sh_queue s))),
      rq_array := rq_array (set_state i kBusy (sh_queue s))\<rparr>) (BBusy # cs)" by simp
  show "front_view (sh_front s) (BBusy # cs)" using shared_repD(4) [OF r] by (simp add: front_view_Cons)
qed (use b pc e in \<open>simp_all add: set_state_def\<close>)

lemma back_does_index:
  assumes r: "shared_rep k s cs" and pc: "back_seen k (sh_back s) (rq_back (sh_queue s)) = x" "back_seen k b x = x"
    and b: "back_copy k b x" "back_view k (unat x) b cs"
    and e: "agrees Back (back_status (sh_back s)) (back_status b) e (live_cells cs) (live_cells cs)"
  shows "back_does k s cs (b, (sh_queue s)\<lparr>rq_back := x\<rparr>, e)"
proof (rule back_doesI [OF r, where cs' = cs])
  have "(seen k s)\<lparr>rq_back := back_seen k b (rq_back ((sh_queue s)\<lparr>rq_back := x\<rparr>)), rq_array := rq_array ((sh_queue s)\<lparr>rq_back := x\<rparr>)\<rparr> = seen k s"
    using pc by (simp add: seen_def)
  then show "rep_by cell_holds k ((seen k s)\<lparr>rq_back := back_seen k b (rq_back ((sh_queue s)\<lparr>rq_back := x\<rparr>)),
      rq_array := rq_array ((sh_queue s)\<lparr>rq_back := x\<rparr>)\<rparr>) cs"
    using shared_repD(1) [OF r] by simp
qed (use b pc e shared_repD(4) [OF r] in simp_all)

text \<open>The cell of a slot that is ready.\<close>

lemma ready_cell:
  assumes r: "rep_by cell_holds k q cs" and w: "w_idx < 2 ^ k" and s: "state_at w_idx q = kReady"
  obtains ds tag w es where "cs = ds @ Free (Ready tag w) # es" "w_idx = (unat (rq_back q) + length ds) mod 2 ^ k"
proof -
  let ?i = "place_of k q w_idx"
  note i = place_of [OF w, of q]
  have "cell_holds (rq_array q ! w_idx) (item_at cs ?i)"
    using slot_holds [OF _ repD(6) [OF r], of ?i] i by simp
  then obtain tag w where c: "item_at cs ?i = Some (Free (Ready tag w))"
    using cell_state [of "rq_array q ! w_idx" "item_at cs ?i"] s by (auto simp: state_at_def)
  then have l: "?i < length cs" and "cs ! ?i = Free (Ready tag w)" by (auto simp: item_at_def split: if_splits)
  then have "cs = take ?i cs @ Free (Ready tag w) # drop (Suc ?i) cs" using id_take_nth_drop [OF l] by simp
  then show thesis using that [of "take ?i cs"] i(2) l by (metis length_take min.absorb4)
qed

text \<open>Revoking: the exchange, the test of the tag, the two ways to take the item out.\<close>

lemma back_does_revoke_cas:
  assumes r: "shared_rep k s cs" and pc: "sh_back s = B_revoke_cas tag w_idx"
  shows "back_does k s cs (back_step k (sh_back s) (sh_queue s))"
proof (cases "state_at w_idx (sh_queue s) = kReady")
  case True
  note copy = shared_repD(3) [OF r] and view = shared_repD(5) [OF r]
  have "state_at w_idx (seen k s) = kReady" "w_idx < 2 ^ k" using True copy pc by simp_all
  then obtain ds t w es where cs: "cs = ds @ Free (Ready t w) # es"
    and i: "w_idx = (unat (rq_back (seen k s)) + length ds) mod 2 ^ k"
    using ready_cell [OF shared_repD(1) [OF r]] by blast
  have nb: "no_back ds" "no_back es" using view pc cs by auto
  have i': "w_idx = (unat (rq_back (sh_queue s)) + length ds) mod 2 ^ k" using i pc by simp
  have bv: "back_view k (unat (rq_back (sh_queue s))) (B_revoke_test tag w_idx) (ds @ BHeld t w # es)"
    unfolding back_view.simps by (intro exI conjI) (rule refl i' nb)+
  show ?thesis unfolding pc back_step.simps if_P [OF True] cs set_state_def
    by (rule back_does_set [OF r [unfolded cs], where c' = "BHeld t w" and x = "rq_back (sh_queue s)"])
      (use pc i' bv in \<open>simp_all add: ready_elem_def del: back_view.simps\<close>)
next
  case False
  then show ?thesis using pc shared_repD(5) [OF r] back_does_move [OF r] by simp
qed

lemma back_does_revoke_test:
  assumes r: "shared_rep k s cs" and pc: "sh_back s = B_revoke_test tag w_idx"
  shows "back_does k s cs (back_step k (sh_back s) (sh_queue s))"
proof -
  let ?q = "sh_queue s"
  note rr = shared_repD(1) [OF r] and view = shared_repD(5) [OF r]
  from view pc obtain t w ds es where cs: "cs = ds @ BHeld t w # es" and i: "w_idx = (unat (rq_back ?q) + length ds) mod 2 ^ k"
    and nb: "no_back ds" "no_back es" by auto
  have len: "length ds < 2 ^ k" using repD(2) [OF rr] cs by simp
  have "cell_holds (rq_array ?q ! w_idx) (item_at cs (length ds mod 2 ^ k))"
    using slot_holds [OF _ repD(6) [OF rr], of "length ds"] pc i by simp
  then have t: "el_tag (rq_array ?q ! w_idx) = t" using len cs by (simp add: item_at_def)
  show ?thesis
  proof (cases "t = tag")
    case False
    then show ?thesis using pc t cs i nb back_does_move [OF r, of "B_put_back tag w_idx"] view by simp
  next
    case True
    show ?thesis
    proof (cases "slot k (rq_back ?q) = w_idx")
      case False
      have step: "back_step k (sh_back s) ?q = (B_mark w_idx, set_elem w_idx (\<lambda>e. e\<lparr>el_tag := 0, el_w := None\<rparr>) ?q, Point Back)"
        using pc t True False by simp
      show ?thesis unfolding step cs
      proof (rule back_does_set [OF r [unfolded cs], where c' = BBusy and x = "rq_back ?q"])
        show "back_view k (unat (rq_back ?q)) (B_mark w_idx) (ds @ BBusy # es)"
          unfolding back_view.simps by (intro exI conjI) (rule refl i nb)+
        show "agrees Back (back_status (sh_back s)) (back_status (B_mark w_idx)) (Point Back)
            (live_cells (ds @ BHeld t w # es)) (live_cells (ds @ BBusy # es))"
          using pc True by simp blast
      qed (use pc i in simp_all)
    next
      case sl: True
      have "(unat (rq_back ?q) + length ds) mod 2 ^ k = (unat (rq_back ?q) + 0) mod 2 ^ k"
        using sl i by (simp add: slot_def unat_kMask)
      then have "length ds = 0" by (intro slot_inj [OF len]) simp_all
      then have cs: "cs = BHeld t w # es" using cs by simp
      have step: "back_step k (sh_back s) ?q
          = (B_revoke_empty (rq_back ?q) w_idx, set_elem w_idx (\<lambda>e. e\<lparr>el_tag := 0, el_w := None\<rparr>) ?q, Point Back)"
        using pc t True sl by simp
      show ?thesis unfolding step cs
      proof (rule back_does_first [OF r [unfolded cs], where c' = BBusy and x = "rq_back ?q"])
        show "agrees Back (back_status (sh_back s)) (back_status (B_revoke_empty (rq_back ?q) w_idx)) (Point Back)
            (live_cells (BHeld t w # es)) (live_cells (BBusy # es))"
          using pc True by (auto intro: exI [of _ "[]"])
      qed (use pc sl nb in auto)
    qed
  qed
qed

lemma back_does_step:
  assumes r: "shared_rep k s cs" and pc: "sh_back s \<noteq> B_rest"
  shows "back_does k s cs (back_step k (sh_back s) (sh_queue s))"
proof -
  note rr = shared_repD(1) [OF r] and copy = shared_repD(3) [OF r] and view = shared_repD(5) [OF r]
  note k = shared_repD(6) [OF r]
  let ?q = "sh_queue s"
  note first = first_state [OF rr, simplified]
  show ?thesis
  proof (cases "sh_back s")
    case B_rest then show ?thesis using pc by simp
  next
    case (B_push tag w)
    then show ?thesis using view back_does_move [OF r] by (simp add: Let_def)
  next
    case (B_push_cas bk tag w)
    then show ?thesis using view copy back_does_move [OF r]
        back_does_add [OF r, of bk "B_push_index bk tag w" "slot k (bk - 1)" Quiet] by auto
  next
    case (B_push_index bk tag w)
    then show ?thesis using view copy back_does_index [OF r, of "retreat k bk" "B_push_fill bk tag w" Quiet] by simp
  next
    case (B_push_fill bk tag w)
    with view obtain ds where ds: "cs = BBusy # ds" "no_back ds" by auto
    show ?thesis unfolding B_push_fill back_step.simps ds(1)
      by (rule back_does_first [OF r [unfolded ds(1)], where c' = "BHeld tag w" and x = "rq_back ?q"])
        (use B_push_fill copy slot_retreat [OF k, of bk] ds in auto)
  next
    case (B_push_ready bk)
    with view obtain ds tag w where ds: "cs = BHeld tag w # ds" "no_back ds" by auto
    show ?thesis unfolding B_push_ready back_step.simps ds(1) set_state_def
      by (rule back_does_first [OF r [unfolded ds(1)], where c' = "Free (Ready tag w)" and x = "rq_back ?q"])
        (use B_push_ready copy slot_retreat [OF k, of bk] ds cell_holds_ready(2) [of "rq_array ?q ! slot k (bk - 1)" tag w] in auto)
  next
    case B_pop
    then show ?thesis using view back_does_move [OF r] by (simp add: Let_def back_loaded_def)
  next
    case (B_drain_cas bk)
    show ?thesis
    proof (cases "state_at (slot k bk) ?q = kRevoked")
      case True
      then obtain ds where ds: "cs = Free Revoked # ds" using first(2) B_drain_cas copy by auto
      show ?thesis unfolding B_drain_cas back_step.simps Let_def ds if_P [OF True] set_state_def
        by (rule back_does_first [OF r [unfolded ds], where c' = BBusy and x = "rq_back ?q"])
          (use B_drain_cas copy ds view in auto)
    next
      case False
      then show ?thesis using B_drain_cas view copy back_does_move [OF r] by (simp add: Let_def back_loaded_def)
    qed
  next
    case (B_drain_empty bk)
    with view obtain ds where ds: "cs = BBusy # ds" "no_back ds" by auto
    show ?thesis unfolding B_drain_empty back_step.simps ds(1)
      by (rule back_does_drop [OF r [unfolded ds(1)], where x = "rq_back ?q"]) (use B_drain_empty copy ds in auto)
  next
    case (B_drain_index bk)
    then show ?thesis using view copy back_does_index [OF r, of "bump k bk" B_pop Quiet] by simp
  next
    case (B_take_cas bk)
    show ?thesis
    proof (cases "state_at (slot k bk) ?q = kReady")
      case True
      then obtain ds tag w where ds: "cs = Free (Ready tag w) # ds" using first(3) B_take_cas copy by auto
      show ?thesis unfolding B_take_cas back_step.simps Let_def ds if_P [OF True] set_state_def
        by (rule back_does_first [OF r [unfolded ds], where c' = "BHeld tag w" and x = "rq_back ?q"])
          (use B_take_cas copy view ds in \<open>auto simp: ready_elem_def\<close>)
    next
      case False
      then show ?thesis using B_take_cas view copy back_does_move [OF r] by simp
    qed
  next
    case (B_take bk)
    with view obtain ds tag w where ds: "cs = BHeld tag w # ds" "no_back ds" by auto
    have w: "el_w (rq_array ?q ! slot k bk) = Some w"
      using first_holds [OF rr [unfolded ds(1)]] B_take copy by simp
    show ?thesis unfolding B_take back_step.simps ds(1) w
      by (rule back_does_first [OF r [unfolded ds(1)], where c' = BBusy and x = "rq_back ?q"])
        (use B_take copy ds in auto)
  next
    case (B_take_empty bk x)
    with view obtain ds where ds: "cs = BBusy # ds" "no_back ds" by auto
    show ?thesis unfolding B_take_empty back_step.simps ds(1)
      by (rule back_does_drop [OF r [unfolded ds(1)], where x = "rq_back ?q"]) (use B_take_empty copy ds in auto)
  next
    case (B_take_index bk x)
    then show ?thesis using view copy back_does_index [OF r, of "bump k bk" B_rest "Return Back (Given x)"] by simp
  next
    case (B_revoke tag w_idx)
    then show ?thesis using view copy back_does_move [OF r] by simp
  next
    case (B_revoke_cas tag w_idx)
    then show ?thesis by (rule back_does_revoke_cas [OF r])
  next
    case (B_revoke_test tag w_idx)
    then show ?thesis by (rule back_does_revoke_test [OF r])
  next
    case (B_put_back tag w_idx)
    with view obtain t w ds es where ds: "cs = ds @ BHeld t w # es" "no_back ds" "no_back es"
      "w_idx = (unat (rq_back ?q) + length ds) mod 2 ^ k" by auto
    show ?thesis unfolding B_put_back back_step.simps ds(1) set_state_def
      by (rule back_does_set [OF r [unfolded ds(1)], where c' = "Free (Ready t w)" and x = "rq_back ?q"])
        (use B_put_back ds cell_holds_ready(2) [of "rq_array ?q ! w_idx" t w] in auto)
  next
    case (B_mark w_idx)
    with view obtain ds es where ds: "cs = ds @ BBusy # es" "no_back ds" "no_back es"
      "w_idx = (unat (rq_back ?q) + length ds) mod 2 ^ k" by auto
    show ?thesis unfolding B_mark back_step.simps ds(1) set_state_def
      by (rule back_does_set [OF r [unfolded ds(1)], where c' = "Free Revoked" and x = "rq_back ?q"])
        (use B_mark ds in auto)
  next
    case (B_revoke_empty bk w_idx)
    with view obtain ds where ds: "cs = BBusy # ds" "no_back ds" by auto
    show ?thesis unfolding B_revoke_empty back_step.simps ds(1)
      by (rule back_does_drop [OF r [unfolded ds(1)], where x = "rq_back ?q"]) (use B_revoke_empty copy ds in auto)
  next
    case (B_revoke_index bk)
    then show ?thesis using view copy back_does_index [OF r, of "bump k bk" B_rest "Return Back (Done True)"] by simp
  qed
qed

section \<open>The simulation\<close>

lemma shared_sim:
  assumes r: "shared_rep k s cs" and step: "shared_step k e s s'"
  shows "\<exists>cs'. shared_rep k s' cs' \<and> deque_step e (live_cells cs, statuses s) (live_cells cs', statuses s')"
  using step
proof cases
  case (call_push_front w)
  have "shared_rep k s' cs" using r call_push_front by (simp add: shared_rep_def seen_def)
  then show ?thesis using call_push_front dq_call [of "statuses s" Front "Push 0 w"] by (auto simp: statuses_update)
next
  case call_pop_front
  have "shared_rep k s' cs" using r call_pop_front by (simp add: shared_rep_def seen_def)
  then show ?thesis using call_pop_front dq_call [of "statuses s" Front Pop] by (auto simp: statuses_update)
next
  case (call_push_back tag w)
  have "shared_rep k s' cs" using r call_push_back by (simp add: shared_rep_def seen_def)
  then show ?thesis using call_push_back dq_call [of "statuses s" Back "Push tag w"] by (auto simp: statuses_update)
next
  case call_pop_back
  have "shared_rep k s' cs" using r call_pop_back by (simp add: shared_rep_def seen_def)
  then show ?thesis using call_pop_back dq_call [of "statuses s" Back Pop] by (auto simp: statuses_update)
next
  case (call_revoke w_idx tag)
  have "shared_rep k s' cs" using r call_revoke by (simp add: shared_rep_def seen_def)
  then show ?thesis using call_revoke dq_call [of "statuses s" Back "Revoke tag"] by (auto simp: statuses_update)
next
  case (move_front f q)
  then show ?thesis using front_does_step [OF r] by (simp add: front_does_def)
next
  case (move_back b q)
  then show ?thesis using back_does_step [OF r] by (simp add: back_does_def)
qed

definition shared_sim_rel :: "nat \<Rightarrow> 'w shared \<Rightarrow> (nat \<times> 'w) list \<times> (side \<Rightarrow> 'w status) \<Rightarrow> bool" where
  "shared_sim_rel k s a \<longleftrightarrow> (\<exists>cs. shared_rep k s cs \<and> a = (live_cells cs, statuses s))"

interpretation shared_queue: simulation "shared_step k" deque_step "shared_sim_rel k"
  by unfold_locales (use shared_sim in \<open>fastforce simp: shared_sim_rel_def\<close>)

lemma shared_rep_new: "size_ok k \<Longrightarrow> shared_rep k (new_shared k) []"
  by (simp add: shared_rep_def new_shared_def seen_def rep_by_def slots_def item_at_def RunQueue_def unat_kSize size_ok_def)

lemma statuses_new: "statuses (new_shared k) = (\<lambda>_. Resting)"
  by (rule ext) (simp add: statuses_def new_shared_def split: side.splits)

lemma reached_rep:
  assumes "size_ok k" "run_of (shared_step k) (new_shared k) es s"
  obtains cs where "shared_rep k s cs" "run_of deque_step ([], \<lambda>_. Resting) es (live_cells cs, statuses s)"
proof -
  have "shared_sim_rel k (new_shared k) ([], \<lambda>_. Resting)"
    unfolding shared_sim_rel_def statuses_new by (rule exI [of _ "[]"]) (simp add: shared_rep_new [OF assms(1)])
  from shared_queue.run_simulated [OF this assms(2)] that show thesis unfolding shared_sim_rel_def by blast
qed

lemma cell_holds_Free: "cell_holds e (map_option Free x) \<longleftrightarrow> holds e x"
  by (cases x) simp_all

lemma rest_rep:
  assumes r: "shared_rep k s cs" and pc: "sh_front s = F_rest" "sh_back s = B_rest"
  shows "\<exists>ys. rep k (sh_queue s) ys \<and> live ys = live_cells cs"
proof -
  have "\<forall>c \<in> set cs. \<exists>x. c = Free x"
    using shared_repD(4,5) [OF r] pc by (auto, metis is_back.simps is_front.simps cell.exhaust)
  then obtain ys where ys: "cs = map Free ys" by (induction cs) (force, metis list.set_intros list.simps(9))
  have "item_at (map Free ys) i = map_option Free (item_at ys i)" for i by (simp add: item_at_def)
  then have "rep k (sh_queue s) ys"
    using shared_repD(1) [OF r] pc ys by (simp add: rep_by_def slots_def cell_holds_Free)
  moreover have "live ys = live_cells cs" unfolding ys
  proof (induction ys)
    case (Cons y ys)
    then show ?case by (cases y) simp_all
  qed simp
  ultimately show ?thesis by blast
qed

section \<open>Elements are in one hand\<close>

definition front_access :: "nat \<Rightarrow> 'w front_pc \<Rightarrow> nat option" where
  "front_access k pc = (case pc of F_push_fill front w \<Rightarrow> Some (slot k front) | F_take front \<Rightarrow> Some (slot k (front - 1)) | _ \<Rightarrow> None)"

definition back_access :: "nat \<Rightarrow> 'w back_pc \<Rightarrow> nat option" where
  "back_access k pc = (case pc of B_push_fill back tag w \<Rightarrow> Some (slot k (back - 1)) | B_take back \<Rightarrow> Some (slot k back)
     | B_revoke_test tag w_idx \<Rightarrow> Some w_idx | _ \<Rightarrow> None)"

lemma front_access_place:
  assumes r: "shared_rep k s cs" and a: "front_access k (sh_front s) = Some i"
  obtains ds c where "cs = ds @ [c]" "is_front c" "i = (unat (rq_back (seen k s)) + length ds) mod 2 ^ k"
proof -
  note rr = shared_repD(1) [OF r]
  have i: "i = slot k (rq_front (seen k s) - 1)"
    using a shared_repD(2) [OF r]
    by (auto simp: front_access_def slot_bump [OF shared_repD(6) [OF r]] dest: sym split: front_pc.splits)
  have "\<exists>ds c. cs = ds @ [c] \<and> is_front c"
    using a shared_repD(4) [OF r] by (auto simp: front_access_def split: front_pc.splits)
  then obtain ds c where ds: "cs = ds @ [c]" "is_front c" by blast
  have "i = (unat (rq_back (seen k s)) + length ds) mod 2 ^ k"
    unfolding i slot_def using last_slot [OF rr] ds by (simp add: add.assoc [symmetric])
  with ds show thesis by (rule that)
qed

lemma back_access_place:
  assumes r: "shared_rep k s cs" and a: "back_access k (sh_back s) = Some i"
  obtains ds c es where "cs = ds @ c # es" "is_back c" "i = (unat (rq_back (seen k s)) + length ds) mod 2 ^ k"
proof (cases "\<exists>tag w_idx. sh_back s = B_revoke_test tag w_idx")
  case True
  then show thesis using a shared_repD(5) [OF r] that by (auto simp: back_access_def)
next
  case False
  have i: "i = slot k (rq_back (seen k s))"
    using a False shared_repD(3) [OF r]
    by (auto simp: back_access_def slot_retreat [OF shared_repD(6) [OF r], symmetric] split: back_pc.splits)
  have "\<exists>c es. cs = c # es \<and> is_back c"
    using a False shared_repD(5) [OF r] by (auto simp: back_access_def split: back_pc.splits)
  then obtain c es where "cs = [] @ c # es" "is_back c" by auto
  then show thesis using that [of "[]" c es] i by (simp add: slot_def unat_kMask)
qed

lemma cell_at_place:
  assumes "rep_by h k q (ds @ c # es)"
  shows "h (rq_array q ! ((unat (rq_back q) + length ds) mod 2 ^ k)) (Some c)"
proof -
  have "h (rq_array q ! ((unat (rq_back q) + length ds) mod 2 ^ k)) (item_at (ds @ c # es) (length ds mod 2 ^ k))"
    by (rule slot_holds) (use repD(6) [OF assms] in simp_all)
  moreover have "length ds mod 2 ^ k = length ds" using repD(2) [OF assms] by (intro mod_less) simp
  ultimately show ?thesis by (simp add: item_at_def)
qed

section \<open>The test for emptiness\<close>

text \<open>How far each index is from where it will be: a claimed element is not yet counted, a returned one still is.\<close>

definition front_ahead :: "'w front_pc \<Rightarrow> nat" where
  "front_ahead pc = (case pc of F_push_index front w \<Rightarrow> 1 | _ \<Rightarrow> 0)"

definition front_behind :: "'w front_pc \<Rightarrow> nat" where
  "front_behind pc = (case pc of F_drain_index front \<Rightarrow> 1 | F_take_index front r \<Rightarrow> 1 | _ \<Rightarrow> 0)"

definition back_ahead :: "'w back_pc \<Rightarrow> nat" where
  "back_ahead pc = (case pc of B_push_index back tag w \<Rightarrow> 1 | _ \<Rightarrow> 0)"

definition back_behind :: "'w back_pc \<Rightarrow> nat" where
  "back_behind pc = (case pc of B_drain_index back \<Rightarrow> 1 | B_take_index back r \<Rightarrow> 1 | B_revoke_index back \<Rightarrow> 1 | _ \<Rightarrow> 0)"

lemma front_distance:
  assumes k: "size_ok k"
  shows "(unat x + front_ahead pc) mod 2 ^ Suc k = (unat (front_seen k pc x) + front_behind pc) mod 2 ^ Suc k"
  using bump_mod [OF k, of x] retreat_mod [OF k, of x]
  by (cases pc) (simp_all add: front_ahead_def front_behind_def del: power_Suc)

lemma back_distance:
  assumes k: "size_ok k"
  shows "(unat x + back_behind pc) mod 2 ^ Suc k = (unat (back_seen k pc x) + back_ahead pc) mod 2 ^ Suc k"
  using bump_mod [OF k, of x] retreat_mod [OF k, of x]
  by (cases pc) (simp_all add: back_ahead_def back_behind_def del: power_Suc)

lemma empty_cells:
  assumes r: "shared_rep k s cs" and e: "rq_Empty k (sh_queue s)"
  shows "length cs + front_behind (sh_front s) + back_behind (sh_back s) = front_ahead (sh_front s) + back_ahead (sh_back s)"
proof -
  let ?M = "2 ^ Suc k :: nat" and ?x = "unat (rq_front (sh_queue s))" and ?y = "unat (rq_back (sh_queue s))"
    and ?f = "unat (rq_front (seen k s))" and ?b = "unat (rq_back (seen k s))" and ?n = "length cs"
    and ?p = "front_ahead (sh_front s)" and ?m = "front_behind (sh_front s)"
    and ?p' = "back_ahead (sh_back s)" and ?m' = "back_behind (sh_back s)"
  note rr = shared_repD(1) [OF r] and k = shared_repD(6) [OF r]
  have xy: "?x mod ?M = ?y mod ?M" using e by (simp add: rq_Empty_mod)
  have F: "(?x + ?p) mod ?M = (?f + ?m) mod ?M" using front_distance [OF k] by (simp del: power_Suc)
  have B: "(?y + ?m') mod ?M = (?b + ?p') mod ?M" using back_distance [OF k] by (simp del: power_Suc)
  have V: "?f mod ?M = (?b + ?n) mod ?M" by (rule repD(5) [OF rr])
  have "(?y + (?p + ?p')) mod ?M = (?x + ?p + ?p') mod ?M"
    using mod_add_cong [OF xy refl, of "?p + ?p'"] by (simp add: add.assoc del: power_Suc)
  also have "\<dots> = (?f + ?m + ?p') mod ?M" by (rule mod_add_cong [OF F refl])
  also have "\<dots> = (?b + ?n + (?m + ?p')) mod ?M"
    using mod_add_cong [OF V refl, of "?m + ?p'"] by (simp add: add.assoc del: power_Suc)
  also have "\<dots> = (?b + ?p' + (?n + ?m)) mod ?M" by (simp add: ac_simps del: power_Suc)
  also have "\<dots> = (?y + ?m' + (?n + ?m)) mod ?M" by (rule mod_add_cong [OF B [symmetric] refl])
  also have "\<dots> = (?y + (?n + ?m + ?m')) mod ?M" by (simp add: ac_simps del: power_Suc)
  finally have "(?p + ?p') mod ?M = (?n + ?m + ?m') mod ?M" by (rule add_mod_cancel)
  moreover have small: "?p \<le> 1" "?p' \<le> 1" "?m \<le> 1" "?m' \<le> 1"
    by (simp_all add: front_ahead_def front_behind_def back_ahead_def back_behind_def split: front_pc.splits back_pc.splits)
  moreover have "2 ^ 2 \<le> (2 :: nat) ^ k" using k by (intro power_increasing) (simp_all add: size_ok_def)
  then have "4 \<le> (2 :: nat) ^ k" by simp
  moreover have "?n \<le> 2 ^ k" by (rule repD(2) [OF rr])
  ultimately show ?thesis by (simp add: mod_less)
qed

lemma elem_cell:
  assumes r: "rep_by h k q cs" and e: "e \<in> set (rq_array q)"
  obtains i where "i < 2 ^ k" "h e (item_at cs i)"
proof -
  obtain j where j: "j < 2 ^ k" "e = rq_array q ! j" using e array_length [OF r] by (auto simp: in_set_conv_nth)
  note i = place_of [OF j(1), of q]
  show thesis
    by (rule that [OF i(1)]) (use slot_holds [OF _ repD(6) [OF r], of "place_of k q j"] i j in simp)
qed

lemma empty_busy:
  assumes r: "shared_rep k s cs" and e: "rq_Empty k (sh_queue s)" and c: "c \<in> set cs"
  shows "c = FBusy \<or> c = BBusy"
proof -
  note n = empty_cells [OF r e]
  note fv = shared_repD(4) [OF r] and bv = shared_repD(5) [OF r]
  have f: "front_ahead (sh_front s) = 0 \<or> (front_ahead (sh_front s) = 1 \<and> (\<exists>ds. cs = ds @ [FBusy]))"
    using fv by (cases "sh_front s") (auto simp: front_ahead_def)
  have b: "back_ahead (sh_back s) = 0 \<or> (back_ahead (sh_back s) = 1 \<and> (\<exists>ds. cs = BBusy # ds))"
    using bv by (cases "sh_back s") (auto simp: back_ahead_def)
  have "cs = [] \<or> cs = [FBusy] \<or> cs = [BBusy] \<or> cs = [BBusy, FBusy]"
  proof (cases "front_ahead (sh_front s) = 0")
    case True
    then show ?thesis using n b by (cases cs) auto
  next
    case False
    then obtain ds where ds: "cs = ds @ [FBusy]" and one: "front_ahead (sh_front s) = 1" using f by auto
    show ?thesis
    proof (cases "back_ahead (sh_back s) = 0")
      case True
      then show ?thesis using n one ds by simp
    next
      case False
      then obtain es where "cs = BBusy # es" "back_ahead (sh_back s) = 1" using b by auto
      then show ?thesis using n one ds by (cases ds) auto
    qed
  qed
  then show ?thesis using c by auto
qed


section \<open>Calls without effect\<close>

text \<open>What a refused push or pop may rest on: a ring without an empty element; a ring of empty elements, or at the end
  in question an element that is busy with the other thread, or that has been revoked just now.\<close>

fun has_cause :: "nat \<Rightarrow> 'w shared \<Rightarrow> side \<Rightarrow> 'w status \<Rightarrow> bool" where
  "has_cause k s sd (Push tag w) \<longleftrightarrow> list_all (\<lambda>e. el_state e \<noteq> kEmpty) (rq_array (sh_queue s))"
| "has_cause k s Front Pop \<longleftrightarrow> list_all (\<lambda>e. el_state e = kEmpty) (rq_array (sh_queue s))
     \<or> state_at (slot k (rq_front (sh_queue s) - 1)) (sh_queue s) = kBusy \<and> sh_back s \<noteq> B_rest
     \<or> state_at (slot k (rq_front (sh_queue s) - 1)) (sh_queue s) = kRevoked"
| "has_cause k s Back Pop \<longleftrightarrow> list_all (\<lambda>e. el_state e = kEmpty) (rq_array (sh_queue s))
     \<or> state_at (slot k (rq_back (sh_queue s))) (sh_queue s) = kBusy \<and> sh_front s \<noteq> F_rest
     \<or> state_at (slot k (rq_back (sh_queue s))) (sh_queue s) = kRevoked"
| "has_cause k s sd _ \<longleftrightarrow> False"

lemma all_taken:
  assumes r: "shared_rep k s cs" and len: "\<not> length cs < 2 ^ k"
  shows "list_all (\<lambda>e. el_state e \<noteq> kEmpty) (rq_array (sh_queue s))"
  unfolding list_all_iff
proof
  fix e assume "e \<in> set (rq_array (sh_queue s))"
  then have "e \<in> set (rq_array (seen k s))" by simp
  with shared_repD(1) [OF r] obtain i where "i < 2 ^ k" "cell_holds e (item_at cs i)" by (rule elem_cell)
  then show "el_state e \<noteq> kEmpty" using cell_state len by (fastforce simp: item_at_def)
qed

lemma all_empty:
  assumes r: "shared_rep k s []"
  shows "list_all (\<lambda>e. el_state e = kEmpty) (rq_array (sh_queue s))"
  unfolding list_all_iff
proof
  fix e assume "e \<in> set (rq_array (sh_queue s))"
  then have "e \<in> set (rq_array (seen k s))" by simp
  with shared_repD(1) [OF r] obtain i where "cell_holds e (item_at [] i)" by (rule elem_cell)
  then show "el_state e = kEmpty" by (simp add: item_at_def)
qed

lemma elem_state_cases: "(s :: elem_state) \<noteq> kReady \<Longrightarrow> s = kEmpty \<or> s = kBusy \<or> s = kRevoked"
  by (cases s) simp_all

lemma front_cause:
  assumes r: "shared_rep k s cs" and step: "front_step k (sh_front s) (sh_queue s) = (f, q, Return Front a)"
    and c: "refused (front_status (sh_front s)) a"
  shows "has_cause k s Front (front_status (sh_front s))"
proof (cases "\<exists>tag w. front_status (sh_front s) = Push tag w")
  case True
  have "\<not> length cs < 2 ^ k"
    using True step front_free [OF shared_repD(1) [OF r]] shared_repD(2) [OF r]
    by (cases "sh_front s") (auto simp: Let_def split: if_splits)
  from all_taken [OF r this] show ?thesis using True by auto
next
  case False
  then have pop: "front_status (sh_front s) = Pop" using step c by (cases "sh_front s") auto
  have pc: "sh_front s = F_pop \<or> (\<exists>x. sh_front s = F_drain_cas x \<or> sh_front s = F_take_cas x)"
    using pop step by (cases "sh_front s") (auto split: if_splits)
  then have fs: "front_seen k (sh_front s) (rq_front (sh_queue s)) = rq_front (sh_queue s)" and nf: "no_front cs"
    using shared_repD(4) [OF r] by auto
  let ?s = "state_at (slot k (rq_front (sh_queue s) - 1)) (sh_queue s)"
  have "?s \<noteq> kReady" using pc step shared_repD(2) [OF r] by (auto simp: Let_def front_loaded_def split: if_splits)
  note st = elem_state_cases [OF this] and last = last_state [OF shared_repD(1) [OF r], unfolded seen_simps state_at_seen fs]
  have "sh_back s \<noteq> B_rest" if "?s = kBusy"
    using that last(4) nf shared_repD(5) [OF r] by auto
  then show ?thesis using st last(1) all_empty r pop by auto
qed

lemma back_cause:
  assumes r: "shared_rep k s cs" and step: "back_step k (sh_back s) (sh_queue s) = (f, q, Return Back a)"
    and c: "refused (back_status (sh_back s)) a" and no: "\<nexists>tag. back_status (sh_back s) = Revoke tag"
  shows "has_cause k s Back (back_status (sh_back s))"
proof (cases "\<exists>tag w. back_status (sh_back s) = Push tag w")
  case True
  have "\<not> length cs < 2 ^ k"
    using True step before_back_free [OF shared_repD(1) [OF r]] shared_repD(3) [OF r]
    by (cases "sh_back s") (auto simp: Let_def split: if_splits)
  from all_taken [OF r this] show ?thesis using True by auto
next
  case False
  then have pop: "back_status (sh_back s) = Pop" using step c no by (cases "sh_back s") auto
  have pc: "sh_back s = B_pop \<or> (\<exists>x. sh_back s = B_drain_cas x \<or> sh_back s = B_take_cas x)"
    using pop step by (cases "sh_back s") (auto split: if_splits)
  then have bs: "back_seen k (sh_back s) (rq_back (sh_queue s)) = rq_back (sh_queue s)" and nb: "no_back cs"
    using shared_repD(5) [OF r] by auto
  let ?s = "state_at (slot k (rq_back (sh_queue s))) (sh_queue s)"
  have "?s \<noteq> kReady" using pc step shared_repD(3) [OF r] by (auto simp: Let_def back_loaded_def split: if_splits)
  note st = elem_state_cases [OF this] and first = first_state [OF shared_repD(1) [OF r], unfolded seen_simps state_at_seen bs]
  have "sh_front s \<noteq> F_rest" if "?s = kBusy"
    using that first(4) nb shared_repD(4) [OF r] by auto
  then show ?thesis using st first(1) all_empty r pop by auto
qed

lemma front_event: "front_step k pc q = (f, q', Return sd a) \<Longrightarrow> sd = Front"
  by (cases pc) (auto simp: Let_def front_loaded_def split: if_splits)

lemma back_event: "back_step k pc q = (f, q', Return sd a) \<Longrightarrow> sd = Back"
  by (cases pc) (auto simp: Let_def back_loaded_def split: if_splits)


section \<open>One thread alone\<close>

text \<open>The steps of one call up to its return, with fuel, when the other thread does nothing.\<close>

fun front_alone :: "nat \<Rightarrow> nat \<Rightarrow> 'w front_pc \<Rightarrow> 'w run_queue \<Rightarrow> ('w run_queue \<times> 'w answer) option" where
  "front_alone 0 k pc q = None"
| "front_alone (Suc n) k pc q = (case front_step k pc q of (pc', q', e) \<Rightarrow>
     (case e of Return sd a \<Rightarrow> Some (q', a) | _ \<Rightarrow> front_alone n k pc' q'))"

fun back_alone :: "nat \<Rightarrow> nat \<Rightarrow> 'w back_pc \<Rightarrow> 'w run_queue \<Rightarrow> ('w run_queue \<times> 'w answer) option" where
  "back_alone 0 k pc q = None"
| "back_alone (Suc n) k pc q = (case back_step k pc q of (pc', q', e) \<Rightarrow>
     (case e of Return sd a \<Rightarrow> Some (q', a) | _ \<Rightarrow> back_alone n k pc' q'))"

lemma elem_filled:
  "(e :: 'w elem)\<lparr>el_w := w, el_tag := t, el_state := s\<rparr> = \<lparr>el_state = s, el_tag = t, el_w = w\<rparr>"
  "e\<lparr>el_tag := t, el_w := w, el_state := s\<rparr> = \<lparr>el_state = s, el_tag = t, el_w = w\<rparr>"
  by (cases e, simp)+

lemma elem_same: "el_state e = s \<Longrightarrow> e\<lparr>el_state := s\<rparr> = (e :: 'w elem)" by (cases e) simp

lemma slot_less: "length (rq_array q) = 2 ^ k \<Longrightarrow> slot k x < length (rq_array q)"
  by (simp add: slot_def unat_kMask)

lemma push_front_alone:
  assumes len: "length (rq_array q) = 2 ^ k"
  shows "front_alone 5 k (F_push w) q = Some (case PushFront k q w of (q', r) \<Rightarrow> (q', Given r))"
  using slot_less [OF len, of "rq_front q"]
  by (simp add: eval_nat_numeral PushFront_def state_at_def slot_def [symmetric] Let_def set_state_def set_elem_def
      ready_elem_def elem_filled)

lemma push_back_alone:
  assumes len: "length (rq_array q) = 2 ^ k"
  shows "back_alone 5 k (B_push tag w) q = Some (case PushBackWithTag k q w tag of (q', r, i) \<Rightarrow> (q', Given r))"
    "back_alone 5 k (B_push 0 w) q = Some (case PushBack k q w of (q', r) \<Rightarrow> (q', Given r))"
  using slot_less [OF len, of "rq_back q - 1"]
  by (simp_all add: eval_nat_numeral PushBackWithTag_def PushBack_def state_at_def slot_def [symmetric] Let_def set_state_def
      set_elem_def ready_elem_def elem_filled)

lemma revoke_alone:
  assumes len: "length (rq_array q) = 2 ^ k" and i: "w_idx < 2 ^ k"
  shows "back_alone 5 k (B_revoke tag w_idx) q = Some (case RevokeWithTag k q tag w_idx of (q', r) \<Rightarrow> (q', Done r))"
  using assms
  by (simp add: eval_nat_numeral RevokeWithTag_def state_at_def slot_def [symmetric] Let_def set_state_def
      set_elem_def elem_filled elem_same)

text \<open>One turn of the draining loops.\<close>

definition drain_front_once :: "nat \<Rightarrow> 'w run_queue \<Rightarrow> 'w run_queue" where
  "drain_front_once k q = (let i = slot k (rq_front q - 1) in
     q\<lparr>rq_array := (rq_array q)[i := (rq_array q ! i)\<lparr>el_state := kEmpty\<rparr>], rq_front := retreat k (rq_front q)\<rparr>)"

lemma drain_front_alone:
  assumes len: "length (rq_array q) = 2 ^ k" and rv: "state_at (slot k (rq_front q - 1)) q = kRevoked"
  shows "front_alone (Suc (Suc (Suc (Suc n)))) k F_pop q = front_alone n k F_pop (drain_front_once k q)"
  using slot_less [OF len, of "rq_front q - 1"] rv
  by (simp add: drain_front_once_def state_at_def Let_def set_state_def set_elem_def)

lemma pop_front_alone:
  "length (rq_array q) = 2 ^ k \<Longrightarrow> \<exists>n. front_alone n k F_pop q = Some (case PopFront k q of (q', r) \<Rightarrow> (q', Given r))"
proof (induction k q rule: drain_front.induct)
  case (1 k q)
  let ?i = "slot k (rq_front q - 1)"
  have i: "?i < length (rq_array q)" by (rule slot_less [OF 1(2)])
  show ?case
  proof (cases "state_at ?i q = kRevoked")
    case True
    have drain: "drain_front k q = drain_front k (drain_front_once k q)"
      using True i by (subst drain_front.simps) (simp add: state_at_def slot_def drain_front_once_def Let_def)
    then have pop: "PopFront k q = PopFront k (drain_front_once k q)" by (simp add: PopFront_def)
    have "\<exists>n. front_alone n k F_pop (drain_front_once k q) =
        Some (case PopFront k (drain_front_once k q) of (q', r) \<Rightarrow> (q', Given r))"
      unfolding drain_front_once_def Let_def slot_def
      by (rule 1(1)) (use True i 1(2) in \<open>simp_all add: state_at_def slot_def\<close>)
    then show ?thesis using drain_front_alone [OF 1(2) True] pop by metis
  next
    case False
    then have "drain_front k q = q" by (subst drain_front.simps) (simp add: state_at_def slot_def Let_def)
    then have "front_alone 5 k F_pop q = Some (case PopFront k q of (q', r) \<Rightarrow> (q', Given r))"
      using False i by (simp add: eval_nat_numeral PopFront_def state_at_def slot_def [symmetric] Let_def set_state_def
        set_elem_def elem_filled front_loaded_def)
    then show ?thesis by blast
  qed
qed

definition drain_back_once :: "nat \<Rightarrow> 'w run_queue \<Rightarrow> 'w run_queue" where
  "drain_back_once k q = (let i = slot k (rq_back q) in
     q\<lparr>rq_array := (rq_array q)[i := (rq_array q ! i)\<lparr>el_state := kEmpty\<rparr>], rq_back := bump k (rq_back q)\<rparr>)"

lemma drain_back_alone:
  assumes len: "length (rq_array q) = 2 ^ k" and rv: "state_at (slot k (rq_back q)) q = kRevoked"
  shows "back_alone (Suc (Suc (Suc (Suc n)))) k B_pop q = back_alone n k B_pop (drain_back_once k q)"
  using slot_less [OF len, of "rq_back q"] rv
  by (simp add: drain_back_once_def state_at_def Let_def set_state_def set_elem_def)

definition pop_back_locked :: "nat \<Rightarrow> 'w run_queue \<Rightarrow> 'w run_queue \<times> 'w option" where
  "pop_back_locked k q = (let q = drain_back k q; i = slot k (rq_back q); e = rq_array q ! i in
     if el_state e \<noteq> kReady then (q, None)
     else (q\<lparr>rq_array := (rq_array q)[i := \<lparr>el_state = kEmpty, el_tag = 0, el_w = None\<rparr>], rq_back := bump k (rq_back q)\<rparr>, el_w e))"

lemma PopBack_locked: "PopBack k q = (if rq_Empty k q then (q, None) else pop_back_locked k q)"
  by (simp add: PopBack_def pop_back_locked_def slot_def Let_def)

lemma pop_back_alone:
  "length (rq_array q) = 2 ^ k \<Longrightarrow> \<exists>n. back_alone n k B_pop q = Some (case pop_back_locked k q of (q', r) \<Rightarrow> (q', Given r))"
proof (induction k q rule: drain_back.induct)
  case (1 k q)
  let ?i = "slot k (rq_back q)"
  have i: "?i < length (rq_array q)" by (rule slot_less [OF 1(2)])
  show ?case
  proof (cases "state_at ?i q = kRevoked")
    case True
    have drain: "drain_back k q = drain_back k (drain_back_once k q)"
      using True i by (subst drain_back.simps) (simp add: state_at_def slot_def drain_back_once_def Let_def)
    then have pop: "pop_back_locked k q = pop_back_locked k (drain_back_once k q)" by (simp add: pop_back_locked_def)
    have "\<exists>n. back_alone n k B_pop (drain_back_once k q) =
        Some (case pop_back_locked k (drain_back_once k q) of (q', r) \<Rightarrow> (q', Given r))"
      unfolding drain_back_once_def Let_def slot_def
      by (rule 1(1)) (use True i 1(2) in \<open>simp_all add: state_at_def slot_def\<close>)
    then show ?thesis using drain_back_alone [OF 1(2) True] pop by metis
  next
    case False
    then have "drain_back k q = q" by (subst drain_back.simps) (simp add: state_at_def slot_def Let_def)
    then have "back_alone 5 k B_pop q = Some (case pop_back_locked k q of (q', r) \<Rightarrow> (q', Given r))"
      using False i by (simp add: eval_nat_numeral pop_back_locked_def state_at_def slot_def [symmetric] Let_def set_state_def
        set_elem_def elem_filled back_loaded_def)
    then show ?thesis by blast
  qed
qed

theorem calls_alone:
  assumes "length (rq_array q) = 2 ^ k" and "w_idx < 2 ^ k"
  shows "front_alone 5 k (F_push w) q = Some (case PushFront k q w of (q', r) \<Rightarrow> (q', Given r))
    \<and> (\<exists>n. front_alone n k F_pop q = Some (case PopFront k q of (q', r) \<Rightarrow> (q', Given r)))
    \<and> back_alone 5 k (B_push 0 w) q = Some (case PushBack k q w of (q', r) \<Rightarrow> (q', Given r))
    \<and> back_alone 5 k (B_push tag w) q = Some (case PushBackWithTag k q w tag of (q', r, i) \<Rightarrow> (q', Given r))
    \<and> (\<exists>n. rq_Empty k q \<or> back_alone n k B_pop q = Some (case PopBack k q of (q', r) \<Rightarrow> (q', Given r)))
    \<and> back_alone 5 k (B_revoke tag w_idx) q = Some (case RevokeWithTag k q tag w_idx of (q', r) \<Rightarrow> (q', Done r))"
  using push_front_alone [OF assms(1)] pop_front_alone [OF assms(1)] push_back_alone [OF assms(1)]
    pop_back_alone [OF assms(1)] revoke_alone [OF assms] PopBack_locked [of k q] by auto

section \<open>Three reads that agree on a wrong size\<close>

text \<open>One turn of the loop of \<open>SizeOrNotEmpty\<close> on the values it has read of \<open>front_\<close>, \<open>back_\<close> and \<open>front_\<close> again; None is
  another turn.\<close>

definition size_round :: "bool \<Rightarrow> nat \<Rightarrow> 32 word \<Rightarrow> 32 word \<Rightarrow> 32 word \<Rightarrow> int option" where
  "size_round need_estimate k front back front1 =
     (if front \<noteq> front1 then None
      else if need_estimate then Some (CalculateSize k front back)
      else Some (uint ((front XOR back) AND kMask2 k)))"

text \<open>Work comes in at the back and the owner takes work at the front.\<close>

definition pass_through :: "nat \<Rightarrow> 'w \<Rightarrow> 'w run_queue \<Rightarrow> 'w run_queue" where
  "pass_through k w q = fst (PopFront k (fst (PushBack k q w)))"

fun is_ready :: "'w item \<Rightarrow> bool" where
  "is_ready Revoked = False" | "is_ready (Ready tag w) = True"

lemma pass_through_rep:
  assumes r: "rep k q (xs @ [x])" and x: "is_ready x" and len: "length (xs @ [x]) < 2 ^ k"
  shows "rep k (pass_through k w q) (Ready 0 w # xs)" "rq_front (pass_through k w q) = retreat k (rq_front q)"
    "rq_back (pass_through k w q) = retreat k (rq_back q)"
proof -
  let ?q = "fst (PushBack k q w)"
  have "el_state (rq_array q ! unat ((rq_back q - 1) AND kMask k)) = kEmpty"
    using holds_state [OF before_back_item [OF r]] before_back_item_None [OF r] len by simp
  then have q: "rq_front ?q = rq_front q" "rq_back ?q = retreat k (rq_back q)" by (simp_all add: PushBack_def Let_def)
  have r': "rep k ?q ((Ready 0 w # xs) @ [x])"
    using PushBack_sim [OF r, of w] len by (simp add: sim_def d_push_back_def)
  obtain tag v where x': "x = Ready tag v" using x by (cases x) auto
  have rd: "el_state (rq_array ?q ! unat ((rq_front ?q - 1) AND kMask k)) = kReady"
    using last_item [OF r'] x' by (simp add: ready_elem_def)
  then have nd: "drain_front k ?q = ?q" by (subst drain_front.simps) (simp add: Let_def)
  show "rep k (pass_through k w q) (Ready 0 w # xs)"
    using PopFront_sim [OF r'] x' by (simp add: sim_def d_pop_front_def pass_through_def)
  show "rq_front (pass_through k w q) = retreat k (rq_front q)" "rq_back (pass_through k w q) = retreat k (rq_back q)"
    using rd nd q by (simp_all add: pass_through_def PopFront_def Let_def)
qed

lemma pass_through_many:
  assumes r: "rep k q xs" and x: "list_all is_ready xs" and len: "0 < length xs" "length xs < 2 ^ k"
  shows "\<exists>ys. rep k ((pass_through k w ^^ m) q) ys \<and> list_all is_ready ys \<and> length ys = length xs
    \<and> rq_front ((pass_through k w ^^ m) q) = (retreat k ^^ m) (rq_front q)
    \<and> rq_back ((pass_through k w ^^ m) q) = (retreat k ^^ m) (rq_back q)"
proof (induction m)
  case (Suc m)
  let ?q = "(pass_through k w ^^ m) q"
  from Suc obtain ys where ys: "rep k ?q ys" "list_all is_ready ys" "length ys = length xs"
    "rq_front ?q = (retreat k ^^ m) (rq_front q)" "rq_back ?q = (retreat k ^^ m) (rq_back q)" by blast
  then obtain zs z where z: "ys = zs @ [z]" using len(1) by (cases ys rule: rev_cases) auto
  have "rep k (pass_through k w ?q) (Ready 0 w # zs)" "rq_front (pass_through k w ?q) = retreat k (rq_front ?q)"
    "rq_back (pass_through k w ?q) = retreat k (rq_back ?q)"
    using pass_through_rep [of k ?q zs z w] ys len z by auto
  then show ?case using ys z by (intro exI [of _ "Ready 0 w # zs"]) simp
qed (use r x in auto)

lemma retreat_low:
  assumes k: "size_ok k"
  shows "(unat ((retreat k ^^ m) x) + m) mod 2 ^ Suc k = unat x mod 2 ^ Suc k"
proof (induction m)
  case (Suc m)
  let ?y = "(retreat k ^^ m) x"
  have "(unat (retreat k ?y) + 1 + m) mod 2 ^ Suc k = (unat ?y + m) mod 2 ^ Suc k"
    by (rule mod_add_cong [OF retreat_mod [OF k] refl])
  then show ?case using Suc by simp
qed simp

lemma retreat_high: "(retreat k ^^ m) x AND NOT (kMask2 k) = x AND NOT (kMask2 k)"
proof (induction m)
  case (Suc m)
  have "retreat k y AND NOT (kMask2 k) = y AND NOT (kMask2 k)" for y
    unfolding retreat_def kMask2_mask by (rule bit_word_eqI) (auto simp: bit_simps)
  then show ?case using Suc by simp
qed simp

text \<open>After \<open>2 * kSize\<close> pops \<open>front_\<close> is the same word again: only pushes at the front count.\<close>

lemma retreat_around:
  assumes k: "size_ok k"
  shows "(retreat k ^^ (2 ^ Suc k)) x = x"
proof -
  let ?y = "(retreat k ^^ (2 ^ Suc k)) x"
  have "unat ?y mod 2 ^ Suc k = unat x mod 2 ^ Suc k" using retreat_low [OF k, of "2 ^ Suc k" x] by (simp only: mod_add_self2)
  then have "?y AND kMask2 k = x AND kMask2 k" by (simp only: unat_kMask2 [symmetric] word_unat_eq_iff)
  moreover have "z = (z AND kMask2 k) OR (z AND NOT (kMask2 k))" for z :: "32 word"
    by (rule bit_word_eqI) (auto simp: bit_simps)
  ultimately show ?thesis using retreat_high [where k = k and m = "2 ^ Suc k" and x = x] by metis
qed

section \<open>Schedules\<close>

datatype 'w move = Push_front 'w | Pop_front | Push_back nat 'w | Pop_back | Revoke_slot nat nat | Front_moves | Back_moves

fun do_move :: "nat \<Rightarrow> 'w move \<Rightarrow> 'w shared \<Rightarrow> ('w event \<times> 'w shared) option" where
  "do_move k (Push_front w) s = (if sh_front s = F_rest then Some (Call Front (Push 0 w), s\<lparr>sh_front := F_push w\<rparr>) else None)"
| "do_move k Pop_front s = (if sh_front s = F_rest then Some (Call Front Pop, s\<lparr>sh_front := F_pop\<rparr>) else None)"
| "do_move k (Push_back tag w) s = (if sh_back s = B_rest then Some (Call Back (Push tag w), s\<lparr>sh_back := B_push tag w\<rparr>) else None)"
| "do_move k Pop_back s = (if sh_back s = B_rest then Some (Call Back Pop, s\<lparr>sh_back := B_pop\<rparr>) else None)"
| "do_move k (Revoke_slot tag i) s =
     (if sh_back s = B_rest \<and> i < 2 ^ k then Some (Call Back (Revoke tag), s\<lparr>sh_back := B_revoke tag i\<rparr>) else None)"
| "do_move k Front_moves s = (if sh_front s = F_rest then None else
     case front_step k (sh_front s) (sh_queue s) of (f, q, e) \<Rightarrow> Some (e, s\<lparr>sh_front := f, sh_queue := q\<rparr>))"
| "do_move k Back_moves s = (if sh_back s = B_rest then None else
     case back_step k (sh_back s) (sh_queue s) of (b, q, e) \<Rightarrow> Some (e, s\<lparr>sh_back := b, sh_queue := q\<rparr>))"

fun do_moves :: "nat \<Rightarrow> 'w move list \<Rightarrow> 'w shared \<Rightarrow> ('w event list \<times> 'w shared) option" where
  "do_moves k [] s = Some ([], s)"
| "do_moves k (m # ms) s = (case do_move k m s of None \<Rightarrow> None | Some (e, s') \<Rightarrow>
     (case do_moves k ms s' of None \<Rightarrow> None | Some (es, s'') \<Rightarrow> Some (e # es, s'')))"

lemma do_move_step: "do_move k m s = Some (e, s') \<Longrightarrow> shared_step k e s s'"
  by (cases m) (auto split: if_splits prod.splits intro: shared_step.intros)

lemma do_moves_run:
  "do_moves k ms s = Some (es', s') \<Longrightarrow> run_of (shared_step k) s0 es s \<Longrightarrow> run_of (shared_step k) s0 (es @ es') s'"
proof (induction ms arbitrary: s es es')
  case (Cons m ms)
  from Cons.prems(1) obtain e u es1 where u: "do_move k m s = Some (e, u)" "do_moves k ms u = Some (es1, s')" "es' = e # es1"
    by (auto split: option.splits prod.splits)
  from Cons.IH [OF u(2) run_step [OF Cons.prems(2) do_move_step [OF u(1)]]] show ?case using u(3) by simp
qed simp

lemma do_moves_new: "do_moves k ms (new_shared k) = Some (es, s) \<Longrightarrow> run_of (shared_step k) (new_shared k) es s"
  using do_moves_run [OF _ run_start] by fastforce

text \<open>The owner has claimed the element of its item when somebody else tries to pop.\<close>

definition claimed :: "string shared" where
  "claimed = \<lparr>sh_queue = (RunQueue 2)\<lparr>rq_array := (rq_array (RunQueue 2))[0 := \<lparr>el_state = kBusy, el_tag = 0, el_w = None\<rparr>]\<rparr>,
     sh_front = F_push_index 0 ''a'', sh_back = B_pop\<rparr>"

definition pushed :: "string shared" where
  "pushed = \<lparr>sh_queue = fst (PushFront 2 (RunQueue 2) ''a''), sh_front = F_rest, sh_back = B_rest\<rparr>"

definition filling :: "string shared" where
  "filling = \<lparr>sh_queue = (RunQueue 2)\<lparr>rq_front := 9, rq_array := (rq_array (RunQueue 2))[0 := \<lparr>el_state = kBusy, el_tag = 0, el_w = None\<rparr>]\<rparr>,
     sh_front = F_push_fill 0 ''a'', sh_back = B_pop\<rparr>"

lemma run_filling: "run_of (shared_step 2) (new_shared 2) [Call Front (Push 0 ''a''), Quiet, Quiet, Quiet, Call Back Pop] filling"
  by (rule do_moves_new [of _ "[Push_front ''a'', Front_moves, Front_moves, Front_moves, Pop_back]"]) code_simp

lemma run_claimed: "run_of (shared_step 2) (new_shared 2) [Call Front (Push 0 ''a''), Quiet, Quiet, Call Back Pop] claimed"
  by (rule do_moves_new [of _ "[Push_front ''a'', Front_moves, Front_moves, Pop_back]"]) code_simp

lemma run_pushed: "run_of (shared_step 2) (new_shared 2) [Call Front (Push 0 ''a''), Quiet, Quiet, Call Back Pop,
    Return Back (Given None), Quiet, Point Front, Return Front (Given None)] pushed"
  by (rule do_moves_new [of _ "[Push_front ''a'', Front_moves, Front_moves, Pop_back, Back_moves, Front_moves, Front_moves, Front_moves]"])
    code_simp

lemma refused_pop: "shared_step 2 (Return Back (Given None)) claimed (claimed\<lparr>sh_back := B_rest\<rparr>)"
  by (rule do_move_step [of _ Back_moves]) code_simp

section \<open>Properties\<close>

text \<open>
  C10. The work queue is linearizable. Whatever its owner and the holder of the mutex do, and however their accesses
  interleave, the calls, effects and returns are a run of the deque of live items: each call takes effect at one moment
  between call and return, or is refused and has none, and what it returns is what the deque returns at that moment. So
  no item is lost, returned twice, or returned out of order. When both threads are at rest the ring represents the deque.
\<close>
theorem concurrent_queue_linearizable:
  assumes "size_ok k" and "run_of (shared_step k) (new_shared k) es s"
  shows "\<exists>xs. run_of deque_step ([], \<lambda>_. Resting) es (xs, statuses s)
    \<and> (sh_front s = F_rest \<and> sh_back s = B_rest \<longrightarrow> (\<exists>ys. rep k (sh_queue s) ys \<and> live ys = xs))"
  using reached_rep [OF assms] rest_rep by metis

theorem concurrent_queue_linearizable_witness:
  "\<exists>xs ys. run_of deque_step ([], \<lambda>_. Resting) [Call Front (Push 0 ''a''), Quiet, Quiet, Call Back Pop,
      Return Back (Given None), Quiet, Point Front, Return Front (Given None)] (xs, statuses pushed)
    \<and> rep 2 (sh_queue pushed) ys \<and> live ys = xs"
proof -
  have "size_ok 2" by (simp add: size_ok_def)
  from concurrent_queue_linearizable [OF this run_pushed] show ?thesis by (auto simp: pushed_def)
qed

text \<open>
  C18. In every run, while a thread reads or writes the work and the tag of an element, which are not atomic, the element
  is in the state \<open>kBusy\<close> and the other thread is not at the same element: there is no data race on them.
\<close>
theorem elements_exclusive:
  assumes "size_ok k" and "run_of (shared_step k) (new_shared k) es s"
  shows "(\<forall>i. front_access k (sh_front s) = Some i \<longrightarrow> state_at i (sh_queue s) = kBusy \<and> back_access k (sh_back s) \<noteq> Some i)
    \<and> (\<forall>i. back_access k (sh_back s) = Some i \<longrightarrow> state_at i (sh_queue s) = kBusy)"
proof -
  from reached_rep [OF assms] obtain cs where r: "shared_rep k s cs" by blast
  note rr = shared_repD(1) [OF r]
  have f: "state_at i (sh_queue s) = kBusy" if a: "front_access k (sh_front s) = Some i" for i
    using front_access_place [OF r a] cell_at_place [of cell_holds k "seen k s" _ _ "[]"] rr cell_state
    by (metis seen_simps(1) state_at_def)
  have b: "state_at i (sh_queue s) = kBusy" if a: "back_access k (sh_back s) = Some i" for i
    using back_access_place [OF r a] cell_at_place [of cell_holds k "seen k s"] rr cell_state
    by (metis seen_simps(1) state_at_def)
  have "back_access k (sh_back s) \<noteq> Some i" if a: "front_access k (sh_front s) = Some i" for i
  proof
    assume "back_access k (sh_back s) = Some i"
    with r obtain ds c es where d: "cs = ds @ c # es" "is_back c" "i = (unat (rq_back (seen k s)) + length ds) mod 2 ^ k"
      by (rule back_access_place)
    from r a obtain ds' c' where d': "cs = ds' @ [c']" "is_front c'" "i = (unat (rq_back (seen k s)) + length ds') mod 2 ^ k"
      by (rule front_access_place)
    have "length ds < 2 ^ k" using repD(2) [OF rr] d(1) by simp
    moreover have "length ds' < 2 ^ k" using repD(2) [OF rr] d'(1) by simp
    ultimately have "length ds = length ds'" 
      by (rule slot_inj [where b = "unat (rq_back (seen k s))"]) (use d(3) d'(3) in simp)
    then have "c = c'" using d(1) d'(1) by simp
    then have "is_back c'" using d(2) by simp
    then show False using d'(2) by (cases c') simp_all
  qed
  with f b show ?thesis by blast
qed

theorem elements_exclusive_witness:
  "front_access 2 (sh_front filling) = Some 0 \<and> state_at 0 (sh_queue filling) = kBusy \<and> back_access 2 (sh_back filling) \<noteq> Some 0"
proof -
  have k: "size_ok 2" by (simp add: size_ok_def)
  have "front_access 2 (sh_front filling) = Some 0" by code_simp
  with elements_exclusive [OF k run_filling] show ?thesis by blast
qed

text \<open>
  C19. \<open>Empty\<close> on the two indices as they are at one moment, in the middle of calls too, holds only if no
  item is live and no element is ready: the order of the stores makes the queue look larger than it is, never smaller.
\<close>
theorem empty_is_empty:
  assumes "size_ok k" and "run_of (shared_step k) (new_shared k) es s" and "rq_Empty k (sh_queue s)"
  shows "run_of deque_step ([], \<lambda>_. Resting) es ([], statuses s) \<and> (\<forall>e \<in> set (rq_array (sh_queue s)). el_state e \<noteq> kReady)"
proof -
  from reached_rep [OF assms(1,2)] obtain cs where r: "shared_rep k s cs"
    and run: "run_of deque_step ([], \<lambda>_. Resting) es (live_cells cs, statuses s)" by blast
  note n = empty_busy [OF r assms(3)]
  have "live_cells cs = []" using n by (fastforce simp: live_cells_def)
  moreover have "el_state e \<noteq> kReady" if "e \<in> set (rq_array (sh_queue s))" for e
  proof -
    from that have "e \<in> set (rq_array (seen k s))" by simp
    with shared_repD(1) [OF r] obtain i where h: "cell_holds e (item_at cs i)" by (rule elem_cell)
    show ?thesis
    proof (cases "i < length cs")
      case True
      then have "cs ! i = FBusy \<or> cs ! i = BBusy" using n by simp
      then show ?thesis using h True by (auto simp: item_at_def)
    qed (use h in \<open>simp add: item_at_def\<close>)
  qed
  ultimately show ?thesis using run by simp
qed

theorem empty_is_empty_witness:
  "run_of deque_step ([], \<lambda>_. Resting) [Call Front (Push 0 ''a''), Quiet, Quiet, Call Back Pop] ([], statuses claimed)"
proof -
  have k: "size_ok 2" by (simp add: size_ok_def)
  have "rq_Empty 2 (sh_queue claimed)" by code_simp
  with empty_is_empty [OF k run_claimed] show ?thesis by blast
qed



text \<open>
  C30. Three reads can agree on a wrong size. Let \<open>n\<close> items be in the queue, and between two reads of \<open>front_\<close> let
  \<open>2 * kSize\<close> items pass through it, each pushed at the back before the owner pops one at the front. Pops do not count in
  \<open>front_\<close>, so its word is the same again, and a read of \<open>back_\<close> \<open>n\<close> items before the end makes \<open>Size\<close> return 0 and \<open>Empty\<close>
  true, although the queue never held fewer than \<open>n\<close> live items.
\<close>
theorem empty_is_misled:
  assumes "rep k q xs" and "list_all is_ready xs" and "0 < length xs" "length xs < 2 ^ k"
  shows "size_round need_estimate k (rq_front q) (rq_back ((pass_through k w ^^ (2 ^ Suc k - length xs)) q))
      (rq_front ((pass_through k w ^^ (2 ^ Suc k)) q)) = Some 0
    \<and> (\<forall>m. \<exists>ys. rep k ((pass_through k w ^^ m) q) ys \<and> length (live ys) = length xs)"
proof
  note k = repD(1) [OF assms(1)]
  let ?M = "2 ^ Suc k :: nat" and ?n = "length xs"
  have n: "?n \<le> ?M" using assms(4) by simp
  let ?b = "rq_back ((pass_through k w ^^ (?M - ?n)) q)"
  have front: "rq_front ((pass_through k w ^^ ?M) q) = rq_front q"
    using pass_through_many [OF assms, where w = w and m = ?M] retreat_around [OF k] by auto
  have "?b = (retreat k ^^ (?M - ?n)) (rq_back q)" using pass_through_many [OF assms, where w = w and m = "?M - ?n"] by auto
  then have "(unat ?b + (?M - ?n)) mod ?M = unat (rq_back q) mod ?M" using retreat_low [OF k] by simp
  then have "(unat ?b + (?M - ?n) + ?n) mod ?M = (unat (rq_back q) + ?n) mod ?M" by (rule mod_add_cong) simp
  moreover have "unat ?b + (?M - ?n) + ?n = unat ?b + ?M" using n by simp
  ultimately have "unat ?b mod ?M = (unat (rq_back q) + ?n) mod ?M" by (simp only: mod_add_self2)
  then have same: "unat (rq_front q) mod ?M = unat ?b mod ?M" using repD(5) [OF assms(1)] by simp
  then have "rq_front q AND kMask2 k = ?b AND kMask2 k" by (simp only: unat_kMask2 [symmetric] word_unat_eq_iff)
  then have "CalculateSize k (rq_front q) ?b = 0" "(rq_front q XOR ?b) AND kMask2 k = 0"
    by (simp_all add: CalculateSize_def Let_def bit.conj_xor_distrib2)
  then show "size_round need_estimate k (rq_front q) ?b (rq_front ((pass_through k w ^^ ?M) q)) = Some 0"
    unfolding front by (simp add: size_round_def)
  have ready: "length (live ys) = length ys" if "list_all is_ready ys" for ys :: "'a deque"
    using that by (induction ys) (auto elim: is_ready.elims)
  show "\<forall>m. \<exists>ys. rep k ((pass_through k w ^^ m) q) ys \<and> length (live ys) = ?n"
    using pass_through_many [OF assms] ready by metis
qed

theorem empty_is_misled_witness:
  "size_round False 2 (rq_front (sh_queue pushed)) (rq_back ((pass_through 2 ''b'' ^^ 7) (sh_queue pushed)))
      (rq_front ((pass_through 2 ''b'' ^^ 8) (sh_queue pushed))) = Some 0"
proof -
  have "rep 2 (RunQueue 2 :: string run_queue) []" by (rule rep_new) (simp add: size_ok_def)
  from PushFront_sim [OF this, of "''a''"] have "rep 2 (sh_queue pushed) [Ready 0 ''a'']"
    by (simp add: sim_def d_push_front_def pushed_def)
  from empty_is_misled [OF this, of False "''b''"] show ?thesis by simp
qed

end
