(* ===== verification/Barrier.thy ===== *)
theory Barrier
  imports Interleaving "HOL-Library.Word"
begin

text \<open>
  The barrier on which threads wait for a number of notifications
  (include/onnxruntime/core/platform/Barrier.h). \<open>n\<close> threads each call \<open>Notify\<close> or \<open>Wait\<close> once. A step is
  an atomic operation on \<open>state_\<close>, or the locking, the test, the waiting and the
  unlocking of the code under the mutex; the steps of the threads interleave. The asserts are checked.
\<close>

section \<open>Model\<close>

datatype barrier_pc =
    N_start nat   \<comment> \<open>before \<open>Notify(c)\<close>\<close>
  | N_lock        \<comment> \<open>\<open>v\<close> is 1, before the lock\<close>
  | N_set         \<comment> \<open>before \<open>notified_ = true\<close>\<close>
  | N_all         \<comment> \<open>before \<open>notify_all\<close>\<close>
  | N_unlock
  | N_done
  | W_start       \<comment> \<open>before \<open>Wait()\<close>\<close>
  | W_lock        \<comment> \<open>\<open>v >> 1\<close> is not 0, before the lock\<close>
  | W_check       \<comment> \<open>before the test of \<open>notified_\<close>\<close>
  | W_sleep       \<comment> \<open>in \<open>cv_.wait\<close>\<close>
  | W_woken       \<comment> \<open>woken, before the lock is taken again\<close>
  | W_unlock
  | W_done
  | Failed        \<comment> \<open>an assert\<close>

record barrier =
  b_state :: "32 word"
  b_notified :: bool
  b_owner :: "nat option"
  b_pc :: "nat \<Rightarrow> barrier_pc"

definition barrier_init :: "nat \<Rightarrow> (nat \<Rightarrow> barrier_pc) \<Rightarrow> barrier" where
  "barrier_init count pcs = \<lparr>b_state = push_bit 1 (of_nat count), b_notified = False, b_owner = None, b_pc = pcs\<rparr>"

definition at_pc :: "nat \<Rightarrow> barrier_pc \<Rightarrow> barrier \<Rightarrow> barrier" where
  "at_pc t p s = s\<lparr>b_pc := (b_pc s)(t := p)\<rparr>"

text \<open>\<open>fetch_sub\<close> and what follows from its result; \<open>fetch_or\<close>; one turn of the spinning loop.\<close>

definition notify_fetch :: "nat \<Rightarrow> nat \<Rightarrow> barrier \<Rightarrow> barrier" where
  "notify_fetch t c s =
     (let delta = push_bit 1 (of_nat c); v = b_state s - delta in
      at_pc t (if v \<noteq> 1 then (if and (v + delta) (not 1) \<noteq> 0 then N_done else Failed) else N_lock) (s\<lparr>b_state := v\<rparr>))"

definition wait_fetch :: "nat \<Rightarrow> barrier \<Rightarrow> barrier" where
  "wait_fetch t s =
     (let v = b_state s in at_pc t (if drop_bit 1 v = 0 then W_done else W_lock) (s\<lparr>b_state := or v 1\<rparr>))"

definition wake_all :: "(nat \<Rightarrow> barrier_pc) \<Rightarrow> nat \<Rightarrow> barrier_pc" where
  "wake_all pcs t = (if pcs t = W_sleep then W_woken else pcs t)"

inductive barrier_step :: "bool \<Rightarrow> nat \<Rightarrow> barrier \<Rightarrow> barrier \<Rightarrow> bool" for spin n where
  fetch_sub: "t < n \<Longrightarrow> b_pc s t = N_start c \<Longrightarrow> barrier_step spin n s (notify_fetch t c s)"
| n_lock: "t < n \<Longrightarrow> b_pc s t = N_lock \<Longrightarrow> b_owner s = None \<Longrightarrow>
    barrier_step spin n s (at_pc t N_set (s\<lparr>b_owner := Some t\<rparr>))"
| n_set: "t < n \<Longrightarrow> b_pc s t = N_set \<Longrightarrow>
    barrier_step spin n s (at_pc t (if b_notified s then Failed else N_all) (s\<lparr>b_notified := True\<rparr>))"
| n_all: "t < n \<Longrightarrow> b_pc s t = N_all \<Longrightarrow>
    barrier_step spin n s (at_pc t N_unlock (s\<lparr>b_pc := wake_all (b_pc s)\<rparr>))"
| n_unlock: "t < n \<Longrightarrow> b_pc s t = N_unlock \<Longrightarrow> barrier_step spin n s (at_pc t N_done (s\<lparr>b_owner := None\<rparr>))"
| fetch_or: "t < n \<Longrightarrow> b_pc s t = W_start \<Longrightarrow> \<not> spin \<Longrightarrow> barrier_step spin n s (wait_fetch t s)"
| spun: "t < n \<Longrightarrow> b_pc s t = W_start \<Longrightarrow> spin \<Longrightarrow> drop_bit 1 (b_state s) = 0 \<Longrightarrow>
    barrier_step spin n s (at_pc t W_done s)"
| w_lock: "t < n \<Longrightarrow> b_pc s t = W_lock \<or> b_pc s t = W_woken \<Longrightarrow> b_owner s = None \<Longrightarrow>
    barrier_step spin n s (at_pc t W_check (s\<lparr>b_owner := Some t\<rparr>))"
| w_check: "t < n \<Longrightarrow> b_pc s t = W_check \<Longrightarrow> b_notified s \<Longrightarrow> barrier_step spin n s (at_pc t W_unlock s)"
| w_sleep: "t < n \<Longrightarrow> b_pc s t = W_check \<Longrightarrow> \<not> b_notified s \<Longrightarrow>
    barrier_step spin n s (at_pc t W_sleep (s\<lparr>b_owner := None\<rparr>))"
| w_unlock: "t < n \<Longrightarrow> b_pc s t = W_unlock \<Longrightarrow> barrier_step spin n s (at_pc t W_done (s\<lparr>b_owner := None\<rparr>))"

text \<open>What may happen any number of times without progress: a spurious wake-up, and a turn of the spinning loop, which changes nothing.\<close>

inductive barrier_stutter :: "nat \<Rightarrow> barrier \<Rightarrow> barrier \<Rightarrow> bool" for n where
  spurious: "t < n \<Longrightarrow> b_pc s t = W_sleep \<Longrightarrow> barrier_stutter n s (at_pc t W_woken s)"
| spinning: "t < n \<Longrightarrow> b_pc s t = W_start \<Longrightarrow> drop_bit 1 (b_state s) \<noteq> 0 \<Longrightarrow> barrier_stutter n s s"

text \<open>Each thread is about to notify once or to wait, and the notifications add up to the count.\<close>

fun owed :: "barrier_pc \<Rightarrow> nat" where
  "owed (N_start c) = c"
| "owed p = 0"

definition pending :: "nat \<Rightarrow> barrier \<Rightarrow> nat" where
  "pending n s = threads_sum owed 0 n (b_pc s)"

definition barrier_roles :: "nat \<Rightarrow> nat \<Rightarrow> (nat \<Rightarrow> barrier_pc) \<Rightarrow> bool" where
  "barrier_roles count n pcs \<longleftrightarrow> count < 2 ^ 31 \<and> threads_sum owed 0 n pcs = count
     \<and> list_all (\<lambda>t. pcs t = W_start \<or> 0 < owed (pcs t)) [0..<n]"

definition barrier_start :: "nat \<Rightarrow> nat \<Rightarrow> barrier \<Rightarrow> bool" where
  "barrier_start count n s \<longleftrightarrow> barrier_roles count n (b_pc s) \<and> s = barrier_init count (b_pc s)"

definition barrier_any :: "bool \<Rightarrow> nat \<Rightarrow> barrier \<Rightarrow> barrier \<Rightarrow> bool" where
  "barrier_any spin n s s' \<longleftrightarrow> barrier_step spin n s s' \<or> barrier_stutter n s s'"

abbreviation barrier_reached :: "bool \<Rightarrow> nat \<Rightarrow> nat \<Rightarrow> barrier \<Rightarrow> bool" where
  "barrier_reached spin count n \<equiv> reached (barrier_start count n) (barrier_any spin n)"

section \<open>The word\<close>

definition packed :: "nat \<Rightarrow> bool \<Rightarrow> 32 word" where
  "packed k waiter = of_nat (2 * k + of_bool waiter)"

lemma unat_packed: "k < 2 ^ 31 \<Longrightarrow> unat (packed k waiter) = 2 * k + of_bool waiter"
  unfolding packed_def unat_of_nat by simp

lemma push_one: "push_bit 1 (of_nat c :: 32 word) = of_nat (2 * c)"
  by (simp add: push_bit_eq_mult)

lemma packed_sub: "c \<le> k \<Longrightarrow> packed k waiter - push_bit 1 (of_nat c) = packed (k - c) waiter"
  by (simp add: packed_def push_one of_nat_diff algebra_simps)

lemma packed_eq_1:
  assumes "k < 2 ^ 31"
  shows "packed k waiter = 1 \<longleftrightarrow> k = 0 \<and> waiter"
proof -
  have "packed k waiter = 1 \<longleftrightarrow> unat (packed k waiter) = 1" by (metis unat_1 word_unat_eq_iff)
  then show ?thesis unfolding unat_packed [OF assms] by auto
qed

lemma packed_shift:
  assumes "k < 2 ^ 31"
  shows "drop_bit 1 (packed k waiter) = 0 \<longleftrightarrow> k = 0"
proof -
  have "unat (drop_bit 1 (packed k waiter)) = k"
    using unat_packed [OF assms, of waiter] by (simp only: unat_drop_bit_eq) (simp add: drop_bit_eq_div)
  then show ?thesis by (metis unat_eq_0)
qed

lemma packed_or: "or (packed k waiter) 1 = packed k True"
  unfolding or_one_eq by (cases waiter) (simp_all add: packed_def)

lemma packed_mask:
  assumes "k < 2 ^ 31" "0 < k"
  shows "and (packed k waiter) (not 1) \<noteq> 0"
proof
  assume "and (packed k waiter) (not 1) = 0"
  then have "drop_bit 1 (and (packed k waiter) (not 1)) = 0" by simp
  moreover have "drop_bit 1 (and (packed k waiter) (not 1)) = drop_bit 1 (packed k waiter)"
  proof (rule bit_word_eqI)
    fix i assume "i < LENGTH(32)"
    show "bit (drop_bit 1 (and (packed k waiter) (not 1))) i = bit (drop_bit 1 (packed k waiter)) i"
      unfolding bit_drop_bit_eq bit_and_iff bit_not_iff bit_1_iff o_def by (auto dest: bit_imp_possible_bit)
  qed
  ultimately show False using packed_shift [OF assms(1)] assms(2) by simp
qed


section \<open>Invariant\<close>

fun signalling :: "barrier_pc \<Rightarrow> bool" where
  "signalling N_lock = True"
| "signalling N_set = True"
| "signalling N_all = True"
| "signalling N_unlock = True"
| "signalling _ = False"

fun waiting :: "barrier_pc \<Rightarrow> bool" where
  "waiting W_lock = True"
| "waiting W_check = True"
| "waiting W_sleep = True"
| "waiting W_woken = True"
| "waiting _ = False"

fun holding :: "barrier_pc \<Rightarrow> bool" where
  "holding N_set = True"
| "holding N_all = True"
| "holding N_unlock = True"
| "holding W_check = True"
| "holding W_unlock = True"
| "holding _ = False"

definition state_inv :: "nat \<Rightarrow> nat \<Rightarrow> barrier \<Rightarrow> bool" where
  "state_inv count n s \<longleftrightarrow> pending n s \<le> count \<and> (\<exists>waiter. b_state s = packed (pending n s) waiter
     \<and> (\<not> waiter \<longrightarrow> (\<forall>t < n. \<not> waiting (b_pc s t))))"

text \<open>Of the places of the threads, whether all notifications have been made (\<open>z\<close>), and \<open>notified_\<close>.\<close>

definition signal_ok :: "nat \<Rightarrow> (nat \<Rightarrow> barrier_pc) \<Rightarrow> bool \<Rightarrow> bool \<Rightarrow> bool" where
  "signal_ok n pcs z nt \<longleftrightarrow> (\<forall>t < n. pcs t \<noteq> Failed \<and> pcs t \<noteq> N_start 0)
     \<and> (\<forall>t < n. \<forall>u < n. signalling (pcs t) \<longrightarrow> signalling (pcs u) \<longrightarrow> u = t)
     \<and> (\<forall>t < n. signalling (pcs t) \<or> pcs t = W_unlock \<or> pcs t = W_done \<longrightarrow> z) \<and> (nt \<longrightarrow> z)
     \<and> (\<forall>t < n. pcs t = N_lock \<or> pcs t = N_set \<longrightarrow> \<not> nt)"

definition wakeup_ok :: "nat \<Rightarrow> (nat \<Rightarrow> barrier_pc) \<Rightarrow> bool \<Rightarrow> bool \<Rightarrow> bool" where
  "wakeup_ok n pcs z nt \<longleftrightarrow>
     ((\<exists>t < n. waiting (pcs t)) \<and> z \<and> \<not> nt \<longrightarrow> (\<exists>u < n. pcs u = N_lock \<or> pcs u = N_set))
     \<and> ((\<exists>t < n. pcs t = W_sleep) \<and> nt \<longrightarrow> (\<exists>u < n. pcs u = N_all))"

definition signal_inv :: "nat \<Rightarrow> barrier \<Rightarrow> bool" where
  "signal_inv n s \<longleftrightarrow> signal_ok n (b_pc s) (pending n s = 0) (b_notified s)"

definition wakeup_inv :: "nat \<Rightarrow> barrier \<Rightarrow> bool" where
  "wakeup_inv n s \<longleftrightarrow> wakeup_ok n (b_pc s) (pending n s = 0) (b_notified s)"

definition mutex_inv :: "nat \<Rightarrow> barrier \<Rightarrow> bool" where
  "mutex_inv n s \<longleftrightarrow> (\<forall>t. b_owner s = Some t \<longleftrightarrow> t < n \<and> holding (b_pc s t))"

lemma pending_at: "t < n \<Longrightarrow> pending n (at_pc t p s) + owed (b_pc s t) = pending n s + owed p"
  by (simp add: pending_def at_pc_def threads_sum_move)

lemma pending_update [simp]: "pending n (s\<lparr>b_state := v\<rparr>) = pending n s" "pending n (s\<lparr>b_notified := b\<rparr>) = pending n s"
  "pending n (s\<lparr>b_owner := q\<rparr>) = pending n s" "pending n (s\<lparr>b_pc := wake_all (b_pc s)\<rparr>) = pending n s"
proof -
  have "owed (wake_all (b_pc s) t) = owed (b_pc s t)" for t by (simp add: wake_all_def)
  then show "pending n (s\<lparr>b_pc := wake_all (b_pc s)\<rparr>) = pending n s" by (simp add: pending_def cong: threads_sum_cong)
qed (simp_all add: pending_def)

text \<open>A thread that owes no notification, before and after.\<close>

lemma pending_same: "t < n \<Longrightarrow> owed (b_pc s t) = 0 \<Longrightarrow> owed p = 0 \<Longrightarrow> pending n (at_pc t p s) = pending n s"
  using pending_at [of t n p s] by simp

lemma pending_pos: "t < n \<Longrightarrow> b_pc s t = N_start c \<Longrightarrow> c \<le> pending n s"
  unfolding pending_def using threads_sum_member [of 0 t n owed "b_pc s"] by simp

lemma at_pc_simps [simp]:
  "b_state (at_pc t p s) = b_state s" "b_notified (at_pc t p s) = b_notified s" "b_owner (at_pc t p s) = b_owner s"
  "b_pc (at_pc t p s) u = (if u = t then p else b_pc s u)"
  by (simp_all add: at_pc_def)

lemma mutex_keep:
  assumes "mutex_inv n s" "b_pc s0 = b_pc s" "b_owner s0 = b_owner s" "holding p \<longleftrightarrow> holding (b_pc s t)"
  shows "mutex_inv n (at_pc t p s0)"
  using assms by (simp add: mutex_inv_def)

lemma mutex_take:
  assumes "mutex_inv n s" "b_owner s = None" "b_pc s0 = b_pc s" "b_owner s0 = Some t" "t < n" "holding p"
  shows "mutex_inv n (at_pc t p s0)"
proof -
  have "\<not> (u < n \<and> holding (b_pc s u))" for u using assms(1,2) unfolding mutex_inv_def by fastforce
  then show ?thesis using assms(3-) by (simp add: mutex_inv_def)
qed

lemma mutex_give:
  assumes "mutex_inv n s" "holding (b_pc s t)" "t < n" "b_pc s0 = b_pc s" "b_owner s0 = None" "\<not> holding p"
  shows "mutex_inv n (at_pc t p s0)"
proof -
  have "\<not> (u < n \<and> holding (b_pc s u))" if "u \<noteq> t" for u
    using assms(1,2,3) that unfolding mutex_inv_def by (metis option.inject)
  then show ?thesis using assms(4-) by (simp add: mutex_inv_def)
qed

lemma mutex_wake_all: "mutex_inv n s \<Longrightarrow> mutex_inv n (s\<lparr>b_pc := wake_all (b_pc s)\<rparr>)"
proof -
  have "holding (wake_all (b_pc s) t) = holding (b_pc s t)" for t by (simp add: wake_all_def)
  then show "mutex_inv n s \<Longrightarrow> mutex_inv n (s\<lparr>b_pc := wake_all (b_pc s)\<rparr>)"
    by (simp add: mutex_inv_def)
qed

lemma mutex_step:
  assumes "barrier_step spin n s s'" "mutex_inv n s" "signal_inv n s"
  shows "mutex_inv n s'"
  using assms
proof (induction rule: barrier_step.induct)
  case (fetch_sub t s c)
  then show ?case unfolding notify_fetch_def Let_def by (intro mutex_keep [of n s]) simp_all
next
  case (n_all t s)
  then show ?case by (intro mutex_keep [OF mutex_wake_all [of n s]]) (simp_all add: wake_all_def)
next
  case (fetch_or t s)
  then show ?case unfolding wait_fetch_def Let_def by (intro mutex_keep [of n s]) simp_all
next
  case (n_lock t s)
  then show ?case by (intro mutex_take [of n s]) simp_all
next
  case (w_lock t s)
  then show ?case by (intro mutex_take [of n s]) simp_all
next
  case (n_unlock t s)
  then show ?case by (intro mutex_give [of n s]) simp_all
next
  case (w_sleep t s)
  then show ?case by (intro mutex_give [of n s]) simp_all
next
  case (w_unlock t s)
  then show ?case by (intro mutex_give [of n s]) simp_all
next
  case (n_set t s)
  then have "\<not> b_notified s" by (simp add: signal_inv_def signal_ok_def)
  with n_set show ?case by (intro mutex_keep [of n s]) simp_all
qed (auto intro!: mutex_keep)

text \<open>What a notification does.\<close>

lemma notify_fetch_eq:
  assumes inv: "state_inv count n s" "signal_inv n s" and count: "count < 2 ^ 31" and t: "t < n" "b_pc s t = N_start c"
    and w: "b_state s = packed (pending n s) waiter"
  shows "0 < c" "c \<le> pending n s" "pending n (notify_fetch t c s) = pending n s - c"
    and "notify_fetch t c s
      = at_pc t (if pending n s = c \<and> waiter then N_lock else N_done) (s\<lparr>b_state := packed (pending n s - c) waiter\<rparr>)"
proof -
  show c: "0 < c" "c \<le> pending n s" using inv(2) t pending_pos [OF t] by (auto simp: signal_inv_def signal_ok_def)
  have k: "pending n s < 2 ^ 31" using inv(1) count by (simp add: state_inv_def)
  have v: "b_state s - push_bit 1 (of_nat c) = packed (pending n s - c) waiter"
    using packed_sub [OF c(2)] w by simp
  have one: "packed (pending n s - c) waiter = 1 \<longleftrightarrow> pending n s = c \<and> waiter"
    using packed_eq_1 [of "pending n s - c"] k c by auto
  have m: "and (packed (pending n s - c) waiter + push_bit 1 (of_nat c)) (not 1) \<noteq> 0"
    using packed_mask [OF k, of waiter] c v w by (metis diff_add_cancel less_le_trans)
  show eq: "notify_fetch t c s
      = at_pc t (if pending n s = c \<and> waiter then N_lock else N_done) (s\<lparr>b_state := packed (pending n s - c) waiter\<rparr>)"
    unfolding notify_fetch_def Let_def v one using m by simp
  show "pending n (notify_fetch t c s) = pending n s - c"
  proof -
    have "owed (if pending n s = c \<and> waiter then N_lock else N_done) = 0" by simp
    then show ?thesis unfolding eq
      using pending_at [OF t(1), of "if pending n s = c \<and> waiter then N_lock else N_done"
        "s\<lparr>b_state := packed (pending n s - c) waiter\<rparr>"] t(2) by simp
  qed
qed

lemma state_step:
  assumes "barrier_step spin n s s'" "state_inv count n s" "signal_inv n s" "count < 2 ^ 31"
  shows "state_inv count n s'"
proof -
  obtain waiter where w: "b_state s = packed (pending n s) waiter" "\<not> waiter \<longrightarrow> (\<forall>t < n. \<not> waiting (b_pc s t))"
    using assms(2) by (auto simp: state_inv_def)
  have le: "pending n s \<le> count" using assms(2) by (simp add: state_inv_def)
  have keep: "state_inv count n s'" if "pending n s' = pending n s" "b_state s' = b_state s"
    "\<And>u. u < n \<Longrightarrow> waiting (b_pc s' u) \<Longrightarrow> \<exists>u < n. waiting (b_pc s u)"
    using that w le unfolding state_inv_def by metis
  show ?thesis using assms(1)
  proof cases
    case (fetch_sub t c)
    note f = notify_fetch_eq [OF assms(2,3,4) fetch_sub(2,3) w(1)]
    show ?thesis unfolding fetch_sub(1) state_inv_def f(3) using f(4) w(2) le by auto
  next
    case (fetch_or t)
    have "pending n s' = pending n s" unfolding fetch_or wait_fetch_def Let_def
      using fetch_or by (subst pending_same) simp_all
    moreover have "b_state s' = packed (pending n s) True"
      unfolding fetch_or wait_fetch_def Let_def using w(1) packed_or by simp
    ultimately show ?thesis using le unfolding state_inv_def by auto
  next
    case (n_all t)
    have "pending n s' = pending n s" unfolding n_all using n_all pending_same [of t n "s\<lparr>b_pc := wake_all (b_pc s)\<rparr>" N_unlock]
      by (simp add: wake_all_def)
    then show ?thesis by (rule keep) (auto simp: n_all wake_all_def split: if_splits)
  next
    case (w_lock t)
    show ?thesis by (rule keep) (use w_lock in \<open>auto simp: pending_same\<close>)
  qed (rule keep; auto simp: pending_same split: if_splits; fail)+
qed


text \<open>When one thread moves from \<open>pcs t\<close> to \<open>p\<close>.\<close>

lemma signal_move:
  assumes "signal_ok n pcs z nt" "t < n" "p \<noteq> Failed" "p \<noteq> N_start 0" "z \<longrightarrow> z'"
    and "signalling p \<longrightarrow> (\<forall>u < n. u \<noteq> t \<longrightarrow> \<not> signalling (pcs u))"
    and "signalling p \<or> p = W_unlock \<or> p = W_done \<or> nt' \<longrightarrow> z'"
    and "p = N_lock \<or> p = N_set \<longrightarrow> \<not> nt'"
    and "nt' \<longrightarrow> nt \<or> (\<forall>u < n. u \<noteq> t \<longrightarrow> \<not> signalling (pcs u))"
  shows "signal_ok n (pcs(t := p)) z' nt'"
proof -
  have ok: "\<forall>u < n. pcs u \<noteq> Failed \<and> pcs u \<noteq> N_start 0" and uniq: "\<forall>u < n. \<forall>v < n. signalling (pcs u) \<longrightarrow> signalling (pcs v) \<longrightarrow> v = u"
    and zero: "\<forall>u < n. signalling (pcs u) \<or> pcs u = W_unlock \<or> pcs u = W_done \<longrightarrow> z"
    and fresh: "\<forall>u < n. pcs u = N_lock \<or> pcs u = N_set \<longrightarrow> \<not> nt" using assms(1) by (simp_all add: signal_ok_def)
  have sig: "signalling (pcs u)" if "pcs u = N_lock \<or> pcs u = N_set" for u using that by auto
  have "\<forall>u < n. (pcs(t := p)) u \<noteq> Failed \<and> (pcs(t := p)) u \<noteq> N_start 0" using ok assms(3,4) by simp
  moreover have "\<forall>u < n. \<forall>v < n. signalling ((pcs(t := p)) u) \<longrightarrow> signalling ((pcs(t := p)) v) \<longrightarrow> v = u"
    using uniq assms(6) by auto
  moreover have "\<forall>u < n. signalling ((pcs(t := p)) u) \<or> (pcs(t := p)) u = W_unlock \<or> (pcs(t := p)) u = W_done \<longrightarrow> z'"
    using zero assms(5,7) by auto
  moreover have "\<forall>u < n. (pcs(t := p)) u = N_lock \<or> (pcs(t := p)) u = N_set \<longrightarrow> \<not> nt'"
    using fresh sig assms(8,9) by auto
  ultimately show ?thesis using assms(7) by (simp only: signal_ok_def) blast
qed

lemma wakeup_move:
  assumes "wakeup_ok n pcs z nt" "t < n" "nt \<longrightarrow> nt'"
    and "pcs t = N_lock \<or> pcs t = N_set \<longrightarrow> p = N_lock \<or> p = N_set \<or> nt'"
    and "z' \<longrightarrow> z \<or> p = N_lock \<or> (\<forall>u < n. \<not> waiting (pcs u))"
    and "waiting p \<longrightarrow> waiting (pcs t) \<or> \<not> z'"
    and "pcs t = N_all \<longrightarrow> (\<forall>u < n. pcs u \<noteq> W_sleep)"
    and "nt' \<longrightarrow> nt \<or> p = N_all" "p = W_sleep \<longrightarrow> \<not> nt'"
  shows "wakeup_ok n (pcs(t := p)) z' nt'"
  unfolding wakeup_ok_def
proof (intro conjI impI)
  assume "(\<exists>u < n. waiting ((pcs(t := p)) u)) \<and> z' \<and> \<not> nt'"
  then obtain u where u: "u < n" "waiting ((pcs(t := p)) u)" and z': "z'" "\<not> nt'" by blast
  have some: "\<exists>u < n. waiting (pcs u)" using u assms(2,6) z'(1) by (cases "u = t") auto
  show "\<exists>u < n. (pcs(t := p)) u = N_lock \<or> (pcs(t := p)) u = N_set"
  proof (cases "p = N_lock")
    case True
    then show ?thesis using assms(2) by auto
  next
    case False
    then have "z" using assms(5) z'(1) some by blast
    then obtain v where v: "v < n" "pcs v = N_lock \<or> pcs v = N_set"
      using some assms(1,3) z'(2) unfolding wakeup_ok_def by blast
    then show ?thesis using assms(4) z'(2) by (cases "v = t") auto
  qed
next
  assume "(\<exists>u < n. (pcs(t := p)) u = W_sleep) \<and> nt'"
  then obtain u where u: "u < n" "(pcs(t := p)) u = W_sleep" and nt': "nt'" by blast
  have u': "u \<noteq> t" "pcs u = W_sleep" using u assms(9) nt' by (auto split: if_splits)
  show "\<exists>u < n. (pcs(t := p)) u = N_all"
  proof (cases "p = N_all")
    case True
    then show ?thesis using assms(2) by auto
  next
    case False
    then have "nt" using assms(8) nt' by blast
    then obtain v where v: "v < n" "pcs v = N_all" using assms(1) u(1) u'(2) unfolding wakeup_ok_def by blast
    then have "v \<noteq> t" using assms(7) u(1) u'(2) by blast
    then show ?thesis using v by auto
  qed
qed

lemma signal_inv_move:
  assumes "signal_inv n s" "t < n" "owed (b_pc s t) = 0" "owed p = 0" "p \<noteq> Failed" "p \<noteq> N_start 0" "b_pc s0 = b_pc s"
    and "signalling p \<longrightarrow> (\<forall>u < n. u \<noteq> t \<longrightarrow> \<not> signalling (b_pc s u))"
    and "signalling p \<or> p = W_unlock \<or> p = W_done \<or> b_notified s0 \<longrightarrow> pending n s = 0"
    and "p = N_lock \<or> p = N_set \<longrightarrow> \<not> b_notified s0"
    and "b_notified s0 \<longrightarrow> b_notified s \<or> (\<forall>u < n. u \<noteq> t \<longrightarrow> \<not> signalling (b_pc s u))"
  shows "signal_inv n (at_pc t p s0)"
  using assms signal_move [of n "b_pc s" "pending n s = 0" "b_notified s" t p "pending n s = 0" "b_notified s0"]
    pending_same [of t n s0 p] unfolding signal_inv_def by (simp add: at_pc_def pending_def)

lemma wakeup_inv_move:
  assumes "wakeup_inv n s" "t < n" "owed (b_pc s t) = 0" "owed p = 0" "b_pc s0 = b_pc s" "b_notified s \<longrightarrow> b_notified s0"
    and "b_pc s t = N_lock \<or> b_pc s t = N_set \<longrightarrow> p = N_lock \<or> p = N_set \<or> b_notified s0"
    and "waiting p \<longrightarrow> waiting (b_pc s t) \<or> pending n s \<noteq> 0"
    and "b_pc s t = N_all \<longrightarrow> (\<forall>u < n. b_pc s u \<noteq> W_sleep)"
    and "b_notified s0 \<longrightarrow> b_notified s \<or> p = N_all" "p = W_sleep \<longrightarrow> \<not> b_notified s0"
  shows "wakeup_inv n (at_pc t p s0)"
  using assms wakeup_move [of n "b_pc s" "pending n s = 0" "b_notified s" t "b_notified s0" p "pending n s = 0"]
    pending_same [of t n s0 p] unfolding wakeup_inv_def by (simp add: at_pc_def pending_def)


lemma wake_all_places:
  "signalling (wake_all pcs t) \<longleftrightarrow> signalling (pcs t)" "waiting (wake_all pcs t) \<longleftrightarrow> waiting (pcs t)" "wake_all pcs t \<noteq> W_sleep"
  "p \<noteq> W_sleep \<Longrightarrow> p \<noteq> W_woken \<Longrightarrow> wake_all pcs t = p \<longleftrightarrow> pcs t = p" "owed (wake_all pcs t) = owed (pcs t)"
  by (auto simp: wake_all_def)

lemma signal_inv_wake_all: "signal_inv n s \<Longrightarrow> signal_inv n (s\<lparr>b_pc := wake_all (b_pc s)\<rparr>)"
  by (simp add: signal_inv_def signal_ok_def wake_all_places)

lemma wakeup_inv_wake_all: "wakeup_inv n s \<Longrightarrow> wakeup_inv n (s\<lparr>b_pc := wake_all (b_pc s)\<rparr>)"
  by (simp add: wakeup_inv_def wakeup_ok_def wake_all_places)

definition barrier_inv :: "nat \<Rightarrow> nat \<Rightarrow> barrier \<Rightarrow> bool" where
  "barrier_inv count n s \<longleftrightarrow> state_inv count n s \<and> signal_inv n s \<and> wakeup_inv n s \<and> mutex_inv n s"

lemma barrier_inv_zero:
  assumes "barrier_inv count n s" "count < 2 ^ 31"
  shows "drop_bit 1 (b_state s) = 0 \<longleftrightarrow> pending n s = 0"
  using assms packed_shift [of "pending n s"] by (auto simp: barrier_inv_def state_inv_def)

lemma notify_step_inv:
  assumes inv: "barrier_inv count n s" and count: "count < 2 ^ 31" and t: "t < n" "b_pc s t = N_start c"
  shows "signal_inv n (notify_fetch t c s)" "wakeup_inv n (notify_fetch t c s)"
proof -
  have i: "state_inv count n s" "signal_inv n s" "wakeup_inv n s" using inv by (simp_all add: barrier_inv_def)
  obtain waiter where w: "b_state s = packed (pending n s) waiter" "\<not> waiter \<longrightarrow> (\<forall>t < n. \<not> waiting (b_pc s t))"
    using i(1) by (auto simp: state_inv_def)
  note f = notify_fetch_eq [OF i(1,2) count t w(1)]
  let ?p = "if pending n s = c \<and> waiter then N_lock else N_done"
  have pcs: "b_pc (notify_fetch t c s) = (b_pc s)(t := ?p)" "b_notified (notify_fetch t c s) = b_notified s"
    unfolding f(4) by (simp_all add: at_pc_def)
  have z: "pending n s \<noteq> 0" using f(1,2) by simp
  have sg: "signal_ok n (b_pc s) False (b_notified s)" and wk: "wakeup_ok n (b_pc s) False (b_notified s)"
    using i(2,3) z by (simp_all add: signal_inv_def wakeup_inv_def)
  have none: "\<not> b_notified s" "\<forall>u < n. \<not> signalling (b_pc s u)" using sg by (simp_all add: signal_ok_def)
  have none': "b_pc s t \<noteq> N_all" "b_pc s t \<noteq> N_lock" "b_pc s t \<noteq> N_set" using t(2) by simp_all
  show "signal_inv n (notify_fetch t c s)"
    unfolding signal_inv_def pcs f(3) by (rule signal_move [OF sg t(1)]) (use none in auto)
  show "wakeup_inv n (notify_fetch t c s)"
    unfolding wakeup_inv_def pcs f(3) by (rule wakeup_move [OF wk t(1)]) (use none none' w(2) f(2) in auto)
qed

lemma barrier_step_inv:
  assumes step: "barrier_step spin n s s'" and inv: "barrier_inv count n s" and count: "count < 2 ^ 31"
  shows "barrier_inv count n s'"
proof -
  have i: "state_inv count n s" "signal_inv n s" "wakeup_inv n s" "mutex_inv n s" using inv by (simp_all add: barrier_inv_def)
  have zero: "signalling (b_pc s u) \<or> b_pc s u = W_unlock \<or> b_pc s u = W_done \<longrightarrow> pending n s = 0" if "u < n" for u
    using i(2) that unfolding signal_inv_def signal_ok_def by blast
  have nt: "b_notified s \<longrightarrow> pending n s = 0" using i(2) unfolding signal_inv_def signal_ok_def by blast
  have fresh: "\<not> b_notified s" if "u < n" "b_pc s u = N_lock \<or> b_pc s u = N_set" for u
    using i(2) that unfolding signal_inv_def signal_ok_def by blast
  have uniq: "\<forall>u < n. u \<noteq> t \<longrightarrow> \<not> signalling (b_pc s u)" if "t < n" "signalling (b_pc s t)" for t
    using i(2) that unfolding signal_inv_def signal_ok_def by blast
  have "signal_inv n s' \<and> wakeup_inv n s'" using step
  proof cases
    case (fetch_sub t c)
    then show ?thesis using notify_step_inv [OF inv count] by simp
  next
    case (n_lock t)
    show ?thesis unfolding n_lock(1)
      by (intro conjI signal_inv_move [OF i(2)] wakeup_inv_move [OF i(3)])
        (use n_lock uniq [of t] zero [of t] nt fresh [of t] in auto)
  next
    case (n_set t)
    show ?thesis unfolding n_set(1)
      by (intro conjI signal_inv_move [OF i(2)] wakeup_inv_move [OF i(3)])
        (use n_set uniq [of t] zero [of t] nt fresh [of t] in auto)
  next
    case (n_all t)
    show ?thesis unfolding n_all(1)
      by (intro conjI signal_inv_move [OF signal_inv_wake_all [OF i(2)]] wakeup_inv_move [OF wakeup_inv_wake_all [OF i(3)]])
        (use n_all uniq [of t] zero [of t] nt in \<open>auto simp: wake_all_places\<close>)
  next
    case (fetch_or t)
    have z: "drop_bit 1 (b_state s) = 0 \<longleftrightarrow> pending n s = 0" by (rule barrier_inv_zero [OF inv count])
    show ?thesis unfolding fetch_or(1) wait_fetch_def Let_def z
      by (intro conjI signal_inv_move [OF i(2)] wakeup_inv_move [OF i(3)]) (use fetch_or nt in auto)
  next
    case (spun t)
    then have "pending n s = 0" using barrier_inv_zero [OF inv count] by simp
    then show ?thesis unfolding spun(1)
      by (intro conjI signal_inv_move [OF i(2)] wakeup_inv_move [OF i(3)]) (use spun in auto)
  next
    case (w_lock t)
    show ?thesis unfolding w_lock(1)
      by (intro conjI signal_inv_move [OF i(2)] wakeup_inv_move [OF i(3)]) (use w_lock nt in auto)
  qed (intro conjI; (simp only:)?; (rule signal_inv_move [OF i(2)] | rule wakeup_inv_move [OF i(3)]); use zero nt uniq in auto)+
  then show ?thesis
    using state_step [OF step i(1,2) count] mutex_step [OF step i(4,2)] by (simp add: barrier_inv_def)
qed


lemma barrier_stutter_inv:
  assumes "barrier_stutter n s s'" "barrier_inv count n s"
  shows "barrier_inv count n s'"
  using assms
proof (induction rule: barrier_stutter.induct)
  case (spurious t s)
  then have i: "state_inv count n s" "signal_inv n s" "wakeup_inv n s" "mutex_inv n s" by (simp_all add: barrier_inv_def)
  have "b_notified s \<longrightarrow> pending n s = 0" using i(2) unfolding signal_inv_def signal_ok_def by blast
  then have "signal_inv n (at_pc t W_woken s)" by (intro signal_inv_move [OF i(2)]) (use spurious in auto)
  moreover have "wakeup_inv n (at_pc t W_woken s)" by (intro wakeup_inv_move [OF i(3)]) (use spurious in auto)
  moreover have "mutex_inv n (at_pc t W_woken s)" by (intro mutex_keep [OF i(4)]) (use spurious in auto)
  moreover have "state_inv count n (at_pc t W_woken s)"
    using i(1) spurious pending_same [of t n s W_woken] unfolding state_inv_def by (auto split: if_splits)
  ultimately show ?case by (simp add: barrier_inv_def)
qed

lemma barrier_init_inv:
  assumes "barrier_roles count n pcs"
  shows "barrier_inv count n (barrier_init count pcs)"
proof -
  have p: "pending n (barrier_init count pcs) = count" using assms by (simp add: pending_def barrier_init_def barrier_roles_def)
  have r: "pcs t = W_start \<or> 0 < owed (pcs t)" if "t < n" for t
    using assms that by (simp add: barrier_roles_def list_all_iff)
  have k: "b_pc (barrier_init count pcs) = pcs" "\<not> b_notified (barrier_init count pcs)" by (simp_all add: barrier_init_def)
  have places: "\<not> signalling (pcs t) \<and> \<not> waiting (pcs t) \<and> \<not> holding (pcs t) \<and> pcs t \<noteq> Failed \<and> pcs t \<noteq> N_start 0
      \<and> pcs t \<noteq> W_unlock \<and> pcs t \<noteq> W_done \<and> pcs t \<noteq> N_lock \<and> pcs t \<noteq> N_set" if "t < n" for t
    using r [OF that] by (cases "pcs t") auto
  have "b_state (barrier_init count pcs) = packed count False"
    by (simp add: barrier_init_def packed_def push_one)
  then show ?thesis
    using places unfolding barrier_inv_def state_inv_def signal_inv_def wakeup_inv_def mutex_inv_def signal_ok_def wakeup_ok_def p k
    by (auto simp: barrier_init_def)
qed

section \<open>Progress\<close>

fun rank :: "nat \<Rightarrow> barrier_pc \<Rightarrow> nat" where
  "rank n (N_start c) = 2 * n + 6" | "rank n N_lock = 2 * n + 5" | "rank n N_set = 2 * n + 4" | "rank n N_all = 2 * n + 3"
| "rank n N_unlock = 1" | "rank n N_done = 0"
| "rank n W_start = 5" | "rank n W_lock = 4" | "rank n W_woken = 4" | "rank n W_check = 3" | "rank n W_sleep = 2"
| "rank n W_unlock = 1" | "rank n W_done = 0" | "rank n Failed = 0"

definition work_left :: "nat \<Rightarrow> barrier \<Rightarrow> nat" where
  "work_left n s = threads_sum (rank n) 0 n (b_pc s)"

lemma work_left_at: "t < n \<Longrightarrow> work_left n (at_pc t p s) + rank n (b_pc s t) = work_left n s + rank n p"
  by (simp add: work_left_def at_pc_def threads_sum_move)

lemma work_left_update [simp]: "work_left n (s\<lparr>b_state := v\<rparr>) = work_left n s" "work_left n (s\<lparr>b_notified := b\<rparr>) = work_left n s"
  "work_left n (s\<lparr>b_owner := q\<rparr>) = work_left n s"
  by (simp_all add: work_left_def)

lemma work_left_less: "t < n \<Longrightarrow> work_left n s0 = work_left n s \<Longrightarrow> b_pc s0 = b_pc s \<Longrightarrow> rank n p < rank n (b_pc s t) \<Longrightarrow>
    work_left n (at_pc t p s0) < work_left n s"
  using work_left_at [of t n p s0] by simp

lemma work_left_wake_all: "work_left n (s\<lparr>b_pc := wake_all (b_pc s)\<rparr>) \<le> work_left n s + 2 * n"
proof -
  have "work_left n (s\<lparr>b_pc := wake_all (b_pc s)\<rparr>) \<le> threads_sum (\<lambda>p. rank n p + 2) 0 n (b_pc s)"
    unfolding work_left_def by (rule threads_sum_mono) (simp add: wake_all_def)
  also have "\<dots> = work_left n s + 2 * n" unfolding threads_sum_add threads_sum_const by (simp add: work_left_def)
  finally show ?thesis .
qed

lemma barrier_step_less:
  assumes "barrier_step spin n s s'"
  shows "work_left n s' < work_left n s"
  using assms
proof (induction rule: barrier_step.induct)
  case (n_all t s)
  then show ?case using work_left_at [of t n N_unlock "s\<lparr>b_pc := wake_all (b_pc s)\<rparr>"] work_left_wake_all [of n s]
    by (simp add: wake_all_def)
next
  case (fetch_sub t s c)
  then show ?case unfolding notify_fetch_def Let_def by (intro work_left_less) simp_all
next
  case (fetch_or t s)
  then show ?case unfolding wait_fetch_def Let_def by (intro work_left_less) simp_all
qed (auto intro!: work_left_less)

text \<open>A state without a step: every thread has returned.\<close>

lemma barrier_stuck:
  assumes inv: "barrier_inv count n s" and count: "count < 2 ^ 31" and stuck: "\<And>s'. \<not> barrier_step spin n s s'" and t: "t < n"
  shows "b_pc s t = N_done \<or> b_pc s t = W_done"
proof -
  have i: "state_inv count n s" "signal_inv n s" "wakeup_inv n s" "mutex_inv n s" using inv by (simp_all add: barrier_inv_def)
  have not_holding: "\<not> holding (b_pc s u)" if "u < n" for u
  proof
    assume "holding (b_pc s u)"
    then show False using stuck barrier_step.intros(3-5,9-11) [of u n s spin] that by (cases "b_pc s u") auto
  qed
  have owner: "b_owner s = None"
  proof (cases "b_owner s")
    case (Some u)
    then have "u < n \<and> holding (b_pc s u)" using i(4) unfolding mutex_inv_def by blast
    then show ?thesis using not_holding by blast
  qed
  have none: "b_pc s u \<noteq> N_start c" "b_pc s u \<noteq> N_lock" "b_pc s u \<noteq> W_lock" "b_pc s u \<noteq> W_woken" if "u < n" for u c
    using stuck barrier_step.intros(1,2,8) [of u n s] that owner by blast+
  have "owed (b_pc s u) = 0" if "u < n" for u using none(1) [OF that] by (cases "b_pc s u") auto
  then have z: "pending n s = 0" by (simp add: pending_def threads_sum_0)
  then have shift: "drop_bit 1 (b_state s) = 0" using barrier_inv_zero [OF inv count] by simp
  have "b_pc s t \<noteq> W_start" using stuck barrier_step.intros(6,7) [of t n s spin] t shift by blast
  moreover have "b_pc s t \<noteq> W_sleep"
  proof
    assume sleep: "b_pc s t = W_sleep"
    show False
    proof (cases "b_notified s")
      case True
      then obtain u where "u < n" "b_pc s u = N_all" using i(3) sleep t unfolding wakeup_inv_def wakeup_ok_def by blast
      then show False using not_holding by force
    next
      case False
      moreover have "waiting (b_pc s t)" using sleep by simp
      ultimately obtain u where "u < n" "b_pc s u = N_lock \<or> b_pc s u = N_set"
        using i(3) z t unfolding wakeup_inv_def wakeup_ok_def by blast
      then show False using not_holding none(2) by force
    qed
  qed
  moreover have "b_pc s t \<noteq> Failed" using i(2) t by (simp add: signal_inv_def signal_ok_def)
  ultimately show ?thesis using not_holding [OF t] none [OF t] by (cases "b_pc s t") auto
qed


definition all_returned :: "nat \<Rightarrow> barrier \<Rightarrow> bool" where
  "all_returned n s \<longleftrightarrow> list_all (\<lambda>t. b_pc s t = N_done \<or> b_pc s t = W_done) [0..<n]"

interpretation bar: progress "barrier_start count n" "barrier_any spin n" "\<lambda>s. barrier_inv count n s \<and> count < 2 ^ 31"
  "barrier_step spin n" "work_left n" "all_returned n"
proof
  fix s s'
  show "barrier_start count n s \<Longrightarrow> barrier_inv count n s \<and> count < 2 ^ 31"
    using barrier_init_inv [of count n "b_pc s"] by (auto simp: barrier_start_def barrier_roles_def)
  show "barrier_any spin n s s' \<Longrightarrow> barrier_inv count n s \<and> count < 2 ^ 31 \<Longrightarrow> barrier_inv count n s' \<and> count < 2 ^ 31"
    using barrier_step_inv barrier_stutter_inv by (auto simp: barrier_any_def)
  show "barrier_step spin n s s' \<Longrightarrow> barrier_any spin n s s'" by (simp add: barrier_any_def)
  show "barrier_step spin n s s' \<Longrightarrow> barrier_inv count n s \<and> count < 2 ^ 31 \<Longrightarrow> work_left n s' < work_left n s"
    using barrier_step_less by blast
  show "\<exists>s'. barrier_step spin n s s'" if i: "barrier_inv count n s \<and> count < 2 ^ 31" and g: "\<not> all_returned n s"
  proof (rule ccontr)
    assume "\<nexists>s'. barrier_step spin n s s'"
    then have "b_pc s t = N_done \<or> b_pc s t = W_done" if "t < n" for t
      using barrier_stuck [OF conjunct1 [OF i] conjunct2 [OF i] _ that] by blast
    then show False using g by (simp add: all_returned_def list_all_iff)
  qed
qed

text \<open>
  C20. Nobody returns from \<open>Wait\<close> before all notifications have been made, and no assert fails, in
  every state that the interleaved threads can reach, spurious wake-ups included.
\<close>

theorem barrier_waits_for_all:
  assumes "barrier_reached spin count n s" "t < n"
  shows "b_pc s t \<noteq> Failed \<and> (b_pc s t = W_done \<longrightarrow> pending n s = 0)"
proof -
  have "signal_inv n s" using bar.reached_invariant [OF assms(1)] by (simp add: barrier_inv_def)
  then show ?thesis using assms(2) unfolding signal_inv_def signal_ok_def by blast
qed

text \<open>
  C15. No wake-up is lost and nothing deadlocks: from every reachable state, every way the threads go on (in any
  interleaving, apart from spurious wake-ups and idle turns of the spinning loop, of which any
  number may have come before) ends, after a number of steps that is bounded from the start, and it ends only when every waiter
  and every notifier has returned.
\<close>

theorem barrier_returns:
  assumes "barrier_reached spin count n s"
  shows "always_ends (barrier_step spin n) (work_left n s) (all_returned n) s"
  by (rule bar.reached_ends [OF assms])

text \<open>Two waiters and a notifier; the first waiter is already asleep.\<close>

definition three_threads :: "nat \<Rightarrow> barrier_pc" where
  "three_threads t = (if t = 0 then N_start 1 else W_start)"

lemma three_threads_waiting:
  "barrier_reached False 1 3 (wait_fetch 1 (barrier_init 1 three_threads))"
proof (rule reached_step [OF reached_start])
  show "barrier_start 1 3 (barrier_init 1 three_threads)"
    by (simp add: barrier_start_def barrier_init_def barrier_roles_def three_threads_def threads_sum_def numeral_3_eq_3)
  show "barrier_any False 3 (barrier_init 1 three_threads) (wait_fetch 1 (barrier_init 1 three_threads))"
    unfolding barrier_any_def by (rule disjI1, rule fetch_or) (simp_all add: barrier_init_def three_threads_def)
qed

theorem barrier_waits_for_all_witness:
  "b_pc (wait_fetch 1 (barrier_init 1 three_threads)) 2 \<noteq> Failed"
  using barrier_waits_for_all [OF three_threads_waiting, of 2] by simp

theorem barrier_returns_witness:
  "always_ends (barrier_step False 3) 21 (all_returned 3) (wait_fetch 1 (barrier_init 1 three_threads))"
proof -
  have "work_left 3 (wait_fetch 1 (barrier_init 1 three_threads)) = 21"
    by (simp add: work_left_def threads_sum_def numeral_3_eq_3 wait_fetch_def Let_def barrier_init_def three_threads_def)
  then show ?thesis using barrier_returns [OF three_threads_waiting] by simp
qed

end
