(* ===== verification/ParallelSection.thy ===== *)
theory ParallelSection
  imports Interleaving
begin

text \<open>
  Parallel sections (class \<open>ThreadPoolTempl\<close> in
  include/onnxruntime/core/platform/EigenNonBlockingThreadPool.h): a main thread opens a section, runs loops in it
  with the help of tasks that it sends to the workers, and closes it. The atomic members of the section are
  sequentially consistent, so a state is their values, the place of the main thread and the place
  of each task; a step is one access to an atomic, and the steps interleave. That a task can be revoked
  only as long as it is queued, and that a queue may reject it, is what the work queue gives (\<open>RunQueue\<close>).
\<close>

section \<open>Model\<close>

text \<open>A \<open>ThreadPoolLoop\<close>: which one it is, and \<open>threads_needed\<close>.\<close>

record par_loop =
  loop_no :: nat
  threads_needed :: nat

text \<open>
  The place of a task. The parameter of the first two places is the body: a loop function for \<open>RunInParallel\<close>,
  nothing for the long-lived function of \<open>RunInParallelSection\<close>. The number is \<open>my_idx\<close>.
\<close>

datatype task_pc =
    Unborn
  | Queued "par_loop option"
  | Begun "par_loop option"       \<comment> \<open>popped, before \<open>++ps.worker_idx\<close>\<close>
  | Direct nat par_loop           \<comment> \<open>in the loop function of \<open>RunInParallel\<close>\<close>
  | Test nat                      \<comment> \<open>before \<open>while (ps.active)\<close>\<close>
  | Look nat                      \<comment> \<open>before \<open>if (!ps.current_loop)\<close>\<close>
  | Enter nat                     \<comment> \<open>before \<open>ps.workers_in_loop++\<close>\<close>
  | Read nat                      \<comment> \<open>before \<open>work_item = ps.current_loop\<close>\<close>
  | Got nat "par_loop option"     \<comment> \<open>with \<open>work_item\<close>\<close>
  | Running nat par_loop          \<comment> \<open>in \<open>work_item->fn(my_idx)\<close>\<close>
  | Leave nat                     \<comment> \<open>before \<open>ps.workers_in_loop--\<close>\<close>
  | Finish                        \<comment> \<open>before \<open>ps.tasks_finished++\<close>\<close>
  | Finished
  | Revoked

text \<open>The place of the main thread. The flag and the options tell \<open>RunInParallel\<close> from a section with several loops.\<close>

datatype main_pc =
    Outside                              \<comment> \<open>no section; the object may be deleted\<close>
  | Idle                                 \<comment> \<open>in a section, in no loop\<close>
  | Summon bool par_loop nat             \<comment> \<open>in \<open>SummonWorkers\<close>, with the number of tasks still to create\<close>
  | Body bool par_loop                   \<comment> \<open>in \<open>fn(0)\<close>\<close>
  | Clear par_loop                       \<comment> \<open>before \<open>ps.current_loop = 0\<close>\<close>
  | Wait_loop par_loop                   \<comment> \<open>\<open>while (ps.workers_in_loop)\<close>\<close>
  | Revoke "par_loop option" nat nat     \<comment> \<open>\<open>while (!ps.tasks.empty())\<close>, with \<open>tasks_started\<close> and \<open>tasks_revoked\<close>\<close>
  | Wait_tasks "par_loop option" nat     \<comment> \<open>\<open>while (ps.tasks_finished < tasks_to_wait_for)\<close>\<close>
  | Reset "par_loop option"              \<comment> \<open>before \<open>ps.tasks_finished = 0\<close>\<close>

text \<open>
  \<open>tasks\<close> has the entries of \<open>ps.tasks\<close>, the last one first. The last three fields are history: the first task of the section, the number of tasks
  ever created, and the value of \<open>worker_idx\<close> when the section started.
\<close>

record par_section =
  ps_active :: bool
  worker_idx :: nat
  tasks_finished :: nat
  current_loop :: "par_loop option"
  workers_in_loop :: nat
  ps_tasks :: "nat list"
  main_at :: main_pc
  task_at :: "nat \<Rightarrow> task_pc"
  first_task :: nat
  next_task :: nat
  base_idx :: nat

text \<open>A new object; the threads are as before.\<close>

definition new_section :: "par_section \<Rightarrow> par_section" where
  "new_section s = s\<lparr>ps_active := False, worker_idx := 0, tasks_finished := 0, current_loop := None,
     workers_in_loop := 0, ps_tasks := [], base_idx := 0\<rparr>"

definition section_init :: par_section where
  "section_init = \<lparr>ps_active = False, worker_idx = 0, tasks_finished = 0, current_loop = None, workers_in_loop = 0,
     ps_tasks = [], main_at = Outside, task_at = (\<lambda>_. Unborn), first_task = 0, next_task = 0, base_idx = 0\<rparr>"

definition task_to :: "nat \<Rightarrow> task_pc \<Rightarrow> par_section \<Rightarrow> par_section" where
  "task_to t p s = s\<lparr>task_at := (task_at s)(t := p)\<rparr>"

text \<open>\<open>extra_needed\<close>, from the tasks there are.\<close>

definition extra_needed :: "nat \<Rightarrow> par_section \<Rightarrow> nat" where
  "extra_needed n s = (let current_dop = length (ps_tasks s) + 1 in if n > current_dop then n - current_dop else 0)"

text \<open>The operations of the main thread that are more than one assignment.\<close>

definition push_task :: "bool \<Rightarrow> par_loop \<Rightarrow> par_section \<Rightarrow> par_section" where
  "push_task direct l s = task_to (next_task s) (Queued (if direct then Some l else None))
     (s\<lparr>ps_tasks := next_task s # ps_tasks s, next_task := Suc (next_task s)\<rparr>)"

fun is_queued :: "task_pc \<Rightarrow> bool" where
  "is_queued (Queued b) = True"
| "is_queued _ = False"

definition revoke_task :: "par_loop option \<Rightarrow> nat \<Rightarrow> nat \<Rightarrow> par_section \<Rightarrow> par_section" where
  "revoke_task d n r s =
     (let t = hd (ps_tasks s) in
      if is_queued (task_at s t) then task_to t Revoked (s\<lparr>ps_tasks := tl (ps_tasks s), main_at := Revoke d n (Suc r)\<rparr>)
      else s\<lparr>ps_tasks := tl (ps_tasks s), main_at := Revoke d n r\<rparr>)"

definition end_section :: "par_loop option \<Rightarrow> par_section \<Rightarrow> par_section" where
  "end_section d s = s\<lparr>ps_active := False, main_at := Revoke d (length (ps_tasks s)) 0\<rparr>"

inductive main_step :: "par_section \<Rightarrow> par_section \<Rightarrow> bool" where
  allocate: "main_at s = Outside \<Longrightarrow> main_step s (new_section s)"
| start: "main_at s = Outside \<Longrightarrow> main_step s (s\<lparr>ps_active := True, main_at := Idle\<rparr>)"
| start_direct: "main_at s = Outside \<Longrightarrow>
    main_step s ((new_section s)\<lparr>ps_active := True, main_at := Summon True l (threads_needed l - 1)\<rparr>)"
| start_loop: "main_at s = Idle \<Longrightarrow> 1 < threads_needed l \<Longrightarrow>
    main_step s (s\<lparr>current_loop := Some l, main_at := Summon False l (extra_needed (threads_needed l) s)\<rparr>)"
| pushed: "main_at s = Summon d l (Suc k) \<Longrightarrow> main_step s ((push_task d l s)\<lparr>main_at := Summon d l k\<rparr>)"
| rejected: "main_at s = Summon d l (Suc k) \<Longrightarrow> main_step s (s\<lparr>main_at := Summon d l k\<rparr>)"
| summoned: "main_at s = Summon d l 0 \<Longrightarrow> main_step s (s\<lparr>main_at := Body d l\<rparr>)"
| ran: "main_at s = Body False l \<Longrightarrow> main_step s (s\<lparr>main_at := Clear l\<rparr>)"
| ran_direct: "main_at s = Body True l \<Longrightarrow> main_step s (end_section (Some l) s)"
| clear: "main_at s = Clear l \<Longrightarrow> main_step s (s\<lparr>current_loop := None, main_at := Wait_loop l\<rparr>)"
| loop_left: "main_at s = Wait_loop l \<Longrightarrow> workers_in_loop s = 0 \<Longrightarrow> main_step s (s\<lparr>main_at := Idle\<rparr>)"
| end_idle: "main_at s = Idle \<Longrightarrow> main_step s (end_section None s)"
| revoke: "main_at s = Revoke d n r \<Longrightarrow> ps_tasks s \<noteq> [] \<Longrightarrow> main_step s (revoke_task d n r s)"
| revoked_all: "main_at s = Revoke d n r \<Longrightarrow> ps_tasks s = [] \<Longrightarrow> main_step s (s\<lparr>main_at := Wait_tasks d (n - r)\<rparr>)"
| tasks_done: "main_at s = Wait_tasks d k \<Longrightarrow> \<not> tasks_finished s < k \<Longrightarrow> main_step s (s\<lparr>main_at := Reset d\<rparr>)"
| reset: "main_at s = Reset d \<Longrightarrow>
    main_step s (s\<lparr>tasks_finished := 0, main_at := Outside, first_task := next_task s, base_idx := worker_idx s\<rparr>)"

inductive task_step :: "nat \<Rightarrow> par_section \<Rightarrow> par_section \<Rightarrow> bool" for t where
  popped: "task_at s t = Queued b \<Longrightarrow> task_step t s (task_to t (Begun b) s)"
| numbered: "task_at s t = Begun b \<Longrightarrow>
    task_step t s (task_to t (case b of None \<Rightarrow> Test (Suc (worker_idx s)) | Some l \<Rightarrow> Direct (Suc (worker_idx s)) l)
      (s\<lparr>worker_idx := Suc (worker_idx s)\<rparr>))"
| direct: "task_at s t = Direct i l \<Longrightarrow> task_step t s (task_to t Finish s)"
| test_off: "task_at s t = Test i \<Longrightarrow> \<not> ps_active s \<Longrightarrow> task_step t s (task_to t Finish s)"
| look: "task_at s t = Look i \<Longrightarrow> task_step t s (task_to t (if current_loop s = None then Test i else Enter i) s)"
| enter: "task_at s t = Enter i \<Longrightarrow> task_step t s (task_to t (Read i) (s\<lparr>workers_in_loop := Suc (workers_in_loop s)\<rparr>))"
| read: "task_at s t = Read i \<Longrightarrow> task_step t s (task_to t (Got i (current_loop s)) s)"
| got: "task_at s t = Got i item \<Longrightarrow>
    task_step t s (task_to t (case item of None \<Rightarrow> Leave i | Some l \<Rightarrow> if i < threads_needed l then Running i l else Leave i) s)"
| ran_fn: "task_at s t = Running i l \<Longrightarrow> task_step t s (task_to t (Leave i) s)"
| leave: "task_at s t = Leave i \<Longrightarrow> task_step t s (task_to t (Test i) (s\<lparr>workers_in_loop := workers_in_loop s - 1\<rparr>))"
| finish: "task_at s t = Finish \<Longrightarrow> task_step t s (task_to t Finished (s\<lparr>tasks_finished := Suc (tasks_finished s)\<rparr>))"

text \<open>The worker goes round its loop once more.\<close>

inductive task_turn :: "nat \<Rightarrow> par_section \<Rightarrow> par_section \<Rightarrow> bool" for t where
  test_on: "task_at s t = Test i \<Longrightarrow> ps_active s \<Longrightarrow> task_turn t s (task_to t (Look i) s)"

definition section_step :: "par_section \<Rightarrow> par_section \<Rightarrow> bool" where
  "section_step s s' \<longleftrightarrow> main_step s s' \<or> (\<exists>t < next_task s. task_step t s s' \<or> task_turn t s s')"

definition section_start :: "par_section \<Rightarrow> bool" where
  "section_start s \<longleftrightarrow> s = section_init"

abbreviation section_reached :: "par_section \<Rightarrow> bool" where
  "section_reached \<equiv> reached section_start section_step"

section \<open>Invariant\<close>

fun counted :: "task_pc \<Rightarrow> nat" where
  "counted (Read i) = 1"
| "counted (Got i item) = 1"
| "counted (Running i l) = 1"
| "counted (Leave i) = 1"
| "counted _ = 0"

fun has_finished :: "task_pc \<Rightarrow> nat" where
  "has_finished Finished = 1"
| "has_finished _ = 0"

fun was_revoked :: "task_pc \<Rightarrow> nat" where
  "was_revoked Revoked = 1"
| "was_revoked _ = 0"

fun has_number :: "task_pc \<Rightarrow> nat" where
  "has_number Unborn = 0"
| "has_number (Queued b) = 0"
| "has_number (Begun b) = 0"
| "has_number Revoked = 0"
| "has_number _ = 1"

fun my_idx :: "task_pc \<Rightarrow> nat option" where
  "my_idx (Direct i l) = Some i"
| "my_idx (Test i) = Some i"
| "my_idx (Look i) = Some i"
| "my_idx (Enter i) = Some i"
| "my_idx (Read i) = Some i"
| "my_idx (Got i item) = Some i"
| "my_idx (Running i l) = Some i"
| "my_idx (Leave i) = Some i"
| "my_idx _ = None"

fun over :: "task_pc \<Rightarrow> bool" where
  "over Finished = True"
| "over Revoked = True"
| "over _ = False"

text \<open>The loop on the stack of the main thread that the workers find through \<open>current_loop\<close>, or through their body.\<close>

fun shared_loop :: "main_pc \<Rightarrow> par_loop option" where
  "shared_loop (Summon False l k) = Some l"
| "shared_loop (Body False l) = Some l"
| "shared_loop (Clear l) = Some l"
| "shared_loop (Wait_loop l) = Some l"
| "shared_loop _ = None"

fun direct_loop :: "main_pc \<Rightarrow> par_loop option" where
  "direct_loop (Summon True l k) = Some l"
| "direct_loop (Body True l) = Some l"
| "direct_loop (Revoke d n r) = d"
| "direct_loop (Wait_tasks d k) = d"
| "direct_loop (Reset d) = d"
| "direct_loop _ = None"

fun closing :: "main_pc \<Rightarrow> bool" where
  "closing (Revoke d n r) = True"
| "closing (Wait_tasks d k) = True"
| "closing (Reset d) = True"
| "closing _ = False"

fun task_ok :: "main_pc \<Rightarrow> task_pc \<Rightarrow> bool" where
  "task_ok m (Queued (Some l)) = (direct_loop m = Some l)"
| "task_ok m (Begun (Some l)) = (direct_loop m = Some l)"
| "task_ok m (Direct i l) = (direct_loop m = Some l)"
| "task_ok m (Got i (Some l)) = (shared_loop m = Some l)"
| "task_ok m (Running i l) = (shared_loop m = Some l \<and> i < threads_needed l)"
| "task_ok m Revoked = closing m"
| "task_ok m Unborn = False"
| "task_ok m _ = True"

definition tasks_inv :: "par_section \<Rightarrow> bool" where
  "tasks_inv s \<longleftrightarrow> first_task s \<le> next_task s \<and> (\<forall>t < first_task s. over (task_at s t))
     \<and> (\<forall>t \<ge> next_task s. task_at s t = Unborn)
     \<and> (\<forall>t. first_task s \<le> t \<and> t < next_task s \<longrightarrow> task_ok (main_at s) (task_at s t))"

definition section_sum :: "(task_pc \<Rightarrow> nat) \<Rightarrow> par_section \<Rightarrow> nat" where
  "section_sum g s = threads_sum g (first_task s) (next_task s) (task_at s)"

definition counts_inv :: "par_section \<Rightarrow> bool" where
  "counts_inv s \<longleftrightarrow> workers_in_loop s = section_sum counted s \<and> tasks_finished s = section_sum has_finished s
     \<and> worker_idx s = base_idx s + section_sum has_number s"

definition idx_inv :: "par_section \<Rightarrow> bool" where
  "idx_inv s \<longleftrightarrow> (\<forall>t i. my_idx (task_at s t) = Some i \<longrightarrow> base_idx s < i \<and> i \<le> worker_idx s)
     \<and> (\<forall>t u i. my_idx (task_at s t) = Some i \<longrightarrow> my_idx (task_at s u) = Some i \<longrightarrow> t = u)"

text \<open>What holds at a place of the main thread.\<close>

definition all_tasks :: "par_section \<Rightarrow> bool" where
  "all_tasks s \<longleftrightarrow> ps_tasks s = rev [first_task s..<next_task s]"

definition direct_room :: "par_loop option \<Rightarrow> nat \<Rightarrow> par_section \<Rightarrow> bool" where
  "direct_room d k s \<longleftrightarrow> (\<forall>l. d = Some l \<longrightarrow> base_idx s = 0 \<and> next_task s - first_task s + k \<le> threads_needed l - 1)"

definition unqueued :: "nat \<Rightarrow> par_section \<Rightarrow> bool" where
  "unqueued m s \<longleftrightarrow> (\<forall>t. m \<le> t \<and> t < next_task s \<longrightarrow> \<not> is_queued (task_at s t))"

fun main_ok :: "main_pc \<Rightarrow> par_section \<Rightarrow> bool" where
  "main_ok Outside s = (\<not> ps_active s \<and> current_loop s = None \<and> ps_tasks s = [] \<and> first_task s = next_task s)"
| "main_ok Idle s = (ps_active s \<and> current_loop s = None \<and> all_tasks s)"
| "main_ok (Summon d l k) s = (ps_active s \<and> current_loop s = (if d then None else Some l) \<and> all_tasks s
     \<and> direct_room (if d then Some l else None) k s)"
| "main_ok (Body d l) s = (ps_active s \<and> current_loop s = (if d then None else Some l) \<and> all_tasks s
     \<and> direct_room (if d then Some l else None) 0 s)"
| "main_ok (Clear l) s = (ps_active s \<and> current_loop s = Some l \<and> all_tasks s)"
| "main_ok (Wait_loop l) s = (ps_active s \<and> current_loop s = None \<and> all_tasks s)"
| "main_ok (Revoke d n r) s = (\<not> ps_active s \<and> current_loop s = None \<and> n = next_task s - first_task s
     \<and> r = section_sum was_revoked s \<and> direct_room d 0 s
     \<and> (\<exists>m. first_task s \<le> m \<and> m \<le> next_task s \<and> ps_tasks s = rev [first_task s..<m] \<and> unqueued m s))"
| "main_ok (Wait_tasks d k) s = (\<not> ps_active s \<and> current_loop s = None \<and> ps_tasks s = []
     \<and> k = next_task s - first_task s - section_sum was_revoked s \<and> direct_room d 0 s \<and> unqueued (first_task s) s)"
| "main_ok (Reset d) s = (\<not> ps_active s \<and> current_loop s = None \<and> ps_tasks s = []
     \<and> (\<forall>t < next_task s. over (task_at s t)))"

definition section_inv :: "par_section \<Rightarrow> bool" where
  "section_inv s \<longleftrightarrow> tasks_inv s \<and> counts_inv s \<and> idx_inv s \<and> main_ok (main_at s) s"

lemma task_to_simps [simp]:
  "ps_active (task_to t p s) = ps_active s" "worker_idx (task_to t p s) = worker_idx s"
  "tasks_finished (task_to t p s) = tasks_finished s" "current_loop (task_to t p s) = current_loop s"
  "workers_in_loop (task_to t p s) = workers_in_loop s" "ps_tasks (task_to t p s) = ps_tasks s"
  "main_at (task_to t p s) = main_at s" "task_at (task_to t p s) = (task_at s)(t := p)"
  "first_task (task_to t p s) = first_task s" "next_task (task_to t p s) = next_task s" "base_idx (task_to t p s) = base_idx s"
  by (simp_all add: task_to_def)

text \<open>A task that is not over: it is in the section.\<close>

lemma live_task: "tasks_inv s \<Longrightarrow> t < next_task s \<Longrightarrow> \<not> over (task_at s t) \<Longrightarrow>
    first_task s \<le> t \<and> task_ok (main_at s) (task_at s t) \<and> task_at s t \<noteq> Unborn"
  unfolding tasks_inv_def by (metis not_le task_ok.simps(7))

lemma task_step_live: "task_step t s s' \<Longrightarrow> \<not> over (task_at s t)"
  by (induction rule: task_step.induct) simp_all

lemma task_turn_live: "task_turn t s s' \<Longrightarrow> \<not> over (task_at s t)"
  by (induction rule: task_turn.induct) simp_all

text \<open>What all steps of a task have in common.\<close>

definition task_moves :: "nat \<Rightarrow> par_section \<Rightarrow> par_section \<Rightarrow> bool" where
  "task_moves t s s' \<longleftrightarrow> task_at s' = (task_at s)(t := task_at s' t) \<and> task_at s' t \<noteq> Revoked \<and> \<not> is_queued (task_at s' t)
     \<and> ps_active s' = ps_active s \<and> current_loop s' = current_loop s \<and> ps_tasks s' = ps_tasks s \<and> main_at s' = main_at s
     \<and> first_task s' = first_task s \<and> next_task s' = next_task s \<and> base_idx s' = base_idx s"

lemma task_step_moves: "task_step t s s' \<Longrightarrow> task_moves t s s'"
  by (induction rule: task_step.induct) (simp_all add: task_moves_def split: option.split)

lemma task_turn_moves: "task_turn t s s' \<Longrightarrow> task_moves t s s'"
  by (induction rule: task_turn.induct) (simp add: task_moves_def)

lemma section_sum_keep:
  assumes "task_at s' = (task_at s)(t := q)" "first_task s' = first_task s" "next_task s' = next_task s" "g q = g (task_at s t)"
  shows "section_sum g s' = section_sum g s"
  unfolding section_sum_def assms(1-3)
  by (rule threads_sum_cong) (use assms(4) in simp)

lemma main_ok_moves:
  assumes "main_ok (main_at s) s" "task_moves t s s'" "first_task s \<le> t" "t < next_task s" "\<not> over (task_at s t)"
  shows "main_ok (main_at s') s'"
proof -
  let ?q = "task_at s' t"
  have eq: "task_at s' = (task_at s)(t := ?q)" "ps_active s' = ps_active s" "current_loop s' = current_loop s"
    "ps_tasks s' = ps_tasks s" "main_at s' = main_at s" "first_task s' = first_task s" "next_task s' = next_task s"
    "base_idx s' = base_idx s" and q: "?q \<noteq> Revoked" "\<not> is_queued ?q"
    using assms(2) unfolding task_moves_def by blast+
  have "was_revoked ?q = 0" using q(1) by (cases ?q) simp_all
  moreover have "was_revoked (task_at s t) = 0" using assms(5) by (cases "task_at s t") simp_all
  ultimately have r: "section_sum was_revoked s' = section_sum was_revoked s"
    by (intro section_sum_keep [OF eq(1,6,7)]) simp
  have un: "unqueued m s'" if "unqueued m s" for m
    unfolding unqueued_def eq(7) using that q(2) by (subst eq(1)) (simp add: unqueued_def)
  have room: "direct_room d k s' = direct_room d k s" for d k by (simp add: direct_room_def eq)
  have all: "all_tasks s' = all_tasks s" by (simp add: all_tasks_def eq)
  show ?thesis unfolding eq(5)
  proof (cases "main_at s")
    case (Reset d)
    then show "main_ok (main_at s) s'" using assms(1,4,5) by auto
  next
    case (Revoke d n k)
    then show "main_ok (main_at s) s'" using assms(1) un by (auto simp: eq(2-) r room)
  next
    case (Wait_tasks d k)
    then show "main_ok (main_at s) s'" using assms(1) un by (auto simp: eq(2-) r room)
  qed (use assms(1) in \<open>auto simp: eq(2-) all room\<close>)
qed

lemma main_ok_loop: "main_ok m s \<Longrightarrow> current_loop s = Some l \<Longrightarrow> shared_loop m = Some l"
  by (cases "(m, s)" rule: main_ok.cases) (auto split: if_splits)

lemma task_step_ok:
  assumes "task_step t s s'" "task_ok (main_at s) (task_at s t)" "main_ok (main_at s) s"
  shows "task_ok (main_at s) (task_at s' t)"
  using assms
proof (induction rule: task_step.induct)
  case (popped s b)
  then show ?case by (cases b) auto
next
  case (numbered s b)
  then show ?case by (cases b) auto
next
  case (read s i)
  then show ?case using main_ok_loop [of "main_at s" s] by (cases "current_loop s") auto
next
  case (got s i item)
  then show ?case by (cases item) auto
qed simp_all

lemma task_turn_ok: "task_turn t s s' \<Longrightarrow> task_ok (main_at s) (task_at s' t)"
  by (induction rule: task_turn.induct) simp

lemma tasks_inv_moves:
  assumes "tasks_inv s" "task_moves t s s'" "first_task s \<le> t" "t < next_task s" "task_ok (main_at s) (task_at s' t)"
  shows "tasks_inv s'"
proof -
  have eq: "task_at s' u = (if u = t then task_at s' t else task_at s u)" "main_at s' = main_at s" "first_task s' = first_task s"
    "next_task s' = next_task s" for u
    using assms(2) unfolding task_moves_def by (metis fun_upd_apply)+
  show ?thesis unfolding tasks_inv_def eq(2-4)
  proof (intro conjI allI impI)
    fix u assume "first_task s \<le> u \<and> u < next_task s"
    then show "task_ok (main_at s) (task_at s' u)" using assms(1,5) eq(1) [of u] unfolding tasks_inv_def by metis
  next
    fix u assume "u < first_task s"
    then show "over (task_at s' u)" using assms(1,3) eq(1) [of u] unfolding tasks_inv_def by (metis not_le)
  next
    fix u assume "next_task s \<le> u"
    then show "task_at s' u = Unborn" using assms(1,4) eq(1) [of u] unfolding tasks_inv_def by (metis not_le)
  qed (use assms(1) in \<open>simp add: tasks_inv_def\<close>)
qed

lemma counts_step:
  assumes "task_step t s s'" "counts_inv s" "first_task s \<le> t" "t < next_task s"
  shows "counts_inv s'"
  using assms(1)
proof cases
  case (leave i)
  then show ?thesis using assms(2-) threads_sum_down [of "first_task s" t "next_task s" counted "task_at s" "Test i"]
    by (simp add: counts_inv_def section_sum_def threads_sum_same)
qed (use assms(2-) in \<open>simp add: counts_inv_def section_sum_def threads_sum_same threads_sum_up split: option.split\<close>)+

lemma counts_turn:
  assumes "task_turn t s s'" "counts_inv s" "first_task s \<le> t" "t < next_task s"
  shows "counts_inv s'"
  using assms(1) by cases (use assms(2-) in \<open>simp add: counts_inv_def section_sum_def threads_sum_same\<close>)

lemma idx_moves:
  assumes "idx_inv s" "task_at s' = (task_at s)(t := q)" "base_idx s' = base_idx s" "worker_idx s \<le> worker_idx s'"
    and "my_idx q = None \<or> my_idx q = my_idx (task_at s t) \<or> my_idx q = Some (Suc (worker_idx s)) \<and> worker_idx s' = Suc (worker_idx s)
      \<and> base_idx s \<le> worker_idx s"
  shows "idx_inv s'"
proof -
  have old: "base_idx s < i \<and> i \<le> worker_idx s" if "my_idx (task_at s u) = Some i" for u i
    using assms(1) that unfolding idx_inv_def by blast
  have uniq: "u = v" if "my_idx (task_at s u) = Some i" "my_idx (task_at s v) = Some i" for u v i
    using assms(1) that unfolding idx_inv_def by blast
  have new: "my_idx q = Some i \<Longrightarrow> my_idx (task_at s t) = Some i \<or> i = Suc (worker_idx s) \<and> worker_idx s' = i \<and> base_idx s < i" for i
    using assms(5) by auto
  show ?thesis unfolding idx_inv_def assms(3)
  proof (intro conjI allI impI)
    fix u i assume "my_idx (task_at s' u) = Some i"
    then show "base_idx s < i" "i \<le> worker_idx s'"
      using old [of u i] old [of t i] new [of i] assms(4) by (auto simp: assms(2) split: if_splits)
  next
    fix u v i assume u: "my_idx (task_at s' u) = Some i" and v: "my_idx (task_at s' v) = Some i"
    have far: "\<not> my_idx (task_at s w) = Some (Suc (worker_idx s))" for w using old [of w] by fastforce
    show "u = v"
    proof (cases "u = t"; cases "v = t")
      assume "u = t" "v \<noteq> t"
      then show ?thesis using u v uniq [of t i v] far [of v] new [of i] by (auto simp: assms(2))
    next
      assume "u \<noteq> t" "v = t"
      then show ?thesis using u v uniq [of u i t] far [of u] new [of i] by (auto simp: assms(2))
    next
      assume "u \<noteq> t" "v \<noteq> t"
      then show ?thesis using u v uniq [of u i v] by (simp add: assms(2))
    qed simp
  qed
qed

lemma idx_keep:
  assumes "idx_inv s" "task_at s0 = task_at s" "base_idx s0 = base_idx s" "worker_idx s0 = worker_idx s"
    and "my_idx q = None \<or> my_idx q = my_idx (task_at s t)"
  shows "idx_inv (task_to t q s0)"
  by (rule idx_moves [OF assms(1), where t = t and q = q]) (use assms in auto)

lemma idx_step:
  assumes "task_step t s s'" "idx_inv s" "counts_inv s"
  shows "idx_inv s'"
  using assms(1)
proof cases
  case (numbered b)
  have "base_idx s \<le> worker_idx s" using assms(3) by (simp add: counts_inv_def)
  then show ?thesis unfolding numbered(1)
    by (cases b; intro idx_moves [OF assms(2), where t = t and q = "case b of None \<Rightarrow> Test (Suc (worker_idx s)) | Some l \<Rightarrow> Direct (Suc (worker_idx s)) l"]) simp_all
next
  case (got i item)
  show ?thesis unfolding got(1) by (rule idx_keep [OF assms(2)]) (use got(2) in \<open>simp_all split: option.split\<close>)
qed (simp only:, (rule idx_keep [OF assms(2)]; simp))+

lemma idx_turn:
  assumes "task_turn t s s'" "idx_inv s"
  shows "idx_inv s'"
  using assms(1)
proof cases
  case (test_on i)
  show ?thesis unfolding test_on(1) by (rule idx_keep [OF assms(2)]) (use test_on(2) in simp_all)
qed

lemma task_step_inv:
  assumes "task_step t s s'" "t < next_task s" "section_inv s"
  shows "section_inv s'"
proof -
  have i: "tasks_inv s" "counts_inv s" "idx_inv s" "main_ok (main_at s) s" using assms(3) by (simp_all add: section_inv_def)
  have l: "first_task s \<le> t" "task_ok (main_at s) (task_at s t)"
    using live_task [OF i(1) assms(2) task_step_live [OF assms(1)]] by simp_all
  show ?thesis unfolding section_inv_def
    by (intro conjI tasks_inv_moves [OF i(1) task_step_moves [OF assms(1)] l(1) assms(2) task_step_ok [OF assms(1) l(2) i(4)]]
      counts_step [OF assms(1) i(2) l(1) assms(2)] idx_step [OF assms(1) i(3,2)]
      main_ok_moves [OF i(4) task_step_moves [OF assms(1)] l(1) assms(2) task_step_live [OF assms(1)]])
qed

lemma task_turn_inv:
  assumes "task_turn t s s'" "t < next_task s" "section_inv s"
  shows "section_inv s'"
proof -
  have i: "tasks_inv s" "counts_inv s" "idx_inv s" "main_ok (main_at s) s" using assms(3) by (simp_all add: section_inv_def)
  have l: "first_task s \<le> t"
    using live_task [OF i(1) assms(2) task_turn_live [OF assms(1)]] by simp
  show ?thesis unfolding section_inv_def
    by (intro conjI tasks_inv_moves [OF i(1) task_turn_moves [OF assms(1)] l(1) assms(2) task_turn_ok [OF assms(1)]]
      counts_turn [OF assms(1) i(2) l(1) assms(2)] idx_turn [OF assms(1) i(3)]
      main_ok_moves [OF i(4) task_turn_moves [OF assms(1)] l(1) assms(2) task_turn_live [OF assms(1)]])
qed

text \<open>Steps of the main thread.\<close>

lemma revoke_task_unfold:
  assumes "ps_tasks s = rev [first_task s..<m]" "ps_tasks s \<noteq> []"
  obtains k where "m = Suc k" "first_task s \<le> k" "hd (ps_tasks s) = k" "tl (ps_tasks s) = rev [first_task s..<k]"
proof -
  have "first_task s < m" using assms by auto
  then obtain k where k: "m = Suc k" by (cases m) simp_all
  then show thesis using that [of k] assms(1) \<open>first_task s < m\<close> by simp
qed

lemma section_sum_cong:
  "task_at s' = task_at s \<Longrightarrow> first_task s' = first_task s \<Longrightarrow> next_task s' = next_task s \<Longrightarrow> section_sum g s' = section_sum g s"
  by (simp add: section_sum_def)

lemma section_sum_none: "first_task s = next_task s \<Longrightarrow> section_sum g s = 0"
  by (simp add: section_sum_def)

lemma not_closing_unrevoked:
  assumes "tasks_inv s" "\<not> closing (main_at s)"
  shows "section_sum was_revoked s = 0"
proof -
  have "was_revoked (task_at s t) = 0" if "first_task s \<le> t" "t < next_task s" for t
    using assms that unfolding tasks_inv_def by (cases "task_at s t") force+
  then show ?thesis by (simp add: section_sum_def threads_sum_0)
qed

text \<open>Nobody holds a loop when no worker is counted; nobody has a body when all tasks are over.\<close>

lemma uncounted:
  assumes "counts_inv s" "workers_in_loop s = 0" "first_task s \<le> t" "t < next_task s"
  shows "counted (task_at s t) = 0"
  using assms unfolding counts_inv_def section_sum_def by (metis threads_sum_0)

lemma task_ok_keep: "task_ok m p \<Longrightarrow> shared_loop m' = shared_loop m \<Longrightarrow> direct_loop m' = direct_loop m \<Longrightarrow> closing m \<longrightarrow> closing m' \<Longrightarrow> task_ok m' p"
  by (cases "(m, p)" rule: task_ok.cases) auto

lemma task_ok_uncounted: "task_ok m p \<Longrightarrow> counted p = 0 \<Longrightarrow> direct_loop m' = direct_loop m \<Longrightarrow> closing m \<longrightarrow> closing m' \<Longrightarrow> task_ok m' p"
  by (cases "(m, p)" rule: task_ok.cases) auto

lemma task_ok_opened: "task_ok m p \<Longrightarrow> shared_loop m = None \<Longrightarrow> direct_loop m' = direct_loop m \<Longrightarrow> \<not> closing m \<Longrightarrow> task_ok m' p"
  by (cases "(m, p)" rule: task_ok.cases) auto

lemma all_tasks_length: "all_tasks s \<Longrightarrow> length (ps_tasks s) = next_task s - first_task s"
  by (simp add: all_tasks_def)

lemma tasks_inv_main:
  assumes "tasks_inv s" "task_at s' = task_at s" "first_task s' = first_task s" "next_task s' = next_task s"
    and "\<And>p. task_ok (main_at s) p \<Longrightarrow> p \<in> task_at s ` {first_task s..<next_task s} \<Longrightarrow> task_ok (main_at s') p"
  shows "tasks_inv s'"
  using assms unfolding tasks_inv_def by auto

lemma counts_inv_main:
  assumes "counts_inv s" "task_at s' = task_at s" "first_task s' = first_task s" "next_task s' = next_task s"
    "workers_in_loop s' = workers_in_loop s" "tasks_finished s' = tasks_finished s" "worker_idx s' = worker_idx s" "base_idx s' = base_idx s"
  shows "counts_inv s'"
  using assms by (simp add: counts_inv_def section_sum_def)

lemma idx_inv_main:
  assumes "idx_inv s" "task_at s' = task_at s" "worker_idx s' = worker_idx s" "base_idx s' = base_idx s"
  shows "idx_inv s'"
  using assms by (simp add: idx_inv_def)

lemma all_over_quiet:
  assumes "tasks_inv s" "\<forall>t < next_task s. over (task_at s t)"
  shows "my_idx (task_at s t) = None" "counted (task_at s t) = 0"
proof -
  have "over (task_at s t) \<or> task_at s t = Unborn" using assms by (cases "t < next_task s") (auto simp: tasks_inv_def)
  then show "my_idx (task_at s t) = None" "counted (task_at s t) = 0" by (cases "task_at s t"; simp)+
qed

lemma idx_inv_quiet: "(\<And>t. my_idx (task_at s t) = None) \<Longrightarrow> idx_inv s"
  by (simp add: idx_inv_def)

lemma outside_over: "tasks_inv s \<Longrightarrow> first_task s = next_task s \<Longrightarrow> \<forall>t < next_task s. over (task_at s t)"
  by (simp add: tasks_inv_def)

lemma main_pure:
  assumes "section_inv s" "task_at s' = task_at s" "first_task s' = first_task s" "next_task s' = next_task s"
    "workers_in_loop s' = workers_in_loop s" "tasks_finished s' = tasks_finished s" "worker_idx s' = worker_idx s" "base_idx s' = base_idx s"
    and "\<And>p. task_ok (main_at s) p \<Longrightarrow> p \<in> task_at s ` {first_task s..<next_task s} \<Longrightarrow> task_ok (main_at s') p"
    and "main_ok (main_at s') s'"
  shows "section_inv s'"
  using assms tasks_inv_main [of s s'] counts_inv_main [of s s'] idx_inv_main [of s s'] by (simp add: section_inv_def)

lemma new_section_inv:
  assumes "section_inv s" "main_at s = Outside" "task_at s' = task_at s" "first_task s' = first_task s" "next_task s' = next_task s"
    "workers_in_loop s' = 0" "tasks_finished s' = 0" "worker_idx s' = 0" "base_idx s' = 0" "main_ok (main_at s') s'"
  shows "section_inv s'"
proof -
  have i: "tasks_inv s" "first_task s = next_task s" using assms(1,2) by (simp_all add: section_inv_def)
  have "tasks_inv s'" by (rule tasks_inv_main [OF i(1) assms(3-5)]) (simp add: i(2))
  moreover have "idx_inv s'"
    by (rule idx_inv_quiet) (use all_over_quiet(1) [OF i(1) outside_over [OF i]] assms(3) in simp)
  moreover have "counts_inv s'" using assms(4-9) i(2) by (simp add: counts_inv_def section_sum_none)
  ultimately show ?thesis using assms(10) by (simp add: section_inv_def)
qed

lemma push_task_inv:
  assumes inv: "section_inv s" and m: "main_at s = Summon d l (Suc k)"
  shows "section_inv ((push_task d l s)\<lparr>main_at := Summon d l k\<rparr>)"
proof -
  let ?q = "Queued (if d then Some l else None)" and ?s = "(push_task d l s)\<lparr>main_at := Summon d l k\<rparr>"
  have i: "tasks_inv s" "counts_inv s" "idx_inv s" "main_ok (Summon d l (Suc k)) s" using inv m by (simp_all add: section_inv_def)
  have le: "first_task s \<le> next_task s" using i(1) by (simp add: tasks_inv_def)
  have sum: "section_sum g ?s = section_sum g s" if "g ?q = 0" for g
    unfolding section_sum_def using threads_sum_extend [OF le, of g "task_at s" ?q] that by (simp add: push_task_def)
  have ok: "task_ok (Summon d l k) p" if "task_ok (Summon d l (Suc k)) p" for p
    by (rule task_ok_keep [OF that]; cases d; simp)
  have "tasks_inv ?s" unfolding tasks_inv_def
  proof (intro conjI allI impI)
    fix t assume "first_task ?s \<le> t \<and> t < next_task ?s"
    then show "task_ok (main_at ?s) (task_at ?s t)" using i(1) ok m by (cases d) (auto simp: tasks_inv_def push_task_def less_Suc_eq)
  qed (use i(1) le in \<open>auto simp: tasks_inv_def push_task_def\<close>)
  moreover have "counts_inv ?s" using i(2) sum by (simp add: counts_inv_def push_task_def)
  moreover have "idx_inv ?s"
    by (rule idx_moves [OF i(3), where t = "next_task s" and q = ?q]) (simp_all add: push_task_def)
  moreover have "main_ok (main_at ?s) ?s"
    using i(4) le by (auto simp: push_task_def all_tasks_def direct_room_def split: if_splits)
  ultimately show ?thesis by (simp add: section_inv_def)
qed

lemma revoke_task_inv:
  assumes inv: "section_inv s" and m: "main_at s = Revoke d n r" and ne: "ps_tasks s \<noteq> []"
  shows "section_inv (revoke_task d n r s)"
proof -
  have i: "tasks_inv s" "counts_inv s" "idx_inv s" "main_ok (Revoke d n r) s" using inv m by (simp_all add: section_inv_def)
  obtain m where ts: "first_task s \<le> m" "m \<le> next_task s" "ps_tasks s = rev [first_task s..<m]" "unqueued m s" using i(4) by auto
  obtain t where t: "m = Suc t" "first_task s \<le> t" "hd (ps_tasks s) = t" "tl (ps_tasks s) = rev [first_task s..<t]"
    by (rule revoke_task_unfold [OF ts(3) ne])
  have lt: "t < next_task s" using ts(2) t(1) by simp
  show ?thesis
  proof (cases "is_queued (task_at s t)")
    case True
    let ?s = "task_to t Revoked (s\<lparr>ps_tasks := rev [first_task s..<t], main_at := Revoke d n (Suc r)\<rparr>)"
    have eq: "revoke_task d n r s = ?s" using True t by (simp add: revoke_task_def Let_def)
    have q: "counted (task_at s t) = 0" "has_finished (task_at s t) = 0" "has_number (task_at s t) = 0" "was_revoked (task_at s t) = 0"
      using True by (cases "task_at s t"; simp)+
    have sum: "section_sum g ?s = section_sum g s" if "g (task_at s t) = 0" "g Revoked = 0" for g
      by (rule section_sum_keep [where t = t and q = Revoked]) (use that in simp_all)
    have r: "section_sum was_revoked ?s = Suc (section_sum was_revoked s)"
      unfolding section_sum_def using threads_sum_up [of "first_task s" t "next_task s" was_revoked Revoked "task_at s"] t(2) lt q(4) by simp
    have ok: "task_ok (Revoke d n (Suc r)) p" if "task_ok (Revoke d n r) p" for p by (rule task_ok_keep [OF that]) simp_all
    have T: "tasks_inv ?s" unfolding tasks_inv_def
    proof (intro conjI allI impI)
      fix u assume "first_task ?s \<le> u \<and> u < next_task ?s"
      then show "task_ok (main_at ?s) (task_at ?s u)" using i(1) ok m by (auto simp: tasks_inv_def)
    qed (use i(1) t lt in \<open>auto simp: tasks_inv_def\<close>)
    have C: "counts_inv ?s" using i(2) sum q by (simp add: counts_inv_def)
    have I: "idx_inv ?s" by (rule idx_keep [OF i(3)]) simp_all
    have "unqueued t ?s" using ts(4) t(1) by (auto simp: unqueued_def)
    then have "\<exists>m. first_task ?s \<le> m \<and> m \<le> next_task ?s \<and> ps_tasks ?s = rev [first_task ?s..<m] \<and> unqueued m ?s"
      using t(2) lt by (intro exI [of _ t]) simp
    then have "main_ok (Revoke d n (Suc r)) ?s" using i(4) r by (simp add: direct_room_def)
    moreover have m': "main_at ?s = Revoke d n (Suc r)" by simp
    ultimately have "main_ok (main_at ?s) ?s" by (simp only: m')
    with T C I show ?thesis unfolding eq section_inv_def by blast
  next
    case False
    let ?s = "s\<lparr>ps_tasks := rev [first_task s..<t], main_at := Revoke d n r\<rparr>"
    have eq: "revoke_task d n r s = ?s" using False t by (simp add: revoke_task_def Let_def)
    have "unqueued t ?s" unfolding unqueued_def
    proof (intro allI impI)
      fix u assume "t \<le> u \<and> u < next_task ?s"
      then show "\<not> is_queued (task_at ?s u)" using ts(4) t(1) False by (cases "u = t") (auto simp: unqueued_def)
    qed
    moreover have "section_sum was_revoked ?s = section_sum was_revoked s" by (simp add: section_sum_def)
    ultimately have "main_ok (Revoke d n r) ?s" using i(4) t(2) lt by (auto simp: direct_room_def)
    moreover have m': "main_at ?s = Revoke d n r" by simp
    ultimately have ok: "main_ok (main_at ?s) ?s" by (simp only: m')
    show ?thesis unfolding eq by (rule main_pure [OF inv _ _ _ _ _ _ _ _ ok]) (simp_all add: m)
  qed
qed

lemma end_section_inv:
  assumes inv: "section_inv s" and at: "all_tasks s" "current_loop s = None" "direct_room d 0 s"
    and m: "shared_loop (main_at s) = None" "direct_loop (main_at s) = d" "\<not> closing (main_at s)"
  shows "section_inv (end_section d s)"
proof (rule main_pure [OF inv])
  have i: "tasks_inv s" using inv by (simp add: section_inv_def)
  show "task_ok (main_at (end_section d s)) p" if "task_ok (main_at s) p" for p
    by (rule task_ok_opened [OF that]) (use m in \<open>simp_all add: end_section_def\<close>)
  have "section_sum was_revoked (end_section d s) = 0"
    using not_closing_unrevoked [OF i m(3)] by (simp add: section_sum_def end_section_def)
  then show "main_ok (main_at (end_section d s)) (end_section d s)"
    using at i by (auto simp: end_section_def all_tasks_def direct_room_def unqueued_def tasks_inv_def intro!: exI [of _ "next_task s"])
qed (simp_all add: end_section_def)

lemma tasks_done_over:
  assumes inv: "section_inv s" and m: "main_at s = Wait_tasks d k" and k: "\<not> tasks_finished s < k"
  shows "\<forall>t < next_task s. over (task_at s t)"
proof -
  have i: "tasks_inv s" "counts_inv s" "main_ok (Wait_tasks d k) s" using inv m by (simp_all add: section_inv_def)
  let ?w = "\<lambda>p. has_finished p + was_revoked p" and ?h = "\<lambda>p. of_bool (\<not> over p)"
  let ?sum = "\<lambda>g. threads_sum g (first_task s) (next_task s) (task_at s)"
  have "?w p + ?h p = 1" for p by (cases p) simp_all
  then have "?sum (\<lambda>p. ?w p + ?h p) = next_task s - first_task s" by (simp add: threads_sum_const)
  then have "?sum has_finished + ?sum was_revoked + ?sum ?h = next_task s - first_task s" by (simp add: threads_sum_add)
  moreover have "next_task s - first_task s - ?sum was_revoked \<le> ?sum has_finished"
    using i(2,3) k by (simp add: counts_inv_def section_sum_def)
  ultimately have "?sum ?h = 0" by linarith
  then have "over (task_at s t)" if "first_task s \<le> t" "t < next_task s" for t using that by (auto simp: threads_sum_0)
  then show ?thesis using i(1) by (auto simp: tasks_inv_def) (meson not_le)
qed

lemma reset_inv:
  assumes inv: "section_inv s" and m: "main_at s = Reset d"
  shows "section_inv (s\<lparr>tasks_finished := 0, main_at := Outside, first_task := next_task s, base_idx := worker_idx s\<rparr>)"
proof -
  have i: "tasks_inv s" "counts_inv s" "main_ok (Reset d) s" using inv m by (simp_all add: section_inv_def)
  then have over: "\<forall>t < next_task s. over (task_at s t)" by simp
  have "section_sum counted s = 0" using all_over_quiet(2) [OF i(1) over] by (simp add: section_sum_def threads_sum_0)
  then show ?thesis using i over all_over_quiet(1) [OF i(1) over]
    by (simp add: section_inv_def tasks_inv_def counts_inv_def section_sum_def idx_inv_def)
qed

lemma main_step_inv:
  assumes step: "main_step s s'" and inv: "section_inv s"
  shows "section_inv s'"
  using step
proof cases
  have i: "tasks_inv s" "counts_inv s" "main_ok (main_at s) s" using inv by (simp_all add: section_inv_def)
  have seq: "first_task s \<le> next_task s" using i(1) by (simp add: tasks_inv_def)
  {
    case allocate
    show ?thesis unfolding allocate(1)
      by (rule new_section_inv [OF inv allocate(2)]) (use i(3) allocate(2) in \<open>simp_all add: new_section_def\<close>)
  next
    case start
    show ?thesis unfolding start(1)
      by (rule main_pure [OF inv]) (use i(3) start(2) in \<open>simp_all add: all_tasks_def\<close>)
  next
    case (start_direct l)
    show ?thesis unfolding start_direct(1)
      by (rule new_section_inv [OF inv start_direct(2)]) (use i(3) start_direct(2) in \<open>simp_all add: new_section_def all_tasks_def direct_room_def\<close>)
  next
    case (start_loop l)
    have "task_ok (Summon False l k) p" if "task_ok Idle p" for p k by (rule task_ok_opened [OF that]) simp_all
    then show ?thesis unfolding start_loop(1)
      by (intro main_pure [OF inv]) (use i(3) start_loop(2) in \<open>simp_all add: all_tasks_def direct_room_def\<close>)
  next
    case (pushed d l k)
    then show ?thesis using push_task_inv [OF inv] by simp
  next
    case (rejected d l k)
    have "task_ok (Summon d l k) p" if "task_ok (Summon d l (Suc k)) p" for p by (rule task_ok_keep [OF that]; cases d; simp)
    then show ?thesis unfolding rejected(1)
      by (intro main_pure [OF inv]) (use i(3) rejected(2) in \<open>auto simp: all_tasks_def direct_room_def\<close>)
  next
    case (summoned d l)
    have "task_ok (Body d l) p" if "task_ok (Summon d l 0) p" for p by (rule task_ok_keep [OF that]; cases d; simp)
    then show ?thesis unfolding summoned(1)
      by (intro main_pure [OF inv]) (use i(3) summoned(2) in \<open>auto simp: all_tasks_def direct_room_def\<close>)
  next
    case (ran l)
    have "task_ok (Clear l) p" if "task_ok (Body False l) p" for p by (rule task_ok_keep [OF that]) simp_all
    then show ?thesis unfolding ran(1)
      by (intro main_pure [OF inv]) (use i(3) ran(2) in \<open>auto simp: all_tasks_def\<close>)
  next
    case (ran_direct l)
    show ?thesis unfolding ran_direct(1)
      by (rule end_section_inv [OF inv]) (use i(3) ran_direct(2) in simp_all)
  next
    case (clear l)
    have "task_ok (Wait_loop l) p" if "task_ok (Clear l) p" for p by (rule task_ok_keep [OF that]) simp_all
    then show ?thesis unfolding clear(1)
      by (intro main_pure [OF inv]) (use i(3) clear(2) in \<open>auto simp: all_tasks_def\<close>)
  next
    case (loop_left l)
    have "task_ok Idle p" if "task_ok (Wait_loop l) p" "p \<in> task_at s ` {first_task s..<next_task s}" for p
      by (rule task_ok_uncounted [OF that(1)]) (use that(2) uncounted [OF i(2) loop_left(3)] in auto)
    then show ?thesis unfolding loop_left(1)
      by (intro main_pure [OF inv]) (use i(3) loop_left(2) in \<open>auto simp: all_tasks_def\<close>)
  next
    case end_idle
    show ?thesis unfolding end_idle(1)
      by (rule end_section_inv [OF inv]) (use i(3) end_idle(2) in \<open>simp_all add: direct_room_def\<close>)
  next
    case (revoke d n r)
    then show ?thesis using revoke_task_inv [OF inv] by simp
  next
    case (revoked_all d n r)
    have "task_ok (Wait_tasks d k) p" if "task_ok (Revoke d n r) p" for p k by (rule task_ok_keep [OF that]) simp_all
    moreover have "unqueued (first_task s) s"
      using i(3) revoked_all(2,3) by (auto simp: upt_eq_Nil_conv)
    ultimately show ?thesis unfolding revoked_all(1)
      by (intro main_pure [OF inv]) (use i(3) revoked_all(2,3) in \<open>simp_all add: direct_room_def section_sum_def unqueued_def\<close>)
  next
    case (tasks_done d k)
    have "task_ok (Reset d) p" if "task_ok (Wait_tasks d k) p" for p by (rule task_ok_keep [OF that]) simp_all
    then show ?thesis unfolding tasks_done(1)
      by (intro main_pure [OF inv]) (use i(3) tasks_done(2) tasks_done_over [OF inv tasks_done(2,3)] in simp_all)
  next
    case (reset d)
    then show ?thesis using reset_inv [OF inv] by simp
  }
qed

lemma section_init_inv: "section_inv section_init"
  by (simp add: section_inv_def section_init_def tasks_inv_def counts_inv_def section_sum_def idx_inv_def)

interpretation sec: transitions section_start section_step section_inv
  by unfold_locales (use section_init_inv main_step_inv task_step_inv task_turn_inv in \<open>auto simp: section_start_def section_step_def\<close>)

section \<open>Progress\<close>

text \<open>Steps by thread: the main thread is \<open>None\<close>. The main thread has returned from its call when it is idle or outside.\<close>

definition thread_step :: "nat option \<Rightarrow> par_section \<Rightarrow> par_section \<Rightarrow> bool" where
  "thread_step who s s' \<longleftrightarrow>
     (case who of None \<Rightarrow> main_step s s' | Some t \<Rightarrow> t < next_task s \<and> (task_step t s s' \<or> task_turn t s s'))"

definition has_returned :: "par_section \<Rightarrow> bool" where
  "has_returned s \<longleftrightarrow> main_at s = Idle \<or> main_at s = Outside"

lemma section_step_thread: "section_step s s' \<longleftrightarrow> (\<exists>who. thread_step who s s')"
  by (auto simp: section_step_def thread_step_def split: option.split)

fun task_rank :: "task_pc \<Rightarrow> nat" where
  "task_rank (Queued b) = 10" | "task_rank (Begun b) = 9" | "task_rank (Look i) = 8" | "task_rank (Enter i) = 7"
| "task_rank (Read i) = 6" | "task_rank (Got i item) = 5" | "task_rank (Running i l) = 4" | "task_rank (Leave i) = 3"
| "task_rank (Test i) = 2" | "task_rank (Direct i l) = 2" | "task_rank Finish = 1"
| "task_rank _ = 0"

text \<open>What a task still has to do in the loop, once no loop is there to be found.\<close>

fun loop_rank :: "task_pc \<Rightarrow> nat" where
  "loop_rank (Enter i) = 5" | "loop_rank (Read i) = 4" | "loop_rank (Got i item) = 3" | "loop_rank (Running i l) = 2"
| "loop_rank (Leave i) = 1"
| "loop_rank _ = 0"

fun main_rank :: "main_pc \<Rightarrow> nat" where
  "main_rank (Summon d l k) = 6 + 2 * k" | "main_rank (Body d l) = 5" | "main_rank (Clear l) = 4" | "main_rank (Wait_loop l) = 3"
| "main_rank (Revoke d n r) = 3" | "main_rank (Wait_tasks d k) = 2" | "main_rank (Reset d) = 1"
| "main_rank _ = 0"

fun tasks_rank :: "main_pc \<Rightarrow> task_pc \<Rightarrow> nat" where
  "tasks_rank (Wait_loop l) = loop_rank"
| "tasks_rank (Revoke d n r) = task_rank"
| "tasks_rank (Wait_tasks d k) = task_rank"
| "tasks_rank (Reset d) = task_rank"
| "tasks_rank _ = (\<lambda>_. 0)"

definition section_rank :: "par_section \<Rightarrow> nat \<times> nat" where
  "section_rank s = (main_rank (main_at s) + length (ps_tasks s), section_sum (tasks_rank (main_at s)) s)"

text \<open>Who is waited for: a worker in the loop, a task that is not over, else the main thread itself.\<close>

definition first_with :: "(task_pc \<Rightarrow> bool) \<Rightarrow> par_section \<Rightarrow> nat" where
  "first_with P s = (LEAST t. first_task s \<le> t \<and> t < next_task s \<and> P (task_at s t))"

fun awaited :: "main_pc \<Rightarrow> par_section \<Rightarrow> nat option" where
  "awaited (Wait_loop l) s = (if workers_in_loop s = 0 then None else Some (first_with (\<lambda>p. counted p \<noteq> 0) s))"
| "awaited (Wait_tasks d k) s = (if \<not> tasks_finished s < k then None else Some (first_with (\<lambda>p. \<not> over p) s))"
| "awaited _ s = None"

lemma first_with:
  assumes "first_task s \<le> t" "t < next_task s" "P (task_at s t)"
  shows "first_task s \<le> first_with P s \<and> first_with P s < next_task s \<and> P (task_at s (first_with P s))"
  unfolding first_with_def by (rule LeastI [of _ t]) (use assms in blast)

lemma main_step_lowers:
  assumes "main_step s s'" "\<not> has_returned s" "\<not> has_returned s'"
  shows "main_rank (main_at s') + length (ps_tasks s') < main_rank (main_at s) + length (ps_tasks s)"
  using assms(1)
proof cases
  case (revoke d n r)
  then show ?thesis by (cases "ps_tasks s") (simp_all add: revoke_task_def Let_def)
qed (use assms(2,3) in \<open>simp_all add: has_returned_def push_task_def end_section_def\<close>)

lemma main_step_enabled:
  assumes "\<not> has_returned s" "awaited (main_at s) s = None"
  shows "\<exists>s'. main_step s s'"
proof (cases "main_at s")
  case (Summon d l k)
  then show ?thesis using main_step.rejected main_step.summoned by (cases k) blast+
next
  case (Body d l)
  then show ?thesis using main_step.ran [of s l] main_step.ran_direct [of s l] by (cases d) auto
next
  case (Revoke d n r)
  then show ?thesis using main_step.revoke main_step.revoked_all by (cases "ps_tasks s = []") blast+
next
  case (Wait_loop l)
  then show ?thesis using assms(2) main_step.loop_left by (auto split: if_splits)
next
  case (Wait_tasks d k)
  then show ?thesis using assms(2) main_step.tasks_done by (auto split: if_splits)
next
  case (Reset d)
  then show ?thesis using main_step.reset [of s d] by blast
qed (use assms main_step.clear in \<open>auto simp: has_returned_def\<close>)

lemma counted_enabled: "counted (task_at s t) \<noteq> 0 \<Longrightarrow> \<exists>s'. task_step t s s'"
  by (cases "task_at s t") (auto intro: task_step.intros)

lemma closing_enabled: "\<not> over (task_at s t) \<Longrightarrow> \<not> ps_active s \<Longrightarrow> task_at s t \<noteq> Unborn \<Longrightarrow> \<exists>s'. task_step t s s'"
  by (cases "task_at s t") (auto intro: task_step.intros)

lemma awaited_in_loop:
  assumes "section_inv s" "main_at s = Wait_loop l" "awaited (main_at s) s = Some t"
  shows "t < next_task s" "counted (task_at s t) \<noteq> 0"
proof -
  have "section_sum counted s \<noteq> 0" using assms by (auto simp: section_inv_def counts_inv_def split: if_splits)
  then obtain u where u: "first_task s \<le> u" "u < next_task s" "counted (task_at s u) \<noteq> 0"
    unfolding section_sum_def threads_sum_0 by blast
  have "t = first_with (\<lambda>p. counted p \<noteq> 0) s" using assms(2,3) by (auto split: if_splits)
  with first_with [of s u "\<lambda>p. counted p \<noteq> 0", OF u] show "t < next_task s" "counted (task_at s t) \<noteq> 0" by blast+
qed

lemma awaited_closing:
  assumes "section_inv s" "main_at s = Wait_tasks d k" "awaited (main_at s) s = Some t"
  shows "t < next_task s" "\<not> over (task_at s t)"
proof -
  have i: "counts_inv s" "main_ok (Wait_tasks d k) s" "tasks_inv s" using assms(1,2) by (simp_all add: section_inv_def)
  have less: "tasks_finished s < k" and t: "t = first_with (\<lambda>p. \<not> over p) s" using assms(2,3) by (auto split: if_splits)
  have "\<exists>u. first_task s \<le> u \<and> u < next_task s \<and> \<not> over (task_at s u)"
  proof (rule ccontr)
    assume no: "\<not> ?thesis"
    have "has_finished p + was_revoked p = 1" if "over p" for p using that by (cases p) simp_all
    then have "threads_sum (\<lambda>p. has_finished p + was_revoked p) (first_task s) (next_task s) (task_at s)
        = threads_sum (\<lambda>_. 1) (first_task s) (next_task s) (task_at s)"
      by (intro threads_sum_cong) (use no in blast)
    then have "section_sum has_finished s + section_sum was_revoked s = next_task s - first_task s"
      by (simp add: threads_sum_add threads_sum_const section_sum_def)
    then show False using i(1,2) less by (simp add: counts_inv_def)
  qed
  then obtain u where u: "first_task s \<le> u" "u < next_task s" "\<not> over (task_at s u)" by blast
  from first_with [of s u "\<lambda>p. \<not> over p", OF u] show "t < next_task s" "\<not> over (task_at s t)" unfolding t by blast+
qed

lemma awaited_enabled:
  assumes "section_inv s" "\<not> has_returned s"
  shows "\<exists>s'. thread_step (awaited (main_at s) s) s s'"
proof (cases "awaited (main_at s) s")
  case None
  then show ?thesis using main_step_enabled [OF assms(2)] by (simp add: thread_step_def)
next
  case (Some t)
  then consider l where "main_at s = Wait_loop l" | d k where "main_at s = Wait_tasks d k" by (cases "main_at s") auto
  then show ?thesis
  proof cases
    case 1
    then show ?thesis using awaited_in_loop [OF assms(1) 1 Some] counted_enabled [of s t] Some by (auto simp: thread_step_def)
  next
    case 2
    note t = awaited_closing [OF assms(1) 2 Some]
    have "task_at s t \<noteq> Unborn" "\<not> ps_active s" using live_task [OF _ t] assms(1) 2 by (auto simp: section_inv_def)
    then show ?thesis using closing_enabled [OF t(2)] t(1) Some by (auto simp: thread_step_def)
  qed
qed

lemma section_sum_less:
  assumes "task_at s' = (task_at s)(t := q)" "first_task s' = first_task s" "next_task s' = next_task s"
    "first_task s \<le> t" "t < next_task s" "g q < g (task_at s t)"
  shows "section_sum g s' < section_sum g s"
  unfolding section_sum_def assms(1-3) by (rule threads_sum_less [of _ t _ g q "task_at s", OF assms(4-6)])

lemma task_step_rank: "task_step t s s' \<Longrightarrow> task_rank (task_at s' t) < task_rank (task_at s t)"
  by (induction rule: task_step.induct) (simp_all split: option.split)

text \<open>In the loop a task is counted or about to be, and comes closer to leaving; or it is not, and changes nothing that matters.\<close>

lemma loop_step_cases:
  assumes "task_step t s s' \<or> task_turn t s s'" "current_loop s = None"
  shows "loop_rank (task_at s' t) < loop_rank (task_at s t)
    \<or> counted (task_at s t) = 0 \<and> counted (task_at s' t) = 0 \<and> loop_rank (task_at s' t) = loop_rank (task_at s t)
      \<and> workers_in_loop s' = workers_in_loop s"
  using assms(1)
proof
  assume "task_step t s s'"
  then show ?thesis using assms(2) by cases (simp_all split: option.split)
next
  assume "task_turn t s s'"
  then show ?thesis by cases simp
qed

lemma first_with_keep:
  assumes "task_at s' = (task_at s)(t := q)" "first_task s' = first_task s" "next_task s' = next_task s" "P q \<longleftrightarrow> P (task_at s t)"
  shows "first_with P s' = first_with P s"
proof -
  have "P (task_at s' u) \<longleftrightarrow> P (task_at s u)" for u by (simp add: assms(1,4))
  then show ?thesis by (simp add: first_with_def assms(2,3))
qed

lemma section_rank_step:
  assumes step: "thread_step who s s'" and inv: "section_inv s" and ret: "\<not> has_returned s" "\<not> has_returned s'"
  shows "(section_rank s', section_rank s) \<in> less_than <*lex*> less_than
    \<or> section_rank s' = section_rank s \<and> awaited (main_at s') s' = awaited (main_at s) s \<and> who \<noteq> awaited (main_at s) s"
proof (cases who)
  case None
  then have "main_step s s'" using step by (simp add: thread_step_def)
  from main_step_lowers [OF this ret] show ?thesis by (simp add: section_rank_def)
next
  case (Some t)
  then have t: "t < next_task s" "task_step t s s' \<or> task_turn t s s'" using step by (simp_all add: thread_step_def)
  have live: "\<not> over (task_at s t)" using t(2) task_step_live task_turn_live by blast
  have i: "tasks_inv s" "main_ok (main_at s) s" using inv by (simp_all add: section_inv_def)
  have first: "first_task s \<le> t" using live_task [OF i(1) t(1) live] by simp
  have "task_moves t s s'" using t(2) task_step_moves task_turn_moves by blast
  then have eq: "task_at s' = (task_at s)(t := task_at s' t)" "ps_tasks s' = ps_tasks s" "main_at s' = main_at s"
    "first_task s' = first_task s" "next_task s' = next_task s"
    unfolding task_moves_def by blast+
  have less: "section_sum g s' < section_sum g s" if "g (task_at s' t) < g (task_at s t)" for g
    by (rule section_sum_less [OF eq(1,4,5) first t(1) that])
  have same: "section_sum g s' = section_sum g s" if "g (task_at s' t) = g (task_at s t)" for g
    by (rule section_sum_keep [OF eq(1,4,5) that])
  have closing: ?thesis if "tasks_rank (main_at s) = task_rank" "\<not> ps_active s"
  proof -
    have "task_step t s s'" using t(2) that(2) by (auto elim: task_turn.cases)
    then show ?thesis using less [of task_rank] task_step_rank [of t s s'] that(1) by (simp add: section_rank_def eq(2,3))
  qed
  have busy: ?thesis if "tasks_rank (main_at s) = (\<lambda>_. 0)" "\<And>s. awaited (main_at s') s = None"
    using that Some same [of "\<lambda>_. 0"] by (simp add: section_rank_def eq(2,3))
  show ?thesis
  proof (cases "main_at s")
    case (Wait_loop l)
    then have "current_loop s = None" using i(2) by simp
    from loop_step_cases [OF t(2) this] show ?thesis
    proof
      assume "loop_rank (task_at s' t) < loop_rank (task_at s t)"
      then show ?thesis using less [of loop_rank] Wait_loop by (simp add: section_rank_def eq(2,3))
    next
      assume c: "counted (task_at s t) = 0 \<and> counted (task_at s' t) = 0 \<and> loop_rank (task_at s' t) = loop_rank (task_at s t)
        \<and> workers_in_loop s' = workers_in_loop s"
      have "first_with (\<lambda>p. counted p \<noteq> 0) s' = first_with (\<lambda>p. counted p \<noteq> 0) s"
        by (rule first_with_keep [OF eq(1,4,5)]) (use c in simp)
      moreover have "awaited (main_at s) s \<noteq> Some t" using awaited_in_loop(2) [OF inv Wait_loop] c by blast
      ultimately show ?thesis using same [of loop_rank] c Wait_loop Some by (simp add: section_rank_def eq(2,3))
    qed
  qed (use i(2) closing busy ret eq(3) in \<open>simp_all add: has_returned_def\<close>)
qed

interpretation sec: fair_progress thread_step section_inv "less_than <*lex*> less_than" section_rank has_returned
  "\<lambda>s. awaited (main_at s) s"
proof
  show "section_inv s'" if "thread_step who s s'" "section_inv s" for who s s'
    using that sec.invariant_step section_step_thread by blast
qed (use awaited_enabled section_rank_step in auto)

section \<open>Properties\<close>

text \<open>The loop that a task holds a pointer to; the call that it makes; the loop whose frame the main thread keeps.\<close>

fun uses_loop :: "task_pc \<Rightarrow> par_loop option" where
  "uses_loop (Direct i l) = Some l"
| "uses_loop (Got i item) = item"
| "uses_loop (Running i l) = Some l"
| "uses_loop _ = None"

fun in_call :: "task_pc \<Rightarrow> (nat \<times> par_loop) option" where
  "in_call (Direct i l) = Some (i, l)"
| "in_call (Running i l) = Some (i, l)"
| "in_call _ = None"

definition kept_loop :: "main_pc \<Rightarrow> par_loop option" where
  "kept_loop m = (case shared_loop m of Some l \<Rightarrow> Some l | None \<Rightarrow> direct_loop m)"

lemma section_in: "section_inv s \<Longrightarrow> \<not> over (task_at s t) \<Longrightarrow> task_at s t \<noteq> Unborn \<Longrightarrow>
    first_task s \<le> t \<and> t < next_task s \<and> task_ok (main_at s) (task_at s t)"
  unfolding section_inv_def tasks_inv_def by (metis not_le)

lemma shared_not_direct: "shared_loop m = Some l \<Longrightarrow> direct_loop m = None"
  by (cases m rule: shared_loop.cases) simp_all

lemma uses_loop_kept:
  assumes "section_inv s" "uses_loop (task_at s t) = Some l"
  shows "kept_loop (main_at s) = Some l"
proof -
  have "\<not> over (task_at s t)" "task_at s t \<noteq> Unborn" using assms(2) by (cases "task_at s t"; simp)+
  from section_in [OF assms(1) this] have "task_ok (main_at s) (task_at s t)" by simp
  then have "shared_loop (main_at s) = Some l \<or> direct_loop (main_at s) = Some l"
    using assms(2) by (cases "task_at s t") auto
  then show ?thesis using shared_not_direct [of "main_at s"] by (auto simp: kept_loop_def split: option.split)
qed

lemma numbers_bounded: "counts_inv s \<Longrightarrow> worker_idx s \<le> base_idx s + (next_task s - first_task s)"
proof -
  have "has_number p \<le> 1" for p by (cases p) simp_all
  then have "section_sum has_number s \<le> threads_sum (\<lambda>_. 1) (first_task s) (next_task s) (task_at s)"
    unfolding section_sum_def by (intro threads_sum_mono) simp
  then show "counts_inv s \<Longrightarrow> ?thesis" by (simp add: counts_inv_def threads_sum_const)
qed

lemma call_bounds:
  assumes inv: "section_inv s" and c: "in_call (task_at s t) = Some (i, l)"
  shows "base_idx s < i" "i < threads_needed l"
proof -
  have i: "idx_inv s" "counts_inv s" "main_ok (main_at s) s" using inv by (simp_all add: section_inv_def)
  have live: "\<not> over (task_at s t)" "task_at s t \<noteq> Unborn" "my_idx (task_at s t) = Some i"
    using c by (cases "task_at s t"; simp)+
  then show b: "base_idx s < i" using i(1) unfolding idx_inv_def by blast
  have le: "i \<le> worker_idx s" using i(1) live(3) unfolding idx_inv_def by blast
  have p: "t < next_task s" "task_ok (main_at s) (task_at s t)" using section_in [OF inv live(1,2)] by simp_all
  show "i < threads_needed l"
  proof (cases "task_at s t")
    case (Running j m)
    then show ?thesis using p(2) c by simp
  next
    case (Direct j m)
    then have d: "direct_loop (main_at s) = Some l" using p(2) c by simp
    have "\<exists>k. direct_room (Some l) k s" using d i(3) p(1) live(1) by (cases "main_at s" rule: direct_loop.cases) auto
    then have "base_idx s = 0" "next_task s - first_task s \<le> threads_needed l - 1" by (auto simp: direct_room_def)
    then show ?thesis using le b numbers_bounded [OF i(2)] by linarith
  qed (use c in simp_all)
qed

text \<open>
  C12. In a state that the threads can reach, whatever the order of their steps: a task that holds a loop or runs its function holds
  the loop whose frame the main thread keeps, so after \<open>RunInParallelSection\<close>, \<open>RunInParallel\<close> or \<open>EndParallelSection\<close> has returned nobody touches what
  was on its stack. The functions run with numbers from 1 below the degree of parallelism, different ones at
  the same time. Outside a section every task is over or revoked, so the section object may be deleted; the asserts at the
  starts of section and loop hold.
\<close>

theorem parallel_section_safe:
  assumes "section_reached s"
  shows "(\<forall>t l. uses_loop (task_at s t) = Some l \<longrightarrow> kept_loop (main_at s) = Some l)
    \<and> (\<forall>t i l. in_call (task_at s t) = Some (i, l) \<longrightarrow> 1 \<le> i \<and> i < threads_needed l)
    \<and> (\<forall>t u i l m. in_call (task_at s t) = Some (i, l) \<and> in_call (task_at s u) = Some (i, m) \<longrightarrow> t = u)
    \<and> (has_returned s \<longrightarrow> kept_loop (main_at s) = None \<and> current_loop s = None)
    \<and> (main_at s = Outside \<longrightarrow> \<not> ps_active s \<and> ps_tasks s = [] \<and> (\<forall>t < next_task s. over (task_at s t)))"
proof -
  have inv: "section_inv s" by (rule sec.reached_invariant [OF assms])
  have i: "idx_inv s" "main_ok (main_at s) s" "tasks_inv s" using inv by (simp_all add: section_inv_def)
  have "my_idx p = Some i" if "in_call p = Some (i, l)" for p i l using that by (cases p) simp_all
  then have "t = u" if "in_call (task_at s t) = Some (i, l)" "in_call (task_at s u) = Some (i, m)" for t u i l m
    using i(1) that unfolding idx_inv_def by blast
  moreover have "1 \<le> i \<and> i < threads_needed l" if "in_call (task_at s t) = Some (i, l)" for t i l
    using call_bounds [OF inv that] by simp
  moreover have "has_returned s \<longrightarrow> kept_loop (main_at s) = None \<and> current_loop s = None"
    using i(2) by (auto simp: has_returned_def kept_loop_def)
  moreover have "main_at s = Outside \<longrightarrow> \<not> ps_active s \<and> ps_tasks s = [] \<and> (\<forall>t < next_task s. over (task_at s t))"
    using i(2) outside_over [OF i(3)] by (cases "main_at s") simp_all
  ultimately show ?thesis using uses_loop_kept [OF inv] by blast
qed

text \<open>
  C14. The calls of the main thread return: in every run that is fair to each thread, from any state that can be
  reached, however often the workers go round their loops, the main thread gets to the end of
  the loop (all workers have left it) or of the section (all tasks that were not revoked are finished).
\<close>

theorem parallel_calls_return:
  assumes "section_reached (run 0)" "fair_run thread_step run who"
  shows "\<exists>i. has_returned (run i)"
  by (rule sec.fair_goal [OF assms(2) sec.reached_invariant [OF assms(1)]])

text \<open>
  C39. Ending a section does not reset \<open>worker_idx\<close>. When the object is used again, as it is meant to be, no worker takes part in a
  loop for up to one thread more than there have been workers before: the numbers of the new workers are all too high.
\<close>

theorem reused_section_without_help:
  assumes "section_reached s" "threads_needed l \<le> base_idx s + 1"
  shows "task_at s t \<noteq> Running i l"
  using call_bounds [OF sec.reached_invariant [OF assms(1)], of t i l] assms(2) by auto

subsection \<open>Examples\<close>

abbreviation loop_for_two :: par_loop where
  "loop_for_two \<equiv> \<lparr>loop_no = 0, threads_needed = 2\<rparr>"

lemma main_run: "section_reached s \<Longrightarrow> main_step s s' \<Longrightarrow> section_reached s'"
  by (erule reached_step) (simp add: section_step_def)

lemma task_run: "section_reached s \<Longrightarrow> task_step t s s' \<Longrightarrow> t < next_task s \<Longrightarrow> section_reached s'"
  by (erule reached_step) (auto simp: section_step_def)

lemma turn_run: "section_reached s \<Longrightarrow> task_turn t s s' \<Longrightarrow> t < next_task s \<Longrightarrow> section_reached s'"
  by (erule reached_step) (auto simp: section_step_def)

lemma run_0: "section_reached \<lparr>ps_active = False, worker_idx = 0, tasks_finished = 0, current_loop = None, workers_in_loop = 0,
     ps_tasks = [], main_at = Outside, task_at = (\<lambda>_. Unborn), first_task = 0, next_task = 0, base_idx = 0\<rparr>"
  by (rule reached_start) (simp add: section_start_def section_init_def)

lemmas section_ops = extra_needed_def push_task_def end_section_def revoke_task_def task_to_def Let_def

lemmas run_1 = main_run [OF run_0 main_step.start, unfolded section_ops, simplified]
lemmas run_2 = main_run [OF run_1 main_step.start_loop [where l = loop_for_two], unfolded section_ops, simplified]
lemmas run_3 = main_run [OF run_2 main_step.pushed [where d = False and l = loop_for_two and k = 0], unfolded section_ops, simplified]
lemmas run_4 = task_run [OF run_3 task_step.popped [where t = 0 and b = None], unfolded section_ops, simplified]
lemmas run_5 = task_run [OF run_4 task_step.numbered [where t = 0 and b = None], unfolded section_ops, simplified]
lemmas run_6 = main_run [OF run_5 main_step.summoned [where d = False and l = loop_for_two], unfolded section_ops, simplified]
lemmas run_7 = main_run [OF run_6 main_step.ran [where l = loop_for_two], unfolded section_ops, simplified]
lemmas run_8 = main_run [OF run_7 main_step.clear [where l = loop_for_two], unfolded section_ops, simplified]
lemmas run_9 = main_run [OF run_8 main_step.loop_left [where l = loop_for_two], unfolded section_ops, simplified]
lemmas run_10 = main_run [OF run_9 main_step.end_idle, unfolded section_ops, simplified]
lemmas run_11 = task_run [OF run_10 task_step.test_off [where t = 0 and i = 1], unfolded section_ops, simplified]
lemmas run_12 = task_run [OF run_11 task_step.finish [where t = 0], unfolded section_ops, simplified]
lemmas run_13 = main_run [OF run_12 main_step.revoke [where d = None and n = 1 and r = 0], unfolded section_ops, simplified]
lemmas run_14 = main_run [OF run_13 main_step.revoked_all [where d = None and n = 1 and r = 0], unfolded section_ops, simplified]
lemmas run_15 = main_run [OF run_14 main_step.tasks_done [where d = None and k = 1], unfolded section_ops, simplified]
lemmas run_16 = main_run [OF run_15 main_step.reset [where d = None], unfolded section_ops, simplified]
lemmas run_17 = main_run [OF run_16 main_step.start, unfolded section_ops, simplified]
lemmas run_18 = main_run [OF run_17 main_step.start_loop [where l = loop_for_two], unfolded section_ops, simplified]
lemmas run_19 = main_run [OF run_18 main_step.pushed [where d = False and l = loop_for_two and k = 0], unfolded section_ops, simplified]
lemmas run_20 = task_run [OF run_19 task_step.popped [where t = 1 and b = None], unfolded section_ops, simplified]
lemmas run_21 = task_run [OF run_20 task_step.numbered [where t = 1 and b = None], unfolded section_ops, simplified]
lemmas run_22 = turn_run [OF run_21 task_turn.test_on [where t = 1 and i = 2], unfolded section_ops, simplified]
lemmas run_23 = task_run [OF run_22 task_step.look [where t = 1 and i = 2], unfolded section_ops, simplified]
lemmas run_24 = task_run [OF run_23 task_step.enter [where t = 1 and i = 2], unfolded section_ops, simplified]
lemmas run_25 = task_run [OF run_24 task_step.read [where t = 1 and i = 2], unfolded section_ops, simplified]
lemmas run_26 = task_run [OF run_25 task_step.got [where t = 1 and i = 2 and item = "Some loop_for_two"], unfolded section_ops, simplified]

text \<open>In the first of these sections, the worker calls the function.\<close>

lemmas call_1 = turn_run [OF run_5 task_turn.test_on [where t = 0 and i = 1], unfolded section_ops, simplified]
lemmas call_2 = task_run [OF call_1 task_step.look [where t = 0 and i = 1], unfolded section_ops, simplified]
lemmas call_3 = task_run [OF call_2 task_step.enter [where t = 0 and i = 1], unfolded section_ops, simplified]
lemmas call_4 = task_run [OF call_3 task_step.read [where t = 0 and i = 1], unfolded section_ops, simplified]
lemmas call_5 = task_run [OF call_4 task_step.got [where t = 0 and i = 1 and item = "Some loop_for_two"], unfolded section_ops, simplified]

definition calling :: par_section where
  "calling = \<lparr>ps_active = True, worker_idx = 1, tasks_finished = 0, current_loop = Some loop_for_two, workers_in_loop = 1,
     ps_tasks = [0], main_at = Summon False loop_for_two 0, task_at = (\<lambda>_. Unborn)(0 := Running 1 loop_for_two),
     first_task = 0, next_task = 1, base_idx = 0\<rparr>"

lemma calling_reached: "section_reached calling"
  using call_5 by (simp add: calling_def)

theorem parallel_section_safe_witness: "in_call (task_at calling 0) = Some (1, loop_for_two) \<and> kept_loop (main_at calling) = Some loop_for_two"
proof -
  have "in_call (task_at calling 0) = Some (1, loop_for_two)" "uses_loop (task_at calling 0) = Some loop_for_two"
    by (simp_all add: calling_def)
  then show ?thesis using parallel_section_safe [OF calling_reached] by blast
qed

text \<open>In the second, it comes with number 2 and leaves the loop for two threads alone.\<close>

definition passing :: par_section where
  "passing = \<lparr>ps_active = True, worker_idx = 2, tasks_finished = 0, current_loop = Some loop_for_two, workers_in_loop = 1,
     ps_tasks = [1], main_at = Summon False loop_for_two 0, task_at = (\<lambda>_. Unborn)(0 := Finished, 1 := Leave 2),
     first_task = 1, next_task = 2, base_idx = 1\<rparr>"

lemma passing_reached: "section_reached passing"
  using run_26 by (simp add: passing_def numeral_2_eq_2)

theorem reused_section_without_help_witness:
  "current_loop passing = Some loop_for_two \<and> task_at passing 1 = Leave 2 \<and> task_at passing 1 \<noteq> Running 2 loop_for_two"
  using reused_section_without_help [OF passing_reached, of loop_for_two 1 2] by (simp add: passing_def)

text \<open>An empty section is ended.\<close>

definition empty_ending :: "main_pc \<Rightarrow> par_section" where
  "empty_ending m = section_init\<lparr>main_at := m\<rparr>"

lemma empty_ending_reached: "section_reached (empty_ending (Revoke None 0 0))"
  using main_run [OF run_1 main_step.end_idle, unfolded section_ops, simplified]
  by (simp add: empty_ending_def section_init_def)

definition ending_run :: "nat \<Rightarrow> par_section" where
  "ending_run i = (if i = 0 then empty_ending (Revoke None 0 0) else if i = 1 then empty_ending (Wait_tasks None 0)
     else if i = 2 then empty_ending (Reset None) else empty_ending Outside)"

lemma ending_run_main: "main_step (ending_run i) (ending_run (Suc i))"
proof -
  have "main_step (empty_ending (Revoke None 0 0)) (empty_ending (Wait_tasks None 0))"
    using main_step.revoked_all [of "empty_ending (Revoke None 0 0)" None 0 0] by (simp add: empty_ending_def section_init_def)
  moreover have "main_step (empty_ending (Wait_tasks None 0)) (empty_ending (Reset None))"
    using main_step.tasks_done [of "empty_ending (Wait_tasks None 0)" None 0] by (simp add: empty_ending_def section_init_def)
  moreover have "main_step (empty_ending (Reset None)) (empty_ending Outside)"
    using main_step.reset [of "empty_ending (Reset None)" None] by (simp add: empty_ending_def section_init_def)
  moreover have "main_step (empty_ending Outside) (empty_ending Outside)"
    using main_step.allocate [of "empty_ending Outside"] by (simp add: empty_ending_def section_init_def new_section_def)
  ultimately show ?thesis by (auto simp: ending_run_def)
qed

lemma ending_run_fair: "fair_run thread_step ending_run (\<lambda>_. Some None)"
proof -
  have "next_task (ending_run i) = 0" for i by (simp add: ending_run_def empty_ending_def section_init_def)
  then have "\<not> thread_step (Some t) (ending_run i) s'" for t i s' by (simp add: thread_step_def)
  moreover have "thread_step None (ending_run i) (ending_run (Suc i))" for i using ending_run_main by (simp add: thread_step_def)
  ultimately show ?thesis unfolding fair_run_def by (auto split: option.split) (metis order_refl option.exhaust)
qed

theorem parallel_calls_return_witness: "\<exists>i. has_returned (ending_run i)"
  by (rule parallel_calls_return [OF _ ending_run_fair]) (use empty_ending_reached in \<open>simp add: ending_run_def\<close>)

end
