(* ===== verification/Workers.thy ===== *)
theory Workers
  imports Interleaving
begin

text \<open>
  The workers of the pool going to sleep, being woken and leaving (class \<open>ThreadPoolTempl\<close> in
  include/onnxruntime/core/platform/EigenNonBlockingThreadPool.h: \<open>WorkerLoop\<close>, \<open>WorkerData::SetBlocked\<close> and
  \<open>EnsureAwake\<close>, \<open>Schedule\<close>, \<open>Cancel\<close> and the destructor). Threads 0 to \<open>n - 1\<close> are the workers, thread \<open>n\<close> closes the
  pool, the others are its clients. A step is one access to an atomic or to a queue, or one operation under a
  mutex, and the steps of all threads interleave. An operation of a queue is one step, as in \<open>Stealing\<close>.
\<close>

section \<open>Model\<close>

datatype thread_status = Spinning | Active | Blocking | Blocked | Waking

datatype block_result = With_task | No_task | Leaving

datatype worker_pc =
    Head                   \<comment> \<open>before \<open>while (!cancelled_ && !should_exit)\<close>\<close>
  | Looking                \<comment> \<open>\<open>PopFront\<close>, spinning, stealing\<close>
  | Holding                \<comment> \<open>with a task, before \<open>SetActive\<close>\<close>
  | Running                \<comment> \<open>in \<open>t()\<close>\<close>
  | Ran                    \<comment> \<open>before \<open>SetSpinning\<close>\<close>
  | Lock_block             \<comment> \<open>before the lock of \<open>SetBlocked\<close>\<close>
  | Scan "nat list"        \<comment> \<open>in \<open>NonEmptyQueueIndex\<close>, with the queues to come\<close>
  | Found nat              \<comment> \<open>a queue that was not empty\<close>
  | Pop_found nat          \<comment> \<open>before \<open>PopBack\<close> on it\<close>
  | Count                  \<comment> \<open>before \<open>blocked_++\<close>\<close>
  | Test_done              \<comment> \<open>before \<open>if (done_\<close>\<close>
  | Test_count             \<comment> \<open>before \<open>&& blocked_ == num_threads_)\<close>\<close>
  | Rescan "nat list"      \<comment> \<open>in the second \<open>NonEmptyQueueIndex\<close>\<close>
  | Uncount                \<comment> \<open>before \<open>blocked_--\<close>\<close>
  | Block                  \<comment> \<open>before \<open>status = Blocked\<close>\<close>
  | Recheck                \<comment> \<open>before \<open>while (status == Blocked)\<close>\<close>
  | Asleep                 \<comment> \<open>in \<open>cv.wait\<close>\<close>
  | Awake                  \<comment> \<open>woken, before the lock is taken again\<close>
  | Post                   \<comment> \<open>before \<open>post_block()\<close>\<close>
  | Unblock block_result   \<comment> \<open>before \<open>status = Spinning\<close>\<close>
  | Wake_all nat           \<comment> \<open>in \<open>WakeAllWorkersForExit\<close>\<close>
  | Exited
  | Stopped                \<comment> \<open>left because of \<open>cancelled_\<close>\<close>
  | Failed                 \<comment> \<open>an assert\<close>

text \<open>\<open>EnsureAwake\<close> on a worker.\<close>

datatype ensure_pc =
    Resting
  | Look_at nat     \<comment> \<open>before \<open>seen = status\<close>\<close>
  | Lock_of nat     \<comment> \<open>before the lock\<close>
  | Check nat       \<comment> \<open>before \<open>seen = status\<close> under the lock\<close>
  | Notify nat      \<comment> \<open>before \<open>cv.notify_one()\<close>\<close>
  | Unlock nat
  | Ensure_failed   \<comment> \<open>the assert\<close>

text \<open>
  The state: of each worker its place, status, mutex and queue (each item is the thread that pushed it), of each thread its
  \<open>EnsureAwake\<close>; \<open>blocked_\<close>, \<open>done_\<close>, \<open>cancelled_\<close>, and how far \<open>WakeAllWorkersForExit\<close> of thread \<open>n\<close> has come.
\<close>

record pool_state =
  w_pc :: "nat \<Rightarrow> worker_pc"
  w_status :: "nat \<Rightarrow> thread_status"
  w_mutex :: "nat \<Rightarrow> nat option"
  w_queue :: "nat \<Rightarrow> nat list"
  ensure :: "nat \<Rightarrow> ensure_pc"
  p_blocked :: nat
  p_done :: bool
  p_cancelled :: bool
  p_closing :: "nat option"

definition pool_init :: pool_state where
  "pool_init = \<lparr>w_pc = (\<lambda>_. Head), w_status = (\<lambda>_. Spinning), w_mutex = (\<lambda>_. None), w_queue = (\<lambda>_. []), ensure = (\<lambda>_. Resting),
     p_blocked = 0, p_done = False, p_cancelled = False, p_closing = None\<rparr>"

definition goes :: "nat \<Rightarrow> worker_pc \<Rightarrow> pool_state \<Rightarrow> pool_state" where
  "goes w p s = s\<lparr>w_pc := (w_pc s)(w := p)\<rparr>"

definition status_to :: "nat \<Rightarrow> thread_status \<Rightarrow> pool_state \<Rightarrow> pool_state" where
  "status_to w st s = s\<lparr>w_status := (w_status s)(w := st)\<rparr>"

definition mutex_to :: "nat \<Rightarrow> nat option \<Rightarrow> pool_state \<Rightarrow> pool_state" where
  "mutex_to w p s = s\<lparr>w_mutex := (w_mutex s)(w := p)\<rparr>"

definition queue_to :: "nat \<Rightarrow> nat list \<Rightarrow> pool_state \<Rightarrow> pool_state" where
  "queue_to v xs s = s\<lparr>w_queue := (w_queue s)(v := xs)\<rparr>"

definition ensure_to :: "nat \<Rightarrow> ensure_pc \<Rightarrow> pool_state \<Rightarrow> pool_state" where
  "ensure_to p e s = s\<lparr>ensure := (ensure s)(p := e)\<rparr>"

text \<open>
  The worker loop. A worker that looks for work may take an item from the front of its queue or from the back of
  any queue; the item may turn out to be revoked. \<open>vs\<close> is the order of a walk over the queues. The second
  relation is \<open>SetBlocked\<close> with its two functions.
\<close>

definition walk :: "nat \<Rightarrow> nat list \<Rightarrow> bool" where
  "walk n vs \<longleftrightarrow> distinct vs \<and> set vs = {..<n}"

inductive loop_step :: "nat \<Rightarrow> nat \<Rightarrow> pool_state \<Rightarrow> pool_state \<Rightarrow> bool" for n w where
  head: "w_pc s w = Head \<Longrightarrow> loop_step n w s (goes w (if p_cancelled s then Stopped else Looking) s)"
| pop_front: "w_pc s w = Looking \<Longrightarrow> w_queue s w = x # xs \<Longrightarrow> p = Holding \<or> p = Looking \<Longrightarrow>
    loop_step n w s (goes w p (queue_to w xs s))"
| steal: "w_pc s w = Looking \<Longrightarrow> v < n \<Longrightarrow> w_queue s v = xs @ [x] \<Longrightarrow> p = Holding \<or> p = Looking \<Longrightarrow>
    loop_step n w s (goes w p (queue_to v xs s))"
| give_up: "w_pc s w = Looking \<Longrightarrow> loop_step n w s (goes w Lock_block s)"
| set_active: "w_pc s w = Holding \<Longrightarrow> w_mutex s w = None \<Longrightarrow> loop_step n w s (goes w Running (status_to w Active s))"
| push_own: "w_pc s w = Running \<Longrightarrow> ensure s w = Resting \<Longrightarrow> loop_step n w s (queue_to w (w # w_queue s w) s)"
| ran: "w_pc s w = Running \<Longrightarrow> ensure s w = Resting \<Longrightarrow> loop_step n w s (goes w Ran s)"
| set_spinning: "w_pc s w = Ran \<Longrightarrow> w_mutex s w = None \<Longrightarrow> loop_step n w s (goes w Head (status_to w Spinning s))"
| wake_next: "w_pc s w = Wake_all k \<Longrightarrow> k < n \<Longrightarrow> ensure s w = Resting \<Longrightarrow>
    loop_step n w s (goes w (Wake_all (Suc k)) (ensure_to w (Look_at k) s))"
| woke_all: "w_pc s w = Wake_all k \<Longrightarrow> \<not> k < n \<Longrightarrow> ensure s w = Resting \<Longrightarrow> loop_step n w s (goes w Exited s)"

inductive block_step :: "nat \<Rightarrow> nat \<Rightarrow> pool_state \<Rightarrow> pool_state \<Rightarrow> bool" for n w where
  lock: "w_pc s w = Lock_block \<Longrightarrow> w_mutex s w = None \<Longrightarrow> w_status s w = Spinning \<Longrightarrow> walk n vs \<Longrightarrow>
    block_step n w s (goes w (Scan vs) (mutex_to w (Some w) (status_to w Blocking s)))"
| lock_failed: "w_pc s w = Lock_block \<Longrightarrow> w_mutex s w = None \<Longrightarrow> w_status s w \<noteq> Spinning \<Longrightarrow> block_step n w s (goes w Failed s)"
| scan: "w_pc s w = Scan (v # vs) \<Longrightarrow> block_step n w s (goes w (if w_queue s v = [] then Scan vs else Found v) s)"
| scanned: "w_pc s w = Scan [] \<Longrightarrow> block_step n w s (goes w Count s)"
| found: "w_pc s w = Found v \<Longrightarrow> block_step n w s (goes w (if p_cancelled s then Unblock No_task else Pop_found v) s)"
| pop_none: "w_pc s w = Pop_found v \<Longrightarrow> w_queue s v = [] \<Longrightarrow> block_step n w s (goes w (Unblock No_task) s)"
| pop_back: "w_pc s w = Pop_found v \<Longrightarrow> w_queue s v = xs @ [x] \<Longrightarrow> p = Unblock With_task \<or> p = Pop_found v \<Longrightarrow>
    block_step n w s (goes w p (queue_to v xs s))"
| count: "w_pc s w = Count \<Longrightarrow> block_step n w s (goes w Test_done (s\<lparr>p_blocked := Suc (p_blocked s)\<rparr>))"
| test_done: "w_pc s w = Test_done \<Longrightarrow> block_step n w s (goes w (if p_done s then Test_count else Block) s)"
| test_count: "w_pc s w = Test_count \<Longrightarrow> walk n vs \<Longrightarrow> block_step n w s (goes w (if p_blocked s = n then Rescan vs else Block) s)"
| rescan: "w_pc s w = Rescan (v # vs) \<Longrightarrow> block_step n w s (goes w (if w_queue s v = [] then Rescan vs else Uncount) s)"
| rescanned: "w_pc s w = Rescan [] \<Longrightarrow> block_step n w s (goes w (Unblock Leaving) s)"
| uncount: "w_pc s w = Uncount \<Longrightarrow> block_step n w s (goes w (Unblock No_task) (s\<lparr>p_blocked := p_blocked s - 1\<rparr>))"
| block: "w_pc s w = Block \<Longrightarrow> block_step n w s (goes w Recheck (status_to w Blocked s))"
| sleep: "w_pc s w = Recheck \<Longrightarrow> w_status s w = Blocked \<Longrightarrow> block_step n w s (goes w Asleep (mutex_to w None s))"
| spurious: "w_pc s w = Asleep \<Longrightarrow> block_step n w s (goes w Awake s)"
| relock: "w_pc s w = Awake \<Longrightarrow> w_mutex s w = None \<Longrightarrow> block_step n w s (goes w Recheck (mutex_to w (Some w) s))"
| unblocked: "w_pc s w = Recheck \<Longrightarrow> w_status s w \<noteq> Blocked \<Longrightarrow> block_step n w s (goes w Post s)"
| post: "w_pc s w = Post \<Longrightarrow> block_step n w s (goes w (Unblock No_task) (s\<lparr>p_blocked := p_blocked s - 1\<rparr>))"
| unlock: "w_pc s w = Unblock r \<Longrightarrow>
    block_step n w s (goes w (case r of With_task \<Rightarrow> Holding | No_task \<Rightarrow> Head | Leaving \<Rightarrow> Wake_all 0)
      (mutex_to w None (status_to w Spinning s)))"

text \<open>\<open>EnsureAwake\<close>, called by thread \<open>p\<close>.\<close>

inductive ensure_step :: "nat \<Rightarrow> pool_state \<Rightarrow> pool_state \<Rightarrow> bool" for p where
  look: "ensure s p = Look_at v \<Longrightarrow>
    ensure_step p s (ensure_to p (if w_status s v = Blocking \<or> w_status s v = Blocked then Lock_of v else Resting) s)"
| lock: "ensure s p = Lock_of v \<Longrightarrow> w_mutex s v = None \<Longrightarrow> ensure_step p s (ensure_to p (Check v) (mutex_to v (Some p) s))"
| check: "ensure s p = Check v \<Longrightarrow> w_status s v = Blocked \<Longrightarrow> ensure_step p s (ensure_to p (Notify v) (status_to v Waking s))"
| check_other: "ensure s p = Check v \<Longrightarrow> w_status s v \<noteq> Blocked \<Longrightarrow>
    ensure_step p s (ensure_to p (if w_status s v = Blocking then Ensure_failed else Unlock v) s)"
| notify: "ensure s p = Notify v \<Longrightarrow>
    ensure_step p s (ensure_to p (Unlock v) (if w_pc s v = Asleep then goes v Awake s else s))"
| unlock: "ensure s p = Unlock v \<Longrightarrow> ensure_step p s (ensure_to p Resting (mutex_to v None s))"

text \<open>
  Work pushed to the back of a queue, by a client or by the code that a worker runs; nobody else uses the pool
  once it is being destroyed.
\<close>

inductive push_step :: "nat \<Rightarrow> nat \<Rightarrow> pool_state \<Rightarrow> pool_state \<Rightarrow> bool" for n p where
  push: "ensure s p = Resting \<Longrightarrow> v < n \<Longrightarrow> n < p \<and> \<not> p_done s \<or> p < n \<and> w_pc s p = Running \<Longrightarrow>
    push_step n p s (ensure_to p (Look_at v) (queue_to v (w_queue s v @ [p]) s))"

text \<open>The destructor, or \<open>Cancel\<close>, which only sets \<open>cancelled_\<close> before it does the same.\<close>

inductive close_step :: "nat \<Rightarrow> pool_state \<Rightarrow> pool_state \<Rightarrow> bool" for n where
  destroy: "p_closing s = None \<Longrightarrow> close_step n s (s\<lparr>p_done := True, p_closing := Some 0\<rparr>)"
| cancel: "p_closing s = None \<Longrightarrow> close_step n s (s\<lparr>p_cancelled := True\<rparr>)"
| wake_next: "p_closing s = Some k \<Longrightarrow> k < n \<Longrightarrow> ensure s n = Resting \<Longrightarrow>
    close_step n s (ensure_to n (Look_at k) (s\<lparr>p_closing := Some (Suc k)\<rparr>))"

definition pool_step :: "nat \<Rightarrow> pool_state \<Rightarrow> pool_state \<Rightarrow> bool" where
  "pool_step n s s' \<longleftrightarrow> (\<exists>w < n. loop_step n w s s' \<or> block_step n w s s') \<or> (\<exists>p. ensure_step p s s' \<or> push_step n p s s') \<or> close_step n s s'"

definition pool_start :: "pool_state \<Rightarrow> bool" where
  "pool_start s \<longleftrightarrow> s = pool_init"

abbreviation pool_reached :: "nat \<Rightarrow> pool_state \<Rightarrow> bool" where
  "pool_reached n \<equiv> reached pool_start (pool_step n)"

lemma pool_simps [simp]:
  "w_pc (goes w p s) = (w_pc s)(w := p)" "w_status (goes w p s) = w_status s" "w_mutex (goes w p s) = w_mutex s"
  "w_queue (goes w p s) = w_queue s" "ensure (goes w p s) = ensure s" "p_blocked (goes w p s) = p_blocked s"
  "p_done (goes w p s) = p_done s" "p_cancelled (goes w p s) = p_cancelled s" "p_closing (goes w p s) = p_closing s"
  "w_pc (status_to w st s) = w_pc s" "w_status (status_to w st s) = (w_status s)(w := st)" "w_mutex (status_to w st s) = w_mutex s"
  "w_queue (status_to w st s) = w_queue s" "ensure (status_to w st s) = ensure s" "p_blocked (status_to w st s) = p_blocked s"
  "p_done (status_to w st s) = p_done s" "p_cancelled (status_to w st s) = p_cancelled s" "p_closing (status_to w st s) = p_closing s"
  "w_pc (mutex_to w q s) = w_pc s" "w_status (mutex_to w q s) = w_status s" "w_mutex (mutex_to w q s) = (w_mutex s)(w := q)"
  "w_queue (mutex_to w q s) = w_queue s" "ensure (mutex_to w q s) = ensure s" "p_blocked (mutex_to w q s) = p_blocked s"
  "p_done (mutex_to w q s) = p_done s" "p_cancelled (mutex_to w q s) = p_cancelled s" "p_closing (mutex_to w q s) = p_closing s"
  "w_pc (queue_to w xs s) = w_pc s" "w_status (queue_to w xs s) = w_status s" "w_mutex (queue_to w xs s) = w_mutex s"
  "w_queue (queue_to w xs s) = (w_queue s)(w := xs)" "ensure (queue_to w xs s) = ensure s" "p_blocked (queue_to w xs s) = p_blocked s"
  "p_done (queue_to w xs s) = p_done s" "p_cancelled (queue_to w xs s) = p_cancelled s" "p_closing (queue_to w xs s) = p_closing s"
  "w_pc (ensure_to t e s) = w_pc s" "w_status (ensure_to t e s) = w_status s" "w_mutex (ensure_to t e s) = w_mutex s"
  "w_queue (ensure_to t e s) = w_queue s" "ensure (ensure_to t e s) = (ensure s)(t := e)" "p_blocked (ensure_to t e s) = p_blocked s"
  "p_done (ensure_to t e s) = p_done s" "p_cancelled (ensure_to t e s) = p_cancelled s" "p_closing (ensure_to t e s) = p_closing s"
  by (simp_all add: goes_def status_to_def mutex_to_def queue_to_def ensure_to_def)

section \<open>Places, status and locks\<close>

fun in_block :: "worker_pc \<Rightarrow> bool" where
  "in_block (Scan vs) = True" | "in_block (Found v) = True" | "in_block (Pop_found v) = True" | "in_block Count = True"
| "in_block Test_done = True" | "in_block Test_count = True" | "in_block (Rescan vs) = True" | "in_block Uncount = True"
| "in_block Block = True" | "in_block Recheck = True" | "in_block Post = True" | "in_block (Unblock r) = True"
| "in_block _ = False"

fun status_ok :: "worker_pc \<Rightarrow> thread_status \<Rightarrow> bool" where
  "status_ok Running st = (st = Active)" | "status_ok Ran st = (st = Active)"
| "status_ok (Scan vs) st = (st = Blocking)" | "status_ok (Found v) st = (st = Blocking)" | "status_ok (Pop_found v) st = (st = Blocking)"
| "status_ok Count st = (st = Blocking)" | "status_ok Test_done st = (st = Blocking)" | "status_ok Test_count st = (st = Blocking)"
| "status_ok (Rescan vs) st = (st = Blocking)" | "status_ok Uncount st = (st = Blocking)" | "status_ok Block st = (st = Blocking)"
| "status_ok Recheck st = (st = Blocked \<or> st = Waking)" | "status_ok Asleep st = (st = Blocked \<or> st = Waking)"
| "status_ok Awake st = (st = Blocked \<or> st = Waking)" | "status_ok Post st = (st = Waking)"
| "status_ok (Unblock r) st = (st = Blocking \<or> st = Waking)"
| "status_ok Failed st = False"
| "status_ok _ st = (st = Spinning)"

fun holds_lock :: "ensure_pc \<Rightarrow> nat option" where
  "holds_lock (Check v) = Some v" | "holds_lock (Notify v) = Some v" | "holds_lock (Unlock v) = Some v"
| "holds_lock _ = None"

fun target :: "ensure_pc \<Rightarrow> nat option" where
  "target (Look_at v) = Some v" | "target (Lock_of v) = Some v" | "target (Check v) = Some v" | "target (Notify v) = Some v"
| "target (Unlock v) = Some v"
| "target _ = None"

fun may_ensure :: "worker_pc \<Rightarrow> bool" where
  "may_ensure Running = True" | "may_ensure (Wake_all k) = True"
| "may_ensure _ = False"

definition status_inv :: "nat \<Rightarrow> pool_state \<Rightarrow> bool" where
  "status_inv n s \<longleftrightarrow> (\<forall>v < n. status_ok (w_pc s v) (w_status s v))"

definition lock_inv :: "nat \<Rightarrow> pool_state \<Rightarrow> bool" where
  "lock_inv n s \<longleftrightarrow> (\<forall>v < n. in_block (w_pc s v) \<longrightarrow> w_mutex s v = Some v)
     \<and> (\<forall>p v. holds_lock (ensure s p) = Some v \<longrightarrow> w_mutex s v = Some p)"

definition ensure_inv :: "nat \<Rightarrow> pool_state \<Rightarrow> bool" where
  "ensure_inv n s \<longleftrightarrow> (\<forall>w < n. ensure s w \<noteq> Resting \<longrightarrow> may_ensure (w_pc s w)) \<and> (\<forall>p. ensure s p \<noteq> Ensure_failed)
     \<and> (\<forall>p v. target (ensure s p) = Some v \<longrightarrow> v < n)"

definition base_inv :: "nat \<Rightarrow> pool_state \<Rightarrow> bool" where
  "base_inv n s \<longleftrightarrow> status_inv n s \<and> lock_inv n s \<and> ensure_inv n s"

lemma base_excl:
  assumes "base_inv n s" "v < n" "in_block (w_pc s v)"
  shows "holds_lock (ensure s p) \<noteq> Some v"
proof
  assume h: "holds_lock (ensure s p) = Some v"
  then have "p = v" using assms unfolding base_inv_def lock_inv_def by (metis option.inject)
  moreover have "ensure s p \<noteq> Resting" using h by auto
  ultimately have "may_ensure (w_pc s v)" using assms(1,2) by (simp add: base_inv_def ensure_inv_def)
  then show False using assms(3) by (cases "w_pc s v") simp_all
qed

lemma base_loop: 
  assumes "loop_step n w s s'" "w < n" "base_inv n s"
  shows "base_inv n s'"
proof -
  have i: "status_ok (w_pc s v) (w_status s v)" "in_block (w_pc s v) \<Longrightarrow> w_mutex s v = Some v"
    "ensure s v \<noteq> Resting \<Longrightarrow> may_ensure (w_pc s v)" if "v < n" for v
    using assms(3) that by (simp_all add: base_inv_def status_inv_def lock_inv_def ensure_inv_def)
  have j: "holds_lock (ensure s p) = Some v \<Longrightarrow> w_mutex s v = Some p" "ensure s p \<noteq> Ensure_failed" "target (ensure s p) = Some v \<Longrightarrow> v < n" for p v
    using assms(3) by (simp_all add: base_inv_def lock_inv_def ensure_inv_def)
  show ?thesis using assms(1)
    by cases (use assms(2) i(1) [OF assms(2)] i(3) [OF assms(2)] i j in \<open>auto simp: base_inv_def status_inv_def lock_inv_def ensure_inv_def\<close>)
qed

lemma base_facts:
  assumes "base_inv n s"
  shows "\<And>v. v < n \<Longrightarrow> status_ok (w_pc s v) (w_status s v)" "\<And>v. v < n \<Longrightarrow> in_block (w_pc s v) \<Longrightarrow> w_mutex s v = Some v"
    "\<And>v. v < n \<Longrightarrow> ensure s v \<noteq> Resting \<Longrightarrow> may_ensure (w_pc s v)"
    "\<And>p v. holds_lock (ensure s p) = Some v \<Longrightarrow> w_mutex s v = Some p" "\<And>p. ensure s p \<noteq> Ensure_failed"
    "\<And>p v. target (ensure s p) = Some v \<Longrightarrow> v < n"
  using assms by (simp_all add: base_inv_def status_inv_def lock_inv_def ensure_inv_def)

lemmas base_defs = base_inv_def status_inv_def lock_inv_def ensure_inv_def

lemma base_block:
  assumes "block_step n w s s'" "w < n" "base_inv n s"
  shows "base_inv n s'"
proof -
  note i = base_facts [OF assms(3)]
  have resting: "ensure s w = Resting" if "\<not> may_ensure (w_pc s w)" using i(3) [OF assms(2)] that by blast
  have excl: "holds_lock (ensure s p) \<noteq> Some w" if "in_block (w_pc s w)" for p by (rule base_excl [OF assms(3,2) that])
  show ?thesis using assms(1)
    by cases (use assms(2) i(1) [OF assms(2)] i(2) [OF assms(2)] resting excl i in \<open>auto simp: base_defs split: block_result.split\<close>)
qed

lemma base_ensure:
  assumes "ensure_step p s s'" "base_inv n s"
  shows "base_inv n s'"
proof -
  note i = base_facts [OF assms(2)]
  have excl: "v < n" "\<not> in_block (w_pc s v)" if "holds_lock (ensure s p) = Some v" for v
  proof -
    have "target (ensure s p) = Some v" using that by (cases "ensure s p") simp_all
    then show "v < n" by (rule i(6))
    then show "\<not> in_block (w_pc s v)" using base_excl [OF assms(2)] that by blast
  qed
  have blocking: "w_status s v \<noteq> Blocking" if "holds_lock (ensure s p) = Some v" for v
    using excl [OF that] i(1) [of v] by (cases "w_pc s v") auto
  show ?thesis using assms(1)
  proof cases
    case (check v)
    then have "w_pc s v = Asleep \<or> w_pc s v = Awake" using excl [of v] i(1) [of v] by (cases "w_pc s v") auto
    then show ?thesis using check i excl(1) [of v] by (auto simp: base_defs)
  next
    case (check_other v)
    then show ?thesis using i blocking [of v] excl(1) [of v] by (auto simp: base_defs)
  next
    case (notify v)
    have v: "v < n" using excl(1) [of v] notify by simp
    have "w_status s v = Blocked \<or> w_status s v = Waking" "ensure s v = Resting" if "w_pc s v = Asleep"
      using that i(1) [OF v] i(3) [OF v] by auto
    then show ?thesis using notify i v by (auto simp: base_defs)
  next
    case (lock v)
    have "\<not> in_block (w_pc s v)" using lock i(2) [of v] i(6) [of p v] by auto
    then show ?thesis using lock i i(6) [of p v] by (auto simp: base_defs)
  next
    case (unlock v)
    have "q = p" if "holds_lock (ensure s q) = Some v" for q using i(4) [of q v] i(4) [of p v] unlock that by simp
    then show ?thesis using unlock i excl [of v] by (auto simp: base_defs)
  next
    case (look v)
    then show ?thesis using i i(6) [of p v] by (auto simp: base_defs)
  qed
qed

lemma base_push:
  assumes "push_step n p s s'" "base_inv n s"
  shows "base_inv n s'"
  using assms(1) by cases (use base_facts [OF assms(2)] in \<open>auto simp: base_defs\<close>)

lemma base_close:
  assumes "close_step n s s'" "base_inv n s"
  shows "base_inv n s'"
  using assms(1) by cases (use base_facts [OF assms(2)] in \<open>auto simp: base_defs\<close>)

section \<open>Nobody is forgotten\<close>

text \<open>An \<open>EnsureAwake\<close> that will still look at the status of \<open>v\<close>; a worker that is on its way to sleep, or sleeps without having been woken.\<close>

fun wakes :: "nat \<Rightarrow> ensure_pc \<Rightarrow> bool" where
  "wakes v (Look_at u) = (u = v)" | "wakes v (Lock_of u) = (u = v)" | "wakes v (Check u) = (u = v)"
| "wakes v _ = False"

fun sleepy :: "worker_pc \<Rightarrow> thread_status \<Rightarrow> bool" where
  "sleepy (Scan vs) st = True" | "sleepy Count st = True" | "sleepy Test_done st = True" | "sleepy Test_count st = True"
| "sleepy Block st = True" | "sleepy Recheck st = (st = Blocked)" | "sleepy Asleep st = (st = Blocked)" | "sleepy Awake st = (st = Blocked)"
| "sleepy _ st = False"

text \<open>Worker \<open>v\<close> has seen its own queue empty.\<close>

fun past_own :: "nat \<Rightarrow> worker_pc \<Rightarrow> bool" where
  "past_own v (Scan vs) = (v \<notin> set vs)"
| "past_own v p = True"

definition wake_inv :: "nat \<Rightarrow> pool_state \<Rightarrow> bool" where
  "wake_inv n s \<longleftrightarrow> (\<forall>v < n. sleepy (w_pc s v) (w_status s v) \<and> past_own v (w_pc s v) \<and> w_queue s v \<noteq> [] \<longrightarrow> (\<exists>p. wakes v (ensure s p)))
     \<and> (\<forall>v < n. w_pc s v = Asleep \<and> w_status s v \<noteq> Blocked \<longrightarrow> (\<exists>p. ensure s p = Notify v))"

lemma wake_keep:
  assumes "wake_inv n s"
    and "\<And>v. v < n \<Longrightarrow> sleepy (w_pc s' v) (w_status s' v) \<Longrightarrow> past_own v (w_pc s' v) \<Longrightarrow> w_queue s' v \<noteq> [] \<Longrightarrow>
      sleepy (w_pc s v) (w_status s v) \<and> past_own v (w_pc s v) \<and> w_queue s v \<noteq> []"
    and "\<And>v. v < n \<Longrightarrow> w_pc s' v = Asleep \<Longrightarrow> w_status s' v \<noteq> Blocked \<Longrightarrow> w_pc s v = Asleep \<and> w_status s v \<noteq> Blocked"
    and "\<And>p. ensure s p = Resting \<or> ensure s' p = ensure s p"
  shows "wake_inv n s'"
  unfolding wake_inv_def
proof (intro conjI allI impI)
  fix v assume v: "v < n" "sleepy (w_pc s' v) (w_status s' v) \<and> past_own v (w_pc s' v) \<and> w_queue s' v \<noteq> []"
  then obtain p where "wakes v (ensure s p)" using assms(1) assms(2) [OF v(1)] unfolding wake_inv_def by blast
  then show "\<exists>p. wakes v (ensure s' p)" using assms(4) [of p] by (metis wakes.simps(4))
next
  fix v assume v: "v < n" "w_pc s' v = Asleep \<and> w_status s' v \<noteq> Blocked"
  then obtain p where "ensure s p = Notify v" using assms(1) assms(3) [OF v(1)] unfolding wake_inv_def by blast
  then show "\<exists>p. ensure s' p = Notify v" using assms(4) [of p] by (metis ensure_pc.distinct(7))
qed

lemma wake_loop:
  assumes "loop_step n w s s'" "wake_inv n s"
  shows "wake_inv n s'"
  using assms(1)
  by cases (rule wake_keep [OF assms(2)]; auto split: if_splits)+

lemma wake_block:
  assumes "block_step n w s s'" "w < n" "wake_inv n s"
  shows "wake_inv n s'"
  using assms(1)
proof cases
  case (lock vs)
  show ?thesis
    by (rule wake_keep [OF assms(3)]) (use lock assms(2) in \<open>auto simp: walk_def split: if_splits\<close>)
qed (rule wake_keep [OF assms(3)]; auto split: if_splits block_result.splits)+

lemma ensure_frame: "ensure_step p s s' \<Longrightarrow> q \<noteq> p \<Longrightarrow> ensure s' q = ensure s q"
  by (induction rule: ensure_step.induct) simp_all

text \<open>While a worker is sleepy, an \<open>EnsureAwake\<close> for it does not go away.\<close>

lemma wakes_keep:
  assumes step: "ensure_step p s s'" and inv: "base_inv n s" and v: "v < n"
    and s: "sleepy (w_pc s' v) (w_status s' v)" and w: "wakes v (ensure s q)"
  shows "\<exists>q. wakes v (ensure s' q)"
proof (cases "q = p")
  case False
  then show ?thesis using w ensure_frame [OF step, of q] by metis
next
  case True
  note i = base_facts [OF inv]
  have st: "w_status s v = Blocking \<or> w_status s v = Blocked" if "sleepy (w_pc s v) (w_status s v)"
    using i(1) [OF v] that by (cases "w_pc s v") auto
  show ?thesis using step
  proof cases
    case (look u)
    then have "u = v" "sleepy (w_pc s v) (w_status s v)" using w s True by simp_all
    then show ?thesis using look st by (intro exI [of _ p]) auto
  next
    case (lock u)
    then show ?thesis using w True by (intro exI [of _ p]) simp
  next
    case (check u)
    then have u: "u = v" using w True by simp
    then have "\<not> in_block (w_pc s v)" using base_excl [OF inv v, of p] check by auto
    then have False using s check u i(1) [OF v] by (cases "w_pc s v") auto
    then show ?thesis ..
  next
    case (check_other u)
    then have u: "u = v" using w True by simp
    then have "\<not> in_block (w_pc s v)" using base_excl [OF inv v, of p] check_other by auto
    then have False using s check_other u i(1) [OF v] by (cases "w_pc s v") auto
    then show ?thesis ..
  qed (use w True in simp_all)
qed

lemma sleepy_blocked: "sleepy p st \<Longrightarrow> sleepy p Blocked"
  by (cases p) simp_all

lemma ensure_sleepy:
  assumes "ensure_step p s s'" "sleepy (w_pc s' v) (w_status s' v)"
  shows "sleepy (w_pc s v) (w_status s v)" "past_own v (w_pc s' v) = past_own v (w_pc s v)" "w_queue s' = w_queue s"
  using assms by (induction rule: ensure_step.induct) (auto split: if_splits intro: sleepy_blocked)

lemma wake_ensure:
  assumes step: "ensure_step p s s'" and inv: "base_inv n s" and wake: "wake_inv n s"
  shows "wake_inv n s'"
  unfolding wake_inv_def
proof (intro conjI allI impI)
  fix v assume v: "v < n" and "sleepy (w_pc s' v) (w_status s' v) \<and> past_own v (w_pc s' v) \<and> w_queue s' v \<noteq> []"
  then have s: "sleepy (w_pc s' v) (w_status s' v)" "past_own v (w_pc s v)" "w_queue s v \<noteq> []"
    using ensure_sleepy [OF step] by auto
  then obtain q where "wakes v (ensure s q)" using wake v ensure_sleepy(1) [OF step s(1)] unfolding wake_inv_def by blast
  then show "\<exists>p. wakes v (ensure s' p)" using wakes_keep [OF step inv v s(1)] by blast
next
  fix v assume v: "v < n" and a: "w_pc s' v = Asleep \<and> w_status s' v \<noteq> Blocked"
  show "\<exists>p. ensure s' p = Notify v"
  proof (cases "w_pc s v = Asleep \<and> w_status s v \<noteq> Blocked")
    case True
    then obtain q where q: "ensure s q = Notify v" using wake v unfolding wake_inv_def by blast
    show ?thesis
    proof (cases "q = p")
      case False
      then show ?thesis using q ensure_frame [OF step, of q] by metis
    next
      case True
      show ?thesis using step by cases (use True q a in \<open>auto split: if_splits\<close>)
    qed
  next
    case False
    show ?thesis using step by cases (use False a in \<open>auto split: if_splits\<close>)
  qed
qed

lemma wake_push:
  assumes step: "push_step n p s s'" and wake: "wake_inv n s"
  shows "wake_inv n s'"
  using step
proof cases
  case (push v)
  have keep: "\<exists>q. Q (ensure s' q)" if "Q (ensure s q)" "\<not> Q Resting" for Q q
    using that push by (intro exI [of _ q]) auto
  show ?thesis unfolding wake_inv_def
  proof (intro conjI allI impI)
    fix u assume u: "u < n" "sleepy (w_pc s' u) (w_status s' u) \<and> past_own u (w_pc s' u) \<and> w_queue s' u \<noteq> []"
    show "\<exists>q. wakes u (ensure s' q)"
    proof (cases "u = v")
      case True
      then show ?thesis using push(1) by (intro exI [of _ p]) simp
    next
      case False
      then obtain q where "wakes u (ensure s q)" using wake u push(1) unfolding wake_inv_def by auto
      then show ?thesis using keep [of "wakes u" q] by simp
    qed
  next
    fix u assume "u < n" "w_pc s' u = Asleep \<and> w_status s' u \<noteq> Blocked"
    then obtain q where "ensure s q = Notify u" using wake push(1) unfolding wake_inv_def by auto
    then show "\<exists>q. ensure s' q = Notify u" using keep [of "\<lambda>e. e = Notify u" q] by simp
  qed
qed

lemma wake_close:
  assumes "close_step n s s'" "wake_inv n s"
  shows "wake_inv n s'"
  using assms(1) by cases (rule wake_keep [OF assms(2)]; auto)+

section \<open>Counting and leaving\<close>

fun region :: "worker_pc \<Rightarrow> nat" where
  "region Test_done = 1" | "region Test_count = 1" | "region (Rescan vs) = 1" | "region Uncount = 1" | "region Block = 1"
| "region Recheck = 1" | "region Asleep = 1" | "region Awake = 1" | "region Post = 1" | "region (Unblock Leaving) = 1"
| "region (Wake_all k) = 1" | "region Exited = 1"
| "region _ = 0"

definition count_inv :: "nat \<Rightarrow> pool_state \<Rightarrow> bool" where
  "count_inv n s \<longleftrightarrow> p_blocked s = threads_sum region 0 n (w_pc s)"

lemma count_move:
  assumes "count_inv n s" "w < n" "w_pc s' = (w_pc s)(w := q)" "p_blocked s' + region (w_pc s w) = p_blocked s + region q"
  shows "count_inv n s'"
  using assms threads_sum_move [of 0 w n region "w_pc s" q] by (simp add: count_inv_def)

lemma count_loop:
  assumes "loop_step n w s s'" "w < n" "count_inv n s"
  shows "count_inv n s'"
  using assms(1) by cases (rule count_move [OF assms(3,2), where q = "w_pc s' w"]; auto)+

lemma count_pos: "count_inv n s \<Longrightarrow> w < n \<Longrightarrow> region (w_pc s w) \<le> p_blocked s"
  unfolding count_inv_def using threads_sum_member [of 0 w n region "w_pc s"] by simp

lemma count_block:
  assumes "block_step n w s s'" "w < n" "count_inv n s"
  shows "count_inv n s'"
  using assms(1)
proof cases
  case uncount
  then show ?thesis using count_pos [OF assms(3,2)] by (intro count_move [OF assms(3,2), where q = "w_pc s' w"]) auto
next
  case post
  then show ?thesis using count_pos [OF assms(3,2)] by (intro count_move [OF assms(3,2), where q = "w_pc s' w"]) auto
next
  case (unlock r)
  then show ?thesis by (cases r) (intro count_move [OF assms(3,2), where q = "w_pc s' w"]; auto)+
qed (rule count_move [OF assms(3,2), where q = "w_pc s' w"]; auto)+

lemma count_ensure:
  assumes "ensure_step p s s'" "count_inv n s"
  shows "count_inv n s'"
  using assms(1)
proof cases
  case (notify v)
  have "threads_sum region 0 n ((w_pc s)(v := Awake)) = threads_sum region 0 n (w_pc s)" if "w_pc s v = Asleep"
    by (rule threads_sum_cong) (use that in simp)
  then show ?thesis using notify assms(2) by (simp add: count_inv_def)
qed (use assms(2) in \<open>simp_all add: count_inv_def\<close>)

lemma count_push: "push_step n p s s' \<Longrightarrow> count_inv n s \<Longrightarrow> count_inv n s'"
  by (induction rule: push_step.induct) (simp add: count_inv_def)

lemma count_close: "close_step n s s' \<Longrightarrow> count_inv n s \<Longrightarrow> count_inv n s'"
  by (induction rule: close_step.induct) (simp_all add: count_inv_def)

text \<open>
  The queues that a worker has not seen empty since it saw \<open>done_\<close> and all workers blocked; in the others there is no item that it
  pushed itself, nor one of a client.
\<close>

fun unseen :: "worker_pc \<Rightarrow> nat set option" where
  "unseen (Rescan vs) = Some (set vs)" | "unseen (Unblock Leaving) = Some {}" | "unseen (Wake_all k) = Some {}" | "unseen Exited = Some {}"
| "unseen _ = None"

definition exit_inv :: "nat \<Rightarrow> pool_state \<Rightarrow> bool" where
  "exit_inv n s \<longleftrightarrow> (\<forall>w < n. w_pc s w = Test_count \<longrightarrow> p_done s)
     \<and> (\<forall>w < n. \<forall>S. unseen (w_pc s w) = Some S \<longrightarrow> p_done s \<and> (\<forall>q < n. \<forall>x \<in> set (w_queue s q). q \<in> S \<or> x < n \<and> x \<noteq> w))"

lemma exit_keep:
  assumes "exit_inv n s" "p_done s \<longrightarrow> p_done s'"
    and "\<And>w. w < n \<Longrightarrow> w_pc s' w = Test_count \<Longrightarrow> w_pc s w = Test_count \<or> p_done s'"
    and "\<And>w S q x. w < n \<Longrightarrow> unseen (w_pc s' w) = Some S \<Longrightarrow> q < n \<Longrightarrow> x \<in> set (w_queue s' q) \<Longrightarrow>
      q \<in> S \<or> x < n \<and> x \<noteq> w \<or> x \<in> set (w_queue s q) \<and> (\<exists>T. unseen (w_pc s w) = Some T \<and> (q \<in> T \<longrightarrow> q \<in> S))"
    and "\<And>w S. w < n \<Longrightarrow> unseen (w_pc s' w) = Some S \<Longrightarrow> w_pc s w = Test_count \<or> unseen (w_pc s w) \<noteq> None"
  shows "exit_inv n s'"
  unfolding exit_inv_def
proof (intro conjI allI impI ballI)
  fix w assume "w < n" "w_pc s' w = Test_count"
  then show "p_done s'" using assms(1) assms(2,3) unfolding exit_inv_def by blast
next
  fix w S assume w: "w < n" "unseen (w_pc s' w) = Some S"
  then show "p_done s'" using assms(1,2) assms(5) [OF w] unfolding exit_inv_def by auto
  fix q x assume "q < n" "x \<in> set (w_queue s' q)"
  with assms(4) [OF w this] show "q \<in> S \<or> x < n \<and> x \<noteq> w"
    using assms(1) w(1) unfolding exit_inv_def by blast
qed

lemma exit_loop:
  assumes "loop_step n w s s'" "w < n" "exit_inv n s"
  shows "exit_inv n s'"
  using assms(1)
  by cases (rule exit_keep [OF assms(3)]; use assms(2) in \<open>auto split: if_splits\<close>)+

lemma exit_block:
  assumes "block_step n w s s'" "w < n" "exit_inv n s"
  shows "exit_inv n s'"
  using assms(1)
proof cases
  case (test_count vs)
  show ?thesis
    by (rule exit_keep [OF assms(3)]) (use test_count assms(2) in \<open>auto simp: walk_def split: if_splits\<close>)
next
  case (unlock r)
  show ?thesis
    by (rule exit_keep [OF assms(3)]) (use unlock assms(2) in \<open>auto split: if_splits block_result.splits\<close>)
qed (rule exit_keep [OF assms(3)]; use assms(2) in \<open>auto split: if_splits\<close>)+

lemma exit_ensure:
  assumes "ensure_step p s s'" "exit_inv n s"
  shows "exit_inv n s'"
  using assms(1)
  by cases (rule exit_keep [OF assms(2)]; auto split: if_splits)+

lemma exit_push:
  assumes "push_step n p s s'" "exit_inv n s"
  shows "exit_inv n s'"
  using assms(1)
proof cases
  case (push v)
  have "p_done s" if "unseen (w_pc s w) \<noteq> None" "w < n" for w using assms(2) that unfolding exit_inv_def by auto
  then show ?thesis using push by (intro exit_keep [OF assms(2)]) (auto split: if_splits)
qed

lemma exit_close:
  assumes "close_step n s s'" "exit_inv n s"
  shows "exit_inv n s'"
  using assms(1) by cases (rule exit_keep [OF assms(2)]; auto)+

section \<open>Shutting down\<close>

text \<open>A worker that will sleep or sleeps although the pool is being destroyed, and what will wake it: another worker that is not blocked, or is still testing, or leaves.\<close>

fun dozing :: "worker_pc \<Rightarrow> thread_status \<Rightarrow> bool" where
  "dozing Block st = True" | "dozing Recheck st = (st = Blocked)" | "dozing Asleep st = (st = Blocked)" | "dozing Awake st = (st = Blocked)"
| "dozing _ st = False"

fun stirs :: "nat \<Rightarrow> worker_pc \<Rightarrow> bool" where
  "stirs v Test_done = True" | "stirs v Test_count = True" | "stirs v (Rescan vs) = True" | "stirs v Uncount = True"
| "stirs v (Unblock r) = True" | "stirs v (Wake_all k) = (k \<le> v)"
| "stirs v p = (region p = 0)"

definition attended :: "nat \<Rightarrow> pool_state \<Rightarrow> nat \<Rightarrow> bool" where
  "attended n s v \<longleftrightarrow> (\<exists>p. wakes v (ensure s p)) \<or> (\<exists>k. p_closing s = Some k \<and> k \<le> v) \<or> (\<exists>u < n. stirs v (w_pc s u))"

lemma attendedI:
  "wakes v (ensure s p) \<Longrightarrow> attended n s v"
  "p_closing s = Some k \<Longrightarrow> k \<le> v \<Longrightarrow> attended n s v"
  "u < n \<Longrightarrow> stirs v (w_pc s u) \<Longrightarrow> attended n s v"
  unfolding attended_def by blast+

lemma attendedE:
  assumes "attended n s v"
  obtains p where "wakes v (ensure s p)" | k where "p_closing s = Some k" "k \<le> v" | u where "u < n" "stirs v (w_pc s u)"
  using assms unfolding attended_def by blast

definition shut_inv :: "nat \<Rightarrow> pool_state \<Rightarrow> bool" where
  "shut_inv n s \<longleftrightarrow> (\<forall>v < n. p_done s \<and> dozing (w_pc s v) (w_status s v) \<longrightarrow> attended n s v)"

lemma dozing_sleepy: "dozing p st \<Longrightarrow> sleepy p st"
  by (cases p) simp_all

lemma dozing_region: "dozing p st \<Longrightarrow> region p = 1 \<and> \<not> stirs v p"
  by (cases p) simp_all

lemma shut_keep:
  assumes "shut_inv n s"
    and "\<And>v. v < n \<Longrightarrow> p_done s' \<Longrightarrow> dozing (w_pc s' v) (w_status s' v) \<Longrightarrow>
      attended n s' v \<or> p_done s \<and> dozing (w_pc s v) (w_status s v) \<and> (attended n s v \<longrightarrow> attended n s' v)"
  shows "shut_inv n s'"
  using assms unfolding shut_inv_def by blast

text \<open>A step of worker \<open>w\<close> keeps \<open>v\<close> attended, unless \<open>w\<close> goes to sleep itself.\<close>

lemma attended_worker:
  assumes "attended n s v" "w_pc s' = (w_pc s)(w := q)" "w < n" "p_closing s' = p_closing s"
    and "\<And>p. ensure s p = Resting \<or> ensure s' p = ensure s p"
    and "stirs v (w_pc s w) \<Longrightarrow> stirs v q \<or> (\<exists>p. wakes v (ensure s' p))"
  shows "attended n s' v"
proof -
  from assms(1) show ?thesis
  proof (cases rule: attendedE)
    case (1 p)
    then show ?thesis using assms(5) [of p] by (metis attendedI(1) wakes.simps(4))
  next
    case (2 k)
    then show ?thesis using assms(4) by (simp add: attendedI(2))
  next
    case (3 u)
    show ?thesis
    proof (cases "u = w")
      case True
      then have "stirs v (w_pc s' w) \<or> (\<exists>p. wakes v (ensure s' p))" using 3 assms(2,6) by simp
      then show ?thesis using attendedI(1,3) assms(3) by blast
    next
      case False
      then have "stirs v (w_pc s' u)" using 3 assms(2) by simp
      then show ?thesis using 3(1) attendedI(3) by blast
    qed
  qed
qed

lemma shut_loop:
  assumes "loop_step n w s s'" "w < n" "shut_inv n s"
  shows "shut_inv n s'"
proof (rule shut_keep [OF assms(3)])
  fix v assume v: "v < n" "p_done s'" "dozing (w_pc s' v) (w_status s' v)"
  have frame: "w_pc s' = (w_pc s)(w := w_pc s' w)" "p_closing s' = p_closing s" "p_done s' = p_done s"
    "\<And>u. u \<noteq> w \<Longrightarrow> w_status s' u = w_status s u" "\<And>p. ensure s p = Resting \<or> ensure s' p = ensure s p"
    using assms(1) by (cases; auto)+
  have awake: "\<not> dozing (w_pc s' w) (w_status s' w)" using assms(1) by cases auto
  have stir: "stirs v (w_pc s' w) \<or> (\<exists>p. wakes v (ensure s' p))" if "stirs v (w_pc s w)"
    using assms(1)
  proof cases
    case (wake_next k)
    then show ?thesis using that by (cases "k = v") auto
  qed (use that v(1) in auto)
  have "v \<noteq> w" using v(3) awake by blast
  then have "dozing (w_pc s v) (w_status s v)" using v(3) frame(4) by (subst (asm) frame(1)) simp
  then show "attended n s' v \<or> p_done s \<and> dozing (w_pc s v) (w_status s v) \<and> (attended n s v \<longrightarrow> attended n s' v)"
    using attended_worker [OF _ frame(1) assms(2) frame(2) frame(5) stir] v(2) frame(3) by blast
qed

lemma not_all_blocked:
  assumes "count_inv n s" "p_blocked s \<noteq> n"
  shows "\<exists>u < n. region (w_pc s u) = 0"
proof (rule ccontr)
  assume "\<not> ?thesis"
  moreover have "region p \<le> 1" for p by (cases p rule: region.cases) simp_all
  ultimately have "region (w_pc s u) = 1" if "u < n" for u using that by (metis le_neq_implies_less less_one)
  then have "threads_sum region 0 n (w_pc s) = threads_sum (\<lambda>_. 1) 0 n (w_pc s)" by (intro threads_sum_cong) simp
  then show False using assms by (simp add: count_inv_def threads_sum_const)
qed

lemma stirs_outside: "region p = 0 \<Longrightarrow> stirs v p"
  by (cases p rule: region.cases) simp_all

lemma shut_block:
  assumes "block_step n w s s'" "w < n" "shut_inv n s" "count_inv n s"
  shows "shut_inv n s'"
proof (rule shut_keep [OF assms(3)])
  fix v assume v: "v < n" "p_done s'" "dozing (w_pc s' v) (w_status s' v)"
  have frame: "w_pc s' = (w_pc s)(w := w_pc s' w)" "p_closing s' = p_closing s" "p_done s' = p_done s"
    "\<And>u. u \<noteq> w \<Longrightarrow> w_status s' u = w_status s u" "\<And>p. ensure s p = Resting \<or> ensure s' p = ensure s p"
    using assms(1) by (cases; auto)+
  have stir: "stirs v (w_pc s' w) \<or> attended n s' v" if "stirs v (w_pc s w)"
    using assms(1)
  proof cases
    case (test_count vs)
    show ?thesis
    proof (cases "p_blocked s = n")
      case False
      then obtain u where u: "u < n" "region (w_pc s u) = 0" using not_all_blocked [OF assms(4)] by blast
      then have "u \<noteq> w" using test_count by auto
      then have "stirs v (w_pc s' u)" using stirs_outside [OF u(2)] by (subst frame(1)) simp
      then show ?thesis using u(1) by (auto simp: attended_def)
    qed (use test_count in simp)
  next
    case test_done
    then show ?thesis using v(2) frame(3) by simp
  next
    case (unlock r)
    then show ?thesis by (cases r) simp_all
  qed (use that in \<open>auto split: if_splits\<close>)
  have keep: "attended n s' v" if "attended n s v"
  proof (cases "stirs v (w_pc s w) \<and> \<not> stirs v (w_pc s' w)")
    case True
    then show ?thesis using stir by blast
  next
    case False
    then show ?thesis by (intro attended_worker [OF that frame(1) assms(2) frame(2,5)]) blast
  qed
  have "attended n s' v \<or> dozing (w_pc s v) (w_status s v)"
  proof (cases "v = w")
    case False
    then have "dozing (w_pc s v) (w_status s v)" using v(3) frame(4) by (subst (asm) frame(1)) simp
    then show ?thesis ..
  next
    case True
    show ?thesis using assms(1)
    proof cases
      case (test_count vs)
      then show ?thesis using stir v(3) True dozing_region [OF v(3)] by auto
    next
      case test_done
      then show ?thesis using v(2,3) frame(3) True by simp
    next
      case (unlock r)
      then show ?thesis using v(3) True by (cases r) auto
    qed (use v(3) True in \<open>auto split: if_splits\<close>)
  qed
  then show "attended n s' v \<or> p_done s \<and> dozing (w_pc s v) (w_status s v) \<and> (attended n s v \<longrightarrow> attended n s' v)"
    using keep v(2) frame(3) by blast
qed

lemma shut_ensure:
  assumes step: "ensure_step p s s'" and inv: "base_inv n s" and shut: "shut_inv n s"
  shows "shut_inv n s'"
proof (rule shut_keep [OF shut])
  fix v assume v: "v < n" "p_done s'" "dozing (w_pc s' v) (w_status s' v)"
  have frame: "p_closing s' = p_closing s" "p_done s' = p_done s" using step by (cases; auto)+
  have doze: "dozing (w_pc s v) (w_status s v)"
    using step
  proof cases
    case (check u)
    then show ?thesis using v(3) by (cases "w_pc s v") (auto split: if_splits)
  qed (use v(3) in \<open>auto split: if_splits\<close>)
  have stirs: "stirs w (w_pc s' u) \<longleftrightarrow> stirs w (w_pc s u)" for w u
    using step by cases (auto split: if_splits)
  have "attended n s' v" if "attended n s v"
    using that
  proof (cases rule: attendedE)
    case (1 q)
    then show ?thesis using wakes_keep [OF step inv v(1) dozing_sleepy [OF v(3)]] attendedI(1) by blast
  next
    case (2 k)
    then show ?thesis using frame(1) by (simp add: attendedI(2))
  next
    case (3 u)
    then show ?thesis using stirs by (simp add: attendedI(3))
  qed
  then show "attended n s' v \<or> p_done s \<and> dozing (w_pc s v) (w_status s v) \<and> (attended n s v \<longrightarrow> attended n s' v)"
    using doze v(2) frame(2) by blast
qed

lemma shut_push:
  assumes "push_step n p s s'" "shut_inv n s"
  shows "shut_inv n s'"
  using assms(1)
proof cases
  case (push u)
  have "attended n s' v" if "attended n s v" for v
    using that
  proof (cases rule: attendedE)
    case (1 q)
    then have "wakes v (ensure s' q)" using push by auto
    then show ?thesis by (rule attendedI)
  next
    case (2 k)
    then show ?thesis using push(1) by (simp add: attendedI(2))
  next
    case (3 u)
    then show ?thesis using push(1) by (simp add: attendedI(3))
  qed
  then show ?thesis using push(1) by (intro shut_keep [OF assms(2)]) simp
qed

lemma shut_close:
  assumes "close_step n s s'" "shut_inv n s"
  shows "shut_inv n s'"
  using assms(1)
proof cases
  case destroy
  then show ?thesis by (auto simp: shut_inv_def attended_def)
next
  case cancel
  then show ?thesis by (intro shut_keep [OF assms(2)]) (simp add: attended_def)
next
  case (wake_next k)
  have "attended n s' v" if "attended n s v" for v
    using that
  proof (cases rule: attendedE)
    case (1 q)
    then have "wakes v (ensure s' q)" using wake_next by auto
    then show ?thesis by (rule attendedI)
  next
    case (2 j)
    then consider "v = k" | "Suc k \<le> v" using wake_next(2) by force
    then show ?thesis
    proof cases
      case 1
      then have "wakes v (ensure s' n)" using wake_next(1) by simp
      then show ?thesis by (rule attendedI)
    qed (use wake_next(1) in \<open>simp add: attendedI(2)\<close>)
  next
    case (3 u)
    then show ?thesis using wake_next(1) by (simp add: attendedI(3))
  qed
  then show ?thesis using wake_next(1) by (intro shut_keep [OF assms(2)]) simp
qed

definition pool_inv :: "nat \<Rightarrow> pool_state \<Rightarrow> bool" where
  "pool_inv n s \<longleftrightarrow> base_inv n s \<and> wake_inv n s \<and> count_inv n s \<and> exit_inv n s \<and> shut_inv n s"

lemma pool_init_inv: "pool_inv n pool_init"
  by (simp add: pool_inv_def base_defs wake_inv_def count_inv_def exit_inv_def shut_inv_def pool_init_def threads_sum_def)

interpretation pool: transitions pool_start "pool_step n" "pool_inv n"
proof
  fix s s'
  show "pool_start s \<Longrightarrow> pool_inv n s" using pool_init_inv by (simp add: pool_start_def)
  show "pool_inv n s'" if "pool_step n s s'" "pool_inv n s"
    using that(1) unfolding pool_step_def
  proof (elim disjE exE conjE)
    fix w assume "w < n" "loop_step n w s s'"
    then show ?thesis using that(2) base_loop wake_loop count_loop exit_loop shut_loop unfolding pool_inv_def by blast
  next
    fix w assume "w < n" "block_step n w s s'"
    then show ?thesis using that(2) base_block wake_block count_block exit_block shut_block unfolding pool_inv_def by blast
  next
    fix p assume "ensure_step p s s'"
    then show ?thesis using that(2) base_ensure wake_ensure count_ensure exit_ensure shut_ensure unfolding pool_inv_def by blast
  next
    fix p assume "push_step n p s s'"
    then show ?thesis using that(2) base_push wake_push count_push exit_push shut_push unfolding pool_inv_def by blast
  next
    assume "close_step n s s'"
    then show ?thesis using that(2) base_close wake_close count_close exit_close shut_close unfolding pool_inv_def by blast
  qed
qed

section \<open>Properties\<close>

text \<open>
  C11. No wake-up is lost, and no assert fails: in every state that the threads can reach, a worker that sleeps although its queue
  is not empty, or that has been taken out of the status it waits for, is about to be woken: some thread has
  an \<open>EnsureAwake\<close> for it under way. \<open>blocked_\<close> is the number of workers between its increment and its decrement.
\<close>

theorem no_lost_wakeup:
  assumes "pool_reached n s" "v < n"
  shows "(w_pc s v = Asleep \<and> (w_queue s v \<noteq> [] \<or> w_status s v \<noteq> Blocked)
      \<longrightarrow> (\<exists>p. wakes v (ensure s p) \<or> ensure s p = Notify v))
    \<and> w_pc s v \<noteq> Failed \<and> (\<forall>p. ensure s p \<noteq> Ensure_failed) \<and> p_blocked s = threads_sum region 0 n (w_pc s)"
proof -
  have i: "base_inv n s" "wake_inv n s" "count_inv n s" using pool.reached_invariant [OF assms(1)] by (simp_all add: pool_inv_def)
  have "\<exists>p. wakes v (ensure s p) \<or> ensure s p = Notify v" if a: "w_pc s v = Asleep" "w_queue s v \<noteq> [] \<or> w_status s v \<noteq> Blocked"
  proof (cases "w_status s v = Blocked")
    case True
    then have "\<exists>p. wakes v (ensure s p)" using i(2) a assms(2) unfolding wake_inv_def by simp
    then show ?thesis by blast
  next
    case False
    then show ?thesis using i(2) a(1) assms(2) unfolding wake_inv_def by blast
  qed
  moreover have "w_pc s v \<noteq> Failed" using base_facts(1) [OF i(1) assms(2)] by auto
  ultimately show ?thesis using base_facts(5) [OF i(1)] i(3) unfolding count_inv_def by blast
qed


subsection \<open>Examples\<close>

lemma loop_run: "pool_reached n s \<Longrightarrow> loop_step n w s s' \<Longrightarrow> w < n \<Longrightarrow> pool_reached n s'"
  by (erule reached_step) (auto simp: pool_step_def)

lemma block_run: "pool_reached n s \<Longrightarrow> block_step n w s s' \<Longrightarrow> w < n \<Longrightarrow> pool_reached n s'"
  by (erule reached_step) (auto simp: pool_step_def)

lemma ensure_run: "pool_reached n s \<Longrightarrow> ensure_step p s s' \<Longrightarrow> pool_reached n s'"
  by (erule reached_step) (auto simp: pool_step_def)

lemma push_run: "pool_reached n s \<Longrightarrow> push_step n p s s' \<Longrightarrow> pool_reached n s'"
  by (erule reached_step) (auto simp: pool_step_def)

lemma close_run: "pool_reached n s \<Longrightarrow> close_step n s s' \<Longrightarrow> pool_reached n s'"
  by (erule reached_step) (auto simp: pool_step_def)

lemma walk_two [simp]: "walk 2 [0, Suc 0]"
  by (auto simp: walk_def)

lemmas pool_ops = goes_def status_to_def mutex_to_def queue_to_def ensure_to_def

lemma pool_0: "pool_reached 2 \<lparr>w_pc = (\<lambda>_. Head), w_status = (\<lambda>_. Spinning), w_mutex = (\<lambda>_. None), w_queue = (\<lambda>_. []),
     ensure = (\<lambda>_. Resting), p_blocked = 0, p_done = False, p_cancelled = False, p_closing = None\<rparr>"
  by (rule reached_start) (simp add: pool_start_def pool_init_def)

text \<open>Two workers; \<open>Cancel\<close> runs while worker 1 is between the test of its loop and \<open>SetBlocked\<close>.\<close>

lemmas hang_1 = loop_run [OF pool_0 loop_step.head [where w = 1 and n = 2], unfolded pool_ops, simplified]
lemmas hang_2 = loop_run [OF hang_1 loop_step.give_up [where w = 1 and n = 2], unfolded pool_ops, simplified]
lemmas hang_3 = close_run [OF hang_2 close_step.cancel [where n = 2], unfolded pool_ops, simplified]
lemmas hang_4 = close_run [OF hang_3 close_step.destroy [where n = 2], unfolded pool_ops, simplified]
lemmas hang_5 = close_run [OF hang_4 close_step.wake_next [where n = 2 and k = 0], unfolded pool_ops, simplified]
lemmas hang_6 = ensure_run [OF hang_5 ensure_step.look [where p = 2 and v = 0], unfolded pool_ops, simplified]
lemmas hang_7 = close_run [OF hang_6 close_step.wake_next [where n = 2 and k = 1], unfolded pool_ops, simplified]
lemmas hang_8 = ensure_run [OF hang_7 ensure_step.look [where p = 2 and v = 1], unfolded pool_ops, simplified]
lemmas hang_9 = loop_run [OF hang_8 loop_step.head [where w = 0 and n = 2], unfolded pool_ops, simplified]
lemmas hang_10 = block_run [OF hang_9 block_step.lock [where w = 1 and n = 2 and vs = "[0, 1]"], unfolded pool_ops, simplified]
lemmas hang_11 = block_run [OF hang_10 block_step.scan [where w = 1 and n = 2 and v = 0 and vs = "[1]"], unfolded pool_ops, simplified]
lemmas hang_12 = block_run [OF hang_11 block_step.scan [where w = 1 and n = 2 and v = 1 and vs = "[]"], unfolded pool_ops, simplified]
lemmas hang_13 = block_run [OF hang_12 block_step.scanned [where w = 1 and n = 2], unfolded pool_ops, simplified]
lemmas hang_14 = block_run [OF hang_13 block_step.count [where w = 1 and n = 2], unfolded pool_ops, simplified]
lemmas hang_15 = block_run [OF hang_14 block_step.test_done [where w = 1 and n = 2], unfolded pool_ops, simplified]
lemmas hang_16 = block_run [OF hang_15 block_step.test_count [where w = 1 and n = 2 and vs = "[0, 1]"], unfolded pool_ops, simplified]
lemmas hang_17 = block_run [OF hang_16 block_step.block [where w = 1 and n = 2], unfolded pool_ops, simplified]
lemmas hang_18 = block_run [OF hang_17 block_step.sleep [where w = 1 and n = 2], unfolded pool_ops, simplified]


text \<open>A client pushes a task and destroys the pool while worker 1 is between its increment of \<open>blocked_\<close> and its tests.\<close>

lemmas early_1 = loop_run [OF pool_0 loop_step.head [where w = 0 and n = 2], unfolded pool_ops, simplified]
lemmas early_2 = loop_run [OF early_1 loop_step.give_up [where w = 0 and n = 2], unfolded pool_ops, simplified]
lemmas early_3 = block_run [OF early_2 block_step.lock [where w = 0 and n = 2 and vs = "[0, 1]"], unfolded pool_ops, simplified]
lemmas early_4 = block_run [OF early_3 block_step.scan [where w = 0 and n = 2 and v = 0 and vs = "[1]"], unfolded pool_ops, simplified]
lemmas early_5 = block_run [OF early_4 block_step.scan [where w = 0 and n = 2 and v = 1 and vs = "[]"], unfolded pool_ops, simplified]
lemmas early_6 = block_run [OF early_5 block_step.scanned [where w = 0 and n = 2], unfolded pool_ops, simplified]
lemmas early_7 = block_run [OF early_6 block_step.count [where w = 0 and n = 2], unfolded pool_ops, simplified]
lemmas early_8 = block_run [OF early_7 block_step.test_done [where w = 0 and n = 2], unfolded pool_ops, simplified]
lemmas early_9 = block_run [OF early_8 block_step.block [where w = 0 and n = 2], unfolded pool_ops, simplified]
lemmas early_10 = block_run [OF early_9 block_step.sleep [where w = 0 and n = 2], unfolded pool_ops, simplified]
lemmas early_11 = loop_run [OF early_10 loop_step.head [where w = 1 and n = 2], unfolded pool_ops, simplified]
lemmas early_12 = loop_run [OF early_11 loop_step.give_up [where w = 1 and n = 2], unfolded pool_ops, simplified]
lemmas early_13 = block_run [OF early_12 block_step.lock [where w = 1 and n = 2 and vs = "[0, 1]"], unfolded pool_ops, simplified]
lemmas early_14 = block_run [OF early_13 block_step.scan [where w = 1 and n = 2 and v = 0 and vs = "[1]"], unfolded pool_ops, simplified]
lemmas early_15 = block_run [OF early_14 block_step.scan [where w = 1 and n = 2 and v = 1 and vs = "[]"], unfolded pool_ops, simplified]
lemmas early_16 = block_run [OF early_15 block_step.scanned [where w = 1 and n = 2], unfolded pool_ops, simplified]
lemmas early_17 = block_run [OF early_16 block_step.count [where w = 1 and n = 2], unfolded pool_ops, simplified]
lemmas early_18 = push_run [OF early_17 push_step.push [where p = 3 and n = 2 and v = 0], unfolded pool_ops, simplified]
lemmas early_19 = ensure_run [OF early_18 ensure_step.look [where p = 3 and v = 0], unfolded pool_ops, simplified]
lemmas early_20 = ensure_run [OF early_19 ensure_step.lock [where p = 3 and v = 0], unfolded pool_ops, simplified]
lemmas early_21 = ensure_run [OF early_20 ensure_step.check [where p = 3 and v = 0], unfolded pool_ops, simplified]
lemmas early_22 = ensure_run [OF early_21 ensure_step.notify [where p = 3 and v = 0], unfolded pool_ops, simplified]
lemmas early_23 = ensure_run [OF early_22 ensure_step.unlock [where p = 3 and v = 0], unfolded pool_ops, simplified]
lemmas early_24 = close_run [OF early_23 close_step.destroy [where n = 2], unfolded pool_ops, simplified]
lemmas early_25 = block_run [OF early_24 block_step.test_done [where w = 1 and n = 2], unfolded pool_ops, simplified]
lemmas early_26 = block_run [OF early_25 block_step.test_count [where w = 1 and n = 2 and vs = "[0, 1]"], unfolded pool_ops, simplified]
lemmas early_27 = block_run [OF early_26 block_step.relock [where w = 0 and n = 2], unfolded pool_ops, simplified]
lemmas early_28 = block_run [OF early_27 block_step.unblocked [where w = 0 and n = 2], unfolded pool_ops, simplified]
lemmas early_29 = block_run [OF early_28 block_step.post [where w = 0 and n = 2], unfolded pool_ops, simplified]
lemmas early_30 = block_run [OF early_29 block_step.unlock [where w = 0 and n = 2 and r = No_task], unfolded pool_ops, simplified]
lemmas early_31 = loop_run [OF early_30 loop_step.head [where w = 0 and n = 2], unfolded pool_ops, simplified]
lemmas early_32 = loop_run [OF early_31 loop_step.pop_front [where w = 0 and n = 2 and x = 3 and xs = "[]" and p = Holding], unfolded pool_ops, simplified]
lemmas early_33 = loop_run [OF early_32 loop_step.set_active [where w = 0 and n = 2], unfolded pool_ops, simplified]
lemmas early_34 = block_run [OF early_33 block_step.rescan [where w = 1 and n = 2 and v = 0 and vs = "[1]"], unfolded pool_ops, simplified]
lemmas early_35 = block_run [OF early_34 block_step.rescan [where w = 1 and n = 2 and v = 1 and vs = "[]"], unfolded pool_ops, simplified]
lemmas early_36 = block_run [OF early_35 block_step.rescanned [where w = 1 and n = 2], unfolded pool_ops, simplified]
lemmas early_37 = block_run [OF early_36 block_step.unlock [where w = 1 and n = 2 and r = Leaving], unfolded pool_ops, simplified]
lemmas early_38 = loop_run [OF early_37 loop_step.wake_next [where w = 1 and n = 2 and k = 0], unfolded pool_ops, simplified]
lemmas early_39 = ensure_run [OF early_38 ensure_step.look [where p = 1 and v = 0], unfolded pool_ops, simplified]
lemmas early_40 = loop_run [OF early_39 loop_step.wake_next [where w = 1 and n = 2 and k = 1], unfolded pool_ops, simplified]
lemmas early_41 = ensure_run [OF early_40 ensure_step.look [where p = 1 and v = 1], unfolded pool_ops, simplified]
lemmas early_42 = loop_run [OF early_41 loop_step.woke_all [where w = 1 and n = 2 and k = 2], unfolded pool_ops, simplified]

text \<open>Worker 0 ends its task and leaves too.\<close>

lemmas late_1 = loop_run [OF early_42 loop_step.ran [where w = 0 and n = 2], unfolded pool_ops, simplified]
lemmas late_2 = loop_run [OF late_1 loop_step.set_spinning [where w = 0 and n = 2], unfolded pool_ops, simplified]
lemmas late_3 = loop_run [OF late_2 loop_step.head [where w = 0 and n = 2], unfolded pool_ops, simplified]
lemmas late_4 = loop_run [OF late_3 loop_step.give_up [where w = 0 and n = 2], unfolded pool_ops, simplified]
lemmas late_5 = block_run [OF late_4 block_step.lock [where w = 0 and n = 2 and vs = "[0, 1]"], unfolded pool_ops, simplified]
lemmas late_6 = block_run [OF late_5 block_step.scan [where w = 0 and n = 2 and v = 0 and vs = "[1]"], unfolded pool_ops, simplified]
lemmas late_7 = block_run [OF late_6 block_step.scan [where w = 0 and n = 2 and v = 1 and vs = "[]"], unfolded pool_ops, simplified]
lemmas late_8 = block_run [OF late_7 block_step.scanned [where w = 0 and n = 2], unfolded pool_ops, simplified]
lemmas late_9 = block_run [OF late_8 block_step.count [where w = 0 and n = 2], unfolded pool_ops, simplified]
lemmas late_10 = block_run [OF late_9 block_step.test_done [where w = 0 and n = 2], unfolded pool_ops, simplified]
lemmas late_11 = block_run [OF late_10 block_step.test_count [where w = 0 and n = 2 and vs = "[0, 1]"], unfolded pool_ops, simplified]
lemmas late_12 = block_run [OF late_11 block_step.rescan [where w = 0 and n = 2 and v = 0 and vs = "[1]"], unfolded pool_ops, simplified]
lemmas late_13 = block_run [OF late_12 block_step.rescan [where w = 0 and n = 2 and v = 1 and vs = "[]"], unfolded pool_ops, simplified]
lemmas late_14 = block_run [OF late_13 block_step.rescanned [where w = 0 and n = 2], unfolded pool_ops, simplified]
lemmas late_15 = block_run [OF late_14 block_step.unlock [where w = 0 and n = 2 and r = Leaving], unfolded pool_ops, simplified]
lemmas late_16 = loop_run [OF late_15 loop_step.wake_next [where w = 0 and n = 2 and k = 0], unfolded pool_ops, simplified]
lemmas late_17 = ensure_run [OF late_16 ensure_step.look [where p = 0 and v = 0], unfolded pool_ops, simplified]
lemmas late_18 = loop_run [OF late_17 loop_step.wake_next [where w = 0 and n = 2 and k = 1], unfolded pool_ops, simplified]
lemmas late_19 = ensure_run [OF late_18 ensure_step.look [where p = 0 and v = 1], unfolded pool_ops, simplified]
lemmas late_20 = loop_run [OF late_19 loop_step.woke_all [where w = 0 and n = 2 and k = 2], unfolded pool_ops, simplified]
lemmas late_21 = close_run [OF late_20 close_step.wake_next [where n = 2 and k = 0], unfolded pool_ops, simplified]
lemmas late_22 = ensure_run [OF late_21 ensure_step.look [where p = 2 and v = 0], unfolded pool_ops, simplified]
lemmas late_23 = close_run [OF late_22 close_step.wake_next [where n = 2 and k = 1], unfolded pool_ops, simplified]
lemmas late_24 = ensure_run [OF late_23 ensure_step.look [where p = 2 and v = 1], unfolded pool_ops, simplified]


definition hung :: "worker_pc \<Rightarrow> nat option \<Rightarrow> pool_state \<Rightarrow> bool" where
  "hung p q s \<longleftrightarrow> w_pc s 0 = Stopped \<and> w_pc s 1 = p \<and> w_status s 1 = Blocked \<and> w_mutex s 1 = q \<and> (\<forall>t. ensure s t = Resting)
     \<and> p_done s \<and> p_cancelled s \<and> p_closing s = Some 2"

definition hangs :: "pool_state \<Rightarrow> bool" where
  "hangs s \<longleftrightarrow> hung Asleep None s \<or> hung Awake None s \<or> hung Recheck (Some 1) s"

lemma two_workers: "w < (2::nat) \<longleftrightarrow> w = 0 \<or> w = 1"
  by auto

lemma hangs_step:
  assumes "pool_step 2 s s'" "hangs s"
  shows "hangs s'"
proof -
  have h: "w_pc s 0 = Stopped" "w_status s 1 = Blocked" "ensure s t = Resting" "p_done s" "p_closing s = Some 2" for t
    using assms(2) by (auto simp: hangs_def hung_def)
  have one: "w_pc s 1 = Asleep \<or> w_pc s 1 = Awake \<or> w_pc s 1 = Recheck" using assms(2) by (auto simp: hangs_def hung_def)
  have "\<not> ensure_step p s s'" "\<not> push_step 2 p s s'" for p
    using h one by (auto elim!: ensure_step.cases push_step.cases simp: two_workers)
  moreover have "\<not> close_step 2 s s'" using h by (auto elim!: close_step.cases)
  moreover have "\<not> loop_step 2 w s s'" if "w < 2" for w
    using that h one by (auto simp: two_workers elim!: loop_step.cases)
  moreover have "\<not> block_step 2 0 s s'" using h by (auto elim!: block_step.cases)
  ultimately have "block_step 2 1 s s'" using assms(1) unfolding pool_step_def two_workers by metis
  then show ?thesis
    by cases (use assms(2) in \<open>auto simp: hangs_def hung_def\<close>)
qed

text \<open>\<open>P\<close> holds from now on, whatever happens.\<close>

definition stays :: "('s \<Rightarrow> 's \<Rightarrow> bool) \<Rightarrow> ('s \<Rightarrow> bool) \<Rightarrow> 's \<Rightarrow> bool" where
  "stays step P s \<longleftrightarrow> (\<forall>s'. step\<^sup>*\<^sup>* s s' \<longrightarrow> P s')"

lemma staysI: "I s \<Longrightarrow> (\<And>s s'. step s s' \<Longrightarrow> I s \<Longrightarrow> I s') \<Longrightarrow> (\<And>s. I s \<Longrightarrow> P s) \<Longrightarrow> stays step P s"
  unfolding stays_def
proof (intro allI impI)
  fix s' assume a: "I s" "\<And>s s'. step s s' \<Longrightarrow> I s \<Longrightarrow> I s'" "\<And>s. I s \<Longrightarrow> P s" "step\<^sup>*\<^sup>* s s'"
  have "I s'" using a(4,1) by (induction rule: rtranclp_induct) (use a(2) in blast)+
  then show "P s'" by (rule a(3))
qed

text \<open>
  C40. \<open>Cancel\<close> can leave a worker asleep for ever: with two workers there is a state that the threads can reach in which \<open>Cancel\<close> has gone over all
  workers, one of them has left, and the other never will, so that the destructor waits for it for ever.
\<close>

theorem cancel_can_hang:
  "\<exists>s. pool_reached 2 s \<and> p_cancelled s \<and> p_closing s = Some 2 \<and> w_pc s 0 = Stopped
    \<and> stays (pool_step 2) (\<lambda>s'. w_pc s' 1 \<noteq> Stopped \<and> w_pc s' 1 \<noteq> Exited) s"
proof -
  obtain s where s: "pool_reached 2 s" "p_cancelled s" "p_closing s = Some 2" "w_pc s 0 = Stopped" "hangs s"
    by (rule that [OF hang_18]) (simp_all add: hangs_def hung_def numeral_2_eq_2)
  have "stays (pool_step 2) (\<lambda>s'. w_pc s' 1 \<noteq> Stopped \<and> w_pc s' 1 \<noteq> Exited) s"
    by (rule staysI [of hangs, OF s(5) hangs_step]) (auto simp: hangs_def hung_def)
  then show ?thesis using s by blast
qed

text \<open>
  Leaving is not simultaneous: a worker can leave while another one runs a task, which may submit more work.
\<close>

theorem workers_leave_early: "\<exists>s. pool_reached 2 s \<and> \<not> p_cancelled s \<and> w_pc s 0 = Running \<and> w_pc s 1 = Exited"
proof -
  obtain s where "pool_reached 2 s" "\<not> p_cancelled s" "w_pc s 0 = Running" "w_pc s 1 = Exited"
    by (rule that [OF early_42]) simp_all
  then show ?thesis by blast
qed

theorem no_lost_wakeup_witness:
  "\<exists>s :: pool_state. w_pc s 0 = Asleep \<and> w_queue s 0 = [3] \<and> (\<exists>p. wakes 0 (ensure s p) \<or> ensure s p = Notify 0)"
proof -
  obtain s where s: "pool_reached 2 s" "w_pc s 0 = Asleep" "w_queue s 0 = [3]" by (rule that [OF early_18]) simp_all
  have "\<exists>p. wakes 0 (ensure s p) \<or> ensure s p = Notify 0" using no_lost_wakeup [OF s(1), of 0] s(2,3) by simp
  then show ?thesis using s(2,3) by blast
qed


end
