(* ===== verification/Utf8.thy ===== *)
theory Utf8
  imports Prelude
begin

text \<open>
  The UTF-8 routines of onnxruntime/core/common/utf8_util.h: the length of a character from its
  leading byte, the number of characters of a buffer and the validation of one. A buffer is
  the list of its bytes; a false result is \<open>None\<close>, the reference argument of a true one the
  value. The reference the validation is compared with is the encoding of the Unicode scalar values.
\<close>

unbundle bit_operations_syntax

section \<open>The routines\<close>

type_synonym byte = "8 word"

definition utf8_bytes :: "byte \<Rightarrow> nat option" where
  "utf8_bytes ch =
     (if ch AND 0x80 = 0 then Some 1
      else if ch AND 0xE0 = 0xC0 then Some 2
      else let result = ch AND 0xF0 in
        if result = 0xE0 then Some 3 else if result = 0xF0 then Some 4 else None)"

text \<open>\<open>utf8_len\<close> walks down the buffer; \<open>n\<close> is the \<open>result\<close> so far.\<close>

function utf8_len_loop :: "byte list \<Rightarrow> nat \<Rightarrow> nat option" where
  "utf8_len_loop s n =
     (if s = [] then Some n
      else case utf8_bytes (hd s) of
        None \<Rightarrow> None
      | Some char_bytes \<Rightarrow>
          if length s < char_bytes then None else utf8_len_loop (drop char_bytes s) (Suc n))"
  by pat_completeness auto

lemma utf8_bytes_pos: "utf8_bytes ch = Some k \<Longrightarrow> 0 < k"
  by (auto simp: utf8_bytes_def Let_def split: if_splits)

termination utf8_len_loop
  by (relation "measure (\<lambda>(s, n). length s)") (auto dest: utf8_bytes_pos)

declare utf8_len_loop.simps [simp del]

definition utf8_len :: "byte list \<Rightarrow> nat option" where
  "utf8_len s = utf8_len_loop s 0"

text \<open>The test every continuation byte gets, after \<open>idx\<close> has been advanced to it.\<close>

definition byte_in :: "byte list \<Rightarrow> nat \<Rightarrow> byte \<Rightarrow> byte \<Rightarrow> bool" where
  "byte_in s idx lo hi \<longleftrightarrow> \<not> (idx \<ge> length s \<or> s ! idx < lo \<or> s ! idx > hi)"

text \<open>The second byte of a character of three or four bytes, by its leading byte.\<close>

definition second_of_3 :: "byte list \<Rightarrow> nat \<Rightarrow> bool" where
  "second_of_3 s idx =
     (let ch1 = s ! idx in
      if ch1 = 0xE0 then byte_in s (Suc idx) 0xA0 0xBF
      else if ch1 = 0xED then byte_in s (Suc idx) 0x80 0x9F
      else if (ch1 \<ge> 0xE1 \<and> ch1 \<le> 0xEC) \<or> (ch1 \<ge> 0xEE \<and> ch1 \<le> 0xEF) then byte_in s (Suc idx) 0x80 0xBF
      else False)"

definition second_of_4 :: "byte list \<Rightarrow> nat \<Rightarrow> bool" where
  "second_of_4 s idx =
     (let ch1 = s ! idx in
      if ch1 = 0xF0 then byte_in s (Suc idx) 0x90 0xBF
      else if ch1 = 0xF4 then byte_in s (Suc idx) 0x80 0x8F
      else if ch1 \<ge> 0xF1 \<and> ch1 \<le> 0xF3 then byte_in s (Suc idx) 0x80 0xBF
      else False)"

text \<open>The switch of the loop: the index of the last byte of the character at \<open>idx\<close>.\<close>

definition validate_char :: "byte list \<Rightarrow> nat \<Rightarrow> nat option" where
  "validate_char s idx =
     (case utf8_bytes (s ! idx) of
        None \<Rightarrow> None
      | Some bytes \<Rightarrow>
          if bytes = 1 then Some idx
          else if bytes = 2 then (if byte_in s (idx + 1) 0x80 0xBF then Some (idx + 1) else None)
          else if bytes = 3 then
            (if second_of_3 s idx \<and> byte_in s (idx + 2) 0x80 0xBF then Some (idx + 2) else None)
          else if bytes = 4 then
            (if second_of_4 s idx \<and> byte_in s (idx + 2) 0x80 0xBF \<and> byte_in s (idx + 3) 0x80 0xBF
             then Some (idx + 3) else None)
          else None)"

lemma validate_char_range:
  "validate_char s idx = Some j \<Longrightarrow> idx < length s \<Longrightarrow> idx \<le> j \<and> j < length s"
  by (auto simp: validate_char_def byte_in_def split: option.splits if_splits)

function validate_loop :: "byte list \<Rightarrow> nat \<Rightarrow> nat \<Rightarrow> nat option" where
  "validate_loop s idx n =
     (if idx < length s then
        case validate_char s idx of
          None \<Rightarrow> None
        | Some j \<Rightarrow> validate_loop s (Suc j) (Suc n)
      else if idx \<noteq> length s then None
      else Some n)"
  by pat_completeness auto

termination validate_loop
  by (relation "measure (\<lambda>(s, idx, n). length s - idx)") (auto dest: validate_char_range)

declare validate_loop.simps [simp del]

definition utf8_validate :: "byte list \<Rightarrow> nat option" where
  "utf8_validate s = validate_loop s 0 0"

section \<open>The reference\<close>

definition scalar_value :: "nat \<Rightarrow> bool" where
  "scalar_value cp \<longleftrightarrow> cp < 0x110000 \<and> \<not> (0xD800 \<le> cp \<and> cp < 0xE000)"

definition code_units :: "nat \<Rightarrow> nat list" where
  "code_units cp =
     (if cp < 0x80 then [cp]
      else if cp < 0x800 then [0xC0 + cp div 64, 0x80 + cp mod 64]
      else if cp < 0x10000 then [0xE0 + cp div 4096, 0x80 + cp div 64 mod 64, 0x80 + cp mod 64]
      else [0xF0 + cp div 262144, 0x80 + cp div 4096 mod 64, 0x80 + cp div 64 mod 64, 0x80 + cp mod 64])"

definition encode :: "nat \<Rightarrow> byte list" where
  "encode cp = map of_nat (code_units cp)"

text \<open>The two-byte forms of the first 128 characters, which UTF-8 forbids and the code accepts.\<close>

definition overlong2 :: "nat \<Rightarrow> byte list" where
  "overlong2 cp = map of_nat [0xC0 + cp div 64, 0x80 + cp mod 64]"

text \<open>The same characters by the values of their bytes.\<close>

fun well_formed :: "nat list \<Rightarrow> bool" where
  "well_formed [a] \<longleftrightarrow> a < 0x80"
| "well_formed [a, b] \<longleftrightarrow> 0xC0 \<le> a \<and> a < 0xE0 \<and> b \<in> {0x80..<0xC0}"
| "well_formed [a, b, c] \<longleftrightarrow> 0xE0 \<le> a \<and> a < 0xF0 \<and> b \<in> {0x80..<0xC0} \<and> c \<in> {0x80..<0xC0} \<and>
     (a = 0xE0 \<longrightarrow> 0xA0 \<le> b) \<and> (a = 0xED \<longrightarrow> b < 0xA0)"
| "well_formed [a, b, c, d] \<longleftrightarrow> 0xF0 \<le> a \<and> a \<le> 0xF4 \<and> b \<in> {0x80..<0xC0} \<and> c \<in> {0x80..<0xC0} \<and>
     d \<in> {0x80..<0xC0} \<and> (a = 0xF0 \<longrightarrow> 0x90 \<le> b) \<and> (a = 0xF4 \<longrightarrow> b < 0x90)"
| "well_formed _ \<longleftrightarrow> False"

section \<open>Bytes\<close>

lemma unat_and_not_mask: "unat (ch AND NOT (mask n) :: byte) = unat ch div 2 ^ n * 2 ^ n"
proof -
  have "ch AND NOT (mask n) = push_bit n (drop_bit n ch)" by (rule bit_word_eqI) (auto simp: bit_simps)
  also have "unat \<dots> = (unat ch div 2 ^ n * 2 ^ n) mod 2 ^ 8"
    using unsigned_less [of ch, where 'a = nat]
    by (simp only: unsigned_push_bit_eq unsigned_drop_bit_eq)
      (simp add: take_bit_eq_mod push_bit_eq_mult drop_bit_eq_div)
  also have "\<dots> = unat ch div 2 ^ n * 2 ^ n"
    using unsigned_less [of ch, where 'a = nat]
    by (intro mod_less le_less_trans [OF div_times_less_eq_dividend]) simp
  finally show ?thesis .
qed

lemma leading_bits:
  "unat (ch AND 0x80 :: byte) = unat ch div 128 * 128"
  "unat (ch AND 0xE0 :: byte) = unat ch div 32 * 32"
  "unat (ch AND 0xF0 :: byte) = unat ch div 16 * 16"
proof -
  have m: "(0x80 :: byte) = NOT (mask 7)" "(0xE0 :: byte) = NOT (mask 5)" "(0xF0 :: byte) = NOT (mask 4)"
    by code_simp+
  show "unat (ch AND 0x80 :: byte) = unat ch div 128 * 128" unfolding m unat_and_not_mask by simp
  show "unat (ch AND 0xE0 :: byte) = unat ch div 32 * 32" unfolding m unat_and_not_mask by simp
  show "unat (ch AND 0xF0 :: byte) = unat ch div 16 * 16" unfolding m unat_and_not_mask by simp
qed

lemma block_of:
  assumes "0 < k"
  shows "(n :: nat) div k * k = m * k \<longleftrightarrow> m * k \<le> n \<and> n < Suc m * k"
proof -
  have "n div k * k = m * k \<longleftrightarrow> m \<le> n div k \<and> n div k < Suc m" using assms by auto
  then show ?thesis using assms by (simp only: less_eq_div_iff_mult_less_eq div_less_iff_less_mult)
qed

lemma utf8_bytes_unat:
  "utf8_bytes ch =
     (if unat ch < 0x80 then Some 1 else if unat ch < 0xC0 then None
      else if unat ch < 0xE0 then Some 2 else if unat ch < 0xF0 then Some 3 else Some 4)"
proof -
  have "unat ch < 256" using unsigned_less [of ch, where 'a = nat] by simp
  then have "ch AND 0x80 = 0 \<longleftrightarrow> unat ch < 0x80" "ch AND 0xE0 = 0xC0 \<longleftrightarrow> 0xC0 \<le> unat ch \<and> unat ch < 0xE0"
    "ch AND 0xF0 = 0xE0 \<longleftrightarrow> 0xE0 \<le> unat ch \<and> unat ch < 0xF0" "ch AND 0xF0 = 0xF0 \<longleftrightarrow> 0xF0 \<le> unat ch"
    using block_of [of 128 "unat ch" 0] block_of [of 32 "unat ch" 6] block_of [of 16 "unat ch" 14]
      block_of [of 16 "unat ch" 15]
    by (simp_all add: word_unat_eq_iff leading_bits)
  then show ?thesis by (simp add: utf8_bytes_def)
qed

lemma byte_in_unat:
  "byte_in s i lo hi \<longleftrightarrow> i < length s \<and> unat lo \<le> unat (s ! i) \<and> unat (s ! i) \<le> unat hi"
  by (auto simp: byte_in_def word_le_nat_alt word_less_nat_alt)

lemma byte_eq_unat: "x = (y :: byte) \<longleftrightarrow> unat x = unat y"
  by (rule word_unat_eq_iff)


section \<open>One character\<close>

lemma second_of_3_unat:
  "second_of_3 s i \<longleftrightarrow> (let a = unat (s ! i); b = unat (s ! Suc i) in
     Suc i < length s \<and> 0xE0 \<le> a \<and> a < 0xF0 \<and> b \<in> {0x80..<0xC0} \<and>
     (a = 0xE0 \<longrightarrow> 0xA0 \<le> b) \<and> (a = 0xED \<longrightarrow> b < 0xA0))"
  by (auto simp: second_of_3_def Let_def byte_in_unat byte_eq_unat word_le_nat_alt)

lemma second_of_4_unat:
  "second_of_4 s i \<longleftrightarrow> (let a = unat (s ! i); b = unat (s ! Suc i) in
     Suc i < length s \<and> 0xF0 \<le> a \<and> a \<le> 0xF4 \<and> b \<in> {0x80..<0xC0} \<and>
     (a = 0xF0 \<longrightarrow> 0x90 \<le> b) \<and> (a = 0xF4 \<longrightarrow> b < 0x90))"
  by (auto simp: second_of_4_def Let_def byte_in_unat byte_eq_unat word_le_nat_alt)


lemma validate_char_drop:
  assumes "idx < length s"
  shows "validate_char s idx = map_option (\<lambda>j. idx + j) (validate_char (drop idx s) 0)"
proof -
  have b: "byte_in s (idx + i) lo hi = byte_in (drop idx s) i lo hi" for i lo hi
    using assms by (auto simp: byte_in_unat)
  have 3: "second_of_3 s idx = second_of_3 (drop idx s) 0" and 4: "second_of_4 s idx = second_of_4 (drop idx s) 0"
    using assms b [of 1] by (simp_all add: second_of_3_def second_of_4_def)
  show ?thesis
    using assms b [of "Suc 0"] b [of 2] b [of 3]
    by (cases "utf8_bytes (s ! idx)") (simp_all add: validate_char_def 3 4 numeral_2_eq_2 numeral_3_eq_3)
qed

lemma well_formed_length: "well_formed cs \<Longrightarrow> 0 < length cs \<and> length cs \<le> 4"
  by (cases cs rule: well_formed.cases) simp_all

lemma validate_char_start:
  assumes "t \<noteq> []"
  shows "validate_char t 0 = Some j \<longleftrightarrow> j < length t \<and> well_formed (map unat (take (Suc j) t))"
proof -
  obtain a t1 where t: "t = a # t1" using assms by (cases t) auto
  consider "j = 0" | b t2 where "t1 = b # t2" "j = 1" | b c t3 where "t1 = b # c # t3" "j = 2"
    | b c d t4 where "t1 = b # c # d # t4" "j = 3" | "length t \<le> j" | "3 < j" "j < length t"
  proof -
    have "\<exists>b t2. t1 = b # t2" if "1 < length t"
      using that by (cases t1) (simp_all add: t)
    moreover have "\<exists>b c t3. t1 = b # c # t3" if "2 < length t"
      using that by (cases t1; cases "tl t1") (simp_all add: t)
    moreover have "\<exists>b c d t4. t1 = b # c # d # t4" if "3 < length t"
      using that by (cases t1; cases "tl t1"; cases "tl (tl t1)") (simp_all add: t)
    moreover have "j = 0 \<or> j = 1 \<or> j = 2 \<or> j = 3 \<or> 3 < j" by linarith
    ultimately show thesis using that by (meson not_less)
  qed
  then show ?thesis
  proof cases
    case 1
    then show ?thesis by (auto simp: t validate_char_def utf8_bytes_unat)
  next
    case 2
    then show ?thesis by (auto simp: t validate_char_def utf8_bytes_unat byte_in_unat)
  next
    case 3
    show ?thesis
    proof (cases "0xE0 \<le> unat a \<and> unat a < 0xF0")
      case True
      then have "utf8_bytes a = Some 3" by (simp add: utf8_bytes_unat)
      then have "validate_char t 0 = Some j \<longleftrightarrow> second_of_3 t 0 \<and> byte_in t 2 0x80 0xBF"
        using 3 by (simp add: t validate_char_def numeral_2_eq_2)
      then show ?thesis using 3 by (auto simp: t byte_in_unat second_of_3_unat Let_def)
    qed (use 3 in \<open>auto simp: t validate_char_def utf8_bytes_unat split: if_splits\<close>)
  next
    case 4
    show ?thesis
    proof (cases "0xF0 \<le> unat a")
      case True
      then have "utf8_bytes a = Some 4" by (simp add: utf8_bytes_unat)
      then have "validate_char t 0 = Some j \<longleftrightarrow> second_of_4 t 0 \<and> byte_in t 2 0x80 0xBF \<and> byte_in t 3 0x80 0xBF"
        using 4 by (simp add: t validate_char_def numeral_2_eq_2)
      then show ?thesis using 4 by (auto simp: t byte_in_unat second_of_4_unat Let_def)
    qed (use 4 in \<open>auto simp: t validate_char_def utf8_bytes_unat split: if_splits\<close>)
  next
    case 5
    then show ?thesis using validate_char_range [of t 0 j] assms by auto
  next
    case 6
    have "\<not> well_formed (map unat (take (Suc j) t))" using well_formed_length 6 by fastforce
    moreover have "validate_char t 0 \<noteq> Some j"
      using 6 by (auto simp: validate_char_def split: option.splits if_splits)
    ultimately show ?thesis by simp
  qed
qed


section \<open>The loop\<close>

text \<open>The character the loop reads at \<open>idx\<close>.\<close>

lemma validate_char_iff:
  assumes "idx < length s"
  shows "validate_char s idx = Some j \<longleftrightarrow>
     (\<exists>c. well_formed (map unat c) \<and> drop idx s = c @ drop (Suc j) s \<and> Suc j = idx + length c)"
proof -
  have "validate_char s idx = Some j \<longleftrightarrow> (\<exists>i. j = idx + i \<and> validate_char (drop idx s) 0 = Some i)"
    unfolding validate_char_drop [OF assms] by auto
  also have "\<dots> \<longleftrightarrow> (\<exists>i. j = idx + i \<and> idx + i < length s \<and> well_formed (map unat (take (Suc i) (drop idx s))))"
    using validate_char_start [of "drop idx s"] assms by auto
  also have "\<dots> \<longleftrightarrow> (\<exists>c. well_formed (map unat c) \<and> drop idx s = c @ drop (Suc j) s \<and> Suc j = idx + length c)"
  proof (intro iffI; elim exE conjE)
    fix i assume a: "j = idx + i" "idx + i < length s" "well_formed (map unat (take (Suc i) (drop idx s)))"
    have "drop idx s = take (Suc i) (drop idx s) @ drop (Suc j) s"
      using append_take_drop_id [of "Suc i" "drop idx s"] a(1) by (simp add: add.commute)
    with a show "\<exists>c. well_formed (map unat c) \<and> drop idx s = c @ drop (Suc j) s \<and> Suc j = idx + length c"
      by (intro exI [where x = "take (Suc i) (drop idx s)"]) simp
  next
    fix c assume c: "well_formed (map unat c)" "drop idx s = c @ drop (Suc j) s" "Suc j = idx + length c"
    have "length (drop idx s) \<ge> length c" by (subst c(2)) simp
    moreover have "take (length c) (drop idx s) = c" by (subst c(2)) simp
    ultimately show "\<exists>i. j = idx + i \<and> idx + i < length s \<and> well_formed (map unat (take (Suc i) (drop idx s)))"
      using c(1,3) well_formed_length [OF c(1)] by (cases "length c") auto
  qed
  finally show ?thesis .
qed

lemma validate_loop_iff:
  assumes "idx \<le> length s"
  shows "validate_loop s idx n = Some m \<longleftrightarrow>
     (\<exists>cs. (\<forall>c\<in>set cs. well_formed (map unat c)) \<and> drop idx s = concat cs \<and> m = n + length cs)"
  using assms
proof (induction s idx n rule: validate_loop.induct)
  case (1 s idx n)
  show ?case
  proof (cases "idx < length s")
    case False
    then have "idx = length s" using 1(2) by simp
    moreover have "cs = []" if "\<forall>c\<in>set cs. well_formed (map unat c)" "concat cs = []" for cs
      using that by (cases cs) auto
    ultimately show ?thesis by (subst validate_loop.simps) auto
  next
    case True
    show ?thesis
    proof
      assume a: "validate_loop s idx n = Some m"
      then obtain j where j: "validate_char s idx = Some j" "validate_loop s (Suc j) (Suc n) = Some m"
        using True by (subst (asm) validate_loop.simps) (auto split: option.splits)
      then obtain cs where cs: "\<forall>c\<in>set cs. well_formed (map unat c)" "drop (Suc j) s = concat cs" "m = Suc n + length cs"
        using 1(1) [OF True j(1)] validate_char_range [OF j(1) True] by auto
      obtain c where c: "well_formed (map unat c)" "drop idx s = c @ drop (Suc j) s"
        using j(1) validate_char_iff [OF True] by blast
      show "\<exists>cs. (\<forall>c\<in>set cs. well_formed (map unat c)) \<and> drop idx s = concat cs \<and> m = n + length cs"
        using cs c by (intro exI [where x = "c # cs"]) simp
    next
      assume "\<exists>cs. (\<forall>c\<in>set cs. well_formed (map unat c)) \<and> drop idx s = concat cs \<and> m = n + length cs"
      then obtain cs where cs: "\<forall>c\<in>set cs. well_formed (map unat c)" "drop idx s = concat cs" "m = n + length cs"
        by blast
      then obtain c ds where ds: "cs = c # ds" using True by (cases cs) auto
      define j where "j = idx + length c - 1"
      have c: "well_formed (map unat c)" "Suc j = idx + length c"
        using cs(1) ds well_formed_length [of "map unat c"] by (auto simp: j_def)
      have rest: "drop (Suc j) s = concat ds"
        using cs(2) ds c(2) by (metis add.commute append_eq_conv_conj concat.simps(2) drop_drop)
      have j: "validate_char s idx = Some j"
        unfolding validate_char_iff [OF True] using c cs(2) ds rest by (intro exI [where x = c]) simp
      have "\<exists>cs. (\<forall>c\<in>set cs. well_formed (map unat c)) \<and> drop (Suc j) s = concat cs \<and> m = Suc n + length cs"
        using cs ds rest by (intro exI [where x = ds]) simp
      moreover have "Suc j \<le> length s" using validate_char_range [OF j True] by simp
      ultimately have "validate_loop s (Suc j) (Suc n) = Some m"
        using 1(1) [OF True j] by blast
      then show "validate_loop s idx n = Some m"
        using True j by (subst validate_loop.simps) simp
    qed
  qed
qed


section \<open>Characters and code points\<close>

text \<open>The four base-64 digits of a code point.\<close>

lemma digits:
  obtains x y z u where "n = x * 262144 + y * 4096 + z * 64 + u" "y < 64" "z < 64" "u < (64 :: nat)"
    "n div 262144 = x" "n div 4096 = x * 64 + y" "n div 4096 mod 64 = y"
    "n div 64 = x * 4096 + y * 64 + z" "n div 64 mod 64 = z" "n mod 64 = u"
proof
  have horner: "((a * 64 + b) * 64 + c) * 64 + d = a * 262144 + b * 4096 + c * 64 + d"
    "(a * 64 + b) * 64 + c = a * 4096 + b * 64 + c" for a b c d :: nat by simp_all
  have d: "n div 4096 = n div 64 div 64" "n div 262144 = n div 64 div 64 div 64"
    by (simp_all add: div_mult2_eq [symmetric])
  have 1: "n = ((n div 64 div 64 div 64 * 64 + n div 64 div 64 mod 64) * 64 + n div 64 mod 64) * 64 + n mod 64"
    and 2: "n div 64 = (n div 64 div 64 div 64 * 64 + n div 64 div 64 mod 64) * 64 + n div 64 mod 64"
    and 3: "n div 64 div 64 = n div 64 div 64 div 64 * 64 + n div 64 div 64 mod 64"
    by (simp_all only: div_mult_mod_eq)
  show "n = n div 262144 * 262144 + n div 4096 mod 64 * 4096 + n div 64 mod 64 * 64 + n mod 64"
    unfolding d by (rule trans [OF 1]) (rule horner)
  show "n div 4096 = n div 262144 * 64 + n div 4096 mod 64" unfolding d by (rule 3)
  show "n div 64 = n div 262144 * 4096 + n div 4096 mod 64 * 64 + n div 64 mod 64"
    unfolding d by (rule trans [OF 2]) (rule horner)
qed simp_all

lemma well_formed_code_units:
  assumes "scalar_value cp"
  shows "well_formed (code_units cp)"
proof (cases rule: digits [of cp])
  case (1 x y z u)
  note d = 1
  consider "cp < 0x80" | "0x80 \<le> cp" "cp < 0x800" | "0x800 \<le> cp" "cp < 0x10000" | "0x10000 \<le> cp" by linarith
  then show ?thesis
  proof cases
    case 2
    then have "x = 0" "y = 0" using d by linarith+
    with 2 d show ?thesis by (simp add: code_units_def)
  next
    case 3
    then have "x = 0" using d by linarith
    with 3 d assms show ?thesis by (auto simp: code_units_def scalar_value_def)
  next
    case 4
    with d assms show ?thesis by (auto simp: code_units_def scalar_value_def)
  qed (simp add: code_units_def)
qed


lemma div_mod_block: "r < k \<Longrightarrow> (q * k + r) div k = q \<and> (q * k + r) mod k = (r :: nat)"
  by simp

lemma compose2:
  assumes "u < (64 :: nat)"
  shows "(z * 64 + u) div 64 = z" "(z * 64 + u) mod 64 = u"
  using div_mod_block [OF assms, of z] by simp_all

lemma compose3:
  assumes "z < (64 :: nat)" "u < 64"
  shows "(y * 4096 + z * 64 + u) div 4096 = y" "(y * 4096 + z * 64 + u) div 64 mod 64 = z"
    "(y * 4096 + z * 64 + u) mod 64 = u"
proof -
  have e: "y * 4096 + z * 64 + u = (y * 64 + z) * 64 + u" by simp
  show "(y * 4096 + z * 64 + u) div 4096 = y"
    using div_mod_block [of "z * 64 + u" 4096 y] assms by simp
  show "(y * 4096 + z * 64 + u) div 64 mod 64 = z" "(y * 4096 + z * 64 + u) mod 64 = u"
    unfolding e using compose2 [OF assms(2), of "y * 64 + z"] compose2 [OF assms(1), of y] by simp_all
qed

lemma compose4:
  assumes "y < (64 :: nat)" "z < 64" "u < 64"
  shows "(x * 262144 + y * 4096 + z * 64 + u) div 262144 = x"
    "(x * 262144 + y * 4096 + z * 64 + u) div 4096 mod 64 = y"
    "(x * 262144 + y * 4096 + z * 64 + u) div 64 mod 64 = z" "(x * 262144 + y * 4096 + z * 64 + u) mod 64 = u"
proof -
  have e: "x * 262144 + y * 4096 + z * 64 + u = (x * 64 + y) * 4096 + z * 64 + u" by simp
  show "(x * 262144 + y * 4096 + z * 64 + u) div 262144 = x"
    using div_mod_block [of "y * 4096 + z * 64 + u" 262144 x] assms by (simp add: add.assoc)
  show "(x * 262144 + y * 4096 + z * 64 + u) div 4096 mod 64 = y"
    "(x * 262144 + y * 4096 + z * 64 + u) div 64 mod 64 = z" "(x * 262144 + y * 4096 + z * 64 + u) mod 64 = u"
    unfolding e using compose3 [OF assms(2,3), of "x * 64 + y"] compose2 [OF assms(1), of x] by simp_all
qed

lemma code_units_3:
  assumes "y < 16" "z < 64" "u < 64" "y = 0 \<longrightarrow> 32 \<le> z"
  shows "code_units (y * 4096 + z * 64 + u) = [0xE0 + y, 0x80 + z, 0x80 + u]"
proof -
  have "0x800 \<le> y * 4096 + z * 64 + u" using assms by (cases "y = 0") auto
  moreover have "y * 4096 + z * 64 + u < 0x10000" using assms by linarith
  ultimately show ?thesis unfolding code_units_def compose3 [OF assms(2,3)] by simp
qed

lemma code_units_4:
  assumes "y < 64" "z < 64" "u < 64" "x = 0 \<longrightarrow> 16 \<le> y"
  shows "code_units (x * 262144 + y * 4096 + z * 64 + u) = [0xF0 + x, 0x80 + y, 0x80 + z, 0x80 + u]"
proof -
  have "0x10000 \<le> x * 262144 + y * 4096 + z * 64 + u" using assms by (cases "x = 0") auto
  then show ?thesis unfolding code_units_def compose4 [OF assms(1-3)] by simp
qed

lemma well_formed_decode:
  assumes "well_formed bs"
  shows "(\<exists>cp. scalar_value cp \<and> bs = code_units cp) \<or> (\<exists>cp < 0x80. bs = [0xC0 + cp div 64, 0x80 + cp mod 64])"
  using assms
proof (cases bs rule: well_formed.cases)
  case (1 a)
  then show ?thesis using assms by (intro disjI1 exI [where x = a]) (simp add: scalar_value_def code_units_def)
next
  case (2 a b)
  with assms obtain x u where ab: "a = 0xC0 + x" "b = 0x80 + u" "x < 32" "u < 64"
    by (auto elim!: less_eqE)
  let ?cp = "x * 64 + u"
  note c = compose2 [OF ab(4), of x]
  show ?thesis
  proof (cases "?cp < 0x80")
    case True
    then show ?thesis using 2 ab c by (intro disjI2 exI [where x = ?cp]) simp
  next
    case False
    then show ?thesis using 2 ab c
      by (intro disjI1 exI [where x = ?cp]) (simp add: scalar_value_def code_units_def)
  qed
next
  case (3 a b c)
  with assms obtain x z u where abc: "a = 0xE0 + x" "b = 0x80 + z" "c = 0x80 + u" "x < 16" "z < 64" "u < 64"
    by (auto elim!: less_eqE)
  then have "x = 0 \<longrightarrow> 32 \<le> z" "x = 13 \<longrightarrow> z < 32" using assms 3 by auto
  moreover have "scalar_value (x * 4096 + z * 64 + u)"
  proof (cases "x = 13")
    case True
    with \<open>x = 13 \<longrightarrow> z < 32\<close> abc(6) show ?thesis by (simp add: scalar_value_def)
  next
    case False
    with abc(4-6) have "x * 4096 + z * 64 + u < 0xD800 \<or> 0xE000 \<le> x * 4096 + z * 64 + u" by linarith
    moreover have "x * 4096 + z * 64 + u < 0x110000" using abc(4-6) by linarith
    ultimately show ?thesis by (auto simp: scalar_value_def)
  qed
  ultimately show ?thesis using 3 abc code_units_3 [of x z u] by metis
next
  case (4 a b c d)
  with assms obtain x y z u where abcd: "a = 0xF0 + x" "b = 0x80 + y" "c = 0x80 + z" "d = 0x80 + u"
    "x \<le> 4" "y < 64" "z < 64" "u < 64"
    by (auto elim!: less_eqE)
  then have "x = 0 \<longrightarrow> 16 \<le> y" "x = 4 \<longrightarrow> y < 16" using assms 4 by auto
  moreover from this have "scalar_value (x * 262144 + y * 4096 + z * 64 + u)"
    using abcd by (auto simp: scalar_value_def)
  ultimately show ?thesis using 4 abcd code_units_4 [of y z u x] by metis
qed simp_all


lemma well_formed_bytes: "well_formed bs \<Longrightarrow> list_all (\<lambda>b. b < 256) bs"
  by (cases bs rule: well_formed.cases) auto

lemma well_formed_overlong2: "cp < 0x80 \<Longrightarrow> well_formed [0xC0 + cp div 64, 0x80 + cp mod 64]"
  by (auto simp: less_mult_imp_div_less)

lemma map_unat_bytes: "list_all (\<lambda>b. b < 256) bs \<Longrightarrow> map unat (map of_nat bs :: byte list) = bs"
  by (induction bs) (auto simp: unat_of_nat take_bit_eq_mod)

text \<open>A well-formed character of the code is a scalar value in UTF-8 or an overlong form of two bytes.\<close>

definition accepted :: "byte list \<Rightarrow> bool" where
  "accepted c \<longleftrightarrow> (\<exists>cp. scalar_value cp \<and> c = encode cp) \<or> (\<exists>cp < 0x80. c = overlong2 cp)"

lemma accepted_intros:
  "scalar_value cp \<Longrightarrow> accepted (encode cp)" "cp < 0x80 \<Longrightarrow> accepted (overlong2 cp)"
  unfolding accepted_def by blast+

lemma accepted_iff: "well_formed (map unat c) \<longleftrightarrow> accepted c"
proof
  assume w: "well_formed (map unat c)"
  have c: "c = map of_nat (map unat c)" by (simp add: comp_def)
  from well_formed_decode [OF w] show "accepted c"
    unfolding accepted_def encode_def overlong2_def by (metis c)
next
  assume "accepted c"
  then show "well_formed (map unat c)"
    unfolding accepted_def encode_def overlong2_def
    using well_formed_code_units well_formed_overlong2 well_formed_bytes map_unat_bytes by metis
qed

lemma utf8_validate_iff:
  "utf8_validate s = Some n \<longleftrightarrow> (\<exists>cs. (\<forall>c\<in>set cs. accepted c) \<and> s = concat cs \<and> n = length cs)"
  using validate_loop_iff [of 0 s 0 n] by (simp add: utf8_validate_def accepted_iff)

section \<open>Counting characters\<close>

lemma well_formed_leading:
  "well_formed (map unat c) \<Longrightarrow> c \<noteq> [] \<and> utf8_bytes (hd c) = Some (length c)"
  by (cases "map unat c" rule: well_formed.cases) (auto simp: utf8_bytes_unat map_eq_Cons_conv)

lemma utf8_len_concat:
  "\<forall>c\<in>set cs. accepted c \<Longrightarrow> utf8_len_loop (concat cs) n = Some (n + length cs)"
proof (induction cs arbitrary: n)
  case (Cons c cs)
  then have "c \<noteq> []" "utf8_bytes (hd c) = Some (length c)"
    using well_formed_leading [of c] by (simp_all add: accepted_iff)
  with Cons show ?case by (subst utf8_len_loop.simps) simp
qed (simp add: utf8_len_loop.simps)

section \<open>Properties\<close>

text \<open>
  C24. Validation accepts a buffer exactly when it is a sequence of characters each of which is
  the UTF-8 encoding of a Unicode scalar value (no surrogate, nothing over 10FFFF, no overlong
  form of three or four bytes, nothing cut short), or one of the two-byte overlong forms, led
  by C0 or C1; it then gives the number of those characters, and \<open>utf8_len\<close> gives the same.
\<close>
theorem utf8_validate_correct:
  "(utf8_validate s = Some n \<longleftrightarrow>
      (\<exists>cs. (\<forall>c\<in>set cs. accepted c) \<and> s = concat cs \<and> n = length cs))
   \<and> (utf8_validate s = Some n \<longrightarrow> utf8_len s = Some n)"
  using utf8_validate_iff [of s n] utf8_len_concat [of _ 0] by (auto simp: utf8_len_def)

theorem utf8_validate_correct_witness:
  "utf8_len (concat [encode 0x41, encode 0x20AC, overlong2 0]) = Some 3"
proof -
  have "\<forall>c\<in>set [encode 0x41, encode 0x20AC, overlong2 0]. accepted c"
    by (simp add: accepted_intros scalar_value_def)
  then have "\<exists>cs. (\<forall>c\<in>set cs. accepted c) \<and> concat [encode 0x41, encode 0x20AC, overlong2 0] = concat cs \<and> 3 = length cs"
    by (intro exI [of _ "[encode 0x41, encode 0x20AC, overlong2 0]"]) simp
  with utf8_validate_correct [of "concat [encode 0x41, encode 0x20AC, overlong2 0]" 3] show ?thesis by blast
qed

text \<open>The code accepts the two-byte form of the null character, which UTF-8 forbids.\<close>

lemma overlong_null_accepted: "utf8_validate [0xC0, 0x80] = Some 1"
proof -
  have "[0xC0, 0x80] = concat [overlong2 0]" by (simp add: overlong2_def)
  then show ?thesis unfolding utf8_validate_iff
    by (intro exI [of _ "[overlong2 0]"]) (simp add: accepted_intros)
qed

end
