(* ===== verification/Spec2Isabelle.thy ===== *)
theory Spec2Isabelle
  imports PimGemm MatMul Broadcast Pool Slices TreeScores JavaArrays JniErrors MemPattern Arena Stealing ConcurrentQueue Barrier ParallelSection Workers Utf8
begin

text \<open>
  Verification of the C and C++ code of an ONNX Runtime with an execution provider for
  processing in memory. All paths are below src/pim_sw/ort_project_release. Of the C++ sources the
  repository has the headers, so what is modelled is the code that is defined in headers, and the
  C sources of the Java bindings. The properties stand in the theories of their components, each
  after a text with its number; this theory only brings them together.

  \<^bold>\<open>Parts and how they meet.\<close> An operator kernel first turns the shapes of its operands into
  the shape of the output and into offsets or iterators (matrix products, broadcasting,
  convolution, pooling, slicing), then runs its loops over the buffers, in parts that a thread pool takes; the PIM kernel also rearranges the weights for
  the banks of the device. The buffers of one execution are placed in one block by the memory
  pattern planner, the loops run on a thread pool whose workers take from a work queue. The Java
  bindings make calls into the C API, into the JVM and to the C library, and own the handles
  they get from these until they release them.

  \<^bold>\<open>Shared theories.\<close>
  \<^item> Prelude: results \<open>'a res\<close> with the errors of the code (a status, a failed \<open>ORT_ENFORCE\<close>, an
    exception, an undefined access), checked vector access, counted loops with their invariant
    rules; the locale \<open>lossless\<close> (conversions that can be undone).
  \<^item> Radix: row-major strides, the index of a position under given strides, repetition along
    dimensions of 1.
  \<^item> Float32: rounding to single precision, exact for the quotients that shape arithmetic makes.

  \<^bold>\<open>Kernels.\<close>
  \<^item> PimGemm (core/providers/pim/math/gemm.h, pim/helper/pim_interface.h): \<open>wgt_align_chunk\<close> with its
    three cases. Its theorems are the layout, its losslessness, and the room it needs.
  \<^item> MatMul (core/providers/cpu/math/matmul_helper.h): \<open>MatMulComputeHelper\<close>. \<open>Compute\<close> follows the
    rule of numpy.matmul and its offsets lie inside the operands; two kinds of mismatch
    that it accepts are exhibited.
  \<^item> Broadcast (core/providers/cpu/math/element_wise_ops.h, from \<open>BroadcastIterator\<close> on): the
    iterators, their construction, the loop over spans. The central lemmas are \<open>AdvanceBy_walked\<close> (after \<open>t\<close>
    steps the counters are the digits of \<open>t\<close> and the index a sum over the carries),
    \<open>Append_building\<close> (every dimension keeps that sum equal to the index under broadcast
    strides) and \<open>process_part\<close> (one span or a part of it).
  \<^item> ConvShape, Pool (core/providers/common.h, cpu/nn/conv_attributes.h, conv_transpose_attributes.h,
    pool_attributes.h): constructors, padding modes, output shapes, adjusted pads.

  \<^item> Slices (core/providers/cpu/tensor/utils.h): pitches, axis counters, slice iterators. The position of an
    iterator after \<open>t\<close> elements is \<open>slice_at\<close>; the locales \<open>row_copy\<close> and \<open>row_write\<close> are what a caller of the
    four row copies relies on, interpreted by each of them that keeps to it.
  \<^item> ThreadLoops (include/onnxruntime/core/platform/threadpool.h): how a parallel loop is cut into
    batches; \<open>local_loops\<close> says that tasks with a cell of their own give the same result in every order.
  \<^item> TreeEnsemble, MlCommon, TreeScores (core/providers/cpu/ml/tree_ensemble_common.h,
    tree_ensemble_aggregator.h, ml_common.h): a tree ensemble from its attributes to the output. The constructor
    builds what \<open>ensemble_wf\<close> says, the walk follows the relation \<open>decides\<close>; the locale \<open>aggregator_laws\<close> has the laws by
    which scores may be computed apart and merged, interpreted by all ten aggregators, and \<open>ComputeAgg_rows\<close> brings every
    parallel section down to the loop over rows and trees.

  \<^bold>\<open>Runtime.\<close>
  \<^item> MemPattern (core/framework/mem_pattern_planner.h, mem_pattern.h, and the program counters of
    sequential_execution_plan.h): \<open>planner_inv\<close> is kept by every operation, so it holds in every
    planner of the inductive set \<open>traced\<close>.
  \<^item> Arena (core/framework/bfc_arena.h): the bins of the memory arena and its regions. \<open>regions_ok\<close> (ordered, apart, one
    handle for each block of 256 bytes) is kept, and \<open>handles_of\<close> is the map that the regions implement.
  \<^item> RunQueue (include/onnxruntime/core/platform/EigenNonBlockingThreadPool.h, class \<open>RunQueue\<close>): the
    ring with its 32-bit indices simulates (\<open>rep\<close>, \<open>sim\<close>) a bounded deque with revocation; the
    locale \<open>work_queue\<close> is the interface, interpreted by the ring.
  \<^item> ConcurrentQueue (same class): the operations of the ring again, each as its accesses to the atomic members, by the
    owner and the holder of the mutex at once. \<open>shared_rep\<close> says which cells of the ring are in whose hands and how far the
    indices are behind; it is a simulation to the deque (locale \<open>simulation\<close>), from which linearizability, the
    exclusive access to elements and the meaning of \<open>Empty\<close> follow. \<open>calls_alone\<close>: a call that is not disturbed is the
    function of RunQueue.
  \<^item> Stealing (same header, class \<open>ThreadPoolTempl\<close>): the walk over the queues of the workers, stealing, and the hints
    about spinning workers; what stealing finds is proved in \<open>work_queue\<close>, for any queue with its laws.
  \<^item> Interleaving, Barrier (include/onnxruntime/core/platform/Barrier.h): threads as interleaved steps. The locales
    \<open>transitions\<close> and \<open>progress\<close> give the reachable states an invariant, and by a rank that every run
    ends (\<open>always_ends\<close>); \<open>fair_progress\<close> gives that every fair run gets to its goal.
  \<^item> ParallelSection (EigenNonBlockingThreadPool.h, from \<open>AllocateParallelSection\<close> to \<open>RunInParallel\<close>): a main thread and its
    tasks. \<open>section_inv\<close> ties the counters of the section to the places of the tasks; the property that a loop's frame outlives its
    users, and that the waiting ends, follow from it.
  \<^item> Workers (same header, \<open>WorkerLoop\<close>, \<open>SetBlocked\<close>, \<open>EnsureAwake\<close>, the destructor): going to sleep, being woken and leaving.
    \<open>wake_inv\<close> says that work in the queue of a sleeper is attended to, \<open>exit_inv\<close> what a leaving worker has seen,
    \<open>shut_inv\<close> that somebody stirs a worker that dozes while the pool is being destroyed.
  \<^item> Utf8 (core/common/utf8_util.h): validation compared with the encoding of scalar values.

  \<^bold>\<open>Java bindings\<close> (java/src/main/native, include/onnxruntime/core/session/onnxruntime_c_api.h).
  \<^item> JniEnums, JavaArrays: conversions of codes and halves, copies between Java arrays of any rank
    and tensor memory, as functions on data.
  \<^item> JniBase: a binding is a computation that makes calls and gets answers from an environment \<open>E\<close>,
    which may depend on all calls so far. The trace has the calls with their answers; the locale
    \<open>ledger\<close> derives the balance of a weight over the trace from the text of a function.
  \<^item> JniLedger: the ledgers for handles, kinds of handles, stores and statuses, and what \<open>leak_free\<close>, \<open>owns\<close>,
    \<open>frees\<close> and \<open>cleared\<close> mean.
  \<^item> JniUtil, JniTensor, JniContainers, JniSession, JniOptions: every function and native method,
    statement by statement, with what it takes and releases. JniErrors: what becomes of an
    error status, for all of them.

  \<^bold>\<open>Numbers, bounds and fuel.\<close> Dimensions are \<open>nat\<close> or \<open>int\<close>; 64-bit wrap-around is kept where
    the code depends on it (the planner, the conversion to \<open>int64_t\<close>, the casts to 32 bits in
    pooling, the indices of the work queue, the addresses of the arena) and left out for products of dimensions. \<open>Flush\<close> has fuel for its loop: \<open>kSize\<close>
    turns are proved enough. \<open>span_loop\<close> has fuel: as many turns as output elements are proved
    enough. The walk through a tree is a partial function, since it may not end; when it ends is a theorem. All other
  loops are recursions with a termination proof. The scores of trees are elements of an ordered field:
  sums of floats are not associative, and with rounding the sections of \<open>ComputeAgg\<close> agree only up to it.

  \<^bold>\<open>Parameters.\<close> What is not C or C++ code of the repository is an argument: the answers of the
    runtime, the JVM and libc to the Java bindings; \<open>SizeToDimension\<close> and the attributes of a node,
    which are only declared, as is \<open>TensorShape::Size\<close>; the order in which the pool runs the tasks of a
  loop, its degree of parallelism (1 without a pool); exponential, logarithm, square root and comparisons with NaN; what an operator does with the elements of a span; the segments the
    thread pool makes of a loop; whether an execution provider is built in.

  \<^bold>\<open>Not modelled.\<close> Everything whose definition is in a .cc file (the \<open>Compute\<close> methods, the
    PIM provider, the graph, the sessions, the arena's allocation): only declarations are in
    the tree. In Workers and ParallelSection the operations of a
    work queue are single steps; ConcurrentQueue justifies that for one queue, but the two are not composed. Memory
    orders: the threads see one order of all steps. The branches for \<open>_WIN32\<close>. In the Java
    bindings a read or write through a pointer is an event of the trace, not memory, except
    for the array copies. Other execution providers, the matrix library's intrinsics, third-party and
    generated code, the hardware.

  \<^bold>\<open>Left.\<close> The index arithmetic of resampling (cpu/tensor/upsample.h).
\<close>

end
